(* ===== verification/Prelude.thy ===== *)
theory Prelude
  imports Main "HOL-Library.Word"
begin

text \<open>
  Shared vocabulary of the development: the machine integers of the kernel at their C width,
  byte sequences with the little-endian reading and writing that the packed structures rely on,
  C strings as byte lists without their terminating NUL, and the few generic lemmas on lists
  that several components use.  Counted loops \<open>for (i = 0; i < n; i++)\<close> without an early exit are
  written \<open>fold (\<lambda>i st. ...) [0..<n]\<close>; the lemmas about such folds are collected here too.
\<close>

unbundle bit_operations_syntax

type_synonym u8 = "8 word"
type_synonym u16 = "16 word"
type_synonym u32 = "32 word"
type_synonym u64 = "64 word"

text \<open>A C string: the bytes before the terminating NUL.\<close>
type_synonym cstring = "u8 list"

named_theorems byte_simps \<open>rewriting of byte sequences, slices and little-endian fields\<close>
named_theorems layout \<open>sizes and lengths that never change\<close>

section \<open>C strings\<close>

text \<open>\<open>s[i]\<close> of a C string \<open>s\<close>: the bytes, then the terminator.\<close>
definition cget :: "cstring \<Rightarrow> nat \<Rightarrow> u8" where
  "cget s i = (if i < length s then s ! i else 0)"

definition bytes_of :: "string \<Rightarrow> cstring" where
  "bytes_of s = map (\<lambda>c. of_char c) s"

definition is_cstring :: "cstring \<Rightarrow> bool" where
  "is_cstring s \<longleftrightarrow> 0 \<notin> set s"

lemma cget_Nil [simp]: "cget [] i = 0"
  by (simp add: cget_def)

lemma cget_Cons_0 [simp]: "cget (c # s) 0 = c"
  by (simp add: cget_def)

lemma cget_Cons_Suc [simp]: "cget (c # s) (Suc i) = cget s i"
  by (simp add: cget_def)

lemma is_cstring_simps [simp]:
  "is_cstring []"
  "is_cstring (c # s) \<longleftrightarrow> c \<noteq> 0 \<and> is_cstring s"
  "is_cstring (s @ t) \<longleftrightarrow> is_cstring s \<and> is_cstring t"
  by (auto simp: is_cstring_def)

lemma is_cstring_nth: "is_cstring s \<Longrightarrow> i < length s \<Longrightarrow> s ! i \<noteq> 0"
  by (metis is_cstring_def nth_mem)

lemma is_cstring_take: "is_cstring s \<Longrightarrow> is_cstring (take n s)"
  by (auto simp: is_cstring_def dest: in_set_takeD)

lemma is_cstring_drop: "is_cstring s \<Longrightarrow> is_cstring (drop n s)"
  by (auto simp: is_cstring_def dest: in_set_dropD)

section \<open>Slices of byte sequences\<close>

definition slice_at :: "'a list \<Rightarrow> nat \<Rightarrow> nat \<Rightarrow> 'a list" where
  "slice_at bs off n = take n (drop off bs)"

definition put_bytes :: "'a list \<Rightarrow> nat \<Rightarrow> 'a list \<Rightarrow> 'a list" where
  "put_bytes bs off ws = take off bs @ ws @ drop (off + length ws) bs"

lemma length_slice [simp, layout]: "off + n \<le> length bs \<Longrightarrow> length (slice_at bs off n) = n"
  by (simp add: slice_at_def)

lemma length_put_bytes [simp, layout]:
  "off + length ws \<le> length bs \<Longrightarrow> length (put_bytes bs off ws) = length bs"
  by (simp add: put_bytes_def)

lemma slice_nth: "i < n \<Longrightarrow> off + n \<le> length bs \<Longrightarrow> slice_at bs off n ! i = bs ! (off + i)"
  by (simp add: slice_at_def)

lemma put_bytes_nth:
  "off + length ws \<le> length bs \<Longrightarrow> i < length bs \<Longrightarrow>
   put_bytes bs off ws ! i = (if off \<le> i \<and> i < off + length ws then ws ! (i - off) else bs ! i)"
  by (auto simp: put_bytes_def nth_append)

lemma slice_put_same [byte_simps]:
  "off + length ws \<le> length bs \<Longrightarrow> n = length ws \<Longrightarrow> slice_at (put_bytes bs off ws) off n = ws"
  by (simp add: slice_at_def put_bytes_def)

lemma slice_put_other [byte_simps]:
  "off' + length ws \<le> length bs \<Longrightarrow> off + n \<le> length bs \<Longrightarrow>
   off + n \<le> off' \<or> off' + length ws \<le> off \<Longrightarrow>
   slice_at (put_bytes bs off' ws) off n = slice_at bs off n"
  by (rule nth_equalityI) (auto simp: slice_nth put_bytes_nth)

lemma slice_put_within [byte_simps]:
  "off' + length ws \<le> length bs \<Longrightarrow> off' \<le> off \<Longrightarrow> off + n \<le> off' + length ws \<Longrightarrow>
   slice_at (put_bytes bs off' ws) off n = slice_at ws (off - off') n"
  by (rule nth_equalityI) (auto simp: slice_nth put_bytes_nth)

lemma slice_put_around:
  "off' + length ws \<le> length bs \<Longrightarrow> off \<le> off' \<Longrightarrow> off' + length ws \<le> off + n \<Longrightarrow> off + n \<le> length bs \<Longrightarrow>
   slice_at (put_bytes bs off' ws) off n = put_bytes (slice_at bs off n) (off' - off) ws"
  by (rule nth_equalityI) (auto simp: slice_nth put_bytes_nth add.commute)

lemma slice_whole [byte_simps]: "n = length bs \<Longrightarrow> slice_at bs 0 n = bs"
  by (simp add: slice_at_def)

lemma slice_slice [byte_simps]:
  "off + n \<le> m \<Longrightarrow> slice_at (slice_at bs off' m) off n = slice_at bs (off' + off) n"
  by (simp add: slice_at_def min_def drop_take add.commute)

lemma slice_append_adjacent: "slice_at bs off (m + n) = slice_at bs off m @ slice_at bs (off + m) n"
  by (simp add: slice_at_def take_add add.commute)

section \<open>Little-endian fields\<close>

definition le_bytes :: "nat \<Rightarrow> 'a::len word \<Rightarrow> u8 list" where
  "le_bytes n w = map (\<lambda>i. ucast (drop_bit (8 * i) w)) [0..<n]"

primrec of_le :: "u8 list \<Rightarrow> 'a::len word" where
  "of_le [] = 0"
| "of_le (b # bs) = ucast b OR push_bit 8 (of_le bs)"

lemma length_le_bytes [simp, layout]: "length (le_bytes n w) = n"
  by (simp add: le_bytes_def)

lemma bit_of_le:
  "bit (of_le bs :: 'a::len word) k \<longleftrightarrow>
     k < LENGTH('a) \<and> k div 8 < length bs \<and> bit (bs ! (k div 8)) (k mod 8)"
proof (induction bs arbitrary: k)
  case Nil
  then show ?case by simp
next
  case (Cons b bs)
  show ?case
  proof (cases "k < 8")
    case True
    then show ?thesis by (auto simp: bit_simps)
  next
    case False
    then obtain j where j: "k = j + 8" by (metis add.commute le_Suc_ex not_less)
    have "\<not> bit b (j + 8)" by (simp add: bit_word.rep_eq)
    moreover have "(j + 8) div 8 = Suc (j div 8)" by simp
    ultimately show ?thesis
      by (auto simp: bit_simps j Cons.IH)
  qed
qed

lemma of_le_le_bytes [byte_simps]:
  "LENGTH('a) \<le> 8 * n \<Longrightarrow> of_le (le_bytes n w) = (w :: 'a::len word)"
proof (rule bit_word_eqI)
  fix k assume n: "LENGTH('a) \<le> 8 * n" and k: "k < LENGTH('a)"
  then have "k div 8 < n" by (simp add: less_mult_imp_div_less mult.commute)
  moreover have "8 * (k div 8) + k mod 8 = k" by simp
  ultimately show "bit (of_le (le_bytes n w) :: 'a word) k = bit w k"
    using k by (auto simp: bit_of_le le_bytes_def bit_simps)
qed

lemma le_bytes_of_le [byte_simps]:
  assumes "length bs = n" and "8 * n \<le> LENGTH('a)"
  shows "le_bytes n (of_le bs :: 'a::len word) = bs"
proof (rule nth_equalityI)
  show "length (le_bytes n (of_le bs :: 'a word)) = length bs" using assms by simp
next
  fix i assume "i < length (le_bytes n (of_le bs :: 'a word))"
  then have i: "i < n" by simp
  show "le_bytes n (of_le bs :: 'a word) ! i = bs ! i"
  proof (rule bit_word_eqI)
    fix k assume k: "k < LENGTH(8)"
    then have "8 * i + k < LENGTH('a)" using i assms(2) by simp
    moreover have "(8 * i + k) div 8 = i" "(8 * i + k) mod 8 = k" using k by auto
    ultimately show "bit (le_bytes n (of_le bs :: 'a word) ! i) k = bit (bs ! i) k"
      using i k assms(1) by (simp add: le_bytes_def bit_simps bit_of_le)
  qed
qed

section \<open>Arithmetic without wrap-around\<close>

text \<open>An \<open>int\<close> that is not negative.\<close>
lemma sint_small32:
  assumes "unat (w :: u32) < 2 ^ 31"
  shows "sint w = int (unat w)"
proof -
  have "uint w < 2 ^ 31" using assms by (metis of_nat_less_numeral_power_cancel_iff uint_nat)
  then have "signed_take_bit 31 (uint w) = uint w"
    by (intro signed_take_bit_int_eq_self) (simp_all add: order_trans [OF _ uint_ge_0])
  then show ?thesis by (simp add: sint_uint)
qed

lemma scast_small:
  assumes "unat (w :: u32) < 2 ^ 31"
  shows "unat (scast w :: u64) = unat w"
proof -
  have "(scast w :: u64) = of_nat (unat w)" by (simp add: scast_eq sint_small32 [OF assms])
  also have "unat (of_nat (unat w) :: u64) = unat w" using assms by (simp only: unat_of_nat) simp
  finally show ?thesis .
qed

lemma unat_add_nowrap:
  "unat a + unat b < 2 ^ LENGTH('a) \<Longrightarrow> unat (a + b) = unat a + unat (b :: 'a::len word)"
  by (simp add: unat_word_ariths)

lemma unat_mult_nowrap:
  "unat a * unat b < 2 ^ LENGTH('a) \<Longrightarrow> unat (a * b) = unat a * unat (b :: 'a::len word)"
  by (simp add: unat_word_ariths)

lemma unat_diff_nowrap: "b \<le> a \<Longrightarrow> unat (a - b) = unat a - unat (b :: 'a::len word)"
  by (simp add: unat_sub)

lemma unat_ucast_up:
  assumes "LENGTH('a) \<le> LENGTH('b)"
  shows "unat (ucast (w :: 'a::len word) :: 'b::len word) = unat w"
proof -
  have "unat w < 2 ^ LENGTH('a)" by (rule unsigned_less)
  also have "(2::nat) ^ LENGTH('a) \<le> 2 ^ LENGTH('b)" using assms by simp
  finally show ?thesis by (simp add: unsigned_ucast_eq unsigned_take_bit_eq take_bit_nat_eq_self)
qed

lemma unat_less: "unat (w :: 'a::len word) < 2 ^ LENGTH('a)"
  by (rule unsigned_less)

lemma unat_and_not_mask: "unat (and w (not (mask n))) = unat (w :: 'a::len word) div 2 ^ n * 2 ^ n"
proof -
  have "and w (not (mask n)) = push_bit n (drop_bit n w)"
    by (rule bit_word_eqI) (auto simp: bit_simps)
  then have "unat (and w (not (mask n))) = (unat w div 2 ^ n * 2 ^ n) mod 2 ^ LENGTH('a)"
    by (simp only: unsigned_push_bit_eq unsigned_drop_bit_eq) (simp add: push_bit_eq_mult drop_bit_eq_div take_bit_eq_mod)
  moreover have "unat w div 2 ^ n * 2 ^ n < 2 ^ LENGTH('a)"
    using unsigned_less [of w] order_le_less_trans [OF div_times_less_eq_dividend] by blast
  ultimately show ?thesis by simp
qed

lemma unat_ucast_mod: "unat (ucast (w :: 'a::len word) :: 'b::len word) = unat w mod 2 ^ LENGTH('b)"
  by (simp add: unsigned_ucast_eq unsigned_take_bit_eq take_bit_eq_mod)

section \<open>Loops with an early exit\<close>

text \<open>
  The body of a loop either goes on with a new loop state or leaves it with a result (\<open>return\<close> and
  \<open>break\<close> in C).
\<close>
datatype ('a, 'r) flow = Cont 'a | Stop 'r

fun walk_list :: "('x \<Rightarrow> 'a \<Rightarrow> ('a, 'r) flow) \<Rightarrow> 'x list \<Rightarrow> 'a \<Rightarrow> ('a, 'r) flow" where
  "walk_list f [] a = Cont a"
| "walk_list f (x # xs) a = (case f x a of Cont a' \<Rightarrow> walk_list f xs a' | Stop r \<Rightarrow> Stop r)"

lemma walk_list_append:
  "walk_list f (xs @ ys) a = (case walk_list f xs a of Cont a' \<Rightarrow> walk_list f ys a' | Stop r \<Rightarrow> Stop r)"
  by (induction xs arbitrary: a) (auto split: flow.split)

text \<open>Nested loops are one loop over the flattened list.\<close>
lemma walk_list_concat:
  "walk_list (\<lambda>x. walk_list f (g x)) xs a = walk_list f (concat (map g xs)) a"
  by (induction xs arbitrary: a) (auto simp: walk_list_append split: flow.split)

lemma walk_list_map: "walk_list f (map g xs) a = walk_list (\<lambda>x. f (g x)) xs a"
  by (induction xs arbitrary: a) (auto split: flow.split)

lemma walk_list_map_fun: "walk_list f (map g xs) = walk_list (\<lambda>x. f (g x)) xs"
  by (rule ext) (rule walk_list_map)

lemma walk_list_cong:
  "(\<And>x a. x \<in> set xs \<Longrightarrow> f x a = g x a) \<Longrightarrow> walk_list f xs a = walk_list g xs a"
  by (induction xs arbitrary: a) (auto split: flow.split)

text \<open>An invariant of the loop state.\<close>
lemma walk_list_inv:
  assumes "\<And>x a. x \<in> set xs \<Longrightarrow> P a \<Longrightarrow> (case f x a of Cont a' \<Rightarrow> P a' | Stop r \<Rightarrow> Q r)" and "P a"
  shows "case walk_list f xs a of Cont a' \<Rightarrow> P a' | Stop r \<Rightarrow> Q r"
  using assms
proof (induction xs arbitrary: a)
  case (Cons x xs)
  have fx: "case f x a of Cont a' \<Rightarrow> P a' | Stop r \<Rightarrow> Q r"
    by (rule Cons.prems(1)) (simp_all add: Cons.prems(2))
  show ?case
  proof (cases "f x a")
    case (Cont a')
    then have "P a'" using fx by simp
    have "case walk_list f xs a' of Cont b \<Rightarrow> P b | Stop r \<Rightarrow> Q r"
      by (rule Cons.IH) (simp_all add: Cons.prems(1) \<open>P a'\<close>)
    then show ?thesis using Cont by simp
  next
    case (Stop r)
    then show ?thesis using fx by simp
  qed
qed simp

end
