(* ===== verification/VfsTypes.thy ===== *)
theory VfsTypes
  imports Prelude
begin

text \<open>
  The data shared by the virtual file system and the file systems below it
  (\<open>src/src/include/kernel/vfs/vfs.h\<close>): inodes, directory records for \<open>getdents64\<close>, and the early-exit
  loops that walk directories.  Operation tables are function pointers in C; here they are the name
  of the table, and \<open>private\<close> is one of the three things the code stores in it.
\<close>

section \<open>Inodes\<close>

definition FT_CHR :: u8 where "FT_CHR = 2"
definition FT_DIR :: u8 where "FT_DIR = 4"
definition FT_REG :: u8 where "FT_REG = 8"
definition DT_REG :: u8 where "DT_REG = 8"
definition DT_DIR :: u8 where "DT_DIR = 4"

datatype inode_ops = Fat32_inode_ops | Devfs_dir_iops | Vfs_dir_iops | Strip_iops
datatype file_ops = Fat32_file_ops | Strip_fops | Tty_fops

datatype private_data =
    PNull
  | PNode (dir_entry_lba: u32) (dir_entry_offset: u32)
  | PDentry nat
  | PStripFile nat

record inode =
  ino :: u32
  i_size :: u32
  i_mode :: u32
  i_uid :: u32
  i_gid :: u32
  i_atime :: u32
  i_mtime :: u32
  i_ctime :: u32
  i_blocks :: u32
  i_block_size :: u32
  i_ops :: "inode_ops option"
  f_ops :: "file_ops option"
  i_private :: private_data
  i_type :: u8
  is_directory :: u8

text \<open>\<open>memset(inode, 0, sizeof(inode_t))\<close>.\<close>
definition zero_inode :: inode where
  "zero_inode = \<lparr>ino = 0, i_size = 0, i_mode = 0, i_uid = 0, i_gid = 0, i_atime = 0, i_mtime = 0,
     i_ctime = 0, i_blocks = 0, i_block_size = 0, i_ops = None, f_ops = None, i_private = PNull,
     i_type = 0, is_directory = 0\<rparr>"

section \<open>Directory records\<close>

text \<open>
  \<open>struct linux_dirent64\<close>: \<open>d_ino\<close> at 0, \<open>d_off\<close> at 8, \<open>d_reclen\<close> at 16, \<open>d_type\<close> at 18, the name at
  19; its size is padded to 24.
\<close>

definition align_up8 :: "u64 \<Rightarrow> u64" where
  "align_up8 val = (val + 8 - 1) AND NOT (8 - 1)"

definition dirent_reclen :: "nat \<Rightarrow> u16" where
  "dirent_reclen name_len = ucast (align_up8 (24 + of_nat name_len + 1))"

definition put_dirent :: "u8 list \<Rightarrow> nat \<Rightarrow> u64 \<Rightarrow> u64 \<Rightarrow> u16 \<Rightarrow> u8 \<Rightarrow> cstring \<Rightarrow> u8 list" where
  "put_dirent buf off d_ino d_off reclen d_type name =
     (let buf = put_bytes buf off (le_bytes 8 d_ino);
          buf = put_bytes buf (off + 8) (le_bytes 8 d_off);
          buf = put_bytes buf (off + 16) (le_bytes 2 reclen);
          buf = put_bytes buf (off + 18) [d_type]
      in put_bytes buf (off + 19) (name @ [0]))"

lemma align_up8_nat:
  assumes "unat v + 7 < 2 ^ 64"
  shows "unat (align_up8 v) = (unat v + 7) div 8 * 8"
proof -
  have e: "v + 8 - 1 = v + 7" by simp
  have "NOT 7 = (NOT (mask 3) :: u64)" by (simp add: mask_numeral)
  then have "align_up8 v = (v + 7) AND NOT (mask 3)" by (simp add: align_up8_def add.commute)
  also have "\<dots> = push_bit 3 (drop_bit 3 (v + 7))"
    by (rule bit_word_eqI) (auto simp: bit_simps)
  finally have al: "unat (align_up8 v) = unat (push_bit 3 (drop_bit 3 (v + 7)))" by simp
  have s: "unat (v + 7) = unat v + 7"
    using assms by (subst unat_add_nowrap) simp_all
  have "(unat v + 7) div 8 * 8 \<le> unat v + 7" by simp
  also note assms
  finally have "(unat v + 7) div 8 * 8 mod 2 ^ 64 = (unat v + 7) div 8 * 8" by simp
  moreover have "(unat v + 7) mod 2 ^ 64 = unat v + 7" using assms by simp
  ultimately show ?thesis
    unfolding al unsigned_push_bit_eq unsigned_drop_bit_eq s
    by (simp add: push_bit_eq_mult drop_bit_eq_div take_bit_eq_mod del: div_mult_self1_is_m)
qed

lemma dirent_reclen_nat:
  assumes "name_len \<le> 65000"
  shows "unat (dirent_reclen name_len) = (name_len + 32) div 8 * 8"
proof -
  have n: "unat (of_nat name_len :: u64) = name_len" using assms by (simp add: unat_of_nat)
  have w: "24 + of_nat name_len + 1 = (of_nat (name_len + 25) :: u64)" by simp
  have u: "unat (of_nat (name_len + 25) :: u64) = name_len + 25"
    using assms by (subst unat_of_nat) simp
  have "unat (align_up8 (24 + of_nat name_len + 1)) = (name_len + 32) div 8 * 8"
    using assms unfolding w by (subst align_up8_nat) (simp_all only: u, simp_all add: add.commute)
  moreover have "(name_len + 32) div 8 * 8 < 65536"
    using assms by (simp add: div_times_less_eq_dividend order_le_less_trans [of _ "name_len + 32"])
  ultimately show ?thesis by (simp add: dirent_reclen_def unat_ucast_mod)
qed

text \<open>A record holds its name with the terminator, and records are multiples of eight bytes.\<close>
lemma dirent_reclen_fits:
  assumes "name_len \<le> 65000"
  shows "19 + name_len + 1 \<le> unat (dirent_reclen name_len)"
    and "unat (dirent_reclen name_len) mod 8 = 0" and "unat (dirent_reclen name_len) \<le> name_len + 32"
proof -
  have "(name_len + 32) div 8 * 8 + (name_len + 32) mod 8 = name_len + 32" by simp
  moreover have "(name_len + 32) mod 8 < 8" by simp
  ultimately show "19 + name_len + 1 \<le> unat (dirent_reclen name_len)"
    "unat (dirent_reclen name_len) \<le> name_len + 32"
    unfolding dirent_reclen_nat [OF assms] by linarith+
  show "unat (dirent_reclen name_len) mod 8 = 0" unfolding dirent_reclen_nat [OF assms] by simp
qed

end
