(* ===== verification/FatTable.thy ===== *)
theory FatTable
  imports Prelude
begin

text \<open>
  The file allocation table of \<open>src/src/fs/fat32.c\<close>: the driver's static variables, the one-sector
  write-back cache in front of the disk, reading and writing of FAT entries, and the geometry
  (cluster to sector).  \<open>disk_read\<close> and \<open>disk_write\<close> are the effect of the two operations of the disk
  driver on a drive that answers: the theory \<open>Ata\<close> models the driver down to its port accesses and
  shows that this is what it does on such a drive.  Only the low 28 bits of an address count.  A
  drive that fails or times out is outside this model (the FAT code ignores the driver's result
  everywhere but when it mounts).

  The abstraction \<open>raw_of\<close> reads a FAT entry through the cache.  The lemmas show that the cache is
  transparent: a read changes no entry and no data sector, a write changes exactly the one entry
  (keeping its reserved top four bits), and a sync makes the disk agree with the cached view.
\<close>

section \<open>The disk\<close>

type_synonym disk = "u32 \<Rightarrow> u8 list"

text \<open>Only the low 28 bits of an LBA reach the drive.\<close>
definition lba28 :: "u32 \<Rightarrow> u32" where
  "lba28 lba = lba AND 0x0FFFFFFF"

definition disk_read :: "disk \<Rightarrow> u32 \<Rightarrow> u8 list" where
  "disk_read d lba = d (lba28 lba)"

definition disk_write :: "disk \<Rightarrow> u32 \<Rightarrow> u8 list \<Rightarrow> disk" where
  "disk_write d lba buf = d(lba28 lba := buf)"

text \<open>
  The contract of a sector store, as the FAT code uses it: sectors of \<open>ok\<close> addresses hold what
  was last written to them.
\<close>
locale sector_store =
  fixes rd :: "'d \<Rightarrow> 'a \<Rightarrow> 'b list"
    and wr :: "'d \<Rightarrow> 'a \<Rightarrow> 'b list \<Rightarrow> 'd"
    and ok :: "'a \<Rightarrow> bool"
  assumes rd_wr_same: "ok a \<Longrightarrow> rd (wr d a buf) a = buf"
    and rd_wr_other: "ok a \<Longrightarrow> ok b \<Longrightarrow> a \<noteq> b \<Longrightarrow> rd (wr d a buf) b = rd d b"
begin

lemma rd_wr: "ok a \<Longrightarrow> ok b \<Longrightarrow> rd (wr d a buf) b = (if a = b then buf else rd d b)"
  by (auto simp: rd_wr_same rd_wr_other)

text \<open>Writing a run of sectors: each of them holds its last buffer, the others are untouched.\<close>
lemma rd_fold_wr_other:
  "\<forall>i \<in> set is. ok (f i) \<and> f i \<noteq> b \<Longrightarrow> ok b \<Longrightarrow>
   rd (fold (\<lambda>i d. wr d (f i) (g i)) is d) b = rd d b"
  by (induction "is" arbitrary: d) (auto simp: rd_wr_other)

lemma rd_fold_wr_keep:
  "rd d a = buf \<Longrightarrow> ok a \<Longrightarrow> \<forall>i \<in> set is. ok (f i) \<Longrightarrow>
   rd (fold (\<lambda>i d. wr d (f i) buf) is d) a = buf"
  by (induction "is" arbitrary: d) (auto simp: rd_wr)

lemma rd_fold_wr_const:
  "\<forall>i \<in> set is. ok (f i) \<Longrightarrow> a \<in> f ` set is \<Longrightarrow>
   rd (fold (\<lambda>i d. wr d (f i) buf) is d) a = buf"
proof (induction "is" arbitrary: d)
  case Nil
  then show ?case by simp
next
  case (Cons j js)
  then show ?case
    by (cases "a \<in> f ` set js") (auto simp: rd_fold_wr_keep rd_wr_same)
qed

end

definition lba_ok :: "u32 \<Rightarrow> bool" where
  "lba_ok lba \<longleftrightarrow> lba < 0x10000000"

lemma lba28_id [simp]: "lba_ok lba \<Longrightarrow> lba28 lba = lba"
proof -
  assume "lba_ok lba"
  then have "uint lba < 2 ^ 28" by (simp add: lba_ok_def word_less_alt)
  then have "lba AND mask 28 = lba" by (simp add: mask_eq_iff)
  then show ?thesis by (simp add: lba28_def mask_numeral)
qed

interpretation store: sector_store disk_read disk_write lba_ok
  by unfold_locales (auto simp: disk_read_def disk_write_def)

section \<open>The driver's state\<close>

record fatfs =
  fat_start_lba :: u32
  data_start_lba :: u32
  sectors_per_cluster :: u8
  root_dir_cluster :: u32
  next_free_cluster_hint :: u32
  fat_cache_sector :: u32
  fat_cache_buf :: "u8 list"
  fat_cache_dirty :: bool
  disk :: disk

definition FAT_CACHE_INVALID :: u32 where
  "FAT_CACHE_INVALID = 0xFFFFFFFF"

definition FAT32_EOC_MARKER :: u32 where
  "FAT32_EOC_MARKER = 0x0FFFFFF8"

definition fat32_fat_sync :: "fatfs \<Rightarrow> fatfs" where
  "fat32_fat_sync s =
     (if fat_cache_dirty s \<and> fat_cache_sector s \<noteq> FAT_CACHE_INVALID
      then s\<lparr>disk := disk_write (disk s) (fat_cache_sector s) (fat_cache_buf s),
             fat_cache_dirty := False\<rparr>
      else s)"

definition fat_cache_get :: "fatfs \<Rightarrow> u32 \<Rightarrow> fatfs" where
  "fat_cache_get s sector =
     (if sector \<noteq> fat_cache_sector s
      then let s1 = fat32_fat_sync s
           in s1\<lparr>fat_cache_buf := disk_read (disk s1) sector,
                 fat_cache_sector := sector\<rparr>
      else s)"

definition cluster_to_lba :: "fatfs \<Rightarrow> u32 \<Rightarrow> u32" where
  "cluster_to_lba s cluster = data_start_lba s + (cluster - 2) * ucast (sectors_per_cluster s)"

definition fat_entry_sector :: "fatfs \<Rightarrow> u32 \<Rightarrow> u32" where
  "fat_entry_sector s cluster = fat_start_lba s + (cluster * 4) div 512"

definition fat_entry_offset :: "u32 \<Rightarrow> u32" where
  "fat_entry_offset cluster = (cluster * 4) mod 512"

definition get_next_cluster :: "fatfs \<Rightarrow> u32 \<Rightarrow> fatfs \<times> u32" where
  "get_next_cluster s current_cluster =
     (let fat_sector = fat_entry_sector s current_cluster;
          fat_offset = unat (fat_entry_offset current_cluster);
          s1 = fat_cache_get s fat_sector;
          next_cluster = of_le (slice_at (fat_cache_buf s1) fat_offset 4)
      in (s1, next_cluster AND 0x0FFFFFFF))"

definition set_next_cluster :: "fatfs \<Rightarrow> u32 \<Rightarrow> u32 \<Rightarrow> fatfs" where
  "set_next_cluster s current_cluster next_cluster =
     (let fat_sector = fat_entry_sector s current_cluster;
          fat_offset = unat (fat_entry_offset current_cluster);
          s1 = fat_cache_get s fat_sector;
          entry = of_le (slice_at (fat_cache_buf s1) fat_offset 4) :: u32;
          entry' = (entry AND 0xF0000000) OR (next_cluster AND 0x0FFFFFFF)
      in s1\<lparr>fat_cache_buf := put_bytes (fat_cache_buf s1) fat_offset (le_bytes 4 entry'),
            fat_cache_dirty := True\<rparr>)"

section \<open>The abstract table behind the cache\<close>

text \<open>
  A sector as the driver sees it, and the 32-bit FAT entry of a cluster read from it.  \<open>fat_of\<close> is
  the 28-bit value that \<open>get_next_cluster\<close> hands out.
\<close>
definition cached_sector :: "fatfs \<Rightarrow> u32 \<Rightarrow> u8 list" where
  "cached_sector s sec =
     (if sec = fat_cache_sector s then fat_cache_buf s else disk_read (disk s) sec)"

definition raw_of :: "fatfs \<Rightarrow> u32 \<Rightarrow> u32" where
  "raw_of s c = of_le (slice_at (cached_sector s (fat_entry_sector s c)) (unat (fat_entry_offset c)) 4)"

definition fat_of :: "fatfs \<Rightarrow> u32 \<Rightarrow> u32" where
  "fat_of s c = raw_of s c AND 0x0FFFFFFF"

text \<open>
  The entries the volume really has: their sector lies below the data area.  \<open>geom\<close> is what a
  mounted volume of at most \<open>2^28\<close> sectors satisfies; \<open>fat_inv\<close> is the invariant of the driver's
  state.
\<close>
definition in_fat :: "fatfs \<Rightarrow> u32 \<Rightarrow> bool" where
  "in_fat s c \<longleftrightarrow> fat_entry_sector s c < data_start_lba s"

definition geom :: "fatfs \<Rightarrow> bool" where
  "geom s \<longleftrightarrow> unat (fat_start_lba s) + 2 ^ 23 \<le> 2 ^ 28 \<and>
     fat_start_lba s \<le> data_start_lba s \<and> data_start_lba s < 0x10000000"

definition fat_inv :: "fatfs \<Rightarrow> bool" where
  "fat_inv s \<longleftrightarrow> geom s \<and> (\<forall>l. length (disk s l) = 512) \<and> length (fat_cache_buf s) = 512 \<and>
     (fat_cache_sector s = FAT_CACHE_INVALID \<longrightarrow> \<not> fat_cache_dirty s) \<and>
     (fat_cache_sector s \<noteq> FAT_CACHE_INVALID \<longrightarrow>
        fat_start_lba s \<le> fat_cache_sector s \<and> fat_cache_sector s < data_start_lba s \<and>
        (\<not> fat_cache_dirty s \<longrightarrow> fat_cache_buf s = disk s (fat_cache_sector s)))"

text \<open>
  Two states that differ only in what the cache holds: same geometry and hint, same FAT entries,
  same data sectors.
\<close>
definition fat_eq :: "fatfs \<Rightarrow> fatfs \<Rightarrow> bool" where
  "fat_eq s s' \<longleftrightarrow>
     fat_start_lba s' = fat_start_lba s \<and> data_start_lba s' = data_start_lba s \<and>
     sectors_per_cluster s' = sectors_per_cluster s \<and> root_dir_cluster s' = root_dir_cluster s \<and>
     next_free_cluster_hint s' = next_free_cluster_hint s \<and>
     (\<forall>c. in_fat s c \<longrightarrow> raw_of s' c = raw_of s c) \<and>
     (\<forall>l. data_start_lba s \<le> l \<longrightarrow> disk s' l = disk s l)"

lemma fat_eq_refl [simp, intro]: "fat_eq s s"
  by (simp add: fat_eq_def)

lemma fat_eq_geom:
  assumes "fat_eq s t"
  shows "fat_start_lba t = fat_start_lba s" "data_start_lba t = data_start_lba s"
    "sectors_per_cluster t = sectors_per_cluster s" "root_dir_cluster t = root_dir_cluster s"
    "next_free_cluster_hint t = next_free_cluster_hint s" "in_fat t c = in_fat s c"
    "fat_entry_sector t c = fat_entry_sector s c" "geom t = geom s"
    "cluster_to_lba t c = cluster_to_lba s c"
  using assms by (simp_all add: fat_eq_def in_fat_def fat_entry_sector_def geom_def cluster_to_lba_def)

lemma fat_eq_raw: "fat_eq s t \<Longrightarrow> in_fat s c \<Longrightarrow> raw_of t c = raw_of s c"
  by (simp add: fat_eq_def)

lemma fat_eq_fat_of: "fat_eq s t \<Longrightarrow> in_fat s c \<Longrightarrow> fat_of t c = fat_of s c"
  by (simp add: fat_of_def fat_eq_raw)

lemma fat_eq_disk: "fat_eq s t \<Longrightarrow> data_start_lba s \<le> l \<Longrightarrow> disk t l = disk s l"
  by (simp add: fat_eq_def)

lemma fat_eq_trans [trans]:
  assumes st: "fat_eq s t" and tu: "fat_eq t u"
  shows "fat_eq s u"
proof -
  note g = fat_eq_geom [OF st] fat_eq_geom [OF tu]
  have "raw_of u c = raw_of s c" if "in_fat s c" for c
    using fat_eq_raw [OF st that] fat_eq_raw [OF tu, of c] that by (simp add: g)
  moreover have "disk u l = disk s l" if "data_start_lba s \<le> l" for l
    using fat_eq_disk [OF st that] fat_eq_disk [OF tu, of l] that by (simp add: g)
  ultimately show ?thesis by (simp add: fat_eq_def g)
qed

text \<open>Where the entry of cluster \<open>c\<close> lies: 128 entries of four bytes per sector.\<close>

lemma times4_mod: "(n * 4) mod 4294967296 = (n mod 1073741824) * (4::nat)"
  using mult_mod_left [of n 1073741824 4] by simp

lemma fat_entry_offset_nat: "unat (fat_entry_offset c) = (unat c mod 128) * 4"
proof -
  have "unat (fat_entry_offset c) = (unat c mod 1073741824) * 4 mod 512"
    by (simp add: fat_entry_offset_def unat_mod unat_word_ariths times4_mod)
  also have "\<dots> = (unat c mod 1073741824 mod 128) * 4"
    using mult_mod_left [of "unat c mod 1073741824" 128 4] by simp
  also have "unat c mod 1073741824 mod 128 = unat c mod 128"
    by (simp add: mod_mod_cancel)
  finally show ?thesis .
qed

lemma fat_entry_offset_bound: "unat (fat_entry_offset c) + 4 \<le> 512"
proof -
  have "unat c mod 128 < 128" by simp
  then show ?thesis unfolding fat_entry_offset_nat by linarith
qed

lemma fat_entry_index_nat: "unat ((c * 4) div 512 :: u32) = (unat c mod 1073741824) div 128"
  by (simp add: unat_div unat_word_ariths times4_mod)

lemma fat_entry_index_bound: "(unat (c :: u32) mod 1073741824) div 128 < 8388608"
  by (simp add: div_less_iff_less_mult)

lemma fat_entry_sector_nat:
  assumes "geom s"
  shows "unat (fat_entry_sector s c) = unat (fat_start_lba s) + (unat c mod 1073741824) div 128"
proof -
  have "unat (fat_start_lba s) + unat ((c * 4) div 512) < 2 ^ LENGTH(32)"
    using assms fat_entry_index_bound [of c] unfolding geom_def fat_entry_index_nat by simp
  then show ?thesis
    unfolding fat_entry_sector_def by (simp only: unat_add_nowrap fat_entry_index_nat)
qed

lemma fat_entry_sector_lba:
  assumes "geom s" shows "lba_ok (fat_entry_sector s c)"
  using assms fat_entry_index_bound [of c]
  by (simp add: lba_ok_def word_less_nat_alt fat_entry_sector_nat geom_def)

lemma fat_entry_sector_ge: "geom s \<Longrightarrow> fat_start_lba s \<le> fat_entry_sector s c"
  by (simp add: word_le_nat_alt fat_entry_sector_nat)

lemma fat_entry_sector_valid: "geom s \<Longrightarrow> fat_entry_sector s c \<noteq> FAT_CACHE_INVALID"
  using fat_entry_sector_lba [of s c]
  by (auto simp: lba_ok_def FAT_CACHE_INVALID_def)

section \<open>The cache is transparent\<close>

lemma fat_inv_geom: "fat_inv s \<Longrightarrow> geom s"
  by (simp add: fat_inv_def)

lemma fat_inv_lengths:
  "fat_inv s \<Longrightarrow> length (fat_cache_buf s) = 512" "fat_inv s \<Longrightarrow> length (disk s l) = 512"
  by (simp_all add: fat_inv_def)

lemma below_data_lba_ok: "geom s \<Longrightarrow> sec < data_start_lba s \<Longrightarrow> lba_ok sec"
  by (auto simp: geom_def lba_ok_def)

lemma lba_ok_not_invalid: "lba_ok sec \<Longrightarrow> sec \<noteq> FAT_CACHE_INVALID"
  by (auto simp: lba_ok_def FAT_CACHE_INVALID_def)

lemma length_cached_sector: "fat_inv s \<Longrightarrow> length (cached_sector s sec) = 512"
  by (simp add: cached_sector_def fat_inv_def disk_read_def)

lemma fat_eqI:
  assumes "fat_start_lba t = fat_start_lba s" "data_start_lba t = data_start_lba s"
    "sectors_per_cluster t = sectors_per_cluster s" "root_dir_cluster t = root_dir_cluster s"
    "next_free_cluster_hint t = next_free_cluster_hint s"
    and "\<And>sec. sec < data_start_lba s \<Longrightarrow> cached_sector t sec = cached_sector s sec"
    and "\<And>l. data_start_lba s \<le> l \<Longrightarrow> disk t l = disk s l"
  shows "fat_eq s t"
proof -
  have "fat_entry_sector t c = fat_entry_sector s c" for c
    using assms by (simp add: fat_entry_sector_def)
  then show ?thesis
    using assms by (simp add: fat_eq_def raw_of_def in_fat_def)
qed

lemma fat_sync_cached:
  assumes "fat_inv s" and "lba_ok sec"
  shows "cached_sector (fat32_fat_sync s) sec = cached_sector s sec"
proof (cases "fat_cache_dirty s \<and> fat_cache_sector s \<noteq> FAT_CACHE_INVALID")
  case True
  then have "lba_ok (fat_cache_sector s)"
    using assms below_data_lba_ok by (auto simp: fat_inv_def)
  with True assms show ?thesis
    by (auto simp: fat32_fat_sync_def cached_sector_def store.rd_wr_other)
qed (auto simp add: fat32_fat_sync_def)

lemma fat_sync_simps [simp]:
  "fat_start_lba (fat32_fat_sync s) = fat_start_lba s"
  "data_start_lba (fat32_fat_sync s) = data_start_lba s"
  "sectors_per_cluster (fat32_fat_sync s) = sectors_per_cluster s"
  "root_dir_cluster (fat32_fat_sync s) = root_dir_cluster s"
  "next_free_cluster_hint (fat32_fat_sync s) = next_free_cluster_hint s"
  "fat_cache_sector (fat32_fat_sync s) = fat_cache_sector s"
  "fat_cache_buf (fat32_fat_sync s) = fat_cache_buf s"
  by (simp_all add: fat32_fat_sync_def)

lemma fat_sync_clean: "fat_inv s \<Longrightarrow> \<not> fat_cache_dirty (fat32_fat_sync s)"
  by (auto simp: fat32_fat_sync_def fat_inv_def)

lemma fat_sync_inv: "fat_inv s \<Longrightarrow> fat_inv (fat32_fat_sync s)"
  unfolding fat_inv_def fat32_fat_sync_def geom_def
  by (auto simp: disk_write_def lba_ok_def)

lemma fat_sync_data:
  assumes "fat_inv s" and "data_start_lba s \<le> l"
  shows "disk (fat32_fat_sync s) l = disk s l"
proof (cases "fat_cache_dirty s \<and> fat_cache_sector s \<noteq> FAT_CACHE_INVALID")
  case True
  then have c: "fat_cache_sector s < data_start_lba s" using assms by (auto simp: fat_inv_def)
  then have "lba28 (fat_cache_sector s) = fat_cache_sector s"
    using assms by (intro lba28_id below_data_lba_ok) (auto simp: fat_inv_def)
  with c assms(2) have "lba28 (fat_cache_sector s) \<noteq> l" by auto
  then show ?thesis by (simp add: fat32_fat_sync_def disk_write_def)
qed (auto simp add: fat32_fat_sync_def)

lemma fat_sync_eq: "fat_inv s \<Longrightarrow> fat_eq s (fat32_fat_sync s)"
  by (rule fat_eqI)
    (simp_all add: fat_sync_cached fat_sync_data below_data_lba_ok [of s] fat_inv_geom)

lemma fat_cache_get_simps [simp]:
  "fat_start_lba (fat_cache_get s sec) = fat_start_lba s"
  "data_start_lba (fat_cache_get s sec) = data_start_lba s"
  "sectors_per_cluster (fat_cache_get s sec) = sectors_per_cluster s"
  "root_dir_cluster (fat_cache_get s sec) = root_dir_cluster s"
  "next_free_cluster_hint (fat_cache_get s sec) = next_free_cluster_hint s"
  "fat_cache_sector (fat_cache_get s sec) = sec"
  by (simp_all add: fat_cache_get_def Let_def)

lemma fat_cache_get_buf:
  assumes "fat_inv s" and "sec < data_start_lba s"
  shows "fat_cache_buf (fat_cache_get s sec) = cached_sector s sec"
proof -
  have "lba_ok sec" using assms by (auto intro: below_data_lba_ok fat_inv_geom)
  then have "cached_sector (fat32_fat_sync s) sec = cached_sector s sec"
    using assms by (simp add: fat_sync_cached)
  then show ?thesis
    by (auto simp: fat_cache_get_def Let_def cached_sector_def)
qed

lemma fat_cache_get_inv:
  assumes "fat_inv s" and "fat_start_lba s \<le> sec" and "sec < data_start_lba s"
  shows "fat_inv (fat_cache_get s sec)"
proof (cases "sec = fat_cache_sector s")
  case False
  let ?t = "fat32_fat_sync s"
  have t: "fat_inv ?t" "\<not> fat_cache_dirty ?t" using assms by (simp_all add: fat_sync_inv fat_sync_clean)
  have "lba_ok sec" using assms by (auto intro: below_data_lba_ok fat_inv_geom)
  with t assms False show ?thesis
    by (simp add: fat_cache_get_def Let_def fat_inv_def disk_read_def geom_def)
qed (use assms in \<open>simp add: fat_cache_get_def\<close>)

lemma fat_cache_get_cached:
  assumes inv: "fat_inv s" and sec: "sec < data_start_lba s" and l: "lba_ok l"
  shows "cached_sector (fat_cache_get s sec) l = cached_sector s l"
proof (cases "l = sec")
  case True
  then show ?thesis using fat_cache_get_buf [OF inv sec] by (simp add: cached_sector_def)
next
  case False
  show ?thesis
  proof (cases "sec = fat_cache_sector s")
    case True
    then show ?thesis by (simp add: fat_cache_get_def)
  next
    case ne: False
    let ?t = "fat32_fat_sync s"
    have t: "fat_inv ?t" "\<not> fat_cache_dirty ?t" using inv by (simp_all add: fat_sync_inv fat_sync_clean)
    have "cached_sector (fat_cache_get s sec) l = disk_read (disk ?t) l"
      using False ne by (simp add: fat_cache_get_def Let_def cached_sector_def)
    also have "\<dots> = cached_sector ?t l"
      using t l lba_ok_not_invalid [OF l]
      by (auto simp: cached_sector_def fat_inv_def disk_read_def)
    also have "\<dots> = cached_sector s l" using inv l by (rule fat_sync_cached)
    finally show ?thesis .
  qed
qed

lemma fat_cache_get_eq:
  assumes "fat_inv s" and "sec < data_start_lba s"
  shows "fat_eq s (fat_cache_get s sec)"
proof (rule fat_eqI)
  fix l assume "data_start_lba s \<le> l"
  then show "disk (fat_cache_get s sec) l = disk s l"
    using assms by (simp add: fat_cache_get_def Let_def fat_sync_data)
qed (use assms in \<open>simp_all add: fat_cache_get_cached below_data_lba_ok [of s] fat_inv_geom\<close>)

section \<open>Reading and writing FAT entries\<close>

lemma fat_cache_get_entry:
  assumes "fat_inv s" and "in_fat s c"
  shows "fat_inv (fat_cache_get s (fat_entry_sector s c))"
    "fat_eq s (fat_cache_get s (fat_entry_sector s c))"
    "fat_cache_buf (fat_cache_get s (fat_entry_sector s c)) = cached_sector s (fat_entry_sector s c)"
  using assms fat_entry_sector_ge [OF fat_inv_geom, of s c]
  by (simp_all add: in_fat_def fat_cache_get_inv fat_cache_get_eq fat_cache_get_buf)

lemma get_next_cluster_spec:
  assumes "fat_inv s" and "in_fat s c" and "get_next_cluster s c = (s', n)"
  shows "n = fat_of s c" and "fat_inv s'" and "fat_eq s s'"
  using assms fat_cache_get_entry [OF assms(1,2)]
  by (auto simp: get_next_cluster_def Let_def fat_of_def raw_of_def)

text \<open>Two clusters address the same entry exactly when their numbers agree modulo \<open>2^30\<close>.\<close>

definition same_entry :: "u32 \<Rightarrow> u32 \<Rightarrow> bool" where
  "same_entry c c' \<longleftrightarrow> unat c mod 1073741824 = unat c' mod 1073741824"

lemma same_entry_small: "c < 0x10000000 \<Longrightarrow> c' < 0x10000000 \<Longrightarrow> same_entry c c' \<longleftrightarrow> c = c'"
  by (auto simp: same_entry_def word_less_nat_alt word_unat_eq_iff)

lemma same_entry_iff:
  assumes "geom s"
  shows "same_entry c c' \<longleftrightarrow>
    fat_entry_sector s c = fat_entry_sector s c' \<and> fat_entry_offset c = fat_entry_offset c'"
proof -
  have "unat c mod 128 = unat c mod 1073741824 mod 128" for c :: u32
    by (simp add: mod_mod_cancel)
  then have "fat_entry_offset c = fat_entry_offset c' \<longleftrightarrow>
      unat c mod 1073741824 mod 128 = unat c' mod 1073741824 mod 128"
    by (simp add: word_unat_eq_iff fat_entry_offset_nat)
  moreover have "fat_entry_sector s c = fat_entry_sector s c' \<longleftrightarrow>
      unat c mod 1073741824 div 128 = unat c' mod 1073741824 div 128"
    using assms by (simp add: word_unat_eq_iff fat_entry_sector_nat)
  ultimately show ?thesis
    unfolding same_entry_def by (metis div_mult_mod_eq)
qed

lemma fat_entry_offset_disjoint:
  "fat_entry_offset c \<noteq> fat_entry_offset c' \<Longrightarrow>
   unat (fat_entry_offset c) + 4 \<le> unat (fat_entry_offset c') \<or>
   unat (fat_entry_offset c') + 4 \<le> unat (fat_entry_offset c)"
  by (simp add: word_unat_eq_iff fat_entry_offset_nat) arith

lemma set_next_cluster_simps [simp]:
  "fat_start_lba (set_next_cluster s c v) = fat_start_lba s"
  "data_start_lba (set_next_cluster s c v) = data_start_lba s"
  "sectors_per_cluster (set_next_cluster s c v) = sectors_per_cluster s"
  "root_dir_cluster (set_next_cluster s c v) = root_dir_cluster s"
  "next_free_cluster_hint (set_next_cluster s c v) = next_free_cluster_hint s"
  by (simp_all add: set_next_cluster_def Let_def)

definition entry_update :: "u32 \<Rightarrow> u32 \<Rightarrow> u32" where
  "entry_update old next = (old AND 0xF0000000) OR (next AND 0x0FFFFFFF)"

lemma set_next_cluster_inv:
  assumes "fat_inv s" and "in_fat s c"
  shows "fat_inv (set_next_cluster s c v)"
proof -
  let ?t = "fat_cache_get s (fat_entry_sector s c)"
  have t: "fat_inv ?t" by (rule fat_cache_get_entry [OF assms])
  have "fat_cache_sector ?t \<noteq> FAT_CACHE_INVALID"
    using fat_entry_sector_valid [OF fat_inv_geom [OF assms(1)]] by simp
  with t fat_entry_offset_bound [of c] show ?thesis
    by (simp add: set_next_cluster_def Let_def fat_inv_def geom_def del: fat_cache_get_simps)
qed

lemma set_next_cluster_raw:
  assumes inv: "fat_inv s" and c: "in_fat s c" and c': "in_fat s c'"
  shows "raw_of (set_next_cluster s c v) c' =
    (if same_entry c' c then entry_update (raw_of s c) v else raw_of s c')"
proof -
  let ?sec = "fat_entry_sector s c" and ?off = "unat (fat_entry_offset c)"
  let ?t = "fat_cache_get s ?sec" and ?u = "set_next_cluster s c v"
  let ?bs = "le_bytes 4 (entry_update (raw_of s c) v)"
  have buf: "fat_cache_buf ?t = cached_sector s ?sec" by (rule fat_cache_get_entry [OF inv c])
  have u: "?u = ?t\<lparr>fat_cache_buf := put_bytes (cached_sector s ?sec) ?off ?bs, fat_cache_dirty := True\<rparr>"
    by (simp add: set_next_cluster_def Let_def buf entry_update_def raw_of_def)
  have sec': "fat_entry_sector ?u c' = fat_entry_sector s c'" by (simp add: fat_entry_sector_def)
  have len: "length (cached_sector s ?sec) = 512" using inv by (rule length_cached_sector)
  have ok: "lba_ok (fat_entry_sector s c')"
    using inv by (intro fat_entry_sector_lba fat_inv_geom)
  have cached: "cached_sector ?u (fat_entry_sector s c') =
      (if fat_entry_sector s c' = ?sec then put_bytes (cached_sector s ?sec) ?off ?bs
       else cached_sector s (fat_entry_sector s c'))"
    using fat_cache_get_cached [OF inv, of ?sec "fat_entry_sector s c'"] c ok
    by (auto simp: u cached_sector_def in_fat_def)
  show ?thesis
  proof (cases "fat_entry_sector s c' = ?sec")
    case False
    then show ?thesis
      using same_entry_iff [OF fat_inv_geom [OF inv]] by (auto simp: raw_of_def sec' cached)
  next
    case sec: True
    show ?thesis
    proof (cases "fat_entry_offset c' = fat_entry_offset c")
      case True
      then have "same_entry c' c" using sec same_entry_iff [OF fat_inv_geom [OF inv]] by blast
      moreover have "cached_sector ?u (fat_entry_sector s c') = put_bytes (cached_sector s ?sec) ?off ?bs"
        using cached sec by simp
      then have "raw_of ?u c' = of_le ?bs"
        using True len fat_entry_offset_bound [of c]
        by (simp add: raw_of_def [of ?u] sec' slice_put_same del: set_next_cluster_simps)
      moreover have "of_le ?bs = entry_update (raw_of s c) v" by (simp add: of_le_le_bytes)
      ultimately show ?thesis by simp
    next
      case False
      then have "\<not> same_entry c' c" using same_entry_iff [OF fat_inv_geom [OF inv]] by blast
      moreover have "cached_sector ?u (fat_entry_sector s c') = put_bytes (cached_sector s ?sec) ?off ?bs"
        using cached sec by simp
      then have "raw_of ?u c' = raw_of s c'"
        using False len sec fat_entry_offset_bound [of c] fat_entry_offset_bound [of c']
          fat_entry_offset_disjoint [of c' c]
        by (simp add: raw_of_def sec' slice_put_other del: set_next_cluster_simps)
      ultimately show ?thesis by simp
    qed
  qed
qed

lemma set_next_cluster_data:
  assumes "fat_inv s" and "in_fat s c" and "data_start_lba s \<le> l"
  shows "disk (set_next_cluster s c v) l = disk s l"
  using fat_eq_disk [OF fat_cache_get_entry(2) [OF assms(1,2)] assms(3)]
  by (simp add: set_next_cluster_def Let_def)

lemma entry_update_fat: "entry_update old v AND 0x0FFFFFFF = v AND 0x0FFFFFFF"
  by (simp add: entry_update_def word_ao_dist and.assoc)

lemma entry_update_top: "entry_update old v AND 0xF0000000 = old AND 0xF0000000"
  by (simp add: entry_update_def word_ao_dist and.assoc)

lemma set_next_cluster_fat_of:
  "fat_inv s \<Longrightarrow> in_fat s c \<Longrightarrow> in_fat s c' \<Longrightarrow>
   fat_of (set_next_cluster s c v) c' = (if same_entry c' c then v AND 0x0FFFFFFF else fat_of s c')"
  by (simp add: fat_of_def set_next_cluster_raw entry_update_fat)

lemma in_fat_set [simp]: "in_fat (set_next_cluster s c v) c' = in_fat s c'"
  by (simp add: in_fat_def fat_entry_sector_def)

lemma in_fat_cong:
  "fat_start_lba t = fat_start_lba s \<Longrightarrow> data_start_lba t = data_start_lba s \<Longrightarrow> in_fat t c = in_fat s c"
  by (simp add: in_fat_def fat_entry_sector_def)

text \<open>After a sync the sectors on the disk hold exactly the cached table.\<close>

lemma fat_sync_on_disk:
  assumes inv: "fat_inv s" and c: "in_fat s c"
  shows "of_le (slice_at (disk_read (disk (fat32_fat_sync s)) (fat_entry_sector s c))
           (unat (fat_entry_offset c)) 4) = raw_of s c"
proof -
  let ?t = "fat32_fat_sync s" and ?sec = "fat_entry_sector s c"
  have ok: "lba_ok ?sec" using inv by (intro fat_entry_sector_lba fat_inv_geom)
  have "disk_read (disk ?t) ?sec = cached_sector ?t ?sec"
    using fat_sync_inv [OF inv] fat_sync_clean [OF inv] ok lba_ok_not_invalid [OF ok]
    by (auto simp: cached_sector_def fat_inv_def disk_read_def simp del: fat_sync_simps)
  also have "\<dots> = cached_sector s ?sec" using inv ok by (rule fat_sync_cached)
  finally show ?thesis by (simp add: raw_of_def)
qed


section \<open>Properties\<close>

text \<open>A small volume for the witnesses: FAT at sector 32, data at 64, one sector per cluster.\<close>

definition demo_volume :: fatfs where
  "demo_volume = \<lparr>fat_start_lba = 32, data_start_lba = 64, sectors_per_cluster = 1,
     root_dir_cluster = 2, next_free_cluster_hint = 3, fat_cache_sector = FAT_CACHE_INVALID,
     fat_cache_buf = replicate 512 0, fat_cache_dirty = False, disk = (\<lambda>_. replicate 512 0)\<rparr>"

lemma demo_volume_inv: "fat_inv demo_volume"
  by (simp add: fat_inv_def geom_def demo_volume_def)

lemma demo_volume_in_fat: "list_all (in_fat demo_volume) [0, 2, 3, 4, 5, 200]"
  by (simp add: in_fat_def fat_entry_sector_def demo_volume_def)

lemma demo_in_fat [simp]:
  "in_fat demo_volume 2" "in_fat demo_volume 3" "in_fat demo_volume 4" "in_fat demo_volume 5"
  "in_fat demo_volume 200"
  using demo_volume_in_fat by simp_all

lemma of_le_zeros: "\<forall>b \<in> set bs. b = 0 \<Longrightarrow> of_le bs = 0"
  by (induction bs) auto

lemma demo_fat_of [simp]: "fat_of demo_volume c = 0"
proof -
  have "\<forall>b \<in> set (slice_at (replicate 512 (0::u8)) m n). b = 0" for m n
    by (auto simp: slice_at_def dest: in_set_takeD in_set_dropD)
  then have "of_le (slice_at (replicate 512 (0::u8)) m n) = (0 :: u32)" for m n
    by (rule of_le_zeros)
  then show ?thesis
    by (simp add: fat_of_def raw_of_def cached_sector_def disk_read_def demo_volume_def)
qed

text \<open>
  Reading a FAT entry through the cache returns the entry of the table, and leaves the
  invariant, every entry and every data sector as they were, whatever sector the cache held.
\<close>
theorem get_next_cluster_reads_table:
  assumes "fat_inv s" and "in_fat s c"
  shows "snd (get_next_cluster s c) = fat_of s c \<and> fat_inv (fst (get_next_cluster s c)) \<and>
    (\<forall>c'. in_fat s c' \<longrightarrow> raw_of (fst (get_next_cluster s c)) c' = raw_of s c') \<and>
    (\<forall>l. data_start_lba s \<le> l \<longrightarrow> disk (fst (get_next_cluster s c)) l = disk s l)"
proof -
  obtain s' n where g: "get_next_cluster s c = (s', n)" by fastforce
  note spec = get_next_cluster_spec [OF assms g]
  show ?thesis
    using spec(1,2) fat_eq_raw [OF spec(3)] fat_eq_disk [OF spec(3)] by (simp add: g)
qed

theorem get_next_cluster_reads_table_witness:
  "snd (get_next_cluster (set_next_cluster demo_volume 200 7) 3) = 0 \<and>
   snd (get_next_cluster (set_next_cluster demo_volume 200 7) 200) = 7"
proof -
  let ?s = "set_next_cluster demo_volume 200 7"
  have s: "fat_inv ?s" by (simp add: set_next_cluster_inv demo_volume_inv)
  have "fat_of ?s 3 = 0" "fat_of ?s 200 = 7"
    by (simp_all add: set_next_cluster_fat_of demo_volume_inv same_entry_def)
  then show ?thesis
    using get_next_cluster_reads_table [OF s, of 3] get_next_cluster_reads_table [OF s, of 200]
    by simp
qed

text \<open>
  C3. Writing a FAT entry changes exactly that entry: its low 28 bits become the new value, its
  reserved top four bits and all other entries are kept, and the invariant holds afterwards.
\<close>
theorem set_next_cluster_updates_one_entry:
  assumes "fat_inv s" and "in_fat s c"
  shows "fat_inv (set_next_cluster s c v) \<and>
    fat_of (set_next_cluster s c v) c = v AND 0x0FFFFFFF \<and>
    raw_of (set_next_cluster s c v) c AND 0xF0000000 = raw_of s c AND 0xF0000000 \<and>
    (\<forall>c'. in_fat s c' \<longrightarrow> \<not> same_entry c' c \<longrightarrow> raw_of (set_next_cluster s c v) c' = raw_of s c') \<and>
    (\<forall>l. data_start_lba s \<le> l \<longrightarrow> disk (set_next_cluster s c v) l = disk s l)"
  using assms
  by (simp add: set_next_cluster_inv set_next_cluster_fat_of set_next_cluster_raw entry_update_top
      set_next_cluster_data same_entry_def)

theorem set_next_cluster_updates_one_entry_witness:
  "fat_of (set_next_cluster demo_volume 5 0xF0000007) 5 = 7 \<and>
   raw_of (set_next_cluster demo_volume 5 0xF0000007) 4 = raw_of demo_volume 4"
  using set_next_cluster_updates_one_entry [OF demo_volume_inv, of 5 "0xF0000007"]
  by (simp add: same_entry_def)

text \<open>
  C14. A sync makes the disk agree with the table behind the cache: every entry read from the disk's
  own sector is the cached one, and the cache is clean.
\<close>
theorem fat_sync_makes_disk_agree:
  assumes "fat_inv s" and "in_fat s c"
  shows "of_le (slice_at (disk_read (disk (fat32_fat_sync s)) (fat_entry_sector s c))
           (unat (fat_entry_offset c)) 4) = raw_of s c \<and>
    \<not> fat_cache_dirty (fat32_fat_sync s) \<and> raw_of (fat32_fat_sync s) c = raw_of s c"
  using assms fat_sync_on_disk fat_sync_clean fat_eq_raw [OF fat_sync_eq] by blast

theorem fat_sync_makes_disk_agree_witness:
  "of_le (slice_at (disk_read (disk (fat32_fat_sync (set_next_cluster demo_volume 5 7))) 32) 20 4)
     AND 0x0FFFFFFF = (7 :: u32)"
proof -
  let ?s = "set_next_cluster demo_volume 5 7"
  have "fat_inv ?s" "in_fat ?s 5" "fat_of ?s 5 = 7"
    by (simp_all add: set_next_cluster_inv set_next_cluster_fat_of demo_volume_inv same_entry_def)
  moreover have "fat_entry_sector ?s 5 = 32" "unat (fat_entry_offset 5) = 20"
    by (simp_all add: fat_entry_sector_def fat_entry_offset_def demo_volume_def)
  ultimately show ?thesis
    using fat_sync_makes_disk_agree [of ?s 5] by (simp add: fat_of_def)
qed

end
