(* ===== verification/FatAlloc.thy ===== *)
theory FatAlloc
  imports FatTable
begin

text \<open>
  Cluster chains of \<open>src/src/fs/fat32.c\<close>: allocating a cluster (\<open>fat32_allocate_cluster\<close>, the scan
  from the persistent hint) and freeing a chain (\<open>fat32_free_chain\<close>).  The free loop has no bound in
  the code, so it is a partial function whose result \<open>None\<close> means that it does not return; the
  lemmas show that it returns on every chain and even on a cyclic table, and what it leaves.
\<close>

section \<open>Allocation\<close>

definition first_cluster :: u32 where
  "first_cluster = 2"

definition cluster_limit :: u32 where
  "cluster_limit = 0x0FFFFFF0"

definition zero_cluster :: "fatfs \<Rightarrow> u32 \<Rightarrow> fatfs" where
  "zero_cluster s cluster =
     (let lba = cluster_to_lba s cluster
      in s\<lparr>disk := fold (\<lambda>i d. disk_write d (lba + of_nat i) (replicate 512 0))
                     [0..<unat (sectors_per_cluster s)] (disk s)\<rparr>)"

definition alloc_found :: "fatfs \<Rightarrow> u32 \<Rightarrow> fatfs" where
  "alloc_found s cluster =
     (let s1 = fat32_fat_sync (set_next_cluster s cluster FAT32_EOC_MARKER);
          hint = cluster + 1;
          s2 = s1\<lparr>next_free_cluster_hint := (if cluster_limit \<le> hint then first_cluster else hint)\<rparr>
      in zero_cluster s2 cluster)"

text \<open>The scan loop: \<open>n\<close> is \<open>total_clusters - scanned\<close>.\<close>
primrec alloc_scan :: "nat \<Rightarrow> fatfs \<Rightarrow> u32 \<Rightarrow> fatfs \<times> u32" where
  "alloc_scan 0 s cluster = (s, 0)"
| "alloc_scan (Suc n) s cluster =
     (let (s1, next) = get_next_cluster s cluster
      in if next = 0 then (alloc_found s1 cluster, cluster)
         else alloc_scan n s1 (if cluster_limit \<le> cluster + 1 then first_cluster else cluster + 1))"

definition fat32_allocate_cluster :: "fatfs \<Rightarrow> fatfs \<times> u32" where
  "fat32_allocate_cluster s =
     (let s1 = (if next_free_cluster_hint s < first_cluster \<or> cluster_limit \<le> next_free_cluster_hint s
                then s\<lparr>next_free_cluster_hint := first_cluster\<rparr> else s)
      in alloc_scan (unat (cluster_limit - first_cluster)) s1 (next_free_cluster_hint s1))"

section \<open>Freeing\<close>

partial_function (option) free_chain_loop :: "fatfs \<Rightarrow> u32 \<Rightarrow> fatfs option" where
  "free_chain_loop s current =
     (if current < FAT32_EOC_MARKER \<and> current \<noteq> 0
      then case get_next_cluster s current of (s1, next) \<Rightarrow>
             free_chain_loop (set_next_cluster s1 current 0) next
      else Some s)"

definition fat32_free_chain :: "fatfs \<Rightarrow> u32 \<Rightarrow> fatfs option" where
  "fat32_free_chain s start_cluster =
     (if start_cluster < 2 \<or> FAT32_EOC_MARKER \<le> start_cluster then Some s
      else free_chain_loop s start_cluster)"

section \<open>Chains\<close>

text \<open>The clusters of the chain that starts at \<open>c\<close>, in order, up to its end marker.\<close>
primrec fat_chain :: "fatfs \<Rightarrow> u32 \<Rightarrow> u32 list \<Rightarrow> bool" where
  "fat_chain s c [] \<longleftrightarrow> FAT32_EOC_MARKER \<le> c"
| "fat_chain s c (x # xs) \<longleftrightarrow>
     x = c \<and> 2 \<le> c \<and> c < FAT32_EOC_MARKER \<and> in_fat s c \<and> fat_chain s (fat_of s c) xs"

lemma fat_chain_unique: "fat_chain s c xs \<Longrightarrow> fat_chain s c ys \<Longrightarrow> xs = ys"
proof (induction xs arbitrary: c ys)
  case Nil
  then show ?case by (cases ys) auto
next
  case (Cons x xs)
  then show ?case by (cases ys) auto
qed

lemma fat_chain_suffix: "fat_chain s c xs \<Longrightarrow> x \<in> set xs \<Longrightarrow> \<exists>ys zs. xs = ys @ zs \<and> fat_chain s x zs"
proof (induction xs arbitrary: c)
  case Nil
  then show ?case by simp
next
  case (Cons a xs)
  show ?case
  proof (cases "x = a")
    case True
    with Cons.prems show ?thesis by (intro exI [of _ "[]"] exI [of _ "a # xs"]) simp
  next
    case False
    with Cons.prems Cons.IH [of "fat_of s c"] obtain ys zs where "xs = ys @ zs" "fat_chain s x zs"
      by auto
    then show ?thesis by (intro exI [of _ "a # ys"] exI [of _ zs]) simp
  qed
qed

lemma fat_chain_distinct: "fat_chain s c xs \<Longrightarrow> distinct xs"
proof (induction xs arbitrary: c)
  case Nil
  then show ?case by simp
next
  case (Cons a xs)
  have "a \<notin> set xs"
  proof
    assume "a \<in> set xs"
    moreover have "fat_chain s (fat_of s c) xs" "a = c" using Cons.prems by simp_all
    ultimately obtain ys zs where "xs = ys @ zs" "fat_chain s a zs"
      using fat_chain_suffix by blast
    moreover have "zs = a # xs"
      using fat_chain_unique [OF \<open>fat_chain s a zs\<close>] Cons.prems \<open>a = c\<close> by simp
    ultimately show False by simp
  qed
  moreover have "distinct xs" using Cons.IH [of "fat_of s c"] Cons.prems by simp
  ultimately show ?case by simp
qed

lemma fat_chain_members:
  "fat_chain s c xs \<Longrightarrow> x \<in> set xs \<Longrightarrow> 2 \<le> x \<and> x < FAT32_EOC_MARKER \<and> in_fat s x"
  by (induction xs arbitrary: c) auto

lemma eoc_small: "x < FAT32_EOC_MARKER \<Longrightarrow> x < 0x10000000"
  by (simp add: FAT32_EOC_MARKER_def order_less_trans)

lemma fat_chain_cong:
  "fat_chain s c xs \<Longrightarrow> \<forall>x \<in> set xs. fat_of t x = fat_of s x \<and> in_fat t x = in_fat s x \<Longrightarrow>
   fat_chain t c xs"
proof (induction xs arbitrary: c)
  case Nil
  then show ?case by simp
next
  case (Cons x xs)
  then have "fat_chain t (fat_of s c) xs" by simp
  with Cons.prems show ?case by simp
qed

lemma fat_chain_eq:
  assumes "fat_eq s t" and "fat_chain s c xs"
  shows "fat_chain t c xs"
proof (rule fat_chain_cong [OF assms(2)], rule ballI)
  fix x assume "x \<in> set xs"
  then have "in_fat s x" using fat_chain_members [OF assms(2)] by blast
  then show "fat_of t x = fat_of s x \<and> in_fat t x = in_fat s x"
    using fat_eq_fat_of [OF assms(1)] fat_eq_geom [OF assms(1)] by blast
qed

text \<open>States that agree on all entries but those of \<open>cs\<close>.\<close>

definition fat_freed :: "fatfs \<Rightarrow> u32 set \<Rightarrow> fatfs \<Rightarrow> bool" where
  "fat_freed s C t \<longleftrightarrow>
     fat_start_lba t = fat_start_lba s \<and> data_start_lba t = data_start_lba s \<and>
     sectors_per_cluster t = sectors_per_cluster s \<and> root_dir_cluster t = root_dir_cluster s \<and>
     (\<forall>c. in_fat s c \<longrightarrow> c < 0x10000000 \<longrightarrow> fat_of t c = (if c \<in> C then 0 else fat_of s c)) \<and>
     (\<forall>l. data_start_lba s \<le> l \<longrightarrow> disk t l = disk s l)"

lemma free_step:
  assumes inv: "fat_inv s" and c: "in_fat s c" "c < 0x10000000"
    and g: "get_next_cluster s c = (s1, n)"
  shows "n = fat_of s c" and "fat_inv (set_next_cluster s1 c 0)" and "fat_freed s {c} (set_next_cluster s1 c 0)"
proof -
  note get = get_next_cluster_spec [OF inv c(1) g]
  show "n = fat_of s c" by (rule get)
  have c1: "in_fat s1 c" using fat_eq_geom [OF get(3)] c by simp
  show "fat_inv (set_next_cluster s1 c 0)" by (rule set_next_cluster_inv [OF get(2) c1])
  show "fat_freed s {c} (set_next_cluster s1 c 0)"
    unfolding fat_freed_def
    using fat_eq_geom [OF get(3)] fat_eq_fat_of [OF get(3)] fat_eq_disk [OF get(3)]
      set_next_cluster_fat_of [OF get(2) c1] set_next_cluster_data [OF get(2) c1] c
    by (simp add: same_entry_small)
qed

lemma fat_freed_trans:
  assumes st: "fat_freed s A t" and tu: "fat_freed t B u"
  shows "fat_freed s (A \<union> B) u"
proof -
  have "in_fat t c = in_fat s c" for c
    using st by (intro in_fat_cong) (simp_all add: fat_freed_def)
  with st tu show ?thesis by (simp add: fat_freed_def)
qed

lemma free_chain_loop_correct:
  "fat_inv s \<Longrightarrow> fat_chain s c cs \<Longrightarrow>
   \<exists>t. free_chain_loop s c = Some t \<and> fat_inv t \<and> fat_freed s (set cs) t"
proof (induction cs arbitrary: s c)
  case Nil
  then have "\<not> c < FAT32_EOC_MARKER" by simp
  with Nil show ?case
    by (subst free_chain_loop.simps) (simp add: fat_freed_def)
next
  case (Cons x xs)
  obtain s1 n where g: "get_next_cluster s c = (s1, n)" by fastforce
  have c: "x = c" "2 \<le> c" "c < FAT32_EOC_MARKER" "in_fat s c" "fat_chain s (fat_of s c) xs"
    using Cons.prems by simp_all
  have small: "c < 0x10000000" using c eoc_small by blast
  note st = free_step [OF Cons.prems(1) c(4) small g]
  let ?t = "set_next_cluster s1 c 0"
  have "c \<notin> set xs" using fat_chain_distinct [OF Cons.prems(2)] c by simp
  have ch: "fat_chain ?t (fat_of s c) xs"
  proof (rule fat_chain_cong [OF c(5)], rule ballI)
    fix y assume y: "y \<in> set xs"
    have "in_fat ?t y = in_fat s y"
      using st(3) by (intro in_fat_cong) (simp_all add: fat_freed_def)
    moreover have "fat_of ?t y = fat_of s y"
      using st(3) y fat_chain_members [OF c(5) y] eoc_small \<open>c \<notin> set xs\<close>
      by (auto simp: fat_freed_def)
    ultimately show "fat_of ?t y = fat_of s y \<and> in_fat ?t y = in_fat s y" by simp
  qed
  then obtain u where u: "free_chain_loop ?t (fat_of s c) = Some u" "fat_inv u" "fat_freed ?t (set xs) u"
    using Cons.IH [OF st(2) ch] by blast
  have "c \<noteq> 0" using c(2) by auto
  then have "free_chain_loop s c = Some u"
    using g c st(1) u by (subst free_chain_loop.simps) simp
  moreover have "fat_freed s (set (x # xs)) u"
    using fat_freed_trans [OF st(3) u(3)] c(1) by simp
  ultimately show ?case using u(2) by blast
qed

lemma free_chain_correct:
  assumes "fat_inv s" and "fat_chain s c cs"
  shows "\<exists>t. fat32_free_chain s c = Some t \<and> fat_inv t \<and> fat_freed s (set cs) t"
proof (cases cs)
  case Nil
  with assms show ?thesis by (simp add: fat32_free_chain_def fat_freed_def)
next
  case (Cons x xs)
  with assms have "\<not> (c < 2 \<or> FAT32_EOC_MARKER \<le> c)" by auto
  then show ?thesis
    using free_chain_loop_correct [OF assms] by (auto simp: fat32_free_chain_def)
qed

section \<open>What an allocation does\<close>

text \<open>The sectors of a cluster that lies on the volume (addressable with 28 bits).\<close>

definition data_ok :: "fatfs \<Rightarrow> u32 \<Rightarrow> bool" where
  "data_ok s k \<longleftrightarrow> 2 \<le> k \<and>
     unat (data_start_lba s) + (unat k - 1) * unat (sectors_per_cluster s) \<le> 2 ^ 28"

definition cluster_sectors :: "fatfs \<Rightarrow> u32 \<Rightarrow> u32 set" where
  "cluster_sectors s k = (\<lambda>i. cluster_to_lba s k + of_nat i) ` {..<unat (sectors_per_cluster s)}"

lemma data_ok_cong:
  "data_start_lba t = data_start_lba s \<Longrightarrow> sectors_per_cluster t = sectors_per_cluster s \<Longrightarrow>
   data_ok t k = data_ok s k \<and> cluster_sectors t k = cluster_sectors s k \<and>
   cluster_to_lba t k = cluster_to_lba s k"
  by (simp add: data_ok_def cluster_sectors_def cluster_to_lba_def)

lemma cluster_to_lba_nat:
  assumes ok: "data_ok s k" and i: "i < unat (sectors_per_cluster s)"
  shows "unat (cluster_to_lba s k + of_nat i) =
    unat (data_start_lba s) + (unat k - 2) * unat (sectors_per_cluster s) + i"
proof -
  let ?n = "unat (sectors_per_cluster s)"
  have k: "2 \<le> unat k" using ok by (simp add: data_ok_def word_le_nat_alt)
  then have "(unat k - 1) * ?n = (unat k - 2) * ?n + ?n"
    by (metis Nat.add_diff_assoc2 One_nat_def Suc_1 add.commute diff_Suc_Suc diff_diff_left
        le_add_diff_inverse2 mult_Suc numeral_1_eq_Suc_0 numeral_One plus_1_eq_Suc)
  then have b: "unat (data_start_lba s) + (unat k - 2) * ?n + i < 2 ^ 28"
    using ok i by (simp add: data_ok_def)
  have u: "unat (ucast (sectors_per_cluster s) :: u32) = ?n"
    by (simp add: unat_ucast_up)
  have d: "unat (k - 2) = unat k - 2" using ok by (simp add: data_ok_def unat_diff_nowrap)
  have "unat ((k - 2) * ucast (sectors_per_cluster s)) = (unat k - 2) * ?n"
    using b by (subst unat_mult_nowrap) (simp_all add: u d)
  moreover have "unat (of_nat i :: u32) = i" using b by (simp add: unat_of_nat)
  ultimately show ?thesis
    using b by (simp add: cluster_to_lba_def unat_add_nowrap)
qed

lemma cluster_sectors_ok:
  assumes "data_ok s k" and "l \<in> cluster_sectors s k"
  shows "lba_ok l" and "data_start_lba s \<le> l"
proof -
  obtain i where i: "i < unat (sectors_per_cluster s)" "l = cluster_to_lba s k + of_nat i"
    using assms(2) by (auto simp: cluster_sectors_def)
  let ?n = "unat (sectors_per_cluster s)"
  have k: "2 \<le> unat k" using assms by (simp add: data_ok_def word_le_nat_alt)
  then obtain m where m: "unat k = Suc (Suc m)" by (metis Suc_1 add_2_eq_Suc le_Suc_ex)
  have "unat l = unat (data_start_lba s) + m * ?n + i"
    using cluster_to_lba_nat [OF assms(1) i(1)] i(2) m by simp
  moreover have "unat (data_start_lba s) + (?n + m * ?n) \<le> 2 ^ 28"
    using assms(1) m by (simp add: data_ok_def)
  ultimately show "lba_ok l" "data_start_lba s \<le> l"
    using i(1) by (simp_all add: lba_ok_def word_less_nat_alt word_le_nat_alt)
qed

lemma fold_upd_const:
  "fold (\<lambda>i d. d(f i := v)) xs d l = (if l \<in> f ` set xs then v else d l)"
  by (induction xs arbitrary: d) auto

lemma zero_cluster_disk:
  assumes "data_ok s k"
  shows "disk (zero_cluster s k) l = (if l \<in> cluster_sectors s k then replicate 512 0 else disk s l)"
proof -
  let ?f = "\<lambda>i. lba28 (cluster_to_lba s k + of_nat i)"
  let ?xs = "[0..<unat (sectors_per_cluster s)]"
  have "?f i = cluster_to_lba s k + of_nat i" if "i \<in> set ?xs" for i
    using that assms cluster_sectors_ok [of s k "cluster_to_lba s k + of_nat i"]
    by (auto simp: cluster_sectors_def)
  then have "?f ` set ?xs = cluster_sectors s k"
    unfolding cluster_sectors_def by (intro image_cong) auto
  then show ?thesis
    unfolding zero_cluster_def Let_def disk_write_def by (simp add: fold_upd_const)
qed

lemma zero_cluster_simps [simp]:
  "fat_start_lba (zero_cluster s c) = fat_start_lba s"
  "data_start_lba (zero_cluster s c) = data_start_lba s"
  "sectors_per_cluster (zero_cluster s c) = sectors_per_cluster s"
  "root_dir_cluster (zero_cluster s c) = root_dir_cluster s"
  "next_free_cluster_hint (zero_cluster s c) = next_free_cluster_hint s"
  "fat_cache_sector (zero_cluster s c) = fat_cache_sector s"
  "fat_cache_buf (zero_cluster s c) = fat_cache_buf s"
  "fat_cache_dirty (zero_cluster s c) = fat_cache_dirty s"
  by (simp_all add: zero_cluster_def Let_def)

lemma zero_cluster_inv:
  assumes "fat_inv s" and "data_ok s k"
  shows "fat_inv (zero_cluster s k)"
proof -
  have "fat_cache_sector s \<notin> cluster_sectors s k" if "fat_cache_sector s \<noteq> FAT_CACHE_INVALID"
    using that assms cluster_sectors_ok(2) [OF assms(2)] by (force simp: fat_inv_def)
  with assms show ?thesis
    by (auto simp: fat_inv_def geom_def zero_cluster_disk)
qed

lemma zero_cluster_raw:
  assumes "fat_inv s" and "data_ok s k" and "in_fat s c"
  shows "raw_of (zero_cluster s k) c = raw_of s c"
proof -
  let ?sec = "fat_entry_sector s c"
  have ok: "lba_ok ?sec" using assms by (intro fat_entry_sector_lba fat_inv_geom)
  have "?sec \<notin> cluster_sectors s k"
    using assms(3) cluster_sectors_ok(2) [OF assms(2)] by (force simp: in_fat_def)
  with ok have "cached_sector (zero_cluster s k) ?sec = cached_sector s ?sec"
    by (simp add: cached_sector_def disk_read_def zero_cluster_disk [OF assms(2)])
  then show ?thesis by (simp add: raw_of_def fat_entry_sector_def)
qed

text \<open>
  \<open>t\<close> is \<open>s\<close> after cluster \<open>k\<close> was taken: its entry is the end marker, its sectors are zero, the
  other entries and data sectors are as before.
\<close>
definition fat_allocated :: "fatfs \<Rightarrow> u32 \<Rightarrow> fatfs \<Rightarrow> bool" where
  "fat_allocated s k t \<longleftrightarrow>
     fat_start_lba t = fat_start_lba s \<and> data_start_lba t = data_start_lba s \<and>
     sectors_per_cluster t = sectors_per_cluster s \<and> root_dir_cluster t = root_dir_cluster s \<and>
     next_free_cluster_hint t = (if cluster_limit \<le> k + 1 then first_cluster else k + 1) \<and>
     (\<forall>c. in_fat s c \<longrightarrow> c < 0x10000000 \<longrightarrow>
        fat_of t c = (if c = k then FAT32_EOC_MARKER else fat_of s c)) \<and>
     (\<forall>l. data_start_lba s \<le> l \<longrightarrow>
        disk t l = (if l \<in> cluster_sectors s k then replicate 512 0 else disk s l))"

lemma fat_hint_irrelevant [simp]:
  "fat_inv (s\<lparr>next_free_cluster_hint := h\<rparr>) = fat_inv s"
  "raw_of (s\<lparr>next_free_cluster_hint := h\<rparr>) c = raw_of s c"
  "fat_of (s\<lparr>next_free_cluster_hint := h\<rparr>) c = fat_of s c"
  "in_fat (s\<lparr>next_free_cluster_hint := h\<rparr>) c = in_fat s c"
  "data_ok (s\<lparr>next_free_cluster_hint := h\<rparr>) c = data_ok s c"
  "cluster_sectors (s\<lparr>next_free_cluster_hint := h\<rparr>) c = cluster_sectors s c"
  by (simp_all add: fat_inv_def geom_def raw_of_def fat_of_def in_fat_def fat_entry_sector_def
      cached_sector_def data_ok_def cluster_sectors_def cluster_to_lba_def)

lemma alloc_found_correct:
  assumes inv: "fat_inv s" and k: "in_fat s k" "k < 0x10000000" and d: "data_ok s k"
  shows "fat_inv (alloc_found s k)" and "fat_allocated s k (alloc_found s k)"
proof -
  let ?u = "set_next_cluster s k FAT32_EOC_MARKER"
  let ?v = "fat32_fat_sync ?u"
  let ?h = "if cluster_limit \<le> k + 1 then first_cluster else k + 1"
  let ?w = "?v\<lparr>next_free_cluster_hint := ?h\<rparr>"
  have t: "alloc_found s k = zero_cluster ?w k" by (simp add: alloc_found_def Let_def)
  have u: "fat_inv ?u" by (rule set_next_cluster_inv [OF inv k(1)])
  then have v: "fat_inv ?v" by (rule fat_sync_inv)
  have dw: "data_ok ?w k" using d by (simp add: data_ok_cong [of ?v s])
  show "fat_inv (alloc_found s k)" unfolding t using v dw by (intro zero_cluster_inv) simp_all
  have fat: "fat_of (zero_cluster ?w k) c = (if c = k then FAT32_EOC_MARKER else fat_of s c)"
    if c: "in_fat s c" "c < 0x10000000" for c
  proof -
    have cw: "in_fat ?w c" using c by (simp add: in_fat_cong [of ?v s])
    have "fat_of (zero_cluster ?w k) c = fat_of ?v c"
      using zero_cluster_raw [OF _ dw cw] v by (simp add: fat_of_def)
    also have "\<dots> = fat_of ?u c"
      using fat_eq_fat_of [OF fat_sync_eq [OF u]] c by simp
    also have "\<dots> = (if c = k then FAT32_EOC_MARKER else fat_of s c)"
      using set_next_cluster_fat_of [OF inv k(1) c(1)] c k(2)
      by (simp add: same_entry_small FAT32_EOC_MARKER_def)
    finally show ?thesis .
  qed
  have data: "disk (zero_cluster ?w k) l = (if l \<in> cluster_sectors s k then replicate 512 0 else disk s l)"
    if "data_start_lba s \<le> l" for l
    using that zero_cluster_disk [OF dw, of l] fat_sync_data [OF u, of l]
      set_next_cluster_data [OF inv k(1) that]
    by (simp add: data_ok_cong [of ?v s])
  show "fat_allocated s k (alloc_found s k)"
    using fat data by (simp add: t fat_allocated_def)
qed

lemma in_fat_mono:
  assumes "geom s" and "in_fat s k" and "j \<le> k" and "k < 0x10000000"
  shows "in_fat s j"
proof -
  have "unat j \<le> unat k" "unat k < 268435456" using assms by (simp_all add: word_le_nat_alt word_less_nat_alt)
  then have "unat j mod 1073741824 div 128 \<le> unat k mod 1073741824 div 128" by (simp add: div_le_mono)
  then have "fat_entry_sector s j \<le> fat_entry_sector s k"
    using assms(1) by (simp add: word_le_nat_alt fat_entry_sector_nat)
  with assms(2) show ?thesis by (simp add: in_fat_def)
qed

lemma fat_allocated_eq:
  assumes st: "fat_eq s t" and tu: "fat_allocated t k u"
  shows "fat_allocated s k u"
proof -
  note g = fat_eq_geom [OF st]
  have "cluster_sectors t k = cluster_sectors s k" by (simp add: data_ok_cong [of t s] g)
  with tu show ?thesis
    using fat_eq_fat_of [OF st] fat_eq_disk [OF st] by (simp add: fat_allocated_def g)
qed

text \<open>The scan returns the first free cluster at or after its starting point.\<close>

lemma alloc_scan_first:
  assumes "fat_inv s" and "h \<le> k" and "k < cluster_limit" and "in_fat s k" and "data_ok s k"
    and "fat_of s k = 0" and "\<forall>j. h \<le> j \<longrightarrow> j < k \<longrightarrow> fat_of s j \<noteq> 0" and "unat k - unat h < n"
  shows "\<exists>t. alloc_scan n s h = (t, k) \<and> fat_inv t \<and> fat_allocated s k t"
  using assms
proof (induction n arbitrary: s h)
  case 0
  then show ?case by simp
next
  case (Suc n)
  have small: "k < 0x10000000"
    using Suc.prems(3) by (simp add: cluster_limit_def order_less_trans)
  obtain s1 v where g: "get_next_cluster s h = (s1, v)" by fastforce
  have h: "in_fat s h"
    using in_fat_mono [OF fat_inv_geom [OF Suc.prems(1)] Suc.prems(4,2) small] .
  note get = get_next_cluster_spec [OF Suc.prems(1) h g]
  note eq = fat_eq_geom [OF get(3)]
  have k1: "in_fat s1 k" "data_ok s1 k" "fat_of s1 k = 0"
    using Suc.prems fat_eq_fat_of [OF get(3)] by (simp_all add: eq data_ok_cong [of s1 s])
  show ?case
  proof (cases "h = k")
    case True
    have "alloc_scan (Suc n) s h = (alloc_found s1 k, k)"
      using g get(1) True Suc.prems(6) by simp
    then show ?thesis
      using alloc_found_correct [OF get(2) k1(1) small k1(2)] fat_allocated_eq [OF get(3)] by blast
  next
    case False
    then have lt: "h < k" using Suc.prems(2) by simp
    then have "v \<noteq> 0" using get(1) Suc.prems(7) by simp
    have "unat (h + 1) = unat h + 1"
      using lt small by (subst unat_add_nowrap) (simp_all add: word_less_nat_alt)
    then have h1: "h + 1 \<le> k" "h + 1 < cluster_limit" "unat k - unat (h + 1) < n" "h < h + 1"
      using lt Suc.prems(3,8) by (simp_all add: word_less_nat_alt word_le_nat_alt)
    have "fat_of s1 j \<noteq> 0" if "h + 1 \<le> j" "j < k" for j
    proof -
      have "in_fat s j"
        using in_fat_mono [OF fat_inv_geom [OF Suc.prems(1)] Suc.prems(4)] that small by simp
      moreover have "h \<le> j" using that(1) h1(4) by simp
      ultimately show ?thesis using fat_eq_fat_of [OF get(3)] Suc.prems(7) that(2) by simp
    qed
    then obtain t where "alloc_scan n s1 (h + 1) = (t, k)" "fat_inv t" "fat_allocated s1 k t"
      using Suc.IH [OF get(2) h1(1) Suc.prems(3) k1 _ h1(3)] by blast
    then show ?thesis
      using g \<open>v \<noteq> 0\<close> h1(2) fat_allocated_eq [OF get(3)] by (auto simp: not_le)
  qed
qed

lemma fat32_allocate_cluster_first:
  assumes "fat_inv s" and "first_cluster \<le> next_free_cluster_hint s" and "next_free_cluster_hint s \<le> k"
    and "k < cluster_limit" and "in_fat s k" and "data_ok s k"
    and "fat_of s k = 0" and "\<forall>j. next_free_cluster_hint s \<le> j \<longrightarrow> j < k \<longrightarrow> fat_of s j \<noteq> 0"
  shows "\<exists>t. fat32_allocate_cluster s = (t, k) \<and> fat_inv t \<and> fat_allocated s k t"
proof -
  have "unat k - unat (next_free_cluster_hint s) < unat (cluster_limit - first_cluster)"
    using assms(2-4) by (simp add: word_less_nat_alt word_le_nat_alt cluster_limit_def first_cluster_def)
  moreover have "\<not> next_free_cluster_hint s < first_cluster" "\<not> cluster_limit \<le> next_free_cluster_hint s"
    using assms(2-4) by auto
  ultimately show ?thesis
    using alloc_scan_first [OF assms(1,3-8)] by (simp add: fat32_allocate_cluster_def)
qed

section \<open>The free loop returns even on a cyclic table\<close>

text \<open>
  The clusters that the loop visits from \<open>c\<close>: the start and what the links lead to, up to a free entry
  or an end marker.
\<close>
inductive fat_reach :: "fatfs \<Rightarrow> u32 \<Rightarrow> u32 \<Rightarrow> bool" for s c where
  fat_reach_start: "c < FAT32_EOC_MARKER \<Longrightarrow> c \<noteq> 0 \<Longrightarrow> fat_reach s c c"
| fat_reach_link: "fat_reach s c d \<Longrightarrow> fat_of s d < FAT32_EOC_MARKER \<Longrightarrow> fat_of s d \<noteq> 0 \<Longrightarrow> fat_reach s c (fat_of s d)"

text \<open>No link that the loop follows from \<open>c\<close> leaves the table.\<close>
definition fat_closed :: "fatfs \<Rightarrow> u32 \<Rightarrow> bool" where
  "fat_closed s c \<longleftrightarrow> (\<forall>d. fat_reach s c d \<longrightarrow> in_fat s d)"

definition used_clusters :: "fatfs \<Rightarrow> u32 set" where
  "used_clusters s = {c. in_fat s c \<and> c < FAT32_EOC_MARKER \<and> fat_of s c \<noteq> 0}"

lemma in_fat_zero: "geom s \<Longrightarrow> in_fat s c \<Longrightarrow> in_fat s 0"
  by (simp add: in_fat_def word_less_nat_alt fat_entry_sector_nat)

lemma fat_reach_small: "fat_reach s c d \<Longrightarrow> d < FAT32_EOC_MARKER \<and> d \<noteq> 0"
  by (induction rule: fat_reach.induct) auto

lemma fat_reach_free:
  assumes "fat_of s c = 0 \<or> FAT32_EOC_MARKER \<le> fat_of s c"
  shows "fat_reach s c d \<longleftrightarrow> d = c \<and> c < FAT32_EOC_MARKER \<and> c \<noteq> 0"
proof
  assume "fat_reach s c d"
  then show "d = c \<and> c < FAT32_EOC_MARKER \<and> c \<noteq> 0"
    by (induction rule: fat_reach.induct) (use assms in auto)
qed (auto intro: fat_reach_start)

text \<open>After the first cluster has been freed the loop visits the same clusters as before.\<close>
lemma fat_reach_step:
  assumes c: "c < FAT32_EOC_MARKER" "c \<noteq> 0" and n: "fat_of s c < FAT32_EOC_MARKER" "fat_of s c \<noteq> 0"
    and fo: "\<And>x. fat_reach s c x \<Longrightarrow> fat_of t x = (if x = c then 0 else fat_of s x)"
  shows "fat_reach s c d \<longleftrightarrow> d = c \<or> fat_reach t (fat_of s c) d"
proof
  assume "fat_reach s c d"
  then show "d = c \<or> fat_reach t (fat_of s c) d"
  proof (induction rule: fat_reach.induct)
    case (fat_reach_link d)
    show ?case
    proof (cases "d = c")
      case True
      then show ?thesis using fat_reach.fat_reach_start [OF n] by simp
    next
      case False
      with fat_reach_link have "fat_reach t (fat_of s c) d" "fat_of t d = fat_of s d" using fo by auto
      then show ?thesis using fat_reach.fat_reach_link fat_reach_link.hyps by metis
    qed
  qed simp
next
  have s: "fat_reach s c c" "fat_reach s c (fat_of s c)"
    using fat_reach.intros(1) [OF c] fat_reach.intros(2) n by blast+
  have "fat_reach s c d" if "fat_reach t (fat_of s c) d"
    using that
  proof (induction rule: fat_reach.induct)
    case (fat_reach_link d)
    then have "fat_of t d = fat_of s d" using fo by (metis)
    then show ?case using fat_reach_link fat_reach.fat_reach_link by metis
  qed (rule s)
  then show "d = c \<or> fat_reach t (fat_of s c) d \<Longrightarrow> fat_reach s c d" using s by blast
qed

lemma free_chain_loop_reach:
  "fat_inv s \<Longrightarrow> fat_closed s c \<Longrightarrow>
   \<exists>t. free_chain_loop s c = Some t \<and> fat_inv t \<and> fat_freed s {d. fat_reach s c d} t"
proof (induction "card (used_clusters s)" arbitrary: s c rule: less_induct)
  case less
  show ?case
  proof (cases "c < FAT32_EOC_MARKER \<and> c \<noteq> 0")
    case False
    then have "free_chain_loop s c = Some s" by (subst free_chain_loop.simps) auto
    moreover have "\<not> fat_reach s c d" for d
    proof
      assume "fat_reach s c d"
      then show False by (induction rule: fat_reach.induct) (use False in auto)
    qed
    ultimately show ?thesis using less.prems(1) by (simp add: fat_freed_def)
  next
    case True
    obtain s1 n where g: "get_next_cluster s c = (s1, n)" by fastforce
    have small: "c < 0x10000000" using True eoc_small by blast
    have c: "in_fat s c" using less.prems(2) True by (simp add: fat_closed_def fat_reach_start)
    note st = free_step [OF less.prems(1) c small g]
    let ?t = "set_next_cluster s1 c 0"
    have unfold: "free_chain_loop s c = free_chain_loop ?t (fat_of s c)"
      using True g st(1) by (subst free_chain_loop.simps) simp
    have fat: "in_fat ?t x = in_fat s x" for x
      using st(3) by (intro in_fat_cong) (simp_all add: fat_freed_def)
    have fo: "fat_of ?t x = (if x = c then 0 else fat_of s x)" if "in_fat s x" "x < FAT32_EOC_MARKER" for x
      using st(3) that eoc_small by (simp add: fat_freed_def)
    show ?thesis
    proof (cases "fat_of s c = 0 \<or> FAT32_EOC_MARKER \<le> fat_of s c")
      case stop: True
      then have "\<not> (fat_of s c < FAT32_EOC_MARKER \<and> fat_of s c \<noteq> 0)" by auto
      then have "free_chain_loop s c = Some ?t" unfolding unfold by (subst free_chain_loop.simps) auto
      moreover have "{d. fat_reach s c d} = {c}" using fat_reach_free [OF stop] True by auto
      ultimately show ?thesis using st(2,3) by simp
    next
      case False
      then have n: "fat_of s c \<noteq> 0" "fat_of s c < FAT32_EOC_MARKER" by auto
      have reach: "fat_reach s c d \<longleftrightarrow> d = c \<or> fat_reach ?t (fat_of s c) d" for d
      proof (rule fat_reach_step)
        fix x assume "fat_reach s c x"
        then show "fat_of ?t x = (if x = c then 0 else fat_of s x)"
          using fo less.prems(2) fat_reach_small by (simp add: fat_closed_def del: in_fat_set)
      qed (use True n in auto)
      have "used_clusters ?t = used_clusters s - {c}"
        by (auto simp: used_clusters_def fat fo simp del: in_fat_set split: if_splits)
      moreover have "c \<in> used_clusters s" using True c n by (simp add: used_clusters_def)
      ultimately have "card (used_clusters ?t) < card (used_clusters s)"
        using card_Diff1_less [OF finite] by (simp only:)
      moreover have "fat_closed ?t (fat_of s c)"
        using less.prems(2) reach by (simp add: fat fat_closed_def del: in_fat_set)
      ultimately obtain u where u: "free_chain_loop ?t (fat_of s c) = Some u" "fat_inv u"
          "fat_freed ?t {d. fat_reach ?t (fat_of s c) d} u"
        using less.hyps st(2) by blast
      have "{d. fat_reach s c d} = {c} \<union> {d. fat_reach ?t (fat_of s c) d}" using reach by auto
      then show ?thesis using unfold u fat_freed_trans [OF st(3) u(3)] by auto
    qed
  qed
qed


section \<open>Properties\<close>

text \<open>
  C4. The allocator takes the first free cluster at or after its hint: the entry becomes the end
  marker, the cluster's sectors are zeroed, the hint moves past it, and every other entry and every
  other data sector is kept.
\<close>
theorem allocate_takes_first_free:
  assumes "fat_inv s" and "first_cluster \<le> next_free_cluster_hint s"
    and "next_free_cluster_hint s \<le> k" and "k < cluster_limit" and "in_fat s k" and "data_ok s k"
    and "fat_of s k = 0" and "\<forall>j. next_free_cluster_hint s \<le> j \<longrightarrow> j < k \<longrightarrow> fat_of s j \<noteq> 0"
  shows "\<exists>t. fat32_allocate_cluster s = (t, k) \<and> fat_inv t \<and>
     fat_of t k = FAT32_EOC_MARKER \<and>
     next_free_cluster_hint t = (if cluster_limit \<le> k + 1 then first_cluster else k + 1) \<and>
     (\<forall>c. in_fat s c \<longrightarrow> c < 0x10000000 \<longrightarrow> c \<noteq> k \<longrightarrow> fat_of t c = fat_of s c) \<and>
     (\<forall>l. data_start_lba s \<le> l \<longrightarrow>
        disk t l = (if l \<in> cluster_sectors s k then replicate 512 0 else disk s l))"
proof -
  have "k < 0x10000000" using assms(4) by (simp add: cluster_limit_def order_less_trans)
  then show ?thesis
    using fat32_allocate_cluster_first [OF assms] assms(5) by (auto simp: fat_allocated_def)
qed

theorem allocate_takes_first_free_witness:
  "\<exists>t. fat32_allocate_cluster (set_next_cluster demo_volume 3 9) = (t, 4) \<and>
     fat_of t 4 = FAT32_EOC_MARKER \<and> fat_of t 3 = 9 \<and> next_free_cluster_hint t = 5"
proof -
  let ?s = "set_next_cluster demo_volume 3 9"
  have s: "fat_inv ?s" "in_fat ?s 4" "in_fat ?s 3" "fat_of ?s 3 = 9" "fat_of ?s 4 = 0"
    by (simp_all add: set_next_cluster_inv set_next_cluster_fat_of demo_volume_inv same_entry_def)
  have h: "next_free_cluster_hint ?s = 3" by (simp add: demo_volume_def)
  have used: "\<forall>j. 3 \<le> j \<longrightarrow> j < 4 \<longrightarrow> fat_of ?s j \<noteq> 0"
  proof (intro allI impI)
    fix j :: u32 assume "3 \<le> j" "j < 4"
    then have "j = 3" by (simp add: word_le_nat_alt word_less_nat_alt word_unat_eq_iff)
    then show "fat_of ?s j \<noteq> 0" using s(4) by simp
  qed
  have d: "data_ok ?s 4" by (simp add: data_ok_def demo_volume_def)
  have "\<exists>t. fat32_allocate_cluster ?s = (t, 4) \<and> fat_inv t \<and> fat_of t 4 = FAT32_EOC_MARKER \<and>
     next_free_cluster_hint t = (if cluster_limit \<le> 4 + 1 then first_cluster else 4 + 1) \<and>
     (\<forall>c. in_fat ?s c \<longrightarrow> c < 0x10000000 \<longrightarrow> c \<noteq> 4 \<longrightarrow> fat_of t c = fat_of ?s c) \<and>
     (\<forall>l. data_start_lba ?s \<le> l \<longrightarrow>
        disk t l = (if l \<in> cluster_sectors ?s 4 then replicate 512 0 else disk ?s l))"
    by (rule allocate_takes_first_free)
      (use s d used in \<open>simp_all only: h\<close>, simp_all add: first_cluster_def cluster_limit_def)
  then obtain t where t: "fat32_allocate_cluster ?s = (t, 4)" "fat_of t 4 = FAT32_EOC_MARKER"
      "next_free_cluster_hint t = (if cluster_limit \<le> 4 + 1 then first_cluster else 4 + 1)"
      "\<forall>c. in_fat ?s c \<longrightarrow> c < 0x10000000 \<longrightarrow> c \<noteq> 4 \<longrightarrow> fat_of t c = fat_of ?s c" by blast
  have "fat_of t 3 = 9" using t(4) s(3,4) by simp
  moreover have "next_free_cluster_hint t = 5" using t(3) by (simp add: cluster_limit_def)
  ultimately show ?thesis using t(1,2) by blast
qed

text \<open>
  C5. Freeing the chain that starts at a cluster returns, sets the entries of exactly the chain's
  clusters to zero, and keeps every other entry and every data sector.
\<close>
theorem free_chain_frees_exactly_the_chain:
  assumes "fat_inv s" and "fat_chain s c cs"
  shows "\<exists>t. fat32_free_chain s c = Some t \<and> fat_inv t \<and>
     (\<forall>x. in_fat s x \<longrightarrow> x < 0x10000000 \<longrightarrow> fat_of t x = (if x \<in> set cs then 0 else fat_of s x)) \<and>
     (\<forall>l. data_start_lba s \<le> l \<longrightarrow> disk t l = disk s l)"
  using free_chain_correct [OF assms] by (auto simp: fat_freed_def)

theorem free_chain_frees_exactly_the_chain_witness:
  "\<exists>t. fat32_free_chain (set_next_cluster (set_next_cluster demo_volume 3 5) 5 FAT32_EOC_MARKER) 3 = Some t \<and>
     fat_of t 3 = 0 \<and> fat_of t 5 = 0"
proof -
  let ?a = "set_next_cluster demo_volume 3 5"
  let ?s = "set_next_cluster ?a 5 FAT32_EOC_MARKER"
  have a: "fat_inv ?a" by (simp add: set_next_cluster_inv demo_volume_inv)
  have s: "fat_inv ?s" by (simp add: set_next_cluster_inv a)
  have "fat_of ?s 3 = 5" "fat_of ?s 5 = FAT32_EOC_MARKER"
    by (simp_all add: set_next_cluster_fat_of a demo_volume_inv same_entry_def FAT32_EOC_MARKER_def)
  then have ch: "fat_chain ?s 3 [3, 5]" by (simp add: FAT32_EOC_MARKER_def)
  show ?thesis using free_chain_frees_exactly_the_chain [OF s ch] by auto
qed

text \<open>
  C15. The free loop has no bound in the code; it returns nevertheless, on cyclic and cross-linked
  tables too, as long as no link that it follows from its start leaves the table (the rest of the
  table may hold anything), and it frees exactly the clusters that the links lead to (none for a start
  below 2).
\<close>
theorem free_chain_returns:
  assumes "fat_inv s" and "fat_closed s c"
  shows "\<exists>t. fat32_free_chain s c = Some t \<and> fat_inv t \<and>
    (\<forall>x. in_fat s x \<longrightarrow> x < 0x10000000 \<longrightarrow> fat_of t x = (if 2 \<le> c \<and> fat_reach s c x then 0 else fat_of s x))"
proof (cases "2 \<le> c \<and> c < FAT32_EOC_MARKER")
  case True
  then have run: "fat32_free_chain s c = free_chain_loop s c"
    by (auto simp: fat32_free_chain_def)
  show ?thesis
    using free_chain_loop_reach [OF assms] True unfolding run by (auto simp: fat_freed_def)
next
  case False
  then have "\<not> (2 \<le> c \<and> fat_reach s c x)" for x
    using fat_reach.induct [of s c x "\<lambda>_. False"] by blast
  moreover have "fat32_free_chain s c = Some s" using False by (auto simp: fat32_free_chain_def)
  ultimately show ?thesis using assms(1) by (metis (no_types, lifting))
qed

text \<open>A cycle of two clusters in a table that has a bad-cluster mark elsewhere.\<close>
theorem free_chain_returns_witness:
  "\<exists>t. fat32_free_chain (set_next_cluster (set_next_cluster (set_next_cluster demo_volume 3 5) 5 3) 200 0x0FFFFFF7) 3 = Some t \<and>
     fat_of t 5 = 0 \<and> fat_of t 200 = 0x0FFFFFF7"
proof -
  let ?a = "set_next_cluster demo_volume 3 5"
  let ?b = "set_next_cluster ?a 5 3"
  let ?s = "set_next_cluster ?b 200 0x0FFFFFF7"
  have a: "fat_inv ?a" "fat_inv ?b" by (simp_all add: set_next_cluster_inv demo_volume_inv)
  have s: "fat_inv ?s" by (simp add: set_next_cluster_inv a)
  have fo: "fat_of ?s 3 = 5" "fat_of ?s 5 = 3" "fat_of ?s 200 = 0x0FFFFFF7"
    by (simp_all add: set_next_cluster_fat_of a demo_volume_inv same_entry_def)
  have r: "fat_reach ?s 3 d \<Longrightarrow> d = 3 \<or> d = 5" for d
    by (induction rule: fat_reach.induct) (auto simp: fo)
  moreover have "in_fat ?s 3" "in_fat ?s 5" by simp_all
  ultimately have cl: "fat_closed ?s 3" unfolding fat_closed_def by metis
  have r3: "fat_reach ?s 3 3" by (rule fat_reach_start) (simp_all add: FAT32_EOC_MARKER_def)
  have r5: "fat_reach ?s 3 5"
    using fat_reach_link [OF r3] by (simp add: fo FAT32_EOC_MARKER_def)
  show ?thesis using free_chain_returns [OF s cl] r5 r [of 200] fo by auto
qed

end
