(* ===== verification/FatNames.thy ===== *)
theory FatNames
  imports Prelude
begin

text \<open>
  File names in a FAT32 directory (\<open>src/src/fs/fat32.c\<close>): the 32-byte directory slot and its two
  readings (\<open>fat32_dir_t\<close> and \<open>fat32_lfn_t\<close>), the 8.3 form and its parser, the short alias, the
  long-name chunks, their checksum, and the accumulator that puts a long name together again.
  Names are C strings (byte lists without the terminator).

  The lemmas show the two round trips: an 8.3 name that \<open>name_fits_83\<close> accepts comes back (in lower
  case), and the chunk slots written for a long name are read back as that name.
\<close>

section \<open>Characters\<close>

definition toupper :: "u8 \<Rightarrow> u8" where
  "toupper c = (if 0x61 \<le> c \<and> c \<le> 0x7A then c - (0x61 - 0x41) else c)"

definition islower :: "u8 \<Rightarrow> bool" where
  "islower c \<longleftrightarrow> 0x61 \<le> c \<and> c \<le> 0x7A"

definition tolower_entry :: "u8 \<Rightarrow> u8" where
  "tolower_entry c = (if 0x41 \<le> c \<and> c \<le> 0x5A then c + 32 else c)"

text \<open>The C string held in a buffer: the bytes before the first NUL.\<close>
definition cstr_of :: "u8 list \<Rightarrow> cstring" where
  "cstr_of bs = takeWhile (\<lambda>c. c \<noteq> 0) bs"

section \<open>Directory slots\<close>

definition FAT_ATTR_DIRECTORY :: u8 where "FAT_ATTR_DIRECTORY = 0x10"
definition FAT_ATTR_ARCHIVE :: u8 where "FAT_ATTR_ARCHIVE = 0x20"
definition FAT_ATTR_LFN :: u8 where "FAT_ATTR_LFN = 0x01 OR 0x02 OR 0x04 OR 0x08"

text \<open>The fields of \<open>fat32_dir_t\<close> that the driver uses, read from the 32 bytes of a slot.\<close>

definition d_name :: "u8 list \<Rightarrow> u8 list" where "d_name raw = slice_at raw 0 11"
definition d_attributes :: "u8 list \<Rightarrow> u8" where "d_attributes raw = raw ! 11"
definition d_cluster_high :: "u8 list \<Rightarrow> u16" where "d_cluster_high raw = of_le (slice_at raw 20 2)"
definition d_cluster_low :: "u8 list \<Rightarrow> u16" where "d_cluster_low raw = of_le (slice_at raw 26 2)"
definition d_file_size :: "u8 list \<Rightarrow> u32" where "d_file_size raw = of_le (slice_at raw 28 4)"

definition d_start_cluster :: "u8 list \<Rightarrow> u32" where
  "d_start_cluster raw = push_bit 16 (ucast (d_cluster_high raw)) OR ucast (d_cluster_low raw)"

text \<open>A short entry as \<open>fat32_add_entry\<close> writes it: zeroed, then the named fields.\<close>
definition mk_dir_slot :: "u8 list \<Rightarrow> u8 \<Rightarrow> u32 \<Rightarrow> u8 list" where
  "mk_dir_slot name11 attr start_cluster =
     name11 @ [attr] @ replicate 8 0 @
     le_bytes 2 (ucast ((drop_bit 16 start_cluster) AND 0xFFFF) :: u16) @ replicate 4 0 @
     le_bytes 2 (ucast (start_cluster AND 0xFFFF) :: u16) @ le_bytes 4 (0 :: u32)"

definition compare_name_83 :: "u8 list \<Rightarrow> u8 list \<Rightarrow> bool" where
  "compare_name_83 entry_name search_name \<longleftrightarrow>
     list_all (\<lambda>i. entry_name ! i = search_name ! i) [0..<11]"

section \<open>8.3 names\<close>

fun fits_83_loop :: "cstring \<Rightarrow> nat \<Rightarrow> nat \<Rightarrow> nat \<Rightarrow> nat \<Rightarrow> bool \<Rightarrow> bool" where
  "fits_83_loop [] len dots base_len ext_len in_ext = (base_len > 0)"
| "fits_83_loop (c # p) len dots base_len ext_len in_ext =
     (if len > 12 then False
      else if c = 0x2E
      then (if dots + 1 > 1 then False else fits_83_loop p (len + 1) (dots + 1) base_len ext_len True)
      else if c = 0x20 \<or> islower c then False
      else if in_ext
      then (if ext_len + 1 > 3 then False else fits_83_loop p (len + 1) dots base_len (ext_len + 1) in_ext)
      else (if base_len + 1 > 8 then False else fits_83_loop p (len + 1) dots (base_len + 1) ext_len in_ext))"

definition name_fits_83 :: "cstring \<Rightarrow> bool" where
  "name_fits_83 name = fits_83_loop name 0 0 0 0 False"

text \<open>
  The copy loops of \<open>format_83_name\<close>: upper-case the input into \<open>output[j..lim)\<close> until the input
  ends or (in the base part) a dot is met; the rest of the input is returned.
\<close>
fun copy_upper :: "bool \<Rightarrow> cstring \<Rightarrow> nat \<Rightarrow> nat \<Rightarrow> u8 list \<Rightarrow> cstring \<times> u8 list" where
  "copy_upper stop_dot [] j lim output = ([], output)"
| "copy_upper stop_dot (c # input) j lim output =
     (if (stop_dot \<and> c = 0x2E) \<or> \<not> j < lim then (c # input, output)
      else copy_upper stop_dot input (j + 1) lim (output[j := toupper c]))"

definition format_83_name :: "cstring \<Rightarrow> u8 list" where
  "format_83_name input =
     (let output = replicate 11 0x20;
          (rest, output) = copy_upper True input 0 8 output;
          rest = dropWhile (\<lambda>c. c \<noteq> 0x2E) rest
      in case rest of
           [] \<Rightarrow> output
         | _ # rest \<Rightarrow> snd (copy_upper False rest 8 11 output))"

definition parse_83_name :: "u8 list \<Rightarrow> cstring" where
  "parse_83_name fat_name =
     map tolower_entry (takeWhile (\<lambda>c. c \<noteq> 0x20) (slice_at fat_name 0 8)) @
     (if fat_name ! 8 \<noteq> 0x20
      then 0x2E # map tolower_entry (takeWhile (\<lambda>c. c \<noteq> 0x20) (slice_at fat_name 8 3))
      else [])"

text \<open>The decimal digits of the alias number, least significant first (\<open>do \<dots> while (n)\<close>).\<close>
fun alias_digits :: "nat \<Rightarrow> u8 list" where
  "alias_digits n = (0x30 + of_nat (n mod 10)) # (if n div 10 = 0 then [] else alias_digits (n div 10))"

declare alias_digits.simps [simp del]

text \<open>Position of the last dot.\<close>
fun last_dot :: "cstring \<Rightarrow> nat \<Rightarrow> nat option \<Rightarrow> nat option" where
  "last_dot [] j dot = dot"
| "last_dot (c # s) j dot = last_dot s (j + 1) (if c = 0x2E then Some j else dot)"

definition generate_short_alias :: "cstring \<Rightarrow> u32 \<Rightarrow> u8 list" where
  "generate_short_alias long_name alias_num =
     (let dot = last_dot long_name 0 None;
          stem = (case dot of None \<Rightarrow> long_name | Some d \<Rightarrow> take d long_name);
          base = take 8 (map toupper (filter (\<lambda>c. c \<noteq> 0x20 \<and> c \<noteq> 0x2E) stem));
          base = (if base = [] then [0x5F] else base);
          ext = (case dot of None \<Rightarrow> [] | Some d \<Rightarrow> map toupper (take 3 (drop (d + 1) long_name)));
          numtail = 0x7E # rev (alias_digits (unat alias_num));
          name_room = (if 8 - int (length numtail) < 1 then 1 else 8 - length numtail);
          base = (if length base > name_room then take name_room base else base);
          out = replicate 11 0x20;
          out = put_bytes out 0 base;
          out = put_bytes out (length base) numtail
      in put_bytes out 8 ext)"

section \<open>Long names\<close>

definition LFN_MAX_ENTRIES :: nat where "LFN_MAX_ENTRIES = 20"
definition LFN_CHARS_PER_ENTRY :: nat where "LFN_CHARS_PER_ENTRY = 13"
definition LFN_LAST_ENTRY_FLAG :: u8 where "LFN_LAST_ENTRY_FLAG = 0x40"

definition lfn_checksum :: "u8 list \<Rightarrow> u8" where
  "lfn_checksum short_name =
     fold (\<lambda>i sum. (if sum AND 1 \<noteq> 0 then 0x80 else 0) + drop_bit 1 sum + short_name ! i) [0..<11] 0"

text \<open>The fields of \<open>fat32_lfn_t\<close>: sequence byte, checksum, and the 13 UCS-2 units.\<close>
definition l_seq :: "u8 list \<Rightarrow> u8" where "l_seq raw = raw ! 0"
definition l_checksum :: "u8 list \<Rightarrow> u8" where "l_checksum raw = raw ! 13"

definition l_units :: "u8 list \<Rightarrow> u16 list" where
  "l_units raw =
     map (\<lambda>i. of_le (slice_at raw (1 + 2 * i) 2)) [0..<5] @
     map (\<lambda>i. of_le (slice_at raw (14 + 2 * i) 2)) [0..<6] @
     map (\<lambda>i. of_le (slice_at raw (28 + 2 * i) 2)) [0..<2]"

fun extract_units :: "u16 list \<Rightarrow> cstring" where
  "extract_units [] = []"
| "extract_units (ch # cs) =
     (if ch = 0x0000 \<or> ch = 0xFFFF then []
      else (if ch < 0x80 then ucast ch else 0x5F) # extract_units cs)"

definition lfn_extract_chars :: "u8 list \<Rightarrow> cstring" where
  "lfn_extract_chars raw = extract_units (l_units raw)"

record lfn_accum =
  chunks :: "nat \<Rightarrow> cstring"
  slot_lba :: "nat \<Rightarrow> u32"
  slot_idx :: "nat \<Rightarrow> u8"
  total_chunks :: u8
  next_expected_seq :: u8
  in_progress :: bool
  acc_checksum :: u8

definition lfn_accum_reset :: "lfn_accum \<Rightarrow> lfn_accum" where
  "lfn_accum_reset acc = acc\<lparr>in_progress := False, next_expected_seq := 0, total_chunks := 0\<rparr>"

text \<open>
  Feeding one slot.  The result carries the long name exactly when the C function returns true;
  its \<open>out_name\<close> is otherwise left alone.  Every caller passes its local array \<open>long_name[256]\<close>;
  twenty chunks can hold 260 characters, and a name that does not fit there with its terminator is
  written past the end of the array.  This bad access is \<open>None\<close>.
\<close>
definition LONG_NAME_SIZE :: nat where "LONG_NAME_SIZE = 256"

definition lfn_feed_entry :: "lfn_accum \<Rightarrow> u8 list \<Rightarrow> u32 \<Rightarrow> u8 \<Rightarrow> (lfn_accum \<times> cstring option) option" where
  "lfn_feed_entry acc raw lba idx =
     (if d_attributes raw = FAT_ATTR_LFN
      then
        let seq = l_seq raw AND 0x1F
        in if seq = 0 \<or> unat seq > LFN_MAX_ENTRIES then Some (lfn_accum_reset acc, None)
           else
             let store = (\<lambda>a. a\<lparr>chunks := (chunks a)(unat seq - 1 := lfn_extract_chars raw),
                               slot_lba := (slot_lba a)(unat seq - 1 := lba),
                               slot_idx := (slot_idx a)(unat seq - 1 := idx)\<rparr>)
             in if l_seq raw AND LFN_LAST_ENTRY_FLAG \<noteq> 0
                then Some (store ((lfn_accum_reset acc)\<lparr>in_progress := True, acc_checksum := l_checksum raw,
                              total_chunks := seq, next_expected_seq := seq\<rparr>), None)
                else if \<not> in_progress acc \<or> l_checksum raw \<noteq> acc_checksum acc \<or>
                        int (unat seq) \<noteq> int (unat (next_expected_seq acc)) - 1
                then Some (lfn_accum_reset acc, None)
                else Some (store (acc\<lparr>next_expected_seq := seq\<rparr>), None)
      else if in_progress acc \<and> next_expected_seq acc = 1 \<and> lfn_checksum (d_name raw) = acc_checksum acc
      then
        let out_name = concat (map (chunks acc) [0..<unat (total_chunks acc)])
        in if length out_name < LONG_NAME_SIZE then Some (lfn_accum_reset acc, Some out_name) else None
      else Some (lfn_accum_reset acc, None))"

text \<open>
  Writing: the 13 bytes of chunk \<open>seq\<close> of a name, padded with NUL, their units (characters, one
  terminator, then \<open>0xFFFF\<close> padding), and the slot.
\<close>
definition lfn_piece :: "cstring \<Rightarrow> nat \<Rightarrow> u8 list" where
  "lfn_piece long_name seq =
     map (\<lambda>k. let src_i = (seq - 1) * LFN_CHARS_PER_ENTRY + k
              in if src_i < length long_name then long_name ! src_i else 0) [0..<LFN_CHARS_PER_ENTRY]"

fun encode_units :: "u8 list \<Rightarrow> bool \<Rightarrow> u16 list" where
  "encode_units [] ended = []"
| "encode_units (c # cs) ended =
     (if \<not> ended \<and> c \<noteq> 0 then ucast c # encode_units cs ended
      else if \<not> ended then 0x0000 # encode_units cs True
      else 0xFFFF # encode_units cs ended)"

definition mk_lfn_slot :: "u8 \<Rightarrow> u8 \<Rightarrow> u16 list \<Rightarrow> u8 list" where
  "mk_lfn_slot seq checksum units =
     [seq] @ concat (map (le_bytes 2) (slice_at units 0 5)) @ [FAT_ATTR_LFN, 0, checksum] @
     concat (map (le_bytes 2) (slice_at units 5 6)) @ le_bytes 2 (0 :: u16) @
     concat (map (le_bytes 2) (slice_at units 11 2))"

definition lfn_chunk_count :: "cstring \<Rightarrow> nat" where
  "lfn_chunk_count long_name =
     (let n = (length long_name + LFN_CHARS_PER_ENTRY - 1) div LFN_CHARS_PER_ENTRY
      in if n = 0 then 1 else n)"

text \<open>The slot written at position \<open>c\<close> of the chain of \<open>chunk_count\<close> slots.\<close>
definition lfn_slot_at :: "cstring \<Rightarrow> u8 \<Rightarrow> nat \<Rightarrow> nat \<Rightarrow> u8 list" where
  "lfn_slot_at long_name checksum chunk_count c =
     (let seq = chunk_count - c
      in mk_lfn_slot (of_nat seq OR (if seq = chunk_count then LFN_LAST_ENTRY_FLAG else 0)) checksum
           (encode_units (lfn_piece long_name seq) False))"

section \<open>The long-name round trip\<close>

lemma l_units_mk_lfn_slot:
  assumes "length units = 13"
  shows "l_units (mk_lfn_slot seq checksum units) = units"
proof -
  obtain a b c d e f g h i j k l m where u: "units = [a,b,c,d,e,f,g,h,i,j,k,l,m]"
    using assms by (auto simp: length_Suc_conv numeral_eq_Suc)
  have le: "of_le [ucast w, ucast (drop_bit 8 w)] = w" for w :: u16
    using of_le_le_bytes [of 2 w] by (simp add: le_bytes_def numeral_2_eq_2)
  show ?thesis
    using le
    by (simp add: u l_units_def mk_lfn_slot_def slice_at_def le_bytes_def upt_rec numeral_eq_Suc
        del: of_le.simps)
qed

lemma mk_lfn_slot_fields:
  assumes "length units = 13"
  shows "d_attributes (mk_lfn_slot seq checksum units) = FAT_ATTR_LFN"
    "l_seq (mk_lfn_slot seq checksum units) = seq"
    "l_checksum (mk_lfn_slot seq checksum units) = checksum"
    "length (mk_lfn_slot seq checksum units) = 32"
proof -
  obtain a b c d e f g h i j k l m where u: "units = [a,b,c,d,e,f,g,h,i,j,k,l,m]"
    using assms by (auto simp: length_Suc_conv numeral_eq_Suc)
  show "d_attributes (mk_lfn_slot seq checksum units) = FAT_ATTR_LFN"
    "l_seq (mk_lfn_slot seq checksum units) = seq"
    "l_checksum (mk_lfn_slot seq checksum units) = checksum"
    "length (mk_lfn_slot seq checksum units) = 32"
    by (simp_all add: u d_attributes_def l_seq_def l_checksum_def mk_lfn_slot_def slice_at_def
        le_bytes_def upt_rec numeral_eq_Suc)
qed

lemma length_encode_units [simp]: "length (encode_units cs e) = length cs"
  by (induction cs arbitrary: e) auto

lemma extract_padding [simp]: "extract_units (encode_units cs True) = []"
  by (cases cs) auto

definition is_ascii :: "cstring \<Rightarrow> bool" where
  "is_ascii s \<longleftrightarrow> list_all (\<lambda>c. c < 0x80) s"

lemma ascii_unit:
  fixes c :: u8
  assumes "c < 0x80" and "c \<noteq> 0"
  shows "(ucast c :: u16) \<noteq> 0" "(ucast c :: u16) \<noteq> 0xFFFF" "(ucast c :: u16) < 0x80"
    "(ucast (ucast c :: u16) :: u8) = c"
proof -
  have u: "unat (ucast c :: u16) = unat c" by (simp add: unat_ucast_up)
  have c: "unat c < 128" "unat c \<noteq> 0" using assms by (simp_all add: word_less_nat_alt unat_eq_0)
  show "(ucast c :: u16) \<noteq> 0" "(ucast c :: u16) \<noteq> 0xFFFF" "(ucast c :: u16) < 0x80"
    using u c by (auto simp: word_unat_eq_iff word_less_nat_alt)
  show "(ucast (ucast c :: u16) :: u8) = c"
    using u c by (simp add: word_unat_eq_iff unat_ucast_mod)
qed

lemma extract_encode:
  "is_ascii cs \<Longrightarrow> extract_units (encode_units cs False) = takeWhile (\<lambda>c. c \<noteq> 0) cs"
  by (induction cs) (auto simp: is_ascii_def ascii_unit)

definition name_chunk :: "cstring \<Rightarrow> nat \<Rightarrow> cstring" where
  "name_chunk s i = take 13 (drop (13 * i) s)"

lemma concat_name_chunks: "length s \<le> 13 * n \<Longrightarrow> concat (map (name_chunk s) [0..<n]) = s"
proof -
  have "concat (map (name_chunk s) [0..<n]) = take (13 * n) s" for n
  proof (induction n)
    case (Suc n)
    have "take (13 * Suc n) s = take (13 * n) s @ take 13 (drop (13 * n) s)"
      by (metis add.commute mult_Suc_right take_add)
    with Suc show ?case by (simp add: name_chunk_def)
  qed simp
  then show "length s \<le> 13 * n \<Longrightarrow> concat (map (name_chunk s) [0..<n]) = s" by simp
qed

lemma lfn_piece_eq:
  "lfn_piece s (Suc i) = name_chunk s i @ replicate (13 - length (name_chunk s i)) 0"
proof (rule nth_equalityI)
  show "length (lfn_piece s (Suc i)) = length (name_chunk s i @ replicate (13 - length (name_chunk s i)) 0)"
    by (simp add: lfn_piece_def LFN_CHARS_PER_ENTRY_def name_chunk_def)
next
  fix k assume "k < length (lfn_piece s (Suc i))"
  then have "k < 13" by (simp add: lfn_piece_def LFN_CHARS_PER_ENTRY_def)
  then show "lfn_piece s (Suc i) ! k = (name_chunk s i @ replicate (13 - length (name_chunk s i)) 0) ! k"
    by (auto simp: lfn_piece_def LFN_CHARS_PER_ENTRY_def name_chunk_def nth_append Let_def mult.commute)
qed

lemma lfn_extract_piece:
  assumes "is_cstring s" and "is_ascii s"
  shows "extract_units (encode_units (lfn_piece s (Suc i)) False) = name_chunk s i"
proof -
  have c: "is_cstring (name_chunk s i)" using assms(1)
    by (simp add: name_chunk_def is_cstring_take is_cstring_drop)
  have "is_ascii (name_chunk s i)" using assms(2)
    by (auto simp: name_chunk_def is_ascii_def list_all_iff dest: in_set_takeD in_set_dropD)
  then have "is_ascii (lfn_piece s (Suc i))"
    by (auto simp: lfn_piece_eq is_ascii_def list_all_iff)
  then have "extract_units (encode_units (lfn_piece s (Suc i)) False) =
      takeWhile (\<lambda>c. c \<noteq> 0) (name_chunk s i @ replicate (13 - length (name_chunk s i)) 0)"
    by (simp add: extract_encode lfn_piece_eq)
  also have "\<dots> = name_chunk s i"
  proof -
    have "\<forall>x \<in> set (name_chunk s i). x \<noteq> 0" using c by (auto simp: is_cstring_def)
    then show ?thesis by (simp add: takeWhile_append2)
  qed
  finally show ?thesis .
qed

lemma seq_byte:
  assumes "n \<le> 20"
  shows "(of_nat n OR LFN_LAST_ENTRY_FLAG) AND 0x1F = (of_nat n :: u8)"
    "(of_nat n OR LFN_LAST_ENTRY_FLAG) AND LFN_LAST_ENTRY_FLAG \<noteq> (0 :: u8)"
    "(of_nat n :: u8) AND 0x1F = of_nat n"
    "(of_nat n :: u8) AND LFN_LAST_ENTRY_FLAG = 0"
    "unat (of_nat n :: u8) = n"
proof -
  have "list_all (\<lambda>n. (of_nat n OR LFN_LAST_ENTRY_FLAG) AND 0x1F = (of_nat n :: u8) \<and>
      (of_nat n OR LFN_LAST_ENTRY_FLAG) AND LFN_LAST_ENTRY_FLAG \<noteq> (0 :: u8) \<and>
      (of_nat n :: u8) AND 0x1F = of_nat n \<and> (of_nat n :: u8) AND LFN_LAST_ENTRY_FLAG = 0 \<and>
      unat (of_nat n :: u8) = n) [0..<21]"
    unfolding LFN_LAST_ENTRY_FLAG_def by code_simp
  then have all: "\<forall>n \<in> {0..<21}. (of_nat n OR LFN_LAST_ENTRY_FLAG) AND 0x1F = (of_nat n :: u8) \<and>
      (of_nat n OR LFN_LAST_ENTRY_FLAG) AND LFN_LAST_ENTRY_FLAG \<noteq> (0 :: u8) \<and>
      (of_nat n :: u8) AND 0x1F = of_nat n \<and> (of_nat n :: u8) AND LFN_LAST_ENTRY_FLAG = 0 \<and>
      unat (of_nat n :: u8) = n"
    unfolding list_all_iff set_upt .
  have "n \<in> {0..<21}" using assms by simp
  from bspec [OF all this]
  show "(of_nat n OR LFN_LAST_ENTRY_FLAG) AND 0x1F = (of_nat n :: u8)"
    "(of_nat n OR LFN_LAST_ENTRY_FLAG) AND LFN_LAST_ENTRY_FLAG \<noteq> (0 :: u8)"
    "(of_nat n :: u8) AND 0x1F = of_nat n"
    "(of_nat n :: u8) AND LFN_LAST_ENTRY_FLAG = 0"
    "unat (of_nat n :: u8) = n"
    by blast+
qed

text \<open>Feeding a run of slots, each with its place on the disk.\<close>

fun feed_all :: "(u8 list \<times> u32 \<times> u8) list \<Rightarrow> lfn_accum \<Rightarrow> lfn_accum option" where
  "feed_all [] acc = Some acc"
| "feed_all ((raw, lba, idx) # slots) acc =
     (case lfn_feed_entry acc raw lba idx of None \<Rightarrow> None | Some (acc', _) \<Rightarrow> feed_all slots acc')"

lemma feed_all_snoc:
  "feed_all (slots @ [(raw, lba, idx)]) acc =
     Option.bind (feed_all slots acc) (\<lambda>acc'. map_option fst (lfn_feed_entry acc' raw lba idx))"
  by (induction slots acc rule: feed_all.induct) (auto split: option.split)

text \<open>The accumulator after the first \<open>m > 0\<close> slots of the chain of \<open>n\<close> slots of name \<open>s\<close>.\<close>

definition lfn_progress :: "cstring \<Rightarrow> u8 \<Rightarrow> nat \<Rightarrow> nat \<Rightarrow> lfn_accum \<Rightarrow> bool" where
  "lfn_progress s checksum n m acc \<longleftrightarrow>
     in_progress acc \<and> acc_checksum acc = checksum \<and> total_chunks acc = of_nat n \<and>
     next_expected_seq acc = of_nat (n - (m - 1)) \<and>
     (\<forall>i. n - m \<le> i \<longrightarrow> i < n \<longrightarrow> chunks acc i = name_chunk s i)"

lemma lfn_slot_at_fields:
  assumes "is_cstring s" "is_ascii s" "c < n"
  shows "d_attributes (lfn_slot_at s checksum n c) = FAT_ATTR_LFN"
    "l_seq (lfn_slot_at s checksum n c) = of_nat (n - c) OR (if c = 0 then LFN_LAST_ENTRY_FLAG else 0)"
    "l_checksum (lfn_slot_at s checksum n c) = checksum"
    "lfn_extract_chars (lfn_slot_at s checksum n c) = name_chunk s (n - c - 1)"
    "length (lfn_slot_at s checksum n c) = 32"
proof -
  obtain i where i: "n - c = Suc i" using assms(3) by (metis Suc_diff_Suc)
  have len: "length (encode_units (lfn_piece s (n - c)) False) = 13"
    by (simp add: lfn_piece_def LFN_CHARS_PER_ENTRY_def)
  show "d_attributes (lfn_slot_at s checksum n c) = FAT_ATTR_LFN"
    "l_checksum (lfn_slot_at s checksum n c) = checksum"
    "length (lfn_slot_at s checksum n c) = 32"
    by (simp_all add: lfn_slot_at_def Let_def mk_lfn_slot_fields [OF len])
  show "l_seq (lfn_slot_at s checksum n c) = of_nat (n - c) OR (if c = 0 then LFN_LAST_ENTRY_FLAG else 0)"
    using assms(3) by (auto simp: lfn_slot_at_def Let_def mk_lfn_slot_fields [OF len])
  show "lfn_extract_chars (lfn_slot_at s checksum n c) = name_chunk s (n - c - 1)"
    using lfn_extract_piece [OF assms(1,2), of i] l_units_mk_lfn_slot [OF len]
    by (simp add: lfn_slot_at_def Let_def lfn_extract_chars_def i)
qed

lemma lfn_feed_first:
  assumes "is_cstring s" "is_ascii s" "0 < n" "n \<le> LFN_MAX_ENTRIES"
  shows "\<exists>acc'. lfn_feed_entry acc (lfn_slot_at s checksum n 0) lba idx = Some (acc', None) \<and>
    lfn_progress s checksum n 1 acc'"
proof -
  have n: "n \<le> 20" using assms(4) by (simp add: LFN_MAX_ENTRIES_def)
  have "(of_nat n :: u8) \<noteq> 0" using seq_byte(5) [OF n] assms(3) by (metis neq0_conv unat_eq_0)
  moreover have "LFN_LAST_ENTRY_FLAG \<noteq> 0" by (simp add: LFN_LAST_ENTRY_FLAG_def)
  ultimately show ?thesis
    using n assms(3)
    by (auto simp: lfn_feed_entry_def Let_def lfn_slot_at_fields [OF assms(1,2)] seq_byte [OF n]
        lfn_progress_def LFN_MAX_ENTRIES_def lfn_accum_reset_def)
qed

lemma lfn_feed_next:
  assumes "is_cstring s" "is_ascii s" "0 < m" "m < n" "n \<le> LFN_MAX_ENTRIES"
    and "lfn_progress s checksum n m acc"
  shows "\<exists>acc'. lfn_feed_entry acc (lfn_slot_at s checksum n m) lba idx = Some (acc', None) \<and>
    lfn_progress s checksum n (Suc m) acc'"
proof -
  let ?acc' = "acc\<lparr>next_expected_seq := of_nat (n - m),
          chunks := (chunks acc)(n - m - 1 := name_chunk s (n - m - 1)),
          slot_lba := (slot_lba acc)(n - m - 1 := lba), slot_idx := (slot_idx acc)(n - m - 1 := idx)\<rparr>"
  have n: "n - m \<le> 20" "n - (m - 1) \<le> 20" "n \<le> 20"
    using assms(5) by (simp_all add: LFN_MAX_ENTRIES_def)
  have "(of_nat (n - m) :: u8) \<noteq> 0" using seq_byte(5) [OF n(1)] assms(4)
    by (metis unat_eq_0 zero_less_diff less_numeral_extra(3))
  moreover have "int (unat (of_nat (n - m) :: u8)) = int (unat (next_expected_seq acc)) - 1"
    using assms(3,4,6) seq_byte(5) [OF n(1)] seq_byte(5) [OF n(2)]
    unfolding lfn_progress_def by (simp del: of_nat_diff of_nat_unat)
  ultimately have eq: "lfn_feed_entry acc (lfn_slot_at s checksum n m) lba idx = Some (?acc', None)"
    using assms(3,4,6) n(1)
    by (simp add: lfn_feed_entry_def Let_def lfn_slot_at_fields [OF assms(1,2,4)] seq_byte [OF n(1)]
        lfn_progress_def LFN_MAX_ENTRIES_def del: of_nat_diff of_nat_unat)
  have "chunks acc i = name_chunk s i" if "n - m \<le> i" "i < n" for i
    using assms(6) that by (simp add: lfn_progress_def)
  moreover have "n - m \<le> i" if "n - Suc m \<le> i" "i \<noteq> n - m - 1" for i using that by linarith
  ultimately have "\<forall>i. n - Suc m \<le> i \<longrightarrow> i < n \<longrightarrow>
      ((chunks acc)(n - m - 1 := name_chunk s (n - m - 1))) i = name_chunk s i"
    by simp
  then have "lfn_progress s checksum n (Suc m) ?acc'"
    using assms(6) unfolding lfn_progress_def by simp
  then show ?thesis using eq by blast
qed

text \<open>
  The slots of a long name in the order \<open>fat32_add_entry_named\<close> writes them, followed by the short
  entry, give the name back.
\<close>

lemma lfn_feed_chain:
  assumes "is_cstring s" "is_ascii s" "n \<le> LFN_MAX_ENTRIES" "0 < m" "m \<le> n"
    and "length places = m"
    and "slots = map (\<lambda>c. (lfn_slot_at s checksum n c, places ! c)) [0..<m]"
  shows "\<exists>acc'. feed_all slots acc = Some acc' \<and> lfn_progress s checksum n m acc'"
  using assms(4-7)
proof (induction m arbitrary: places slots)
  case 0
  then show ?case by simp
next
  case (Suc m)
  have slots: "slots = map (\<lambda>c. (lfn_slot_at s checksum n c, places ! c)) [0..<m]
      @ [(lfn_slot_at s checksum n m, places ! m)]"
    using Suc.prems by simp
  obtain lba idx where pl: "places ! m = (lba, idx)" by fastforce
  show ?case
  proof (cases "m = 0")
    case True
    then show ?thesis
      using lfn_feed_first [OF assms(1,2) _ assms(3), where acc = acc and checksum = checksum and lba = lba and idx = idx]
        Suc.prems pl by (auto simp: slots)
  next
    case False
    let ?pre = "map (\<lambda>c. (lfn_slot_at s checksum n c, places ! c)) [0..<m]"
    have pre: "?pre = map (\<lambda>c. (lfn_slot_at s checksum n c, take m places ! c)) [0..<m]" by simp
    have "0 < m" "m \<le> n" "length (take m places) = m" using Suc.prems False by simp_all
    then obtain a where a: "feed_all ?pre acc = Some a" "lfn_progress s checksum n m a"
      using Suc.IH [OF _ _ _ pre] by blast
    obtain a' where "lfn_feed_entry a (lfn_slot_at s checksum n m) lba idx = Some (a', None)"
        "lfn_progress s checksum n (Suc m) a'"
      using lfn_feed_next [OF assms(1,2) _ _ assms(3) a(2)] \<open>0 < m\<close> Suc_le_lessD [OF Suc.prems(2)] by blast
    then show ?thesis using a(1) by (simp add: slots pl feed_all_snoc)
  qed
qed

lemma lfn_feed_short:
  assumes p: "lfn_progress s (lfn_checksum (d_name raw)) n n acc" and n: "0 < n" "n \<le> LFN_MAX_ENTRIES"
    and len: "length s \<le> 13 * n" and raw: "d_attributes raw \<noteq> FAT_ATTR_LFN"
  shows "lfn_feed_entry acc raw lba idx =
    (if length s \<le> 255 then Some (lfn_accum_reset acc, Some s) else None)"
proof -
  have n20: "n \<le> 20" using n by (simp add: LFN_MAX_ENTRIES_def)
  have "n - (n - 1) = 1" using n by simp
  then have "next_expected_seq acc = 1" "total_chunks acc = of_nat n"
    using p unfolding lfn_progress_def by simp_all
  moreover have "map (chunks acc) [0..<n] = map (name_chunk s) [0..<n]"
    using p by (simp add: lfn_progress_def)
  then have "concat (map (chunks acc) [0..<n]) = s" using concat_name_chunks [OF len] by (simp only:)
  ultimately show ?thesis
    using p raw seq_byte(5) [OF n20] unfolding lfn_feed_entry_def lfn_progress_def
    by (simp add: LONG_NAME_SIZE_def)
qed

section \<open>The 8.3 round trip\<close>

definition ok_83 :: "u8 \<Rightarrow> bool" where
  "ok_83 c \<longleftrightarrow> c \<noteq> 0x2E \<and> c \<noteq> 0x20 \<and> \<not> islower c"

lemma toupper_ok: "ok_83 c \<Longrightarrow> toupper c = c"
  by (auto simp: ok_83_def toupper_def islower_def)

lemma fits_83_ext:
  "fits_83_loop p len 1 b e True \<Longrightarrow> list_all ok_83 p \<and> e + length p \<le> 3 \<or> p = []"
proof (induction p arbitrary: len e)
  case Nil
  then show ?case by simp
next
  case (Cons c p)
  then have c: "c \<noteq> 0x2E" "ok_83 c" "e + 1 \<le> 3" "fits_83_loop p (len + 1) 1 b (e + 1) True"
    by (auto simp: ok_83_def split: if_splits)
  with Cons.IH [OF c(4)] show ?case by auto
qed

text \<open>The shape of a name that fits: a base part and, after at most one dot, an extension.\<close>

definition shape_83 :: "cstring \<Rightarrow> cstring \<Rightarrow> cstring \<Rightarrow> bool" where
  "shape_83 name base ext \<longleftrightarrow>
     list_all ok_83 base \<and> list_all ok_83 ext \<and> 0 < length base \<and> length base \<le> 8 \<and> length ext \<le> 3 \<and>
     (name = base \<and> ext = [] \<or> name = base @ 0x2E # ext)"

lemma fits_83_base:
  "fits_83_loop p len 0 b 0 False \<Longrightarrow>
   \<exists>base ext. list_all ok_83 base \<and> list_all ok_83 ext \<and> 0 < b + length base \<and> (base = [] \<or> b + length base \<le> 8) \<and>
     length ext \<le> 3 \<and> (p = base \<and> ext = [] \<or> p = base @ 0x2E # ext)"
proof (induction p arbitrary: len b)
  case Nil
  then show ?case by (intro exI [of _ "[]"]) simp
next
  case (Cons c p)
  show ?case
  proof (cases "c = 0x2E")
    case True
    with Cons.prems have f: "fits_83_loop p (len + 1) 1 b 0 True" by (auto split: if_splits)
    have "0 < b" using f
    proof (induction p arbitrary: len)
      case Nil
      then show ?case by simp
    next
      case (Cons a p)
      have "0 < b" if "fits_83_loop q l 1 b e True" for q l e
        using that by (induction q arbitrary: l e) (auto split: if_splits)
      with Cons.prems show ?case by blast
    qed
    moreover have "list_all ok_83 p \<and> length p \<le> 3" using fits_83_ext [OF f] by auto
    ultimately show ?thesis
      using True by (intro exI [of _ "[]"] exI [of _ p]) simp
  next
    case False
    with Cons.prems have c: "ok_83 c" "b + 1 \<le> 8" "fits_83_loop p (len + 1) 0 (b + 1) 0 False"
      by (auto simp: ok_83_def split: if_splits)
    from Cons.IH [OF c(3)] obtain base ext where
      "list_all ok_83 base" "list_all ok_83 ext" "base = [] \<or> b + 1 + length base \<le> 8"
      "length ext \<le> 3" "p = base \<and> ext = [] \<or> p = base @ 0x2E # ext" by blast
    then show ?thesis
      using c by (intro exI [of _ "c # base"] exI [of _ ext]) auto
  qed
qed

lemma name_fits_83_shape: "name_fits_83 name \<Longrightarrow> \<exists>base ext. shape_83 name base ext"
  unfolding name_fits_83_def shape_83_def using fits_83_base [of name 0 0] by force

lemma copy_upper_all:
  "\<forall>c \<in> set xs. \<not> (b \<and> c = 0x2E) \<Longrightarrow> j + length xs \<le> lim \<Longrightarrow> lim \<le> length out \<Longrightarrow>
   r = [] \<or> b \<and> hd r = 0x2E \<Longrightarrow>
   copy_upper b (xs @ r) j lim out = (r, put_bytes out j (map toupper xs))"
proof (induction xs arbitrary: j out)
  case Nil
  then show ?case by (cases r) (auto simp: put_bytes_def)
next
  case (Cons c xs)
  have "put_bytes (out[j := toupper c]) (j + 1) (map toupper xs) = put_bytes out j (map toupper (c # xs))"
    using Cons.prems by (intro nth_equalityI) (auto simp: put_bytes_nth nth_list_update nth_Cons')
  moreover have "copy_upper b (xs @ r) (j + 1) lim (out[j := toupper c]) =
      (r, put_bytes (out[j := toupper c]) (j + 1) (map toupper xs))"
    using Cons.prems by (intro Cons.IH) auto
  ultimately show ?case using Cons.prems by simp
qed

lemma map_toupper_ok: "list_all ok_83 xs \<Longrightarrow> map toupper xs = xs"
  by (induction xs) (auto simp: toupper_ok)

lemma format_83_shape:
  assumes "shape_83 name base ext"
  shows "format_83_name name =
    base @ replicate (8 - length base) 0x20 @ ext @ replicate (3 - length ext) 0x20"
proof -
  have b: "list_all ok_83 base" "length base \<le> 8" and e: "list_all ok_83 ext" "length ext \<le> 3"
    using assms by (auto simp: shape_83_def)
  have nodot: "\<forall>c \<in> set base. \<not> (True \<and> c = 0x2E)" using b(1) by (auto simp: list_all_iff ok_83_def)
  let ?sp = "replicate 11 0x20 :: u8 list"
  have base: "copy_upper True (base @ r) 0 8 ?sp = (r, put_bytes ?sp 0 base)" if "r = [] \<or> hd r = 0x2E" for r
    using copy_upper_all [OF nodot, of 0 8 ?sp r] b that by (simp add: map_toupper_ok)
  have pb: "put_bytes ?sp 0 base = base @ replicate (11 - length base) 0x20" by (simp add: put_bytes_def)
  show ?thesis
  proof (cases "name = base \<and> ext = []")
    case True
    have "8 - length base + 3 = 11 - length base" using b(2) by simp
    then have "replicate (11 - length base) (0x20::u8) = replicate (8 - length base) 0x20 @ replicate 3 0x20"
      by (metis replicate_add)
    then show ?thesis
      using True base [of "[]"] by (simp add: format_83_name_def pb)
  next
    case False
    then have name: "name = base @ 0x2E # ext" using assms by (auto simp: shape_83_def)
    have "copy_upper False (ext @ []) 8 11 (put_bytes ?sp 0 base) =
        ([], put_bytes (put_bytes ?sp 0 base) 8 ext)"
      using copy_upper_all [of ext False 8 11 "put_bytes ?sp 0 base" "[]"] b e
      by (simp add: map_toupper_ok)
    then have "format_83_name name = put_bytes (put_bytes ?sp 0 base) 8 ext"
      using base [of "0x2E # ext"] by (simp add: format_83_name_def name)
    also have "\<dots> = base @ replicate (8 - length base) 0x20 @ ext @ replicate (3 - length ext) 0x20"
      using b e by (simp add: pb put_bytes_def)
    finally show ?thesis .
  qed
qed

lemma takeWhile_ok: "list_all ok_83 xs \<Longrightarrow> takeWhile (\<lambda>c. c \<noteq> 0x20) (xs @ replicate n 0x20) = xs"
proof -
  assume "list_all ok_83 xs"
  then have "\<forall>x \<in> set xs. x \<noteq> 0x20" by (auto simp: list_all_iff ok_83_def)
  then show ?thesis by (cases n) (simp_all add: takeWhile_append2)
qed

lemma parse_83_shape:
  assumes "shape_83 name base ext"
  shows "parse_83_name (format_83_name name) =
    map tolower_entry base @ (if ext = [] then [] else 0x2E # map tolower_entry ext)"
proof -
  let ?f = "base @ replicate (8 - length base) 0x20 @ ext @ replicate (3 - length ext) (0x20::u8)"
  have b: "list_all ok_83 base" "length base \<le> 8" and e: "list_all ok_83 ext" "length ext \<le> 3"
    using assms by (auto simp: shape_83_def)
  have f1: "slice_at ?f 0 8 = base @ replicate (8 - length base) 0x20"
    and f2: "slice_at ?f 8 3 = ext @ replicate (3 - length ext) 0x20"
    and f3: "?f ! 8 = (if ext = [] then 0x20 else hd ext)"
    using b e by (simp_all add: slice_at_def nth_append hd_conv_nth)
  have "hd ext \<noteq> 0x20" if "ext \<noteq> []" using e that by (cases ext) (auto simp: ok_83_def)
  then show ?thesis
    unfolding format_83_shape [OF assms] parse_83_name_def f1 f2 f3
    using b e by (simp add: takeWhile_ok)
qed

lemma tolower_inj: "ok_83 c \<Longrightarrow> ok_83 d \<Longrightarrow> tolower_entry c = tolower_entry d \<Longrightarrow> c = d"
  unfolding ok_83_def islower_def tolower_entry_def
  by (auto simp: word_le_nat_alt unat_word_ariths word_unat_eq_iff split: if_splits)


lemma tolower_dot: "ok_83 c \<Longrightarrow> tolower_entry c = tolower_entry 0x2E \<Longrightarrow> c = 0x2E"
  unfolding ok_83_def islower_def tolower_entry_def
  by (auto simp: word_le_nat_alt unat_word_ariths word_unat_eq_iff split: if_splits)

lemma name_83_tolower:
  assumes "name_fits_83 name" and "last name \<noteq> 0x2E"
  shows "parse_83_name (format_83_name name) = map tolower_entry name"
proof -
  obtain base ext where sh: "shape_83 name base ext" using name_fits_83_shape assms(1) by blast
  have "tolower_entry 0x2E = 0x2E" by (simp add: tolower_entry_def)
  moreover have "name = base @ (if ext = [] then [] else 0x2E # ext)"
    using sh assms(2) by (auto simp: shape_83_def)
  ultimately show ?thesis
    using parse_83_shape [OF sh] by (cases "ext = []") simp_all
qed

section \<open>Properties\<close>

text \<open>
  C12. A long name survives the directory: the slots that \<open>fat32_add_entry_named\<close> writes for an ASCII
  name of at most 255 characters, followed by the short entry whose checksum they carry, are accepted
  one after the other and make the accumulator deliver exactly that name, whatever it held before.
  A name of 256 to 260 characters gets its slots too, but reading it back writes past the end of
  the caller's \<open>long_name[256]\<close>.
\<close>
theorem lfn_round_trip:
  assumes "is_cstring s" and "is_ascii s" and "lfn_chunk_count s \<le> LFN_MAX_ENTRIES"
    and "length places = lfn_chunk_count s" and "d_attributes short \<noteq> FAT_ATTR_LFN"
  shows "\<exists>acc'. feed_all (map (\<lambda>c. (lfn_slot_at s (lfn_checksum (d_name short)) (lfn_chunk_count s) c, places ! c))
       [0..<lfn_chunk_count s]) acc = Some acc' \<and>
     lfn_feed_entry acc' short lba idx =
       (if length s \<le> 255 then Some (lfn_accum_reset acc', Some s) else None)"
proof -
  have n: "0 < lfn_chunk_count s" by (simp add: lfn_chunk_count_def Let_def)
  have len: "length s \<le> 13 * lfn_chunk_count s"
    by (auto simp: lfn_chunk_count_def Let_def LFN_CHARS_PER_ENTRY_def)
  show ?thesis
    using lfn_feed_chain [OF assms(1-3) n order_refl assms(4) refl]
      lfn_feed_short [OF _ n assms(3) len assms(5)] by blast
qed

text \<open>A name of two chunks, and the short entry of its alias.\<close>
definition demo_long_name :: cstring where
  "demo_long_name = bytes_of ''a long file name.txt''"

definition demo_short_entry :: "u8 list" where
  "demo_short_entry = mk_dir_slot (generate_short_alias demo_long_name 1) FAT_ATTR_ARCHIVE 5"

definition demo_accum :: lfn_accum where
  "demo_accum = \<lparr>chunks = (\<lambda>_. [0x7A]), slot_lba = (\<lambda>_. 0), slot_idx = (\<lambda>_. 0), total_chunks = 3,
     next_expected_seq = 2, in_progress = True, acc_checksum = 0xAA\<rparr>"

theorem lfn_round_trip_witness:
  "\<exists>acc'. feed_all (map (\<lambda>c. (lfn_slot_at demo_long_name (lfn_checksum (d_name demo_short_entry)) 2 c,
       [(100, 3), (100, 4)] ! c)) [0..<2]) demo_accum = Some acc' \<and>
     lfn_feed_entry acc' demo_short_entry 100 5 = Some (lfn_accum_reset acc', Some demo_long_name)"
proof -
  have n: "lfn_chunk_count demo_long_name = 2" "length demo_long_name \<le> 255" by code_simp+
  have "is_cstring demo_long_name" "is_ascii demo_long_name" by code_simp+
  moreover have "lfn_chunk_count demo_long_name \<le> LFN_MAX_ENTRIES" by code_simp
  moreover have "d_attributes demo_short_entry \<noteq> FAT_ATTR_LFN" by code_simp
  ultimately show ?thesis
    using lfn_round_trip [of demo_long_name "[(100, 3), (100, 4)]" demo_short_entry demo_accum 100 5] by (simp add: n)
qed

text \<open>
  A name that \<open>name_fits_83\<close> accepts and that does not end in its dot survives the 8.3 form:
  formatting it and reading the entry back gives the name in lower case.
\<close>
theorem name_83_round_trip:
  assumes "name_fits_83 name" and "last name \<noteq> 0x2E"
  shows "length (format_83_name name) = 11 \<and>
    parse_83_name (format_83_name name) = map tolower_entry name"
proof -
  obtain base ext where sh: "shape_83 name base ext" using name_fits_83_shape assms(1) by blast
  then have "length (format_83_name name) = 11"
    by (simp add: format_83_shape [OF sh] shape_83_def)
  with name_83_tolower [OF assms] show ?thesis by simp
qed

theorem name_83_round_trip_witness:
  "parse_83_name (format_83_name (bytes_of ''README.TXT'')) = bytes_of ''readme.txt''"
proof -
  have "name_fits_83 (bytes_of ''README.TXT'')" "last (bytes_of ''README.TXT'') \<noteq> 0x2E" by code_simp+
  moreover have "map tolower_entry (bytes_of ''README.TXT'') = bytes_of ''readme.txt''" by code_simp
  ultimately show ?thesis using name_83_round_trip [of "bytes_of ''README.TXT''"] by simp
qed

lemma format_83_trailing_dot:
  assumes "name_fits_83 (name @ [0x2E])"
  shows "format_83_name (name @ [0x2E]) = format_83_name name"
proof -
  obtain base ext where sh: "shape_83 (name @ [0x2E]) base ext" using name_fits_83_shape assms by blast
  then have ok: "list_all ok_83 base" "list_all ok_83 ext" and "base \<noteq> []" by (auto simp: shape_83_def)
  have last: "last xs \<noteq> 0x2E" if "list_all ok_83 xs" "xs \<noteq> []" for xs
    using that by (auto simp: list_all_iff ok_83_def)
  have ne: "name @ [0x2E] \<noteq> base" using last [OF ok(1) \<open>base \<noteq> []\<close>] by (metis last_snoc)
  then have split: "name @ [0x2E] = base @ 0x2E # ext" using sh by (auto simp: shape_83_def)
  have "ext = []"
  proof (rule ccontr)
    assume "ext \<noteq> []"
    then have "last (base @ 0x2E # ext) = last ext" by simp
    then show False using last [OF ok(2) \<open>ext \<noteq> []\<close>] by (metis split last_snoc)
  qed
  then have "shape_83 name base []" using sh split by (simp add: shape_83_def)
  with sh \<open>ext = []\<close> show ?thesis by (simp add: format_83_shape)
qed

lemma format_83_inj_dotless:
  assumes "name_fits_83 a" and "name_fits_83 b" and "last a \<noteq> 0x2E" and "last b \<noteq> 0x2E"
    and "format_83_name a = format_83_name b"
  shows "a = b"
proof -
  have eq: "map tolower_entry a = map tolower_entry b"
    using name_83_tolower assms by metis
  have ok: "\<forall>c \<in> set n. ok_83 c \<or> c = 0x2E" if "name_fits_83 n" for n
    using name_fits_83_shape [OF that] by (auto simp: shape_83_def list_all_iff)
  have "inj_on tolower_entry {c. ok_83 c \<or> c = 0x2E}"
    by (rule inj_onI) (auto dest: tolower_inj simp: tolower_dot)
  then have "inj_on tolower_entry (set a \<union> set b)"
    by (rule inj_on_subset) (use ok assms(1,2) in blast)
  then show ?thesis using eq inj_on_map_eq_map by blast
qed

lemma fits_83_loop_base:
  "list_all ok_83 base \<Longrightarrow> b + length base \<le> 8 \<Longrightarrow> 0 < b + length base \<Longrightarrow> len + length base \<le> 13 \<Longrightarrow>
   fits_83_loop base len 0 b 0 False"
  by (induction base arbitrary: len b) (auto simp: ok_83_def)

text \<open>An accepted name without its trailing dot is accepted, does not end in a dot, and has the same form.\<close>
lemma drop_trailing_dot:
  assumes "name_fits_83 name"
  obtains n where "name = n \<or> name = n @ [0x2E]" and "name_fits_83 n" and "last n \<noteq> 0x2E"
    and "format_83_name name = format_83_name n"
proof (cases "last name = 0x2E")
  case True
  obtain base ext where sh: "shape_83 name base ext" using name_fits_83_shape assms by blast
  have last: "last xs \<noteq> 0x2E" if "list_all ok_83 xs" "xs \<noteq> []" for xs
    using that by (auto simp: list_all_iff ok_83_def)
  have ok: "list_all ok_83 base" "base \<noteq> []" "length base \<le> 8" using sh by (auto simp: shape_83_def)
  have fits: "name_fits_83 base"
    using fits_83_loop_base [OF ok(1), of 0 0] ok by (simp add: name_fits_83_def)
  have "ext = []"
  proof (rule ccontr)
    assume "ext \<noteq> []"
    then have "last name = last ext" using sh by (auto simp: shape_83_def)
    then show False using True last sh \<open>ext \<noteq> []\<close> by (metis shape_83_def)
  qed
  moreover have "name \<noteq> base" using True last [OF ok(1,2)] by auto
  ultimately have name: "name = base @ [0x2E]" using sh by (auto simp: shape_83_def)
  show ?thesis
    by (rule that [OF _ fits last [OF ok(1,2)]])
      (use name format_83_trailing_dot assms in auto)
next
  case False
  then show ?thesis using that assms by blast
qed

text \<open>
  C16. Two names that \<open>name_fits_83\<close> accepts share an 8.3 form exactly when they are equal up to one
  trailing dot (which the form does not keep): creating a name hides no other name but that one.
\<close>
theorem format_83_injective:
  assumes "name_fits_83 a" and "name_fits_83 b"
  shows "format_83_name a = format_83_name b \<longleftrightarrow> a = b \<or> a = b @ [0x2E] \<or> b = a @ [0x2E]"
proof -
  obtain m where m: "a = m \<or> a = m @ [0x2E]" "name_fits_83 m" "last m \<noteq> 0x2E" "format_83_name a = format_83_name m"
    using drop_trailing_dot [OF assms(1)] by blast
  obtain n where n: "b = n \<or> b = n @ [0x2E]" "name_fits_83 n" "last n \<noteq> 0x2E" "format_83_name b = format_83_name n"
    using drop_trailing_dot [OF assms(2)] by blast
  have "m = n" if "format_83_name a = format_83_name b"
    using format_83_inj_dotless [OF m(2) n(2) m(3) n(3)] m(4) n(4) that by simp
  then have "a = b \<or> a = b @ [0x2E] \<or> b = a @ [0x2E]" if "format_83_name a = format_83_name b"
    using m(1) n(1) that by auto
  moreover have "format_83_name a = format_83_name b" if "a = b \<or> a = b @ [0x2E] \<or> b = a @ [0x2E]"
    using that format_83_trailing_dot assms by metis
  ultimately show ?thesis by blast
qed

theorem format_83_injective_witness:
  "format_83_name (bytes_of ''A.TXT'') \<noteq> format_83_name (bytes_of ''A.TX'') \<and>
   format_83_name (bytes_of ''A.'') = format_83_name (bytes_of ''A'')"
proof -
  have "name_fits_83 (bytes_of ''A.TXT'')" "name_fits_83 (bytes_of ''A.TX'')"
    "name_fits_83 (bytes_of ''A.'')" "name_fits_83 (bytes_of ''A'')" by code_simp+
  then show ?thesis
    using format_83_injective [of "bytes_of ''A.TXT''" "bytes_of ''A.TX''"]
      format_83_injective [of "bytes_of ''A.''" "bytes_of ''A''"] by (simp add: bytes_of_def)
qed

end
