(* ===== verification/FatDir.thy ===== *)
theory FatDir
  imports FatAlloc FatNames VfsTypes
begin

text \<open>
  Directories of \<open>src/src/fs/fat32.c\<close>: the walk over the 32-byte slots of a directory's cluster
  chain, and the operations built on it: lookup, listing, adding an entry (short or with its
  long-name slots, growing the directory when it is full), create, mkdir and unlink.

  The walk follows the table without a bound, so it is a partial function, and \<open>None\<close> means that it
  does not come back: the chain has no end, a long name is written past the caller's
  \<open>long_name[256]\<close> (\<open>lfn_feed_entry\<close>), or the division by the cluster size traps.  The lemmas show that on a well-formed chain it returns and equals a loop over
  the flat list of the directory's slots, and that reading a directory changes no entry of the
  table and no data sector.
\<close>

section \<open>Walking a directory\<close>

type_synonym ('a, 'r) visitor = "u32 \<Rightarrow> nat \<Rightarrow> u8 list \<Rightarrow> 'a \<Rightarrow> ('a, 'r) flow"

text \<open>The 16 slots of a sector; each visit gets the sector's address, the index and the slot.\<close>
definition scan_sector :: "('a, 'r) visitor \<Rightarrow> u32 \<Rightarrow> u8 list \<Rightarrow> 'a \<Rightarrow> ('a, 'r) flow" where
  "scan_sector visit lba sector_buf a =
     walk_list (\<lambda>e. visit lba e (slice_at sector_buf (32 * e) 32)) [0..<16] a"

definition scan_cluster :: "('a, 'r) visitor \<Rightarrow> fatfs \<Rightarrow> u32 \<Rightarrow> 'a \<Rightarrow> ('a, 'r) flow" where
  "scan_cluster visit s cluster a =
     (let cluster_lba = cluster_to_lba s cluster
      in walk_list (\<lambda>i. scan_sector visit (cluster_lba + of_nat i)
                          (disk_read (disk s) (cluster_lba + of_nat i)))
           [0..<unat (sectors_per_cluster s)] a)"

text \<open>
  The outer loop over the chain.  The result has the state (reading the table moves the cache), the
  last cluster that was looked at, and how the loop ended.
\<close>
partial_function (option) scan_chain ::
  "(fatfs \<Rightarrow> u32 \<Rightarrow> 'a \<Rightarrow> ('a, 'r) flow) \<Rightarrow> fatfs \<Rightarrow> u32 \<Rightarrow> u32 \<Rightarrow> 'a \<Rightarrow>
   (fatfs \<times> u32 \<times> ('a, 'r) flow) option" where
  "scan_chain look s last_cluster current_cluster a =
     (if current_cluster < FAT32_EOC_MARKER
      then case look s current_cluster a of
             Stop r \<Rightarrow> Some (s, current_cluster, Stop r)
           | Cont a' \<Rightarrow>
               (case get_next_cluster s current_cluster of (s1, next) \<Rightarrow>
                  scan_chain look s1 current_cluster next a')
      else Some (s, last_cluster, Cont a))"

definition put_sector :: "fatfs \<Rightarrow> u32 \<Rightarrow> u8 list \<Rightarrow> fatfs" where
  "put_sector s lba buf = s\<lparr>disk := disk_write (disk s) lba buf\<rparr>"

definition write_slot :: "fatfs \<Rightarrow> u32 \<Rightarrow> nat \<Rightarrow> u8 list \<Rightarrow> fatfs" where
  "write_slot s lba e raw = put_sector s lba (put_bytes (disk_read (disk s) lba) (32 * e) raw)"

section \<open>Lookup\<close>

text \<open>
  One slot of the search in \<open>fat32_vfs_lookup\<close> and \<open>fat32_vfs_unlink\<close>.  It ends at the end marker,
  at a match (with the slot, the accumulator and whether it had a long name), or in an overflow of
  \<open>long_name\<close>.
\<close>
datatype search = At_end | Found u32 nat "u8 list" lfn_accum bool | Overflow

definition find_visit :: "u8 list \<Rightarrow> cstring \<Rightarrow> (lfn_accum, search) visitor" where
  "find_visit target_83 name lba e raw acc =
     (if raw ! 0 = 0x00 then Stop At_end
      else if raw ! 0 = 0xE5 then Cont (lfn_accum_reset acc)
      else case lfn_feed_entry acc raw lba (of_nat e) of
        None \<Rightarrow> Stop Overflow
      | Some (acc', long_name) \<Rightarrow>
          if d_attributes raw = FAT_ATTR_LFN then Cont acc'
          else if compare_name_83 (d_name raw) target_83 \<or> long_name = Some name
          then Stop (Found lba e raw acc' (long_name \<noteq> None))
          else Cont acc')"

text \<open>A fresh local \<open>lfn_accum_t\<close> after \<open>lfn_accum_reset\<close>; its arrays are not initialised in C.\<close>
definition fresh_accum :: lfn_accum where
  "fresh_accum = \<lparr>chunks = (\<lambda>_. []), slot_lba = (\<lambda>_. 0), slot_idx = (\<lambda>_. 0), total_chunks = 0,
     next_expected_seq = 0, in_progress = False, acc_checksum = 0\<rparr>"

definition inode_of_slot :: "u32 \<Rightarrow> nat \<Rightarrow> u8 list \<Rightarrow> inode" where
  "inode_of_slot lba e raw =
     (let dir = d_attributes raw AND FAT_ATTR_DIRECTORY \<noteq> 0
      in zero_inode\<lparr>ino := d_start_cluster raw, i_size := d_file_size raw,
           i_type := (if dir then FT_DIR else FT_REG), is_directory := (if dir then 1 else 0),
           f_ops := Some Fat32_file_ops, i_ops := Some Fat32_inode_ops,
           i_private := PNode lba (of_nat (e * 32))\<rparr>)"

definition fat32_vfs_lookup :: "fatfs \<Rightarrow> inode option \<Rightarrow> cstring \<Rightarrow> (fatfs \<times> inode option) option" where
  "fat32_vfs_lookup s parent name =
     (case parent of
        None \<Rightarrow> Some (s, None)
      | Some parent \<Rightarrow>
          if i_type parent \<noteq> FT_DIR then Some (s, None)
          else (case scan_chain (scan_cluster (find_visit (format_83_name name) name)) s
                       (ino parent) (ino parent) fresh_accum of
                  None \<Rightarrow> None
                | Some (s', _, Stop Overflow) \<Rightarrow> None
                | Some (s', _, Stop (Found lba e raw _ _)) \<Rightarrow> Some (s', Some (inode_of_slot lba e raw))
                | Some (s', _, _) \<Rightarrow> Some (s', None)))"

section \<open>Listing\<close>

text \<open>
  The loop state: \<open>*offset\<close>, \<open>bytes_written\<close>, the caller's buffer and the accumulator.  A visit that
  stops with \<open>None\<close> has overflowed \<open>long_name\<close>; \<open>parsed_name[256]\<close> holds what fits there.
\<close>
record listing =
  ls_offset :: u64
  ls_written :: u32
  ls_buf :: "u8 list"
  ls_acc :: lfn_accum

definition getdents_visit :: "u32 \<Rightarrow> (listing, listing option) visitor" where
  "getdents_visit count lba e raw st =
     (if raw ! 0 = 0x00 then Stop (Some st)
      else if raw ! 0 = 0xE5
      then Cont (st\<lparr>ls_acc := lfn_accum_reset (ls_acc st), ls_offset := ls_offset st + 1\<rparr>)
      else case lfn_feed_entry (ls_acc st) raw lba (of_nat e) of
        None \<Rightarrow> Stop None
      | Some (acc', long_name) \<Rightarrow>
        if d_attributes raw = FAT_ATTR_LFN
        then Cont (st\<lparr>ls_acc := acc', ls_offset := ls_offset st + 1\<rparr>)
        else
          let parsed_name = (case long_name of Some n \<Rightarrow> n | None \<Rightarrow> parse_83_name (d_name raw));
              reclen = dirent_reclen (length parsed_name)
          in if count < ls_written st + ucast reclen then Stop (Some (st\<lparr>ls_acc := acc'\<rparr>))
             else Cont (st\<lparr>ls_acc := acc',
                ls_buf := put_dirent (ls_buf st) (unat (ls_written st)) (ucast (d_start_cluster raw))
                            (ls_offset st + 1) reclen
                            (if d_attributes raw AND FAT_ATTR_DIRECTORY \<noteq> 0 then DT_DIR else DT_REG)
                            parsed_name,
                ls_written := ls_written st + ucast reclen,
                ls_offset := ls_offset st + 1\<rparr>))"

definition getdents_sector :: "u32 \<Rightarrow> u32 \<Rightarrow> u8 list \<Rightarrow> listing \<Rightarrow> (listing, listing option) flow" where
  "getdents_sector count lba sector_buf st =
     (let start_entry = unat (ls_offset st mod 16)
      in walk_list (\<lambda>e. getdents_visit count lba e (slice_at sector_buf (32 * e) 32))
           [start_entry..<16] st)"

definition getdents_cluster :: "u32 \<Rightarrow> fatfs \<Rightarrow> u32 \<Rightarrow> listing \<Rightarrow> (listing, listing option) flow" where
  "getdents_cluster count s cluster st =
     (let entries_per_cluster = ucast (sectors_per_cluster s) * 16;
          cluster_lba = cluster_to_lba s cluster;
          start_sector = unat (ucast ((ls_offset st mod entries_per_cluster) div 16) :: u32)
      in walk_list (\<lambda>i. getdents_sector count (cluster_lba + of_nat i)
                          (disk_read (disk s) (cluster_lba + of_nat i)))
           [start_sector..<unat (sectors_per_cluster s)] st)"

text \<open>The skip loops: \<open>None\<close> when the chain ends before \<open>n\<close> clusters were skipped.\<close>
primrec skip_clusters :: "nat \<Rightarrow> fatfs \<Rightarrow> u32 \<Rightarrow> fatfs \<times> u32 option" where
  "skip_clusters 0 s cluster = (s, Some cluster)"
| "skip_clusters (Suc n) s cluster =
     (case get_next_cluster s cluster of (s1, next) \<Rightarrow>
        if FAT32_EOC_MARKER \<le> next then (s1, None) else skip_clusters n s1 next)"

text \<open>
  The result: state, new offset, buffer, and the return value.  With no sectors per cluster the
  division traps.
\<close>
definition fat32_dir_getdents ::
  "fatfs \<Rightarrow> inode option \<Rightarrow> u64 \<Rightarrow> u8 list \<Rightarrow> u32 \<Rightarrow> (fatfs \<times> u64 \<times> u8 list \<times> int) option" where
  "fat32_dir_getdents s dir offset buf count =
     (case dir of
        None \<Rightarrow> Some (s, offset, buf, -1)
      | Some dir \<Rightarrow>
          if i_type dir \<noteq> FT_DIR then Some (s, offset, buf, -1)
          else if sectors_per_cluster s = 0 then None
          else
            let entries_per_cluster = ucast (sectors_per_cluster s) * 16 :: u64;
                clusters_to_skip = unat (ucast (offset div entries_per_cluster) :: u32);
                st = \<lparr>ls_offset = offset, ls_written = 0, ls_buf = buf, ls_acc = fresh_accum\<rparr>
            in (case skip_clusters clusters_to_skip s (ino dir) of
                  (s1, None) \<Rightarrow> Some (s1, offset, buf, 0)
                | (s1, Some cluster) \<Rightarrow>
                    (case scan_chain (getdents_cluster count) s1 cluster cluster st of
                       None \<Rightarrow> None
                     | Some (s2, _, fl) \<Rightarrow>
                         map_option (\<lambda>st'. (s2, ls_offset st', ls_buf st', int (unat (ls_written st'))))
                           (case fl of Cont st' \<Rightarrow> Some st' | Stop r \<Rightarrow> r))))"

section \<open>Adding entries\<close>

definition slot_free :: "u8 list \<Rightarrow> bool" where
  "slot_free raw \<longleftrightarrow> raw ! 0 = 0x00 \<or> raw ! 0 = 0xE5"

definition free_visit :: "(unit, u32 \<times> nat) visitor" where
  "free_visit lba e raw a = (if slot_free raw then Stop (lba, e) else Cont a)"

partial_function (option) fat32_add_entry ::
  "fatfs \<Rightarrow> u32 \<Rightarrow> u8 list \<Rightarrow> u8 \<Rightarrow> u32 \<Rightarrow> (fatfs \<times> bool) option" where
  "fat32_add_entry s current_cluster filename_83 attr start_cluster =
     (if current_cluster < FAT32_EOC_MARKER
      then case scan_cluster free_visit s current_cluster () of
             Stop (lba, e) \<Rightarrow> Some (write_slot s lba e (mk_dir_slot filename_83 attr start_cluster), True)
           | Cont _ \<Rightarrow>
               (case get_next_cluster s current_cluster of (s1, next) \<Rightarrow>
                  if FAT32_EOC_MARKER \<le> next
                  then case fat32_allocate_cluster s1 of (s2, new_cluster) \<Rightarrow>
                         if new_cluster = 0 then Some (s2, False)
                         else fat32_add_entry (fat32_fat_sync (set_next_cluster s2 current_cluster new_cluster))
                                new_cluster filename_83 attr start_cluster
                  else fat32_add_entry s1 next filename_83 attr start_cluster)
      else Some (s, False))"

definition exists_visit :: "u8 list \<Rightarrow> (unit, bool) visitor" where
  "exists_visit short_name lba e raw a =
     (if raw ! 0 = 0x00 then Stop False
      else if raw ! 0 = 0xE5 \<or> d_attributes raw = FAT_ATTR_LFN then Cont a
      else if compare_name_83 (d_name raw) short_name then Stop True
      else Cont a)"

definition fat32_short_name_exists :: "fatfs \<Rightarrow> u32 \<Rightarrow> u8 list \<Rightarrow> (fatfs \<times> bool) option" where
  "fat32_short_name_exists s dir_cluster short_name =
     (case scan_chain (scan_cluster (exists_visit short_name)) s dir_cluster dir_cluster () of
        None \<Rightarrow> None
      | Some (s', _, Stop b) \<Rightarrow> Some (s', b)
      | Some (s', _, Cont _) \<Rightarrow> Some (s', False))"

text \<open>The run of free slots collected so far, oldest first.\<close>
definition run_visit :: "nat \<Rightarrow> ((u32 \<times> nat) list, (u32 \<times> nat) list) visitor" where
  "run_visit needed lba e raw run =
     (if slot_free raw
      then let run' = run @ [(lba, e)] in if length run' = needed then Stop run' else Cont run'
      else Cont [])"

definition fat32_find_contiguous_free_slots ::
  "fatfs \<Rightarrow> u32 \<Rightarrow> nat \<Rightarrow> (fatfs \<times> (u32 \<times> nat) list option) option" where
  "fat32_find_contiguous_free_slots s dir_cluster needed =
     (case scan_chain (scan_cluster (run_visit needed)) s dir_cluster dir_cluster [] of
        None \<Rightarrow> None
      | Some (s1, _, Stop run) \<Rightarrow> Some (s1, Some run)
      | Some (s1, last_cluster, Cont _) \<Rightarrow>
          let entries_per_cluster = ucast (sectors_per_cluster s1) * 16 :: u32
          in if entries_per_cluster < of_nat needed then Some (s1, None)
             else case fat32_allocate_cluster s1 of (s2, new_cluster) \<Rightarrow>
               if new_cluster = 0 then Some (s2, None)
               else let s3 = fat32_fat_sync (set_next_cluster s2 last_cluster new_cluster);
                        new_lba = cluster_to_lba s3 new_cluster
                    in Some (s3, Some (map (\<lambda>i. (new_lba + of_nat (i div 16), i mod 16)) [0..<needed])))"

text \<open>The loop that looks for an unused alias; \<open>alias_num\<close> counts up to a million.\<close>
partial_function (option) unique_alias ::
  "fatfs \<Rightarrow> u32 \<Rightarrow> cstring \<Rightarrow> u32 \<Rightarrow> (fatfs \<times> u8 list) option" where
  "unique_alias s dir_cluster long_name alias_num =
     (let short83 = generate_short_alias long_name alias_num
      in case fat32_short_name_exists s dir_cluster short83 of
           None \<Rightarrow> None
         | Some (s1, ex) \<Rightarrow>
             if ex \<and> alias_num + 1 < 1000000
             then unique_alias s1 dir_cluster long_name (alias_num + 1)
             else Some (s1, short83))"

definition fat32_add_entry_named ::
  "fatfs \<Rightarrow> u32 \<Rightarrow> cstring \<Rightarrow> u8 \<Rightarrow> u32 \<Rightarrow> (fatfs \<times> bool) option" where
  "fat32_add_entry_named s dir_cluster long_name attr start_cluster =
     (if name_fits_83 long_name
      then fat32_add_entry s dir_cluster (format_83_name long_name) attr start_cluster
      else case unique_alias s dir_cluster long_name 1 of
        None \<Rightarrow> None
      | Some (s1, short83) \<Rightarrow>
          let chunk_count = lfn_chunk_count long_name
          in if chunk_count > LFN_MAX_ENTRIES then Some (s1, False)
             else (case fat32_find_contiguous_free_slots s1 dir_cluster (chunk_count + 1) of
               None \<Rightarrow> None
             | Some (s2, None) \<Rightarrow> Some (s2, False)
             | Some (s2, Some slots) \<Rightarrow>
                 let checksum = lfn_checksum short83;
                     s3 = fold (\<lambda>c s. write_slot s (fst (slots ! c)) (snd (slots ! c))
                                        (lfn_slot_at long_name checksum chunk_count c))
                            [0..<chunk_count] s2;
                     (short_lba, short_idx) = slots ! chunk_count
                 in Some (write_slot s3 short_lba short_idx (mk_dir_slot short83 attr start_cluster), True)))"

section \<open>Create, mkdir, unlink\<close>

definition fat32_vfs_create :: "fatfs \<Rightarrow> inode option \<Rightarrow> cstring \<Rightarrow> u32 \<Rightarrow> (fatfs \<times> int) option" where
  "fat32_vfs_create s parent name mode =
     (case parent of
        None \<Rightarrow> Some (s, -1)
      | Some dir \<Rightarrow>
          if i_type dir \<noteq> FT_DIR then Some (s, -1)
          else (case fat32_vfs_lookup s parent name of
            None \<Rightarrow> None
          | Some (s1, Some _) \<Rightarrow> Some (s1, -1)
          | Some (s1, None) \<Rightarrow>
              (case fat32_allocate_cluster s1 of (s2, new_cluster) \<Rightarrow>
                 if new_cluster = 0 then Some (s2, -1)
                 else (case fat32_add_entry_named s2 (ino dir) name FAT_ATTR_ARCHIVE new_cluster of
                   None \<Rightarrow> None
                 | Some (s3, False) \<Rightarrow> map_option (\<lambda>s4. (fat32_fat_sync s4, -1)) (fat32_free_chain s3 new_cluster)
                 | Some (s3, True) \<Rightarrow> Some (fat32_fat_sync s3, 0)))))"

definition dot_name :: "u8 list" where
  "dot_name = 0x2E # replicate 10 0x20"

definition dotdot_name :: "u8 list" where
  "dotdot_name = 0x2E # 0x2E # replicate 9 0x20"

definition fat32_vfs_mkdir :: "fatfs \<Rightarrow> inode option \<Rightarrow> cstring \<Rightarrow> (fatfs \<times> int) option" where
  "fat32_vfs_mkdir s parent name =
     (case parent of
        None \<Rightarrow> Some (s, -1)
      | Some dir \<Rightarrow>
          if i_type dir \<noteq> FT_DIR then Some (s, -1)
          else (case fat32_vfs_lookup s parent name of
            None \<Rightarrow> None
          | Some (s1, Some _) \<Rightarrow> Some (s1, -1)
          | Some (s1, None) \<Rightarrow>
              (case fat32_allocate_cluster s1 of (s2, new_cluster) \<Rightarrow>
                 if new_cluster = 0 then Some (s2, -1)
                 else (case fat32_add_entry_named s2 (ino dir) name FAT_ATTR_DIRECTORY new_cluster of
                   None \<Rightarrow> None
                 | Some (s3, False) \<Rightarrow> map_option (\<lambda>s4. (fat32_fat_sync s4, -1)) (fat32_free_chain s3 new_cluster)
                 | Some (s3, True) \<Rightarrow>
                     (case fat32_add_entry s3 new_cluster dot_name FAT_ATTR_DIRECTORY new_cluster of
                        None \<Rightarrow> None
                      | Some (s4, _) \<Rightarrow>
                          (case fat32_add_entry s4 new_cluster dotdot_name FAT_ATTR_DIRECTORY (ino dir) of
                             None \<Rightarrow> None
                           | Some (s5, _) \<Rightarrow> Some (fat32_fat_sync s5, 0)))))))"

text \<open>Marking a slot deleted: its first byte becomes \<open>0xE5\<close>.\<close>
definition delete_slot :: "fatfs \<Rightarrow> u32 \<Rightarrow> nat \<Rightarrow> fatfs" where
  "delete_slot s lba e = put_sector s lba ((disk_read (disk s) lba)[32 * e := 0xE5])"

definition fat32_vfs_unlink :: "fatfs \<Rightarrow> inode option \<Rightarrow> cstring \<Rightarrow> (fatfs \<times> int) option" where
  "fat32_vfs_unlink s parent name =
     (case parent of
        None \<Rightarrow> Some (s, -1)
      | Some parent \<Rightarrow>
          if i_type parent \<noteq> FT_DIR then Some (s, -1)
          else (case scan_chain (scan_cluster (find_visit (format_83_name name) name)) s
                       (ino parent) (ino parent) fresh_accum of
                  None \<Rightarrow> None
                | Some (s1, _, Stop Overflow) \<Rightarrow> None
                | Some (s1, _, Stop (Found lba e raw acc has_long)) \<Rightarrow>
                    let s2 = delete_slot s1 lba e;
                        s3 = (if has_long
                              then fold (\<lambda>c s. delete_slot s (slot_lba acc c) (unat (slot_idx acc c)))
                                     [0..<unat (total_chunks acc)] s2
                              else s2)
                    in map_option (\<lambda>s4. (fat32_fat_sync s4, 0)) (fat32_free_chain s3 (d_start_cluster raw))
                | Some (s1, _, _) \<Rightarrow> Some (s1, -1)))"


section \<open>The flat view of a directory\<close>

text \<open>The places of the slots, in the order the walk visits them, and the slot at a place.\<close>

definition cluster_places :: "fatfs \<Rightarrow> u32 \<Rightarrow> (u32 \<times> nat) list" where
  "cluster_places s c =
     concat (map (\<lambda>i. map (Pair (cluster_to_lba s c + of_nat i)) [0..<16]) [0..<unat (sectors_per_cluster s)])"

definition dir_places :: "fatfs \<Rightarrow> u32 list \<Rightarrow> (u32 \<times> nat) list" where
  "dir_places s cs = concat (map (cluster_places s) cs)"

definition slot_at :: "fatfs \<Rightarrow> u32 \<times> nat \<Rightarrow> u8 list" where
  "slot_at s p = slice_at (disk_read (disk s) (fst p)) (32 * snd p) 32"

definition walk_places ::
  "('a, 'r) visitor \<Rightarrow> fatfs \<Rightarrow> (u32 \<times> nat) list \<Rightarrow> 'a \<Rightarrow> ('a, 'r) flow" where
  "walk_places visit s = walk_list (\<lambda>p. visit (fst p) (snd p) (slot_at s p))"

text \<open>The whole chain is on the volume: a directory (or file) whose clusters all have their sectors.\<close>
definition chain_ok :: "fatfs \<Rightarrow> u32 \<Rightarrow> u32 list \<Rightarrow> bool" where
  "chain_ok s c cs \<longleftrightarrow> fat_chain s c cs \<and> list_all (data_ok s) cs"

lemma scan_cluster_places: "scan_cluster visit s c a = walk_places visit s (cluster_places s c) a"
  unfolding scan_cluster_def Let_def scan_sector_def walk_places_def cluster_places_def slot_at_def
  by (simp add: walk_list_concat [symmetric] walk_list_map_fun)

lemma walk_places_append:
  "walk_places visit s (xs @ ys) a =
     (case walk_places visit s xs a of Cont a' \<Rightarrow> walk_places visit s ys a' | Stop r \<Rightarrow> Stop r)"
  unfolding walk_places_def by (rule walk_list_append)

lemma walk_places_cong:
  "\<forall>p \<in> set ps. slot_at t p = slot_at s p \<Longrightarrow> walk_places visit t ps a = walk_places visit s ps a"
  unfolding walk_places_def by (rule walk_list_cong) simp

lemma cluster_places_in:
  "p \<in> set (cluster_places s c) \<Longrightarrow> fst p \<in> cluster_sectors s c \<and> snd p < 16"
  by (auto simp: cluster_places_def cluster_sectors_def)

lemma cluster_places_ok:
  assumes "data_ok s c" and "p \<in> set (cluster_places s c)"
  shows "lba_ok (fst p)" "data_start_lba s \<le> fst p" "snd p < 16"
  using cluster_places_in [OF assms(2)] cluster_sectors_ok [OF assms(1)] by blast+

lemma dir_places_ok:
  assumes "list_all (data_ok s) cs" and "p \<in> set (dir_places s cs)"
  shows "lba_ok (fst p)" "data_start_lba s \<le> fst p" "snd p < 16"
proof -
  obtain c where "data_ok s c" "p \<in> set (cluster_places s c)"
    using assms by (auto simp: dir_places_def list_all_iff)
  then show "lba_ok (fst p)" "data_start_lba s \<le> fst p" "snd p < 16"
    using cluster_places_ok by blast+
qed

lemma places_cong:
  assumes "data_start_lba t = data_start_lba s" and "sectors_per_cluster t = sectors_per_cluster s"
  shows "cluster_places t = cluster_places s" and "dir_places t = dir_places s"
proof -
  show c: "cluster_places t = cluster_places s"
    by (rule ext) (simp add: cluster_places_def cluster_to_lba_def assms)
  show "dir_places t = dir_places s" by (rule ext) (simp add: dir_places_def c)
qed

lemma fat_eq_slot:
  assumes "fat_eq s t" and "lba_ok (fst p)" and "data_start_lba s \<le> fst p"
  shows "slot_at t p = slot_at s p"
  using assms fat_eq_disk [OF assms(1,3)] by (simp add: slot_at_def disk_read_def)

lemma fat_eq_places:
  assumes "fat_eq s t"
  shows "dir_places t = dir_places s" "cluster_places t = cluster_places s" "data_ok t = data_ok s"
proof -
  have d: "data_start_lba t = data_start_lba s" "sectors_per_cluster t = sectors_per_cluster s"
    using fat_eq_geom [OF assms] by simp_all
  show "dir_places t = dir_places s" "cluster_places t = cluster_places s"
    using places_cong [OF d] by simp_all
  show "data_ok t = data_ok s" by (rule ext) (simp add: data_ok_def d)
qed

lemma chain_ok_eq: "fat_eq s t \<Longrightarrow> chain_ok s c cs \<Longrightarrow> chain_ok t c cs"
  by (simp add: chain_ok_def fat_chain_eq fat_eq_places)

lemma walk_places_eq:
  assumes "fat_eq s t" and "list_all (data_ok s) cs"
  shows "walk_places visit t (dir_places t cs) a = walk_places visit s (dir_places s cs) a"
  unfolding fat_eq_places [OF assms(1)]
  by (rule walk_places_cong) (use fat_eq_slot [OF assms(1)] dir_places_ok [OF assms(2)] in blast)

text \<open>The walk over a chain returns, and is the loop over its flat list of slots.\<close>

lemma scan_chain_places:
  "fat_inv s \<Longrightarrow> chain_ok s c cs \<Longrightarrow>
   \<exists>t lst. scan_chain (scan_cluster visit) s l c a = Some (t, lst, walk_places visit s (dir_places s cs) a) \<and>
     fat_inv t \<and> fat_eq s t \<and>
     (\<forall>a'. walk_places visit s (dir_places s cs) a = Cont a' \<longrightarrow> lst = last (l # cs))"
proof (induction cs arbitrary: s c l a)
  case Nil
  then have "\<not> c < FAT32_EOC_MARKER" by (auto simp: chain_ok_def)
  with Nil show ?case
    by (subst scan_chain.simps) (simp add: dir_places_def walk_places_def)
next
  case (Cons x xs)
  have c: "x = c" "c < FAT32_EOC_MARKER" "in_fat s c" "chain_ok s (fat_of s c) xs" "data_ok s c"
    using Cons.prems by (auto simp: chain_ok_def)
  have places: "dir_places s (x # xs) = cluster_places s c @ dir_places s xs"
    by (simp add: dir_places_def c(1))
  show ?case
  proof (cases "walk_places visit s (cluster_places s c) a")
    case (Stop r)
    then have "walk_places visit s (dir_places s (x # xs)) a = Stop r"
      by (simp only: places walk_places_append) simp
    then show ?thesis
      using c(2) Cons.prems(1) Stop
      by (subst scan_chain.simps) (simp add: scan_cluster_places)
  next
    case (Cont a')
    obtain s1 n where g: "get_next_cluster s c = (s1, n)" by fastforce
    note get = get_next_cluster_spec [OF Cons.prems(1) c(3) g]
    have ok1: "chain_ok s1 (fat_of s c) xs" by (rule chain_ok_eq [OF get(3) c(4)])
    have same: "walk_places visit s1 (dir_places s1 xs) a' = walk_places visit s (dir_places s xs) a'"
      using c(4) by (intro walk_places_eq [OF get(3)]) (simp add: chain_ok_def)
    obtain t lst where t: "scan_chain (scan_cluster visit) s1 c (fat_of s c) a' =
        Some (t, lst, walk_places visit s (dir_places s xs) a')" "fat_inv t" "fat_eq s1 t"
      "\<forall>b. walk_places visit s (dir_places s xs) a' = Cont b \<longrightarrow> lst = last (c # xs)"
      using Cons.IH [OF get(2) ok1, of c a'] unfolding same by blast
    have "scan_chain (scan_cluster visit) s l c a = Some (t, lst, walk_places visit s (dir_places s (x # xs)) a)"
      using c(2) g get(1) t(1) Cont
      by (subst scan_chain.simps) (simp add: scan_cluster_places places walk_places_append)
    moreover have "walk_places visit s (dir_places s (x # xs)) a = walk_places visit s (dir_places s xs) a'"
      by (simp add: places walk_places_append Cont)
    ultimately show ?thesis
      using t fat_eq_trans [OF get(3) t(3)] c(1) by auto
  qed
qed


section \<open>Writing a data sector\<close>

lemma put_sector_simps [simp]:
  "fat_start_lba (put_sector s l buf) = fat_start_lba s"
  "data_start_lba (put_sector s l buf) = data_start_lba s"
  "sectors_per_cluster (put_sector s l buf) = sectors_per_cluster s"
  "root_dir_cluster (put_sector s l buf) = root_dir_cluster s"
  "next_free_cluster_hint (put_sector s l buf) = next_free_cluster_hint s"
  by (simp_all add: put_sector_def)

lemma put_sector_disk: "lba_ok l \<Longrightarrow> disk (put_sector s l buf) = (disk s)(l := buf)"
  by (simp add: put_sector_def disk_write_def)

lemma put_sector_inv:
  assumes "fat_inv s" and "lba_ok l" and "data_start_lba s \<le> l" and "length buf = 512"
  shows "fat_inv (put_sector s l buf)"
proof -
  have "fat_cache_sector s \<noteq> l" if "fat_cache_sector s \<noteq> FAT_CACHE_INVALID"
    using that assms(1,3) by (auto simp: fat_inv_def)
  then show ?thesis
    using assms unfolding fat_inv_def geom_def
    by (auto simp: put_sector_disk) (auto simp: put_sector_def)
qed

lemma put_sector_fat:
  assumes "fat_inv s" and "lba_ok l" and "data_start_lba s \<le> l" and "in_fat s c"
  shows "raw_of (put_sector s l buf) c = raw_of s c" and "fat_of (put_sector s l buf) c = fat_of s c"
proof -
  have ok: "lba_ok (fat_entry_sector s c)" using assms by (intro fat_entry_sector_lba fat_inv_geom)
  have "fat_entry_sector s c \<noteq> l" using assms(3,4) by (auto simp: in_fat_def)
  then have "cached_sector (put_sector s l buf) (fat_entry_sector s c) = cached_sector s (fat_entry_sector s c)"
    using ok by (simp add: cached_sector_def disk_read_def put_sector_disk [OF assms(2)])
      (simp add: put_sector_def)
  then show "raw_of (put_sector s l buf) c = raw_of s c" by (simp add: raw_of_def fat_entry_sector_def)
  then show "fat_of (put_sector s l buf) c = fat_of s c" by (simp add: fat_of_def)
qed

lemma put_sector_chain:
  assumes "fat_inv s" and "lba_ok l" and "data_start_lba s \<le> l" and "chain_ok s c cs"
  shows "chain_ok (put_sector s l buf) c cs"
proof -
  have "fat_chain (put_sector s l buf) c cs"
  proof (rule fat_chain_cong)
    show "fat_chain s c cs" using assms(4) by (simp add: chain_ok_def)
    then show "\<forall>x \<in> set cs. fat_of (put_sector s l buf) x = fat_of s x \<and>
        in_fat (put_sector s l buf) x = in_fat s x"
      using fat_chain_members put_sector_fat [OF assms(1-3)]
      by (auto simp: in_fat_cong [of "put_sector s l buf" s])
  qed
  moreover have "data_ok (put_sector s l buf) = data_ok s" by (rule ext) (simp add: data_ok_def)
  ultimately show ?thesis using assms(4) by (simp add: chain_ok_def)
qed

section \<open>Writing a slot\<close>

lemma write_slot_simps [simp]:
  "fat_start_lba (write_slot s l e raw) = fat_start_lba s"
  "data_start_lba (write_slot s l e raw) = data_start_lba s"
  "sectors_per_cluster (write_slot s l e raw) = sectors_per_cluster s"
  "root_dir_cluster (write_slot s l e raw) = root_dir_cluster s"
  "next_free_cluster_hint (write_slot s l e raw) = next_free_cluster_hint s"
  by (simp_all add: write_slot_def)

lemma write_slot_disk:
  "lba_ok l \<Longrightarrow> disk (write_slot s l e raw) = (disk s)(l := put_bytes (disk s l) (32 * e) raw)"
  by (simp add: write_slot_def put_sector_disk disk_read_def)

lemma write_slot_inv:
  assumes "fat_inv s" and "lba_ok l" and "data_start_lba s \<le> l" and "e < 16" and "length raw = 32"
  shows "fat_inv (write_slot s l e raw)"
  unfolding write_slot_def using assms
  by (intro put_sector_inv) (simp_all add: disk_read_def fat_inv_lengths)

lemmas write_slot_fat = put_sector_fat [of s l _ "put_bytes (disk_read (disk s) l) (32 * e) raw" for s l e raw, folded write_slot_def]

lemma write_slot_chain:
  "fat_inv s \<Longrightarrow> lba_ok l \<Longrightarrow> data_start_lba s \<le> l \<Longrightarrow> chain_ok s c cs \<Longrightarrow> chain_ok (write_slot s l e raw) c cs"
  unfolding write_slot_def by (rule put_sector_chain)

lemma slot_at_write:
  assumes "fat_inv s" and "lba_ok l" and "e < 16" and "length raw = 32" and "lba_ok (fst p)" and "snd p < 16"
  shows "slot_at (write_slot s l e raw) p = (if p = (l, e) then raw else slot_at s p)"
proof (cases "fst p = l")
  case False
  then show ?thesis using assms by (auto simp: slot_at_def disk_read_def write_slot_disk)
next
  case True
  have len: "length (disk s l) = 512" using assms(1) by (rule fat_inv_lengths)
  show ?thesis
  proof (cases "snd p = e")
    case e: True
    then have "p = (l, e)" using True by (cases p) simp
    then show ?thesis using assms len by (simp add: slot_at_def disk_read_def write_slot_disk slice_put_same)
  next
    case False
    then have "32 * snd p + 32 \<le> 32 * e \<or> 32 * e + length raw \<le> 32 * snd p" using assms(4) by linarith
    moreover have "p \<noteq> (l, e)" using False by auto
    ultimately show ?thesis
      using assms True False len by (auto simp: slot_at_def disk_read_def write_slot_disk slice_put_other)
  qed
qed

lemma delete_slot_eq:
  assumes "fat_inv s" and "lba_ok l" and "e < 16"
  shows "delete_slot s l e = write_slot s l e ((slot_at s (l, e))[0 := 0xE5])"
proof -
  have len: "length (disk s l) = 512" using assms(1) by (rule fat_inv_lengths)
  have "(disk s l)[32 * e := 0xE5] = put_bytes (disk s l) (32 * e) ((slice_at (disk s l) (32 * e) 32)[0 := 0xE5])"
  proof (rule nth_equalityI)
    show "length ((disk s l)[32 * e := 0xE5]) =
        length (put_bytes (disk s l) (32 * e) ((slice_at (disk s l) (32 * e) 32)[0 := 0xE5]))"
      using assms(3) len by simp
    fix i assume "i < length ((disk s l)[32 * e := 0xE5])"
    then show "(disk s l)[32 * e := 0xE5] ! i =
        put_bytes (disk s l) (32 * e) ((slice_at (disk s l) (32 * e) 32)[0 := 0xE5]) ! i"
      using assms(3) len by (auto simp: put_bytes_nth nth_list_update slice_nth)
  qed
  then show ?thesis
    using assms(2) by (simp add: delete_slot_def write_slot_def slot_at_def disk_read_def)
qed

section \<open>The places of a directory are distinct\<close>

lemma cluster_lba_inj:
  assumes "data_ok s c" and "data_ok s d" and "i < unat (sectors_per_cluster s)" and "j < unat (sectors_per_cluster s)"
    and "cluster_to_lba s c + of_nat i = cluster_to_lba s d + of_nat j"
  shows "c = d \<and> i = j"
proof -
  let ?n = "unat (sectors_per_cluster s)"
  have "(unat c - 2) * ?n + i = (unat d - 2) * ?n + j"
    using cluster_to_lba_nat [OF assms(1,3)] cluster_to_lba_nat [OF assms(2,4)] assms(5) by simp
  then have "((unat c - 2) * ?n + i) div ?n = ((unat d - 2) * ?n + j) div ?n"
    "((unat c - 2) * ?n + i) mod ?n = ((unat d - 2) * ?n + j) mod ?n" by simp_all
  then have e: "unat c - 2 = unat d - 2" "i = j" using assms(3,4) by simp_all
  have "2 \<le> unat c" "2 \<le> unat d" using assms(1,2) by (simp_all add: data_ok_def word_le_nat_alt)
  with e show ?thesis by (simp add: word_unat_eq_iff)
qed

lemma cluster_sectors_disjoint:
  assumes "data_ok s c" and "data_ok s d" and "c \<noteq> d"
  shows "cluster_sectors s c \<inter> cluster_sectors s d = {}"
  using cluster_lba_inj [OF assms(1,2)] assms(3) by (auto simp: cluster_sectors_def)

lemma distinct_concat_map:
  assumes "distinct xs" and "\<And>x. x \<in> set xs \<Longrightarrow> distinct (f x)"
    and "\<And>x y. x \<in> set xs \<Longrightarrow> y \<in> set xs \<Longrightarrow> x \<noteq> y \<Longrightarrow> set (f x) \<inter> set (f y) = {}"
  shows "distinct (concat (map f xs))"
  using assms
proof (induction xs)
  case (Cons x xs)
  have "set (f x) \<inter> (\<Union>y \<in> set xs. set (f y)) = {}"
    using Cons.prems(1,3) by fastforce
  with Cons show ?case by simp
qed simp

lemma distinct_places:
  assumes "list_all (data_ok s) cs" and "distinct cs"
  shows "distinct (dir_places s cs)"
  unfolding dir_places_def
proof (rule distinct_concat_map [OF assms(2)])
  fix c assume "c \<in> set cs"
  then have c: "data_ok s c" using assms(1) by (simp add: list_all_iff)
  show "distinct (cluster_places s c)"
    unfolding cluster_places_def
  proof (rule distinct_concat_map)
    fix i j assume "i \<in> set [0..<unat (sectors_per_cluster s)]" "j \<in> set [0..<unat (sectors_per_cluster s)]" "i \<noteq> j"
    then show "set (map (Pair (cluster_to_lba s c + of_nat i)) [0..<16]) \<inter>
        set (map (Pair (cluster_to_lba s c + of_nat j)) [0..<16]) = {}"
      using cluster_lba_inj [OF c c] by auto
  qed (simp_all add: distinct_map inj_on_def)
  fix d assume "d \<in> set cs" "c \<noteq> d"
  moreover from this have "data_ok s d" using assms(1) by (simp add: list_all_iff)
  ultimately have "cluster_sectors s c \<inter> cluster_sectors s d = {}"
    using cluster_sectors_disjoint [OF c] by blast
  then show "set (cluster_places s c) \<inter> set (cluster_places s d) = {}"
    using cluster_places_in by blast
qed


section \<open>Lookup and adding an entry, over the flat list\<close>

text \<open>
  What a lookup finds in the slots of a directory, by the order of the slots alone; \<open>None\<close> when it
  meets a long name that does not fit its buffer before it finds the name or the end.
\<close>
definition dir_lookup :: "fatfs \<Rightarrow> u32 list \<Rightarrow> cstring \<Rightarrow> inode option option" where
  "dir_lookup s cs name =
     (case walk_places (find_visit (format_83_name name) name) s (dir_places s cs) fresh_accum of
        Stop Overflow \<Rightarrow> None
      | Stop (Found lba e raw _ _) \<Rightarrow> Some (Some (inode_of_slot lba e raw))
      | _ \<Rightarrow> Some None)"

lemma lookup_spec:
  assumes "fat_inv s" and "chain_ok s (ino dir) cs" and "i_type dir = FT_DIR"
  shows "\<exists>t. fat32_vfs_lookup s (Some dir) name = map_option (Pair t) (dir_lookup s cs name) \<and> fat_inv t \<and> fat_eq s t"
  using scan_chain_places [OF assms(1,2), of "find_visit (format_83_name name) name" "ino dir" fresh_accum]
    assms(3)
  by (auto simp: fat32_vfs_lookup_def dir_lookup_def split: flow.split option.split prod.split search.split)

text \<open>
  Names the format allows: the slot with the highest number of a chain of twenty carries at most the
  8 characters that make up a name of 255.
\<close>
definition lfn_fits :: "u8 list \<Rightarrow> bool" where
  "lfn_fits raw \<longleftrightarrow> d_attributes raw = FAT_ATTR_LFN \<longrightarrow> unat (l_seq raw AND 0x1F) = LFN_MAX_ENTRIES \<longrightarrow>
     length (lfn_extract_chars raw) \<le> 8"

definition acc_fits :: "lfn_accum \<Rightarrow> bool" where
  "acc_fits acc \<longleftrightarrow> unat (total_chunks acc) \<le> LFN_MAX_ENTRIES \<and>
     (\<forall>i. length (chunks acc i) \<le> 13) \<and> length (chunks acc 19) \<le> 8"

lemma length_extract_units: "length (extract_units us) \<le> length us"
  by (induction us) auto

lemma length_lfn_extract: "length (lfn_extract_chars raw) \<le> 13"
  using length_extract_units [of "l_units raw"] by (simp add: lfn_extract_chars_def l_units_def slice_at_def)

lemma acc_fits_name:
  assumes "acc_fits acc"
  shows "length (concat (map (chunks acc) [0..<unat (total_chunks acc)])) < LONG_NAME_SIZE"
proof -
  have "length (concat (map (chunks acc) [0..<n])) \<le> (if n = 20 then 255 else 13 * n)" if "n \<le> 20" for n
    using that
  proof (induction n)
    case (Suc n)
    have "length (chunks acc n) \<le> (if n = 19 then 8 else 13)" using assms by (simp add: acc_fits_def)
    then show ?case using Suc by (auto split: if_splits)
  qed simp
  from this [of "unat (total_chunks acc)"] show ?thesis
    using assms by (auto simp: acc_fits_def LFN_MAX_ENTRIES_def LONG_NAME_SIZE_def split: if_splits)
qed

text \<open>Feeding a slot of a directory whose names fit never overflows and keeps the accumulator small.\<close>
lemma feed_fits:
  assumes "acc_fits acc" and "lfn_fits raw"
  shows "\<exists>acc' ln. lfn_feed_entry acc raw lba idx = Some (acc', ln) \<and> acc_fits acc'"
proof -
  have r: "acc_fits (lfn_accum_reset acc)" using assms(1) by (simp add: acc_fits_def lfn_accum_reset_def)
  show ?thesis
  proof (cases "d_attributes raw = FAT_ATTR_LFN")
    case False
    then show ?thesis using acc_fits_name [OF assms(1)] r by (simp add: lfn_feed_entry_def Let_def)
  next
    case True
    let ?i = "unat (l_seq raw AND 0x1F) - 1"
    have "acc_fits (a\<lparr>chunks := (chunks a)(?i := lfn_extract_chars raw), slot_lba := x, slot_idx := y\<rparr>)"
      if "acc_fits a" "l_seq raw AND 0x1F \<noteq> 0" for a x y
      using that assms(2) True length_lfn_extract [of raw]
      by (auto simp: acc_fits_def lfn_fits_def LFN_MAX_ENTRIES_def unat_eq_0)
    then show ?thesis using True r assms(1)
      by (auto simp: lfn_feed_entry_def Let_def acc_fits_def lfn_accum_reset_def)
  qed
qed

lemma fresh_fits: "acc_fits fresh_accum"
  by (simp add: acc_fits_def fresh_accum_def)

lemma walk_fits:
  assumes "\<forall>q \<in> set ps. lfn_fits (slot_at s q)" and "acc_fits acc"
  shows "case walk_places (find_visit t83 name) s ps acc of Cont a \<Rightarrow> acc_fits a | Stop r \<Rightarrow> r \<noteq> Overflow"
  unfolding walk_places_def
proof (rule walk_list_inv [where P = acc_fits])
  show "acc_fits acc" by (rule assms(2))
  fix q a assume q: "q \<in> set ps" and a: "acc_fits a"
  then obtain a' ln where "lfn_feed_entry a (slot_at s q) (fst q) (of_nat (snd q)) = Some (a', ln)" "acc_fits a'"
    using feed_fits assms(1) by blast
  moreover have "acc_fits (lfn_accum_reset a)" using a by (simp add: acc_fits_def lfn_accum_reset_def)
  ultimately show "case find_visit t83 name (fst q) (snd q) (slot_at s q) a of
      Cont a \<Rightarrow> acc_fits a | Stop r \<Rightarrow> r \<noteq> Overflow"
    by (simp add: find_visit_def)
qed

lemma lookup_fits:
  "\<forall>q \<in> set (dir_places s cs). lfn_fits (slot_at s q) \<Longrightarrow> dir_lookup s cs name \<noteq> None"
  using walk_fits [OF _ fresh_fits, of "dir_places s cs" s "format_83_name name" name]
  by (simp add: dir_lookup_def split: flow.splits search.splits)

lemma mk_dir_slot_fields:
  assumes "length name11 = 11"
  shows "length (mk_dir_slot name11 attr k) = 32" "mk_dir_slot name11 attr k ! 0 = name11 ! 0"
    "d_attributes (mk_dir_slot name11 attr k) = attr" "d_name (mk_dir_slot name11 attr k) = name11"
    "d_start_cluster (mk_dir_slot name11 attr k) = k" "d_file_size (mk_dir_slot name11 attr k) = 0"
proof -
  obtain a b c d e f g h i j l where n: "name11 = [a,b,c,d,e,f,g,h,i,j,l]"
    using assms by (auto simp: length_Suc_conv numeral_eq_Suc)
  let ?hi = "ucast ((drop_bit 16 k) AND 0xFFFF) :: u16" and ?lo = "ucast (k AND 0xFFFF) :: u16"
  have s: "slice_at (mk_dir_slot name11 attr k) 20 2 = le_bytes 2 ?hi"
    "slice_at (mk_dir_slot name11 attr k) 26 2 = le_bytes 2 ?lo"
    "slice_at (mk_dir_slot name11 attr k) 28 4 = le_bytes 4 (0 :: u32)"
    by (simp_all add: mk_dir_slot_def slice_at_def n)
  have "push_bit 16 (ucast ?hi) OR ucast ?lo = (k :: u32)"
  proof (rule bit_word_eqI)
    fix n assume "n < LENGTH(32)"
    moreover have m: "(0xFFFF :: u32) = mask 16" by (simp add: mask_numeral)
    ultimately show "bit (push_bit 16 (ucast ?hi) OR ucast ?lo :: u32) n = bit k n"
      unfolding m by (auto simp: bit_simps)
  qed
  then show "d_start_cluster (mk_dir_slot name11 attr k) = k"
    by (simp add: d_start_cluster_def d_cluster_high_def d_cluster_low_def s of_le_le_bytes)
  show "d_file_size (mk_dir_slot name11 attr k) = 0"
    by (simp add: d_file_size_def s of_le_le_bytes)
  show "length (mk_dir_slot name11 attr k) = 32" "mk_dir_slot name11 attr k ! 0 = name11 ! 0"
    "d_attributes (mk_dir_slot name11 attr k) = attr" "d_name (mk_dir_slot name11 attr k) = name11"
    by (simp_all add: mk_dir_slot_def d_attributes_def d_name_def slice_at_def n)
qed

lemma find_append: "find P (xs @ ys) = (case find P xs of None \<Rightarrow> find P ys | Some x \<Rightarrow> Some x)"
  by (induction xs) auto

lemma find_split: "find P xs = Some x \<Longrightarrow> \<exists>ys zs. xs = ys @ x # zs \<and> P x \<and> (\<forall>y \<in> set ys. \<not> P y)"
proof (induction xs)
  case (Cons a xs)
  show ?case
  proof (cases "P a")
    case True
    then show ?thesis using Cons.prems by (intro exI [of _ "[]"] exI [of _ xs]) auto
  next
    case False
    then obtain ys zs where "xs = ys @ x # zs" "P x" "\<forall>y \<in> set ys. \<not> P y" using Cons by auto
    then show ?thesis using False by (intro exI [of _ "a # ys"] exI [of _ zs]) auto
  qed
qed simp

lemma walk_free:
  "walk_places free_visit s ps a =
     (case find (\<lambda>p. slot_free (slot_at s p)) ps of None \<Rightarrow> Cont a | Some p \<Rightarrow> Stop p)"
proof (induction ps)
  case (Cons p ps)
  have "walk_places free_visit s (p # ps) a =
      (if slot_free (slot_at s p) then Stop p else walk_places free_visit s ps a)"
    by (simp add: walk_places_def free_visit_def)
  then show ?case using Cons by simp
qed (simp add: walk_places_def)

text \<open>The first free slot of the chain takes the entry.\<close>

lemma add_entry_free:
  "fat_inv s \<Longrightarrow> chain_ok s c cs \<Longrightarrow> find (\<lambda>p. slot_free (slot_at s p)) (dir_places s cs) = Some p \<Longrightarrow>
   \<exists>u. fat32_add_entry s c n11 attr k = Some (write_slot u (fst p) (snd p) (mk_dir_slot n11 attr k), True) \<and>
     fat_inv u \<and> fat_eq s u"
proof (induction cs arbitrary: s c)
  case Nil
  then show ?case by (simp add: dir_places_def)
next
  case (Cons x xs)
  have c: "x = c" "c < FAT32_EOC_MARKER" "in_fat s c" "chain_ok s (fat_of s c) xs"
    using Cons.prems by (auto simp: chain_ok_def)
  let ?P = "\<lambda>s p. slot_free (slot_at s p)"
  have places: "dir_places s (x # xs) = cluster_places s c @ dir_places s xs"
    by (simp add: dir_places_def c(1))
  show ?case
  proof (cases "find (?P s) (cluster_places s c)")
    case (Some q)
    then have "q = p" using Cons.prems(3) by (simp add: places find_append)
    then show ?thesis
      using Some c(2) Cons.prems(1)
      by (subst fat32_add_entry.simps) (auto simp: scan_cluster_places walk_free split: prod.split)
  next
    case None
    then have rest: "find (?P s) (dir_places s xs) = Some p"
      using Cons.prems(3) by (simp add: places find_append)
    then have "xs \<noteq> []" by (auto simp: dir_places_def)
    then have nx: "\<not> FAT32_EOC_MARKER \<le> fat_of s c"
      using c(4) by (cases xs) (auto simp: chain_ok_def)
    obtain s1 v where g: "get_next_cluster s c = (s1, v)" by fastforce
    note get = get_next_cluster_spec [OF Cons.prems(1) c(3) g]
    have "\<forall>q \<in> set (dir_places s xs). slot_at s1 q = slot_at s q"
      using fat_eq_slot [OF get(3)] dir_places_ok c(4) by (auto simp: chain_ok_def)
    then have "find (?P s1) (dir_places s xs) = find (?P s) (dir_places s xs)"
      by (intro find_cong) auto
    then have "find (?P s1) (dir_places s1 xs) = Some p"
      using rest by (simp add: fat_eq_places [OF get(3)])
    then obtain u where u: "fat32_add_entry s1 (fat_of s c) n11 attr k =
        Some (write_slot u (fst p) (snd p) (mk_dir_slot n11 attr k), True)" "fat_inv u" "fat_eq s1 u"
      using Cons.IH [OF get(2) chain_ok_eq [OF get(3) c(4)]] by blast
    then show ?thesis
      using None c(2) g get(1) nx fat_eq_trans [OF get(3)]
      by (subst fat32_add_entry.simps) (auto simp: scan_cluster_places walk_free)
  qed
qed

text \<open>A search that passes only used slots can end early only at a match.\<close>

lemma walk_find_used:
  assumes "\<forall>q \<in> set ps. \<not> slot_free (slot_at s q)"
  shows "walk_places (find_visit t83 name) s ps acc \<noteq> Stop At_end"
proof -
  have "case walk_places (find_visit t83 name) s ps acc of Cont a \<Rightarrow> True | Stop r \<Rightarrow> r \<noteq> At_end"
    unfolding walk_places_def
  proof (rule walk_list_inv [where P = "\<lambda>_. True"])
    fix q a assume "q \<in> set ps"
    then have "slot_at s q ! 0 \<noteq> 0" using assms by (simp add: slot_free_def)
    then show "case find_visit t83 name (fst q) (snd q) (slot_at s q) a of
        Cont a \<Rightarrow> True | Stop r \<Rightarrow> r \<noteq> At_end"
      by (simp add: find_visit_def Let_def split: prod.split option.split)
  qed simp
  then show ?thesis by auto
qed

lemma compare_name_refl: "compare_name_83 n n"
  by (simp add: compare_name_83_def list_all_iff)

lemma add_then_lookup:
  assumes inv: "fat_inv s" and ok: "chain_ok s c cs" and none: "dir_lookup s cs name = Some None"
    and fits: "\<forall>q \<in> set (dir_places s cs). lfn_fits (slot_at s q)"
    and free: "find (\<lambda>p. slot_free (slot_at s p)) (dir_places s cs) = Some p"
    and n11: "length (format_83_name name) = 11" "format_83_name name ! 0 \<notin> {0, 0xE5}"
    and attr: "attr \<noteq> FAT_ATTR_LFN" and u: "fat_inv u" "fat_eq s u"
  shows "dir_lookup (write_slot u (fst p) (snd p) (mk_dir_slot (format_83_name name) attr k)) cs name =
    Some (Some (inode_of_slot (fst p) (snd p) (mk_dir_slot (format_83_name name) attr k)))"
proof -
  let ?raw = "mk_dir_slot (format_83_name name) attr k"
  let ?t = "write_slot u (fst p) (snd p) ?raw"
  let ?v = "find_visit (format_83_name name) name"
  note raw = mk_dir_slot_fields [OF n11(1), of attr k]
  have d: "list_all (data_ok s) cs" using ok by (simp add: chain_ok_def)
  obtain ps qs where split: "dir_places s cs = ps @ p # qs" "\<forall>q \<in> set ps. \<not> slot_free (slot_at s q)"
    using find_split [OF free] by blast
  have "p \<in> set (dir_places s cs)" by (simp add: split)
  note pok = dir_places_ok [OF d this]
  have "p \<notin> set ps"
    using distinct_places [OF d] ok fat_chain_distinct by (fastforce simp: chain_ok_def split(1))
  have slots: "slot_at ?t q = (if q = p then ?raw else slot_at s q)" if "q \<in> set (dir_places s cs)" for q
  proof -
    note q = dir_places_ok [OF d that]
    show ?thesis
      using slot_at_write [OF u(1) pok(1,3) raw(1) q(1,3)] fat_eq_slot [OF u(2) q(1,2)] by simp
  qed
  have places: "dir_places ?t cs = ps @ p # qs"
  proof -
    have "data_start_lba s \<le> fst p" by (rule pok)
    then have "dir_places ?t = dir_places u" by (intro places_cong) simp_all
    then show ?thesis using fat_eq_places [OF u(2)] split(1) by simp
  qed
  have "walk_places ?v ?t ps fresh_accum = walk_places ?v s ps fresh_accum"
    using slots \<open>p \<notin> set ps\<close> by (intro walk_places_cong) (auto simp: split(1))
  moreover obtain acc where acc: "walk_places ?v s ps fresh_accum = Cont acc"
  proof (cases "walk_places ?v s ps fresh_accum")
    case (Stop r)
    then have "r \<noteq> At_end" using walk_find_used [OF split(2)] by auto
    then have False
      using none Stop by (cases r) (auto simp: dir_lookup_def split(1) walk_places_append)
    then show ?thesis ..
  qed simp
  moreover have "slot_at ?t p = ?raw" using slots split(1) by simp
  moreover have "acc_fits acc"
    using walk_fits [OF _ fresh_fits, of ps s "format_83_name name" name] fits acc by (simp add: split(1))
  then obtain acc' ln where f: "lfn_feed_entry acc ?raw (fst p) (of_nat (snd p)) = Some (acc', ln)"
    using feed_fits [of acc ?raw "fst p" "of_nat (snd p)"] attr raw by (auto simp: lfn_fits_def)
  ultimately have "walk_places ?v ?t (ps @ p # qs) fresh_accum =
      Stop (Found (fst p) (snd p) ?raw acc' (ln \<noteq> None))"
    using n11(2) attr raw
    by (simp add: walk_places_append) (simp add: walk_places_def find_visit_def f compare_name_refl)
  then show ?thesis by (simp add: dir_lookup_def places)
qed


section \<open>Growing a directory\<close>

text \<open>The cluster the allocator takes in state \<open>s\<close>: the first free one from its hint on.\<close>
definition next_free :: "fatfs \<Rightarrow> u32 \<Rightarrow> bool" where
  "next_free s k \<longleftrightarrow>
     first_cluster \<le> next_free_cluster_hint s \<and> next_free_cluster_hint s \<le> k \<and> k < cluster_limit \<and>
     in_fat s k \<and> data_ok s k \<and> fat_of s k = 0 \<and>
     (\<forall>j. next_free_cluster_hint s \<le> j \<longrightarrow> j < k \<longrightarrow> fat_of s j \<noteq> 0)"

lemma next_free_eq:
  assumes "fat_inv s" and "fat_eq s t" and "next_free s k"
  shows "next_free t k"
proof -
  have k: "in_fat s k" "k < 0x10000000"
    using assms(3) by (auto simp: next_free_def cluster_limit_def intro: order_less_trans)
  have "fat_of t j \<noteq> 0" if "next_free_cluster_hint s \<le> j" "j < k" for j
  proof -
    have "in_fat s j" using in_fat_mono [OF fat_inv_geom [OF assms(1)] k(1) _ k(2)] that by simp
    then show ?thesis using that assms(3) fat_eq_fat_of [OF assms(2)] by (simp add: next_free_def)
  qed
  then show ?thesis
    using assms(3) fat_eq_geom [OF assms(2)] fat_eq_fat_of [OF assms(2)] fat_eq_places [OF assms(2)]
    by (simp add: next_free_def)
qed

lemma allocate_next_free:
  assumes "fat_inv s" and "next_free s k"
  shows "\<exists>t. fat32_allocate_cluster s = (t, k) \<and> fat_inv t \<and> fat_allocated s k t"
  using fat32_allocate_cluster_first [OF assms(1)] assms(2) by (simp add: next_free_def)

text \<open>
  \<open>t\<close> is \<open>s\<close> after cluster \<open>k\<close> was linked behind cluster \<open>x\<close>, zeroed, and its first slot written.
\<close>
definition dir_grown :: "fatfs \<Rightarrow> u32 \<Rightarrow> u32 \<Rightarrow> u8 list \<Rightarrow> fatfs \<Rightarrow> bool" where
  "dir_grown s x k raw t \<longleftrightarrow>
     fat_start_lba t = fat_start_lba s \<and> data_start_lba t = data_start_lba s \<and>
     sectors_per_cluster t = sectors_per_cluster s \<and> root_dir_cluster t = root_dir_cluster s \<and>
     (\<forall>c. in_fat s c \<longrightarrow> c < 0x10000000 \<longrightarrow>
        fat_of t c = (if c = x then k else if c = k then FAT32_EOC_MARKER else fat_of s c)) \<and>
     (\<forall>l. data_start_lba s \<le> l \<longrightarrow>
        disk t l = (if l = cluster_to_lba s k then put_bytes (replicate 512 0) 0 raw
                    else if l \<in> cluster_sectors s k then replicate 512 0 else disk s l))"

lemma dir_grown_eq:
  assumes "fat_eq s s1" and "dir_grown s1 x k raw t"
  shows "dir_grown s x k raw t"
proof -
  note g = fat_eq_geom [OF assms(1)]
  have "cluster_sectors s1 k = cluster_sectors s k" by (simp add: data_ok_cong [of s1 s] g)
  then show ?thesis
    using assms fat_eq_fat_of [OF assms(1)] fat_eq_disk [OF assms(1)]
    by (simp add: dir_grown_def g)
qed

lemma find_places_hd:
  assumes "sectors_per_cluster s \<noteq> 0" and "P (cluster_to_lba s k, 0)"
  shows "find P (cluster_places s k) = Some (cluster_to_lba s k, 0)"
proof -
  obtain n where n: "unat (sectors_per_cluster s) = Suc n"
    using assms(1) by (metis old.nat.exhaust unat_eq_0)
  have "[0..<Suc n] = 0 # [1..<Suc n]" by (simp add: upt_conv_Cons)
  moreover have "[0..<16::nat] = 0 # [1..<16]" by (simp add: upt_conv_Cons)
  ultimately have "cluster_places s k = (cluster_to_lba s k, 0) #
      (map (Pair (cluster_to_lba s k)) [1..<16] @
       concat (map (\<lambda>i. map (Pair (cluster_to_lba s k + of_nat i)) [0..<16]) [1..<Suc n]))"
    unfolding cluster_places_def n by simp
  then show ?thesis using assms(2) by simp
qed

lemma add_entry_fresh_cluster:
  assumes inv: "fat_inv s" and k: "k < FAT32_EOC_MARKER" "data_ok s k" and spc: "sectors_per_cluster s \<noteq> 0"
    and zero: "disk s (cluster_to_lba s k) = replicate 512 0"
  shows "fat32_add_entry s k n11 attr v = Some (write_slot s (cluster_to_lba s k) 0 (mk_dir_slot n11 attr v), True)"
proof -
  have "0 < unat (sectors_per_cluster s)" using spc by (simp add: unat_gt_0)
  then have "cluster_to_lba s k \<in> cluster_sectors s k"
    unfolding cluster_sectors_def by (intro image_eqI [of _ _ 0]) simp_all
  then have "lba_ok (cluster_to_lba s k)" using cluster_sectors_ok [OF k(2)] by blast
  then have "slot_at s (cluster_to_lba s k, 0) = replicate 32 0"
    by (simp add: slot_at_def disk_read_def zero slice_at_def)
  then have "slot_free (slot_at s (cluster_to_lba s k, 0))" by (simp add: slot_free_def)
  then show ?thesis
    using k(1) find_places_hd [OF spc, of "\<lambda>p. slot_free (slot_at s p)"]
    by (subst fat32_add_entry.simps) (simp add: scan_cluster_places walk_free)
qed

lemma grow_last:
  assumes inv: "fat_inv s" and x: "in_fat s x" "x < FAT32_EOC_MARKER" "FAT32_EOC_MARKER \<le> fat_of s x"
    and full: "find (\<lambda>p. slot_free (slot_at s p)) (cluster_places s x) = None"
    and free: "next_free s k" and spc: "sectors_per_cluster s \<noteq> 0" and n11: "length n11 = 11"
  shows "\<exists>t. fat32_add_entry s x n11 attr v = Some (t, True) \<and> fat_inv t \<and>
    dir_grown s x k (mk_dir_slot n11 attr v) t"
proof -
  let ?raw = "mk_dir_slot n11 attr v"
  note raw = mk_dir_slot_fields [OF n11, of attr v]
  obtain s1 w where g: "get_next_cluster s x = (s1, w)" by fastforce
  note get = get_next_cluster_spec [OF inv x(1) g]
  note eq = fat_eq_geom [OF get(3)]
  obtain s2 where s2: "fat32_allocate_cluster s1 = (s2, k)" "fat_inv s2" "fat_allocated s1 k s2"
    using allocate_next_free [OF get(2) next_free_eq [OF inv get(3) free]] by blast
  have al: "fat_allocated s k s2" by (rule fat_allocated_eq [OF get(3) s2(3)])
  have k: "2 \<le> k" "k < cluster_limit" "in_fat s k" "data_ok s k" "fat_of s k = 0"
    using free by (simp_all add: next_free_def data_ok_def)
  then have k': "k < FAT32_EOC_MARKER" "k < 0x10000000" "k \<noteq> 0"
    by (auto simp: cluster_limit_def FAT32_EOC_MARKER_def intro: order_less_trans)
  have "k \<noteq> x" using k(5) x(3) by (auto simp: FAT32_EOC_MARKER_def)
  have in2: "in_fat s2 c = in_fat s c" for c
    using al by (intro in_fat_cong) (simp_all add: fat_allocated_def)
  let ?s3 = "set_next_cluster s2 x k"
  let ?s4 = "fat32_fat_sync ?s3"
  have s3: "fat_inv ?s3" using s2(2) x(1) by (simp add: set_next_cluster_inv in2)
  have s4: "fat_inv ?s4" by (rule fat_sync_inv [OF s3])
  have gs4: "fat_start_lba ?s4 = fat_start_lba s" "data_start_lba ?s4 = data_start_lba s"
    "sectors_per_cluster ?s4 = sectors_per_cluster s" "root_dir_cluster ?s4 = root_dir_cluster s"
    using al by (simp_all add: fat_allocated_def)
  have and_k: "k AND 0x0FFFFFFF = k"
  proof -
    have "uint k < 2 ^ 28" using k'(2) by (simp add: word_less_alt)
    then have "k AND mask 28 = k" by (simp add: mask_eq_iff)
    then show ?thesis by (simp add: mask_numeral)
  qed
  have fat4: "fat_of ?s4 c = (if c = x then k else if c = k then FAT32_EOC_MARKER else fat_of s c)"
    if c: "in_fat s c" "c < 0x10000000" for c
  proof -
    have "fat_of ?s4 c = fat_of ?s3 c" using fat_eq_fat_of [OF fat_sync_eq [OF s3]] c by (simp add: in2)
    also have "\<dots> = (if c = x then k else fat_of s2 c)"
      using c x eoc_small by (simp add: set_next_cluster_fat_of [OF s2(2)] in2 same_entry_small and_k)
    finally show ?thesis using al c by (simp add: fat_allocated_def)
  qed
  have disk4: "disk ?s4 l = (if l \<in> cluster_sectors s k then replicate 512 0 else disk s l)"
    if "data_start_lba s \<le> l" for l
  proof -
    have l2: "data_start_lba s2 \<le> l" using that al by (simp add: fat_allocated_def)
    have "disk ?s4 l = disk ?s3 l" using fat_sync_data [OF s3] l2 by simp
    also have "\<dots> = disk s2 l" using set_next_cluster_data [OF s2(2)] x(1) l2 by (simp add: in2)
    finally show ?thesis using al that by (simp add: fat_allocated_def)
  qed
  let ?l = "cluster_to_lba s k"
  have lba4: "cluster_to_lba ?s4 k = ?l" "data_ok ?s4 k"
    using k(4) gs4 data_ok_cong [of ?s4 s k] by simp_all
  have "0 < unat (sectors_per_cluster s)" using spc by (simp add: unat_gt_0)
  then have l: "?l \<in> cluster_sectors s k"
    unfolding cluster_sectors_def by (intro image_eqI [of _ _ 0]) simp_all
  note lok = cluster_sectors_ok [OF k(4) l]
  have add: "fat32_add_entry ?s4 k n11 attr v = Some (write_slot ?s4 ?l 0 ?raw, True)"
    using add_entry_fresh_cluster [OF s4 k'(1) lba4(2), of n11 attr v] spc disk4 [OF lok(2)] l
    unfolding lba4 gs4 by simp
  let ?t = "write_slot ?s4 ?l 0 ?raw"
  have t: "fat_inv ?t" using s4 lok raw(1) gs4(2) by (intro write_slot_inv) (simp_all del: fat_sync_simps)
  have "\<not> FAT32_EOC_MARKER \<le> x" "FAT32_EOC_MARKER \<le> w" using x get(1) by auto
  then have run: "fat32_add_entry s x n11 attr v = Some (?t, True)"
    using g s2(1) k'(3) full add x(2)
    by (subst fat32_add_entry.simps) (simp add: scan_cluster_places walk_free)
  have fat_t: "fat_of ?t c = fat_of ?s4 c" if "in_fat s c" for c
    using write_slot_fat(2) [OF s4 lok(1), of c] lok(2) that gs4
    by (simp add: in_fat_cong [of ?s4 s] del: fat_sync_simps)
  have "dir_grown s x k ?raw ?t"
    unfolding dir_grown_def using fat_t fat4 disk4 gs4 l lok
    by (simp add: write_slot_disk del: fat_sync_simps)
  then show ?thesis using run t by blast
qed

lemma add_entry_grow:
  "fat_inv s \<Longrightarrow> chain_ok s c cs \<Longrightarrow> cs \<noteq> [] \<Longrightarrow>
   find (\<lambda>p. slot_free (slot_at s p)) (dir_places s cs) = None \<Longrightarrow> next_free s k \<Longrightarrow>
   sectors_per_cluster s \<noteq> 0 \<Longrightarrow> length n11 = 11 \<Longrightarrow>
   \<exists>t. fat32_add_entry s c n11 attr v = Some (t, True) \<and> fat_inv t \<and>
     dir_grown s (last cs) k (mk_dir_slot n11 attr v) t"
proof (induction cs arbitrary: s c)
  case Nil
  then show ?case by simp
next
  case (Cons x xs)
  have c: "x = c" "c < FAT32_EOC_MARKER" "in_fat s c" "chain_ok s (fat_of s c) xs"
    using Cons.prems(2) by (auto simp: chain_ok_def)
  let ?P = "\<lambda>s p. slot_free (slot_at s p)"
  have "dir_places s (x # xs) = cluster_places s c @ dir_places s xs" by (simp add: dir_places_def c(1))
  then have none: "find (?P s) (cluster_places s c) = None" "find (?P s) (dir_places s xs) = None"
    using Cons.prems(4) by (simp_all add: find_append split: option.splits)
  show ?case
  proof (cases xs)
    case Nil
    then have "FAT32_EOC_MARKER \<le> fat_of s c" using c(4) by (simp add: chain_ok_def)
    then show ?thesis
      using grow_last [OF Cons.prems(1) c(3,2) _ none(1) Cons.prems(5-7)] Nil c(1) by simp
  next
    case (Cons y ys)
    then have nx: "\<not> FAT32_EOC_MARKER \<le> fat_of s c" using c(4) by (auto simp: chain_ok_def)
    obtain s1 w where g: "get_next_cluster s c = (s1, w)" by fastforce
    note get = get_next_cluster_spec [OF Cons.prems(1) c(3) g]
    have "\<forall>q \<in> set (dir_places s xs). slot_at s1 q = slot_at s q"
      using fat_eq_slot [OF get(3)] dir_places_ok c(4) by (auto simp: chain_ok_def)
    then have "find (?P s1) (dir_places s xs) = find (?P s) (dir_places s xs)"
      by (intro find_cong) auto
    then have none1: "find (?P s1) (dir_places s1 xs) = None"
      using none(2) by (simp add: fat_eq_places [OF get(3)])
    obtain t where t: "fat32_add_entry s1 (fat_of s c) n11 attr v = Some (t, True)" "fat_inv t"
      "dir_grown s1 (last xs) k (mk_dir_slot n11 attr v) t"
      using Cons.IH [OF get(2) chain_ok_eq [OF get(3) c(4)] _ none1
          next_free_eq [OF Cons.prems(1) get(3) Cons.prems(5)] _ Cons.prems(7)]
        Cons.prems(6) Cons fat_eq_geom(3) [OF get(3)] by auto
    have "fat32_add_entry s c n11 attr v = Some (t, True)"
      using g get(1) nx c(2) none(1) t(1)
      by (subst fat32_add_entry.simps) (simp add: scan_cluster_places walk_free)
    then show ?thesis using t(2) dir_grown_eq [OF get(3) t(3)] Cons by auto
  qed
qed

lemma next_free_notin:
  assumes "fat_chain s c cs" and "next_free s k"
  shows "k \<notin> set cs"
proof
  assume "k \<in> set cs"
  then obtain ys zs where z: "cs = ys @ zs" "fat_chain s k zs" using fat_chain_suffix [OF assms(1)] by blast
  have "k < FAT32_EOC_MARKER" "fat_of s k = 0"
    using assms(2) by (auto simp: next_free_def cluster_limit_def FAT32_EOC_MARKER_def intro: order_less_trans)
  then obtain zs' where "fat_chain s 0 zs'" using z(2) by (cases zs) auto
  then show False by (cases zs') (auto simp: FAT32_EOC_MARKER_def)
qed

text \<open>The grown directory: the chain has the new cluster at its end, the old slots are as before.\<close>

lemma dir_grown_chain:
  assumes "dir_grown s (last cs) k raw t" and "fat_chain s c cs" and "list_all (data_ok s) cs" and "cs \<noteq> []"
    and "next_free s k"
  shows "chain_ok t c (cs @ [k])"
proof -
  have k: "in_fat s k" "data_ok s k" "fat_of s k = 0" "2 \<le> k" "k < cluster_limit"
    using assms(5) by (simp_all add: next_free_def data_ok_def)
  then have k': "k < FAT32_EOC_MARKER" "k < 0x10000000"
    by (auto simp: cluster_limit_def FAT32_EOC_MARKER_def intro: order_less_trans)
  have inn: "in_fat t x = in_fat s x" for x
    using assms(1) by (intro in_fat_cong) (simp_all add: dir_grown_def)
  have dok: "data_ok t = data_ok s"
    by (rule ext) (use assms(1) in \<open>simp add: dir_grown_def data_ok_def\<close>)
  have ne: "k \<notin> set cs" by (rule next_free_notin [OF assms(2,5)])
  have fk: "fat_of t k = FAT32_EOC_MARKER"
    using assms(1,4) k k' ne last_in_set [OF assms(4)] by (auto simp: dir_grown_def)
  have "fat_chain t c (cs @ [k])"
    using assms(2,4) assms(1) ne
  proof (induction cs arbitrary: c)
    case Nil
    then show ?case by simp
  next
    case (Cons x xs)
    have c: "x = c" "2 \<le> c" "c < FAT32_EOC_MARKER" "in_fat s c" "fat_chain s (fat_of s c) xs"
      using Cons.prems(1) by auto
    then have small: "c < 0x10000000" using eoc_small by blast
    show ?case
    proof (cases xs)
      case Nil
      then have "fat_of t c = k" using Cons.prems(3) c small by (simp add: dir_grown_def)
      then show ?thesis using c k k' fk Nil by (simp add: inn)
    next
      case (Cons y ys)
      have "x \<notin> set xs" using fat_chain_distinct [OF Cons.prems(1)] by simp
      then have "c \<noteq> last xs" using Cons c(1) last_in_set by blast
      moreover have "c \<noteq> k" using Cons.prems(4) c(1) by auto
      ultimately have "fat_of t c = fat_of s c" using Cons.prems(3) Cons c small by (simp add: dir_grown_def)
      moreover have "fat_chain t (fat_of s c) (xs @ [k])"
        using Cons.prems(3,4) Cons by (intro Cons.IH [OF c(5)]) auto
      ultimately show ?thesis using c by (simp add: inn)
    qed
  qed
  then show ?thesis using assms(3) k(2) by (simp add: chain_ok_def dok)
qed


lemma dir_grown_old_slots:
  assumes "dir_grown s x k raw t" and "fat_chain s c cs" and "list_all (data_ok s) cs" and "next_free s k"
    and q: "q \<in> set (dir_places s cs)"
  shows "slot_at t q = slot_at s q"
proof -
  have k: "data_ok s k" using assms(4) by (simp add: next_free_def)
  note qok = dir_places_ok [OF assms(3) q]
  obtain y where y: "y \<in> set cs" "q \<in> set (cluster_places s y)" using q by (auto simp: dir_places_def)
  then have "data_ok s y" "y \<noteq> k" using assms(3) next_free_notin [OF assms(2,4)] by (auto simp: list_all_iff)
  then have no: "fst q \<notin> cluster_sectors s k"
    using cluster_sectors_disjoint [OF _ k] cluster_places_in [OF y(2)] by blast
  have "fst q \<noteq> cluster_to_lba s k \<or> disk t (fst q) = disk s (fst q)"
  proof (cases "sectors_per_cluster s = 0")
    case True
    then show ?thesis using y(2) by (simp add: cluster_places_def)
  next
    case False
    then have "0 < unat (sectors_per_cluster s)" by (simp add: unat_gt_0)
    then have "cluster_to_lba s k \<in> cluster_sectors s k"
      unfolding cluster_sectors_def by (intro image_eqI [of _ _ 0]) simp_all
    then show ?thesis using no by auto
  qed
  then have "disk t (fst q) = disk s (fst q)" using assms(1) qok no by (auto simp: dir_grown_def)
  then show ?thesis using qok by (simp add: slot_at_def disk_read_def)
qed

lemma dir_grown_new_slots:
  assumes "dir_grown s x k raw t" and "next_free s k" and "length raw = 32"
    and q: "q \<in> set (cluster_places s k)"
  shows "slot_at t q = (if q = (cluster_to_lba s k, 0) then raw else replicate 32 0)"
proof -
  have k: "data_ok s k" using assms(2) by (simp add: next_free_def)
  note qok = cluster_places_ok [OF k q]
  show ?thesis
  proof (cases "fst q = cluster_to_lba s k")
    case False
    then have "disk t (fst q) = replicate 512 0"
      using assms(1) qok cluster_places_in [OF q] by (simp add: dir_grown_def)
    then show ?thesis using qok False by (auto simp: slot_at_def disk_read_def slice_at_def)
  next
    case True
    then have d: "disk t (fst q) = put_bytes (replicate 512 0) 0 raw"
      using assms(1) qok by (simp add: dir_grown_def)
    show ?thesis
    proof (cases "snd q = 0")
      case True
      then show ?thesis using d qok \<open>fst q = _\<close> assms(3)
        by (cases q) (simp add: slot_at_def disk_read_def slice_put_same)
    next
      case False
      then show ?thesis using d qok \<open>fst q = _\<close> assms(3)
        by (cases q) (simp add: slot_at_def disk_read_def slice_at_def put_bytes_def)
    qed
  qed
qed


section \<open>Unlink\<close>

lemma find_result:
  assumes "walk_places (find_visit t83 name) s ps acc0 = Stop (Found lba e raw acc hl)"
  shows "(lba, e) \<in> set ps \<and> raw = slot_at s (lba, e) \<and> total_chunks acc = 0 \<and> \<not> slot_free raw \<and>
    d_attributes raw \<noteq> FAT_ATTR_LFN"
proof -
  let ?ok = "\<lambda>(lba, e, raw, acc, hl). (lba, e) \<in> set ps \<and> raw = slot_at s (lba, e) \<and> total_chunks acc = 0 \<and>
    \<not> slot_free raw \<and> d_attributes raw \<noteq> FAT_ATTR_LFN"
  have "case walk_places (find_visit t83 name) s ps acc0 of
      Cont a \<Rightarrow> True | Stop r \<Rightarrow> (case r of Found lba e raw acc hl \<Rightarrow> ?ok (lba, e, raw, acc, hl) | _ \<Rightarrow> True)"
    unfolding walk_places_def
    by (rule walk_list_inv [where P = "\<lambda>_. True"])
      (auto simp: find_visit_def lfn_feed_entry_def lfn_accum_reset_def slot_free_def Let_def)
  then show ?thesis unfolding assms by auto
qed

lemma fat_freed_slot:
  assumes "fat_freed s C t" and "lba_ok (fst p)" and "data_start_lba s \<le> fst p"
  shows "slot_at t p = slot_at s p"
  using assms by (simp add: fat_freed_def slot_at_def disk_read_def)

text \<open>The state after an unlink that found its entry at place \<open>p\<close>, the file having chain \<open>fs\<close>.\<close>
definition unlinked :: "fatfs \<Rightarrow> u32 \<times> nat \<Rightarrow> u32 list \<Rightarrow> fatfs \<Rightarrow> bool" where
  "unlinked s p fs t \<longleftrightarrow>
     (\<forall>c. in_fat s c \<longrightarrow> c < 0x10000000 \<longrightarrow> fat_of t c = (if c \<in> set fs then 0 else fat_of s c)) \<and>
     (\<forall>q. lba_ok (fst q) \<longrightarrow> data_start_lba s \<le> fst q \<longrightarrow> snd q < 16 \<longrightarrow>
        slot_at t q = (if q = p then (slot_at s p)[0 := 0xE5] else slot_at s q))"

lemma unlink_spec:
  assumes inv: "fat_inv s" and ok: "chain_ok s (ino dir) cs" and dir: "i_type dir = FT_DIR"
    and found: "dir_lookup s cs name = Some (Some i)" and fchain: "fat_chain s (ino i) fs"
  shows "\<exists>t p. fat32_vfs_unlink s (Some dir) name = Some (t, 0) \<and> fat_inv t \<and> unlinked s p fs t \<and>
    p \<in> set (dir_places s cs) \<and> i = inode_of_slot (fst p) (snd p) (slot_at s p)"
proof -
  let ?v = "find_visit (format_83_name name) name"
  obtain lba e raw acc hl where st: "walk_places ?v s (dir_places s cs) fresh_accum = Stop (Found lba e raw acc hl)"
    and i: "i = inode_of_slot lba e raw"
    using found by (auto simp: dir_lookup_def split: flow.splits search.splits)
  note res = find_result [OF st]
  have d: "list_all (data_ok s) cs" using ok by (simp add: chain_ok_def)
  have p: "(lba, e) \<in> set (dir_places s cs)" using res by blast
  note pok = dir_places_ok [OF d p, simplified]
  obtain s1 lst where s1: "scan_chain (scan_cluster ?v) s (ino dir) (ino dir) fresh_accum =
      Some (s1, lst, Stop (Found lba e raw acc hl))" "fat_inv s1" "fat_eq s s1"
    using scan_chain_places [OF inv ok, of ?v "ino dir" fresh_accum] st by auto
  have pok1: "data_start_lba s1 \<le> lba" using pok fat_eq_geom [OF s1(3)] by simp
  have slot1: "slot_at s1 q = slot_at s q" if "lba_ok (fst q)" "data_start_lba s \<le> fst q" for q
    using fat_eq_slot [OF s1(3)] that by blast
  have raw: "raw = slot_at s (lba, e)" "length raw = 32"
    using res pok inv by (simp_all add: slot_at_def disk_read_def fat_inv_lengths)
  let ?s2 = "write_slot s1 lba e (raw[0 := 0xE5])"
  have s2: "delete_slot s1 lba e = ?s2"
    using delete_slot_eq [OF s1(2) pok(1,3)] raw(1) slot1 [of "(lba, e)"] pok by simp
  have inv2: "fat_inv ?s2" using write_slot_inv [OF s1(2) pok(1) pok1 pok(3)] raw(2) by simp
  have fat2: "fat_of ?s2 x = fat_of s x" "in_fat ?s2 x = in_fat s x" if "in_fat s x" for x
    using write_slot_fat(2) [OF s1(2) pok(1) pok1] fat_eq_fat_of [OF s1(3) that] that fat_eq_geom [OF s1(3)]
    by (simp_all add: in_fat_cong [of ?s2 s1])
  have "ino i = d_start_cluster raw" by (simp add: i inode_of_slot_def Let_def)
  moreover have "fat_chain ?s2 (ino i) fs"
    by (rule fat_chain_cong [OF fchain]) (use fat2 fat_chain_members [OF fchain] in blast)
  ultimately obtain t where t: "fat32_free_chain ?s2 (d_start_cluster raw) = Some t" "fat_inv t"
      "fat_freed ?s2 (set fs) t"
    using free_chain_correct [OF inv2] by metis
  let ?t = "fat32_fat_sync t"
  have geo: "data_start_lba t = data_start_lba s" "fat_start_lba t = fat_start_lba s"
    using t(3) fat_eq_geom [OF s1(3)] by (simp_all add: fat_freed_def)
  have run: "fat32_vfs_unlink s (Some dir) name = Some (?t, 0)"
    using res dir s1(1) t(1) by (auto simp: fat32_vfs_unlink_def Let_def s2)
  have inft: "in_fat t x = in_fat s x" for x using geo by (intro in_fat_cong)
  have in2: "in_fat ?s2 x = in_fat s x" for x using fat_eq_geom [OF s1(3)] by (simp add: in_fat_cong [of ?s2 s1])
  have "fat_of ?t x = (if x \<in> set fs then 0 else fat_of s x)" if x: "in_fat s x" "x < 0x10000000" for x
    using fat_eq_fat_of [OF fat_sync_eq [OF t(2)]] t(3) x fat2(1) by (simp add: fat_freed_def inft in2)
  moreover have "slot_at ?t q = (if q = (lba, e) then (slot_at s (lba, e))[0 := 0xE5] else slot_at s q)"
    if q: "lba_ok (fst q)" "data_start_lba s \<le> fst q" "snd q < 16" for q
  proof -
    have "slot_at ?t q = slot_at t q"
      using fat_eq_slot [OF fat_sync_eq [OF t(2)]] q geo by simp
    also have "\<dots> = slot_at ?s2 q"
      using fat_freed_slot [OF t(3) q(1)] q(2) fat_eq_geom [OF s1(3)] by simp
    also have "\<dots> = (if q = (lba, e) then raw[0 := 0xE5] else slot_at s1 q)"
      using slot_at_write [OF s1(2) pok(1,3) _ q(1,3)] raw(2) by simp
    finally show ?thesis using slot1 [OF q(1,2)] raw(1) by simp
  qed
  ultimately have "unlinked s (lba, e) fs ?t" by (simp add: unlinked_def)
  then show ?thesis
    using run fat_sync_inv [OF t(2)] p i raw(1) by (intro exI [of _ ?t] exI [of _ "(lba, e)"]) simp
qed


section \<open>Properties\<close>

text \<open>An empty root directory in cluster 2 and a one-cluster chain at 5 on the small volume.\<close>

definition demo_dir_volume :: fatfs where
  "demo_dir_volume = set_next_cluster (set_next_cluster demo_volume 2 FAT32_EOC_MARKER) 5 FAT32_EOC_MARKER"

definition demo_root :: inode where
  "demo_root = zero_inode\<lparr>ino := 2, i_type := FT_DIR, is_directory := 1\<rparr>"

lemma demo_dir_inv: "fat_inv demo_dir_volume"
  by (simp add: demo_dir_volume_def set_next_cluster_inv demo_volume_inv)

lemma demo_dir_fat: "in_fat demo_volume c \<Longrightarrow> fat_of demo_dir_volume c = 
    (if same_entry c 2 \<or> same_entry c 5 then FAT32_EOC_MARKER else 0)"
  by (simp add: demo_dir_volume_def set_next_cluster_inv set_next_cluster_fat_of demo_volume_inv FAT32_EOC_MARKER_def)

lemma demo_dir_geom:
  "data_start_lba demo_dir_volume = 64" "sectors_per_cluster demo_dir_volume = 1"
  "next_free_cluster_hint demo_dir_volume = 3" "in_fat demo_dir_volume c = in_fat demo_volume c"
  by (simp_all add: demo_dir_volume_def) (simp_all add: demo_volume_def)

lemma demo_dir_disk: "64 \<le> l \<Longrightarrow> disk demo_dir_volume l = replicate 512 0"
proof -
  assume "64 \<le> l"
  moreover have "data_start_lba demo_volume = 64" "disk demo_volume l = replicate 512 0"
    by (simp_all add: demo_volume_def)
  ultimately show ?thesis
    by (simp add: demo_dir_volume_def set_next_cluster_data set_next_cluster_inv demo_volume_inv)
qed

lemma demo_dir_chain: "chain_ok demo_dir_volume 2 [2]"
  by (simp add: chain_ok_def demo_dir_fat demo_dir_geom same_entry_def FAT32_EOC_MARKER_def data_ok_def)

lemma demo_dir_places: "dir_places demo_dir_volume [2] = map (Pair 64) [0..<16]"
  by (simp add: dir_places_def cluster_places_def cluster_to_lba_def demo_dir_geom del: upt_rec_numeral)

lemma demo_dir_slot: "e < 16 \<Longrightarrow> slot_at demo_dir_volume (64, e) = replicate 32 0"
  by (simp add: slot_at_def disk_read_def lba_ok_def demo_dir_disk slice_at_def)

lemma demo_dir_find:
  "find (\<lambda>p. slot_free (slot_at demo_dir_volume p)) (dir_places demo_dir_volume [2]) = Some (64, 0)"
  by (simp add: demo_dir_places upt_rec demo_dir_slot slot_free_def)

lemma demo_dir_lookup: "dir_lookup demo_dir_volume [2] name = Some None"
  by (simp add: dir_lookup_def demo_dir_places upt_rec walk_places_def demo_dir_slot find_visit_def)

lemma demo_dir_fits: "\<forall>q \<in> set (dir_places demo_dir_volume [2]). lfn_fits (slot_at demo_dir_volume q)"
  by (auto simp: demo_dir_places demo_dir_slot lfn_fits_def d_attributes_def FAT_ATTR_LFN_def)

text \<open>
  C13. Lookup in a directory whose cluster chain is well formed moves nothing but the FAT cache, and
  its result is that of the search over the directory's slots in chain order.  It returns unless
  that search meets a long name of more than 255 characters, which overflows \<open>long_name\<close>; where no
  slot carries such a name, it always returns.
\<close>
theorem lookup_refines_slot_list:
  assumes "fat_inv s" and "chain_ok s (ino dir) cs" and "i_type dir = FT_DIR"
  shows "\<exists>t. fat32_vfs_lookup s (Some dir) name = map_option (Pair t) (dir_lookup s cs name) \<and> fat_inv t \<and>
    ((\<forall>q \<in> set (dir_places s cs). lfn_fits (slot_at s q)) \<longrightarrow> dir_lookup s cs name \<noteq> None) \<and>
    (\<forall>c. in_fat s c \<longrightarrow> raw_of t c = raw_of s c) \<and>
    (\<forall>l. data_start_lba s \<le> l \<longrightarrow> disk t l = disk s l)"
  using lookup_spec [OF assms] fat_eq_raw fat_eq_disk lookup_fits [of s cs name] by blast

theorem lookup_refines_slot_list_witness:
  "\<exists>t. fat32_vfs_lookup demo_dir_volume (Some demo_root) (bytes_of ''A'') = Some (t, None)"
  using lookup_refines_slot_list [OF demo_dir_inv, of demo_root "[2]" "bytes_of ''A''"]
    demo_dir_chain demo_dir_lookup
  by (auto simp: demo_root_def)

text \<open>
  C1. Adding an 8.3 entry to a directory with a free slot, then looking the name up: the entry goes
  into the first free slot, every other slot is kept, and the lookup finds the new file with its
  start cluster, size zero and the right type.  The name must not start with byte \<open>0xE5\<close>, which the
  format reserves for deleted entries (the code does not escape it), and the long names in the
  directory must have at most the 255 characters that the format allows (more overflow the lookup).
\<close>
theorem add_entry_then_lookup:
  assumes "fat_inv s" and "chain_ok s (ino dir) cs" and "i_type dir = FT_DIR"
    and "dir_lookup s cs name = Some None" and "\<forall>q \<in> set (dir_places s cs). lfn_fits (slot_at s q)"
    and "find (\<lambda>p. slot_free (slot_at s p)) (dir_places s cs) = Some p"
    and "name_fits_83 name" and "format_83_name name ! 0 \<notin> {0, 0xE5}" and "attr \<noteq> FAT_ATTR_LFN"
  shows "\<exists>t u i. fat32_add_entry s (ino dir) (format_83_name name) attr k = Some (t, True) \<and> fat_inv t \<and>
    (\<forall>q \<in> set (dir_places s cs). slot_at t q =
       (if q = p then mk_dir_slot (format_83_name name) attr k else slot_at s q)) \<and>
    fat32_vfs_lookup t (Some dir) name = Some (u, Some i) \<and>
    ino i = k \<and> i_size i = 0 \<and> i_type i = (if attr AND FAT_ATTR_DIRECTORY \<noteq> 0 then FT_DIR else FT_REG)"
proof -
  obtain base ext where sh: "shape_83 name base ext" using name_fits_83_shape assms(7) by blast
  then have n11: "length (format_83_name name) = 11" by (simp add: format_83_shape [OF sh] shape_83_def)
  note raw = mk_dir_slot_fields [OF n11, of attr k]
  have d: "list_all (data_ok s) cs" using assms(2) by (simp add: chain_ok_def)
  have "p \<in> set (dir_places s cs)" using find_split [OF assms(6)] by auto
  note pok = dir_places_ok [OF d this]
  obtain u where u: "fat32_add_entry s (ino dir) (format_83_name name) attr k =
      Some (write_slot u (fst p) (snd p) (mk_dir_slot (format_83_name name) attr k), True)" "fat_inv u" "fat_eq s u"
    using add_entry_free [OF assms(1,2,6)] by blast
  let ?t = "write_slot u (fst p) (snd p) (mk_dir_slot (format_83_name name) attr k)"
  have pu: "data_start_lba u \<le> fst p" using pok fat_eq_geom [OF u(3)] by simp
  have t: "fat_inv ?t" "chain_ok ?t (ino dir) cs"
    using write_slot_inv [OF u(2) pok(1) pu pok(3) raw(1)]
      write_slot_chain [OF u(2) pok(1) pu chain_ok_eq [OF u(3) assms(2)]] by simp_all
  have slots: "\<forall>q \<in> set (dir_places s cs). slot_at ?t q =
       (if q = p then mk_dir_slot (format_83_name name) attr k else slot_at s q)"
    using slot_at_write [OF u(2) pok(1,3) raw(1)] dir_places_ok [OF d] fat_eq_slot [OF u(3)] by simp
  have "dir_lookup ?t cs name = Some (Some (inode_of_slot (fst p) (snd p) (mk_dir_slot (format_83_name name) attr k)))"
    by (rule add_then_lookup [OF assms(1,2,4,5,6) n11 assms(8,9) u(2,3)])
  moreover obtain v where "fat32_vfs_lookup ?t (Some dir) name = map_option (Pair v) (dir_lookup ?t cs name)"
    using lookup_spec [OF t assms(3)] by blast
  ultimately show ?thesis
    using u(1) t(1) slots raw by (auto simp: inode_of_slot_def Let_def zero_inode_def)
qed

theorem add_entry_then_lookup_witness:
  "\<exists>t u i. fat32_add_entry demo_dir_volume 2 (format_83_name (bytes_of ''A.TXT'')) FAT_ATTR_ARCHIVE 5 = Some (t, True) \<and>
     fat32_vfs_lookup t (Some demo_root) (bytes_of ''A.TXT'') = Some (u, Some i) \<and> ino i = 5 \<and> i_type i = FT_REG"
proof -
  have n: "name_fits_83 (bytes_of ''A.TXT'')" "format_83_name (bytes_of ''A.TXT'') ! 0 = 0x41"
    "FAT_ATTR_ARCHIVE \<noteq> FAT_ATTR_LFN" "FAT_ATTR_ARCHIVE AND FAT_ATTR_DIRECTORY = 0" by code_simp+
  have r: "ino demo_root = 2" "i_type demo_root = FT_DIR" by (simp_all add: demo_root_def)
  show ?thesis
    using add_entry_then_lookup [OF demo_dir_inv _ r(2) demo_dir_lookup demo_dir_fits demo_dir_find n(1) _ n(3), of 5]
      demo_dir_chain n(2,4) by (auto simp: r)
qed

text \<open>
  C7. A directory without a free slot grows: the allocator's next free cluster is linked behind the
  last one, its first slot is the new entry and every other slot of all its sectors is zero, all old
  slots and all other FAT entries are kept, and the new chain is well formed.
\<close>
theorem add_entry_grows_directory:
  assumes "fat_inv s" and "chain_ok s c cs" and "cs \<noteq> []"
    and "find (\<lambda>p. slot_free (slot_at s p)) (dir_places s cs) = None" and "next_free s k"
    and "sectors_per_cluster s \<noteq> 0" and "length n11 = 11"
  shows "\<exists>t. fat32_add_entry s c n11 attr v = Some (t, True) \<and> fat_inv t \<and> chain_ok t c (cs @ [k]) \<and>
    dir_places t (cs @ [k]) = dir_places s cs @ cluster_places s k \<and>
    (\<forall>q \<in> set (dir_places s cs). slot_at t q = slot_at s q) \<and>
    (\<forall>q \<in> set (cluster_places s k). slot_at t q =
       (if q = (cluster_to_lba s k, 0) then mk_dir_slot n11 attr v else replicate 32 0)) \<and>
    (\<forall>x. in_fat s x \<longrightarrow> x < 0x10000000 \<longrightarrow> fat_of t x =
       (if x = last cs then k else if x = k then FAT32_EOC_MARKER else fat_of s x))"
proof -
  obtain t where t: "fat32_add_entry s c n11 attr v = Some (t, True)" "fat_inv t"
      "dir_grown s (last cs) k (mk_dir_slot n11 attr v) t"
    using add_entry_grow [OF assms] by blast
  have ch: "fat_chain s c cs" "list_all (data_ok s) cs" using assms(2) by (simp_all add: chain_ok_def)
  have "cluster_places t = cluster_places s"
    using t(3) by (intro ext) (simp add: dir_grown_def cluster_places_def cluster_to_lba_def)
  then have "dir_places t (cs @ [k]) = dir_places s cs @ cluster_places s k" by (simp add: dir_places_def)
  moreover have "\<forall>q \<in> set (dir_places s cs). slot_at t q = slot_at s q"
    using dir_grown_old_slots [OF t(3) ch assms(5)] by blast
  moreover have "\<forall>q \<in> set (cluster_places s k). slot_at t q =
      (if q = (cluster_to_lba s k, 0) then mk_dir_slot n11 attr v else replicate 32 0)"
    using dir_grown_new_slots [OF t(3) assms(5)] mk_dir_slot_fields(1) [OF assms(7)] by blast
  ultimately show ?thesis
    using t dir_grown_chain [OF t(3) ch assms(3,5)] by (auto simp: dir_grown_def)
qed

text \<open>The directory with all its slots in use.\<close>
definition demo_full_volume :: fatfs where
  "demo_full_volume = put_sector demo_dir_volume 64 (replicate 512 0x41)"

theorem add_entry_grows_directory_witness:
  "\<exists>t. fat32_add_entry demo_full_volume 2 (format_83_name (bytes_of ''A.TXT'')) FAT_ATTR_ARCHIVE 5 = Some (t, True) \<and>
     chain_ok t 2 [2, 3] \<and> slot_at t (65, 0) = mk_dir_slot (format_83_name (bytes_of ''A.TXT'')) FAT_ATTR_ARCHIVE 5 \<and>
     slot_at t (65, 1) = replicate 32 0"
proof -
  let ?s = demo_full_volume
  have l: "lba_ok 64" "data_start_lba demo_dir_volume \<le> 64" by (simp_all add: lba_ok_def demo_dir_geom)
  have inv: "fat_inv ?s" using put_sector_inv [OF demo_dir_inv l] by (simp add: demo_full_volume_def)
  have ch: "chain_ok ?s 2 [2]" using put_sector_chain [OF demo_dir_inv l demo_dir_chain] by (simp add: demo_full_volume_def)
  have places: "dir_places ?s = dir_places demo_dir_volume"
    by (rule places_cong) (simp_all add: demo_full_volume_def)
  have "\<not> slot_free (slot_at ?s (64, e))" if "e < 16" for e
    using that l by (simp add: demo_full_volume_def slot_at_def disk_read_def put_sector_disk slice_at_def slot_free_def)
  then have none: "find (\<lambda>p. slot_free (slot_at ?s p)) (dir_places ?s [2]) = None"
    by (auto simp: find_None_iff places demo_dir_places)
  have fat: "in_fat demo_volume c \<Longrightarrow> fat_of ?s c = fat_of demo_dir_volume c" for c
    using put_sector_fat [OF demo_dir_inv l] by (simp add: demo_full_volume_def demo_dir_geom)
  have geo: "next_free_cluster_hint ?s = 3" "in_fat ?s c = in_fat demo_volume c" "data_ok ?s 3" for c
    by (simp_all add: demo_full_volume_def in_fat_cong [of _ demo_dir_volume] demo_dir_geom data_ok_def)
  have nf: "next_free ?s 3"
    using fat by (auto simp: next_free_def geo first_cluster_def cluster_limit_def demo_dir_fat same_entry_def)
  have len: "length (format_83_name (bytes_of ''A.TXT'')) = 11" by code_simp
  have g: "cluster_to_lba ?s 3 = 65" "sectors_per_cluster ?s = 1"
    by (simp_all add: cluster_to_lba_def demo_full_volume_def demo_dir_geom)
  have p: "(65, 0) \<in> set (cluster_places ?s 3)" "(65, 1) \<in> set (cluster_places ?s 3)"
    by (simp_all add: cluster_places_def g)
  obtain t where t: "fat32_add_entry ?s 2 (format_83_name (bytes_of ''A.TXT'')) FAT_ATTR_ARCHIVE 5 = Some (t, True)"
      "chain_ok t 2 ([2] @ [3])"
      "\<forall>q \<in> set (cluster_places ?s 3). slot_at t q = (if q = (cluster_to_lba ?s 3, 0)
         then mk_dir_slot (format_83_name (bytes_of ''A.TXT'')) FAT_ATTR_ARCHIVE 5 else replicate 32 0)"
    using add_entry_grows_directory [OF inv ch not_Cons_self2 none nf _ len, of FAT_ATTR_ARCHIVE 5] g(2)
    by auto
  have "slot_at t (65, 0) = mk_dir_slot (format_83_name (bytes_of ''A.TXT'')) FAT_ATTR_ARCHIVE 5"
    "slot_at t (65, 1) = replicate 32 0"
    using bspec [OF t(3) p(1)] bspec [OF t(3) p(2)] by (simp_all add: g(1))
  then show ?thesis using t(1,2) by auto
qed

text \<open>
  The places of the long name of the entry at \<open>p\<close>: the run of long-name slots right before it.
\<close>
definition own_lfn_places :: "fatfs \<Rightarrow> u32 list \<Rightarrow> u32 \<times> nat \<Rightarrow> (u32 \<times> nat) set" where
  "own_lfn_places s cs p =
     set (takeWhile (\<lambda>q. d_attributes (slot_at s q) = FAT_ATTR_LFN)
            (rev (takeWhile (\<lambda>q. q \<noteq> p) (dir_places s cs))))"

text \<open>
  C6. Unlinking a name that a lookup finds returns 0: the first byte of the short entry that was found
  becomes \<open>0xE5\<close> and the rest of the entry stays, exactly the clusters of the file are freed, and
  every slot that does not belong to the entry is kept.  Nothing is claimed about the entry's own
  long-name slots: the comment in the code says that they are marked too, and the loop that should
  do it does not run.
\<close>
theorem unlink_deletes_entry_and_chain:
  assumes "fat_inv s" and "chain_ok s (ino dir) cs" and "i_type dir = FT_DIR"
    and "dir_lookup s cs name = Some (Some i)" and "fat_chain s (ino i) fs"
  shows "\<exists>t p. fat32_vfs_unlink s (Some dir) name = Some (t, 0) \<and> fat_inv t \<and>
    p \<in> set (dir_places s cs) \<and> i = inode_of_slot (fst p) (snd p) (slot_at s p) \<and>
    slot_at t p = (slot_at s p)[0 := 0xE5] \<and>
    (\<forall>q \<in> set (dir_places s cs). q \<noteq> p \<longrightarrow> q \<notin> own_lfn_places s cs p \<longrightarrow> slot_at t q = slot_at s q) \<and>
    (\<forall>c. in_fat s c \<longrightarrow> c < 0x10000000 \<longrightarrow> fat_of t c = (if c \<in> set fs then 0 else fat_of s c))"
proof -
  have d: "list_all (data_ok s) cs" using assms(2) by (simp add: chain_ok_def)
  obtain t p where t: "fat32_vfs_unlink s (Some dir) name = Some (t, 0)" "fat_inv t" "unlinked s p fs t"
      "p \<in> set (dir_places s cs)" "i = inode_of_slot (fst p) (snd p) (slot_at s p)"
    using unlink_spec [OF assms] by blast
  have "slot_at t q = (if q = p then (slot_at s p)[0 := 0xE5] else slot_at s q)"
    if "q \<in> set (dir_places s cs)" for q
    using t(3) dir_places_ok [OF d that] by (cases q) (simp add: unlinked_def)
  then show ?thesis
    using t by (intro exI [of _ t] exI [of _ p]) (simp add: unlinked_def)
qed


text \<open>The directory with one file, whose chain is cluster 5.\<close>
definition demo_file_volume :: fatfs where
  "demo_file_volume = write_slot demo_dir_volume 64 0
     (mk_dir_slot (format_83_name (bytes_of ''A.TXT'')) FAT_ATTR_ARCHIVE 5)"

lemma demo_file_volume_ok:
  "fat_inv demo_file_volume" "chain_ok demo_file_volume 2 [2]" "fat_chain demo_file_volume 5 [5]"
  "dir_lookup demo_file_volume [2] (bytes_of ''A.TXT'') =
     Some (Some (inode_of_slot 64 0 (mk_dir_slot (format_83_name (bytes_of ''A.TXT'')) FAT_ATTR_ARCHIVE 5)))"
proof -
  let ?n = "format_83_name (bytes_of ''A.TXT'')" and ?s = demo_dir_volume
  have l: "lba_ok 64" "data_start_lba ?s \<le> 64" by (simp_all add: lba_ok_def demo_dir_geom)
  have n: "length ?n = 11" "?n ! 0 \<notin> {0, 0xE5}" "FAT_ATTR_ARCHIVE \<noteq> FAT_ATTR_LFN" by code_simp+
  show "fat_inv demo_file_volume" "chain_ok demo_file_volume 2 [2]"
    using write_slot_inv [OF demo_dir_inv l, of 0] write_slot_chain [OF demo_dir_inv l demo_dir_chain]
      mk_dir_slot_fields [OF n(1)] by (simp_all add: demo_file_volume_def)
  have "fat_chain ?s 5 [5]"
    by (simp add: demo_dir_fat demo_dir_geom same_entry_def FAT32_EOC_MARKER_def)
  then show "fat_chain demo_file_volume 5 [5]"
    by (rule fat_chain_cong)
      (simp add: demo_file_volume_def write_slot_fat [OF demo_dir_inv l] in_fat_cong [of _ ?s] demo_dir_geom)
  show "dir_lookup demo_file_volume [2] (bytes_of ''A.TXT'') =
     Some (Some (inode_of_slot 64 0 (mk_dir_slot ?n FAT_ATTR_ARCHIVE 5)))"
    using add_then_lookup [OF demo_dir_inv demo_dir_chain demo_dir_lookup demo_dir_fits demo_dir_find n demo_dir_inv fat_eq_refl]
    by (simp add: demo_file_volume_def)
qed

theorem unlink_deletes_entry_and_chain_witness:
  "\<exists>t. fat32_vfs_unlink demo_file_volume (Some demo_root) (bytes_of ''A.TXT'') = Some (t, 0) \<and> fat_of t 5 = 0"
proof -
  let ?n = "format_83_name (bytes_of ''A.TXT'')"
  have "length ?n = 11" by code_simp
  then have i: "ino (inode_of_slot 64 0 (mk_dir_slot ?n FAT_ATTR_ARCHIVE 5)) = 5"
    by (simp add: inode_of_slot_def Let_def mk_dir_slot_fields)
  have r: "ino demo_root = 2" "i_type demo_root = FT_DIR" by (simp_all add: demo_root_def)
  have f: "in_fat demo_file_volume 5"
    by (simp add: demo_file_volume_def in_fat_cong [of _ demo_dir_volume] demo_dir_geom)
  show ?thesis
    using unlink_deletes_entry_and_chain [OF demo_file_volume_ok(1) _ r(2) demo_file_volume_ok(4), of "[5]"]
      demo_file_volume_ok(2,3) f by (auto simp: r i)
qed

end
