(* ===== verification/FatFile.thy ===== *)
theory FatFile
  imports FatDir
begin

text \<open>
  Mounting a FAT32 volume and the contents of its files (\<open>src/src/fs/fat32.c\<close>): \<open>fat32_init\<close>,
  the boot-time \<open>fat32_read_file\<close>, \<open>fat32_vfs_read\<close> and \<open>fat32_vfs_write\<close>.  Offsets and lengths keep
  their C widths (64-bit offsets, 32-bit counters), so truncation and wrap-around are in the model.
  A read delivers the list of bytes it stores in the caller's buffer.

  The lemmas relate reading and writing to the contents of a chain, the concatenation of its
  sectors.
\<close>

section \<open>Mounting\<close>

text \<open>The fields of \<open>fat32_bpb_t\<close> that are used, and of the first partition record of the MBR.\<close>

definition bpb_sectors_per_cluster :: "u8 list \<Rightarrow> u8" where "bpb_sectors_per_cluster b = b ! 13"
definition bpb_reserved_sectors :: "u8 list \<Rightarrow> u16" where "bpb_reserved_sectors b = of_le (slice_at b 14 2)"
definition bpb_fat_count :: "u8 list \<Rightarrow> u8" where "bpb_fat_count b = b ! 16"
definition bpb_fat_size_32 :: "u8 list \<Rightarrow> u32" where "bpb_fat_size_32 b = of_le (slice_at b 36 4)"
definition bpb_root_cluster :: "u8 list \<Rightarrow> u32" where "bpb_root_cluster b = of_le (slice_at b 44 4)"
definition bpb_boot_signature :: "u8 list \<Rightarrow> u8" where "bpb_boot_signature b = b ! 66"

definition mbr_lba_start :: "u8 list \<Rightarrow> u32" where
  "mbr_lba_start mbr_sector = of_le (slice_at mbr_sector (0x1BE + 8) 4)"

text \<open>
  \<open>rd lba\<close> is what \<open>ata_read_sector\<close> makes of the request: the sector, or \<open>None\<close> when it returns
  false.
\<close>
definition fat32_init :: "(u32 \<Rightarrow> u8 list option) \<Rightarrow> fatfs \<Rightarrow> u32 \<Rightarrow> fatfs \<times> bool" where
  "fat32_init rd s partition_lba =
     (case rd partition_lba of
        None \<Rightarrow> (s, False)
      | Some boot_sector \<Rightarrow>
          if bpb_boot_signature boot_sector \<noteq> 0x28 \<and> bpb_boot_signature boot_sector \<noteq> 0x29
          then (s, False)
          else
            let fat_start = partition_lba + ucast (bpb_reserved_sectors boot_sector)
            in (s\<lparr>sectors_per_cluster := bpb_sectors_per_cluster boot_sector,
                  root_dir_cluster := bpb_root_cluster boot_sector,
                  next_free_cluster_hint := bpb_root_cluster boot_sector + 1,
                  fat_start_lba := fat_start,
                  data_start_lba := fat_start + bpb_fat_size_32 boot_sector * ucast (bpb_fat_count boot_sector),
                  fat_cache_sector := FAT_CACHE_INVALID,
                  fat_cache_dirty := False\<rparr>, True))"

section \<open>The boot-time reader\<close>

definition boot_visit :: "u8 list \<Rightarrow> (unit, (u32 \<times> u32) option) visitor" where
  "boot_visit filename_83 lba e raw a =
     (if raw ! 0 = 0x00 then Stop None
      else if raw ! 0 = 0xE5 \<or> d_attributes raw = FAT_ATTR_LFN then Cont a
      else if compare_name_83 (d_name raw) filename_83
      then Stop (Some (d_start_cluster raw, d_file_size raw))
      else Cont a)"

definition boot_sector_step :: "u32 \<Rightarrow> u8 list \<Rightarrow> u32 \<times> u8 list \<Rightarrow> (u32 \<times> u8 list, u32 \<times> u8 list) flow" where
  "boot_sector_step file_size sector_buf st =
     (case st of (bytes_read, out) \<Rightarrow>
        let bytes_to_copy = (if file_size - bytes_read < 512 then file_size - bytes_read else 512);
            st' = (bytes_read + bytes_to_copy, out @ slice_at sector_buf 0 (unat bytes_to_copy))
        in if file_size \<le> bytes_read + bytes_to_copy then Stop st' else Cont st')"

partial_function (option) boot_read_loop ::
  "u32 \<Rightarrow> fatfs \<Rightarrow> u32 \<Rightarrow> u32 \<times> u8 list \<Rightarrow> (fatfs \<times> u8 list) option" where
  "boot_read_loop file_size s current_cluster st =
     (if current_cluster < FAT32_EOC_MARKER \<and> fst st < file_size
      then
        let cluster_lba = cluster_to_lba s current_cluster;
            fl = walk_list (\<lambda>i. boot_sector_step file_size (disk_read (disk s) (cluster_lba + of_nat i)))
                   [0..<unat (sectors_per_cluster s)] st;
            st' = (case fl of Cont st' \<Rightarrow> st' | Stop st' \<Rightarrow> st')
        in case get_next_cluster s current_cluster of (s1, next) \<Rightarrow> boot_read_loop file_size s1 next st'
      else Some (s, snd st))"

text \<open>The result: the bytes written to \<open>output_buffer\<close> when the file was found.\<close>
definition fat32_read_file :: "fatfs \<Rightarrow> u8 list \<Rightarrow> (fatfs \<times> u8 list option) option" where
  "fat32_read_file s filename_83 =
     (case scan_chain (scan_cluster (boot_visit filename_83)) s (root_dir_cluster s) (root_dir_cluster s) () of
        None \<Rightarrow> None
      | Some (s1, _, Stop (Some (start, fsize))) \<Rightarrow>
          map_option (\<lambda>(s2, out). (s2, Some out)) (boot_read_loop fsize s1 start (0, []))
      | Some (s1, _, _) \<Rightarrow> Some (s1, None))"

section \<open>Reading\<close>

definition read_step :: "u64 \<Rightarrow> u32 \<Rightarrow> u8 list \<Rightarrow> u32 \<times> u8 list \<Rightarrow> u32 \<times> u8 list" where
  "read_step len offset_in_cluster sector_buf st =
     (case st of (bytes_read, dest) \<Rightarrow>
        if ucast bytes_read < len
        then
          let start_byte = (if bytes_read = 0 then offset_in_cluster mod 512 else 0);
              room = 512 - start_byte;
              bytes_to_copy = (if len - ucast bytes_read < ucast room then ucast (len - ucast bytes_read) else room)
          in (bytes_read + bytes_to_copy, dest @ slice_at sector_buf (unat start_byte) (unat bytes_to_copy))
        else st)"

definition read_cluster :: "u64 \<Rightarrow> u32 \<Rightarrow> fatfs \<Rightarrow> u32 \<Rightarrow> u32 \<times> u8 list \<Rightarrow> u32 \<times> u8 list" where
  "read_cluster len offset_in_cluster s cluster st =
     (let cluster_lba = cluster_to_lba s cluster
      in fold (\<lambda>i. read_step len offset_in_cluster (disk_read (disk s) (cluster_lba + of_nat i)))
           [0..<unat (sectors_per_cluster s)] st)"

partial_function (option) vfs_read_loop ::
  "u64 \<Rightarrow> u32 \<Rightarrow> fatfs \<Rightarrow> u32 \<Rightarrow> u32 \<times> u8 list \<Rightarrow> (fatfs \<times> u32 \<times> u8 list) option" where
  "vfs_read_loop len offset_in_cluster s current_cluster st =
     (if ucast (fst st) < len \<and> current_cluster < FAT32_EOC_MARKER
      then
        let st' = read_cluster len offset_in_cluster s current_cluster st
        in case get_next_cluster s current_cluster of (s1, next) \<Rightarrow>
             vfs_read_loop len offset_in_cluster s1 next st'
      else Some (s, st))"

definition cluster_size :: "fatfs \<Rightarrow> u32" where
  "cluster_size s = ucast (sectors_per_cluster s) * 512"

text \<open>
  The arguments: the inode of the open file (\<open>None\<close> for a null file or inode), whether the buffer is
  null, the length and the offset.  The result: state, bytes stored in the buffer, return value.  With
  no sectors per cluster the division traps (\<open>None\<close>).
\<close>
definition fat32_vfs_read ::
  "fatfs \<Rightarrow> inode option \<Rightarrow> bool \<Rightarrow> u64 \<Rightarrow> u64 \<Rightarrow> (fatfs \<times> u8 list \<times> int) option" where
  "fat32_vfs_read s file buf_null len offset =
     (case file of
        None \<Rightarrow> Some (s, [], -1)
      | Some node \<Rightarrow>
          if buf_null then Some (s, [], -1)
          else
            let file_size = i_size node
            in if ucast file_size \<le> offset then Some (s, [], 0)
               else if cluster_size s = 0 then None
               else
                 let len = (if ucast file_size < offset + len then ucast file_size - offset else len);
                     clusters_to_skip = ucast (offset div ucast (cluster_size s)) :: u32;
                     offset_in_cluster = ucast (offset mod ucast (cluster_size s)) :: u32
                 in (case skip_clusters (unat clusters_to_skip) s (ino node) of
                       (s1, None) \<Rightarrow> Some (s1, [], 0)
                     | (s1, Some cluster) \<Rightarrow>
                         map_option (\<lambda>(s2, bytes_read, dest). (s2, dest, int (unat bytes_read)))
                           (vfs_read_loop len offset_in_cluster s1 cluster (0, []))))"

section \<open>Writing\<close>

text \<open>The search for the tail of the chain: the table is read up to three times per link.\<close>
partial_function (option) find_tail :: "fatfs \<Rightarrow> u32 \<Rightarrow> (fatfs \<times> u32) option" where
  "find_tail s tail =
     (case get_next_cluster s tail of (s1, n1) \<Rightarrow>
        if n1 < FAT32_EOC_MARKER
        then (case get_next_cluster s1 tail of (s2, n2) \<Rightarrow>
                if n2 \<noteq> 0
                then (case get_next_cluster s2 tail of (s3, n3) \<Rightarrow> find_tail s3 n3)
                else Some (s2, tail))
        else Some (s1, tail))"

text \<open>Appending \<open>n\<close> clusters behind \<open>tail\<close>; \<open>False\<close> when the allocator finds none.\<close>
primrec extend_chain :: "nat \<Rightarrow> fatfs \<Rightarrow> u32 \<Rightarrow> fatfs \<times> bool" where
  "extend_chain 0 s tail = (s, True)"
| "extend_chain (Suc n) s tail =
     (case fat32_allocate_cluster s of (s1, new_cluster) \<Rightarrow>
        if new_cluster = 0 then (fat32_fat_sync s1, False)
        else extend_chain n (set_next_cluster s1 tail new_cluster) new_cluster)"

primrec follow :: "nat \<Rightarrow> fatfs \<Rightarrow> u32 \<Rightarrow> fatfs \<times> u32" where
  "follow 0 s cluster = (s, cluster)"
| "follow (Suc n) s cluster = (case get_next_cluster s cluster of (s1, next) \<Rightarrow> follow n s1 next)"

definition write_step :: "u64 \<Rightarrow> u32 \<Rightarrow> u8 list \<Rightarrow> u32 \<Rightarrow> fatfs \<times> u32 \<Rightarrow> fatfs \<times> u32" where
  "write_step len offset_in_cluster src current_lba st =
     (case st of (s, bytes_written) \<Rightarrow>
        if ucast bytes_written < len
        then
          let start_byte = (if bytes_written = 0 then offset_in_cluster mod 512 else 0);
              room = 512 - start_byte;
              bytes_to_copy = (if len - ucast bytes_written < ucast room then ucast (len - ucast bytes_written) else room);
              chunk = slice_at src (unat bytes_written) (unat bytes_to_copy);
              sector_buf = (if bytes_to_copy < 512
                            then put_bytes (disk_read (disk s) current_lba) (unat start_byte) chunk
                            else chunk)
          in (put_sector s current_lba sector_buf, bytes_written + bytes_to_copy)
        else st)"

definition write_cluster :: "u64 \<Rightarrow> u32 \<Rightarrow> u8 list \<Rightarrow> u32 \<Rightarrow> fatfs \<times> u32 \<Rightarrow> fatfs \<times> u32" where
  "write_cluster len offset_in_cluster src cluster st =
     (let cluster_lba = cluster_to_lba (fst st) cluster
      in fold (\<lambda>i. write_step len offset_in_cluster src (cluster_lba + of_nat i))
           [0..<unat (sectors_per_cluster (fst st))] st)"

partial_function (option) vfs_write_loop ::
  "u64 \<Rightarrow> u32 \<Rightarrow> u8 list \<Rightarrow> u32 \<Rightarrow> fatfs \<times> u32 \<Rightarrow> (fatfs \<times> u32) option" where
  "vfs_write_loop len offset_in_cluster src target_cluster st =
     (if ucast (snd st) < len \<and> target_cluster < FAT32_EOC_MARKER
      then
        let st' = write_cluster len offset_in_cluster src target_cluster st
        in case get_next_cluster (fst st') target_cluster of (s1, next) \<Rightarrow>
             vfs_write_loop len offset_in_cluster src next (s1, snd st')
      else Some st)"

text \<open>The size update in the inode and, through \<open>private\<close>, in the directory entry.\<close>
definition update_size :: "fatfs \<Rightarrow> inode \<Rightarrow> u64 \<Rightarrow> fatfs \<times> inode" where
  "update_size s node new_end =
     (if ucast (i_size node) < new_end
      then
        let node' = node\<lparr>i_size := ucast new_end\<rparr>
        in case i_private node of
             PNode lba off \<Rightarrow>
               (put_sector s lba (put_bytes (disk_read (disk s) lba) (unat off + 28) (le_bytes 4 (i_size node'))), node')
           | _ \<Rightarrow> (s, node')
      else (s, node))"

definition clusters_owned :: "fatfs \<Rightarrow> inode \<Rightarrow> u32" where
  "clusters_owned s node =
     (if i_size node = 0 then 1 else (i_size node + cluster_size s - 1) div cluster_size s)"

definition clusters_needed :: "fatfs \<Rightarrow> u64 \<Rightarrow> u64 \<Rightarrow> u32" where
  "clusters_needed s offset len =
     (let required_size = ucast (offset + len) in (required_size + cluster_size s - 1) div cluster_size s)"

text \<open>
  The bytes to write are the list \<open>buf\<close> of length \<open>len\<close>.  The result has the updated inode.  With no
  sectors per cluster the division traps (\<open>None\<close>).
\<close>
definition fat32_vfs_write ::
  "fatfs \<Rightarrow> inode option \<Rightarrow> u8 list option \<Rightarrow> u64 \<Rightarrow> u64 \<Rightarrow> (fatfs \<times> inode option \<times> int) option" where
  "fat32_vfs_write s file buf len offset =
     (case (file, buf) of
        (Some node, Some src) \<Rightarrow>
          if len = 0 then Some (s, file, -1)
          else if cluster_size s = 0 then None
          else
            let csize = cluster_size s;
                owned = clusters_owned s node;
                needed = clusters_needed s offset len;
                grown = (if owned < needed
                         then map_option (\<lambda>(s1, tail). extend_chain (unat needed - unat owned) s1 tail)
                                (find_tail s (ino node))
                         else Some (s, True))
            in (case grown of
                  None \<Rightarrow> None
                | Some (s1, False) \<Rightarrow> Some (s1, file, -1)
                | Some (s1, True) \<Rightarrow>
                    let clusters_to_skip = ucast (offset div ucast csize) :: u32;
                        offset_in_cluster = ucast (offset mod ucast csize) :: u32
                    in (case follow (unat clusters_to_skip) s1 (ino node) of (s2, target) \<Rightarrow>
                          (case vfs_write_loop len offset_in_cluster src target (s2, 0) of
                             None \<Rightarrow> None
                           | Some (s3, bytes_written) \<Rightarrow>
                               (case update_size s3 node (offset + ucast bytes_written) of (s4, node') \<Rightarrow>
                                  Some (fat32_fat_sync s4, Some node', int (unat bytes_written))))))
      | _ \<Rightarrow> Some (s, file, -1))"


section \<open>The contents of a chain\<close>

definition file_sectors :: "fatfs \<Rightarrow> u32 list \<Rightarrow> u32 list" where
  "file_sectors s cs =
     concat (map (\<lambda>c. map (\<lambda>i. cluster_to_lba s c + of_nat i) [0..<unat (sectors_per_cluster s)]) cs)"

definition file_data :: "fatfs \<Rightarrow> u32 list \<Rightarrow> u8 list" where
  "file_data s cs = concat (map (disk_read (disk s)) (file_sectors s cs))"

lemma file_sectors_simps [simp]:
  "file_sectors s [] = []"
  "file_sectors s (c # cs) =
     map (\<lambda>i. cluster_to_lba s c + of_nat i) [0..<unat (sectors_per_cluster s)] @ file_sectors s cs"
  by (simp_all add: file_sectors_def)

lemma file_sectors_ok:
  assumes "list_all (data_ok s) cs" and "l \<in> set (file_sectors s cs)"
  shows "lba_ok l" and "data_start_lba s \<le> l"
proof -
  obtain c where "data_ok s c" "l \<in> cluster_sectors s c"
    using assms by (auto simp: file_sectors_def list_all_iff cluster_sectors_def)
  then show "lba_ok l" "data_start_lba s \<le> l" using cluster_sectors_ok by blast+
qed

lemma file_sectors_cong:
  assumes "data_start_lba t = data_start_lba s" and "sectors_per_cluster t = sectors_per_cluster s"
  shows "file_sectors t = file_sectors s"
  by (rule ext) (simp add: file_sectors_def cluster_to_lba_def assms)

lemma file_data_eq:
  assumes "fat_eq s t" and "list_all (data_ok s) cs"
  shows "file_data t cs = file_data s cs"
proof -
  have "file_sectors t = file_sectors s" using fat_eq_geom [OF assms(1)] by (intro file_sectors_cong)
  moreover have "disk_read (disk t) l = disk_read (disk s) l" if "l \<in> set (file_sectors s cs)" for l
    using file_sectors_ok [OF assms(2) that] fat_eq_disk [OF assms(1)] by (simp add: disk_read_def)
  ultimately show ?thesis by (auto simp: file_data_def intro: arg_cong [where f = concat])
qed

lemma length_file_sectors: "length (file_sectors s cs) = length cs * unat (sectors_per_cluster s)"
  by (induction cs) simp_all

lemma length_concat_const: "\<forall>b \<in> set bs. length b = n \<Longrightarrow> length (concat bs) = n * length bs"
  by (induction bs) simp_all

lemma length_file_data:
  "fat_inv s \<Longrightarrow> length (file_data s cs) = 512 * (length cs * unat (sectors_per_cluster s))"
  unfolding file_data_def
  by (subst length_concat_const [where n = 512])
    (auto simp: disk_read_def fat_inv_lengths length_file_sectors)

lemma file_data_drop:
  assumes "fat_inv s"
  shows "file_data s (drop k cs) = drop (k * (512 * unat (sectors_per_cluster s))) (file_data s cs)"
proof (induction k arbitrary: cs)
  case 0
  then show ?case by simp
next
  case (Suc k)
  show ?case
  proof (cases cs)
    case (Cons c ds)
    let ?n = "512 * unat (sectors_per_cluster s)"
    have "file_data s cs = file_data s [c] @ file_data s ds" by (simp add: file_data_def Cons)
    moreover have "length (file_data s [c]) = ?n" using length_file_data [OF assms, of "[c]"] by simp
    ultimately have "drop (Suc k * ?n) (file_data s cs) = drop (k * ?n) (file_data s ds)" by simp
    then show ?thesis using Suc Cons by simp
  qed (simp add: file_data_def)
qed

lemma skip_clusters_spec:
  "fat_inv s \<Longrightarrow> chain_ok s c cs \<Longrightarrow> k < length cs \<Longrightarrow>
   \<exists>t c'. skip_clusters k s c = (t, Some c') \<and> follow k s c = (t, c') \<and> fat_inv t \<and> fat_eq s t \<and>
     chain_ok t c' (drop k cs)"
proof (induction k arbitrary: s c cs)
  case 0
  then show ?case by auto
next
  case (Suc k)
  from Suc.prems(3) obtain x xs where cs: "cs = x # xs" "xs \<noteq> []"
    by (cases cs; cases "tl cs") auto
  have c: "x = c" "in_fat s c" "chain_ok s (fat_of s c) xs"
    using Suc.prems(2) by (auto simp: chain_ok_def cs)
  obtain s1 n where g: "get_next_cluster s c = (s1, n)" by fastforce
  note get = get_next_cluster_spec [OF Suc.prems(1) c(2) g]
  have "\<not> FAT32_EOC_MARKER \<le> n" using c(3) cs(2) get(1) by (cases xs) (auto simp: chain_ok_def)
  moreover obtain t c' where "skip_clusters k s1 n = (t, Some c')" "follow k s1 n = (t, c')" "fat_inv t"
      "fat_eq s1 t" "chain_ok t c' (drop k xs)"
    using Suc.IH [OF get(2) chain_ok_eq [OF get(3) c(3)]] Suc.prems(3) get(1) cs by auto
  ultimately show ?case using g fat_eq_trans [OF get(3)] by (auto simp: cs)
qed

lemma cluster_size_nat: "unat (cluster_size s) = 512 * unat (sectors_per_cluster s)"
proof -
  have "unat (sectors_per_cluster s) < 2 ^ LENGTH(8)" by (rule unsigned_less)
  moreover have "unat (ucast (sectors_per_cluster s) :: u32) = unat (sectors_per_cluster s)"
    by (simp add: unat_ucast_up)
  ultimately show ?thesis
    unfolding cluster_size_def by (subst unat_mult_nowrap) simp_all
qed

section \<open>Reading delivers the contents\<close>

definition start_of :: "u32 \<Rightarrow> u32 \<Rightarrow> nat" where
  "start_of offset_in_cluster bytes = (if bytes = 0 then unat offset_in_cluster mod 512 else 0)"

lemma start_of_less: "start_of oic b < 512"
  by (simp add: start_of_def)

text \<open>The length of one step, without words: what fits in the sector, at most what is left.\<close>

lemma step_length:
  fixes len :: u64 and br oic :: u32
  assumes len: "unat len < 2 ^ 32" and br: "unat br < unat len"
  defines "room \<equiv> 512 - (if br = 0 then oic mod 512 else 0)"
  defines "n \<equiv> (if len - ucast br < ucast room then ucast (len - ucast br) else room)"
  shows "unat n = min (unat len - unat br) (512 - start_of oic br)"
    and "unat (if br = 0 then oic mod 512 else 0) = start_of oic br"
    and "unat (br + n) = unat br + unat n" and "n \<noteq> 0"
proof -
  show st: "unat (if br = 0 then oic mod 512 else 0) = start_of oic br"
    by (simp add: start_of_def unat_mod)
  have "(if br = 0 then oic mod 512 else 0) \<le> 512"
    using st start_of_less [of oic br] by (simp add: word_le_nat_alt)
  then have room: "unat room = 512 - start_of oic br"
    unfolding room_def using st by (subst unat_diff_nowrap) simp_all
  have ub: "unat (ucast br :: u64) = unat br" by (simp add: unat_ucast_up)
  have d: "unat (len - ucast br) = unat len - unat br"
    using br ub by (subst unat_diff_nowrap) (simp_all add: word_le_nat_alt)
  have ur: "unat (ucast room :: u64) = unat room" by (simp add: unat_ucast_up)
  show n: "unat n = min (unat len - unat br) (512 - start_of oic br)"
    using len by (auto simp: n_def word_less_nat_alt d ur room unat_ucast_mod)
  show "unat (br + n) = unat br + unat n"
    using len br n by (subst unat_add_nowrap) simp_all
  show "n \<noteq> 0" using n br start_of_less [of oic br] by (auto simp: unat_eq_0 [symmetric])
qed

lemma ucast_less_nat: "ucast (br :: u32) < (len :: u64) \<longleftrightarrow> unat br < unat len"
  by (simp add: word_less_nat_alt unat_ucast_up)

lemma read_step_bytes:
  assumes "unat len < 2 ^ 32" and "unat br \<le> unat len" and "length buf = 512"
  shows "read_step len oic buf (br, dest) =
    (let x = take (unat len - unat br) (drop (start_of oic br) buf)
     in (br + of_nat (length x), dest @ x))"
proof (cases "unat br < unat len")
  case False
  then show ?thesis using assms(2) by (simp add: read_step_def ucast_less_nat)
next
  case True
  note n = step_length [OF assms(1) True, of oic]
  define nn where "nn = (if len - ucast br < ucast (512 - (if br = 0 then oic mod 512 else 0))
    then ucast (len - ucast br) else 512 - (if br = 0 then oic mod 512 else 0))"
  have r: "read_step len oic buf (br, dest) = (br + nn, dest @ slice_at buf (start_of oic br) (unat nn))"
    using True n(2) by (simp add: read_step_def ucast_less_nat nn_def Let_def)
  have un: "unat nn = min (unat len - unat br) (512 - start_of oic br)" using n(1) by (simp add: nn_def)
  have "slice_at buf (start_of oic br) (unat nn) = take (unat len - unat br) (drop (start_of oic br) buf)"
    using assms(3) by (simp add: slice_at_def un min_def)
  moreover have "nn = of_nat (length (take (unat len - unat br) (drop (start_of oic br) buf)))"
    using assms(3) un by (simp add: word_unat_eq_iff unat_of_nat)
  ultimately show ?thesis using r by (simp add: Let_def)
qed

lemma read_all:
  "\<forall>b \<in> set bufs. length b = 512 \<Longrightarrow> unat len < 2 ^ 32 \<Longrightarrow> unat br \<le> unat len \<Longrightarrow>
   fold (read_step len oic) bufs (br, dest) =
     (let x = take (unat len - unat br) (drop (start_of oic br) (concat bufs))
      in (br + of_nat (length x), dest @ x)) \<and>
   unat (br + of_nat (length (take (unat len - unat br) (drop (start_of oic br) (concat bufs))))) =
     unat br + length (take (unat len - unat br) (drop (start_of oic br) (concat bufs)))"
proof (induction bufs arbitrary: br dest)
  case Nil
  then show ?case by simp
next
  case (Cons b bs)
  let ?st = "start_of oic br" and ?n = "unat len - unat br"
  let ?x = "take ?n (drop ?st b)"
  let ?br = "br + of_nat (length ?x)"
  have b: "length b = 512" "\<forall>b \<in> set bs. length b = 512" using Cons.prems by simp_all
  have lx: "length ?x \<le> ?n" by simp
  have ubr: "unat ?br = unat br + length ?x"
    using lx Cons.prems(2,3) by (subst unat_add_nowrap) (simp_all add: unat_of_nat)
  then have le: "unat ?br \<le> unat len" using lx Cons.prems(3) by simp
  let ?y = "take (unat len - unat ?br) (drop (start_of oic ?br) (concat bs))"
  have IH: "fold (read_step len oic) bs (?br, dest @ ?x) = (?br + of_nat (length ?y), (dest @ ?x) @ ?y)"
    "unat (?br + of_nat (length ?y)) = unat ?br + length ?y"
    using Cons.IH [OF b(2) Cons.prems(2) le, of "dest @ ?x"] by (simp_all add: Let_def)
  have xy: "take ?n (drop ?st (concat (b # bs))) = ?x @ ?y"
  proof (cases "?n = 0")
    case True
    then show ?thesis using ubr by simp
  next
    case False
    have "length ?x \<noteq> 0" using False b(1) start_of_less [of oic br] by simp
    then have "?br \<noteq> 0" using ubr by (metis add_is_0 unat_eq_0)
    then have "start_of oic ?br = 0" by (simp add: start_of_def)
    moreover have "unat len - unat ?br = ?n - (512 - ?st)"
      unfolding ubr using b(1) by (auto simp: min_def)
    moreover have "drop ?st (concat (b # bs)) = drop ?st b @ concat bs"
      using b(1) start_of_less [of oic br] by simp
    ultimately show ?thesis using b(1) by simp
  qed
  have step: "read_step len oic b (br, dest) = (?br, dest @ ?x)"
    using read_step_bytes [OF Cons.prems(2,3) b(1), of oic dest] by (simp only: Let_def)
  have sum: "br + of_nat (length (?x @ ?y)) = ?br + of_nat (length ?y)"
    by (simp only: length_append of_nat_add add.assoc)
  have "fold (read_step len oic) (b # bs) (br, dest) = fold (read_step len oic) bs (?br, dest @ ?x)"
    by (simp only: fold_simps step)
  also have "\<dots> = (br + of_nat (length (?x @ ?y)), dest @ (?x @ ?y))"
    by (subst sum) (simp only: IH(1) append_assoc)
  finally have one: "fold (read_step len oic) (b # bs) (br, dest) = \<dots>" .
  have "unat (br + of_nat (length (?x @ ?y))) = unat ?br + length ?y"
    by (subst sum) (rule IH(2))
  also have "\<dots> = unat br + length (?x @ ?y)" by (subst ubr) (simp only: length_append add.assoc)
  finally show ?case unfolding xy Let_def using one by blast
qed


lemma fold_map_arg: "fold f (map g xs) a = fold (\<lambda>x. f (g x)) xs a"
  by (induction xs arbitrary: a) auto

lemma read_cluster_fold:
  "read_cluster len oic s c st = fold (read_step len oic) (map (disk_read (disk s)) (file_sectors s [c])) st"
  by (simp add: read_cluster_def Let_def fold_map_arg comp_def)

lemma read_cluster_bytes:
  assumes "fat_inv s" and "unat len < 2 ^ 32" and "unat br \<le> unat len"
  shows "read_cluster len oic s c (br, dest) =
      (let x = take (unat len - unat br) (drop (start_of oic br) (file_data s [c]))
       in (br + of_nat (length x), dest @ x))"
    and "unat (br + of_nat (length (take (unat len - unat br) (drop (start_of oic br) (file_data s [c]))))) =
      unat br + length (take (unat len - unat br) (drop (start_of oic br) (file_data s [c])))"
proof -
  have "\<forall>b \<in> set (map (disk_read (disk s)) (file_sectors s [c])). length b = 512"
    using assms(1) by (auto simp: disk_read_def fat_inv_lengths)
  note r = read_all [OF this assms(2,3), of oic, folded file_data_def]
  show "read_cluster len oic s c (br, dest) =
      (let x = take (unat len - unat br) (drop (start_of oic br) (file_data s [c]))
       in (br + of_nat (length x), dest @ x))"
    unfolding read_cluster_fold using r by blast
  show "unat (br + of_nat (length (take (unat len - unat br) (drop (start_of oic br) (file_data s [c]))))) =
      unat br + length (take (unat len - unat br) (drop (start_of oic br) (file_data s [c])))"
    using r by blast
qed

lemma vfs_read_loop_bytes:
  assumes "unat len < 2 ^ 32"
  shows "fat_inv s \<Longrightarrow> chain_ok s c cs \<Longrightarrow> sectors_per_cluster s \<noteq> 0 \<Longrightarrow> unat br \<le> unat len \<Longrightarrow>
    \<exists>t n. vfs_read_loop len oic s c (br, dest) =
      Some (t, n, dest @ take (unat len - unat br) (drop (start_of oic br) (file_data s cs))) \<and>
      unat n = unat br + length (take (unat len - unat br) (drop (start_of oic br) (file_data s cs))) \<and>
      fat_inv t \<and> fat_eq s t"
proof (induction cs arbitrary: s c br dest)
  case Nil
  then have "\<not> c < FAT32_EOC_MARKER" by (auto simp: chain_ok_def)
  with Nil show ?case by (subst vfs_read_loop.simps) (simp add: file_data_def)
next
  case (Cons y ys)
  have c: "y = c" "c < FAT32_EOC_MARKER" "in_fat s c" "chain_ok s (fat_of s c) ys"
    using Cons.prems(2) by (auto simp: chain_ok_def)
  show ?case
  proof (cases "unat br < unat len")
    case False
    then show ?thesis
      using Cons.prems(1,4) by (subst vfs_read_loop.simps) (simp add: ucast_less_nat)
  next
    case True
    let ?A = "file_data s [c]" and ?st = "start_of oic br" and ?n = "unat len - unat br"
    define x where "x = take ?n (drop ?st ?A)"
    define br' where "br' = br + of_nat (length x)"
    have step: "read_cluster len oic s c (br, dest) = (br', dest @ x)"
      using read_cluster_bytes(1) [OF Cons.prems(1) assms Cons.prems(4), of oic c dest]
      by (simp only: Let_def br'_def x_def)
    have ubr: "unat br' = unat br + length x"
      using read_cluster_bytes(2) [OF Cons.prems(1) assms Cons.prems(4), of oic c]
      by (simp only: br'_def x_def)
    have lA: "length ?A = 512 * unat (sectors_per_cluster s)"
      using length_file_data [OF Cons.prems(1), of "[c]"] by simp
    moreover have spc: "1 \<le> unat (sectors_per_cluster s)"
      using Cons.prems(3) by (simp add: Suc_le_eq unat_gt_0)
    ultimately have st: "?st < length ?A" using start_of_less [of oic br] by linarith
    have le: "unat br' \<le> unat len" unfolding ubr using Cons.prems(4) by (simp add: x_def)
    have "length x \<noteq> 0" using True st by (simp add: x_def)
    then have "br' \<noteq> 0" using ubr by (metis add_is_0 unat_eq_0)
    then have st': "start_of oic br' = 0" by (simp add: start_of_def)
    obtain s1 w where g: "get_next_cluster s c = (s1, w)" by fastforce
    note get = get_next_cluster_spec [OF Cons.prems(1) c(3) g]
    have data: "file_data s1 ys = file_data s ys"
      using c(4) by (intro file_data_eq [OF get(3)]) (simp add: chain_ok_def)
    have "sectors_per_cluster s1 \<noteq> 0" using Cons.prems(3) fat_eq_geom [OF get(3)] by simp
    then obtain t n where t: "vfs_read_loop len oic s1 (fat_of s c) (br', dest @ x) =
        Some (t, n, (dest @ x) @ take (unat len - unat br') (file_data s ys))"
        "unat n = unat br' + length (take (unat len - unat br') (file_data s ys))" "fat_inv t" "fat_eq s1 t"
      using Cons.IH [OF get(2) chain_ok_eq [OF get(3) c(4)] _ le, of "dest @ x"] data st' by auto
    have "drop ?st (file_data s (y # ys)) = drop ?st ?A @ file_data s ys"
      using st by (simp add: file_data_def c(1))
    moreover have "unat len - unat br' = ?n - length (drop ?st ?A)"
      unfolding ubr using st by (auto simp: x_def min_def)
    ultimately have xy: "take ?n (drop ?st (file_data s (y # ys))) =
        x @ take (unat len - unat br') (file_data s ys)"
      by (simp add: x_def)
    have "vfs_read_loop len oic s c (br, dest) = vfs_read_loop len oic s1 (fat_of s c) (br', dest @ x)"
      using True c(2) g get(1) step by (subst vfs_read_loop.simps) (simp add: ucast_less_nat)
    then show ?thesis
      unfolding xy using t ubr fat_eq_trans [OF get(3) t(4)] by (intro exI [of _ t] exI [of _ n]) simp
  qed
qed

text \<open>
  The condition that every correct read and write needs: the offset lies in the first sector of its
  cluster.  The code starts at the cluster's first sector whatever the offset, so on volumes with
  more than one sector per cluster the other offsets address the wrong sector.
\<close>
definition offset_ok :: "fatfs \<Rightarrow> u64 \<Rightarrow> bool" where
  "offset_ok s offset \<longleftrightarrow> unat offset mod unat (cluster_size s) < 512"

lemma cluster_size_pos: "sectors_per_cluster s \<noteq> 0 \<Longrightarrow> cluster_size s \<noteq> 0"
  using cluster_size_nat [of s] by (auto simp: unat_eq_0)

lemma offset_ok_single: "sectors_per_cluster s = 1 \<Longrightarrow> offset_ok s offset"
  by (simp add: offset_ok_def cluster_size_nat)

lemma offset_parts:
  fixes offset :: u64
  assumes "unat offset < 2 ^ 32" and "sectors_per_cluster s \<noteq> 0"
  defines "n \<equiv> 512 * unat (sectors_per_cluster s)"
  shows "unat (ucast (offset div ucast (cluster_size s)) :: u32) = unat offset div n"
    and "unat (ucast (offset mod ucast (cluster_size s)) :: u32) = unat offset mod n"
proof -
  have u: "unat (ucast (cluster_size s) :: u64) = n"
    by (simp add: unat_ucast_up cluster_size_nat n_def)
  have "unat offset div n < 2 ^ 32" using assms(1) by (meson div_le_dividend le_less_trans)
  then show "unat (ucast (offset div ucast (cluster_size s)) :: u32) = unat offset div n"
    by (subst unat_ucast_mod) (simp add: unat_div u)
  have "unat offset mod n < 2 ^ 32" using assms(1) by (meson mod_less_eq_dividend le_less_trans)
  then show "unat (ucast (offset mod ucast (cluster_size s)) :: u32) = unat offset mod n"
    by (subst unat_ucast_mod) (simp add: unat_mod u)
qed

text \<open>Where the code reads from: the offset's cluster, but always its first sector.\<close>
definition effective_offset :: "fatfs \<Rightarrow> u64 \<Rightarrow> nat" where
  "effective_offset s offset =
     (let n = unat (cluster_size s) in unat offset div n * n + unat offset mod n mod 512)"

lemma effective_offset_ok: "offset_ok s offset \<Longrightarrow> effective_offset s offset = unat offset"
  by (simp add: effective_offset_def offset_ok_def Let_def)

lemma effective_offset_le: "effective_offset s offset \<le> unat offset"
proof -
  have "unat offset mod n mod 512 \<le> unat offset mod n" for n by simp
  then have "unat offset div n * n + unat offset mod n mod 512 \<le> unat offset" for n
    by (metis add_le_cancel_left div_mult_mod_eq)
  then show ?thesis by (simp add: effective_offset_def Let_def)
qed

lemma vfs_read_spec:
  assumes inv: "fat_inv s" and ok: "chain_ok s (ino node) cs" and spc: "sectors_per_cluster s \<noteq> 0"
    and fits: "unat (i_size node) \<le> length (file_data s cs)"
    and off: "unat offset < unat (i_size node)" "unat offset + unat len < 2 ^ 64"
  shows "\<exists>t. fat32_vfs_read s (Some node) False len offset =
      Some (t, slice_at (file_data s cs) (effective_offset s offset) (min (unat len) (unat (i_size node) - unat offset)),
            int (min (unat len) (unat (i_size node) - unat offset))) \<and> fat_inv t \<and> fat_eq s t"
proof -
  let ?n = "512 * unat (sectors_per_cluster s)" and ?k = "unat offset div (512 * unat (sectors_per_cluster s))"
  let ?oic = "ucast (offset mod ucast (cluster_size s)) :: u32"
  have npos: "0 < ?n" using spc by (simp add: unat_gt_0)
  have sz: "unat (i_size node) < 2 ^ LENGTH(32)" by (rule unsigned_less)
  then have off32: "unat offset < 2 ^ 32" using off(1) by simp
  note parts = offset_parts [OF off32 spc]
  have lcs: "length (file_data s cs) = ?n * length cs"
    using length_file_data [OF inv, of cs] by (simp add: mult.commute mult.left_commute)
  then have k: "?k < length cs"
    using off(1) fits npos by (simp add: less_mult_imp_div_less mult.commute)
  obtain s1 c' where s1: "skip_clusters ?k s (ino node) = (s1, Some c')" "fat_inv s1" "fat_eq s s1"
      "chain_ok s1 c' (drop ?k cs)"
    using skip_clusters_spec [OF inv ok k] by blast
  define len' where "len' = (if ucast (i_size node) < offset + len then ucast (i_size node) - offset else len)"
  have usz: "unat (ucast (i_size node) :: u64) = unat (i_size node)" by (simp add: unat_ucast_up)
  have "unat (offset + len) = unat offset + unat len" using off(2) by (simp add: unat_add_nowrap)
  then have len': "unat len' = min (unat len) (unat (i_size node) - unat offset)"
    using off(1) usz by (auto simp: len'_def word_less_nat_alt unat_diff_nowrap word_le_nat_alt)
  then have len32: "unat len' < 2 ^ 32" using sz by simp
  have start: "start_of ?oic 0 = unat offset mod ?n mod 512"
    using parts(2) by (simp add: start_of_def)
  have d: "list_all (data_ok s) (drop ?k cs)"
    using ok by (auto simp: chain_ok_def list_all_iff dest: in_set_dropD)
  have data: "drop (start_of ?oic 0) (file_data s1 (drop ?k cs)) = drop (effective_offset s offset) (file_data s cs)"
    unfolding file_data_eq [OF s1(3) d] file_data_drop [OF inv] start drop_drop
    by (simp only: effective_offset_def Let_def cluster_size_nat add.commute)
  have "sectors_per_cluster s1 \<noteq> 0" using spc fat_eq_geom [OF s1(3)] by simp
  then obtain t n where t: "vfs_read_loop len' ?oic s1 c' (0, []) =
      Some (t, n, take (unat len') (drop (effective_offset s offset) (file_data s cs)))"
      "unat n = length (take (unat len') (drop (effective_offset s offset) (file_data s cs)))" "fat_inv t" "fat_eq s1 t"
    using vfs_read_loop_bytes [OF len32 s1(2,4), of 0 ?oic "[]"] data by auto
  have ln: "length (take (unat len') (drop (effective_offset s offset) (file_data s cs))) = unat len'"
    using len' fits off(1) effective_offset_le [of s offset] by simp
  then have "unat n = unat len'" using t(2) by (simp only:)
  then have "uint n = uint len'" by (simp only: uint_nat)
  moreover have "\<not> ucast (i_size node) \<le> offset" using off(1) usz by (simp add: word_le_nat_alt)
  ultimately have "fat32_vfs_read s (Some node) False len offset =
      Some (t, take (unat len') (drop (effective_offset s offset) (file_data s cs)), int (unat len'))"
    using s1(1) t(1) parts(1) cluster_size_pos [OF spc] by (simp add: fat32_vfs_read_def Let_def flip: len'_def)
  then show ?thesis
    using t(3) fat_eq_trans [OF s1(3) t(4)] by (simp add: slice_at_def len')
qed


section \<open>Writing replaces the contents\<close>

text \<open>States with the same geometry and the same FAT entries (their data sectors may differ).\<close>
definition fat_same :: "fatfs \<Rightarrow> fatfs \<Rightarrow> bool" where
  "fat_same s t \<longleftrightarrow>
     fat_start_lba t = fat_start_lba s \<and> data_start_lba t = data_start_lba s \<and>
     sectors_per_cluster t = sectors_per_cluster s \<and> (\<forall>c. in_fat s c \<longrightarrow> raw_of t c = raw_of s c)"

lemma fat_same_refl [simp]: "fat_same s s" by (simp add: fat_same_def)

lemma fat_eq_same: "fat_eq s t \<Longrightarrow> fat_same s t"
  by (simp add: fat_eq_def fat_same_def)

lemma fat_same_in: "fat_same s t \<Longrightarrow> in_fat t c = in_fat s c"
  by (intro in_fat_cong) (simp_all add: fat_same_def)

lemma fat_same_trans [trans]: "fat_same s t \<Longrightarrow> fat_same t u \<Longrightarrow> fat_same s u"
  using fat_same_in [of s t] by (auto simp: fat_same_def)

lemma fat_same_chain: "fat_same s t \<Longrightarrow> chain_ok s c cs \<Longrightarrow> chain_ok t c cs"
proof -
  assume s: "fat_same s t" and c: "chain_ok s c cs"
  then have ch: "fat_chain s c cs" by (simp add: chain_ok_def)
  have "fat_chain t c cs"
    by (rule fat_chain_cong [OF ch])
      (use s fat_chain_members [OF ch] fat_same_in [OF s] in \<open>auto simp: fat_of_def fat_same_def\<close>)
  moreover have "data_ok t = data_ok s" by (rule ext) (use s in \<open>simp add: data_ok_def fat_same_def\<close>)
  ultimately show ?thesis using c by (simp add: chain_ok_def)
qed

lemma fat_same_data_ok: "fat_same s t \<Longrightarrow> data_ok t = data_ok s"
  by (rule ext) (simp add: data_ok_def fat_same_def)

lemma fat_same_sectors: "fat_same s t \<Longrightarrow> file_sectors t = file_sectors s"
  by (intro file_sectors_cong) (simp_all add: fat_same_def)

lemma put_sector_same:
  "fat_inv s \<Longrightarrow> lba_ok l \<Longrightarrow> data_start_lba s \<le> l \<Longrightarrow> fat_same s (put_sector s l buf)"
  by (simp add: fat_same_def put_sector_fat)

lemma put_bytes_append:
  assumes "st < length A"
  shows "put_bytes (A @ B) st (take (length A + length B - st) v) =
    put_bytes A st (take (length A - st) v) @ put_bytes B 0 (take (length B) (drop (length A - st) v))"
proof (cases "length v \<le> length A - st")
  case True
  then have "take (length A + length B - st) v = v" "st + length v \<le> length A" using assms by simp_all
  with True show ?thesis by (simp add: put_bytes_def)
next
  case False
  have "take (length A + length B - st) v = take (length A - st) v @ take (length B) (drop (length A - st) v)"
  proof -
    have "length A + length B - st = (length A - st) + length B" using assms by simp
    then show ?thesis by (simp add: take_add)
  qed
  moreover have "length (take (length A - st) v) = length A - st" using False by simp
  ultimately show ?thesis using assms False by (simp add: put_bytes_def)
qed

lemma put_bytes_Nil [simp]: "put_bytes bs off [] = bs"
  by (simp add: put_bytes_def)

lemma put_sector_id: "lba_ok l \<Longrightarrow> put_sector s l (disk s l) = s"
  by (simp add: put_sector_def disk_write_def)

lemma write_step_bytes:
  assumes "fat_inv s" and l: "lba_ok l" and len: "unat len < 2 ^ 32" and src: "length src = unat len"
    and bw: "unat bw \<le> unat len"
  shows "write_step len oic src l (s, bw) =
    (let w = take (512 - start_of oic bw) (drop (unat bw) src)
     in (put_sector s l (put_bytes (disk s l) (start_of oic bw) w), bw + of_nat (length w)))"
proof (cases "unat bw < unat len")
  case False
  then have "drop (unat bw) src = []" using bw src by simp
  then show ?thesis using False l by (simp add: write_step_def ucast_less_nat put_sector_id)
next
  case True
  note n = step_length [OF len True, of oic]
  define nn where "nn = (if len - ucast bw < ucast (512 - (if bw = 0 then oic mod 512 else 0))
    then ucast (len - ucast bw) else 512 - (if bw = 0 then oic mod 512 else 0))"
  have un: "unat nn = min (unat len - unat bw) (512 - start_of oic bw)" using n(1) by (simp add: nn_def)
  have chunk: "slice_at src (unat bw) (unat nn) = take (512 - start_of oic bw) (drop (unat bw) src)" (is "_ = ?w")
    using src by (auto simp: slice_at_def un min_def)
  have lw: "length ?w = unat nn" using src by (simp add: un min.commute)
  have "nn = of_nat (length ?w)" by (simp only: lw of_nat_unat ucast_id)
  moreover have "(if nn < 512 then put_bytes (disk s l) (start_of oic bw) ?w else ?w) =
      put_bytes (disk s l) (start_of oic bw) ?w"
  proof (cases "nn < 512")
    case False
    then have "512 \<le> unat nn" by (simp add: word_less_nat_alt)
    then have "512 \<le> 512 - start_of oic bw" "512 \<le> unat len - unat bw" using un by simp_all
    then have st: "start_of oic bw = 0" using start_of_less [of oic bw] by arith
    moreover have "length ?w = 512" using lw un \<open>512 \<le> unat len - unat bw\<close> by (simp only: st min_def) simp
    ultimately have "start_of oic bw = 0" "length ?w = 512" by simp_all
    then show ?thesis using False assms(1) by (simp add: put_bytes_def fat_inv_lengths)
  qed simp
  moreover have "write_step len oic src l (s, bw) =
      (put_sector s l (if nn < 512 then put_bytes (disk s l) (start_of oic bw) (slice_at src (unat bw) (unat nn))
                       else slice_at src (unat bw) (unat nn)), bw + nn)"
    using True n(2) l
    by (simp add: write_step_def ucast_less_nat disk_read_def Let_def flip: nn_def)
  ultimately show ?thesis unfolding Let_def chunk by (simp only:)
qed

lemma write_all:
  assumes len: "unat len < 2 ^ 32" and src: "length src = unat len"
  shows "fat_inv s \<Longrightarrow> distinct ls \<Longrightarrow> \<forall>l \<in> set ls. lba_ok l \<and> data_start_lba s \<le> l \<Longrightarrow> unat bw \<le> unat len \<Longrightarrow>
    \<exists>t n. fold (write_step len oic src) ls (s, bw) = (t, n) \<and> fat_inv t \<and> fat_same s t \<and>
      unat n = unat bw + length (take (512 * length ls - start_of oic bw) (drop (unat bw) src)) \<and>
      concat (map (disk t) ls) = put_bytes (concat (map (disk s) ls)) (start_of oic bw)
        (take (512 * length ls - start_of oic bw) (drop (unat bw) src)) \<and>
      (\<forall>l. l \<notin> set ls \<longrightarrow> disk t l = disk s l)"
proof (induction ls arbitrary: s bw)
  case Nil
  then show ?case by simp
next
  case (Cons l ls)
  let ?st = "start_of oic bw"
  define w where "w = take (512 - ?st) (drop (unat bw) src)"
  define s' where "s' = put_sector s l (put_bytes (disk s l) ?st w)"
  define bw' where "bw' = bw + of_nat (length w)"
  have l: "lba_ok l" "data_start_lba s \<le> l" and ls: "l \<notin> set ls" "distinct ls" using Cons.prems by simp_all
  have dl: "length (disk s l) = 512" using Cons.prems(1) by (rule fat_inv_lengths)
  have lw: "length w \<le> unat len - unat bw" "?st + length w \<le> 512"
    using src start_of_less [of oic bw] by (auto simp: w_def)
  have ubw: "unat bw' = unat bw + length w"
    using lw(1) len Cons.prems(4) unfolding bw'_def by (subst unat_add_nowrap) (simp_all add: unat_of_nat)
  have step: "write_step len oic src l (s, bw) = (s', bw')"
    using write_step_bytes [OF Cons.prems(1) l(1) len src Cons.prems(4), of oic]
    by (simp only: Let_def w_def s'_def bw'_def)
  have s': "fat_inv s'" "fat_same s s'"
    using put_sector_inv [OF Cons.prems(1) l] put_sector_same [OF Cons.prems(1) l] dl lw(2)
    by (simp_all add: s'_def)
  have le: "unat bw' \<le> unat len" using ubw lw(1) Cons.prems(4) by simp
  have okls: "\<forall>l \<in> set ls. lba_ok l \<and> data_start_lba s' \<le> l" using Cons.prems(3) by (simp add: s'_def)
  have ds: "disk s' m = disk s m" if "m \<noteq> l" for m using that l(1) by (simp add: s'_def put_sector_disk)
  have dsl: "disk s' l = put_bytes (disk s l) ?st w" using l(1) by (simp add: s'_def put_sector_disk)
  define B where "B = concat (map (disk s) ls)"
  have "disk s' m = disk s m" if "m \<in> set ls" for m using that ls(1) by (intro ds) auto
  then have B: "concat (map (disk s') ls) = B" unfolding B_def
    by (intro arg_cong [where f = concat] map_cong) auto
  have lB: "length B = 512 * length ls"
    unfolding B_def by (subst length_concat_const [where n = 512]) (use Cons.prems(1) in \<open>auto simp: fat_inv_lengths\<close>)
  define w2 where "w2 = take (512 * length ls - start_of oic bw') (drop (unat bw') src)"
  obtain t n where t: "fold (write_step len oic src) ls (s', bw') = (t, n)" "fat_inv t" "fat_same s' t"
      "unat n = unat bw' + length w2" "concat (map (disk t) ls) = put_bytes B (start_of oic bw') w2"
      "\<forall>m. m \<notin> set ls \<longrightarrow> disk t m = disk s' m"
    using Cons.IH [OF s'(1) ls(2) okls le] unfolding B w2_def by blast
  define v where "v = drop (unat bw) src"
  have w: "w = take (512 - ?st) v" by (simp add: w_def v_def)
  have w2: "w2 = take (length B) (drop (512 - ?st) v) \<and> put_bytes B (start_of oic bw') w2 = put_bytes B 0 w2"
  proof (cases "w = []")
    case True
    then have "v = []" using start_of_less [of oic bw] w by simp
    then show ?thesis using True ubw by (simp add: w2_def v_def)
  next
    case False
    then have "bw' \<noteq> 0" using ubw by (metis add_is_0 length_0_conv unat_eq_0)
    then have st': "start_of oic bw' = 0" by (simp add: start_of_def)
    have "drop (unat bw') src = drop (512 - ?st) v"
    proof (cases "length v \<le> 512 - ?st")
      case True
      then have "w = v" by (simp add: w)
      then have "length src \<le> unat bw'" using ubw Cons.prems(4) src by (simp add: v_def)
      then show ?thesis using True by simp
    next
      case False
      then have "length w = 512 - ?st" by (simp add: w)
      then show ?thesis using ubw by (simp add: v_def add.commute)
    qed
    then show ?thesis using st' by (simp add: w2_def lB)
  qed
  have total: "take (512 * length (l # ls) - ?st) v = w @ w2"
  proof -
    have "512 * length (l # ls) - ?st = (512 - ?st) + length B" using lB start_of_less [of oic bw] by simp
    then show ?thesis using w2 by (simp add: take_add w)
  qed
  have dtl: "disk t l = put_bytes (disk s l) ?st w" using t(6) ls(1) dsl by simp
  have "put_bytes (disk s l @ B) ?st (take (length (disk s l) + length B - ?st) v) =
      put_bytes (disk s l) ?st w @ put_bytes B 0 w2"
    using put_bytes_append [of ?st "disk s l" B v] start_of_less [of oic bw] dl w2 by (simp add: w)
  moreover have "take (length (disk s l) + length B - ?st) v = w @ w2" using total dl lB by simp
  ultimately have "put_bytes (disk s l @ B) ?st (w @ w2) = put_bytes (disk s l) ?st w @ put_bytes B 0 w2"
    by (simp only:)
  then have "concat (map (disk t) (l # ls)) = put_bytes (concat (map (disk s) (l # ls))) ?st (w @ w2)"
    using t(5) conjunct2 [OF w2] dtl by (simp flip: B_def)
  moreover have "\<forall>m. m \<notin> set (l # ls) \<longrightarrow> disk t m = disk s m" using t(6) ds by simp
  moreover have "fold (write_step len oic src) (l # ls) (s, bw) = (t, n)" using step t(1) by simp
  moreover have "unat n = unat bw + length (w @ w2)" using t(4) ubw by simp
  ultimately show ?case
    unfolding total [unfolded v_def] using t(2) fat_same_trans [OF s'(2) t(3)] by blast
qed


lemma distinct_file_sectors:
  assumes "list_all (data_ok s) cs" and "distinct cs"
  shows "distinct (file_sectors s cs)"
  unfolding file_sectors_def
proof (rule distinct_concat_map [OF assms(2)])
  fix c assume "c \<in> set cs"
  then have c: "data_ok s c" using assms(1) by (simp add: list_all_iff)
  show "distinct (map (\<lambda>i. cluster_to_lba s c + of_nat i) [0..<unat (sectors_per_cluster s)])"
    using cluster_lba_inj [OF c c] by (auto simp: distinct_map inj_on_def)
  fix d assume "d \<in> set cs" "c \<noteq> d"
  moreover from this have "data_ok s d" using assms(1) by (simp add: list_all_iff)
  ultimately have "cluster_sectors s c \<inter> cluster_sectors s d = {}"
    using cluster_sectors_disjoint [OF c] by blast
  then show "set (map (\<lambda>i. cluster_to_lba s c + of_nat i) [0..<unat (sectors_per_cluster s)]) \<inter>
      set (map (\<lambda>i. cluster_to_lba s d + of_nat i) [0..<unat (sectors_per_cluster s)]) = {}"
    by (simp add: cluster_sectors_def atLeast0LessThan)
qed

lemma file_data_disk:
  "list_all (data_ok s) cs \<Longrightarrow> file_data s cs = concat (map (disk s) (file_sectors s cs))"
  unfolding file_data_def
  by (intro arg_cong [where f = concat] map_cong) (auto simp: disk_read_def dest: file_sectors_ok)

lemma file_data_append: "file_data s (xs @ ys) = file_data s xs @ file_data s ys"
  by (simp add: file_data_def file_sectors_def)

lemma file_data_cong:
  assumes "fat_same s t" and "list_all (data_ok s) cs" and "\<forall>l \<in> set (file_sectors s cs). disk t l = disk s l"
  shows "file_data t cs = file_data s cs"
  unfolding file_data_def fat_same_sectors [OF assms(1)]
  using assms(3) file_sectors_ok [OF assms(2)]
  by (intro arg_cong [where f = concat] map_cong) (auto simp: disk_read_def)

lemma write_cluster_fold:
  "write_cluster len oic src c (s, bw) = fold (write_step len oic src) (file_sectors s [c]) (s, bw)"
  by (simp add: write_cluster_def Let_def fold_map_arg comp_def)

lemma write_cluster_bytes:
  assumes len: "unat len < 2 ^ 32" and src: "length src = unat len" and inv: "fat_inv s"
    and ok: "data_ok s c" and bw: "unat bw \<le> unat len" and spc: "sectors_per_cluster s \<noteq> 0"
  shows "\<exists>t n. write_cluster len oic src c (s, bw) = (t, n) \<and> fat_inv t \<and> fat_same s t \<and>
      unat n = unat bw + length (take (length (file_data s [c]) - start_of oic bw) (drop (unat bw) src)) \<and>
      file_data t [c] = put_bytes (file_data s [c]) (start_of oic bw)
        (take (length (file_data s [c]) - start_of oic bw) (drop (unat bw) src)) \<and>
      (\<forall>l. l \<notin> set (file_sectors s [c]) \<longrightarrow> disk t l = disk s l)"
proof -
  let ?ls = "file_sectors s [c]"
  have d: "list_all (data_ok s) [c]" using ok by simp
  have lss: "distinct ?ls" "\<forall>l \<in> set ?ls. lba_ok l \<and> data_start_lba s \<le> l"
    using distinct_file_sectors [OF d] file_sectors_ok [OF d] by simp_all
  have lA: "length (file_data s [c]) = 512 * length ?ls"
    using length_file_data [OF inv, of "[c]"] by simp
  obtain t n where t: "fold (write_step len oic src) ?ls (s, bw) = (t, n)" "fat_inv t" "fat_same s t"
      "unat n = unat bw + length (take (length (file_data s [c]) - start_of oic bw) (drop (unat bw) src))"
      "concat (map (disk t) ?ls) = put_bytes (concat (map (disk s) ?ls)) (start_of oic bw)
        (take (length (file_data s [c]) - start_of oic bw) (drop (unat bw) src))"
      "\<forall>l. l \<notin> set ?ls \<longrightarrow> disk t l = disk s l"
    using write_all [OF len src inv lss bw, of oic] unfolding lA by blast
  have "data_ok t = data_ok s" using t(3) by (intro ext) (simp add: data_ok_def fat_same_def)
  then have "file_data t [c] = concat (map (disk t) ?ls)"
    using file_data_disk [of t "[c]"] d fat_same_sectors [OF t(3)] by simp
  then have "file_data t [c] = put_bytes (file_data s [c]) (start_of oic bw)
        (take (length (file_data s [c]) - start_of oic bw) (drop (unat bw) src))"
    using t(5) file_data_disk [OF d] by (simp only:)
  then show ?thesis using t(1-4,6) unfolding write_cluster_fold by blast
qed

lemma vfs_write_loop_bytes:
  assumes len: "unat len < 2 ^ 32" and src: "length src = unat len"
  shows "fat_inv s \<Longrightarrow> chain_ok s c cs \<Longrightarrow> sectors_per_cluster s \<noteq> 0 \<Longrightarrow> unat bw \<le> unat len \<Longrightarrow>
    \<exists>t n. vfs_write_loop len oic src c (s, bw) = Some (t, n) \<and> fat_inv t \<and> fat_same s t \<and>
      unat n = unat bw + length (take (length (file_data s cs) - start_of oic bw) (drop (unat bw) src)) \<and>
      file_data t cs = put_bytes (file_data s cs) (start_of oic bw)
        (take (length (file_data s cs) - start_of oic bw) (drop (unat bw) src)) \<and>
      (\<forall>l. data_start_lba s \<le> l \<longrightarrow> l \<notin> set (file_sectors s cs) \<longrightarrow> disk t l = disk s l)"
proof (induction cs arbitrary: s c bw)
  case Nil
  then have "\<not> c < FAT32_EOC_MARKER" by (auto simp: chain_ok_def)
  with Nil show ?case by (subst vfs_write_loop.simps) (simp add: file_data_def)
next
  case (Cons y ys)
  have c: "y = c" "c < FAT32_EOC_MARKER" "in_fat s c" "chain_ok s (fat_of s c) ys" "data_ok s c"
    using Cons.prems(2) by (auto simp: chain_ok_def)
  show ?case
  proof (cases "unat bw < unat len")
    case False
    then have "drop (unat bw) src = []" using src by simp
    then show ?thesis
      using False Cons.prems(1,4) by (subst vfs_write_loop.simps) (simp add: ucast_less_nat)
  next
    case True
    define A where "A = file_data s [c]"
    define B where "B = file_data s ys"
    define st where "st = start_of oic bw"
    define v where "v = drop (unat bw) src"
    define w where "w = take (length A - st) v"
    obtain t1 bw1 where t1: "write_cluster len oic src c (s, bw) = (t1, bw1)" "fat_inv t1" "fat_same s t1"
        "unat bw1 = unat bw + length w" "file_data t1 [c] = put_bytes A st w"
        "\<forall>l. l \<notin> set (file_sectors s [c]) \<longrightarrow> disk t1 l = disk s l"
      using write_cluster_bytes [OF len src Cons.prems(1) c(5) Cons.prems(4,3), of oic]
      unfolding A_def st_def v_def w_def by blast
    have in1: "in_fat t1 c" using c(3) fat_same_in [OF t1(3)] by simp
    obtain s1 x where g: "get_next_cluster t1 c = (s1, x)" by fastforce
    note get = get_next_cluster_spec [OF t1(2) in1 g]
    have x: "x = fat_of s c" using get(1) t1(3) c(3) by (simp add: fat_of_def fat_same_def)
    have same1: "fat_same s s1" using fat_same_trans [OF t1(3) fat_eq_same [OF get(3)]] .
    have ok1: "chain_ok s1 (fat_of s c) ys" by (rule fat_same_chain [OF same1 c(4)])
    have dys: "list_all (data_ok s) ys" using c(4) by (simp add: chain_ok_def)
    have spc1: "sectors_per_cluster s1 \<noteq> 0" using Cons.prems(3) same1 by (simp add: fat_same_def)
    have disk1: "disk s1 l = disk t1 l" if "data_start_lba s \<le> l" for l
      using fat_eq_disk [OF get(3)] that t1(3) by (simp add: fat_same_def)
    have "distinct (file_sectors s (c # ys))"
    proof (rule distinct_file_sectors)
      show "list_all (data_ok s) (c # ys)" using c(5) dys by simp
      show "distinct (c # ys)"
        by (rule fat_chain_distinct [of s c]) (use Cons.prems(2) c(1) in \<open>simp add: chain_ok_def\<close>)
    qed
    then have disj: "set (file_sectors s [c]) \<inter> set (file_sectors s ys) = {}" by auto
    have dB: "file_data s1 ys = B" unfolding B_def
      using disk1 t1(6) disj file_sectors_ok [OF dys] by (intro file_data_cong [OF same1 dys]) auto
    have lA: "length A = 512 * unat (sectors_per_cluster s)"
      using length_file_data [OF Cons.prems(1), of "[c]"] by (simp add: A_def)
    moreover have "1 \<le> unat (sectors_per_cluster s)"
      using Cons.prems(3) by (simp add: Suc_le_eq unat_gt_0)
    ultimately have st: "st < length A" using start_of_less [of oic bw] unfolding st_def by linarith
    have le: "unat bw1 \<le> unat len" using t1(4) src Cons.prems(4) by (simp add: w_def v_def)
    have "v \<noteq> []" using True src by (simp add: v_def)
    then have "w \<noteq> []" using st by (simp add: w_def)
    then have "bw1 \<noteq> 0" using t1(4) by (metis add_is_0 length_0_conv unat_eq_0)
    then have st1: "start_of oic bw1 = 0" by (simp add: start_of_def)
    define w2 where "w2 = take (length B) (drop (length A - st) v)"
    have v2: "take (length B) (drop (unat bw1) src) = w2"
    proof (cases "length v \<le> length A - st")
      case True
      then have "length src \<le> unat bw1" using t1(4) Cons.prems(4) src by (simp add: w_def v_def)
      then show ?thesis using True by (simp add: w2_def)
    next
      case False
      then have "length w = length A - st" by (simp add: w_def)
      then have "drop (unat bw1) src = drop (length A - st) v" using t1(4) by (simp add: v_def add.commute)
      then show ?thesis by (simp add: w2_def)
    qed
    obtain t n where t: "vfs_write_loop len oic src (fat_of s c) (s1, bw1) = Some (t, n)" "fat_inv t" "fat_same s1 t"
        "unat n = unat bw1 + length w2" "file_data t ys = put_bytes B 0 w2"
        "\<forall>l. data_start_lba s1 \<le> l \<longrightarrow> l \<notin> set (file_sectors s1 ys) \<longrightarrow> disk t l = disk s1 l"
      using Cons.IH [OF get(2) ok1 spc1 le] unfolding dB st1 diff_zero v2 by blast
    have same: "fat_same s t" by (rule fat_same_trans [OF same1 t(3)])
    have dt: "disk t l = disk t1 l" if "data_start_lba s \<le> l" "l \<notin> set (file_sectors s ys)" for l
      using t(6) that disk1 same1 fat_same_sectors [OF same1] by (simp add: fat_same_def)
    have okc1: "list_all (data_ok t1) [c]" using c(5) t1(3) by (simp add: data_ok_def fat_same_def)
    have sec1: "file_sectors t1 [c] = file_sectors s [c]" using fat_same_sectors [OF t1(3)] by simp
    have dc: "list_all (data_ok s) [c]" using c(5) by simp
    have tt: "fat_same t1 t" using same t1(3) fat_same_in [OF t1(3)] by (auto simp: fat_same_def)
    have "file_data t [c] = file_data t1 [c]"
    proof (rule file_data_cong [OF tt okc1], rule ballI)
      fix l assume "l \<in> set (file_sectors t1 [c])"
      then have l: "l \<in> set (file_sectors s [c])" by (simp only: sec1)
      then show "disk t l = disk t1 l" using dt file_sectors_ok [OF dc l] disj by blast
    qed
    then have "file_data t (y # ys) = put_bytes A st w @ put_bytes B 0 w2"
      using file_data_append [of t "[c]" ys] t(5) t1(5) c(1) by simp
    also have "\<dots> = put_bytes (A @ B) st (take (length A + length B - st) v)"
      using put_bytes_append [OF st, of B v] by (simp add: w_def w2_def)
    also have AB: "A @ B = file_data s (y # ys)" using file_data_append [of s "[c]" ys] c(1) by (simp add: A_def B_def)
    finally have data: "file_data t (y # ys) = put_bytes (file_data s (y # ys)) st
        (take (length (file_data s (y # ys)) - st) v)" by (simp flip: AB)
    have split: "take (length (file_data s (y # ys)) - st) v = w @ w2"
    proof -
      have "length (file_data s (y # ys)) - st = (length A - st) + length B" using st by (simp flip: AB)
      then show ?thesis by (simp only: take_add w_def w2_def)
    qed
    have "vfs_write_loop len oic src c (s, bw) = Some (t, n)"
      using True c(2) g x t1(1) t(1) by (subst vfs_write_loop.simps) (simp add: ucast_less_nat)
    moreover have "unat n = unat bw + length (take (length (file_data s (y # ys)) - st) v)"
      using t(4) t1(4) by (simp add: split)
    moreover have "disk t l = disk s l" if "data_start_lba s \<le> l" "l \<notin> set (file_sectors s (y # ys))" for l
      using dt t1(6) that c(1) by simp
    ultimately show ?thesis
      using data same t(2) unfolding st_def v_def by blast
  qed
qed


text \<open>
  The directory entry that \<open>update_size\<close> rewrites must not lie in the file's own sectors, nor in the
  table.
\<close>
definition entry_ok :: "fatfs \<Rightarrow> inode \<Rightarrow> u32 list \<Rightarrow> bool" where
  "entry_ok s node cs \<longleftrightarrow>
     (case i_private node of
        PNode lba off \<Rightarrow> lba_ok lba \<and> data_start_lba s \<le> lba \<and> lba \<notin> set (file_sectors s cs) \<and> unat off + 32 \<le> 512
      | _ \<Rightarrow> True)"

lemma update_size_spec:
  assumes inv: "fat_inv s" and entry: "entry_ok s node cs" and d: "list_all (data_ok s) cs"
  shows "\<exists>t. update_size s node e = (t, node\<lparr>i_size := (if ucast (i_size node) < e then ucast e else i_size node)\<rparr>) \<and>
    fat_inv t \<and> fat_same s t \<and> file_data t cs = file_data s cs"
proof (cases "ucast (i_size node) < e")
  case False
  then show ?thesis using inv by (simp add: update_size_def)
next
  case True
  show ?thesis
  proof (cases "i_private node")
    case (PNode lba off)
    then have l: "lba_ok lba" "data_start_lba s \<le> lba" "lba \<notin> set (file_sectors s cs)" "unat off + 32 \<le> 512"
      using entry by (simp_all add: entry_ok_def)
    let ?buf = "put_bytes (disk_read (disk s) lba) (unat off + 28) (le_bytes 4 (ucast e :: u32))"
    have len: "length ?buf = 512" using l(1,4) inv by (simp add: disk_read_def fat_inv_lengths)
    have t: "fat_inv (put_sector s lba ?buf)" "fat_same s (put_sector s lba ?buf)"
      using put_sector_inv [OF inv l(1,2) len] put_sector_same [OF inv l(1,2)] by simp_all
    moreover have "file_data (put_sector s lba ?buf) cs = file_data s cs"
      using l(1,3) by (intro file_data_cong [OF t(2) d]) (auto simp: put_sector_disk)
    ultimately show ?thesis using True PNode by (simp add: update_size_def Let_def)
  qed (use True inv in \<open>simp_all add: update_size_def\<close>)
qed

lemma put_bytes_drop: "take k A @ put_bytes (drop k A) i w = put_bytes A (k + i) w"
proof -
  have "take (k + i) A = take k A @ take i (drop k A)" by (rule take_add)
  then show ?thesis by (simp add: put_bytes_def add.assoc add.commute [of k])
qed

lemma vfs_write_spec:
  assumes inv: "fat_inv s" and ok: "chain_ok s (ino node) cs" and spc: "sectors_per_cluster s \<noteq> 0"
    and src: "length src = unat len" "len \<noteq> 0"
    and off: "unat offset + unat len \<le> length (file_data s cs)" "unat offset + unat len < 2 ^ 32" "offset_ok s offset"
    and owned: "clusters_needed s offset len \<le> clusters_owned s node"
    and entry: "entry_ok s node cs"
  shows "\<exists>t. fat32_vfs_write s (Some node) (Some src) len offset =
      Some (t, Some (node\<lparr>i_size := max (i_size node) (ucast (offset + len))\<rparr>), int (unat len)) \<and>
      fat_inv t \<and> fat_same s t \<and> file_data t cs = put_bytes (file_data s cs) (unat offset) src"
proof -
  let ?n = "512 * unat (sectors_per_cluster s)" and ?k = "unat offset div (512 * unat (sectors_per_cluster s))"
  let ?oic = "ucast (offset mod ucast (cluster_size s)) :: u32"
  have npos: "0 < ?n" using spc by (simp add: unat_gt_0)
  have off32: "unat offset < 2 ^ 32" and len32: "unat len < 2 ^ 32" using off(2) by simp_all
  note parts = offset_parts [OF off32 spc]
  have "unat len \<noteq> 0" using src(2) by (simp add: unat_eq_0)
  then have lpos: "0 < unat len" by simp
  have lcs: "length (file_data s cs) = ?n * length cs"
    using length_file_data [OF inv, of cs] by (simp add: mult.commute mult.left_commute)
  then have k: "?k < length cs"
    using off(1) lpos npos by (simp add: less_mult_imp_div_less mult.commute)
  obtain s1 c' where s1: "follow ?k s (ino node) = (s1, c')" "fat_inv s1" "fat_eq s s1" "chain_ok s1 c' (drop ?k cs)"
    using skip_clusters_spec [OF inv ok k] by blast
  have d: "list_all (data_ok s) cs" using ok by (simp add: chain_ok_def)
  then have dk: "list_all (data_ok s) (drop ?k cs)" "list_all (data_ok s) (take ?k cs)"
    by (auto simp: list_all_iff dest: in_set_dropD in_set_takeD)
  have mod512: "unat offset mod ?n < 512" using off(3) by (simp add: offset_ok_def cluster_size_nat)
  have start: "start_of ?oic 0 = unat offset mod ?n" using parts(2) mod512 by (simp add: start_of_def)
  have spc1: "sectors_per_cluster s1 \<noteq> 0" using spc fat_eq_geom [OF s1(3)] by simp
  define D where "D = file_data s (drop ?k cs)"
  have D: "file_data s1 (drop ?k cs) = D" unfolding D_def by (rule file_data_eq [OF s1(3) dk(1)])
  have DD: "D = drop (?k * ?n) (file_data s cs)" unfolding D_def by (rule file_data_drop [OF inv])
  have kn: "?k * ?n + unat offset mod ?n = unat offset" by (rule div_mult_mod_eq)
  have room: "unat len \<le> length D - unat offset mod ?n"
  proof -
    have "length D = length (file_data s cs) - ?k * ?n" by (simp add: DD)
    then show ?thesis using off(1) kn by linarith
  qed
  have w: "take (length D - unat offset mod ?n) src = src" using room src(1) by simp
  obtain t n where t: "vfs_write_loop len ?oic src c' (s1, 0) = Some (t, n)" "fat_inv t" "fat_same s1 t"
      "unat n = unat len" "file_data t (drop ?k cs) = put_bytes D (unat offset mod ?n) src"
      "\<forall>l. data_start_lba s1 \<le> l \<longrightarrow> l \<notin> set (file_sectors s1 (drop ?k cs)) \<longrightarrow> disk t l = disk s1 l"
    using vfs_write_loop_bytes [OF len32 src(1) s1(2,4) spc1, of 0 ?oic] src(1) unfolding D start by (auto simp: w)
  have same: "fat_same s t" using fat_same_trans [OF fat_eq_same [OF s1(3)] t(3)] .
  have cs: "cs = take ?k cs @ drop ?k cs" by simp
  have "distinct (file_sectors s cs)"
    using ok fat_chain_distinct by (intro distinct_file_sectors) (auto simp: chain_ok_def)
  moreover have sectors: "file_sectors s cs = file_sectors s (take ?k cs) @ file_sectors s (drop ?k cs)"
    by (subst cs) (simp add: file_sectors_def del: append_take_drop_id)
  ultimately have disj: "set (file_sectors s (take ?k cs)) \<inter> set (file_sectors s (drop ?k cs)) = {}" by simp
  have "file_data t (take ?k cs) = file_data s (take ?k cs)"
  proof (rule file_data_cong [OF same dk(2)], rule ballI)
    fix l assume l: "l \<in> set (file_sectors s (take ?k cs))"
    note lo = file_sectors_ok [OF dk(2) l]
    have "disk t l = disk s1 l"
      using t(6) l lo disj fat_eq_geom [OF s1(3)] fat_same_sectors [OF fat_eq_same [OF s1(3)]] by auto
    then show "disk t l = disk s l" using fat_eq_disk [OF s1(3) lo(2)] by simp
  qed
  also have "\<dots> = take (?k * ?n) (file_data s cs)"
  proof -
    have "file_data s cs = file_data s (take ?k cs) @ D"
      unfolding D_def by (subst cs) (simp only: file_data_append)
    moreover have "length (file_data s (take ?k cs)) = ?k * ?n"
      using length_file_data [OF inv, of "take ?k cs"] k by simp
    ultimately show ?thesis by simp
  qed
  finally have first: "file_data t (take ?k cs) = take (?k * ?n) (file_data s cs)" .
  have "file_data t cs = take (?k * ?n) (file_data s cs) @ put_bytes D (unat offset mod ?n) src"
    using file_data_append [of t "take ?k cs" "drop ?k cs"] first t(5) by simp
  also have "\<dots> = put_bytes (file_data s cs) (?k * ?n + unat offset mod ?n) src"
    unfolding DD by (rule put_bytes_drop)
  finally have data: "file_data t cs = put_bytes (file_data s cs) (unat offset) src" by (simp only: kn)
  have dt: "list_all (data_ok t) cs"
    using d by (simp add: fat_same_data_ok [OF same])
  have et: "entry_ok t node cs"
    using entry same fat_same_sectors [OF same] by (simp add: entry_ok_def fat_same_def split: private_data.splits)
  define e where "e = offset + ucast n"
  have "unat (ucast n :: u64) = unat len" using t(4) by (simp add: unat_ucast_up)
  then have en: "e = offset + len" by (simp add: e_def word_unat_eq_iff unat_word_ariths)
  have ue: "unat e = unat offset + unat len" unfolding en using off(2) by (simp add: unat_add_nowrap)
  have size: "(if ucast (i_size node) < e then ucast e else i_size node) = max (i_size node) (ucast (offset + len))"
  proof -
    have "unat (ucast e :: u32) = unat e" using ue off(2) by (simp add: unat_ucast_mod)
    moreover have "unat (ucast (i_size node) :: u64) = unat (i_size node)" by (simp add: unat_ucast_up)
    ultimately show ?thesis
      by (auto simp: word_less_nat_alt word_le_nat_alt max_def word_unat_eq_iff simp flip: en)
  qed
  obtain t2 where t2: "update_size t node e =
      (t2, node\<lparr>i_size := max (i_size node) (ucast (offset + len))\<rparr>)" "fat_inv t2" "fat_same t t2"
      "file_data t2 cs = file_data t cs"
    using update_size_spec [OF t(2) et dt, of e] unfolding size by blast
  let ?t3 = "fat32_fat_sync t2"
  have d2: "list_all (data_ok t2) cs" using dt by (simp add: fat_same_data_ok [OF t2(3)])
  have "uint n = uint len" using t(4) by (simp only: uint_nat)
  moreover have "\<not> clusters_owned s node < clusters_needed s offset len" using owned by (simp only: not_less)
  ultimately have "fat32_vfs_write s (Some node) (Some src) len offset =
      Some (?t3, Some (node\<lparr>i_size := max (i_size node) (ucast (offset + len))\<rparr>), int (unat len))"
    using src(2) s1(1) t(1) t2(1) parts(1)
    by (simp add: fat32_vfs_write_def Let_def cluster_size_pos [OF spc] flip: e_def)
  moreover have "fat_same s ?t3"
    using fat_same_trans [OF fat_same_trans [OF same t2(3)] fat_eq_same [OF fat_sync_eq [OF t2(2)]]] .
  moreover have "file_data ?t3 cs = put_bytes (file_data s cs) (unat offset) src"
    using file_data_eq [OF fat_sync_eq [OF t2(2)] d2] t2(4) data by simp
  ultimately show ?thesis using fat_sync_inv [OF t2(2)] by blast
qed


section \<open>Properties\<close>

text \<open>The state that mounting leaves behind.\<close>
lemma fat32_init_state:
  assumes "rd lba = Some boot" and "bpb_boot_signature boot = 0x28 \<or> bpb_boot_signature boot = 0x29"
  shows "fat32_init rd s lba = (s\<lparr>sectors_per_cluster := bpb_sectors_per_cluster boot, root_dir_cluster := bpb_root_cluster boot,
      next_free_cluster_hint := bpb_root_cluster boot + 1,
      fat_start_lba := lba + ucast (bpb_reserved_sectors boot),
      data_start_lba := lba + ucast (bpb_reserved_sectors boot) + bpb_fat_size_32 boot * ucast (bpb_fat_count boot),
      fat_cache_sector := FAT_CACHE_INVALID, fat_cache_dirty := False\<rparr>, True)"
  using assms by (auto simp: fat32_init_def Let_def)

text \<open>The fields of a boot sector whose areas end below \<open>2^28\<close> sectors give a valid geometry.\<close>
lemma boot_geometry:
  fixes lba fat_size :: u32 and reserved :: u16 and fat_count :: u8
  assumes "unat lba + unat reserved + 2 ^ 23 \<le> 2 ^ 28"
    and "unat lba + unat reserved + unat fat_size * unat fat_count < 2 ^ 28"
  shows "unat (lba + ucast reserved) = unat lba + unat reserved"
    and "unat (lba + ucast reserved + fat_size * ucast fat_count) =
           unat lba + unat reserved + unat fat_size * unat fat_count"
proof -
  have u: "unat (ucast reserved :: u32) = unat reserved" "unat (ucast fat_count :: u32) = unat fat_count"
    by (simp_all add: unat_ucast_up)
  show a: "unat (lba + ucast reserved) = unat lba + unat reserved"
    using assms(1) u by (subst unat_add_nowrap) simp_all
  have "unat (fat_size * ucast fat_count) = unat fat_size * unat fat_count"
    using assms(2) u by (simp add: unat_word_ariths)
  then show "unat (lba + ucast reserved + fat_size * ucast fat_count) =
      unat lba + unat reserved + unat fat_size * unat fat_count"
    using assms(2) a by (subst unat_add_nowrap) simp_all
qed

text \<open>
  C17. Mounting.  If the boot sector can be read, has the FAT32 signature, and gives areas below
  \<open>2^28\<close> sectors (the 28-bit address range of the drive: the tables end below it, and \<open>2^23\<close> sectors,
  a table of full size, fit behind the start of the first), then mounting succeeds and establishes
  the driver's invariant: the geometry is that of the boot sector, the cache is empty, and the table
  the driver sees is the one on the disk.  With another signature it fails and leaves the
  state alone.
\<close>
theorem init_establishes_invariant:
  assumes "\<forall>l. length (disk s l) = 512" and "length (fat_cache_buf s) = 512"
    and "rd lba = Some boot" and "unat lba + unat (bpb_reserved_sectors boot) + 2 ^ 23 \<le> 2 ^ 28"
    and "unat lba + unat (bpb_reserved_sectors boot) + unat (bpb_fat_size_32 boot) * unat (bpb_fat_count boot) < 2 ^ 28"
  shows "if bpb_boot_signature boot = 0x28 \<or> bpb_boot_signature boot = 0x29
    then \<exists>t. fat32_init rd s lba = (t, True) \<and> fat_inv t \<and> disk t = disk s \<and>
      unat (fat_start_lba t) = unat lba + unat (bpb_reserved_sectors boot) \<and>
      unat (data_start_lba t) = unat (fat_start_lba t) + unat (bpb_fat_size_32 boot) * unat (bpb_fat_count boot) \<and>
      root_dir_cluster t = bpb_root_cluster boot \<and> sectors_per_cluster t = bpb_sectors_per_cluster boot \<and>
      next_free_cluster_hint t = bpb_root_cluster boot + 1 \<and> fat_cache_sector t = FAT_CACHE_INVALID \<and>
      (\<forall>c. in_fat t c \<longrightarrow> raw_of t c = of_le (slice_at (disk s (fat_entry_sector t c)) (unat (fat_entry_offset c)) 4))
    else fat32_init rd s lba = (s, False)"
proof (cases "bpb_boot_signature boot = 0x28 \<or> bpb_boot_signature boot = 0x29")
  case True
  define t where "t = fst (fat32_init rd s lba)"
  have t: "fat32_init rd s lba = (t, True)"
    and g: "fat_start_lba t = lba + ucast (bpb_reserved_sectors boot)"
      "data_start_lba t = lba + ucast (bpb_reserved_sectors boot) + bpb_fat_size_32 boot * ucast (bpb_fat_count boot)"
    and same: "disk t = disk s" "fat_cache_buf t = fat_cache_buf s" "root_dir_cluster t = bpb_root_cluster boot"
      "sectors_per_cluster t = bpb_sectors_per_cluster boot" "next_free_cluster_hint t = bpb_root_cluster boot + 1"
      "fat_cache_sector t = FAT_CACHE_INVALID" "\<not> fat_cache_dirty t"
    using fat32_init_state [where rd = rd and lba = lba and boot = boot and s = s] assms(3) True
    by (simp_all add: t_def)
  note n = boot_geometry [OF assms(4,5), folded g]
  have geo: "geom t"
    using n assms(4,5) by (simp add: geom_def word_le_nat_alt word_less_nat_alt)
  have "raw_of t c = of_le (slice_at (disk s (fat_entry_sector t c)) (unat (fat_entry_offset c)) 4)"
    if "in_fat t c" for c
    using fat_entry_sector_lba [OF geo] fat_entry_sector_valid [OF geo] same
    by (simp add: raw_of_def cached_sector_def disk_read_def)
  moreover have "fat_inv t" using assms(1,2) geo same by (simp add: fat_inv_def)
  ultimately show ?thesis using True t same n by auto
next
  case False
  then show ?thesis using assms(3) by (auto simp: fat32_init_def)
qed

text \<open>A boot sector: one sector per cluster, 32 reserved sectors, two tables of 16, root in cluster 2.\<close>
definition demo_boot :: "u8 list" where
  "demo_boot = put_bytes (put_bytes (put_bytes (put_bytes (replicate 512 0) 13 [1, 32, 0, 2]) 36 [16, 0, 0, 0])
     44 [2, 0, 0, 0]) 66 [0x29]"

theorem init_establishes_invariant_witness:
  "fat_inv (fst (fat32_init (\<lambda>_. Some demo_boot) demo_volume 2048)) \<and>
   fat_start_lba (fst (fat32_init (\<lambda>_. Some demo_boot) demo_volume 2048)) = 2080 \<and>
   data_start_lba (fst (fat32_init (\<lambda>_. Some demo_boot) demo_volume 2048)) = 2112"
proof -
  have b: "bpb_reserved_sectors demo_boot = 32" "bpb_fat_count demo_boot = 2" "bpb_fat_size_32 demo_boot = 16"
    "bpb_boot_signature demo_boot = 0x29" by code_simp+
  then show ?thesis
    using init_establishes_invariant [of demo_volume "\<lambda>_. Some demo_boot" 2048 demo_boot]
    by (auto simp: demo_volume_def word_unat_eq_iff)
qed


text \<open>A file of ten bytes in cluster 5 of the small volume.\<close>
definition demo_bytes :: "u8 list" where
  "demo_bytes = [0, 1, 2, 3, 4, 5, 6, 7, 8, 9] @ replicate 502 0"

lemma length_demo_bytes [simp]: "length demo_bytes = 512"
  by (simp add: demo_bytes_def)

definition demo_data_volume :: fatfs where
  "demo_data_volume = put_sector demo_dir_volume 67 demo_bytes"

definition demo_file :: inode where
  "demo_file = zero_inode\<lparr>ino := 5, i_size := 10, i_type := FT_REG\<rparr>"

lemma demo_data_ok:
  "fat_inv demo_data_volume" "chain_ok demo_data_volume 5 [5]" "sectors_per_cluster demo_data_volume = 1"
  "file_data demo_data_volume [5] = demo_bytes"
proof -
  have l: "lba_ok 67" "data_start_lba demo_dir_volume \<le> 67" by (simp_all add: lba_ok_def demo_dir_geom)
  have "chain_ok demo_dir_volume 5 [5]"
    by (simp add: chain_ok_def demo_dir_fat demo_dir_geom same_entry_def FAT32_EOC_MARKER_def data_ok_def)
  then show "fat_inv demo_data_volume" "chain_ok demo_data_volume 5 [5]"
    using put_sector_inv [OF demo_dir_inv l] put_sector_chain [OF demo_dir_inv l]
    by (simp_all add: demo_data_volume_def)
  show spc: "sectors_per_cluster demo_data_volume = 1" by (simp add: demo_data_volume_def demo_dir_geom)
  have "cluster_to_lba demo_data_volume 5 = 67"
    by (simp add: cluster_to_lba_def demo_data_volume_def demo_dir_geom)
  then show "file_data demo_data_volume [5] = demo_bytes"
    using l by (simp add: file_data_def spc disk_read_def)
      (simp add: demo_data_volume_def put_sector_disk)
qed


text \<open>
  C18. Without that condition the read starts in the wrong sector: it delivers the bytes from the
  first sector of the offset's cluster, so with several sectors per cluster an offset of 512 reads
  the bytes at 0.
\<close>
theorem read_ignores_sector_of_offset:
  assumes "fat_inv s" and "chain_ok s (ino node) cs" and "sectors_per_cluster s \<noteq> 0"
    and "unat (i_size node) \<le> length (file_data s cs)" and "unat offset < unat (i_size node)"
    and "unat offset + unat len < 2 ^ 64"
  shows "\<exists>t. fat32_vfs_read s (Some node) False len offset =
      Some (t, slice_at (file_data s cs)
                 (unat offset div unat (cluster_size s) * unat (cluster_size s) +
                  unat offset mod unat (cluster_size s) mod 512)
                 (min (unat len) (unat (i_size node) - unat offset)),
            int (min (unat len) (unat (i_size node) - unat offset)))"
  using vfs_read_spec [OF assms] unfolding effective_offset_def Let_def by blast

text \<open>The small volume with two sectors per cluster.\<close>
definition demo_wide_volume :: fatfs where
  "demo_wide_volume = put_sector (set_next_cluster (demo_volume\<lparr>sectors_per_cluster := 2\<rparr>) 2 FAT32_EOC_MARKER)
     65 (replicate 512 1)"

theorem read_ignores_sector_of_offset_witness:
  "\<exists>t. fat32_vfs_read demo_wide_volume (Some (zero_inode\<lparr>ino := 2, i_size := 1024\<rparr>)) False 1 512 = Some (t, [0], 1) \<and>
     file_data demo_wide_volume [2] ! 512 = 1"
proof -
  let ?v = "demo_volume\<lparr>sectors_per_cluster := 2\<rparr>" and ?node = "zero_inode\<lparr>ino := 2, i_size := 1024\<rparr>"
  let ?s = "set_next_cluster ?v 2 FAT32_EOC_MARKER" and ?w = demo_wide_volume
  have v: "fat_inv ?v" using demo_volume_inv by (simp add: fat_inv_def geom_def)
  have in2: "in_fat ?v 2" by (simp add: in_fat_def fat_entry_sector_def demo_volume_def)
  have s: "fat_inv ?s" by (rule set_next_cluster_inv [OF v in2])
  have geo: "data_start_lba ?v = 64" "disk demo_volume l = replicate 512 0" for l by (simp_all add: demo_volume_def)
  have l: "lba_ok 65" "lba_ok 64" "data_start_lba ?s \<le> 65" by (simp_all add: lba_ok_def geo)
  have "chain_ok ?s 2 [2]"
    using in2 by (simp add: chain_ok_def set_next_cluster_fat_of [OF v] same_entry_def FAT32_EOC_MARKER_def data_ok_def geo)
  then have w: "fat_inv ?w" "chain_ok ?w 2 [2]" "sectors_per_cluster ?w = 2"
    using put_sector_inv [OF s l(1,3)] put_sector_chain [OF s l(1,3)] by (simp_all add: demo_wide_volume_def)
  have "cluster_to_lba ?w 2 = 64" by (simp add: cluster_to_lba_def demo_wide_volume_def geo)
  moreover have "disk ?w 64 = replicate 512 0" "disk ?w 65 = replicate 512 1"
    using set_next_cluster_data [OF v in2, of 64] l by (simp_all add: demo_wide_volume_def put_sector_disk geo)
  ultimately have data: "file_data ?w [2] = replicate 512 0 @ replicate 512 1"
    using l by (simp add: file_data_def w(3) upt_rec disk_read_def)
  have c: "unat (cluster_size ?w) = 1024" by (simp add: cluster_size_nat w(3))
  have "slice_at (replicate 512 0 @ replicate 512 (1 :: u8)) 0 1 = [0]" by (simp add: slice_at_def)
  then show ?thesis
    using read_ignores_sector_of_offset [OF w(1), of ?node "[2]" 512 1] w(2,3) c data by (auto simp: nth_append)
qed

text \<open>
  C2. Writing inside the clusters a file owns, at an offset in the first sector of its cluster (always
  so with one sector per cluster), returns the full length, replaces exactly the bytes at the offset,
  sets the size to the larger of the old size and the end of the write, keeps the table, and a read
  of the same range gives the written bytes back.  With several sectors per cluster the other offsets
  address the wrong sector, in the write as in the read.
\<close>
theorem write_then_read:
  assumes "fat_inv s" and "chain_ok s (ino node) cs" and "sectors_per_cluster s \<noteq> 0"
    and "length src = unat len" and "len \<noteq> 0" and "unat (i_size node) \<le> length (file_data s cs)"
    and "unat offset + unat len \<le> length (file_data s cs)" and "unat offset + unat len < 2 ^ 32"
    and "offset_ok s offset" and "clusters_needed s offset len \<le> clusters_owned s node" and "entry_ok s node cs"
  shows "\<exists>t node' u. fat32_vfs_write s (Some node) (Some src) len offset = Some (t, Some node', int (unat len)) \<and>
    fat_inv t \<and> file_data t cs = put_bytes (file_data s cs) (unat offset) src \<and>
    unat (i_size node') = max (unat (i_size node)) (unat offset + unat len) \<and>
    (\<forall>c. in_fat s c \<longrightarrow> raw_of t c = raw_of s c) \<and>
    fat32_vfs_read t (Some node') False len offset = Some (u, src, int (unat len))"
proof -
  let ?e = "unat offset + unat len"
  let ?node = "node\<lparr>i_size := max (i_size node) (ucast (offset + len))\<rparr>"
  obtain t where t: "fat32_vfs_write s (Some node) (Some src) len offset = Some (t, Some ?node, int (unat len))"
      "fat_inv t" "fat_same s t" "file_data t cs = put_bytes (file_data s cs) (unat offset) src"
    using vfs_write_spec [OF assms(1-5,7-11)] by blast
  have "unat (offset + len) = ?e" using assms(8) by (simp add: unat_add_nowrap)
  then have "unat (ucast (offset + len) :: u32) = ?e" using assms(8) by (simp add: unat_ucast_mod)
  then have size: "unat (i_size ?node) = max (unat (i_size node)) ?e"
    by (auto simp: max_def word_le_nat_alt)
  have len: "length (file_data t cs) = length (file_data s cs)"
    unfolding t(4) using assms(4,7) by (intro length_put_bytes) simp
  have pos: "0 < unat len" using assms(5) by (simp add: unat_gt_0)
  have same: "sectors_per_cluster t = sectors_per_cluster s" using t(3) by (simp add: fat_same_def)
  then have off: "offset_ok t offset" using assms(9) by (simp add: offset_ok_def cluster_size_def)
  have ok: "chain_ok t (ino ?node) cs" using fat_same_chain [OF t(3) assms(2)] by simp
  have n: "min (unat len) (max (unat (i_size node)) ?e - unat offset) = unat len" by simp
  have lt: "unat offset < max (unat (i_size node)) ?e" using pos by simp
  obtain u where u: "fat32_vfs_read t (Some ?node) False len offset =
      Some (u, slice_at (file_data t cs) (unat offset) (unat len), int (unat len))"
    using vfs_read_spec [OF t(2) ok, of offset len] assms(3,6-8) lt
    unfolding size len same effective_offset_ok [OF off] n by auto
  have "slice_at (file_data t cs) (unat offset) (unat len) = src"
    unfolding t(4) using assms(4,7) by (simp add: slice_put_same)
  then show ?thesis using t size u by (auto simp: fat_same_def)
qed

theorem write_then_read_witness:
  "\<exists>t node' u. fat32_vfs_write demo_data_volume (Some demo_file) (Some [9, 8, 7]) 3 8 = Some (t, Some node', 3) \<and>
     i_size node' = 11 \<and> fat32_vfs_read t (Some node') False 3 8 = Some (u, [9, 8, 7], 3)"
proof -
  have f: "ino demo_file = 5" "i_size demo_file = 10" "i_private demo_file = PNull"
    by (simp_all add: demo_file_def zero_inode_def)
  have "clusters_needed demo_data_volume 8 3 \<le> clusters_owned demo_data_volume demo_file"
    by (simp add: clusters_needed_def clusters_owned_def cluster_size_def demo_data_ok(3) f)
  moreover have "entry_ok demo_data_volume demo_file [5]" by (simp add: entry_ok_def f)
  ultimately obtain t node' u where r: "fat32_vfs_write demo_data_volume (Some demo_file) (Some [9, 8, 7]) 3 8 =
      Some (t, Some node', int (unat (3 :: u64)))" "unat (i_size node') = max (unat (i_size demo_file)) (unat (8 :: u64) + unat (3 :: u64))"
      "fat32_vfs_read t (Some node') False 3 8 = Some (u, [9, 8, 7], int (unat (3 :: u64)))"
    using write_then_read [OF demo_data_ok(1), of demo_file "[5]" "[9, 8, 7]" 3 8] demo_data_ok(2-4)
      offset_ok_single [OF demo_data_ok(3)] by (auto simp: f)
  have "i_size node' = 11" using r(2) by (simp add: f word_unat_eq_iff)
  then show ?thesis using r(1,3) by simp
qed

end
