(* ===== verification/Ata.thy ===== *)
theory Ata
  imports FatTable
begin

text \<open>
  The PIO disk driver (\<open>src/src/drivers/ata.c\<close>), down to its port accesses.  The device behind the
  ports is hardware: a record of four functions (byte and word reads and writes of a port) that is
  an argument of every operation.  The waiting loops count to 100000 as in the code; the recursion
  is on that counter.

  The drive \<open>pio\<close> is the documented behaviour of an ATA drive in PIO mode: task-file registers, a
  number of busy polls after each command, and a data register that moves 256 words.  On it the
  driver's two operations are \<open>disk_read\<close> and \<open>disk_write\<close>, which the file system is built on.
\<close>

section \<open>Port access\<close>

record 'd device =
  inb_of :: "'d \<Rightarrow> u16 \<Rightarrow> 'd \<times> u8"
  outb_of :: "'d \<Rightarrow> u16 \<Rightarrow> u8 \<Rightarrow> 'd"
  inw_of :: "'d \<Rightarrow> u16 \<Rightarrow> 'd \<times> u16"
  outw_of :: "'d \<Rightarrow> u16 \<Rightarrow> u16 \<Rightarrow> 'd"

definition ATA_PRIMARY_IO :: u16 where "ATA_PRIMARY_IO = 0x1F0"
definition ATA_PRIMARY_CTRL :: u16 where "ATA_PRIMARY_CTRL = 0x3F6"
definition ATA_CMD_READ_PIO :: u8 where "ATA_CMD_READ_PIO = 0x20"
definition ATA_SR_ERR :: u8 where "ATA_SR_ERR = 0x01"
definition ATA_SR_DRQ :: u8 where "ATA_SR_DRQ = 0x08"
definition ATA_SR_DF :: u8 where "ATA_SR_DF = 0x20"
definition ATA_SR_BSY :: u8 where "ATA_SR_BSY = 0x80"

definition ata_wait_400ns :: "'d device \<Rightarrow> 'd \<Rightarrow> 'd" where
  "ata_wait_400ns dev d =
     (let d = fst (inb_of dev d ATA_PRIMARY_CTRL); d = fst (inb_of dev d ATA_PRIMARY_CTRL);
          d = fst (inb_of dev d ATA_PRIMARY_CTRL)
      in fst (inb_of dev d ATA_PRIMARY_CTRL))"

text \<open>The polling loop; the argument is the number of polls left.\<close>
primrec wait_ready_loop :: "nat \<Rightarrow> 'd device \<Rightarrow> 'd \<Rightarrow> 'd \<times> bool" where
  "wait_ready_loop 0 dev d = (d, False)"
| "wait_ready_loop (Suc n) dev d =
     (case inb_of dev d (ATA_PRIMARY_IO + 7) of (d, status) \<Rightarrow>
        if status AND ATA_SR_ERR \<noteq> 0 then (d, False)
        else if status AND ATA_SR_DF \<noteq> 0 then (d, False)
        else if status AND ATA_SR_BSY = 0 \<and> status AND ATA_SR_DRQ \<noteq> 0 then (d, True)
        else wait_ready_loop n dev d)"

text \<open>\<open>while (--timeout)\<close> from 100000 polls 99999 times.\<close>
definition ata_wait_ready :: "'d device \<Rightarrow> 'd \<Rightarrow> 'd \<times> bool" where
  "ata_wait_ready dev d = wait_ready_loop (100000 - 1) dev d"

text \<open>The register writes that start a command for one sector.\<close>
definition ata_command :: "'d device \<Rightarrow> u32 \<Rightarrow> u8 \<Rightarrow> 'd \<Rightarrow> 'd" where
  "ata_command dev lba cmd d =
     (let d = outb_of dev d (ATA_PRIMARY_IO + 6) (0xE0 OR ucast ((drop_bit 24 lba) AND 0x0F));
          d = ata_wait_400ns dev d;
          d = outb_of dev d (ATA_PRIMARY_IO + 2) 1;
          d = outb_of dev d (ATA_PRIMARY_IO + 3) (ucast lba);
          d = outb_of dev d (ATA_PRIMARY_IO + 4) (ucast (drop_bit 8 lba));
          d = outb_of dev d (ATA_PRIMARY_IO + 5) (ucast (drop_bit 16 lba))
      in outb_of dev d (ATA_PRIMARY_IO + 7) cmd)"

primrec read_words :: "nat \<Rightarrow> 'd device \<Rightarrow> 'd \<Rightarrow> 'd \<times> u8 list" where
  "read_words 0 dev d = (d, [])"
| "read_words (Suc n) dev d =
     (case inw_of dev d ATA_PRIMARY_IO of (d, w) \<Rightarrow>
        case read_words n dev d of (d, rest) \<Rightarrow>
          (d, ucast (w AND 0xFF) # ucast (drop_bit 8 w) # rest))"

text \<open>The result: the buffer's new contents when the function returns true.\<close>
definition ata_read_sector :: "'d device \<Rightarrow> 'd \<Rightarrow> u32 \<Rightarrow> 'd \<times> u8 list option" where
  "ata_read_sector dev d lba =
     (case ata_wait_ready dev (ata_command dev lba ATA_CMD_READ_PIO d) of
        (d, False) \<Rightarrow> (d, None)
      | (d, True) \<Rightarrow>
          (case read_words 256 dev d of (d, buffer) \<Rightarrow>
             (fst (inb_of dev d ATA_PRIMARY_CTRL), Some buffer)))"




section \<open>A drive in PIO mode\<close>

datatype phase = Idle | Sending "u16 list" | Receiving "u16 list"

text \<open>\<open>busy\<close>: polls left until the command is accepted; \<open>latency\<close>: what each command sets it to.\<close>
record pio =
  p_disk :: disk
  p_head :: u8
  p_lo :: u8
  p_mid :: u8
  p_hi :: u8
  p_phase :: phase
  p_busy :: nat
  p_latency :: nat
  p_fault :: bool

fun words_of_bytes :: "u8 list \<Rightarrow> u16 list" where
  "words_of_bytes (b0 # b1 # bs) = (ucast b0 OR push_bit 8 (ucast b1)) # words_of_bytes bs"
| "words_of_bytes _ = []"

definition bytes_of_words :: "u16 list \<Rightarrow> u8 list" where
  "bytes_of_words ws = concat (map (\<lambda>w. [ucast (w AND 0xFF), ucast (drop_bit 8 w)]) ws)"

definition pio_lba :: "pio \<Rightarrow> u32" where
  "pio_lba d = push_bit 24 (ucast (p_head d AND 0x0F)) OR push_bit 16 (ucast (p_hi d)) OR
     push_bit 8 (ucast (p_mid d)) OR ucast (p_lo d)"

definition pio_status :: "pio \<Rightarrow> u8" where
  "pio_status d =
     (if p_fault d then 0x41
      else case p_phase d of Idle \<Rightarrow> 0x40 | _ \<Rightarrow> 0x48)"

definition pio_inb :: "pio \<Rightarrow> u16 \<Rightarrow> pio \<times> u8" where
  "pio_inb d port =
     (if port = 0x1F7
      then if 0 < p_busy d then (d\<lparr>p_busy := p_busy d - 1\<rparr>, 0x80) else (d, pio_status d)
      else (d, 0x50))"

definition pio_outb :: "pio \<Rightarrow> u16 \<Rightarrow> u8 \<Rightarrow> pio" where
  "pio_outb d port v =
     (if port = 0x1F3 then d\<lparr>p_lo := v\<rparr>
      else if port = 0x1F4 then d\<lparr>p_mid := v\<rparr>
      else if port = 0x1F5 then d\<lparr>p_hi := v\<rparr>
      else if port = 0x1F6 then d\<lparr>p_head := v\<rparr>
      else if port = 0x1F7
      then if v = 0x20 then d\<lparr>p_phase := Sending (words_of_bytes (p_disk d (pio_lba d))), p_busy := p_latency d\<rparr>
           else if v = 0x30 then d\<lparr>p_phase := Receiving [], p_busy := p_latency d\<rparr>
           else if v = 0xE7 then d\<lparr>p_busy := p_latency d\<rparr>
           else d
      else d)"

definition pio_inw :: "pio \<Rightarrow> u16 \<Rightarrow> pio \<times> u16" where
  "pio_inw d port =
     (case p_phase d of
        Sending (w # ws) \<Rightarrow> (d\<lparr>p_phase := (if ws = [] then Idle else Sending ws)\<rparr>, w)
      | _ \<Rightarrow> (d, 0))"

definition pio_outw :: "pio \<Rightarrow> u16 \<Rightarrow> u16 \<Rightarrow> pio" where
  "pio_outw d port w =
     (case p_phase d of
        Receiving ws \<Rightarrow>
          if length ws + 1 = 256
          then d\<lparr>p_disk := (p_disk d)(pio_lba d := bytes_of_words (ws @ [w])), p_phase := Idle\<rparr>
          else d\<lparr>p_phase := Receiving (ws @ [w])\<rparr>
      | _ \<Rightarrow> d)"

definition pio_device :: "pio device" where
  "pio_device = \<lparr>inb_of = pio_inb, outb_of = pio_outb, inw_of = pio_inw, outw_of = pio_outw\<rparr>"

section \<open>The driver on the drive\<close>

lemma pio_device_simps [simp]:
  "inb_of pio_device = pio_inb" "outb_of pio_device = pio_outb"
  "inw_of pio_device = pio_inw" "outw_of pio_device = pio_outw"
  by (simp_all add: pio_device_def)

lemma pio_wait_400ns [simp]: "ata_wait_400ns pio_device d = d"
  by (simp add: ata_wait_400ns_def pio_inb_def ATA_PRIMARY_CTRL_def)

lemma bit_mask_small: "bit (0x0F :: 8 word) n \<longleftrightarrow> n < 4" "bit (0x0F :: 32 word) n \<longleftrightarrow> n < 4"
  "bit (0x0FFFFFFF :: 32 word) n \<longleftrightarrow> n < 28" "bit (0xE0 :: 8 word) n \<longleftrightarrow> 5 \<le> n \<and> n < 8"
proof -
  have "(0x0F :: 8 word) = mask 4" "(0x0F :: 32 word) = mask 4" "(0x0FFFFFFF :: 32 word) = mask 28"
    "(0xE0 :: 8 word) = push_bit 5 (mask 3)"
    by (simp_all add: mask_numeral)
  note m = this
  show "bit (0x0F :: 8 word) n \<longleftrightarrow> n < 4" "bit (0x0F :: 32 word) n \<longleftrightarrow> n < 4"
  "bit (0x0FFFFFFF :: 32 word) n \<longleftrightarrow> n < 28" "bit (0xE0 :: 8 word) n \<longleftrightarrow> 5 \<le> n \<and> n < 8"
    unfolding m by (auto simp: bit_simps)
qed

lemma lba_bytes:
  fixes lba :: u32
  shows "push_bit 24 (ucast ((0xE0 OR ucast ((drop_bit 24 lba) AND 0x0F) :: u8) AND 0x0F)) OR
     push_bit 16 (ucast (ucast (drop_bit 16 lba) :: u8)) OR push_bit 8 (ucast (ucast (drop_bit 8 lba) :: u8)) OR
     ucast (ucast lba :: u8) = lba28 lba" (is "?l = _")
proof (rule bit_word_eqI)
  fix n assume n: "n < LENGTH(32)"
  consider "n < 8" | "8 \<le> n" "n < 16" | "16 \<le> n" "n < 24" | "24 \<le> n" by linarith
  then show "bit ?l n = bit (lba28 lba) n"
    using n by cases (auto simp: lba28_def bit_simps bit_mask_small simp del: bit_numeral_word_iff)
qed

lemma pio_command:
  assumes "cmd = 0x20 \<or> cmd = 0x30"
  shows "\<exists>h lo mid hi. ata_command pio_device lba cmd d =
    d\<lparr>p_head := h, p_lo := lo, p_mid := mid, p_hi := hi,
      p_phase := (if cmd = 0x20 then Sending (words_of_bytes (p_disk d (lba28 lba))) else Receiving []),
      p_busy := p_latency d\<rparr> \<and>
    pio_lba (d\<lparr>p_head := h, p_lo := lo, p_mid := mid, p_hi := hi\<rparr>) = lba28 lba"
proof -
  have l: "pio_lba (d\<lparr>p_head := 0xE0 OR ucast ((drop_bit 24 lba) AND 0x0F), p_lo := ucast lba,
      p_mid := ucast (drop_bit 8 lba), p_hi := ucast (drop_bit 16 lba)\<rparr>) = lba28 lba"
    using lba_bytes [of lba] by (simp add: pio_lba_def)
  show ?thesis
    apply (rule exI [of _ "0xE0 OR ucast ((drop_bit 24 lba) AND 0x0F)"])
    apply (rule exI [of _ "ucast lba"], rule exI [of _ "ucast (drop_bit 8 lba)"])
    apply (rule exI [of _ "ucast (drop_bit 16 lba)"])
    using assms l by (auto simp: ata_command_def Let_def pio_outb_def ATA_PRIMARY_IO_def)
qed


lemma pio_wait:
  "p_busy d < n \<Longrightarrow> wait_ready_loop n pio_device d =
     (d\<lparr>p_busy := 0\<rparr>, \<not> p_fault d \<and> p_phase d \<noteq> Idle)"
proof (induction n arbitrary: d)
  case (Suc n)
  show ?case
  proof (cases "p_busy d")
    case 0
    then have "d\<lparr>p_busy := 0\<rparr> = d" by simp
    moreover have "wait_ready_loop n pio_device d = (d, False)" if "p_phase d = Idle" "\<not> p_fault d"
      using Suc.IH [of d] that 0 \<open>d\<lparr>p_busy := 0\<rparr> = d\<close> by (cases n) simp_all
    ultimately show ?thesis
      using 0 Suc.prems
      by (cases "p_phase d") (auto simp: pio_inb_def pio_status_def ATA_PRIMARY_IO_def ATA_SR_ERR_def ATA_SR_DF_def
          ATA_SR_BSY_def ATA_SR_DRQ_def)
  next
    case (Suc b)
    then have "p_busy (d\<lparr>p_busy := b\<rparr>) < n" using Suc.prems by simp
    from Suc.IH [OF this] show ?thesis
      by (simp add: Suc pio_inb_def ATA_PRIMARY_IO_def ATA_SR_ERR_def ATA_SR_DF_def ATA_SR_BSY_def ATA_SR_DRQ_def)
  qed
qed simp

lemma pio_wait_timeout: "n \<le> p_busy d \<Longrightarrow> \<not> snd (wait_ready_loop n pio_device d) \<and>
    p_disk (fst (wait_ready_loop n pio_device d)) = p_disk d"
proof (induction n arbitrary: d)
  case (Suc n)
  then obtain b where b: "p_busy d = Suc b" by (cases "p_busy d") auto
  then have "n \<le> p_busy (d\<lparr>p_busy := b\<rparr>)" using Suc.prems by simp
  from Suc.IH [OF this] show ?case
    by (simp add: b pio_inb_def ATA_PRIMARY_IO_def ATA_SR_ERR_def ATA_SR_DF_def ATA_SR_BSY_def ATA_SR_DRQ_def)
qed simp

lemma pio_read_words:
  "p_phase d = (if ws = [] then Idle else Sending ws) \<Longrightarrow>
   read_words (length ws) pio_device d = (d\<lparr>p_phase := Idle\<rparr>, bytes_of_words ws)"
proof (induction ws arbitrary: d)
  case Nil
  then have "d\<lparr>p_phase := Idle\<rparr> = d" by simp
  then show ?case by (simp add: bytes_of_words_def)
next
  case (Cons w ws)
  then have i: "pio_inw d ATA_PRIMARY_IO = (d\<lparr>p_phase := (if ws = [] then Idle else Sending ws)\<rparr>, w)"
    by (simp add: pio_inw_def)
  show ?case
    using Cons.IH [of "d\<lparr>p_phase := (if ws = [] then Idle else Sending ws)\<rparr>"]
    by (simp add: i bytes_of_words_def)
qed

lemma byte_pair:
  fixes b0 b1 :: u8
  shows "ucast ((ucast b0 OR push_bit 8 (ucast b1) :: u16) AND 0xFF) = b0"
    "ucast (drop_bit 8 (ucast b0 OR push_bit 8 (ucast b1) :: u16)) = b1"
proof -
  have m: "(0xFF :: u16) = mask 8" by (simp add: mask_numeral)
  show "ucast ((ucast b0 OR push_bit 8 (ucast b1) :: u16) AND 0xFF) = b0"
    by (rule bit_word_eqI) (auto simp: m bit_simps)
  have "\<not> bit b0 (n + 8)" for n by (simp add: bit_word.rep_eq)
  then show "ucast (drop_bit 8 (ucast b0 OR push_bit 8 (ucast b1) :: u16)) = b1"
    by (intro bit_word_eqI) (auto simp: bit_simps add.commute)
qed

lemma bytes_words: "even (length bs) \<Longrightarrow> bytes_of_words (words_of_bytes bs) = bs"
  by (induction bs rule: words_of_bytes.induct) (simp_all add: bytes_of_words_def byte_pair flip: drop_bit_or)

lemma length_words: "length (words_of_bytes bs) = length bs div 2"
  by (induction bs rule: words_of_bytes.induct) simp_all




section \<open>Properties\<close>

text \<open>
  C19. On a drive in PIO mode that becomes ready in time, reading a sector returns the bytes of the
  sector that the low 28 bits of the address name, and leaves the disk alone; on a faulty drive, or
  one that stays busy for 99999 polls, it fails and leaves the disk alone.
\<close>
theorem ata_read_refines_disk:
  assumes "\<forall>l. length (p_disk d l) = 512"
  shows "snd (ata_read_sector pio_device d lba) =
      (if p_latency d < 99999 \<and> \<not> p_fault d then Some (disk_read (p_disk d) lba) else None) \<and>
    p_disk (fst (ata_read_sector pio_device d lba)) = p_disk d"
proof -
  let ?ws = "words_of_bytes (p_disk d (lba28 lba))"
  have len: "length ?ws = 256" using assms by (simp add: length_words)
  then have ne: "?ws \<noteq> []" by auto
  obtain h lo mid hi where c: "ata_command pio_device lba ATA_CMD_READ_PIO d =
      d\<lparr>p_head := h, p_lo := lo, p_mid := mid, p_hi := hi, p_phase := Sending ?ws, p_busy := p_latency d\<rparr>" (is "_ = ?d")
    using pio_command [of "0x20" lba d] by (auto simp: ATA_CMD_READ_PIO_def)
  show ?thesis
  proof (cases "p_latency d < 99999")
    case True
    then have w: "wait_ready_loop 99999 pio_device ?d = (?d\<lparr>p_busy := 0\<rparr>, \<not> p_fault d)"
      by (subst pio_wait) simp_all
    have r: "read_words 256 pio_device
          (d\<lparr>p_head := h, p_lo := lo, p_mid := mid, p_hi := hi, p_phase := Sending ?ws, p_busy := 0\<rparr>) =
        (d\<lparr>p_head := h, p_lo := lo, p_mid := mid, p_hi := hi, p_phase := Idle, p_busy := 0\<rparr>,
         disk_read (p_disk d) lba)"
      using pio_read_words [of "?d\<lparr>p_busy := 0\<rparr>" ?ws] ne assms
      by (simp add: len bytes_words disk_read_def)
    show ?thesis
      using True by (simp add: ata_read_sector_def ata_wait_ready_def c w r pio_inb_def ATA_PRIMARY_CTRL_def)
  next
    case False
    then have "\<not> snd (wait_ready_loop 99999 pio_device ?d) \<and> p_disk (fst (wait_ready_loop 99999 pio_device ?d)) = p_disk d"
      using pio_wait_timeout [of 99999 ?d] by simp
    moreover obtain x b where "wait_ready_loop 99999 pio_device ?d = (x, b)" by fastforce
    ultimately show ?thesis
      using False by (simp add: ata_read_sector_def ata_wait_ready_def c)
  qed
qed

definition demo_drive :: pio where
  "demo_drive = \<lparr>p_disk = (\<lambda>l. replicate 512 (ucast l)), p_head = 0, p_lo = 0, p_mid = 0, p_hi = 0,
     p_phase = Idle, p_busy = 0, p_latency = 3, p_fault = False\<rparr>"

theorem ata_read_refines_disk_witness:
  "snd (ata_read_sector pio_device demo_drive 0x30000005) = Some (replicate 512 5)"
  using ata_read_refines_disk [of demo_drive "0x30000005"]
  by (simp add: demo_drive_def disk_read_def lba28_def)



end
