(* ===== verification/KString.thy ===== *)
theory KString
  imports Prelude
begin

text \<open>
  The memory and string routines of \<open>src/src/libk/string.c\<close>.  Memory is a function from addresses
  (naturals: an object of C does not wrap around the address space) to bytes.  Loops with a counter
  are recursions on it; loops that run to a terminator are partial functions, where \<open>None\<close> means
  that no terminator is ever met.

  \<open>memmove\<close> is modelled with its alignment, word and tail loops in both directions; the lemmas show
  that it moves the block for every overlap, that \<open>memcpy\<close> does so when the destination does not lie
  inside the source block behind its start, and what the string routines do on C strings.
\<close>

type_synonym mem = "nat \<Rightarrow> u8"

section \<open>Blocks\<close>

primrec memset :: "mem \<Rightarrow> nat \<Rightarrow> u8 \<Rightarrow> nat \<Rightarrow> mem" where
  "memset m buf v 0 = m"
| "memset m buf v (Suc n) = (memset m buf v n)(buf + n := v)"

primrec memcpy :: "mem \<Rightarrow> nat \<Rightarrow> nat \<Rightarrow> nat \<Rightarrow> mem" where
  "memcpy m d s 0 = m"
| "memcpy m d s (Suc n) = (let m' = memcpy m d s n in m'(d + n := m' (s + n)))"

text \<open>\<open>*dw = *sw\<close>: eight bytes are read, then eight bytes are written.\<close>
definition load_bytes :: "mem \<Rightarrow> nat \<Rightarrow> nat \<Rightarrow> u8 list" where
  "load_bytes m p n = map (\<lambda>i. m (p + i)) [0..<n]"

fun store_bytes :: "mem \<Rightarrow> nat \<Rightarrow> u8 list \<Rightarrow> mem" where
  "store_bytes m p [] = m"
| "store_bytes m p (b # bs) = store_bytes (m(p := b)) (p + 1) bs"

definition copy_word :: "mem \<Rightarrow> nat \<Rightarrow> nat \<Rightarrow> mem" where
  "copy_word m d s = store_bytes m d (load_bytes m s 8)"

text \<open>The loops of the forward branch; each returns memory, both pointers and the count left.\<close>

primrec align_fwd :: "mem \<Rightarrow> nat \<Rightarrow> nat \<Rightarrow> nat \<Rightarrow> mem \<times> nat \<times> nat \<times> nat" where
  "align_fwd m d s 0 = (m, d, s, 0)"
| "align_fwd m d s (Suc n) =
     (if d mod 8 \<noteq> 0 then align_fwd (m(d := m s)) (d + 1) (s + 1) n else (m, d, s, Suc n))"

fun words_fwd :: "mem \<Rightarrow> nat \<Rightarrow> nat \<Rightarrow> nat \<Rightarrow> mem \<times> nat \<times> nat \<times> nat" where
  "words_fwd m d s n =
     (if 8 \<le> n then words_fwd (copy_word m d s) (d + 8) (s + 8) (n - 8) else (m, d, s, n))"

primrec tail_fwd :: "mem \<Rightarrow> nat \<Rightarrow> nat \<Rightarrow> nat \<Rightarrow> mem" where
  "tail_fwd m d s 0 = m"
| "tail_fwd m d s (Suc n) = tail_fwd (m(d := m s)) (d + 1) (s + 1) n"

text \<open>The loops of the backward branch, whose pointers are at the ends of the blocks.\<close>

primrec align_bwd :: "mem \<Rightarrow> nat \<Rightarrow> nat \<Rightarrow> nat \<Rightarrow> mem \<times> nat \<times> nat \<times> nat" where
  "align_bwd m d s 0 = (m, d, s, 0)"
| "align_bwd m d s (Suc n) =
     (if d mod 8 \<noteq> 0 then align_bwd (m(d - 1 := m (s - 1))) (d - 1) (s - 1) n else (m, d, s, Suc n))"

fun words_bwd :: "mem \<Rightarrow> nat \<Rightarrow> nat \<Rightarrow> nat \<Rightarrow> mem \<times> nat \<times> nat \<times> nat" where
  "words_bwd m d s n =
     (if 8 \<le> n then words_bwd (copy_word m (d - 8) (s - 8)) (d - 8) (s - 8) (n - 8) else (m, d, s, n))"

primrec tail_bwd :: "mem \<Rightarrow> nat \<Rightarrow> nat \<Rightarrow> nat \<Rightarrow> mem" where
  "tail_bwd m d s 0 = m"
| "tail_bwd m d s (Suc n) = tail_bwd (m(d - 1 := m (s - 1))) (d - 1) (s - 1) n"

declare words_fwd.simps [simp del] words_bwd.simps [simp del]

definition memmove :: "mem \<Rightarrow> nat \<Rightarrow> nat \<Rightarrow> nat \<Rightarrow> mem" where
  "memmove m dest src n =
     (if src < dest \<and> dest < src + n
      then case align_bwd m (dest + n) (src + n) n of (m, d, s, n) \<Rightarrow>
             (case words_bwd m d s n of (m, d, s, n) \<Rightarrow> tail_bwd m d s n)
      else case align_fwd m dest src n of (m, d, s, n) \<Rightarrow>
             (case words_fwd m d s n of (m, d, s, n) \<Rightarrow> tail_fwd m d s n))"

section \<open>Moving a block\<close>

text \<open>The first \<open>j\<close> bytes moved, and the bytes from \<open>j\<close> up to \<open>n\<close> moved.\<close>

definition moved :: "mem \<Rightarrow> nat \<Rightarrow> nat \<Rightarrow> nat \<Rightarrow> nat \<Rightarrow> mem" where
  "moved m d s i j = (\<lambda>a. if d + i \<le> a \<and> a < d + j then m (s + (a - d)) else m a)"

lemma moved_same [simp]: "moved m d s i i = m"
  by (rule ext) (auto simp: moved_def)

lemma store_bytes_nth:
  "store_bytes m p bs a = (if p \<le> a \<and> a < p + length bs then bs ! (a - p) else m a)"
proof (induction bs arbitrary: m p)
  case (Cons b bs)
  show ?case
  proof (cases "p + 1 \<le> a \<and> a < p + 1 + length bs")
    case True
    then obtain k where "a = p + 1 + k" by (metis le_Suc_ex)
    then show ?thesis using True Cons.IH by simp
  next
    case False
    then show ?thesis using Cons.IH by auto
  qed
next
  case Nil
  then show ?case by auto
qed

lemma copy_word_nth:
  "copy_word m d s a = (if d \<le> a \<and> a < d + 8 then m (s + (a - d)) else m a)"
proof -
  have "map (\<lambda>i. m (s + i)) [0..<8] ! (a - d) = m (s + (a - d))" if "a - d < 8"
    using that by (simp add: nth_map del: upt_rec_numeral)
  then show ?thesis
    by (auto simp: copy_word_def store_bytes_nth load_bytes_def simp del: upt_rec_numeral)
qed

text \<open>A step of \<open>b\<close> bytes reads source bytes that have not been overwritten yet.\<close>

lemma moved_step_fwd:
  assumes "d \<le> s \<or> s + n \<le> d" and "j + b \<le> n"
  shows "(\<lambda>a. if d + j \<le> a \<and> a < d + j + b then moved m d s 0 j (s + j + (a - (d + j)))
              else moved m d s 0 j a) = moved m d s 0 (j + b)"
proof (rule ext)
  fix a
  show "(if d + j \<le> a \<and> a < d + j + b then moved m d s 0 j (s + j + (a - (d + j))) else moved m d s 0 j a) =
      moved m d s 0 (j + b) a"
  proof (cases "d + j \<le> a \<and> a < d + j + b")
    case True
    then obtain k where k: "a = d + j + k" "k < b" by (metis le_Suc_ex add_less_cancel_left)
    have "moved m d s 0 j (s + j + k) = m (s + j + k)"
      using assms k(2) by (auto simp: moved_def)
    then show ?thesis using k by (simp add: moved_def add.assoc)
  next
    case False
    then show ?thesis by (auto simp: moved_def)
  qed
qed

lemma moved_step_bwd:
  assumes "s < d" and "c + b \<le> n"
  shows "(\<lambda>a. if d + c \<le> a \<and> a < d + c + b then moved m d s (c + b) n (s + c + (a - (d + c)))
              else moved m d s (c + b) n a) = moved m d s c n"
proof (rule ext)
  fix a
  show "(if d + c \<le> a \<and> a < d + c + b then moved m d s (c + b) n (s + c + (a - (d + c)))
      else moved m d s (c + b) n a) = moved m d s c n a"
  proof (cases "d + c \<le> a \<and> a < d + c + b")
    case True
    then obtain k where k: "a = d + c + k" "k < b" by (metis le_Suc_ex add_less_cancel_left)
    have "moved m d s (c + b) n (s + c + k) = m (s + c + k)"
      using assms k(2) by (simp add: moved_def)
    then show ?thesis using k assms by (simp add: moved_def add.assoc)
  next
    case False
    then show ?thesis using assms by (auto simp: moved_def)
  qed
qed

lemma upd_block: "(m :: mem)(d := m s) = (\<lambda>a. if d \<le> a \<and> a < d + 1 then m (s + (a - d)) else m a)"
  by (auto simp: fun_eq_iff)

lemma copy_word_block: "copy_word m d s = (\<lambda>a. if d \<le> a \<and> a < d + 8 then m (s + (a - d)) else m a)"
  by (rule ext) (rule copy_word_nth)

lemma upd_fwd:
  "d \<le> s \<or> s + n \<le> d \<Longrightarrow> j < n \<Longrightarrow>
   (moved m d s 0 j)(d + j := moved m d s 0 j (s + j)) = moved m d s 0 (Suc j)"
  using moved_step_fwd [of d s n j 1 m] unfolding upd_block [of "moved m d s 0 j" "d + j"] by simp

lemma word_fwd:
  "d \<le> s \<or> s + n \<le> d \<Longrightarrow> j + 8 \<le> n \<Longrightarrow> copy_word (moved m d s 0 j) (d + j) (s + j) = moved m d s 0 (j + 8)"
  unfolding copy_word_block by (rule moved_step_fwd)

lemma upd_bwd:
  assumes "s < d" and "Suc j \<le> n"
  shows "(moved m d s (Suc j) n)(d + j := moved m d s (Suc j) n (s + j)) = moved m d s j n"
  using moved_step_bwd [of s d j 1 n m] assms
  unfolding upd_block [of "moved m d s (Suc j) n" "d + j"] unfolding Suc_eq_plus1 by blast

lemma word_bwd:
  assumes "s < d" and "8 \<le> j" and "j \<le> n"
  shows "copy_word (moved m d s j n) (d + (j - 8)) (s + (j - 8)) = moved m d s (j - 8) n"
proof -
  have "j - 8 + 8 = j" using assms(2) by simp
  from moved_step_bwd [of s d "j - 8" 8 n m, unfolded this] show ?thesis
    using assms unfolding copy_word_block by blast
qed

lemma align_fwd_moved:
  "d \<le> s \<or> s + n \<le> d \<Longrightarrow> j + k = n \<Longrightarrow>
   \<exists>j'. align_fwd (moved m d s 0 j) (d + j) (s + j) k = (moved m d s 0 j', d + j', s + j', n - j') \<and> j' \<le> n"
proof (induction k arbitrary: j)
  case 0
  then show ?case by auto
next
  case (Suc k)
  show ?case
  proof (cases "(d + j) mod 8 = 0")
    case True
    then show ?thesis using Suc.prems by (intro exI [of _ j]) auto
  next
    case False
    then show ?thesis using Suc.IH [of "Suc j"] Suc.prems upd_fwd [of d s n j m] by simp
  qed
qed

lemma words_fwd_moved:
  "d \<le> s \<or> s + n \<le> d \<Longrightarrow> j + k = n \<Longrightarrow>
   \<exists>j'. words_fwd (moved m d s 0 j) (d + j) (s + j) k = (moved m d s 0 j', d + j', s + j', n - j') \<and> j' \<le> n"
proof (induction k arbitrary: j rule: less_induct)
  case (less k)
  show ?case
  proof (cases "8 \<le> k")
    case False
    then show ?thesis using less.prems by (subst words_fwd.simps) auto
  next
    case True
    then have "k - 8 < k" "(j + 8) + (k - 8) = n" "j + 8 \<le> n" using less.prems(2) by simp_all
    then show ?thesis
      using True less.IH [of "k - 8" "j + 8"] less.prems(1) word_fwd [of d s n j m]
      by (subst words_fwd.simps) (simp add: add.assoc)
  qed
qed

lemma tail_fwd_moved:
  "d \<le> s \<or> s + n \<le> d \<Longrightarrow> j + k = n \<Longrightarrow> tail_fwd (moved m d s 0 j) (d + j) (s + j) k = moved m d s 0 n"
proof (induction k arbitrary: j)
  case (Suc k)
  then show ?case using Suc.IH [of "Suc j"] upd_fwd [of d s n j m] by simp
qed simp

lemma align_bwd_moved:
  "s < d \<Longrightarrow> j \<le> n \<Longrightarrow>
   \<exists>j'. align_bwd (moved m d s j n) (d + j) (s + j) j = (moved m d s j' n, d + j', s + j', j') \<and> j' \<le> n"
proof (induction j)
  case 0
  then show ?case by auto
next
  case (Suc j)
  then show ?case using upd_bwd [of s d j n m] by auto
qed

lemma words_bwd_moved:
  "s < d \<Longrightarrow> j \<le> n \<Longrightarrow>
   \<exists>j'. words_bwd (moved m d s j n) (d + j) (s + j) j = (moved m d s j' n, d + j', s + j', j') \<and> j' \<le> n"
proof (induction j rule: less_induct)
  case (less j)
  show ?case
  proof (cases "8 \<le> j")
    case False
    then show ?thesis using less.prems by (subst words_bwd.simps) auto
  next
    case True
    then have "j - 8 < j" "d + j - 8 = d + (j - 8)" "s + j - 8 = s + (j - 8)" "j - 8 \<le> n"
      using less.prems(2) by simp_all
    then show ?thesis
      using True less.IH [of "j - 8"] less.prems word_bwd [of s d j n m]
      by (subst words_bwd.simps) simp
  qed
qed

lemma tail_bwd_moved: "s < d \<Longrightarrow> j \<le> n \<Longrightarrow> tail_bwd (moved m d s j n) (d + j) (s + j) j = moved m d s 0 n"
proof (induction j)
  case (Suc j)
  then show ?case using upd_bwd [of s d j n m] by simp
qed simp

lemma memmove_moved: "memmove m d s n = moved m d s 0 n"
proof (cases "s < d \<and> d < s + n")
  case True
  then have sd: "s < d" by simp
  obtain j where j: "align_bwd m (d + n) (s + n) n = (moved m d s j n, d + j, s + j, j)" "j \<le> n"
    using align_bwd_moved [OF sd order_refl, of m n] by auto
  obtain k where k: "words_bwd (moved m d s j n) (d + j) (s + j) j = (moved m d s k n, d + k, s + k, k)" "k \<le> n"
    using words_bwd_moved [OF sd j(2)] by blast
  show ?thesis using True j(1) k tail_bwd_moved [OF sd k(2), of m] by (simp add: memmove_def)
next
  case False
  then have sd: "d \<le> s \<or> s + n \<le> d" by auto
  obtain j where j: "align_fwd m d s n = (moved m d s 0 j, d + j, s + j, n - j)" "j \<le> n"
    using align_fwd_moved [OF sd, of 0 n m] by auto
  obtain k where k: "words_fwd (moved m d s 0 j) (d + j) (s + j) (n - j) = (moved m d s 0 k, d + k, s + k, n - k)"
      "k \<le> n"
    using words_fwd_moved [OF sd, of j "n - j" m] j(2) by auto
  show ?thesis
    using False j(1) k tail_fwd_moved [OF sd, of k "n - k" m] by (auto simp: memmove_def)
qed

lemma memcpy_moved: "d \<le> s \<or> s + n \<le> d \<Longrightarrow> memcpy m d s n = moved m d s 0 n"
proof -
  assume sd: "d \<le> s \<or> s + n \<le> d"
  have "j \<le> n \<Longrightarrow> memcpy m d s j = moved m d s 0 j" for j
  proof (induction j)
    case (Suc j)
    then show ?case using upd_fwd [OF sd, of j m] by simp
  qed simp
  then show ?thesis by simp
qed


section \<open>Strings\<close>

partial_function (option) strlen_loop :: "mem \<Rightarrow> nat \<Rightarrow> nat \<Rightarrow> nat option" where
  "strlen_loop m str len = (if m (str + len) \<noteq> 0 then strlen_loop m str (len + 1) else Some len)"

definition strlen :: "mem \<Rightarrow> nat \<Rightarrow> nat option" where
  "strlen m str = strlen_loop m str 0"

partial_function (option) strcpy_loop :: "mem \<Rightarrow> nat \<Rightarrow> nat \<Rightarrow> mem option" where
  "strcpy_loop m p src =
     (let c = m src
      in if c \<noteq> 0 then strcpy_loop (m(p := c)) (p + 1) (src + 1) else Some (m(p := 0)))"

definition strcpy :: "mem \<Rightarrow> nat \<Rightarrow> nat \<Rightarrow> mem option" where
  "strcpy m dst src = strcpy_loop m dst src"

function strncpy_copy :: "mem \<Rightarrow> nat \<Rightarrow> nat \<Rightarrow> nat \<Rightarrow> nat \<Rightarrow> mem \<times> nat" where
  "strncpy_copy m dst src i n =
     (if i < n \<and> m (src + i) \<noteq> 0
      then strncpy_copy (m(dst + i := m (src + i))) dst src (i + 1) n
      else (m, i))"
  by pat_completeness auto
termination by (relation "measure (\<lambda>(m, dst, src, i, n). n - i)") auto

declare strncpy_copy.simps [simp del]

definition strncpy :: "mem \<Rightarrow> nat \<Rightarrow> nat \<Rightarrow> nat \<Rightarrow> mem" where
  "strncpy m dst src n =
     (case strncpy_copy m dst src 0 n of (m', i) \<Rightarrow> fold (\<lambda>i m. m(dst + i := 0)) [i..<n] m')"

text \<open>\<open>char\<close> is signed; the result is the difference of the first bytes that differ.\<close>
partial_function (option) strcmp :: "mem \<Rightarrow> nat \<Rightarrow> nat \<Rightarrow> int option" where
  "strcmp m s1 s2 =
     (if m s1 = m s2
      then if m s1 = 0 then Some 0 else strcmp m (s1 + 1) (s2 + 1)
      else Some (sint (m s1) - sint (m s2)))"

definition strcat :: "mem \<Rightarrow> nat \<Rightarrow> nat \<Rightarrow> mem option" where
  "strcat m d s = (case strlen m d of None \<Rightarrow> None | Some n \<Rightarrow> strcpy m (d + n) s)"

text \<open>\<open>Some None\<close> is the null pointer.\<close>
partial_function (option) strchr :: "mem \<Rightarrow> nat \<Rightarrow> u8 \<Rightarrow> nat option option" where
  "strchr m s ch =
     (if m s \<noteq> 0 then if m s = ch then Some (Some s) else strchr m (s + 1) ch else Some None)"

text \<open>The two scanning loops of \<open>strtok\<close>: past characters that are (or are not) delimiters.\<close>
partial_function (option) strtok_scan :: "mem \<Rightarrow> nat \<Rightarrow> bool \<Rightarrow> nat \<Rightarrow> nat option" where
  "strtok_scan m delim in_delim s =
     (if m s \<noteq> 0
      then (case strchr m delim (m s) of
              None \<Rightarrow> None
            | Some r \<Rightarrow> if (r \<noteq> None) = in_delim then strtok_scan m delim in_delim (s + 1) else Some s)
      else Some s)"

text \<open>
  \<open>s = None\<close> is the null pointer, which continues with the static \<open>oldword\<close>.  The result: memory,
  the new \<open>oldword\<close>, and the token's address or null.
\<close>
definition strtok :: "mem \<Rightarrow> nat \<Rightarrow> nat option \<Rightarrow> nat \<Rightarrow> (mem \<times> nat \<times> nat option) option" where
  "strtok m oldword s delim =
     (let s = (case s of None \<Rightarrow> oldword | Some p \<Rightarrow> p)
      in case strtok_scan m delim True s of
           None \<Rightarrow> None
         | Some w \<Rightarrow>
             if m w = 0 then Some (m, w, None)
             else (case strtok_scan m delim False w of
                     None \<Rightarrow> None
                   | Some e \<Rightarrow>
                       if m e \<noteq> 0 then Some (m(e := 0), e + 1, Some w)
                       else Some (m, e, Some w)))"

section \<open>Strings in memory\<close>

definition cstring_at :: "mem \<Rightarrow> nat \<Rightarrow> cstring \<Rightarrow> bool" where
  "cstring_at m p s \<longleftrightarrow> is_cstring s \<and> (\<forall>i < length s. m (p + i) = s ! i) \<and> m (p + length s) = 0"

lemma cstring_at_Nil: "cstring_at m p [] \<longleftrightarrow> m p = 0"
  by (simp add: cstring_at_def)

lemma cstring_at_Cons:
  "cstring_at m p (c # s) \<longleftrightarrow> c \<noteq> 0 \<and> m p = c \<and> cstring_at m (p + 1) s"
  unfolding cstring_at_def by (auto simp: nth_Cons' less_Suc_eq_0_disj)

lemma cstring_at_drop: "cstring_at m p s \<Longrightarrow> i \<le> length s \<Longrightarrow> cstring_at m (p + i) (drop i s)"
proof (induction i arbitrary: p s)
  case (Suc i)
  then obtain c s' where s: "s = c # s'" by (cases s) auto
  then show ?case using Suc.IH [of "p + 1" s'] Suc.prems by (simp add: cstring_at_Cons)
qed simp

lemma cstring_at_cong:
  "cstring_at m p s \<Longrightarrow> \<forall>a. p \<le> a \<longrightarrow> a \<le> p + length s \<longrightarrow> m' a = m a \<Longrightarrow> cstring_at m' p s"
  by (simp add: cstring_at_def)

lemma cstring_at_append:
  "cstring_at m p (x @ y) \<longleftrightarrow>
     is_cstring x \<and> (\<forall>i < length x. m (p + i) = x ! i) \<and> cstring_at m (p + length x) y"
proof (induction x arbitrary: p)
  case (Cons c x)
  then show ?case by (auto simp: cstring_at_Cons less_Suc_eq_0_disj)
qed simp

lemma strlen_at: "cstring_at m p s \<Longrightarrow> strlen m p = Some (length s)"
proof -
  assume c: "cstring_at m p s"
  have "i \<le> length s \<Longrightarrow> strlen_loop m p i = Some (length s)" for i
  proof (induction "length s - i" arbitrary: i)
    case 0
    then have "i = length s" by simp
    then show ?case using c by (subst strlen_loop.simps) (simp add: cstring_at_def)
  next
    case (Suc k)
    then have "i < length s" "k = length s - (i + 1)" by simp_all
    moreover from this have "m (p + i) \<noteq> 0" using c is_cstring_nth by (simp add: cstring_at_def)
    ultimately show ?case using Suc.hyps(1) [of "i + 1"] by (subst strlen_loop.simps) simp
  qed
  then show ?thesis by (simp add: strlen_def)
qed

lemma strcmp_at:
  "cstring_at m p s \<Longrightarrow> cstring_at m q t \<Longrightarrow> \<exists>r. strcmp m p q = Some r \<and> (r = 0 \<longleftrightarrow> s = t)"
proof (induction s arbitrary: p q t)
  case Nil
  have "c \<noteq> 0 \<Longrightarrow> sint c \<noteq> 0" for c :: u8 by (simp add: signed_eq_0_iff)
  with Nil show ?case
    by (cases t; subst strcmp.simps) (force simp: cstring_at_Nil cstring_at_Cons)+
next
  case (Cons c s)
  show ?case
  proof (cases t)
    case Nil
    have "c \<noteq> 0 \<Longrightarrow> sint c \<noteq> 0" by (simp add: signed_eq_0_iff)
    with Nil show ?thesis using Cons.prems by (subst strcmp.simps) (auto simp: cstring_at_Nil cstring_at_Cons)
  next
    case (Cons d t')
    show ?thesis
    proof (cases "c = d")
      case True
      then show ?thesis
        using Cons Cons.prems Cons.IH [of "p + 1" "q + 1" t']
        by (subst strcmp.simps) (auto simp: cstring_at_Cons)
    next
      case False
      then have "sint c \<noteq> sint d" using word_eq_iff_signed [of c d] by simp
      then show ?thesis
        using False Cons Cons.prems by (subst strcmp.simps) (auto simp: cstring_at_Cons)
    qed
  qed
qed

text \<open>Copying a string to a destination that does not run into the source.\<close>

lemma strcpy_loop_at:
  "cstring_at m src s \<Longrightarrow> dst + length s < src \<or> src + length s < dst \<or> dst \<le> src \<Longrightarrow>
   \<exists>m'. strcpy_loop m dst src = Some m' \<and> cstring_at m' dst s \<and>
     (\<forall>a. a < dst \<or> dst + length s < a \<longrightarrow> m' a = m a)"
proof (induction s arbitrary: m dst src)
  case Nil
  then show ?case by (subst strcpy_loop.simps) (simp add: cstring_at_Nil)
next
  case (Cons c s)
  have c: "c \<noteq> 0" "m src = c" "cstring_at m (src + 1) s" using Cons.prems(1) by (simp_all add: cstring_at_Cons)
  let ?m = "m(dst := c)"
  have "cstring_at ?m (src + 1) s"
    by (rule cstring_at_cong [OF c(3)]) (use Cons.prems(2) in auto)
  moreover have "dst + 1 + length s < src + 1 \<or> src + 1 + length s < dst + 1 \<or> dst + 1 \<le> src + 1"
    using Cons.prems(2) by auto
  ultimately obtain m' where m': "strcpy_loop ?m (dst + 1) (src + 1) = Some m'" "cstring_at m' (dst + 1) s"
      "\<forall>a. a < dst + 1 \<or> dst + 1 + length s < a \<longrightarrow> m' a = ?m a"
    using Cons.IH by blast
  have "cstring_at m' dst (c # s)" using m'(2,3) c(1) by (simp add: cstring_at_Cons)
  moreover have "strcpy_loop m dst src = Some m'" using m'(1) c by (subst strcpy_loop.simps) simp
  ultimately show ?case using m'(3) by auto
qed

lemma strchr_at:
  "cstring_at m p s \<Longrightarrow> \<exists>r. strchr m p c = Some r \<and> (r \<noteq> None \<longleftrightarrow> c \<in> set s)"
proof (induction s arbitrary: p)
  case Nil
  then show ?case by (subst strchr.simps) (simp add: cstring_at_Nil)
next
  case (Cons x s)
  then show ?case by (subst strchr.simps) (auto simp: cstring_at_Cons)
qed

lemma strtok_scan_at:
  "cstring_at m p s \<Longrightarrow> cstring_at m q dl \<Longrightarrow>
   strtok_scan m q b p = Some (p + length (takeWhile (\<lambda>c. (c \<in> set dl) = b) s))"
proof (induction s arbitrary: p)
  case Nil
  then show ?case by (subst strtok_scan.simps) (simp add: cstring_at_Nil)
next
  case (Cons x s)
  obtain r where r: "strchr m q x = Some r" "r \<noteq> None \<longleftrightarrow> x \<in> set dl"
    using strchr_at [OF Cons.prems(2)] by blast
  have "m p = x" "x \<noteq> 0" using Cons.prems(1) by (simp_all add: cstring_at_Cons)
  then show ?case
    using r Cons.IH [of "p + 1"] Cons.prems by (subst strtok_scan.simps) (auto simp: cstring_at_Cons)
qed

lemma length_after_token:
  assumes "w \<noteq> []" and "hd w \<notin> D"
  shows "length (tl (dropWhile (\<lambda>c. c \<notin> D) w)) < length w"
proof -
  obtain x xs where w: "w = x # xs" using assms(1) by (cases w) auto
  then have "length (tl (dropWhile (\<lambda>c. c \<notin> D) w)) \<le> length (dropWhile (\<lambda>c. c \<notin> D) xs)"
    using assms(2) by simp
  also have "\<dots> \<le> length xs" by (rule length_dropWhile_le)
  finally show ?thesis using w by simp
qed

text \<open>The tokens of a string, as repeated calls of \<open>strtok\<close> deliver them.\<close>
function tokens :: "u8 set \<Rightarrow> cstring \<Rightarrow> cstring list" where
  "tokens D s =
     (if dropWhile (\<lambda>c. c \<in> D) s = [] then []
      else takeWhile (\<lambda>c. c \<notin> D) (dropWhile (\<lambda>c. c \<in> D) s) #
        tokens D (tl (dropWhile (\<lambda>c. c \<notin> D) (dropWhile (\<lambda>c. c \<in> D) s))))"
  by pat_completeness auto

termination
proof (relation "measure (\<lambda>(D, s). length s)")
  fix D :: "u8 set" and s :: cstring
  define w where "w = dropWhile (\<lambda>c. c \<in> D) s"
  assume "dropWhile (\<lambda>c. c \<in> D) s \<noteq> []"
  then have "w \<noteq> []" "hd w \<notin> D" using hd_dropWhile [of "\<lambda>c. c \<in> D" s] by (simp_all add: w_def)
  then have "length (tl (dropWhile (\<lambda>c. c \<notin> D) w)) < length w" by (rule length_after_token)
  also have "length w \<le> length s" unfolding w_def by (rule length_dropWhile_le)
  finally show "((D, tl (dropWhile (\<lambda>c. c \<notin> D) (dropWhile (\<lambda>c. c \<in> D) s))), D, s)
      \<in> measure (\<lambda>(D, s). length s)" unfolding w_def by simp
qed (rule wf_measure)

declare tokens.simps [simp del]

lemma strtok_at:
  assumes s: "cstring_at m p s" and dl: "cstring_at m q dl"
    and disj: "q + length dl < p \<or> p + length s < q"
  shows "\<exists>m' old r. strtok m oldword (Some p) q = Some (m', old, r) \<and>
    (\<forall>a. a < p \<or> p + length s \<le> a \<longrightarrow> m' a = m a) \<and>
    (let w = dropWhile (\<lambda>c. c \<in> set dl) s; t = takeWhile (\<lambda>c. c \<notin> set dl) w;
         rest = tl (dropWhile (\<lambda>c. c \<notin> set dl) w) in
       if w = [] then r = None \<and> cstring_at m' old []
       else (\<exists>a. r = Some a \<and> cstring_at m' a t \<and> p \<le> a \<and> (a + length t < old \<or> a + length t = old \<and> rest = [])) \<and>
         cstring_at m' old rest \<and> p < old \<and> old + length rest \<le> p + length s)"
proof -
  let ?in = "\<lambda>c. c \<in> set dl" and ?out = "\<lambda>c. c \<notin> set dl"
  define w where "w = dropWhile ?in s"
  define i where "i = length (takeWhile ?in s)"
  have i: "i \<le> length s" "drop i s = w"
    by (simp_all add: i_def w_def length_takeWhile_le dropWhile_eq_drop)
  have scan1: "strtok_scan m q True p = Some (p + i)" using strtok_scan_at [OF s dl, of True] by (simp add: i_def)
  have at_w: "cstring_at m (p + i) w" using cstring_at_drop [OF s i(1)] i(2) by simp
  show ?thesis
  proof (cases "w = []")
    case True
    then have "m (p + i) = 0" using at_w by (simp add: cstring_at_Nil)
    then show ?thesis
      using True scan1 at_w by (simp add: strtok_def w_def [symmetric])
  next
    case False
    define j where "j = length (takeWhile ?out w)"
    define rest where "rest = dropWhile ?out w"
    have j: "j \<le> length w" "drop j w = rest" "take j w = takeWhile ?out w"
      by (simp_all add: j_def rest_def length_takeWhile_le dropWhile_eq_drop takeWhile_eq_take [symmetric])
    have lw: "length w = length s - i" using i(2) by auto
    have "hd w \<notin> set dl" using False hd_dropWhile [of ?in s] by (simp add: w_def)
    then have jpos: "0 < j" using False by (cases w) (simp_all add: j_def)
    have nz: "m (p + i) \<noteq> 0" using at_w False by (cases w) (simp_all add: cstring_at_Cons)
    have scan2: "strtok_scan m q False (p + i) = Some (p + i + j)"
      using strtok_scan_at [OF at_w dl, of False] by (simp add: j_def)
    have at_r: "cstring_at m (p + i + j) rest" using cstring_at_drop [OF at_w j(1)] j(2) by simp
    show ?thesis
    proof (cases rest)
      case Nil
      then have "m (p + i + j) = 0" using at_r by (simp add: cstring_at_Nil)
      moreover have "takeWhile ?out w = w" using Nil j(1,2,3) by simp
      then have "cstring_at m (p + i) (takeWhile ?out w)" using at_w by (simp only:)
      moreover have "p + i + j \<le> p + length s" using lw i(1) j(1) by linarith
      moreover have "p < p + i + j" using jpos by simp
      ultimately show ?thesis
        using False Nil scan1 scan2 nz at_r
        by (simp add: strtok_def w_def [symmetric] rest_def [symmetric] j_def [symmetric])
    next
      case (Cons x xs)
      let ?e = "p + i + j" and ?m = "m(p + i + j := 0)"
      have x: "m ?e \<noteq> 0" "cstring_at m (?e + 1) xs" using at_r Cons by (simp_all add: cstring_at_Cons)
      have lr: "length w = j + length rest" using j(1,2) by auto
      have tok: "cstring_at ?m (p + i) (takeWhile ?out w)"
      proof -
        have "is_cstring (take j w)" using at_w by (simp add: cstring_at_def is_cstring_take)
        moreover have "length (take j w) = j" using j(1) by simp
        moreover have "\<forall>k < j. ?m (p + i + k) = take j w ! k"
          using at_w j(1) by (simp add: cstring_at_def)
        ultimately show ?thesis by (simp add: cstring_at_def j(3) [symmetric])
      qed
      have "cstring_at ?m (?e + 1) xs" by (rule cstring_at_cong [OF x(2)]) simp
      moreover have "?e + 1 + length xs \<le> p + length s" using lr Cons lw i(1) by simp
      moreover have "?e < p + length s" using lr Cons lw i(1) by simp
      ultimately show ?thesis
        using False Cons scan1 scan2 nz x(1) tok
        by (simp add: strtok_def w_def [symmetric] rest_def [symmetric] j_def [symmetric])
    qed
  qed
qed

text \<open>The caller's loop: one call with the string, then calls with the null pointer, until null.\<close>
fun strtok_all :: "nat \<Rightarrow> mem \<Rightarrow> nat \<Rightarrow> nat option \<Rightarrow> nat \<Rightarrow> (mem \<times> nat list) option" where
  "strtok_all 0 m oldword s delim = None"
| "strtok_all (Suc n) m oldword s delim =
     (case strtok m oldword s delim of
        None \<Rightarrow> None
      | Some (m', old, None) \<Rightarrow> Some (m', [])
      | Some (m', old, Some a) \<Rightarrow>
          (case strtok_all n m' old None delim of None \<Rightarrow> None | Some (m'', as) \<Rightarrow> Some (m'', a # as)))"

lemma strtok_null: "strtok m oldword None delim = strtok m u (Some oldword) delim"
  by (simp add: strtok_def)

lemma strtok_all_null: "strtok_all n m oldword None delim = strtok_all n m u (Some oldword) delim"
  using strtok_null [of m oldword delim u] by (cases n) simp_all

lemma strtok_all_at:
  assumes "cstring_at m p s" and "cstring_at m q dl" and "q + length dl < p \<or> p + length s < q"
  shows "\<exists>m' as. strtok_all (Suc (length (tokens (set dl) s))) m oldword (Some p) q = Some (m', as) \<and>
    list_all2 (cstring_at m') as (tokens (set dl) s) \<and>
    (\<forall>a. a < p \<or> p + length s \<le> a \<longrightarrow> m' a = m a)"
  using assms
proof (induction "set dl" s arbitrary: m p oldword rule: tokens.induct)
  case (1 s)
  define w where "w = dropWhile (\<lambda>c. c \<in> set dl) s"
  define t where "t = takeWhile (\<lambda>c. c \<notin> set dl) w"
  define rest where "rest = tl (dropWhile (\<lambda>c. c \<notin> set dl) w)"
  obtain m1 old r where st: "strtok m oldword (Some p) q = Some (m1, old, r)"
      "\<forall>a. a < p \<or> p + length s \<le> a \<longrightarrow> m1 a = m a"
      "if w = [] then r = None \<and> cstring_at m1 old []
       else (\<exists>a. r = Some a \<and> cstring_at m1 a t \<and> p \<le> a \<and> (a + length t < old \<or> a + length t = old \<and> rest = [])) \<and>
         cstring_at m1 old rest \<and> p < old \<and> old + length rest \<le> p + length s"
    using strtok_at [OF 1(2-4), of oldword] unfolding Let_def w_def t_def rest_def by blast
  have tok: "tokens (set dl) s = (if w = [] then [] else t # tokens (set dl) rest)"
    unfolding w_def t_def rest_def by (subst tokens.simps) simp
  show ?case
  proof (cases "w = []")
    case True
    then show ?thesis using st tok by simp
  next
    case False
    then obtain a where a: "r = Some a" "cstring_at m1 a t" "p \<le> a"
        "a + length t < old \<or> a + length t = old \<and> rest = []"
        and rest: "cstring_at m1 old rest" "p < old" "old + length rest \<le> p + length s"
      using st(3) by auto
    have q: "cstring_at m1 q dl" by (rule cstring_at_cong [OF 1(3)]) (use st(2) 1(4) in auto)
    have "q + length dl < old \<or> old + length rest < q" using 1(4) rest by linarith
    then obtain m' as where m': "strtok_all (Suc (length (tokens (set dl) rest))) m1 0 (Some old) q = Some (m', as)"
        "list_all2 (cstring_at m') as (tokens (set dl) rest)"
        "\<forall>a. a < old \<or> old + length rest \<le> a \<longrightarrow> m' a = m1 a"
      using 1(1) [OF False [unfolded w_def], folded w_def, folded rest_def, OF rest(1) q, of 0] by blast
    have at: "cstring_at m' a t"
      by (rule cstring_at_cong [OF a(2)]) (use m'(3) a(4) in auto)
    have frame: "\<forall>a. a < p \<or> p + length s \<le> a \<longrightarrow> m' a = m a" using m'(3) st(2) rest by auto
    have "strtok_all (Suc (length (tokens (set dl) s))) m oldword (Some p) q = Some (m', a # as)"
      using st(1) a(1) tok False m'(1) strtok_null [of m1 old q 0] by simp
    then show ?thesis using at m'(2) frame tok False by auto
  qed
qed

section \<open>Properties\<close>

text \<open>
  C21. \<open>memmove\<close>, with its alignment loop, its loop over 64-bit words and its tail loop in either
  direction, moves the block for every overlap of the two regions: each byte of the destination
  block is the byte the source block held before the call, and no other byte changes.
\<close>
theorem memmove_moves_block:
  "memmove m dest src n a = (if dest \<le> a \<and> a < dest + n then m (src + (a - dest)) else m a)"
  by (simp add: memmove_moved moved_def)

text \<open>
  C22. Repeated calls of \<open>strtok\<close> on a string in memory (first with its address, then with null) return,
  and until null is returned they deliver the tokens of the string in order: at the end each returned
  address holds its token as a terminated string, and nothing outside the string was written.
\<close>
theorem strtok_delivers_tokens:
  assumes "cstring_at m p s" and "cstring_at m q dl" and "q + length dl < p \<or> p + length s < q"
  shows "\<exists>m' as. strtok_all (Suc (length (tokens (set dl) s))) m oldword (Some p) q = Some (m', as) \<and>
    list_all2 (cstring_at m') as (tokens (set dl) s) \<and>
    (\<forall>a. a < p \<or> p + length s \<le> a \<longrightarrow> m' a = m a)"
  by (rule strtok_all_at [OF assms])

definition demo_mem :: mem where
  "demo_mem a = ([0x2F, 0x61, 0x2F, 0x2F, 0x62, 0x63, 0, 0x2F, 0] @ replicate 16 0) ! (a mod 16)"

theorem strtok_delivers_tokens_witness:
  "\<exists>m' as. strtok_all 3 demo_mem 0 (Some 0) 7 = Some (m', as) \<and>
     list_all2 (cstring_at m') as [[0x61], [0x62, 0x63]]"
proof -
  have s: "cstring_at demo_mem 0 [0x2F, 0x61, 0x2F, 0x2F, 0x62, 0x63]"
    by (simp add: cstring_at_Cons cstring_at_Nil demo_mem_def)
  have d: "cstring_at demo_mem 7 [0x2F]" by (simp add: cstring_at_Cons cstring_at_Nil demo_mem_def)
  have t: "tokens {0x2F} [0x2F, 0x61, 0x2F, 0x2F, 0x62, 0x63] = [[0x61], [0x62, 0x63]]"
    by (simp add: tokens.simps)
  show ?thesis using strtok_delivers_tokens [OF s d, of 0] t by (auto simp: numeral_3_eq_3)
qed

text \<open>
  \<open>strcat\<close> returns on two strings that do not overlap and leaves at the destination the
  concatenation, terminated; \<open>strcmp\<close> of two strings returns 0 exactly when they are equal.
\<close>
theorem strcat_concatenates:
  assumes "cstring_at m d x" and "cstring_at m s y" and "d + length x + length y < s \<or> s + length y < d"
  shows "\<exists>m'. strcat m d s = Some m' \<and> cstring_at m' d (x @ y) \<and>
    (\<forall>a. a < d + length x \<or> d + length x + length y < a \<longrightarrow> m' a = m a) \<and>
    (\<exists>r. strcmp m d s = Some r \<and> (r = 0 \<longleftrightarrow> x = y))"
proof -
  have "d + length x + length y < s \<or> s + length y < d + length x \<or> d + length x \<le> s"
    using assms(3) by linarith
  then obtain m' where m': "strcpy_loop m (d + length x) s = Some m'" "cstring_at m' (d + length x) y"
      "\<forall>a. a < d + length x \<or> d + length x + length y < a \<longrightarrow> m' a = m a"
    using strcpy_loop_at [OF assms(2)] by blast
  have "cstring_at m' d (x @ y)"
    using assms(1) m'(2,3) by (simp add: cstring_at_append) (simp add: cstring_at_def)
  then show ?thesis
    using m'(1,3) strcmp_at [OF assms(1,2)] by (simp add: strcat_def strcpy_def strlen_at [OF assms(1)])
qed

theorem strcat_concatenates_witness:
  "\<exists>m'. strcat (demo_mem (20 := 0x61, 21 := 0)) 20 7 = Some m' \<and> cstring_at m' 20 [0x61, 0x2F]"
  using strcat_concatenates [of "demo_mem (20 := 0x61, 21 := 0)" 20 "[0x61]" 7 "[0x2F]"]
  by (auto simp: cstring_at_Cons cstring_at_Nil demo_mem_def)

end
