(* ===== verification/KStdio.thy ===== *)
theory KStdio
  imports Prelude "HOL-Library.Signed_Division"
begin

text \<open>
  Number conversion (\<open>itoa\<close>, \<open>utoa\<close> of \<open>src/src/libk/string.c\<close>) and the two formatters of
  \<open>src/src/libk/stdio.c\<close>: \<open>__vsprintf__\<close>, which hands characters and strings to callbacks, and
  \<open>sprintf\<close>, which writes to a buffer.  C's \<open>int\<close> division truncates (\<open>sdiv\<close>, \<open>smod\<close>).

  A variadic argument is a 64-bit slot; a string argument is a pointer, whose string is the
  parameter \<open>str_of\<close>.  \<open>None\<close> means that the function reads behind the terminator of the format or
  behind the last argument.

  The lemmas show the digits, the lengths against the callers' 32-byte buffers, and that
  the two formatters produce the same text.
\<close>

section \<open>Digits\<close>

definition digit_table :: cstring where
  "digit_table =
     bytes_of ''zyxwvutsrqponmlkjihgfedcba9876543210123456789abcdefghijklmnopqrstuvwxyz''"

definition digit :: "int \<Rightarrow> u8" where
  "digit r = digit_table ! nat (35 + r)"

partial_function (option) itoa_digits :: "int \<Rightarrow> int \<Rightarrow> cstring \<Rightarrow> cstring option" where
  "itoa_digits value base str =
     (let str = str @ [digit (value smod base)]; value = value sdiv base
      in if value \<noteq> 0 then itoa_digits value base str else Some str)"

partial_function (option) utoa_digits :: "u64 \<Rightarrow> u8 \<Rightarrow> cstring \<Rightarrow> cstring option" where
  "utoa_digits value base str =
     (let str = str @ [digit (uint (value mod ucast base))]; value = value div ucast base
      in if value \<noteq> 0 then utoa_digits value base str else Some str)"

text \<open>The reversal in place, between \<open>low\<close> and \<open>ptr\<close>.\<close>
function reverse_between :: "cstring \<Rightarrow> nat \<Rightarrow> nat \<Rightarrow> cstring" where
  "reverse_between str low ptr =
     (if low < ptr then reverse_between (str[low := str ! ptr, ptr := str ! low]) (low + 1) (ptr - 1) else str)"
  by pat_completeness auto
termination by (relation "measure (\<lambda>(str, low, ptr). ptr - low)") auto

declare reverse_between.simps [simp del]

definition itoa :: "int \<Rightarrow> int \<Rightarrow> cstring option" where
  "itoa value base =
     (if base < 2 \<or> 36 < base then Some []
      else
        let str = if value < 0 \<and> base = 10 then [0x2D] else [];
            low = length str
        in case itoa_digits value base str of
             None \<Rightarrow> None
           | Some str \<Rightarrow> Some (reverse_between str low (length str - 1)))"

definition utoa :: "u64 \<Rightarrow> u8 \<Rightarrow> cstring option" where
  "utoa value base =
     (if base < 2 \<or> 36 < base then Some []
      else
        case utoa_digits value base [] of
          None \<Rightarrow> None
        | Some str \<Rightarrow> Some (reverse_between str 0 (length str - 1)))"

section \<open>The formatters\<close>

text \<open>What \<open>va_arg\<close> reads from an argument slot.\<close>

definition arg_int :: "u64 \<Rightarrow> int" where
  "arg_int a = sint (ucast a :: u32)"

definition arg_char :: "u64 \<Rightarrow> u8" where
  "arg_char a = ucast a"

text \<open>The conversions of \<open>%x?\<close> and \<open>%u?\<close> in \<open>__vsprintf__\<close>; \<open>None\<close> is the default case.\<close>

definition vs_hex :: "u8 \<Rightarrow> (u64 \<Rightarrow> cstring option) option" where
  "vs_hex k =
     (if k = 0x6C then Some (\<lambda>a. utoa a 16)
      else if k = 0x69 then Some (\<lambda>a. utoa (ucast (ucast a :: u32)) 16)
      else if k = 0x73 then Some (\<lambda>a. utoa (ucast (ucast a :: u16)) 16)
      else if k = 0x64 then Some (\<lambda>a. itoa (arg_int a) 16)
      else if k = 0x63 then Some (\<lambda>a. itoa (sint (arg_char a)) 16)
      else if k = 0x68 then Some (\<lambda>a. utoa (ucast (ucast a :: u8)) 16)
      else None)"

definition vs_dec :: "u8 \<Rightarrow> (u64 \<Rightarrow> cstring option) option" where
  "vs_dec k =
     (if k = 0x6C then Some (\<lambda>a. utoa a 10)
      else if k = 0x69 then Some (\<lambda>a. utoa (ucast (ucast a :: u32)) 10)
      else if k = 0x73 then Some (\<lambda>a. utoa (ucast (ucast a :: u16)) 10)
      else if k = 0x68 then Some (\<lambda>a. utoa (ucast (ucast a :: u8)) 10)
      else None)"

definition null_text :: cstring where
  "null_text = bytes_of ''(null)''"

text \<open>One conversion, with its argument: \<open>puts_func\<close> of the converted text.\<close>
definition vs_put ::
  "(cstring \<Rightarrow> 's \<Rightarrow> 's) \<Rightarrow> (u64 \<Rightarrow> cstring option) \<Rightarrow> u64 list \<Rightarrow> 's \<Rightarrow> (u64 list \<times> 's) option" where
  "vs_put puts_func conv args s =
     (case args of
        [] \<Rightarrow> None
      | a # args \<Rightarrow> (case conv a of None \<Rightarrow> None | Some buffer \<Rightarrow> Some (args, puts_func buffer s)))"

fun vsprintf ::
  "(u8 \<Rightarrow> 's \<Rightarrow> 's) \<Rightarrow> (cstring \<Rightarrow> 's \<Rightarrow> 's) \<Rightarrow> (u64 \<Rightarrow> cstring) \<Rightarrow> cstring \<Rightarrow> u64 list \<Rightarrow> 's \<Rightarrow> 's option" where
  "vsprintf putchar_func puts_func str_of [] args s = Some s"
| "vsprintf putchar_func puts_func str_of [c] args s =
     (if c = 0x25 then None else Some (putchar_func c s))"
| "vsprintf putchar_func puts_func str_of (c # d # fmt) args s =
     (if c \<noteq> 0x25 then vsprintf putchar_func puts_func str_of (d # fmt) args (putchar_func c s)
      else if d = 0x63 then
        (case args of [] \<Rightarrow> None
         | a # args \<Rightarrow> vsprintf putchar_func puts_func str_of fmt args (putchar_func (arg_char a) s))
      else if d = 0x73 then
        (case args of [] \<Rightarrow> None
         | a # args \<Rightarrow> vsprintf putchar_func puts_func str_of fmt args
             (puts_func (if a \<noteq> 0 then str_of a else null_text) s))
      else if d = 0x64 \<or> d = 0x69 then
        (case vs_put puts_func (\<lambda>a. itoa (arg_int a) 10) args s of None \<Rightarrow> None
         | Some (args, s) \<Rightarrow> vsprintf putchar_func puts_func str_of fmt args s)
      else if d = 0x62 then
        (case vs_put puts_func (\<lambda>a. itoa (arg_int a) 2) args s of None \<Rightarrow> None
         | Some (args, s) \<Rightarrow> vsprintf putchar_func puts_func str_of fmt args s)
      else if d = 0x78 \<or> d = 0x75 then
        (case fmt of [] \<Rightarrow> None
         | k # fmt \<Rightarrow>
             (case if d = 0x78 then vs_hex k else vs_dec k of
                None \<Rightarrow> vsprintf putchar_func puts_func str_of fmt args (putchar_func k s)
              | Some conv \<Rightarrow>
                  (case vs_put puts_func conv args s of None \<Rightarrow> None
                   | Some (args, s) \<Rightarrow> vsprintf putchar_func puts_func str_of fmt args s)))
      else vsprintf putchar_func puts_func str_of fmt args (putchar_func d s))"

text \<open>
  \<open>sprintf\<close>: the text written so far is \<open>out\<close>.  A conversion fills \<open>temp_buffer\<close>, which is then copied
  up to its terminator; \<open>None\<close> in the third component of \<open>sp_conv\<close> is the default case.
\<close>

definition copy_temp :: "cstring \<Rightarrow> cstring \<Rightarrow> cstring" where
  "copy_temp temp_buffer out = out @ takeWhile (\<lambda>c. c \<noteq> 0) temp_buffer"

definition sp_hex :: "u8 \<Rightarrow> u64 list \<Rightarrow> cstring \<Rightarrow> (u64 list \<times> cstring) option" where
  "sp_hex k args out =
     (if k = 0x6C \<or> k = 0x69 \<or> k = 0x73 \<or> k = 0x64 \<or> k = 0x63 \<or> k = 0x68 then
        (case args of [] \<Rightarrow> None
         | a # args \<Rightarrow>
             (case if k = 0x6C then utoa a 16
                   else if k = 0x69 then utoa (ucast (ucast a :: u32)) 16
                   else if k = 0x73 then utoa (ucast (ucast (ucast a :: u32) :: u16)) 16
                   else if k = 0x64 then itoa (arg_int a) 16
                   else if k = 0x63 then itoa (sint (ucast (ucast a :: u32) :: u8)) 16
                   else utoa (ucast (ucast (ucast a :: u32) :: u8)) 16
              of None \<Rightarrow> None | Some temp_buffer \<Rightarrow> Some (args, copy_temp temp_buffer out)))
      else Some (args, copy_temp [] (out @ [k])))"

definition sp_dec :: "u8 \<Rightarrow> u64 list \<Rightarrow> cstring \<Rightarrow> (u64 list \<times> cstring) option" where
  "sp_dec k args out =
     (if k = 0x6C \<or> k = 0x69 \<or> k = 0x73 \<or> k = 0x68 then
        (case args of [] \<Rightarrow> None
         | a # args \<Rightarrow>
             (case if k = 0x6C then utoa a 10
                   else if k = 0x69 then utoa (ucast (ucast a :: u32)) 10
                   else if k = 0x73 then utoa (ucast (ucast (ucast a :: u32) :: u16)) 10
                   else utoa (ucast (ucast (ucast a :: u32) :: u8)) 10
              of None \<Rightarrow> None | Some temp_buffer \<Rightarrow> Some (args, copy_temp temp_buffer out)))
      else Some (args, copy_temp [] (out @ [k])))"

text \<open>The directive after a percent sign, except \<open>x\<close> and \<open>u\<close>.\<close>
definition sp_plain :: "(u64 \<Rightarrow> cstring) \<Rightarrow> u8 \<Rightarrow> u64 list \<Rightarrow> cstring \<Rightarrow> (u64 list \<times> cstring) option" where
  "sp_plain str_of d args out =
     (if d = 0x63 \<or> d = 0x73 \<or> d = 0x64 \<or> d = 0x69 \<or> d = 0x62 then
        (case args of [] \<Rightarrow> None
         | a # args \<Rightarrow>
             if d = 0x63 then Some (args, out @ [ucast (ucast a :: u32)])
             else if d = 0x73 then Some (args, out @ (if a = 0 then null_text else str_of a))
             else (case itoa (arg_int a) (if d = 0x62 then 2 else 10) of None \<Rightarrow> None
                   | Some temp_buffer \<Rightarrow> Some (args, copy_temp temp_buffer out)))
      else Some (args, out @ [d]))"

fun sprintf_loop :: "(u64 \<Rightarrow> cstring) \<Rightarrow> cstring \<Rightarrow> u64 list \<Rightarrow> cstring \<Rightarrow> cstring option" where
  "sprintf_loop str_of [] args out = Some out"
| "sprintf_loop str_of [c] args out = (if c = 0x25 then None else Some (out @ [c]))"
| "sprintf_loop str_of (c # d # fmt) args out =
     (if c \<noteq> 0x25 then sprintf_loop str_of (d # fmt) args (out @ [c])
      else if d = 0x78 \<or> d = 0x75 then
        (case fmt of [] \<Rightarrow> None
         | k # fmt \<Rightarrow>
             (case if d = 0x78 then sp_hex k args out else sp_dec k args out of None \<Rightarrow> None
              | Some (args, out) \<Rightarrow> sprintf_loop str_of fmt args out))
      else
        (case sp_plain str_of d args out of None \<Rightarrow> None
         | Some (args, out) \<Rightarrow> sprintf_loop str_of fmt args out))"

text \<open>The bytes of \<open>out_buffer\<close> and the returned count.\<close>
definition sprintf :: "(u64 \<Rightarrow> cstring) \<Rightarrow> cstring \<Rightarrow> u64 list \<Rightarrow> (cstring \<times> nat) option" where
  "sprintf str_of fmt args =
     (case sprintf_loop str_of fmt args [] of None \<Rightarrow> None | Some out \<Rightarrow> Some (out @ [0], length out))"

text \<open>
  \<open>gets\<close>: the keys come from the keyboard; the result is the line, the echoed characters and the
  keys left.  \<open>None\<close>: the line is not ended yet.
\<close>
fun gets_loop :: "u8 list \<Rightarrow> cstring \<Rightarrow> u8 list \<Rightarrow> (cstring \<times> u8 list \<times> u8 list) option" where
  "gets_loop [] to echo = None"
| "gets_loop (c # keys) to echo =
     (if c = 0x08
      then if to \<noteq> [] then gets_loop keys (butlast to) (echo @ [c]) else gets_loop keys to echo
      else if c = 0x0A then Some (to, echo @ [c], keys)
      else gets_loop keys (to @ [c]) (echo @ [c]))"

section \<open>What the conversions write\<close>

text \<open>The value of a digit character and of a numeral.\<close>

definition digit_value :: "u8 \<Rightarrow> nat" where
  "digit_value c = (if c \<le> 0x39 then unat c - 0x30 else unat c - 0x61 + 10)"

definition numeral_value :: "nat \<Rightarrow> cstring \<Rightarrow> nat" where
  "numeral_value base s = foldl (\<lambda>a c. a * base + digit_value c) 0 s"

lemma digit_table_list:
  "digit_table = [0x7a, 0x79, 0x78, 0x77, 0x76, 0x75, 0x74, 0x73, 0x72, 0x71, 0x70, 0x6f, 0x6e, 0x6d, 0x6c, 0x6b, 0x6a, 0x69, 0x68, 0x67,
    0x66, 0x65, 0x64, 0x63, 0x62, 0x61, 0x39, 0x38, 0x37, 0x36, 0x35, 0x34, 0x33, 0x32, 0x31, 0x30, 0x31, 0x32, 0x33,
    0x34, 0x35, 0x36, 0x37, 0x38, 0x39, 0x61, 0x62, 0x63, 0x64, 0x65, 0x66, 0x67, 0x68, 0x69, 0x6a, 0x6b, 0x6c, 0x6d, 0x6e, 0x6f, 0x70, 0x71, 0x72, 0x73, 0x74, 0x75, 0x76, 0x77, 0x78, 0x79, 0x7a]"
  by (simp add: digit_table_def bytes_of_def)

lemma digit_facts:
  assumes "-35 \<le> r" and "r \<le> 35"
  shows "digit_value (digit r) = nat \<bar>r\<bar>" and "digit r \<noteq> 0" and "digit (- r) = digit r"
    and "digit r = 0x30 \<longleftrightarrow> r = 0"
proof -
  have all: "list_all (\<lambda>(i, c, c'). digit_value c = nat \<bar>int i - 35\<bar> \<and> c \<noteq> 0 \<and> c' = c \<and> (c = 0x30 \<longleftrightarrow> i = 35))
      (enumerate 0 (zip digit_table (rev digit_table)))"
    by (simp add: digit_table_list digit_value_def)
  define i where "i = nat (35 + r)"
  have i: "i < 71" "int i = 35 + r" using assms by (simp_all add: i_def)
  have len: "length digit_table = 71" by (simp add: digit_table_list)
  from all i(1) len have f: "digit_value (digit_table ! i) = nat \<bar>int i - 35\<bar>" "digit_table ! i \<noteq> 0"
      "digit_table ! (70 - i) = digit_table ! i" "digit_table ! i = 0x30 \<longleftrightarrow> i = 35"
    by (auto simp: list_all_length rev_nth nth_enumerate_eq)
  have "nat (35 + - r) = 70 - i" using i by linarith
  then show "digit_value (digit r) = nat \<bar>r\<bar>" "digit r \<noteq> 0" "digit (- r) = digit r" "digit r = 0x30 \<longleftrightarrow> r = 0"
    using f i by (simp_all add: digit_def i_def [symmetric]) linarith
qed

text \<open>The digits of a number, least significant first.\<close>
function ndigits :: "nat \<Rightarrow> nat \<Rightarrow> nat list" where
  "ndigits n b = n mod b # (if b < 2 \<or> n div b = 0 then [] else ndigits (n div b) b)"
  by pat_completeness auto
termination by (relation "measure fst") (auto simp: div_eq_0_iff)

declare ndigits.simps [simp del]

lemma ndigits_less: "2 \<le> b \<Longrightarrow> d \<in> set (ndigits n b) \<Longrightarrow> d < b"
  by (induction n b rule: ndigits.induct) (subst (asm) (2) ndigits.simps; auto split: if_splits)

lemma ndigits_value: "2 \<le> b \<Longrightarrow> foldr (\<lambda>d a. a * b + d) (ndigits n b) 0 = n"
  by (induction n b rule: ndigits.induct) (subst ndigits.simps; auto simp: div_eq_0_iff)

lemma length_ndigits:
  "2 \<le> b \<Longrightarrow> (b ^ k \<le> n \<longrightarrow> k < length (ndigits n b)) \<and> (n < b ^ Suc k \<longrightarrow> length (ndigits n b) \<le> Suc k)"
proof (induction k arbitrary: n)
  case 0
  then show ?case by (subst (1 2) ndigits.simps) simp
next
  case (Suc k)
  have 1: "b ^ Suc k \<le> n \<longleftrightarrow> b ^ k \<le> n div b" and 2: "n < b ^ Suc (Suc k) \<longleftrightarrow> n div b < b ^ Suc k"
    using Suc.prems by (simp_all add: less_eq_div_iff_mult_less_eq div_less_iff_less_mult mult.commute)
  have "n div b = 0 \<Longrightarrow> \<not> b ^ k \<le> n div b" using Suc.prems by simp
  then show ?case
    using Suc.IH [OF Suc.prems, of "n div b"] Suc.prems unfolding 1 2
    by (subst (1 2) ndigits.simps) auto
qed

lemma ndigits_last: "2 \<le> b \<Longrightarrow> 0 < n \<Longrightarrow> last (ndigits n b) \<noteq> 0"
proof (induction n b rule: ndigits.induct)
  case (1 n b)
  show ?case
  proof (cases "n div b = 0")
    case True
    then have "n mod b = n" using 1 by (simp add: div_eq_0_iff)
    then show ?thesis using True 1(3) by (subst ndigits.simps) simp
  next
    case False
    moreover have "ndigits (n div b) b \<noteq> []" by (subst ndigits.simps) simp
    ultimately show ?thesis using 1 by (subst ndigits.simps) simp
  qed
qed

text \<open>The text of a number: its digits, most significant first.\<close>
definition digit_text :: "nat \<Rightarrow> nat \<Rightarrow> cstring" where
  "digit_text n b = rev (map (\<lambda>d. digit (int d)) (ndigits n b))"

lemma digit_text_value:
  assumes "2 \<le> b" and "b \<le> 36"
  shows "numeral_value b (digit_text n b) = n"
proof -
  have "foldr (\<lambda>d a. a * b + digit_value (digit (int d))) ds 0 = foldr (\<lambda>d a. a * b + d) ds 0"
    if "\<forall>d \<in> set ds. d < b" for ds
    using that assms by (induction ds) (simp_all add: digit_facts(1))
  moreover have "\<forall>d \<in> set (ndigits n b). d < b" using ndigits_less assms by blast
  ultimately show ?thesis
    using ndigits_value [of b n] assms
    by (simp add: numeral_value_def digit_text_def foldl_conv_foldr foldr_map comp_def)
qed

lemma digit_text_cstring: "2 \<le> b \<Longrightarrow> b \<le> 36 \<Longrightarrow> is_cstring (digit_text n b)"
  using ndigits_less [of b _ n] digit_facts(2) by (fastforce simp: digit_text_def is_cstring_def)

lemma digit_text_hd:
  assumes "2 \<le> b" and "b \<le> 36" and "0 < n"
  shows "hd (digit_text n b) \<noteq> 0x30"
proof -
  have ne: "ndigits n b \<noteq> []" by (subst ndigits.simps) simp
  then have "last (ndigits n b) \<in> set (ndigits n b)" by simp
  then have "last (ndigits n b) < b" using ndigits_less assms(1) by blast
  then have "digit (int (last (ndigits n b))) \<noteq> 0x30"
    using digit_facts(4) [of "int (last (ndigits n b))"] ndigits_last [OF assms(1,3)] assms(2) by simp
  then show ?thesis using ne by (simp add: digit_text_def hd_rev last_map)
qed

lemma reverse_between_rev:
  "ys \<noteq> [] \<Longrightarrow> reverse_between (xs @ ys @ zs) (length xs) (length xs + length ys - 1) = xs @ rev ys @ zs"
proof (induction "length ys" arbitrary: xs ys zs rule: less_induct)
  case less
  show ?case
  proof (cases "length ys \<le> 1")
    case True
    then obtain y where "ys = [y]" using less.prems by (cases ys) auto
    then show ?thesis by (subst reverse_between.simps) simp
  next
    case False
    then obtain a b ys' where ys: "ys = a # ys' @ [b]"
      by (cases ys; cases "tl ys" rule: rev_cases) auto
    have "reverse_between ((xs @ [b]) @ ys' @ (a # zs)) (length (xs @ [b])) (length xs + length ys') =
        (xs @ [b]) @ rev ys' @ (a # zs)"
    proof (cases "ys' = []")
      case True
      then show ?thesis by (subst reverse_between.simps) simp
    next
      case False
      then show ?thesis using less.hyps [of ys' "xs @ [b]" "a # zs"] ys by simp
    qed
    then show ?thesis
      by (subst reverse_between.simps) (simp add: ys nth_append list_update_append)
  qed
qed

lemma digit_sgn: "-35 \<le> r \<Longrightarrow> r \<le> 35 \<Longrightarrow> digit (sgn v * r) = (if v = 0 then digit 0 else digit r)"
  by (cases v "0 :: int" rule: linorder_cases) (simp_all add: digit_facts(3))

lemma itoa_digits_eq:
  assumes "2 \<le> b" and "b \<le> 36"
  shows "itoa_digits v b str = Some (str @ rev (digit_text (nat \<bar>v\<bar>) (nat b)))"
proof (induction "nat \<bar>v\<bar>" arbitrary: v str rule: less_induct)
  case less
  let ?n = "nat \<bar>v\<bar>"
  have m: "v smod b = sgn v * int (?n mod nat b)" and d: "v sdiv b = sgn v * int (?n div nat b)"
    using assms by (simp_all add: signed_modulo_int_def signed_divide_int_def zmod_int zdiv_int)
  have "?n mod nat b < nat b" using assms by simp
  then have dig: "digit (v smod b) = digit (int (?n mod nat b))"
    using assms digit_sgn [of "int (?n mod nat b)" v] by (cases "v = 0") (simp_all only: m, simp_all)
  have b2: "(nat b < 2) = False" using assms by auto
  have z: "v sdiv b = 0 \<longleftrightarrow> ?n div nat b = 0" unfolding d by (auto simp: sgn_0_0)
  have a: "nat \<bar>v sdiv b\<bar> = ?n div nat b" unfolding d by (auto simp: abs_mult sgn_if)
  show ?case
  proof (cases "v sdiv b = 0")
    case True
    then show ?thesis
      using dig z by (subst itoa_digits.simps) (simp add: digit_text_def ndigits.simps [of ?n])
  next
    case False
    then have "nat \<bar>v sdiv b\<bar> < ?n" using a z assms by (auto simp: div_eq_0_iff)
    moreover have "?n div nat b \<noteq> 0" using False z by simp
    ultimately show ?thesis
      using less.hyps [of "v sdiv b" "str @ [digit (v smod b)]"] False a dig b2
      by (subst itoa_digits.simps) (simp add: digit_text_def ndigits.simps [of ?n])
  qed
qed

lemma utoa_digits_eq:
  assumes "2 \<le> unat b" and "unat b \<le> 36"
  shows "utoa_digits v b str = Some (str @ rev (digit_text (unat v) (unat b)))"
proof (induction "unat v" arbitrary: v str rule: less_induct)
  case less
  have b: "unat (ucast b :: u64) = unat b" by (rule unat_ucast_up) simp
  have m: "uint (v mod ucast b) = int (unat v mod unat b)" and d: "unat (v div ucast b) = unat v div unat b"
    by (simp_all only: uint_nat unat_mod unat_div b)
  have z: "v div ucast b = 0 \<longleftrightarrow> unat v div unat b = 0" using d unat_eq_0 [of "v div ucast b"] by simp
  show ?case
  proof (cases "v div ucast b = 0")
    case True
    then show ?thesis
      using m z by (subst utoa_digits.simps) (simp add: digit_text_def ndigits.simps [of "unat v"])
  next
    case False
    then have nz: "unat v div unat b \<noteq> 0" using z by simp
    then have "unat (v div ucast b) < unat v" using d assms(1) by (auto simp: div_eq_0_iff)
    then show ?thesis
      using less.hyps [of "v div ucast b" "str @ [digit (uint (v mod ucast b))]"] False nz m d assms
      by (subst utoa_digits.simps) (simp add: digit_text_def ndigits.simps [of "unat v"])
  qed
qed

lemma digit_text_not_Nil: "digit_text n b \<noteq> []"
  unfolding digit_text_def by (subst ndigits.simps) simp

lemma itoa_eq:
  assumes "2 \<le> b" and "b \<le> 36"
  shows "itoa v b = Some ((if v < 0 \<and> b = 10 then [0x2D] else []) @ digit_text (nat \<bar>v\<bar>) (nat b))"
  using reverse_between_rev [of "rev (digit_text (nat \<bar>v\<bar>) (nat b))" "if v < 0 \<and> b = 10 then [0x2D] else []" "[]"]
    assms digit_text_not_Nil [of "nat \<bar>v\<bar>" "nat b"]
  by (simp add: itoa_def itoa_digits_eq Let_def)

lemma utoa_eq:
  assumes "2 \<le> unat b" and "unat b \<le> 36"
  shows "utoa v b = Some (digit_text (unat v) (unat b))"
proof -
  have "\<not> (b < 2 \<or> 36 < b)" using assms by (simp add: word_less_nat_alt word_le_nat_alt)
  then show ?thesis
    using reverse_between_rev [of "rev (digit_text (unat v) (unat b))" "[]" "[]"] digit_text_not_Nil [of "unat v" "unat b"]
    by (simp add: utoa_def utoa_digits_eq [OF assms])
qed

lemma length_digit_text: "length (digit_text n b) = length (ndigits n b)"
  by (simp add: digit_text_def)

section \<open>Properties\<close>

text \<open>
  \<open>utoa\<close> returns on every 64-bit value and every base from 2 to 36.  Its text is a numeral of
  the value in that base, with no byte 0 and no leading zero (except for 0 itself); from base 10 on
  it fits the callers' 32-byte buffer with its terminator.
\<close>
theorem utoa_round_trip:
  assumes "2 \<le> unat b" and "unat b \<le> 36"
  shows "\<exists>s. utoa v b = Some s \<and> numeral_value (unat b) s = unat v \<and> is_cstring s \<and>
    (v \<noteq> 0 \<longrightarrow> hd s \<noteq> 0x30) \<and> (10 \<le> unat b \<longrightarrow> length s + 1 \<le> 32)"
proof -
  have "length (digit_text (unat v) (unat b)) \<le> Suc 19" if "10 \<le> unat b"
  proof -
    have "unat v < 2 ^ 64" using unsigned_less [of v] by simp
    also have "(2 :: nat) ^ 64 < 10 ^ Suc 19" by simp
    also have "(10 :: nat) ^ Suc 19 \<le> unat b ^ Suc 19" using that by (rule power_mono) simp
    finally show ?thesis using length_ndigits [OF assms(1)] length_digit_text by metis
  qed
  then show ?thesis
    using utoa_eq [OF assms] digit_text_value [OF assms] digit_text_cstring [OF assms]
      digit_text_hd [OF assms, of "unat v"]
    by (auto simp: unat_gt_0)
qed

theorem utoa_round_trip_witness:
  "\<exists>s. utoa 0xBEEF 16 = Some s \<and> numeral_value 16 s = 0xBEEF \<and> length s + 1 \<le> 32"
  using utoa_round_trip [of 16 "0xBEEF"] by auto

text \<open>
  \<open>itoa\<close> returns on every \<open>int\<close> and every base from 2 to 36: the text is a numeral of the
  absolute value (also where C's remainders are negative), after a minus sign only in base 10.  It
  fits the callers' 32-byte buffers except in one case: the least \<open>int\<close> in base 2, whose terminator
  is written behind the buffer.
\<close>
theorem itoa_text_and_bound:
  assumes "2 \<le> b" and "b \<le> 36" and "- (2 ^ 31) \<le> v" and "v < 2 ^ 31"
  shows "\<exists>s ds. itoa v b = Some s \<and> s = (if v < 0 \<and> b = 10 then [0x2D] else []) @ ds \<and>
    numeral_value (nat b) ds = nat \<bar>v\<bar> \<and> is_cstring s \<and>
    (length s + 1 \<le> 32 \<longleftrightarrow> \<not> (b = 2 \<and> v = - (2 ^ 31)))"
proof -
  let ?ds = "digit_text (nat \<bar>v\<bar>) (nat b)"
  have b: "2 \<le> nat b" "nat b \<le> 36" using assms by simp_all
  have len: "\<And>k. (nat b ^ k \<le> nat \<bar>v\<bar> \<longrightarrow> k < length ?ds) \<and> (nat \<bar>v\<bar> < nat b ^ Suc k \<longrightarrow> length ?ds \<le> Suc k)"
    using length_ndigits [OF b(1)] by (simp add: length_digit_text)
  have bound: "length ?ds + (if v < 0 \<and> b = 10 then 1 else 0) \<le> 31" if n: "\<not> (b = 2 \<and> v = - (2 ^ 31))"
  proof (cases "b = 2")
    case True
    then have "nat \<bar>v\<bar> < nat b ^ Suc 30" using assms n by auto
    then show ?thesis using len [of 30] True by simp
  next
    case False
    then have "(3 :: nat) ^ Suc 20 \<le> nat b ^ Suc 20" using assms by (intro power_mono) auto
    moreover have "nat \<bar>v\<bar> < 3 ^ Suc 20" using assms by auto
    ultimately have "nat \<bar>v\<bar> < nat b ^ Suc 20" by linarith
    then show ?thesis using len [of 20] by auto
  qed
  have "31 < length ?ds" if "b = 2" "v = - (2 ^ 31)"
    using len [of 31] that by simp
  then have "length ((if v < 0 \<and> b = 10 then [0x2D] else []) @ ?ds) + 1 \<le> 32 \<longleftrightarrow> \<not> (b = 2 \<and> v = - (2 ^ 31))"
    using bound by (cases "v < 0 \<and> b = 10") auto
  then show ?thesis
    using itoa_eq [OF assms(1,2)] digit_text_value [OF b] digit_text_cstring [OF b] by simp
qed

theorem itoa_text_and_bound_witness:
  "\<exists>s. itoa (- (2 ^ 31)) 2 = Some s \<and> \<not> length s + 1 \<le> 32"
  using itoa_text_and_bound [of 2 "- (2 ^ 31)"] by auto

section \<open>The two formatters agree\<close>

lemma copy_temp_text [simp]: "is_cstring t \<Longrightarrow> copy_temp t out = out @ t"
  by (simp add: copy_temp_def is_cstring_def takeWhile_eq_all_conv [THEN iffD2] ) (metis)

lemma conv_text:
  "utoa w 16 = Some (digit_text (unat w) 16)" "utoa w 10 = Some (digit_text (unat w) 10)"
  "is_cstring (digit_text n 16)" "is_cstring (digit_text n 10)" "is_cstring (digit_text n 2)"
  using utoa_eq [of 16 w] utoa_eq [of 10 w] by (simp_all add: digit_text_cstring)

lemma itoa_cstring: "itoa v b = Some t \<Longrightarrow> b \<in> {2, 10, 16} \<Longrightarrow> is_cstring t"
  using digit_text_cstring [of "nat b" "nat \<bar>v\<bar>"] by (auto simp: itoa_eq)

lemma narrow:
  "(ucast (ucast (a :: u64) :: u32) :: u16) = ucast a" "(ucast (ucast (a :: u64) :: u32) :: u8) = ucast a"
  by (rule bit_word_eqI; simp add: bit_ucast_iff)+

text \<open>Each directive of \<open>sprintf\<close> appends what the callbacks of \<open>__vsprintf__\<close> are given.\<close>

abbreviation (input) append_char :: "u8 \<Rightarrow> cstring \<Rightarrow> cstring" where
  "append_char c out \<equiv> out @ [c]"

abbreviation (input) append_text :: "cstring \<Rightarrow> cstring \<Rightarrow> cstring" where
  "append_text t out \<equiv> out @ t"

lemma sp_hex_eq:
  "sp_hex k args out =
     (case vs_hex k of None \<Rightarrow> Some (args, append_char k out) | Some conv \<Rightarrow> vs_put append_text conv args out)"
  by (cases args)
    (auto simp: sp_hex_def vs_hex_def vs_put_def conv_text narrow arg_char_def dest: itoa_cstring split: option.split)

lemma sp_dec_eq:
  "sp_dec k args out =
     (case vs_dec k of None \<Rightarrow> Some (args, append_char k out) | Some conv \<Rightarrow> vs_put append_text conv args out)"
  by (cases args) (auto simp: sp_dec_def vs_dec_def vs_put_def conv_text narrow split: option.split)

text \<open>
  \<open>sprintf\<close> writes exactly the characters that \<open>__vsprintf__\<close> (and so \<open>printf\<close>) hands to its
  callbacks for the same format and arguments, followed by the terminator, and returns their number;
  the two read behind the format or the arguments in the same cases.
\<close>
theorem sprintf_agrees_with_vsprintf:
  "sprintf str_of fmt args =
     map_option (\<lambda>out. (out @ [0], length out))
       (vsprintf (\<lambda>c out. out @ [c]) (\<lambda>t out. out @ t) str_of fmt args [])"
proof -
  have "sprintf_loop str_of fmt args out = vsprintf append_char append_text str_of fmt args out" for out
  proof (induction str_of fmt args out rule: sprintf_loop.induct)
    case (3 str_of c d fmt args out)
    show ?case
    proof (cases "c = 0x25 \<and> (d = 0x78 \<or> d = 0x75)")
      case True
      show ?thesis
      proof (cases fmt)
        case Nil
        then show ?thesis using True by auto
      next
        case (Cons k fmt')
        then show ?thesis
          using True 3(2) by (auto simp: sp_hex_eq sp_dec_eq split: option.split)
      qed
    next
      case False
      then show ?thesis
        using 3 by (auto simp: sp_plain_def vs_put_def narrow arg_char_def dest: itoa_cstring
          split: option.split list.split)
    qed
  qed simp_all
  then show ?thesis by (simp add: sprintf_def option.case_eq_if map_option_case)
qed

end
