(* ===== verification/Pmm.thy ===== *)
theory Pmm
  imports Prelude
begin

text \<open>
  The physical memory manager, \<open>src/src/mm/pmm.c\<close>: a bitmap with one bit for each page frame (1 is
  used), allocation of a run of frames by first fit, and the set-up from the boot loader's memory
  map.  The C code keeps its state in static variables, here the record \<open>pmm\<close>.

  \<open>Wild\<close> is an access outside the bitmap; \<open>Halts\<close> is the endless loop that \<open>pmalloc\<close> enters when no
  run is free.  Interrupts are disabled in \<open>pmalloc\<close>, so an operation is one step.

  The lemmas show the functional behaviour of the operations on the set of free frames, collected
  in the interface \<open>page_allocator\<close> that page tables, loader and processes rely on.
\<close>

section \<open>Outcomes\<close>

datatype 'a outcome = Done (the_done: 'a) | Halts | Wild

fun bind_oc :: "'a outcome \<Rightarrow> ('a \<Rightarrow> 'b outcome) \<Rightarrow> 'b outcome" where
  "bind_oc (Done a) f = f a"
| "bind_oc Halts f = Halts"
| "bind_oc Wild f = Wild"

fun for_oc :: "('x \<Rightarrow> 's \<Rightarrow> 's outcome) \<Rightarrow> 'x list \<Rightarrow> 's \<Rightarrow> 's outcome" where
  "for_oc f [] s = Done s"
| "for_oc f (x # xs) s = bind_oc (f x s) (for_oc f xs)"

text \<open>A loop that does not end does not return.\<close>
definition run_oc :: "'a outcome option \<Rightarrow> 'a outcome" where
  "run_oc r = (case r of None \<Rightarrow> Halts | Some x \<Rightarrow> x)"

lemma bind_oc_Done [simp]: "bind_oc x Done = x"
  by (cases x) auto

lemma bind_oc_eq_Done: "bind_oc x f = Done b \<longleftrightarrow> (\<exists>a. x = Done a \<and> f a = Done b)"
  by (cases x) auto

lemma bind_oc_assoc: "bind_oc (bind_oc x f) g = bind_oc x (\<lambda>a. bind_oc (f a) g)"
  by (cases x) auto

lemma bind_oc_cong: "x = y \<Longrightarrow> (\<And>a. y = Done a \<Longrightarrow> f a = g a) \<Longrightarrow> bind_oc x f = bind_oc y g"
  by (cases y) auto

lemma for_oc_append: "for_oc f (xs @ ys) s = bind_oc (for_oc f xs s) (for_oc f ys)"
  by (induction xs arbitrary: s) (simp_all add: bind_oc_assoc cong: bind_oc_cong)

section \<open>State and addresses\<close>

definition PAGE_SIZE :: u64 where "PAGE_SIZE = 4096"

record pmm =
  pmm_bitmap :: "u8 list"
  bitmap_adr :: u64
  highest_page :: u64
  total_mem :: u32
  free_mem :: u32
  hhdm_offset :: u64

definition get_physical_address :: "pmm \<Rightarrow> u64 \<Rightarrow> u64" where
  "get_physical_address st adr =
     (if hhdm_offset st = 0 then adr
      else if adr < hhdm_offset st then adr
      else adr - hhdm_offset st)"

definition get_virtual_address :: "pmm \<Rightarrow> u64 \<Rightarrow> u64" where
  "get_virtual_address st adr =
     (if hhdm_offset st = 0 then adr
      else if hhdm_offset st \<le> adr then adr
      else adr + hhdm_offset st)"

definition phys_from_virt :: "pmm \<Rightarrow> u64 \<Rightarrow> u64" where
  "phys_from_virt st virt = get_physical_address st virt"

definition virt_from_phys :: "pmm \<Rightarrow> u64 \<Rightarrow> u64" where
  "virt_from_phys st phys = get_virtual_address st phys"

section \<open>The bitmap\<close>

definition BIT_SET :: "nat \<Rightarrow> pmm \<Rightarrow> pmm outcome" where
  "BIT_SET b st =
     (if b div 8 < length (pmm_bitmap st)
      then Done (st\<lparr>pmm_bitmap := (pmm_bitmap st)[b div 8 := or (pmm_bitmap st ! (b div 8)) (push_bit (b mod 8) 1)]\<rparr>)
      else Wild)"

definition BIT_CLEAR :: "nat \<Rightarrow> pmm \<Rightarrow> pmm outcome" where
  "BIT_CLEAR b st =
     (if b div 8 < length (pmm_bitmap st)
      then Done (st\<lparr>pmm_bitmap := (pmm_bitmap st)[b div 8 := and (pmm_bitmap st ! (b div 8)) (not (push_bit (b mod 8) 1))]\<rparr>)
      else Wild)"

definition BIT_TEST :: "nat \<Rightarrow> pmm \<Rightarrow> bool outcome" where
  "BIT_TEST b st =
     (if b div 8 < length (pmm_bitmap st)
      then Done (and (drop_bit (b mod 8) (pmm_bitmap st ! (b div 8))) 1 \<noteq> 0)
      else Wild)"

definition pmm_free_page :: "u64 \<Rightarrow> pmm \<Rightarrow> pmm outcome" where
  "pmm_free_page adr st = BIT_CLEAR (unat (get_physical_address st adr div PAGE_SIZE)) st"

definition pmm_alloc_page :: "u64 \<Rightarrow> pmm \<Rightarrow> pmm outcome" where
  "pmm_alloc_page adr st = BIT_SET (unat (get_physical_address st adr div PAGE_SIZE)) st"

definition pmm_free_pages :: "u64 \<Rightarrow> u64 \<Rightarrow> pmm \<Rightarrow> pmm outcome" where
  "pmm_free_pages adr page_count st =
     bind_oc (for_oc (\<lambda>i. pmm_free_page (adr + of_nat i * PAGE_SIZE)) [0..<unat page_count] st)
       (\<lambda>st. Done (st\<lparr>free_mem := free_mem st + ucast (page_count * PAGE_SIZE)\<rparr>))"

definition pmm_alloc_pages :: "u64 \<Rightarrow> u64 \<Rightarrow> pmm \<Rightarrow> pmm outcome" where
  "pmm_alloc_pages adr page_count st =
     bind_oc (for_oc (\<lambda>i. pmm_alloc_page (adr + of_nat i * PAGE_SIZE)) [0..<unat page_count] st)
       (\<lambda>st. Done (st\<lparr>free_mem := free_mem st - ucast (page_count * PAGE_SIZE)\<rparr>))"

section \<open>Allocation\<close>

text \<open>The inner loop from \<open>j\<close> on: are the bits up to \<open>pages\<close> clear?  With \<open>pages = 0\<close> it never returns true.\<close>
function run_free :: "nat \<Rightarrow> nat \<Rightarrow> nat \<Rightarrow> pmm \<Rightarrow> bool outcome" where
  "run_free i j pages st =
     (if j < pages
      then bind_oc (BIT_TEST (i + j) st) (\<lambda>used.
             if used then Done False
             else if j = pages - 1 then Done True
             else run_free i (j + 1) pages st)
      else Done False)"
  by pat_completeness auto
termination by (relation "measure (\<lambda>(i, j, pages, st). pages - j)") auto

declare run_free.simps [simp del]

text \<open>The outer loop, over the candidates left.\<close>
fun first_run :: "nat list \<Rightarrow> nat \<Rightarrow> pmm \<Rightarrow> nat outcome" where
  "first_run [] pages st = Halts"
| "first_run (i # is) pages st =
     bind_oc (run_free i 0 pages st) (\<lambda>free. if free then Done i else first_run is pages st)"

definition pmalloc :: "u64 \<Rightarrow> pmm \<Rightarrow> (u64 \<times> pmm) outcome" where
  "pmalloc pages st =
     (let max_pages = unat (highest_page st div PAGE_SIZE)
      in bind_oc (first_run [0..<max_pages] (unat pages) st) (\<lambda>i.
           let phys_addr = of_nat i * PAGE_SIZE
           in bind_oc (pmm_alloc_pages phys_addr pages st) (\<lambda>st.
                Done (get_virtual_address st phys_addr, st))))"

section \<open>Set-up\<close>

datatype memmap_type =
    USABLE | RESERVED | ACPI_RECLAIMABLE | ACPI_NVS | BAD_MEMORY | BOOTLOADER_RECLAIMABLE
  | KERNEL_AND_MODULES | FRAMEBUFFER

record memmap_entry =
  mm_base :: u64
  mm_length :: u64
  mm_type :: memmap_type

definition ALIGN_UP :: "u64 \<Rightarrow> u64" where
  "ALIGN_UP n = and (n + PAGE_SIZE - 1) (not (PAGE_SIZE - 1))"

definition ALIGN_DOWN :: "u64 \<Rightarrow> u64" where
  "ALIGN_DOWN n = and n (not (PAGE_SIZE - 1))"

definition highest_top :: "memmap_entry list \<Rightarrow> u64 \<Rightarrow> u64" where
  "highest_top entries highest =
     fold (\<lambda>e h. if mm_type e \<notin> {USABLE, BOOTLOADER_RECLAIMABLE, KERNEL_AND_MODULES} then h
                 else let top = mm_base e + mm_length e in if h < top then top else h) entries highest"

text \<open>The first usable entry that is long enough gives its beginning to the bitmap.\<close>
fun place_bitmap :: "u64 \<Rightarrow> memmap_entry list \<Rightarrow> (u64 \<times> memmap_entry list) option" where
  "place_bitmap bitmap_size [] = None"
| "place_bitmap bitmap_size (e # es) =
     (if mm_type e = USABLE \<and> bitmap_size \<le> mm_length e
      then Some (mm_base e, e\<lparr>mm_base := mm_base e + bitmap_size, mm_length := mm_length e - bitmap_size\<rparr> # es)
      else map_option (\<lambda>(base, es). (base, e # es)) (place_bitmap bitmap_size es))"

definition free_entry :: "memmap_entry \<Rightarrow> pmm \<Rightarrow> pmm outcome" where
  "free_entry e st =
     (if mm_type e = USABLE
      then bind_oc (pmm_free_pages (mm_base e) (mm_length e div PAGE_SIZE) st) (\<lambda>st.
             Done (st\<lparr>total_mem := total_mem st + ucast (mm_length e)\<rparr>))
      else Done st)"

definition zero_pmm :: pmm where
  "zero_pmm = \<lparr>pmm_bitmap = [], bitmap_adr = 0, highest_page = 0, total_mem = 0, free_mem = 0, hhdm_offset = 0\<rparr>"

text \<open>
  \<open>hhdm\<close> is the boot loader's answer for the direct map, \<open>None\<close> when there is none.  Without an entry
  for the bitmap the null pointer is filled.
\<close>
definition init_pmm :: "u64 option \<Rightarrow> memmap_entry list \<Rightarrow> pmm outcome" where
  "init_pmm hhdm entries =
     (let highest = highest_top entries 0;
          bitmap_size = ALIGN_UP (ALIGN_DOWN highest div PAGE_SIZE div 8)
      in case place_bitmap bitmap_size entries of
           None \<Rightarrow> if bitmap_size = 0 then Done (zero_pmm\<lparr>highest_page := highest\<rparr>) else Wild
         | Some (base, entries) \<Rightarrow>
             let st = zero_pmm\<lparr>highest_page := highest, hhdm_offset := (case hhdm of None \<Rightarrow> 0 | Some off \<Rightarrow> off)\<rparr>;
                 st = st\<lparr>bitmap_adr := get_virtual_address st base,
                         pmm_bitmap := replicate (unat bitmap_size) 0xFF\<rparr>
             in bind_oc (for_oc free_entry entries st) (\<lambda>st. Done (st\<lparr>free_mem := total_mem st\<rparr>)))"

section \<open>Frames\<close>

text \<open>The number of frames below the highest address, and the frames whose bit is clear.\<close>

definition frames :: "pmm \<Rightarrow> nat" where
  "frames st = unat (highest_page st) div 4096"

definition page_free :: "pmm \<Rightarrow> nat \<Rightarrow> bool" where
  "page_free st n \<longleftrightarrow> n div 8 < length (pmm_bitmap st) \<and> \<not> bit (pmm_bitmap st ! (n div 8)) (n mod 8)"

definition frees :: "pmm \<Rightarrow> nat set" where
  "frees st = {n. page_free st n}"

text \<open>
  The invariant: the bitmap reaches past the last frame and marks everything there used, and physical
  addresses lie below the direct map, which does not wrap around.
\<close>
definition pmm_ok :: "pmm \<Rightarrow> bool" where
  "pmm_ok st \<longleftrightarrow> frames st < 8 * length (pmm_bitmap st) \<and> (\<forall>n \<in> frees st. n < frames st) \<and>
     (hhdm_offset st = 0 \<or> unat (highest_page st) \<le> unat (hhdm_offset st) \<and>
        unat (hhdm_offset st) + unat (highest_page st) < 2 ^ 64)"

text \<open>Only the bitmap and the counter change.\<close>
definition same_layout :: "pmm \<Rightarrow> pmm \<Rightarrow> bool" where
  "same_layout st st' \<longleftrightarrow> bitmap_adr st' = bitmap_adr st \<and> highest_page st' = highest_page st \<and>
     total_mem st' = total_mem st \<and> hhdm_offset st' = hhdm_offset st \<and>
     length (pmm_bitmap st') = length (pmm_bitmap st)"

lemma same_layout_refl [simp]: "same_layout st st"
  by (simp add: same_layout_def)

lemma same_layout_trans: "same_layout a b \<Longrightarrow> same_layout b c \<Longrightarrow> same_layout a c"
  by (simp add: same_layout_def)

lemma same_layout_fields:
  assumes "same_layout st st'"
  shows "hhdm_offset st' = hhdm_offset st" "highest_page st' = highest_page st" "frames st' = frames st"
    "get_physical_address st' = get_physical_address st" "get_virtual_address st' = get_virtual_address st"
    "length (pmm_bitmap st') = length (pmm_bitmap st)" "total_mem st' = total_mem st"
  using assms by (simp_all add: same_layout_def fun_eq_iff frames_def get_physical_address_def get_virtual_address_def)

lemma pmm_ok_same:
  "pmm_ok st \<Longrightarrow> same_layout st st' \<Longrightarrow> (\<forall>n \<in> frees st'. n < frames st) \<Longrightarrow> pmm_ok st'"
  by (simp add: pmm_ok_def same_layout_fields)

lemma bit_byte_set: "n < 8 \<Longrightarrow> bit (or (w :: u8) (push_bit k 1)) n \<longleftrightarrow> bit w n \<or> n = k"
  by (auto simp: bit_or_iff bit_exp_iff)

lemma bit_byte_clear: "n < 8 \<Longrightarrow> bit (and (w :: u8) (not (push_bit k 1))) n \<longleftrightarrow> bit w n \<and> n \<noteq> k"
  by (auto simp: bit_and_iff bit_not_iff bit_exp_iff)

lemma same_bit: "m div 8 = n div 8 \<Longrightarrow> m mod 8 = n mod (8 :: nat) \<longleftrightarrow> m = n"
  by (metis div_mult_mod_eq)

lemma BIT_TEST_eq: "n div 8 < length (pmm_bitmap st) \<Longrightarrow> BIT_TEST n st = Done (\<not> page_free st n)"
  by (simp add: BIT_TEST_def page_free_def and_one_eq odd_iff_mod_2_eq_one [symmetric] bit_iff_odd_drop_bit)

lemma set_byte_frees:
  assumes n: "n div 8 < length (pmm_bitmap st)" and b: "\<And>k. k < 8 \<Longrightarrow> bit b k \<longleftrightarrow> (if k = n mod 8 then v else bit (pmm_bitmap st ! (n div 8)) k)"
    and st': "st' = st\<lparr>pmm_bitmap := (pmm_bitmap st)[n div 8 := b]\<rparr>"
  shows "same_layout st st'" and "frees st' = (if v then frees st - {n} else insert n (frees st))"
    and "free_mem st' = free_mem st"
proof -
  have "page_free st' m \<longleftrightarrow> (if m = n then \<not> v else page_free st m)" for m
    using n b [of "m mod 8"] same_bit [of m n] by (auto simp: st' page_free_def nth_list_update)
  then show "frees st' = (if v then frees st - {n} else insert n (frees st))" by (auto simp: frees_def)
qed (simp_all add: same_layout_def st')

lemma BIT_SET_frees:
  assumes "n div 8 < length (pmm_bitmap st)"
  shows "\<exists>st'. BIT_SET n st = Done st' \<and> same_layout st st' \<and> frees st' = frees st - {n} \<and> free_mem st' = free_mem st"
  using set_byte_frees [OF assms, of "or (pmm_bitmap st ! (n div 8)) (push_bit (n mod 8) 1)" True, OF _ refl] assms
  by (simp add: BIT_SET_def bit_byte_set del: push_bit_of_1)

lemma BIT_CLEAR_frees:
  assumes "n div 8 < length (pmm_bitmap st)"
  shows "\<exists>st'. BIT_CLEAR n st = Done st' \<and> same_layout st st' \<and> frees st' = insert n (frees st) \<and> free_mem st' = free_mem st"
  using set_byte_frees [OF assms, of "and (pmm_bitmap st ! (n div 8)) (not (push_bit (n mod 8) 1))" False, OF _ refl] assms
  by (simp add: BIT_CLEAR_def bit_byte_clear del: push_bit_of_1)

text \<open>The address \<open>adr\<close>, physical or in the direct map, is that of frame \<open>i\<close>, with \<open>k\<close> frames from there on.\<close>
definition frame_at :: "pmm \<Rightarrow> u64 \<Rightarrow> nat \<Rightarrow> nat \<Rightarrow> bool" where
  "frame_at st adr i k \<longleftrightarrow>
     (\<forall>j < k. unat (get_physical_address st (adr + of_nat j * PAGE_SIZE) div PAGE_SIZE) = i + j)"

lemma alloc_loop:
  assumes "frame_at st adr i k" and "i + k \<le> 8 * length (pmm_bitmap st)"
  shows "n \<le> k \<Longrightarrow> \<exists>st'. for_oc (\<lambda>i. pmm_alloc_page (adr + of_nat i * PAGE_SIZE)) [0..<n] st = Done st' \<and>
    same_layout st st' \<and> frees st' = frees st - {i..<i + n} \<and> free_mem st' = free_mem st"
proof (induction n)
  case (Suc n)
  then obtain st' where st': "for_oc (\<lambda>i. pmm_alloc_page (adr + of_nat i * PAGE_SIZE)) [0..<n] st = Done st'"
      "same_layout st st'" "frees st' = frees st - {i..<i + n}" "free_mem st' = free_mem st" by auto
  have "pmm_alloc_page (adr + of_nat n * PAGE_SIZE) st' = BIT_SET (i + n) st'"
    using assms(1) Suc.prems same_layout_fields(4) [OF st'(2)] by (simp add: pmm_alloc_page_def frame_at_def)
  moreover have "(i + n) div 8 < length (pmm_bitmap st')"
    using assms(2) Suc.prems same_layout_fields(6) [OF st'(2)] by (simp add: div_less_iff_less_mult)
  ultimately obtain st'' where "pmm_alloc_page (adr + of_nat n * PAGE_SIZE) st' = Done st''"
      "same_layout st' st''" "frees st'' = frees st' - {i + n}" "free_mem st'' = free_mem st'"
    using BIT_SET_frees [of "i + n" st'] by auto
  moreover from this have "same_layout st st''" using st'(2) same_layout_trans by blast
  ultimately show ?case using st' by (simp add: for_oc_append atLeastLessThanSuc Un_insert_right insert_commute Diff_insert2 [symmetric] Diff_insert [symmetric])
qed simp

lemma free_loop:
  assumes "frame_at st adr i k" and "i + k \<le> 8 * length (pmm_bitmap st)"
  shows "n \<le> k \<Longrightarrow> \<exists>st'. for_oc (\<lambda>i. pmm_free_page (adr + of_nat i * PAGE_SIZE)) [0..<n] st = Done st' \<and>
    same_layout st st' \<and> frees st' = frees st \<union> {i..<i + n} \<and> free_mem st' = free_mem st"
proof (induction n)
  case (Suc n)
  then obtain st' where st': "for_oc (\<lambda>i. pmm_free_page (adr + of_nat i * PAGE_SIZE)) [0..<n] st = Done st'"
      "same_layout st st'" "frees st' = frees st \<union> {i..<i + n}" "free_mem st' = free_mem st" by auto
  have "pmm_free_page (adr + of_nat n * PAGE_SIZE) st' = BIT_CLEAR (i + n) st'"
    using assms(1) Suc.prems same_layout_fields(4) [OF st'(2)] by (simp add: pmm_free_page_def frame_at_def)
  moreover have "(i + n) div 8 < length (pmm_bitmap st')"
    using assms(2) Suc.prems same_layout_fields(6) [OF st'(2)] by (simp add: div_less_iff_less_mult)
  ultimately obtain st'' where "pmm_free_page (adr + of_nat n * PAGE_SIZE) st' = Done st''"
      "same_layout st' st''" "frees st'' = insert (i + n) (frees st')" "free_mem st'' = free_mem st'"
    using BIT_CLEAR_frees [of "i + n" st'] by auto
  moreover from this have "same_layout st st''" using st'(2) same_layout_trans by blast
  ultimately show ?case using st' by (simp add: for_oc_append atLeastLessThanSuc Un_insert_right insert_commute Diff_insert2 [symmetric] Diff_insert [symmetric])
qed simp

lemma same_layout_free_mem: "same_layout st st' \<Longrightarrow> same_layout st (st'\<lparr>free_mem := x\<rparr>)"
  by (simp add: same_layout_def)

lemma frees_free_mem [simp]: "frees (st\<lparr>free_mem := x\<rparr>) = frees st"
  by (simp add: frees_def page_free_def)

lemma pmm_alloc_pages_frees:
  assumes "frame_at st adr i (unat n)" and "i + unat n \<le> 8 * length (pmm_bitmap st)"
  shows "\<exists>st'. pmm_alloc_pages adr n st = Done st' \<and> same_layout st st' \<and>
    frees st' = frees st - {i..<i + unat n} \<and> free_mem st' = free_mem st - ucast (n * PAGE_SIZE)"
  using alloc_loop [OF assms order_refl] same_layout_free_mem by (fastforce simp: pmm_alloc_pages_def)

lemma pmm_free_pages_frees:
  assumes "frame_at st adr i (unat n)" and "i + unat n \<le> 8 * length (pmm_bitmap st)"
  shows "\<exists>st'. pmm_free_pages adr n st = Done st' \<and> same_layout st st' \<and>
    frees st' = frees st \<union> {i..<i + unat n} \<and> free_mem st' = free_mem st + ucast (n * PAGE_SIZE)"
  using free_loop [OF assms order_refl] same_layout_free_mem by (fastforce simp: pmm_free_pages_def)

section \<open>First fit\<close>

definition fits :: "pmm \<Rightarrow> nat \<Rightarrow> nat \<Rightarrow> bool" where
  "fits st i k \<longleftrightarrow> {i..<i + k} \<subseteq> frees st"

lemma free_below_frames: "pmm_ok st \<Longrightarrow> n \<in> frees st \<Longrightarrow> n < frames st"
  by (simp add: pmm_ok_def)

lemma run_free_fits:
  assumes ok: "pmm_ok st" and i: "i < frames st"
  shows "j < k \<Longrightarrow> fits st i j \<Longrightarrow> run_free i j k st = Done (fits st i k)"
proof (induction "k - j" arbitrary: j)
  case (Suc d)
  have "i + j \<le> frames st"
  proof (cases j)
    case (Suc j')
    then have "i + j' \<in> frees st" using Suc.prems(2) by (auto simp: fits_def)
    then show ?thesis using free_below_frames [OF ok] Suc by fastforce
  qed (use i in simp)
  then have "(i + j) div 8 < length (pmm_bitmap st)" using ok by (simp add: pmm_ok_def div_less_iff_less_mult)
  note test = BIT_TEST_eq [OF this]
  have fits_Suc: "fits st i (Suc j) \<longleftrightarrow> page_free st (i + j)"
    using Suc.prems(2) by (auto simp: fits_def frees_def subset_iff less_Suc_eq)
  show ?case
  proof (cases "page_free st (i + j)")
    case False
    then have "i + j \<in> {i..<i + k} - frees st" using Suc.prems(1) by (simp add: frees_def)
    then have "\<not> fits st i k" unfolding fits_def by blast
    then show ?thesis using False Suc.prems(1) test by (subst run_free.simps) simp
  next
    case True
    show ?thesis
    proof (cases "j = k - 1")
      case True': True
      then have "k = Suc j" using Suc.prems(1) by simp
      then show ?thesis using True test fits_Suc by (subst run_free.simps) simp
    next
      case False
      then have "Suc j < k" "d = k - Suc j" using Suc.prems(1) Suc.hyps(2) by simp_all
      then show ?thesis
        using Suc.hyps(1) [of "Suc j"] True False test fits_Suc by (subst run_free.simps) simp
    qed
  qed
qed simp

lemma first_run_find:
  assumes "pmm_ok st" and "0 < k" and "\<forall>i \<in> set is. i < frames st"
  shows "first_run is k st = (case List.find (\<lambda>i. fits st i k) is of None \<Rightarrow> Halts | Some i \<Rightarrow> Done i)"
  using assms(3)
proof (induction "is")
  case (Cons i "is")
  have "run_free i 0 k st = Done (fits st i k)"
    using run_free_fits [OF assms(1), of i 0 k] Cons.prems assms(2) by (simp add: fits_def)
  then show ?case using Cons by simp
qed simp

text \<open>The address that \<open>pmalloc\<close> returns for frame \<open>i\<close>.\<close>
definition page_addr :: "pmm \<Rightarrow> nat \<Rightarrow> u64" where
  "page_addr st i = get_virtual_address st (of_nat i * PAGE_SIZE)"

lemma frame_le: "i \<le> frames st \<Longrightarrow> i * 4096 \<le> unat (highest_page st)"
  unfolding frames_def using div_times_less_eq_dividend [of "unat (highest_page st)" 4096]
  by (meson le_trans mult_le_mono1)

lemma unat_frame_addr: "i * 4096 < 2 ^ 64 \<Longrightarrow> unat (of_nat i * PAGE_SIZE) = i * 4096"
proof -
  assume "i * 4096 < 2 ^ 64"
  moreover have "of_nat i * PAGE_SIZE = (of_nat (i * 4096) :: u64)" by (simp add: PAGE_SIZE_def)
  ultimately show ?thesis by (simp only: unat_of_nat) simp
qed

lemma highest_less: "unat (highest_page st) < 2 ^ 64"
  using unsigned_less [of "highest_page st"] by simp

lemma frame_at_phys:
  assumes ok: "pmm_ok st" and ik: "i + k \<le> frames st"
  shows "frame_at st (of_nat i * PAGE_SIZE) i k" and "frame_at st (page_addr st i) i k"
proof -
  let ?h = "unat (hhdm_offset st)"
  have *: "unat (get_physical_address st (of_nat i * PAGE_SIZE + of_nat j * PAGE_SIZE) div PAGE_SIZE) = i + j \<and>
      unat (get_physical_address st (page_addr st i + of_nat j * PAGE_SIZE) div PAGE_SIZE) = i + j" if j: "j < k" for j
  proof -
    have b: "(i + j) * 4096 < unat (highest_page st)"
      using frame_le [of "i + j + 1" st] j ik by simp
    then have u: "unat (of_nat (i + j) * PAGE_SIZE) = (i + j) * 4096" "unat (of_nat i * PAGE_SIZE) = i * 4096"
      using highest_less [of st] unat_frame_addr [of "i + j"] unat_frame_addr [of i] by simp_all
    have sum: "of_nat i * PAGE_SIZE + of_nat j * PAGE_SIZE = (of_nat (i + j) * PAGE_SIZE)"
      by (simp add: algebra_simps)
    have q: "unat (of_nat (i + j) * PAGE_SIZE div PAGE_SIZE) = i + j"
      using u(1) by (simp add: unat_div PAGE_SIZE_def)
    show ?thesis
    proof (cases "hhdm_offset st = 0")
      case True
      then show ?thesis using q sum by (simp add: get_physical_address_def page_addr_def get_virtual_address_def)
    next
      case False
      then have h: "unat (highest_page st) \<le> ?h" "?h + unat (highest_page st) < 2 ^ 64"
        using ok by (auto simp: pmm_ok_def unat_eq_0)
      have lt: "of_nat i * PAGE_SIZE < hhdm_offset st" "of_nat (i + j) * PAGE_SIZE < hhdm_offset st"
        using b h(1) u unfolding word_less_nat_alt by simp_all
      have "unat (of_nat (i + j) * PAGE_SIZE + hhdm_offset st) = (i + j) * 4096 + ?h"
        using b h u by (subst unat_add_nowrap) simp_all
      then have nl: "\<not> of_nat (i + j) * PAGE_SIZE + hhdm_offset st < hhdm_offset st"
        unfolding word_less_nat_alt by simp
      have "page_addr st i + of_nat j * PAGE_SIZE = of_nat (i + j) * PAGE_SIZE + hhdm_offset st"
        using False lt by (simp add: page_addr_def get_virtual_address_def algebra_simps)
      then show ?thesis
        using False lt nl q sum by (simp add: get_physical_address_def)
    qed
  qed
  show "frame_at st (of_nat i * PAGE_SIZE) i k" "frame_at st (page_addr st i) i k"
    using * by (simp_all add: frame_at_def)
qed

lemma pmalloc_eq:
  assumes ok: "pmm_ok st" and n: "0 < unat n"
  shows "case List.find (\<lambda>i. fits st i (unat n)) [0..<frames st] of
      None \<Rightarrow> pmalloc n st = Halts
    | Some i \<Rightarrow> \<exists>st'. pmalloc n st = Done (page_addr st i, st') \<and> same_layout st st' \<and>
        frees st' = frees st - {i..<i + unat n} \<and> free_mem st' = free_mem st - ucast (n * PAGE_SIZE)"
proof -
  have m: "unat (highest_page st div PAGE_SIZE) = frames st"
    by (simp add: unat_div PAGE_SIZE_def frames_def)
  have f: "first_run [0..<frames st] (unat n) st =
      (case List.find (\<lambda>i. fits st i (unat n)) [0..<frames st] of None \<Rightarrow> Halts | Some i \<Rightarrow> Done i)"
    by (rule first_run_find [OF ok n]) simp
  show ?thesis
  proof (cases "List.find (\<lambda>i. fits st i (unat n)) [0..<frames st]")
    case None
    then show ?thesis using f m by (simp add: pmalloc_def)
  next
    case (Some i)
    then have "fits st i (unat n)" by (auto simp: find_Some_iff)
    then have "i + unat n - 1 \<in> frees st" using n by (auto simp: fits_def)
    then have ik: "i + unat n \<le> frames st" using free_below_frames [OF ok] n by fastforce
    have "i + unat n \<le> 8 * length (pmm_bitmap st)" using ik ok by (simp add: pmm_ok_def)
    from pmm_alloc_pages_frees [OF frame_at_phys(1) [OF ok ik] this] obtain st' where
      "pmm_alloc_pages (of_nat i * PAGE_SIZE) n st = Done st'" "same_layout st st'"
      "frees st' = frees st - {i..<i + unat n}" "free_mem st' = free_mem st - ucast (n * PAGE_SIZE)" by blast
    then show ?thesis using Some f m by (simp add: pmalloc_def page_addr_def same_layout_fields)
  qed
qed

section \<open>The allocator's interface\<close>

text \<open>
  What a client relies on: \<open>frame_no (layout s) a\<close> is the number of the frame at address \<open>a\<close>, where
  the layout of the address space never changes; an allocation takes a run of free frames, and gives
  back an address from which the run can be freed again.
\<close>
locale page_allocator =
  fixes ok :: "'s \<Rightarrow> bool" and free_set :: "'s \<Rightarrow> nat set" and layout :: "'s \<Rightarrow> 'l"
    and frame_no :: "'l \<Rightarrow> u64 \<Rightarrow> nat"
    and alloc :: "u64 \<Rightarrow> 's \<Rightarrow> (u64 \<times> 's) outcome" and free :: "u64 \<Rightarrow> u64 \<Rightarrow> 's \<Rightarrow> 's outcome"
  assumes alloc_takes: "ok s \<Longrightarrow> 0 < unat n \<Longrightarrow> alloc n s = Done (a, s') \<Longrightarrow>
      ok s' \<and> layout s' = layout s \<and>
      {frame_no (layout s) a..<frame_no (layout s) a + unat n} \<subseteq> free_set s \<and>
      free_set s' = free_set s - {frame_no (layout s) a..<frame_no (layout s) a + unat n}"
    and alloc_returns: "ok s \<Longrightarrow> 0 < unat n \<Longrightarrow> {i..<i + unat n} \<subseteq> free_set s \<Longrightarrow> \<exists>r. alloc n s = Done r"
    and alloc_tame: "ok s \<Longrightarrow> 0 < unat n \<Longrightarrow> alloc n s \<noteq> Wild"
    and free_gives_back: "ok s \<Longrightarrow> 0 < unat n \<Longrightarrow> alloc n s = Done (a, s1) \<Longrightarrow> ok s2 \<Longrightarrow> layout s2 = layout s \<Longrightarrow>
      \<exists>s'. free a n s2 = Done s' \<and> ok s' \<and> layout s' = layout s \<and>
        free_set s' = free_set s2 \<union> {frame_no (layout s) a..<frame_no (layout s) a + unat n}"
begin

lemma alloc_disjoint:
  assumes "ok s" and "0 < unat n" and "0 < unat m" and "alloc n s = Done (a, s1)" and "alloc m s1 = Done (b, s2)"
  shows "{frame_no (layout s) a..<frame_no (layout s) a + unat n} \<inter>
    {frame_no (layout s) b..<frame_no (layout s) b + unat m} = {}"
proof -
  have s1: "ok s1" "layout s1 = layout s"
      "free_set s1 = free_set s - {frame_no (layout s) a..<frame_no (layout s) a + unat n}"
    using alloc_takes [OF assms(1,2,4)] by blast+
  then have "{frame_no (layout s) b..<frame_no (layout s) b + unat m} \<subseteq> free_set s1"
    using alloc_takes [OF s1(1) assms(3,5)] by metis
  then show ?thesis using s1(3) by blast
qed

lemma alloc_free_same:
  assumes "ok s" and "0 < unat n" and "alloc n s = Done (a, s1)"
  shows "\<exists>s2. free a n s1 = Done s2 \<and> ok s2 \<and> free_set s2 = free_set s"
proof -
  have t: "ok s1" "layout s1 = layout s" "{frame_no (layout s) a..<frame_no (layout s) a + unat n} \<subseteq> free_set s"
      "free_set s1 = free_set s - {frame_no (layout s) a..<frame_no (layout s) a + unat n}"
    using alloc_takes [OF assms] by blast+
  obtain s2 where s2: "free a n s1 = Done s2" "ok s2"
      "free_set s2 = free_set s1 \<union> {frame_no (layout s) a..<frame_no (layout s) a + unat n}"
    using free_gives_back [OF assms t(1,2)] by blast
  have "free_set s2 = free_set s" unfolding s2(3) t(4) using t(3) by blast
  then show ?thesis using s2 by blast
qed

text \<open>Whole runs of allocations: every page comes from the free set and no page is given twice.\<close>
fun alloc_many :: "nat \<Rightarrow> 's \<Rightarrow> (u64 list \<times> 's) outcome" where
  "alloc_many 0 s = Done ([], s)"
| "alloc_many (Suc k) s =
     bind_oc (alloc 1 s) (\<lambda>(a, s). bind_oc (alloc_many k s) (\<lambda>(as, s). Done (a # as, s)))"

lemma alloc_many_distinct:
  "ok s \<Longrightarrow> alloc_many k s = Done (as, s') \<Longrightarrow>
   ok s' \<and> layout s' = layout s \<and> distinct (map (frame_no (layout s)) as) \<and> length as = k \<and>
   set (map (frame_no (layout s)) as) \<subseteq> free_set s \<and> free_set s' = free_set s - set (map (frame_no (layout s)) as)"
proof (induction k arbitrary: s as)
  case (Suc k)
  then obtain a s1 bs where a: "alloc 1 s = Done (a, s1)" "alloc_many k s1 = Done (bs, s')" "as = a # bs"
    by (auto simp: bind_oc_eq_Done)
  have "ok s1" "layout s1 = layout s" "frame_no (layout s) a \<in> free_set s"
      "free_set s1 = free_set s - {frame_no (layout s) a}"
    using alloc_takes [OF Suc.prems(1) _ a(1)] by auto
  then show ?case using Suc.IH [OF _ a(2)] a(3) by auto
qed simp

lemma alloc_many_returns:
  "ok s \<Longrightarrow> finite (free_set s) \<Longrightarrow> k \<le> card (free_set s) \<Longrightarrow> \<exists>r. alloc_many k s = Done r"
proof (induction k arbitrary: s)
  case (Suc k)
  then obtain i where "i \<in> free_set s" by fastforce
  then obtain a s1 where a: "alloc 1 s = Done (a, s1)" using alloc_returns [OF Suc.prems(1), of 1 i] by auto
  have t: "ok s1" "frame_no (layout s) a \<in> free_set s" "free_set s1 = free_set s - {frame_no (layout s) a}"
    using alloc_takes [OF Suc.prems(1) _ a] by auto
  then have "k \<le> card (free_set s1)" using Suc.prems by simp
  then show ?case using Suc.IH [OF t(1)] t(3) Suc.prems(2) a by auto
qed simp

end

text \<open>The layout: the direct map and the end of memory.\<close>

definition layout :: "pmm \<Rightarrow> u64 \<times> u64" where
  "layout st = (hhdm_offset st, highest_page st)"

definition frame_no :: "u64 \<times> u64 \<Rightarrow> u64 \<Rightarrow> nat" where
  "frame_no l a = unat ((if fst l = 0 \<or> a < fst l then a else a - fst l) div PAGE_SIZE)"

lemma frame_no_phys: "frame_no (layout st) a = unat (get_physical_address st a div PAGE_SIZE)"
  by (simp add: frame_no_def layout_def get_physical_address_def)

lemma same_layout_layout: "same_layout st st' \<Longrightarrow> layout st' = layout st"
  by (simp add: layout_def same_layout_fields)

lemma layout_eqD:
  assumes "layout st' = layout st"
  shows "page_addr st' = page_addr st" "frames st' = frames st" "get_physical_address st' = get_physical_address st"
    "get_virtual_address st' = get_virtual_address st"
  using assms
  by (simp_all add: layout_def fun_eq_iff frames_def page_addr_def get_virtual_address_def get_physical_address_def)

lemma frame_at_no: "frame_at st a i (Suc k) \<Longrightarrow> frame_no (layout st) a = i"
  by (auto simp: frame_at_def frame_no_phys)

lemma pmalloc_takes:
  assumes ok: "pmm_ok st" and n: "0 < unat n" and r: "pmalloc n st = Done (a, st')"
  shows "\<exists>i. a = page_addr st i \<and> frame_no (layout st) a = i \<and> same_layout st st' \<and> pmm_ok st' \<and> i + unat n \<le> frames st \<and>
    {i..<i + unat n} \<subseteq> frees st \<and> frees st' = frees st - {i..<i + unat n} \<and>
    (\<forall>j < i. \<not> {j..<j + unat n} \<subseteq> frees st) \<and> free_mem st' = free_mem st - ucast (n * PAGE_SIZE)"
proof (cases "List.find (\<lambda>i. fits st i (unat n)) [0..<frames st]")
  case None
  then show ?thesis using pmalloc_eq [OF ok n] r by simp
next
  case (Some i)
  with pmalloc_eq [OF ok n] r have *: "a = page_addr st i" "same_layout st st'"
      "frees st' = frees st - {i..<i + unat n}" "free_mem st' = free_mem st - ucast (n * PAGE_SIZE)" by auto
  have f: "{i..<i + unat n} \<subseteq> frees st" "\<forall>j < i. \<not> {j..<j + unat n} \<subseteq> frees st"
    using Some by (auto simp: find_Some_iff fits_def)
  then have "i + unat n - 1 \<in> frees st" using n by auto
  then have ik: "i + unat n \<le> frames st" using free_below_frames [OF ok] n by fastforce
  then have "frame_no (layout st) a = i"
    using frame_at_no [of st "page_addr st i" i "unat n - 1"] frame_at_phys(2) [OF ok ik] n * by simp
  moreover have "pmm_ok st'" using pmm_ok_same [OF ok *(2)] free_below_frames [OF ok] *(3) by auto
  ultimately show ?thesis using * f ik by blast
qed

lemma pmm_free_pages_returns:
  assumes ok: "pmm_ok st" and ik: "i + unat n \<le> frames st" and a: "a = page_addr st i \<or> a = of_nat i * PAGE_SIZE"
  shows "\<exists>st'. pmm_free_pages a n st = Done st' \<and> pmm_ok st' \<and> same_layout st st' \<and>
    frees st' = frees st \<union> {i..<i + unat n} \<and> free_mem st' = free_mem st + ucast (n * PAGE_SIZE)"
proof -
  have "frame_at st a i (unat n)" using frame_at_phys [OF ok ik] a by blast
  moreover have "i + unat n \<le> 8 * length (pmm_bitmap st)" using ik ok by (simp add: pmm_ok_def)
  ultimately obtain st' where st': "pmm_free_pages a n st = Done st'" "same_layout st st'"
      "frees st' = frees st \<union> {i..<i + unat n}" "free_mem st' = free_mem st + ucast (n * PAGE_SIZE)"
    using pmm_free_pages_frees by blast
  moreover have "\<forall>n \<in> frees st'. n < frames st" using free_below_frames [OF ok] st'(3) ik by auto
  then have "pmm_ok st'" by (rule pmm_ok_same [OF ok st'(2)])
  ultimately show ?thesis by blast
qed

lemma find_fits:
  "pmm_ok st \<Longrightarrow> 0 < k \<Longrightarrow> fits st i k \<Longrightarrow> List.find (\<lambda>i. fits st i k) [0..<frames st] \<noteq> None"
proof -
  assume ok: "pmm_ok st" and k: "0 < k" and f: "fits st i k"
  then have "i \<in> frees st" by (auto simp: fits_def)
  then have "i < frames st" using free_below_frames [OF ok] by blast
  then show ?thesis using f by (auto simp: find_None_iff)
qed

lemma pmalloc_returns:
  "pmm_ok st \<Longrightarrow> 0 < unat n \<Longrightarrow> {i..<i + unat n} \<subseteq> frees st \<Longrightarrow> \<exists>r. pmalloc n st = Done r"
  using pmalloc_eq [of st n] find_fits [of st "unat n" i] by (auto simp: fits_def split: option.splits)

lemma pmalloc_tame: "pmm_ok st \<Longrightarrow> 0 < unat n \<Longrightarrow> pmalloc n st \<noteq> Wild"
  using pmalloc_eq [of st n] by (auto split: option.splits)

interpretation pm: page_allocator pmm_ok frees layout frame_no pmalloc pmm_free_pages
proof
  fix s n a s'
  assume s: "pmm_ok s" "0 < unat n" "pmalloc n s = Done (a, s')"
  then obtain i where i: "frame_no (layout s) a = i" "same_layout s s'" "pmm_ok s'" "{i..<i + unat n} \<subseteq> frees s"
      "frees s' = frees s - {i..<i + unat n}"
    using pmalloc_takes [OF s] by blast
  then show "pmm_ok s' \<and> layout s' = layout s \<and>
      {frame_no (layout s) a..<frame_no (layout s) a + unat n} \<subseteq> frees s \<and>
      frees s' = frees s - {frame_no (layout s) a..<frame_no (layout s) a + unat n}"
    using same_layout_layout [OF i(2)] unfolding i(1) by blast
next
  fix s n a s1 s2
  assume s: "pmm_ok s" "0 < unat n" "pmalloc n s = Done (a, s1)" and s2: "pmm_ok s2" "layout s2 = layout s"
  obtain i where i0: "a = page_addr s i" "frame_no (layout s) a = i" "i + unat n \<le> frames s"
    using pmalloc_takes [OF s] by blast
  then have i: "a = page_addr s2 i" "i + unat n \<le> frames s2" by (simp_all only: layout_eqD [OF s2(2)])
  obtain s' where "pmm_free_pages a n s2 = Done s'" "pmm_ok s'" "same_layout s2 s'" "frees s' = frees s2 \<union> {i..<i + unat n}"
    using pmm_free_pages_returns [OF s2(1) i(2), of a] i(1) by blast
  moreover from this have "layout s' = layout s" using same_layout_layout s2(2) by simp
  ultimately show "\<exists>s'. pmm_free_pages a n s2 = Done s' \<and> pmm_ok s' \<and> layout s' = layout s \<and>
      frees s' = frees s2 \<union> {frame_no (layout s) a..<frame_no (layout s) a + unat n}"
    unfolding i0(2) by blast
qed (blast intro: pmalloc_returns, rule pmalloc_tame)

section \<open>Set-up\<close>

text \<open>The frames of a usable entry, and what the boot loader promises of its memory map.\<close>

definition entry_frames :: "memmap_entry \<Rightarrow> nat set" where
  "entry_frames e =
     (if mm_type e = USABLE then {unat (mm_base e) div 4096..<unat (mm_base e) div 4096 + unat (mm_length e) div 4096} else {})"

definition entry_ok :: "memmap_entry \<Rightarrow> bool" where
  "entry_ok e \<longleftrightarrow> unat (mm_base e) + unat (mm_length e) < 2 ^ 64 \<and>
     (mm_type e = USABLE \<longrightarrow> 4096 dvd unat (mm_base e) \<and> 4096 dvd unat (mm_length e))"

fun disjoint_entries :: "memmap_entry list \<Rightarrow> bool" where
  "disjoint_entries [] = True"
| "disjoint_entries (e # es) = ((\<forall>e' \<in> set es. entry_frames e \<inter> entry_frames e' = {}) \<and> disjoint_entries es)"

lemma highest_top_le: "h \<le> highest_top es h"
proof (induction es arbitrary: h)
  case (Cons e es)
  let ?h = "if mm_type e \<notin> {USABLE, BOOTLOADER_RECLAIMABLE, KERNEL_AND_MODULES} then h
     else let top = mm_base e + mm_length e in if h < top then top else h"
  have "h \<le> ?h" by (auto simp: Let_def)
  also have "?h \<le> highest_top es ?h" by (rule Cons.IH)
  finally show ?case by (simp add: highest_top_def)
qed (simp add: highest_top_def)

lemma highest_top_mem:
  "e \<in> set es \<Longrightarrow> mm_type e = USABLE \<Longrightarrow> mm_base e + mm_length e \<le> highest_top es h"
proof (induction es arbitrary: h)
  case (Cons x es)
  show ?case
  proof (cases "e = x")
    case True
    let ?top = "mm_base e + mm_length e"
    have "?top \<le> (if h < ?top then ?top else h)" by (auto simp: not_less)
    also have "\<dots> \<le> highest_top es (if h < ?top then ?top else h)" by (rule highest_top_le)
    finally show ?thesis using True Cons.prems(2) by (simp add: highest_top_def Let_def split: if_splits)
  next
    case False
    then have "e \<in> set es" using Cons.prems(1) by simp
    from Cons.IH [OF this Cons.prems(2)] show ?thesis by (simp add: highest_top_def)
  qed
qed simp

text \<open>The frames that freeing the usable entries sets free, on any allocator state that covers them.\<close>
definition entry_fits :: "pmm \<Rightarrow> memmap_entry \<Rightarrow> bool" where
  "entry_fits st e \<longleftrightarrow> entry_ok e \<and> (mm_type e = USABLE \<longrightarrow> unat (mm_base e) + unat (mm_length e) \<le> unat (highest_page st))"

lemma free_entry_frees:
  assumes ok: "pmm_ok st" and e: "entry_fits st e"
  shows "\<exists>st'. free_entry e st = Done st' \<and> pmm_ok st' \<and> layout st' = layout st \<and> bitmap_adr st' = bitmap_adr st \<and>
    length (pmm_bitmap st') = length (pmm_bitmap st) \<and> frees st' = frees st \<union> entry_frames e"
proof (cases "mm_type e = USABLE")
  case False
  then show ?thesis using ok by (simp add: free_entry_def entry_frames_def)
next
  case True
  let ?i = "unat (mm_base e) div 4096" and ?n = "mm_length e div PAGE_SIZE"
  have n: "unat ?n = unat (mm_length e) div 4096" by (simp add: unat_div PAGE_SIZE_def)
  have b: "4096 dvd unat (mm_base e)" "4096 dvd unat (mm_length e)"
      "unat (mm_base e) + unat (mm_length e) \<le> unat (highest_page st)"
    using e True by (simp_all add: entry_fits_def entry_ok_def)
  then have "?i + unat (mm_length e) div 4096 = (unat (mm_base e) + unat (mm_length e)) div 4096"
    by (simp add: div_add)
  then have fit: "?i + unat ?n \<le> frames st" unfolding n frames_def using div_le_mono [OF b(3)] by simp
  have "of_nat (?i * 4096) = mm_base e" using b(1) by (simp add: dvd_div_mult_self)
  then have "mm_base e = of_nat ?i * PAGE_SIZE" by (simp add: PAGE_SIZE_def)
  then obtain st' where st': "pmm_free_pages (mm_base e) ?n st = Done st'" "pmm_ok st'" "same_layout st st'"
      "frees st' = frees st \<union> {?i..<?i + unat ?n}"
    using pmm_free_pages_returns [OF ok fit, of "mm_base e"] by blast
  let ?st = "st'\<lparr>total_mem := total_mem st' + ucast (mm_length e)\<rparr>"
  have "frees ?st = frees st'" "frames ?st = frames st'" by (simp_all add: frees_def page_free_def frames_def)
  then have "pmm_ok ?st" using st'(2) by (simp add: pmm_ok_def)
  moreover have "layout ?st = layout st" "bitmap_adr ?st = bitmap_adr st" "length (pmm_bitmap ?st) = length (pmm_bitmap st)"
    using st'(3) by (simp_all add: layout_def same_layout_def)
  ultimately show ?thesis
    using st'(1,4) True n \<open>frees ?st = frees st'\<close> by (simp add: free_entry_def entry_frames_def)
qed

lemma free_entries_frees:
  "pmm_ok st \<Longrightarrow> \<forall>e \<in> set es. entry_fits st e \<Longrightarrow>
   \<exists>st'. for_oc free_entry es st = Done st' \<and> pmm_ok st' \<and> layout st' = layout st \<and> bitmap_adr st' = bitmap_adr st \<and>
    length (pmm_bitmap st') = length (pmm_bitmap st) \<and> frees st' = frees st \<union> (\<Union>e \<in> set es. entry_frames e)"
proof (induction es arbitrary: st)
  case (Cons e es)
  obtain st1 where st1: "free_entry e st = Done st1" "pmm_ok st1" "layout st1 = layout st"
      "bitmap_adr st1 = bitmap_adr st" "length (pmm_bitmap st1) = length (pmm_bitmap st)"
      "frees st1 = frees st \<union> entry_frames e"
    using free_entry_frees [of st e] Cons.prems by auto
  have "\<forall>e \<in> set es. entry_fits st1 e"
    using Cons.prems(2) st1(3) by (simp add: entry_fits_def layout_def)
  from Cons.IH [OF st1(2) this] show ?case using st1 by (auto simp: Un_assoc)
qed simp

lemma place_bitmap_split:
  "place_bitmap sz es = Some (base, es') \<Longrightarrow>
   \<exists>pre e post. es = pre @ e # post \<and> mm_type e = USABLE \<and> sz \<le> mm_length e \<and> base = mm_base e \<and>
     es' = pre @ e\<lparr>mm_base := mm_base e + sz, mm_length := mm_length e - sz\<rparr> # post"
proof (induction es arbitrary: es')
  case (Cons x es)
  show ?case
  proof (cases "mm_type x = USABLE \<and> sz \<le> mm_length x")
    case True
    then show ?thesis using Cons.prems by (intro exI [of _ "[]"] exI [of _ x] exI [of _ es]) auto
  next
    case False
    then obtain es1 where "place_bitmap sz es = Some (base, es1)" "es' = x # es1" using Cons.prems by (auto split: if_splits)
    with Cons.IH [OF this(1)] show ?thesis by (metis append_Cons)
  qed
qed simp

lemma page_mask: "(PAGE_SIZE - 1 :: u64) = mask 12"
  by (simp add: PAGE_SIZE_def mask_eq_exp_minus_1)

lemma ALIGN_UP_nat:
  assumes "unat n + 4095 < 2 ^ 64"
  shows "unat (ALIGN_UP n) = (unat n + 4095) div 4096 * 4096"
proof -
  have "n + PAGE_SIZE - 1 = n + 4095" by (simp add: PAGE_SIZE_def)
  moreover have "unat (n + 4095) = unat n + 4095" using assms by (subst unat_add_nowrap) simp_all
  ultimately show ?thesis unfolding ALIGN_UP_def page_mask [symmetric] by (simp only: page_mask unat_and_not_mask) simp
qed

lemma ALIGN_DOWN_nat: "unat (ALIGN_DOWN n) = unat n div 4096 * 4096"
  unfolding ALIGN_DOWN_def page_mask unat_and_not_mask by simp

lemma bitmap_size_nat:
  "unat (ALIGN_UP (ALIGN_DOWN h div PAGE_SIZE div 8)) = 4096 * ((unat h div 4096 div 8 + 4095) div 4096)"
proof -
  have u: "unat (ALIGN_DOWN h div PAGE_SIZE div 8) = unat h div 4096 div 8"
    by (simp add: unat_div PAGE_SIZE_def ALIGN_DOWN_nat)
  have "unat h div 4096 div 8 < 2 ^ 52" using unat_less [of h] by (simp add: div_less_iff_less_mult)
  then show ?thesis using ALIGN_UP_nat [of "ALIGN_DOWN h div PAGE_SIZE div 8"] unfolding u by (simp add: mult.commute)
qed

lemma carved_union:
  assumes dis: "disjoint_entries (pre @ e # post)" and e': "entry_frames e' = entry_frames e - B" and B: "B \<subseteq> entry_frames e"
  shows "(\<Union>x \<in> set (pre @ e' # post). entry_frames x) = (\<Union>x \<in> set (pre @ e # post). entry_frames x) - B"
proof -
  have "entry_frames x \<inter> entry_frames e = {}" if "x \<in> set pre \<union> set post" for x
    using dis that by (induction pre) auto
  then have "entry_frames x \<inter> B = {}" if "x \<in> set pre \<union> set post" for x using B that by blast
  then show ?thesis by (auto simp: e')
qed

text \<open>The entry that gives its beginning to a bitmap of \<open>n\<close> frames.\<close>

definition carve :: "u64 \<Rightarrow> memmap_entry \<Rightarrow> memmap_entry" where
  "carve sz e = e\<lparr>mm_base := mm_base e + sz, mm_length := mm_length e - sz\<rparr>"

lemma carve_entry:
  assumes e: "entry_ok e" "mm_type e = USABLE" "sz \<le> mm_length e" and sz: "unat sz = 4096 * n"
    and b: "b = unat (mm_base e) div 4096"
  shows "entry_ok (carve sz e)" and "mm_type (carve sz e) = USABLE"
    and "unat (mm_base (carve sz e)) + unat (mm_length (carve sz e)) = unat (mm_base e) + unat (mm_length e)"
    and "entry_frames (carve sz e) = entry_frames e - {b..<b + n}" and "{b..<b + n} \<subseteq> entry_frames e"
proof -
  have eb: "unat (mm_base e) + unat (mm_length e) < 2 ^ 64" "4096 dvd unat (mm_base e)" "4096 dvd unat (mm_length e)"
    using e by (simp_all add: entry_ok_def)
  obtain k where k: "unat (mm_length e) = 4096 * k" using eb(3) by (elim dvdE)
  have nk: "n \<le> k" using e(3) sz k by (simp add: word_le_nat_alt)
  have ub: "unat (mm_base (carve sz e)) = unat (mm_base e) + 4096 * n"
    using eb(1) k nk sz by (simp add: carve_def unat_add_nowrap)
  have ul: "unat (mm_length (carve sz e)) = 4096 * (k - n)"
    using unat_diff_nowrap [OF e(3)] k sz by (simp add: carve_def diff_mult_distrib2)
  show t: "mm_type (carve sz e) = USABLE" using e(2) by (simp add: carve_def)
  show s: "unat (mm_base (carve sz e)) + unat (mm_length (carve sz e)) = unat (mm_base e) + unat (mm_length e)"
    unfolding ub ul k using nk by (simp add: diff_mult_distrib2)
  show "entry_ok (carve sz e)" unfolding entry_ok_def s using eb(1,2) ub ul by simp
  have "unat (mm_base (carve sz e)) div 4096 = b + n" unfolding ub b by simp
  then show "entry_frames (carve sz e) = entry_frames e - {b..<b + n}" "{b..<b + n} \<subseteq> entry_frames e"
    using t e(2) ul k nk by (auto simp: entry_frames_def b)
qed

text \<open>The state before the first entry is freed: every frame is used.\<close>

definition blank_pmm :: "u64 option \<Rightarrow> u64 \<Rightarrow> u64 \<Rightarrow> u64 \<Rightarrow> pmm" where
  "blank_pmm hhdm highest sz base =
     (let st = zero_pmm\<lparr>highest_page := highest, hhdm_offset := (case hhdm of None \<Rightarrow> 0 | Some off \<Rightarrow> off)\<rparr>
      in st\<lparr>bitmap_adr := get_virtual_address st base, pmm_bitmap := replicate (unat sz) 0xFF\<rparr>)"

lemma blank_pmm_fields [simp]:
  "highest_page (blank_pmm hhdm highest sz base) = highest"
  "length (pmm_bitmap (blank_pmm hhdm highest sz base)) = unat sz"
  "hhdm_offset (blank_pmm hhdm highest sz base) = (case hhdm of None \<Rightarrow> 0 | Some off \<Rightarrow> off)"
  "bitmap_adr (blank_pmm hhdm highest sz base) = get_virtual_address (blank_pmm hhdm highest sz base) base"
  by (simp_all add: blank_pmm_def Let_def get_virtual_address_def)

lemma blank_pmm_frees: "frees (blank_pmm hhdm highest sz base) = {}"
proof -
  have "bit (0xFF :: u8) (m mod 8)" for m
    using bit_mask_iff [of 8 "m mod 8", where ?'a = "8 word"] by (simp add: mask_eq_exp_minus_1)
  then show ?thesis by (simp add: frees_def page_free_def blank_pmm_def Let_def)
qed

lemma round_up_spare: "q mod 4096 \<noteq> 0 \<Longrightarrow> q < 4096 * ((q + 4095) div 4096)" for q :: nat
proof (rule ccontr)
  assume q: "q mod 4096 \<noteq> 0" "\<not> q < 4096 * ((q + 4095) div 4096)"
  have "q + 4095 = 4096 * ((q + 4095) div 4096) + (q + 4095) mod 4096" by simp
  moreover have "(q + 4095) mod 4096 < 4096" by simp
  ultimately have "q = 4096 * ((q + 4095) div 4096)" using q(2) by linarith
  then have "q mod 4096 = 0" by (metis mod_mult_self1_is_0)
  with q(1) show False ..
qed

lemma blank_pmm_ok:
  assumes "unat highest div 4096 div 8 mod 4096 \<noteq> 0" and "unat sz = 4096 * ((unat highest div 4096 div 8 + 4095) div 4096)"
    and "\<And>off. hhdm = Some off \<Longrightarrow> unat highest \<le> unat off \<and> unat off + unat highest < 2 ^ 64"
  shows "pmm_ok (blank_pmm hhdm highest sz base)"
proof -
  define q where "q = unat highest div 4096 div 8"
  have "x < 8 * (x div 8 + 1)" for x :: nat by presburger
  then have "unat highest div 4096 < 8 * (q + 1)" unfolding q_def .
  moreover have "q < unat sz" using round_up_spare [of q] assms(1,2) by (simp add: q_def)
  ultimately have "frames (blank_pmm hhdm highest sz base) < 8 * unat sz" by (simp add: frames_def)
  then show ?thesis
    using assms(3) by (cases hhdm) (simp_all add: pmm_ok_def blank_pmm_frees)
qed

lemma page_addr_base:
  "4096 dvd unat base \<Longrightarrow> get_virtual_address st base = page_addr st (unat base div 4096)"
proof -
  assume "4096 dvd unat base"
  then have "of_nat (unat base div 4096 * 4096) = base" by (simp add: dvd_div_mult_self)
  then show ?thesis by (simp add: page_addr_def PAGE_SIZE_def)
qed

section \<open>Properties\<close>

text \<open>
  C23. Set-up from a memory map as the boot loader documents it (usable entries page-aligned and
  disjoint) that has a usable entry large enough for the bitmap: the invariant holds and exactly the
  frames of usable entries are free, less the frames that hold the bitmap, which come out of one usable
  entry; the free counter equals the total.  Two conditions restrict this.  The bitmap must have a spare
  byte behind its last frame (the number of frames by 8 is not a multiple of 4096, so the top of memory is
  not at a multiple of 128 MiB): otherwise the set-up reads past its bitmap.  The direct map, where there is
  one, must lie above all physical addresses and hold them without wrapping.
\<close>
theorem init_frees_usable_memory:
  assumes map: "\<forall>e \<in> set entries. entry_ok e" "disjoint_entries entries"
    and spare: "unat (highest_top entries 0) div 4096 div 8 mod 4096 \<noteq> 0"
    and hhdm: "\<And>off. hhdm = Some off \<Longrightarrow> unat (highest_top entries 0) \<le> unat off \<and> unat off + unat (highest_top entries 0) < 2 ^ 64"
    and placed: "place_bitmap (ALIGN_UP (ALIGN_DOWN (highest_top entries 0) div PAGE_SIZE div 8)) entries = Some (base, es')"
  shows "\<exists>st. init_pmm hhdm entries = Done st \<and> pmm_ok st \<and> free_mem st = total_mem st \<and>
    (let b = unat base div 4096; n = length (pmm_bitmap st) div 4096; usable = (\<Union>e \<in> set entries. entry_frames e) in
       bitmap_adr st = page_addr st b \<and> {b..<b + n} \<subseteq> usable \<and> frees st = usable - {b..<b + n})"
proof -
  define highest where "highest = highest_top entries 0"
  define sz where "sz = ALIGN_UP (ALIGN_DOWN highest div PAGE_SIZE div 8)"
  define n where "n = (unat highest div 4096 div 8 + 4095) div 4096"
  define b where "b = unat base div 4096"
  define st1 where "st1 = blank_pmm hhdm highest sz base"
  have sz: "unat sz = 4096 * n" using bitmap_size_nat [of highest] by (simp add: sz_def n_def)
  obtain pre e post where e: "entries = pre @ e # post" "mm_type e = USABLE" "sz \<le> mm_length e" "base = mm_base e"
      "es' = pre @ carve sz e # post"
    using place_bitmap_split [OF placed] by (auto simp: sz_def highest_def carve_def)
  have ee: "entry_ok e" using map(1) e(1) by simp
  note carved = carve_entry [OF ee e(2,3) sz, of b, unfolded e(4) [symmetric], OF b_def]
  have top: "entry_fits st1 x" if x: "x \<in> set entries" for x
  proof -
    have ok: "entry_ok x" using map(1) x by blast
    then have "unat (mm_base x + mm_length x) = unat (mm_base x) + unat (mm_length x)"
      by (simp add: entry_ok_def unat_add_nowrap)
    then show ?thesis
      using ok highest_top_mem [OF x, of 0] by (simp add: entry_fits_def st1_def highest_def word_le_nat_alt)
  qed
  have "entry_fits st1 e" using top e(1) by simp
  then have "entry_fits st1 (carve sz e)" using carved e(2,4) by (simp add: entry_fits_def)
  then have fits: "\<forall>x \<in> set es'. entry_fits st1 x" using top unfolding e(1,5) by auto
  have ok1: "pmm_ok st1" unfolding st1_def
    by (rule blank_pmm_ok) (use spare sz hhdm in \<open>simp_all add: highest_def n_def\<close>)
  obtain st where st: "for_oc free_entry es' st1 = Done st" "pmm_ok st" "layout st = layout st1"
      "bitmap_adr st = bitmap_adr st1" "length (pmm_bitmap st) = length (pmm_bitmap st1)"
      "frees st = (\<Union>e \<in> set es'. entry_frames e)"
    using free_entries_frees [OF ok1 fits] blank_pmm_frees [of hhdm highest sz base] by (auto simp: st1_def)
  let ?st = "st\<lparr>free_mem := total_mem st\<rparr>"
  have "init_pmm hhdm entries = Done ?st"
    using placed st(1) by (simp add: init_pmm_def Let_def st1_def blank_pmm_def highest_def sz_def)
  moreover have ok: "pmm_ok ?st" "page_addr ?st = page_addr st"
    using st(2) by (simp_all add: pmm_ok_def frames_def page_addr_def get_virtual_address_def fun_eq_iff)
  moreover have "bitmap_adr ?st = page_addr ?st b"
    using page_addr_base [of base st1] ee e(2,4) layout_eqD(1) [OF st(3)] st(4) ok(2)
    by (simp add: b_def st1_def entry_ok_def)
  moreover have "length (pmm_bitmap ?st) div 4096 = n" using st(5) sz by (simp add: st1_def)
  moreover have "frees ?st = (\<Union>e \<in> set entries. entry_frames e) - {b..<b + n}"
    using carved_union [OF map(2) [unfolded e(1)] carved(4,5)] st(6) unfolding e(1,5) by simp
  moreover have "{b..<b + n} \<subseteq> (\<Union>e \<in> set entries. entry_frames e)" using carved(5) e(1) by auto
  ultimately show ?thesis by (intro exI [of _ ?st]) (simp add: Let_def b_def [symmetric])
qed

definition demo_map :: "memmap_entry list" where
  "demo_map = [\<lparr>mm_base = 0, mm_length = 0x10000, mm_type = RESERVED\<rparr>,
     \<lparr>mm_base = 0x10000, mm_length = 0x10000, mm_type = USABLE\<rparr>]"

lemma demo_map_facts:
  "highest_top demo_map 0 = 0x20000" "\<forall>e \<in> set demo_map. entry_ok e" "disjoint_entries demo_map"
  "place_bitmap 0x1000 demo_map = Some (0x10000, [demo_map ! 0, carve 0x1000 (demo_map ! 1)])"
  "ALIGN_UP (ALIGN_DOWN 0x20000 div PAGE_SIZE div 8) = 0x1000"
  by (simp_all add: demo_map_def highest_top_def entry_ok_def entry_frames_def carve_def ALIGN_UP_def ALIGN_DOWN_def PAGE_SIZE_def)

theorem init_frees_usable_memory_witness:
  "\<exists>st. init_pmm (Some 0xFFFF800000000000) demo_map = Done st \<and> pmm_ok st \<and> free_mem st = total_mem st"
  using init_frees_usable_memory [of demo_map "Some 0xFFFF800000000000", OF demo_map_facts(2,3)] demo_map_facts
  by auto

text \<open>
  C24. \<open>pmalloc\<close> of at least one page never touches memory outside the bitmap.  It halts exactly when
  no run of that many free frames exists; otherwise it returns the first such run, takes exactly its
  frames, and freeing the returned address gives back the old set of free frames and the old counter.
\<close>
theorem pmalloc_first_fit_and_free:
  assumes ok: "pmm_ok st" and n: "0 < unat n"
  shows "case pmalloc n st of
      Wild \<Rightarrow> False
    | Halts \<Rightarrow> \<forall>i. \<not> {i..<i + unat n} \<subseteq> frees st
    | Done (a, st') \<Rightarrow>
        \<exists>i. a = page_addr st i \<and> {i..<i + unat n} \<subseteq> frees st \<and> (\<forall>j < i. \<not> {j..<j + unat n} \<subseteq> frees st) \<and>
          pmm_ok st' \<and> frees st' = frees st - {i..<i + unat n} \<and>
          (\<exists>st''. pmm_free_pages a n st' = Done st'' \<and> pmm_ok st'' \<and> frees st'' = frees st \<and> free_mem st'' = free_mem st)"
proof (cases "pmalloc n st")
  case Wild
  then show ?thesis using pmalloc_tame [OF ok n] by simp
next
  case Halts
  then show ?thesis using pmalloc_returns [OF ok n] by fastforce
next
  case (Done r)
  obtain a st' where r: "r = (a, st')" by force
  with Done have al: "pmalloc n st = Done (a, st')" by simp
  obtain i where i: "a = page_addr st i" "same_layout st st'" "pmm_ok st'" "i + unat n \<le> frames st"
      "{i..<i + unat n} \<subseteq> frees st" "frees st' = frees st - {i..<i + unat n}"
      "\<forall>j < i. \<not> {j..<j + unat n} \<subseteq> frees st" "free_mem st' = free_mem st - ucast (n * PAGE_SIZE)"
    using pmalloc_takes [OF ok n al] by blast
  obtain st2 where st2: "pmm_free_pages a n st' = Done st2" "pmm_ok st2" "frees st2 = frees st"
    using pm.alloc_free_same [OF ok n al] by blast
  have l: "frames st' = frames st" "page_addr st' = page_addr st"
    using layout_eqD [OF same_layout_layout [OF i(2)]] by simp_all
  obtain st3 where "pmm_free_pages a n st' = Done st3" "free_mem st3 = free_mem st' + ucast (n * PAGE_SIZE)"
    using pmm_free_pages_returns [OF i(3), of i n a] i(1,4) l by auto
  then have "free_mem st2 = free_mem st" using st2(1) i(8) by simp
  then show ?thesis using al i st2 by auto
qed

definition demo_pmm :: pmm where
  "demo_pmm = \<lparr>pmm_bitmap = [0xFF, 0xFF, 0x01, 0x00, 0xFF], bitmap_adr = 0xFFFF800000010000, highest_page = 0x20000,
     total_mem = 0x10000, free_mem = 0x10000, hhdm_offset = 0xFFFF800000000000\<rparr>"

lemma demo_pmm_frees: "frees demo_pmm = {17..<32}"
proof -
  have "list_all (\<lambda>n. page_free demo_pmm n \<longleftrightarrow> 17 \<le> n \<and> n < 32) [0..<40]" by code_simp
  moreover have "page_free demo_pmm n \<Longrightarrow> n < 40" for n by (auto simp: page_free_def demo_pmm_def)
  ultimately show ?thesis by (auto simp: frees_def list_all_iff simp del: upt_rec_numeral)
qed

lemma demo_pmm_ok: "pmm_ok demo_pmm"
  by (simp add: pmm_ok_def demo_pmm_frees) (simp add: frames_def demo_pmm_def)

theorem pmalloc_first_fit_and_free_witness:
  "\<exists>a st'. pmalloc 3 demo_pmm = Done (a, st') \<and> a = page_addr demo_pmm 17 \<and> frees st' = {20..<32}"
proof -
  have "{17..<17 + unat (3 :: u64)} \<subseteq> frees demo_pmm" by (simp add: demo_pmm_frees)
  then obtain a st' i where *: "pmalloc 3 demo_pmm = Done (a, st')" "a = page_addr demo_pmm i"
      "{i..<i + 3} \<subseteq> {17..<32}" "\<forall>j < i. \<not> {j..<j + 3} \<subseteq> {17..<32 :: nat}" "frees st' = {17..<32} - {i..<i + 3}"
    using pmalloc_first_fit_and_free [OF demo_pmm_ok, of 3] by (auto simp: demo_pmm_frees split: outcome.splits)
  have "\<not> 17 < i" using *(4) by auto
  moreover have "17 \<le> i" using *(3) by auto
  ultimately have "i = 17" by simp
  then show ?thesis using * by auto
qed

end
