(* ===== verification/Vmm.thy ===== *)
theory Vmm
  imports Pmm
begin

unbundle bit_operations_syntax

text \<open>
  Page tables, \<open>src/src/mm/vmm.c\<close>: four levels of tables of 512 entries.  Memory is a function from the
  physical address of a page and an index to a 64-bit word; a pointer of the C code to a table is a
  virtual address in the direct map, converted by the allocator's \<open>phys_from_virt\<close>.  The registers are
  fields of the state; \<open>flushed\<close> records the addresses given to \<open>invlpg\<close>.

  The lemmas view the tables below one root as a tree: no table occurs twice and every table is an
  allocated frame.  Mapping and unmapping change the translation of one page only and keep the tree;
  a new address space shares the upper half of the kernel's root and has an empty lower half.
\<close>

section \<open>State\<close>

definition PTE_PRESENT :: u64 where "PTE_PRESENT = 1"
definition PTE_RW :: u64 where "PTE_RW = 2"
definition PTE_USER :: u64 where "PTE_USER = 4"
definition PTE_ADDR :: u64 where "PTE_ADDR = 0x000ffffffffff000"

record vm =
  vpmm :: pmm
  vmem :: "u64 \<Rightarrow> nat \<Rightarrow> u64"
  cr3 :: u64
  kernel_cr3 :: u64
  flushed :: "u64 list"

text \<open>Reading and writing a word of the page that a pointer points to.\<close>

definition rd :: "vm \<Rightarrow> u64 \<Rightarrow> nat \<Rightarrow> u64" where
  "rd st p i = vmem st (phys_from_virt (vpmm st) p) i"

definition wr :: "vm \<Rightarrow> u64 \<Rightarrow> nat \<Rightarrow> u64 \<Rightarrow> vm" where
  "wr st p i v = (let a = phys_from_virt (vpmm st) p in st\<lparr>vmem := (vmem st)(a := (vmem st a)(i := v))\<rparr>)"

definition table_ptr :: "vm \<Rightarrow> u64 \<Rightarrow> u64" where
  "table_ptr st e = virt_from_phys (vpmm st) (e AND PTE_ADDR)"

definition present :: "u64 \<Rightarrow> bool" where
  "present e \<longleftrightarrow> e AND PTE_PRESENT \<noteq> 0"

definition alloc_page :: "vm \<Rightarrow> (u64 \<times> vm) outcome" where
  "alloc_page st = bind_oc (pmalloc 1 (vpmm st)) (\<lambda>(virt, pm). Done (virt, st\<lparr>vpmm := pm\<rparr>))"

definition free_frame :: "u64 \<Rightarrow> vm \<Rightarrow> vm outcome" where
  "free_frame p st = bind_oc (pmm_free_pages p 1 (vpmm st)) (\<lambda>pm. Done (st\<lparr>vpmm := pm\<rparr>))"

definition clear_page :: "u64 \<Rightarrow> vm \<Rightarrow> vm" where
  "clear_page p st = fold (\<lambda>i st. wr st p i 0) [0..<512] st"

definition invlpg :: "u64 \<Rightarrow> vm \<Rightarrow> vm" where
  "invlpg a st = st\<lparr>flushed := flushed st @ [a]\<rparr>"

text \<open>Indices of an address at the four levels.\<close>

definition idx4 :: "u64 \<Rightarrow> nat" where "idx4 v = unat (drop_bit 39 v AND 0x1FF)"
definition idx3 :: "u64 \<Rightarrow> nat" where "idx3 v = unat (drop_bit 30 v AND 0x1FF)"
definition idx2 :: "u64 \<Rightarrow> nat" where "idx2 v = unat (drop_bit 21 v AND 0x1FF)"
definition idx1 :: "u64 \<Rightarrow> nat" where "idx1 v = unat (drop_bit 12 v AND 0x1FF)"

section \<open>Operations\<close>

definition init_vmm :: "vm \<Rightarrow> vm" where
  "init_vmm st = st\<lparr>kernel_cr3 := cr3 st\<rparr>"

definition vmm_switch_page_table :: "u64 \<Rightarrow> vm \<Rightarrow> vm" where
  "vmm_switch_page_table cr3_phys st = st\<lparr>cr3 := cr3_phys\<rparr>"

text \<open>\<open>table_entry\<close> is word \<open>i\<close> of the table at \<open>t\<close>; the result is the pointer, 0 for null.\<close>
definition ensure_table :: "u64 \<Rightarrow> nat \<Rightarrow> u64 \<Rightarrow> vm \<Rightarrow> (u64 \<times> vm) outcome" where
  "ensure_table t i flags st =
     (if present (rd st t i) then
        let st = (if flags AND PTE_USER \<noteq> 0 then wr st t i (rd st t i OR PTE_USER) else st)
        in Done (table_ptr st (rd st t i), st)
      else
        bind_oc (alloc_page st) (\<lambda>(virt, st).
          if virt = 0 then Done (0, st)
          else
            let st = clear_page virt st;
                phys = phys_from_virt (vpmm st) virt;
                entry_flags = PTE_PRESENT OR PTE_RW;
                entry_flags = (if flags AND PTE_USER \<noteq> 0 then entry_flags OR PTE_USER else entry_flags)
            in Done (virt, wr st t i ((phys AND PTE_ADDR) OR entry_flags))))"

text \<open>The walk that creates the missing tables; 0 when one could not be allocated.\<close>
definition ensure_walk :: "u64 \<Rightarrow> u64 \<Rightarrow> u64 \<Rightarrow> vm \<Rightarrow> (u64 \<times> vm) outcome" where
  "ensure_walk pml4 v flags st =
     bind_oc (ensure_table pml4 (idx4 v) flags st) (\<lambda>(pdpt, st).
       if pdpt = 0 then Done (0, st)
       else bind_oc (ensure_table pdpt (idx3 v) flags st) (\<lambda>(pd, st).
         if pd = 0 then Done (0, st)
         else ensure_table pd (idx2 v) flags st))"

definition leaf_entry :: "u64 \<Rightarrow> u64 \<Rightarrow> u64" where
  "leaf_entry p flags = (p AND PTE_ADDR) OR (if flags \<noteq> 0 then flags else PTE_PRESENT OR PTE_RW)"

definition vmm_map_page :: "u64 \<Rightarrow> u64 \<Rightarrow> u64 \<Rightarrow> vm \<Rightarrow> (int \<times> vm) outcome" where
  "vmm_map_page virt phys flags st =
     (if virt = 0 \<or> phys = 0 then Done (-1, st)
      else bind_oc (ensure_walk (table_ptr st (cr3 st)) virt flags st) (\<lambda>(pt, st).
        if pt = 0 then Done (-1, st)
        else Done (0, invlpg virt (wr st pt (idx1 virt) (leaf_entry phys flags)))))"

fun map_range_loop :: "nat \<Rightarrow> u64 \<Rightarrow> u64 \<Rightarrow> u64 \<Rightarrow> vm \<Rightarrow> (int \<times> vm) outcome" where
  "map_range_loop 0 v p flags st = Done (0, st)"
| "map_range_loop (Suc n) v p flags st =
     bind_oc (vmm_map_page v p flags st) (\<lambda>(r, st).
       if r \<noteq> 0 then Done (-1, st) else map_range_loop n (v + 4096) (p + 4096) flags st)"

definition vmm_map_range :: "u64 \<Rightarrow> u64 \<Rightarrow> u64 \<Rightarrow> u64 \<Rightarrow> vm \<Rightarrow> (int \<times> vm) outcome" where
  "vmm_map_range virt phys pages flags st = map_range_loop (unat pages) virt phys flags st"

definition vmm_map_page_in :: "u64 \<Rightarrow> u64 \<Rightarrow> u64 \<Rightarrow> u64 \<Rightarrow> vm \<Rightarrow> (int \<times> vm) outcome" where
  "vmm_map_page_in cr3_phys virt phys flags st =
     (if virt = 0 \<or> phys = 0 then Done (-1, st)
      else bind_oc (ensure_walk (table_ptr st cr3_phys) virt flags st) (\<lambda>(pt, st).
        if pt = 0 then Done (-1, st)
        else
          let st = wr st pt (idx1 virt) (leaf_entry phys flags)
          in Done (0, if cr3 st AND PTE_ADDR = cr3_phys AND PTE_ADDR then invlpg virt st else st)))"

definition vmm_unmap_page_in :: "u64 \<Rightarrow> u64 \<Rightarrow> vm \<Rightarrow> u64 \<times> vm" where
  "vmm_unmap_page_in cr3_phys virt st =
     (let pml4 = table_ptr st cr3_phys in
      if \<not> present (rd st pml4 (idx4 virt)) then (0, st) else
      let pdpt = table_ptr st (rd st pml4 (idx4 virt)) in
      if \<not> present (rd st pdpt (idx3 virt)) then (0, st) else
      let pd = table_ptr st (rd st pdpt (idx3 virt)) in
      if \<not> present (rd st pd (idx2 virt)) then (0, st) else
      let pt = table_ptr st (rd st pd (idx2 virt)) in
      if \<not> present (rd st pt (idx1 virt)) then (0, st) else
      let phys = rd st pt (idx1 virt) AND PTE_ADDR;
          st = wr st pt (idx1 virt) 0
      in (phys, if cr3 st AND PTE_ADDR = cr3_phys AND PTE_ADDR then invlpg virt st else st))"

definition vmm_get_pte :: "u64 \<Rightarrow> u64 \<Rightarrow> vm \<Rightarrow> u64" where
  "vmm_get_pte cr3_phys vaddr st =
     (let pml4 = table_ptr st cr3_phys in
      if \<not> present (rd st pml4 (idx4 vaddr)) then 0 else
      let pdpt = table_ptr st (rd st pml4 (idx4 vaddr)) in
      if \<not> present (rd st pdpt (idx3 vaddr)) then 0 else
      let pd = table_ptr st (rd st pdpt (idx3 vaddr)) in
      if \<not> present (rd st pd (idx2 vaddr)) then 0 else
      rd st (table_ptr st (rd st pd (idx2 vaddr))) (idx1 vaddr))"

definition vmm_create_user_page_table :: "vm \<Rightarrow> (u64 \<times> vm) outcome" where
  "vmm_create_user_page_table st =
     bind_oc (alloc_page st) (\<lambda>(new_pml4, st).
       if new_pml4 = 0 then Done (0, st)
       else
         let st = clear_page new_pml4 st;
             kernel_pml4 = table_ptr st (kernel_cr3 st);
             st = fold (\<lambda>i st. wr st new_pml4 i (rd st kernel_pml4 i)) [256..<512] st
         in Done (phys_from_virt (vpmm st) new_pml4, st))"

text \<open>Freeing an address space: the four nested loops, from the inside out.\<close>

definition free_leaf :: "u64 \<Rightarrow> nat \<Rightarrow> vm \<Rightarrow> vm outcome" where
  "free_leaf pt i1 st =
     (if \<not> present (rd st pt i1) then Done st
      else bind_oc (free_frame (table_ptr st (rd st pt i1)) st) (\<lambda>st. Done (wr st pt i1 0)))"

definition free_pt :: "u64 \<Rightarrow> nat \<Rightarrow> vm \<Rightarrow> vm outcome" where
  "free_pt pd i2 st =
     (if \<not> present (rd st pd i2) then Done st
      else
        let pt = table_ptr st (rd st pd i2)
        in bind_oc (for_oc (free_leaf pt) [0..<512] st) (\<lambda>st.
             bind_oc (free_frame pt st) (\<lambda>st. Done (wr st pd i2 0))))"

definition free_pd :: "u64 \<Rightarrow> nat \<Rightarrow> vm \<Rightarrow> vm outcome" where
  "free_pd pdpt i3 st =
     (if \<not> present (rd st pdpt i3) then Done st
      else
        let pd = table_ptr st (rd st pdpt i3)
        in bind_oc (for_oc (free_pt pd) [0..<512] st) (\<lambda>st.
             bind_oc (free_frame pd st) (\<lambda>st. Done (wr st pdpt i3 0))))"

definition free_pdpt :: "u64 \<Rightarrow> nat \<Rightarrow> vm \<Rightarrow> vm outcome" where
  "free_pdpt pml4 i4 st =
     (if \<not> present (rd st pml4 i4) then Done st
      else
        let pdpt = table_ptr st (rd st pml4 i4)
        in bind_oc (for_oc (free_pd pdpt) [0..<512] st) (\<lambda>st.
             bind_oc (free_frame pdpt st) (\<lambda>st. Done (wr st pml4 i4 0))))"

definition vmm_free_user_page_table :: "u64 \<Rightarrow> vm \<Rightarrow> vm outcome" where
  "vmm_free_user_page_table cr3_phys st =
     (if cr3_phys = 0 \<or> cr3_phys = kernel_cr3 st then Done st
      else
        let pml4 = table_ptr st cr3_phys
        in bind_oc (for_oc (free_pdpt pml4) [0..<256] st) (free_frame pml4))"

text \<open>
  Copying an address space.  The body of a loop returns the state, or \<open>Inl\<close> of it where the C code
  jumps to \<open>fail\<close>.
\<close>

fun for_fail :: "('x \<Rightarrow> 's \<Rightarrow> ('s + 's) outcome) \<Rightarrow> 'x list \<Rightarrow> 's \<Rightarrow> ('s + 's) outcome" where
  "for_fail f [] s = Done (Inr s)"
| "for_fail f (x # xs) s =
     bind_oc (f x s) (\<lambda>r. case r of Inl s \<Rightarrow> Done (Inl s) | Inr s \<Rightarrow> for_fail f xs s)"

definition copy_page :: "u64 \<Rightarrow> u64 \<Rightarrow> vm \<Rightarrow> vm" where
  "copy_page d s st = fold (\<lambda>i st. wr st d i (rd st s i)) [0..<512] st"

definition clone_leaf :: "u64 \<Rightarrow> u64 \<Rightarrow> nat \<Rightarrow> vm \<Rightarrow> (vm + vm) outcome" where
  "clone_leaf p_pt c_pt i1 st =
     (if \<not> present (rd st p_pt i1) then Done (Inr st)
      else bind_oc (alloc_page st) (\<lambda>(new_frame_virt, st).
        if new_frame_virt = 0 then Done (Inl st)
        else
          let st = copy_page new_frame_virt (table_ptr st (rd st p_pt i1)) st;
              new_frame_phys = phys_from_virt (vpmm st) new_frame_virt
          in Done (Inr (wr st c_pt i1 ((new_frame_phys AND PTE_ADDR) OR (rd st p_pt i1 AND 0xFFF))))))"

definition clone_level :: "(u64 \<Rightarrow> u64 \<Rightarrow> nat \<Rightarrow> vm \<Rightarrow> (vm + vm) outcome) \<Rightarrow> nat \<Rightarrow> u64 \<Rightarrow> u64 \<Rightarrow> nat \<Rightarrow> vm \<Rightarrow> (vm + vm) outcome" where
  "clone_level body n p_table c_table i st =
     (if \<not> present (rd st p_table i) then Done (Inr st)
      else
        let p_sub = table_ptr st (rd st p_table i)
        in bind_oc (ensure_table c_table i (rd st p_table i AND 0xFFF) st) (\<lambda>(c_sub, st).
             if c_sub = 0 then Done (Inl st)
             else for_fail (body p_sub c_sub) [0..<n] st))"

definition vmm_clone_user_page_table :: "u64 \<Rightarrow> vm \<Rightarrow> (u64 \<times> vm) outcome" where
  "vmm_clone_user_page_table parent_cr3_phys st =
     bind_oc (vmm_create_user_page_table st) (\<lambda>(child_cr3_phys, st).
       if child_cr3_phys = 0 then Done (0, st)
       else
         let p_pml4 = virt_from_phys (vpmm st) parent_cr3_phys;
             c_pml4 = virt_from_phys (vpmm st) child_cr3_phys
         in bind_oc (for_fail (clone_level (clone_level (clone_level clone_leaf 512) 512) 512 p_pml4 c_pml4) [0..<256] st) (\<lambda>r.
              case r of
                Inr st \<Rightarrow> Done (child_cr3_phys, st)
              | Inl st \<Rightarrow> bind_oc (vmm_free_user_page_table child_cr3_phys st) (\<lambda>st. Done (0, st))))"

section \<open>The tree of tables\<close>

definition pa :: "u64 \<Rightarrow> u64" where
  "pa e = e AND PTE_ADDR"

text \<open>The table reached from the table \<open>r\<close> by a list of indices, in a memory \<open>M\<close>.\<close>
fun node :: "(u64 \<Rightarrow> nat \<Rightarrow> u64) \<Rightarrow> u64 \<Rightarrow> nat list \<Rightarrow> u64 option" where
  "node M r [] = Some r"
| "node M r (i # p) = (if present (M r i) then node M (pa (M r i)) p else None)"

text \<open>Paths to tables whose first index lies in \<open>S\<close>: all of an address space, or its user half.\<close>
definition okp :: "nat set \<Rightarrow> nat list \<Rightarrow> bool" where
  "okp S p \<longleftrightarrow> length p \<le> 3 \<and> (\<forall>i \<in> set p. i < 512) \<and> (p \<noteq> [] \<longrightarrow> hd p \<in> S)"

definition tree :: "(u64 \<Rightarrow> nat \<Rightarrow> u64) \<Rightarrow> u64 \<Rightarrow> nat set \<Rightarrow> bool" where
  "tree M r S \<longleftrightarrow> (\<forall>p q t. okp S p \<longrightarrow> okp S q \<longrightarrow> node M r p = Some t \<longrightarrow> node M r q = Some t \<longrightarrow> p = q)"

definition tables :: "(u64 \<Rightarrow> nat \<Rightarrow> u64) \<Rightarrow> u64 \<Rightarrow> nat set \<Rightarrow> u64 set" where
  "tables M r S = {t. \<exists>p. okp S p \<and> node M r p = Some t}"

lemma okp_Nil [simp]: "okp S []"
  by (simp add: okp_def)

lemma okp_butlast: "okp S (p @ [i]) \<Longrightarrow> okp S p"
  by (cases p) (auto simp: okp_def)

lemma node_snoc:
  "node M r (p @ [i]) = (case node M r p of None \<Rightarrow> None | Some t \<Rightarrow> if present (M t i) then Some (pa (M t i)) else None)"
  by (induction p arbitrary: r) auto

lemma tree_inj: "tree M r S \<Longrightarrow> okp S p \<Longrightarrow> okp S q \<Longrightarrow> node M r p = Some t \<Longrightarrow> node M r q = Some t \<Longrightarrow> p = q"
  unfolding tree_def by blast

lemma tablesI: "okp S p \<Longrightarrow> node M r p = Some t \<Longrightarrow> t \<in> tables M r S"
  unfolding tables_def by blast

lemma node_cong:
  assumes "\<And>t i. present (M' t i) = present (M t i) \<and> (present (M t i) \<longrightarrow> pa (M' t i) = pa (M t i))"
  shows "node M' r p = node M r p"
  using assms by (induction p arbitrary: r) auto

text \<open>A new empty table \<open>n\<close> hung into the free entry \<open>i\<close> of the table \<open>t\<close>.\<close>

definition hang :: "(u64 \<Rightarrow> nat \<Rightarrow> u64) \<Rightarrow> u64 \<Rightarrow> nat \<Rightarrow> u64 \<Rightarrow> u64 \<Rightarrow> u64 \<Rightarrow> nat \<Rightarrow> u64" where
  "hang M t i n e = (let M1 = M(n := (\<lambda>j. if j < 512 then 0 else M n j)) in M1(t := (M1 t)(i := e)))"

lemma present_0 [simp]: "\<not> present 0"
  by (simp add: present_def)

lemma node_hang:
  assumes tr: "tree M r S" and t: "node M r p = Some t" and pi: "okp S (p @ [i])"
    and absent: "\<not> present (M t i)" and fresh: "n \<notin> tables M r S" and e: "present e" "pa e = n"
  shows "okp S q \<Longrightarrow> node (hang M t i n e) r q = (if q = p @ [i] then Some n else node M r q)"
proof (induction q rule: rev_induct)
  case (snoc j q)
  let ?M = "hang M t i n e"
  have okq: "okp S q" using okp_butlast [OF snoc.prems] .
  have okpp: "okp S p" using okp_butlast [OF pi] .
  have tn: "t \<noteq> n" using fresh tablesI [OF okpp t] by blast
  have j: "j < 512" using snoc.prems by (simp add: okp_def)
  have Mt: "?M t k = (if k = i then e else M t k)" for k using tn by (simp add: hang_def)
  have Mu: "?M u k = M u k" if "u \<noteq> t" "u \<noteq> n" for u k using that by (simp add: hang_def)
  show ?case
  proof (cases "q = p @ [i]")
    case True
    have "?M n j = 0" using tn j by (simp add: hang_def)
    moreover have "node M r q = None" using t absent unfolding True by (simp add: node_snoc)
    moreover have "node ?M r q = Some n" using snoc.IH [OF okq] True by simp
    moreover have "q @ [j] \<noteq> p @ [i]" using True by auto
    ultimately show ?thesis by (simp add: node_snoc [of _ r q j])
  next
    case False
    then have IH: "node ?M r q = node M r q" using snoc.IH [OF okq] by simp
    show ?thesis
    proof (cases "node M r q")
      case None
      then have "q \<noteq> p" using t by auto
      then show ?thesis using IH None by (simp add: node_snoc)
    next
      case (Some u)
      have un: "u \<noteq> n" using fresh tablesI [OF okq Some] by blast
      show ?thesis
      proof (cases "q = p")
        case True
        then have "u = t" using t Some by simp
        then show ?thesis using IH Some True e Mt by (simp add: node_snoc)
      next
        case False
        then have "u \<noteq> t" using tree_inj [OF tr okq okpp Some] t by blast
        then show ?thesis using IH Some False Mu un by (simp add: node_snoc)
      qed
    qed
  qed
qed simp

lemma tables_hang:
  assumes "tree M r S" and "node M r p = Some t" and "okp S (p @ [i])"
    and "\<not> present (M t i)" and "n \<notin> tables M r S" and "present e" "pa e = n"
  shows "tree (hang M t i n e) r S" and "tables (hang M t i n e) r S = insert n (tables M r S)"
proof -
  note N = node_hang [OF assms]
  have none: "node M r (p @ [i]) = None" using assms(2,4) by (simp add: node_snoc)
  show "tables (hang M t i n e) r S = insert n (tables M r S)"
    using N assms(3) none unfolding tables_def by (auto split: if_splits) (metis option.distinct(1))
  show "tree (hang M t i n e) r S"
    unfolding tree_def
  proof (intro allI impI)
    fix q q' u
    assume q: "okp S q" "okp S q'" "node (hang M t i n e) r q = Some u" "node (hang M t i n e) r q' = Some u"
    have *: "x = p @ [i] \<or> u \<in> tables M r S" if "okp S x" "node (hang M t i n e) r x = Some u" for x
      using N [OF that(1)] that tablesI by (auto split: if_splits)
    show "q = q'"
    proof (cases "u = n")
      case True
      then have "q = p @ [i]" "q' = p @ [i]"
        using N [OF q(1)] N [OF q(2)] q assms(5) tablesI by (auto split: if_splits)
      then show ?thesis by simp
    next
      case False
      then have "q \<noteq> p @ [i]" "q' \<noteq> p @ [i]" using N [OF q(1)] N [OF q(2)] q(3,4) by auto
      then have "node M r q = Some u" "node M r q' = Some u"
        using N [OF q(1)] N [OF q(2)] q(3,4) by simp_all
      then show ?thesis using tree_inj [OF assms(1) q(1,2)] by blast
    qed
  qed
qed

text \<open>Writing an entry of a table of the last level changes no path.\<close>

lemma node_leaf:
  assumes tr: "tree M r S" and t: "node M r p = Some t" and p: "okp S p" "length p = 3"
  shows "okp S q \<Longrightarrow> node (M(t := f)) r q = node M r q"
proof (induction q rule: rev_induct)
  case (snoc j q)
  have okq: "okp S q" using okp_butlast [OF snoc.prems] .
  show ?case
  proof (cases "node M r q")
    case None
    then show ?thesis using snoc.IH [OF okq] by (simp add: node_snoc)
  next
    case (Some u)
    have "length q \<le> 2" using snoc.prems by (simp add: okp_def)
    then have "u \<noteq> t" using tree_inj [OF tr okq p(1) Some] t p(2) by auto
    then show ?thesis using snoc.IH [OF okq] Some by (simp add: node_snoc)
  qed
qed simp

lemma tree_same_nodes:
  "(\<And>q. okp S q \<Longrightarrow> node M' r q = node M r q) \<Longrightarrow> tree M' r S = tree M r S \<and> tables M' r S = tables M r S"
proof -
  assume *: "\<And>q. okp S q \<Longrightarrow> node M' r q = node M r q"
  then have "okp S q \<and> node M' r q = Some t \<longleftrightarrow> okp S q \<and> node M r q = Some t" for q t by auto
  moreover have "tree M r S \<longleftrightarrow>
      (\<forall>p q t. okp S p \<and> node M r p = Some t \<longrightarrow> okp S q \<and> node M r q = Some t \<longrightarrow> p = q)" for M
    unfolding tree_def by blast
  ultimately show ?thesis by (simp add: tables_def)
qed

section \<open>Address spaces\<close>

definition table_frame :: "pmm \<Rightarrow> u64 \<Rightarrow> bool" where
  "table_frame pm t \<longleftrightarrow> (\<exists>n < frames pm. t = of_nat n * PAGE_SIZE \<and> n \<notin> frees pm)"

definition mem_ok :: "pmm \<Rightarrow> bool" where
  "mem_ok pm \<longleftrightarrow> pmm_ok pm \<and> hhdm_offset pm \<noteq> 0 \<and> unat (highest_page pm) \<le> 2 ^ 52"

definition vm_ok :: "vm \<Rightarrow> u64 \<Rightarrow> nat set \<Rightarrow> bool" where
  "vm_ok st r S \<longleftrightarrow> mem_ok (vpmm st) \<and> tree (vmem st) (pa r) S \<and> (\<forall>t \<in> tables (vmem st) (pa r) S. table_frame (vpmm st) t)"

definition vpath :: "u64 \<Rightarrow> nat list" where
  "vpath v = [idx4 v, idx3 v, idx2 v]"

text \<open>The last-level entry that the tree holds for an address, 0 when a table is missing.\<close>
definition translate :: "vm \<Rightarrow> u64 \<Rightarrow> u64 \<Rightarrow> u64" where
  "translate st r v =
     (case node (vmem st) (pa r) (vpath v) of None \<Rightarrow> 0 | Some t \<Rightarrow> vmem st t (idx1 v))"

lemma PTE_ADDR_mask: "PTE_ADDR = push_bit 12 (mask 40)"
  by (simp add: PTE_ADDR_def mask_eq_exp_minus_1 push_bit_eq_mult)

lemma bit_PTE_ADDR: "bit PTE_ADDR k \<longleftrightarrow> 12 \<le> k \<and> k < 52"
  unfolding PTE_ADDR_mask by (auto simp: bit_push_bit_iff bit_mask_iff)

lemma present_bit: "present e \<longleftrightarrow> bit e 0"
  by (simp add: present_def PTE_PRESENT_def and_one_eq odd_iff_mod_2_eq_one [symmetric] bit_0)

lemma pa_or:
  "fl AND PTE_ADDR = 0 \<Longrightarrow> pa ((t AND PTE_ADDR) OR fl) = t AND PTE_ADDR"
  by (simp add: pa_def bit.conj_disj_distrib2 and.assoc)

lemma present_or: "bit fl 0 \<Longrightarrow> present ((t AND PTE_ADDR) OR fl)"
  by (simp add: present_bit bit_or_iff)

lemma flag_or: "pa (e OR PTE_USER) = pa e" "present (e OR PTE_USER) = present e"
  by (simp_all add: pa_def bit.conj_disj_distrib2 PTE_USER_def PTE_ADDR_def present_bit bit_0 even_or_iff)

lemma frame_addr_less: "n < frames pm \<Longrightarrow> unat (of_nat n * PAGE_SIZE) = n * 4096 \<and> n * 4096 < unat (highest_page pm)"
  using frame_le [of "Suc n" pm] highest_less [of pm] unat_frame_addr [of n] by simp

lemma phys_virt:
  assumes ok: "mem_ok pm" and n: "n < frames pm"
  shows "phys_from_virt pm (virt_from_phys pm (of_nat n * PAGE_SIZE)) = of_nat n * PAGE_SIZE"
    and "virt_from_phys pm (of_nat n * PAGE_SIZE) \<noteq> 0" and "virt_from_phys pm (of_nat n * PAGE_SIZE) = page_addr pm n"
    and "(of_nat n * PAGE_SIZE) AND PTE_ADDR = of_nat n * PAGE_SIZE"
proof -
  let ?t = "of_nat n * PAGE_SIZE" and ?h = "hhdm_offset pm"
  have t: "unat ?t = n * 4096" "n * 4096 < unat (highest_page pm)" using frame_addr_less [OF n] by simp_all
  have h: "?h \<noteq> 0" "unat (highest_page pm) \<le> unat ?h" "unat ?h + unat (highest_page pm) < 2 ^ 64" "unat (highest_page pm) \<le> 2 ^ 52"
    using ok by (auto simp: mem_ok_def pmm_ok_def)
  have lt: "?t < ?h" using t h(2) by (simp add: word_less_nat_alt)
  then have nle: "\<not> ?h \<le> ?t" by simp
  have sum: "unat (?t + ?h) = n * 4096 + unat ?h" using t h(3) by (subst unat_add_nowrap) simp_all
  then have ge: "\<not> ?t + ?h < ?h" by (simp add: word_less_nat_alt)
  show "phys_from_virt pm (virt_from_phys pm ?t) = ?t"
    using h(1) lt ge by (simp add: phys_from_virt_def virt_from_phys_def get_physical_address_def get_virtual_address_def)
  have "unat ?h \<noteq> 0" using h(1) by (simp add: unat_eq_0)
  then have "?t + ?h \<noteq> 0" using sum by (metis add_is_0 unat_0)
  then show "virt_from_phys pm ?t \<noteq> 0" using h(1) nle by (simp add: virt_from_phys_def get_virtual_address_def)
  show "virt_from_phys pm ?t = page_addr pm n" by (simp add: virt_from_phys_def page_addr_def)
  show "?t AND PTE_ADDR = ?t"
  proof (rule bit_word_eqI)
    fix k :: nat assume k: "k < LENGTH(64)"
    have b: "bit PTE_ADDR k \<longleftrightarrow> 12 \<le> k \<and> k < 52" using k by (simp add: bit_PTE_ADDR)
    have "bit (unat ?t) k \<longleftrightarrow> bit ?t k" by (simp add: bit_unsigned_iff)
    then have "bit ?t k \<longleftrightarrow> odd (n * 4096 div 2 ^ k)" unfolding t(1) by (simp add: bit_iff_odd)
    moreover have "even (n * 4096 div 2 ^ k)" if "k < 12"
    proof -
      have "(2 :: nat) ^ 12 = 2 ^ k * 2 ^ (12 - k)" using that by (simp flip: power_add)
      then have "n * 4096 = n * 2 ^ (12 - k) * 2 ^ k" by (simp add: ac_simps)
      then have "n * 4096 div 2 ^ k = n * 2 ^ (12 - k)" by (simp only: nonzero_mult_div_cancel_right power_not_zero) simp
      then show ?thesis using that by simp
    qed
    moreover have "n * 4096 div 2 ^ k = 0" if "52 \<le> k"
      using t(2) h(4) that by (simp add: div_eq_0_iff order.strict_trans2 [OF _ power_increasing [of 52 k 2]])
    ultimately show "bit (?t AND PTE_ADDR) k \<longleftrightarrow> bit ?t k" using b by (auto simp: bit_and_iff)
  qed
qed

lemma table_frame_virt:
  "mem_ok pm \<Longrightarrow> table_frame pm t \<Longrightarrow>
   phys_from_virt pm (virt_from_phys pm t) = t \<and> virt_from_phys pm t \<noteq> 0 \<and> t AND PTE_ADDR = t"
  unfolding table_frame_def using phys_virt by blast

lemma table_ptr_pa: "table_ptr st e = virt_from_phys (vpmm st) (pa e)"
  by (simp add: table_ptr_def pa_def)

text \<open>Reading and writing through the direct map.\<close>

definition reachable_page :: "vm \<Rightarrow> u64 \<Rightarrow> bool" where
  "reachable_page st t \<longleftrightarrow> phys_from_virt (vpmm st) (virt_from_phys (vpmm st) t) = t"

lemma rd_page: "reachable_page st t \<Longrightarrow> rd st (virt_from_phys (vpmm st) t) i = vmem st t i"
  by (simp add: rd_def reachable_page_def)

lemma wr_page:
  "reachable_page st t \<Longrightarrow> wr st (virt_from_phys (vpmm st) t) i v = st\<lparr>vmem := (vmem st)(t := (vmem st t)(i := v))\<rparr>"
  by (simp add: wr_def reachable_page_def Let_def)

lemma clear_page_eq:
  assumes "reachable_page st t"
  shows "clear_page (virt_from_phys (vpmm st) t) st = st\<lparr>vmem := (vmem st)(t := (\<lambda>j. if j < 512 then 0 else vmem st t j))\<rparr>"
proof -
  let ?p = "virt_from_phys (vpmm st) t"
  have "fold (\<lambda>i st. wr st ?p i 0) [0..<k] st = st\<lparr>vmem := (vmem st)(t := (\<lambda>j. if j < k then 0 else vmem st t j))\<rparr>" for k
  proof (induction k)
    case (Suc k)
    then show ?case using assms by (simp add: wr_def reachable_page_def Let_def fun_eq_iff less_Suc_eq)
  qed simp
  then show ?thesis by (simp add: clear_page_def)
qed

lemma copy_words_eq:
  assumes "reachable_page st n" and "reachable_page st k" and "n \<noteq> k" and "a \<le> b"
  shows "fold (\<lambda>i st'. wr st' (virt_from_phys (vpmm st) n) i (rd st' (virt_from_phys (vpmm st) k) i)) [a..<b] st =
    st\<lparr>vmem := (vmem st)(n := (\<lambda>i. if a \<le> i \<and> i < b then vmem st k i else vmem st n i))\<rparr>"
  using assms(4)
proof (induction b)
  case (Suc b)
  show ?case
  proof (cases "a \<le> b")
    case True
    then show ?thesis
      using Suc assms(1-3) by (auto simp: wr_def rd_def reachable_page_def Let_def fun_eq_iff less_Suc_eq intro!: vm.equality)
  next
    case False
    then have "a = Suc b" using Suc.prems by simp
    then show ?thesis by (auto simp: fun_eq_iff intro!: vm.equality)
  qed
qed (auto simp: fun_eq_iff intro!: vm.equality)

lemma alloc_page_frames:
  assumes ok: "mem_ok (vpmm st)"
  shows "case alloc_page st of Wild \<Rightarrow> False | Halts \<Rightarrow> frees (vpmm st) = {}
    | Done (virt, st') \<Rightarrow> \<exists>n pm. n < frames (vpmm st) \<and> n \<in> frees (vpmm st) \<and> virt = virt_from_phys (vpmm st) (of_nat n * PAGE_SIZE) \<and>
        st' = st\<lparr>vpmm := pm\<rparr> \<and> mem_ok pm \<and> frees pm = frees (vpmm st) - {n} \<and> layout pm = layout (vpmm st)"
proof (cases "pmalloc 1 (vpmm st)")
  case Wild
  then show ?thesis using pmalloc_tame [of "vpmm st" 1] ok by (simp add: mem_ok_def)
next
  case Halts
  have "frees (vpmm st) = {}"
  proof (rule ccontr)
    assume "frees (vpmm st) \<noteq> {}"
    then obtain n where "{n..<n + unat (1 :: u64)} \<subseteq> frees (vpmm st)" by auto
    then show False using pmalloc_returns [of "vpmm st" 1 n] ok Halts by (simp add: mem_ok_def)
  qed
  then show ?thesis using Halts by (simp add: alloc_page_def)
next
  case (Done r)
  obtain a pm where r: "r = (a, pm)" by force
  have "pmalloc 1 (vpmm st) = Done (a, pm)" "pmm_ok (vpmm st)" "0 < unat (1 :: u64)"
    using Done r ok by (simp_all add: mem_ok_def)
  then obtain n where "a = page_addr (vpmm st) n" "same_layout (vpmm st) pm" "pmm_ok pm"
      "n + unat (1 :: u64) \<le> frames (vpmm st)" "{n..<n + unat (1 :: u64)} \<subseteq> frees (vpmm st)"
      "frees pm = frees (vpmm st) - {n..<n + unat (1 :: u64)}"
    using pmalloc_takes by blast
  then have n: "a = page_addr (vpmm st) n" "same_layout (vpmm st) pm" "pmm_ok pm" "n < frames (vpmm st)"
      "n \<in> frees (vpmm st)" "frees pm = frees (vpmm st) - {n}" by auto
  have "mem_ok pm" using ok n(2,3) by (simp add: mem_ok_def same_layout_fields)
  moreover have "layout pm = layout (vpmm st)" using same_layout_layout n(2) by blast
  moreover have "virt_from_phys (vpmm st) (of_nat n * PAGE_SIZE) = a" using phys_virt(3) [OF ok] n by simp
  ultimately show ?thesis
    using Done r n(4-6) by (simp add: alloc_page_def) blast
qed

lemma vm_okD:
  assumes "vm_ok st r S"
  shows "mem_ok (vpmm st)" "tree (vmem st) (pa r) S"
    "okp S p \<Longrightarrow> node (vmem st) (pa r) p = Some t \<Longrightarrow> table_frame (vpmm st) t \<and> reachable_page st t"
proof -
  show ok: "mem_ok (vpmm st)" "tree (vmem st) (pa r) S" using assms by (simp_all add: vm_ok_def)
  assume "okp S p" "node (vmem st) (pa r) p = Some t"
  then have "table_frame (vpmm st) t" using assms tablesI by (auto simp: vm_ok_def)
  then show "table_frame (vpmm st) t \<and> reachable_page st t"
    using table_frame_virt [OF ok(1)] by (simp add: reachable_page_def)
qed

text \<open>A page frame in use that is no table of the address space.\<close>
definition outside :: "vm \<Rightarrow> u64 \<Rightarrow> nat set \<Rightarrow> u64 \<Rightarrow> bool" where
  "outside st r S a \<longleftrightarrow> table_frame (vpmm st) a \<and> a \<notin> tables (vmem st) (pa r) S"

text \<open>
  What growing the tree keeps: the registers, the layout, every existing path, the translation of
  every address, and the contents of the pages outside; at most \<open>k\<close> frames are taken.
\<close>
definition grown :: "nat \<Rightarrow> u64 \<Rightarrow> nat set \<Rightarrow> vm \<Rightarrow> vm \<Rightarrow> bool" where
  "grown k r S st st' \<longleftrightarrow> vm_ok st' r S \<and> layout (vpmm st') = layout (vpmm st) \<and> cr3 st' = cr3 st \<and>
     kernel_cr3 st' = kernel_cr3 st \<and> flushed st' = flushed st \<and>
     (\<exists>N. length N \<le> k \<and> frees (vpmm st') = frees (vpmm st) - set N) \<and>
     (\<forall>p t. okp S p \<longrightarrow> node (vmem st) (pa r) p = Some t \<longrightarrow> node (vmem st') (pa r) p = Some t) \<and>
     (\<forall>v. idx4 v \<in> S \<longrightarrow> translate st' r v = translate st r v) \<and>
     (\<forall>a. outside st r S a \<longrightarrow> outside st' r S a \<and> vmem st' a = vmem st a)"

lemma grown_trans:
  assumes "grown k r S a b" and "grown l r S b c"
  shows "grown (k + l) r S a c"
proof -
  obtain N N' where "length N \<le> k" "frees (vpmm b) = frees (vpmm a) - set N" "length N' \<le> l" "frees (vpmm c) = frees (vpmm b) - set N'"
    using assms unfolding grown_def by blast
  then have "length (N @ N') \<le> k + l \<and> frees (vpmm c) = frees (vpmm a) - set (N @ N')" by auto
  then show ?thesis using assms unfolding grown_def by (intro conjI exI [of _ "N @ N'"]) simp_all
qed

lemma idx_less: "idx4 v < 512" "idx3 v < 512" "idx2 v < 512" "idx1 v < 512"
proof -
  have "unat (w AND 0x1FF :: u64) < 512" for w
    using word_and_le1 [of w "0x1FF"] by (simp add: word_le_nat_alt)
  then show "idx4 v < 512" "idx3 v < 512" "idx2 v < 512" "idx1 v < 512"
    by (simp_all add: idx4_def idx3_def idx2_def idx1_def)
qed

lemma okp_walk: "idx4 v \<in> S \<Longrightarrow> okp S (vpath v)" "length (vpath v) = 3" "idx4 v \<in> S \<Longrightarrow> okp S [idx4 v, idx3 v]"
  "idx4 v \<in> S \<Longrightarrow> okp S [idx4 v]"
  by (simp_all add: okp_def idx_less vpath_def)

lemma ensure_table_present:
  assumes ok: "vm_ok st r S" and t: "node (vmem st) (pa r) p = Some t" and pi: "okp S (p @ [i])"
    and pr: "present (vmem st t i)"
  shows "\<exists>st'. ensure_table (virt_from_phys (vpmm st) t) i flags st = Done (virt_from_phys (vpmm st) (pa (vmem st t i)), st') \<and>
    grown 1 r S st st' \<and> node (vmem st') (pa r) (p @ [i]) = Some (pa (vmem st t i))"
proof -
  have okpp: "okp S p" using okp_butlast [OF pi] .
  have rt: "reachable_page st t" using vm_okD(3) [OF ok okpp t] by simp
  define e where "e = (if flags AND PTE_USER \<noteq> 0 then vmem st t i OR PTE_USER else vmem st t i)"
  define st' where "st' = st\<lparr>vmem := (vmem st)(t := (vmem st t)(i := e))\<rparr>"
  have e: "pa e = pa (vmem st t i)" "present e = present (vmem st t i)" by (simp_all add: e_def flag_or)
  have wr': "(if flags AND PTE_USER \<noteq> 0 then wr st (virt_from_phys (vpmm st) t) i (rd st (virt_from_phys (vpmm st) t) i OR PTE_USER) else st) = st'"
    by (simp add: wr_page [OF rt] rd_page [OF rt] st'_def e_def)
  have rt': "reachable_page st' t" using rt by (simp add: st'_def reachable_page_def)
  have N: "node (vmem st') x q = node (vmem st) x q" for x q
    by (rule node_cong) (auto simp: st'_def e)
  have T: "translate st' r v = translate st r v" if v: "idx4 v \<in> S" for v
  proof -
    have "u \<noteq> t" if "node (vmem st) (pa r) (vpath v) = Some u" for u
    proof
      assume "u = t"
      then have "vpath v = p" using tree_inj [OF vm_okD(2) [OF ok] okp_walk(1) [OF v] okpp] that t by blast
      then show False using pi okp_walk(2) [of v] by (auto simp: okp_def)
    qed
    then show ?thesis unfolding translate_def N by (auto simp: st'_def split: option.split)
  qed
  have "vm_ok st' r S"
    using ok tree_same_nodes [of S "vmem st'" "pa r" "vmem st"] N by (simp add: vm_ok_def) (simp add: st'_def)
  moreover have "\<exists>N. length N \<le> 1 \<and> frees (vpmm st') = frees (vpmm st) - set N" by (intro exI [of _ "[]"]) (simp add: st'_def)
  moreover have "outside st' r S a \<and> vmem st' a = vmem st a" if "outside st r S a" for a
  proof -
    have "tables (vmem st') (pa r) S = tables (vmem st) (pa r) S" unfolding tables_def using N by simp
    moreover have "a \<noteq> t" using tablesI [OF okpp t] that by (auto simp: outside_def)
    ultimately show ?thesis using that by (simp add: outside_def) (simp add: st'_def)
  qed
  ultimately have "grown 1 r S st st'" using N T by (simp add: grown_def) (simp add: st'_def)
  moreover have "ensure_table (virt_from_phys (vpmm st) t) i flags st =
      Done (virt_from_phys (vpmm st) (pa (vmem st t i)), st')"
    unfolding ensure_table_def rd_page [OF rt] Let_def
    using pr wr' [unfolded rd_page [OF rt]] rd_page [OF rt'] e
    by (simp add: table_ptr_pa) (simp add: st'_def)
  moreover have "node (vmem st') (pa r) (p @ [i]) = Some (pa (vmem st t i))"
    using t pr unfolding N by (simp add: node_snoc)
  ultimately show ?thesis by blast
qed

lemma vmem_hang:
  assumes "t \<noteq> n" and "reachable_page st t" and "reachable_page st n"
  shows "wr (clear_page (virt_from_phys (vpmm st) n) st) (virt_from_phys (vpmm st) t) i e =
    st\<lparr>vmem := hang (vmem st) t i n e\<rparr>"
proof -
  define st1 where "st1 = st\<lparr>vmem := (vmem st)(n := (\<lambda>j. if j < 512 then 0 else vmem st n j))\<rparr>"
  have "clear_page (virt_from_phys (vpmm st) n) st = st1" unfolding st1_def by (rule clear_page_eq [OF assms(3)])
  moreover have "reachable_page st1 t" "vpmm st1 = vpmm st" using assms(2) by (simp_all add: st1_def reachable_page_def)
  ultimately show ?thesis
    using wr_page [of st1 t i e] by (simp add: st1_def hang_def Let_def)
qed

lemma table_frame_mono:
  "table_frame pm t \<Longrightarrow> layout pm' = layout pm \<Longrightarrow> frees pm' \<subseteq> frees pm \<Longrightarrow> table_frame pm' t"
  using layout_eqD(2) [of pm' pm] by (auto simp: table_frame_def)

lemma vpmm_clear_page: "vpmm (clear_page p st) = vpmm st"
proof -
  have "vpmm (fold (\<lambda>i st. wr st p i 0) xs st) = vpmm st" for xs
    by (induction xs arbitrary: st) (auto simp: wr_def Let_def)
  then show ?thesis by (simp add: clear_page_def)
qed

lemma new_entry:
  "pa ((t AND PTE_ADDR) OR PTE_PRESENT OR PTE_RW) = t AND PTE_ADDR" "present ((t AND PTE_ADDR) OR PTE_PRESENT OR PTE_RW)"
  "pa ((t AND PTE_ADDR) OR PTE_PRESENT OR PTE_RW OR PTE_USER) = t AND PTE_ADDR"
  "present ((t AND PTE_ADDR) OR PTE_PRESENT OR PTE_RW OR PTE_USER)"
proof -
  have "(PTE_PRESENT OR PTE_RW) AND PTE_ADDR = 0" "(PTE_PRESENT OR PTE_RW OR PTE_USER) AND PTE_ADDR = 0"
      "bit (PTE_PRESENT OR PTE_RW) 0" "bit (PTE_PRESENT OR PTE_RW OR PTE_USER) 0"
    by (simp_all add: PTE_PRESENT_def PTE_RW_def PTE_USER_def PTE_ADDR_def bit_0)
  then show "pa ((t AND PTE_ADDR) OR PTE_PRESENT OR PTE_RW) = t AND PTE_ADDR" "present ((t AND PTE_ADDR) OR PTE_PRESENT OR PTE_RW)"
      "pa ((t AND PTE_ADDR) OR PTE_PRESENT OR PTE_RW OR PTE_USER) = t AND PTE_ADDR"
      "present ((t AND PTE_ADDR) OR PTE_PRESENT OR PTE_RW OR PTE_USER)"
    using pa_or present_or by (simp_all only: or.assoc)
qed

lemma table_frame_free: "n < frames pm \<Longrightarrow> n \<in> frees pm \<Longrightarrow> \<not> table_frame pm (of_nat n * PAGE_SIZE)"
proof
  assume n: "n < frames pm" "n \<in> frees pm" "table_frame pm (of_nat n * PAGE_SIZE)"
  then obtain m where m: "m < frames pm" "(of_nat n * PAGE_SIZE :: u64) = of_nat m * PAGE_SIZE" "m \<notin> frees pm"
    by (auto simp: table_frame_def)
  have "n * 4096 = unat (of_nat n * PAGE_SIZE :: u64)" using frame_addr_less [OF n(1)] by (simp only:)
  also have "\<dots> = unat (of_nat m * PAGE_SIZE :: u64)" by (simp only: m(2))
  also have "\<dots> = m * 4096" using frame_addr_less [OF m(1)] by (simp only:)
  finally have "n = m" by simp
  then show False using n(2) m(3) by simp
qed

lemma ensure_table_absent:
  assumes ok: "vm_ok st r S" and t: "node (vmem st) (pa r) p = Some t" and pi: "okp S (p @ [i])"
    and pr: "\<not> present (vmem st t i)"
  shows "case ensure_table (virt_from_phys (vpmm st) t) i flags st of Wild \<Rightarrow> False
    | Halts \<Rightarrow> frees (vpmm st) = {}
    | Done (q, st') \<Rightarrow> \<exists>t'. q = virt_from_phys (vpmm st) t' \<and> q \<noteq> 0 \<and> grown 1 r S st st' \<and>
        node (vmem st') (pa r) (p @ [i]) = Some t'"
proof -
  have okpp: "okp S p" using okp_butlast [OF pi] .
  have mok: "mem_ok (vpmm st)" using vm_okD(1) [OF ok] .
  have rt: "reachable_page st t" using vm_okD(3) [OF ok okpp t] by simp
  note ens = ensure_table_def [of "virt_from_phys (vpmm st) t" i flags st, unfolded rd_page [OF rt], unfolded if_not_P [OF pr]]
  show ?thesis
  proof (cases "alloc_page st")
    case Wild
    then show ?thesis using alloc_page_frames [OF mok] by simp
  next
    case Halts
    then show ?thesis using alloc_page_frames [OF mok] ens by simp
  next
    case (Done a)
    then obtain n pm where n: "n < frames (vpmm st)" "n \<in> frees (vpmm st)" "mem_ok pm"
        "a = (virt_from_phys (vpmm st) (of_nat n * PAGE_SIZE), st\<lparr>vpmm := pm\<rparr>)"
        "frees pm = frees (vpmm st) - {n}" "layout pm = layout (vpmm st)"
      using alloc_page_frames [OF mok] by (cases a) auto
    let ?n = "of_nat n * PAGE_SIZE :: u64" and ?st = "st\<lparr>vpmm := pm\<rparr>"
    define e where "e = (?n AND PTE_ADDR) OR
      (if flags AND PTE_USER \<noteq> 0 then PTE_PRESENT OR PTE_RW OR PTE_USER else PTE_PRESENT OR PTE_RW)"
    have vf: "virt_from_phys pm = virt_from_phys (vpmm st)" "phys_from_virt pm = phys_from_virt (vpmm st)"
      using layout_eqD(3,4) [OF n(6)] by (simp_all add: fun_eq_iff virt_from_phys_def phys_from_virt_def)
    have q: "virt_from_phys (vpmm st) ?n \<noteq> 0" "phys_from_virt (vpmm st) (virt_from_phys (vpmm st) ?n) = ?n"
        "?n AND PTE_ADDR = ?n"
      using phys_virt [OF mok n(1)] by simp_all
    have notin: "?n \<notin> tables (vmem st) (pa r) S"
    proof
      assume "?n \<in> tables (vmem st) (pa r) S"
      then have "table_frame (vpmm st) ?n" using ok by (simp add: vm_ok_def)
      then show False using n(1,2) table_frame_free by blast
    qed
    then have tn: "t \<noteq> ?n" using tablesI [OF okpp t] by blast
    have fl: "pa e = ?n" "present e"
      using new_entry [of ?n] q(3) by (simp_all add: e_def)
    define st' where "st' = st\<lparr>vpmm := pm, vmem := hang (vmem st) t i ?n e\<rparr>"
    have rn: "reachable_page ?st t" "reachable_page ?st ?n" using rt q(2) vf by (simp_all add: reachable_page_def)
    have "wr (clear_page (virt_from_phys (vpmm st) ?n) ?st) (virt_from_phys (vpmm st) t) i e = st'"
      using vmem_hang [OF tn rn, of i e] vf by (simp add: st'_def)
    then have "ensure_table (virt_from_phys (vpmm st) t) i flags st = Done (virt_from_phys (vpmm st) ?n, st')"
      unfolding ens Done n(4) bind_oc.simps prod.case using q vf
      by (cases "flags AND PTE_USER = 0") (simp_all add: Let_def vpmm_clear_page e_def or.assoc)
    moreover have N: "okp S x \<Longrightarrow> node (vmem st') (pa r) x = (if x = p @ [i] then Some ?n else node (vmem st) (pa r) x)" for x
      using node_hang [OF vm_okD(2) [OF ok] t pi pr notin fl(2,1)] by (simp add: st'_def)
    moreover have "vm_ok st' r S"
    proof -
      note H = tables_hang [OF vm_okD(2) [OF ok] t pi pr notin fl(2,1)]
      have "table_frame pm x" if "x \<in> tables (vmem st) (pa r) S" for x
        using table_frame_mono [OF _ n(6)] n(5) ok that by (auto simp: vm_ok_def)
      moreover have "table_frame pm ?n" using n(1,5) layout_eqD(2) [OF n(6)] by (auto simp: table_frame_def)
      ultimately show ?thesis using H n(3) by (simp add: vm_ok_def st'_def)
    qed
    moreover have none: "node (vmem st) (pa r) (p @ [i]) = None" using t pr by (simp add: node_snoc)
    have "translate st' r v = translate st r v" if v: "idx4 v \<in> S" for v
    proof (cases "vpath v = p @ [i]")
      case True
      have "vmem st' ?n (idx1 v) = 0" using tn idx_less(4) by (simp add: st'_def hang_def)
      then show ?thesis using N [OF okp_walk(1) [OF v]] True none by (simp add: translate_def)
    next
      case False
      have "vmem st' u (idx1 v) = vmem st u (idx1 v)" if u: "node (vmem st) (pa r) (vpath v) = Some u" for u
      proof -
        have "u \<noteq> ?n" using notin tablesI [OF okp_walk(1) [OF v] u] by blast
        moreover have "u \<noteq> t"
        proof
          assume "u = t"
          then have "vpath v = p" using tree_inj [OF vm_okD(2) [OF ok] okp_walk(1) [OF v] okpp] u t by blast
          then show False using pi okp_walk(2) [of v] by (auto simp: okp_def)
        qed
        ultimately show ?thesis by (simp add: st'_def hang_def)
      qed
      then show ?thesis using N [OF okp_walk(1) [OF v]] False unfolding translate_def by (auto split: option.split)
    qed
    moreover have "\<exists>N. length N \<le> 1 \<and> frees pm = frees (vpmm st) - set N" using n(5) by (intro exI [of _ "[n]"]) simp
    moreover have "node (vmem st') (pa r) x = Some u" if "okp S x" "node (vmem st) (pa r) x = Some u" for x u
      using N [OF that(1)] that(2) none by auto
    moreover have "outside st' r S a \<and> vmem st' a = vmem st a" if a: "outside st r S a" for a
    proof -
      have "a \<noteq> ?n" using a table_frame_free [OF n(1,2)] by (auto simp: outside_def)
      moreover have "a \<noteq> t" using tablesI [OF okpp t] a by (auto simp: outside_def)
      moreover have "table_frame pm a" using table_frame_mono [OF _ n(6)] n(5) a by (auto simp: outside_def)
      ultimately show ?thesis
        using a tables_hang(2) [OF vm_okD(2) [OF ok] t pi pr notin fl(2,1)] by (simp add: outside_def st'_def) (simp add: hang_def)
    qed
    ultimately have "grown 1 r S st st'" using n(6) by (simp add: grown_def) (simp add: st'_def)
    moreover have "node (vmem st') (pa r) (p @ [i]) = Some ?n" using N [OF pi] by simp
    moreover have "ensure_table (virt_from_phys (vpmm st) t) i flags st = Done (virt_from_phys (vpmm st) ?n, st')" by fact
    ultimately show ?thesis using q(1) by auto
  qed
qed

lemma ensure_table_grows:
  assumes ok: "vm_ok st r S" and t: "node (vmem st) (pa r) p = Some t" and pi: "okp S (p @ [i])"
  shows "case ensure_table (virt_from_phys (vpmm st) t) i flags st of Wild \<Rightarrow> False
    | Halts \<Rightarrow> frees (vpmm st) = {}
    | Done (q, st') \<Rightarrow> \<exists>t'. q = virt_from_phys (vpmm st') t' \<and> q \<noteq> 0 \<and> grown 1 r S st st' \<and>
        node (vmem st') (pa r) (p @ [i]) = Some t'"
proof (cases "present (vmem st t i)")
  case True
  from ensure_table_present [OF ok t pi True] obtain st' where st':
    "ensure_table (virt_from_phys (vpmm st) t) i flags st = Done (virt_from_phys (vpmm st) (pa (vmem st t i)), st')"
    "grown 1 r S st st'" "node (vmem st') (pa r) (p @ [i]) = Some (pa (vmem st t i))" by blast
  then have "vm_ok st' r S" "layout (vpmm st') = layout (vpmm st)" by (simp_all add: grown_def)
  moreover from this have "virt_from_phys (vpmm st') = virt_from_phys (vpmm st)"
    using layout_eqD(4) [of "vpmm st'" "vpmm st"] by (simp add: fun_eq_iff virt_from_phys_def)
  moreover have "virt_from_phys (vpmm st') (pa (vmem st t i)) \<noteq> 0"
    using table_frame_virt vm_okD(1,3) calculation(1) pi st'(3) by blast
  ultimately show ?thesis using st' by simp
next
  case False
  have "virt_from_phys (vpmm st') = virt_from_phys (vpmm st)" if "grown 1 r S st st'" for st'
    using that layout_eqD(4) [of "vpmm st'" "vpmm st"] by (simp add: grown_def fun_eq_iff virt_from_phys_def)
  then show ?thesis using ensure_table_absent [OF ok t pi False, of flags] by (fastforce split: outcome.splits)
qed

lemma grown_frees: "grown k r S st st' \<Longrightarrow> frees (vpmm st') = {} \<Longrightarrow> card (frees (vpmm st)) \<le> k"
proof -
  assume "grown k r S st st'" "frees (vpmm st') = {}"
  then obtain N where N: "length N \<le> k" "frees (vpmm st) \<subseteq> set N" unfolding grown_def by blast
  then have "card (frees (vpmm st)) \<le> card (set N)" by (simp add: card_mono)
  then show ?thesis using N(1) card_length [of N] by linarith
qed

lemma ensure_walk_grows:
  assumes ok: "vm_ok st r S" and v: "idx4 v \<in> S"
  shows "case ensure_walk (table_ptr st r) v flags st of Wild \<Rightarrow> False
    | Halts \<Rightarrow> card (frees (vpmm st)) < 3
    | Done (q, st') \<Rightarrow> \<exists>t. q = virt_from_phys (vpmm st') t \<and> q \<noteq> 0 \<and> grown 3 r S st st' \<and>
        node (vmem st') (pa r) (vpath v) = Some t"
proof -
  have p: "okp S ([] @ [idx4 v])" "okp S ([idx4 v] @ [idx3 v])" "okp S ([idx4 v, idx3 v] @ [idx2 v])"
    using v by (simp_all add: okp_def idx_less)
  have n0: "node (vmem st) (pa r) [] = Some (pa r)" by simp
  note E1 = ensure_table_grows [OF ok n0 p(1), of flags, folded table_ptr_pa]
  show ?thesis
  proof (cases "ensure_table (table_ptr st r) (idx4 v) flags st")
    case Wild
    then show ?thesis using E1 by simp
  next
    case Halts
    then have "card (frees (vpmm st)) < 3" using E1 by simp
    then show ?thesis using Halts by (simp add: ensure_walk_def)
  next
    case (Done a)
    then obtain t1 s1 where a: "a = (virt_from_phys (vpmm s1) t1, s1)" "virt_from_phys (vpmm s1) t1 \<noteq> 0" "grown 1 r S st s1"
        "node (vmem s1) (pa r) [idx4 v] = Some t1"
      using E1 by (cases a) auto
    have ok1: "vm_ok s1 r S" using a(3) by (simp add: grown_def)
    note E2 = ensure_table_grows [OF ok1 a(4) p(2), of flags]
    note D1 = Done
    show ?thesis
    proof (cases "ensure_table (virt_from_phys (vpmm s1) t1) (idx3 v) flags s1")
      case Wild
      then show ?thesis using E2 by simp
    next
      case Halts
      then have "card (frees (vpmm st)) < 3" using E2 grown_frees [OF a(3)] by simp
      then show ?thesis using Halts D1 a by (simp add: ensure_walk_def)
    next
      case (Done b)
      then obtain t2 s2 where b: "b = (virt_from_phys (vpmm s2) t2, s2)" "virt_from_phys (vpmm s2) t2 \<noteq> 0" "grown 1 r S s1 s2"
          "node (vmem s2) (pa r) [idx4 v, idx3 v] = Some t2"
        using E2 by (cases b) auto
      have ok2: "vm_ok s2 r S" using b(3) by (simp add: grown_def)
      have g2: "grown 2 r S st s2" using grown_trans [OF a(3) b(3)] by (simp add: numeral_2_eq_2)
      have W: "ensure_walk (table_ptr st r) v flags st = ensure_table (virt_from_phys (vpmm s2) t2) (idx2 v) flags s2"
        using D1 Done a(1,2) b(1,2) by (simp add: ensure_walk_def)
      have "card (frees (vpmm st)) < 3" if "frees (vpmm s2) = {}" using grown_frees [OF g2 that] by simp
      moreover have "grown 3 r S st s3" if "grown 1 r S s2 s3" for s3 using grown_trans [OF g2 that] by simp
      moreover have vp: "[idx4 v, idx3 v] @ [idx2 v] = vpath v" by (simp add: vpath_def)
      ultimately show ?thesis
        using ensure_table_grows [OF ok2 b(4) p(3), of flags, unfolded vp] unfolding W
        by (auto split: outcome.splits)
    qed
  qed
qed

text \<open>The page number of an address: its 36 bits above the offset, which the four indices determine.\<close>
definition vpage :: "u64 \<Rightarrow> u64" where
  "vpage v = drop_bit 12 v AND mask 36"

lemma index_bits:
  fixes v w :: u64
  assumes "unat (drop_bit k w AND 0x1FF) = unat (drop_bit k v AND 0x1FF)" and "j < 9"
  shows "bit w (k + j) \<longleftrightarrow> bit v (k + j)"
proof -
  have "drop_bit k w AND 0x1FF = drop_bit k v AND 0x1FF" using assms(1) by (rule unsigned_word_eqI)
  then have "bit (drop_bit k w AND 0x1FF) j \<longleftrightarrow> bit (drop_bit k v AND 0x1FF) j" by simp
  moreover have "(0x1FF :: u64) = mask 9" by (simp add: mask_eq_exp_minus_1)
  ultimately show ?thesis using assms(2) by (simp add: bit_and_iff bit_mask_iff bit_drop_bit_eq)
qed

lemma vpage_eqI:
  assumes "vpath w = vpath v" and "idx1 w = idx1 v"
  shows "vpage w = vpage v"
proof (rule bit_word_eqI)
  fix n :: nat
  assume "n < LENGTH(64)"
  have i: "\<And>j. j < 9 \<Longrightarrow> bit w (39 + j) = bit v (39 + j)" "\<And>j. j < 9 \<Longrightarrow> bit w (30 + j) = bit v (30 + j)"
      "\<And>j. j < 9 \<Longrightarrow> bit w (21 + j) = bit v (21 + j)" "\<And>j. j < 9 \<Longrightarrow> bit w (12 + j) = bit v (12 + j)"
    using assms index_bits [of 39 w v] index_bits [of 30 w v] index_bits [of 21 w v] index_bits [of 12 w v]
    by (simp_all add: vpath_def idx4_def idx3_def idx2_def idx1_def)
  consider "36 \<le> n" | "n < 9" | "9 \<le> n" "n < 18" | "18 \<le> n" "n < 27" | "27 \<le> n" "n < 36" by linarith
  then show "bit (vpage w) n = bit (vpage v) n"
  proof cases
    case 1
    then show ?thesis by (simp add: vpage_def bit_and_iff bit_mask_iff)
  qed (use i(1) [of "n - 27"] i(2) [of "n - 18"] i(3) [of "n - 9"] i(4) [of n] in
        \<open>simp_all add: vpage_def bit_and_iff bit_mask_iff bit_drop_bit_eq\<close>)
qed

text \<open>The entry that a leaf write puts in place, seen through translation.\<close>

lemma write_leaf:
  assumes ok: "vm_ok st r S" and v: "idx4 v \<in> S" and t: "node (vmem st) (pa r) (vpath v) = Some t"
    and st': "st' = st\<lparr>vmem := (vmem st)(t := (vmem st t)(idx1 v := e))\<rparr>"
  shows "vm_ok st' r S" and "translate st' r v = e"
    and "\<And>w. idx4 w \<in> S \<Longrightarrow> vpage w \<noteq> vpage v \<Longrightarrow> translate st' r w = translate st r w"
    and "\<And>a. outside st r S a \<Longrightarrow> outside st' r S a \<and> vmem st' a = vmem st a"
proof -
  have N: "okp S q \<Longrightarrow> node (vmem st') (pa r) q = node (vmem st) (pa r) q" for q
    unfolding st' using node_leaf [OF vm_okD(2) [OF ok] t okp_walk(1) [OF v] okp_walk(2)] by simp
  show "vm_ok st' r S"
    using ok tree_same_nodes [of S "vmem st'" "pa r" "vmem st"] N by (simp add: vm_ok_def) (simp add: st')
  show "translate st' r v = e" using N [OF okp_walk(1) [OF v]] t by (simp add: translate_def st')
  show "outside st' r S a \<and> vmem st' a = vmem st a" if "outside st r S a" for a
  proof -
    have "tables (vmem st') (pa r) S = tables (vmem st) (pa r) S" unfolding tables_def using N by auto
    moreover have "a \<noteq> t" using tablesI [OF okp_walk(1) [OF v] t] that by (auto simp: outside_def)
    ultimately show ?thesis using that by (simp add: outside_def) (simp add: st')
  qed
  fix w assume w: "idx4 w \<in> S" "vpage w \<noteq> vpage v"
  show "translate st' r w = translate st r w"
  proof (cases "vpath w = vpath v")
    case False
    have "u \<noteq> t" if "node (vmem st) (pa r) (vpath w) = Some u" for u
      using tree_inj [OF vm_okD(2) [OF ok] okp_walk(1) [OF w(1)] okp_walk(1) [OF v] that] t False by blast
    then show ?thesis using N [OF okp_walk(1) [OF w(1)]] unfolding translate_def by (auto simp: st' split: option.split)
  next
    case True
    have "idx1 w \<noteq> idx1 v" using vpage_eqI [OF True] w(2) by blast
    then show ?thesis using N [OF okp_walk(1) [OF v]] t True by (simp add: translate_def st')
  qed
qed

lemma get_pte_translate:
  assumes ok: "vm_ok st r S" and v: "idx4 v \<in> S"
  shows "vmm_get_pte r v st = translate st r v"
proof -
  have rd: "rd st (table_ptr st e) i = vmem st (pa e) i" if "okp S p" "node (vmem st) (pa r) p = Some (pa e)" for p e i
    using vm_okD(3) [OF ok that] by (simp add: table_ptr_pa rd_page)
  have p: "okp S []" "okp S [idx4 v]" "okp S [idx4 v, idx3 v]" using v by (simp_all add: okp_def idx_less)
  let ?e4 = "vmem st (pa r) (idx4 v)"
  let ?e3 = "vmem st (pa ?e4) (idx3 v)"
  let ?e2 = "vmem st (pa ?e3) (idx2 v)"
  have r4: "rd st (table_ptr st r) (idx4 v) = ?e4" using rd [OF p(1)] by simp
  have r3: "rd st (table_ptr st ?e4) (idx3 v) = ?e3" if "present ?e4" using rd [OF p(2)] that by simp
  have r2: "rd st (table_ptr st ?e3) (idx2 v) = ?e2" if "present ?e4" "present ?e3" using rd [OF p(3)] that by simp
  have r1: "rd st (table_ptr st ?e2) (idx1 v) = vmem st (pa ?e2) (idx1 v)" if "present ?e4" "present ?e3" "present ?e2"
    using rd [OF okp_walk(1) [OF v]] that by (simp add: vpath_def)
  show ?thesis
    unfolding vmm_get_pte_def Let_def translate_def vpath_def r4 using r3 r2 r1 by simp
qed

text \<open>Where an address is mapped, unmapping walks to its entry.\<close>

lemma unmap_walk:
  assumes ok: "vm_ok st r S" and v: "idx4 v \<in> S" and t: "node (vmem st) (pa r) (vpath v) = Some t"
    and pr: "present (vmm_get_pte r v st)"
  shows "vmm_unmap_page_in r v st = (vmm_get_pte r v st AND PTE_ADDR,
    let st' = st\<lparr>vmem := (vmem st)(t := (vmem st t)(idx1 v := 0))\<rparr>
    in if cr3 st' AND PTE_ADDR = r AND PTE_ADDR then invlpg v st' else st')"
proof -
  have rt: "reachable_page st t" using vm_okD(3) [OF ok okp_walk(1) [OF v] t] by simp
  let ?e4 = "rd st (table_ptr st r) (idx4 v)"
  let ?e3 = "rd st (table_ptr st ?e4) (idx3 v)"
  let ?e2 = "rd st (table_ptr st ?e3) (idx2 v)"
  have p: "present ?e4" "present ?e3" "present ?e2" and g: "vmm_get_pte r v st = rd st (table_ptr st ?e2) (idx1 v)"
    using pr by (auto simp: vmm_get_pte_def Let_def split: if_splits)
  have q: "okp S []" "okp S [idx4 v]" "okp S [idx4 v, idx3 v]" using v by (simp_all add: okp_def idx_less)
  have n: "node (vmem st) (pa r) [] = Some (pa r)" by simp
  have e4: "?e4 = vmem st (pa r) (idx4 v)" using vm_okD(3) [OF ok q(1) n] by (simp add: table_ptr_pa rd_page)
  then have n4: "node (vmem st) (pa r) [idx4 v] = Some (pa ?e4)" using p(1) by simp
  have e3: "?e3 = vmem st (pa ?e4) (idx3 v)" using vm_okD(3) [OF ok q(2) n4] by (simp add: table_ptr_pa rd_page)
  then have n3: "node (vmem st) (pa r) [idx4 v, idx3 v] = Some (pa ?e3)" using p(1,2) e4 by simp
  have e2: "?e2 = vmem st (pa ?e3) (idx2 v)" using vm_okD(3) [OF ok q(3) n3] by (simp add: table_ptr_pa rd_page)
  then have "node (vmem st) (pa r) (vpath v) = Some (pa ?e2)" using p e4 e3 by (simp add: vpath_def)
  then have "pa ?e2 = t" using t by simp
  then have tp: "table_ptr st ?e2 = virt_from_phys (vpmm st) t" by (simp add: table_ptr_pa)
  show ?thesis
    unfolding vmm_unmap_page_in_def Let_def using p pr g wr_page [OF rt] by (simp add: tp)
qed

section \<open>Fresh pages\<close>

text \<open>Writing a page that is no table of an address space does not concern it.\<close>

lemma node_fresh: "n \<notin> tables M r S \<Longrightarrow> okp S q \<Longrightarrow> node (M(n := f)) r q = node M r q"
proof (induction q rule: rev_induct)
  case (snoc j q)
  have okq: "okp S q" using okp_butlast [OF snoc.prems(2)] .
  have "u \<noteq> n" if "node M r q = Some u" for u using tablesI [OF okq that] snoc.prems(1) by blast
  then show ?case using snoc.IH [OF snoc.prems(1) okq] by (auto simp: node_snoc split: option.split)
qed simp

lemma fresh_page_keeps:
  assumes ok: "vm_ok st r S" and n: "n < frames (vpmm st)" "n \<in> frees (vpmm st)"
    and pm: "mem_ok pm" "frees pm = frees (vpmm st) - {n}" "layout pm = layout (vpmm st)"
    and st': "vpmm st' = pm" "vmem st' = (vmem st)(of_nat n * PAGE_SIZE := f)"
  shows "vm_ok st' r S" and "\<And>w. idx4 w \<in> S \<Longrightarrow> translate st' r w = translate st r w"
proof -
  let ?n = "of_nat n * PAGE_SIZE :: u64"
  have notin: "?n \<notin> tables (vmem st) (pa r) S"
  proof
    assume "?n \<in> tables (vmem st) (pa r) S"
    then have "table_frame (vpmm st) ?n" using ok by (simp add: vm_ok_def)
    then show False using n table_frame_free by blast
  qed
  have N: "okp S q \<Longrightarrow> node (vmem st') (pa r) q = node (vmem st) (pa r) q" for q
    unfolding st' by (rule node_fresh [OF notin])
  have "table_frame pm t" if "t \<in> tables (vmem st) (pa r) S" for t
    using table_frame_mono [OF _ pm(3)] pm(2) ok that by (auto simp: vm_ok_def)
  then show "vm_ok st' r S"
    using ok pm(1) tree_same_nodes [of S "vmem st'" "pa r" "vmem st"] N by (simp add: vm_ok_def st'(1))
  fix w assume w: "idx4 w \<in> S"
  have "u \<noteq> ?n" if "node (vmem st) (pa r) (vpath w) = Some u" for u
    using tablesI [OF okp_walk(1) [OF w] that] notin by blast
  then show "translate st' r w = translate st r w"
    unfolding translate_def N [OF okp_walk(1) [OF w]] by (auto simp: st'(2) split: option.split)
qed

text \<open>A root page whose lower entries are 0 is an empty address space.\<close>

lemma empty_root:
  assumes "\<And>i. i \<in> S \<Longrightarrow> i < 512 \<Longrightarrow> M r i = 0" and "okp S p"
  shows "node M r p = (if p = [] then Some r else None)"
  using assms by (cases p) (auto simp: okp_def)

lemma empty_root_tree:
  "(\<And>i. i \<in> S \<Longrightarrow> i < 512 \<Longrightarrow> M r i = 0) \<Longrightarrow> tree M r S \<and> tables M r S = {r}"
  using empty_root [of S M r] unfolding tree_def tables_def by (auto split: if_splits intro: exI [of _ "[]"])

text \<open>A small machine: the root of the kernel in frame 16, everything from frame 17 on free.\<close>

definition demo_vm :: vm where
  "demo_vm = \<lparr>vpmm = demo_pmm, vmem = (\<lambda>a i. if a = 0x10000 \<and> i = 256 then 0x1003 else 0),
     cr3 = 0x10000, kernel_cr3 = 0x10000, flushed = []\<rparr>"

lemma demo_vm_ok: "vm_ok demo_vm 0x10000 {0..<256}" "vm_ok demo_vm 0x10000 {}"
proof -
  have pa: "pa 0x10000 = 0x10000" by (simp add: pa_def PTE_ADDR_def)
  have mok: "mem_ok (vpmm demo_vm)"
    using demo_pmm_ok by (simp add: mem_ok_def demo_vm_def) (simp add: demo_pmm_def)
  have "frames demo_pmm = 32" by (simp add: frames_def demo_pmm_def)
  then have tf: "table_frame (vpmm demo_vm) 0x10000"
    unfolding table_frame_def by (intro exI [of _ 16]) (simp add: demo_vm_def demo_pmm_frees PAGE_SIZE_def)
  have "tree (vmem demo_vm) 0x10000 S \<and> tables (vmem demo_vm) 0x10000 S = {0x10000}" if "256 \<notin> S" for S
    by (rule empty_root_tree) (use that in \<open>auto simp: demo_vm_def\<close>)
  then show "vm_ok demo_vm 0x10000 {0..<256}" "vm_ok demo_vm 0x10000 {}"
    using mok tf by (simp_all add: vm_ok_def pa)
qed

section \<open>Mapping and unmapping\<close>

text \<open>Fields that changing the page tables of one address space keeps.\<close>
definition same_machine :: "vm \<Rightarrow> vm \<Rightarrow> bool" where
  "same_machine st st' \<longleftrightarrow> layout (vpmm st') = layout (vpmm st) \<and> cr3 st' = cr3 st \<and> kernel_cr3 st' = kernel_cr3 st"

lemma map_page_in_run:
  assumes ok: "vm_ok st r S" and v: "idx4 v \<in> S" and nz: "v \<noteq> 0" "p \<noteq> 0"
  shows "case vmm_map_page_in r v p flags st of
      Wild \<Rightarrow> False
    | Halts \<Rightarrow> card (frees (vpmm st)) < 3
    | Done (res, st') \<Rightarrow> res = 0 \<and> vm_ok st' r S \<and> vmm_get_pte r v st' = leaf_entry p flags \<and>
        (\<forall>w. idx4 w \<in> S \<longrightarrow> vpage w \<noteq> vpage v \<longrightarrow> vmm_get_pte r w st' = vmm_get_pte r w st) \<and>
        (\<forall>a. outside st r S a \<longrightarrow> outside st' r S a \<and> vmem st' a = vmem st a) \<and>
        same_machine st st' \<and> (\<exists>N. length N \<le> 3 \<and> frees (vpmm st') = frees (vpmm st) - set N)"
proof -
  note W = ensure_walk_grows [OF ok v, of flags]
  show ?thesis
  proof (cases "ensure_walk (table_ptr st r) v flags st")
    case Wild
    then show ?thesis using W by simp
  next
    case Halts
    then show ?thesis using W nz by (simp add: vmm_map_page_in_def)
  next
    case (Done a)
    then obtain t s1 where a: "a = (virt_from_phys (vpmm s1) t, s1)" "virt_from_phys (vpmm s1) t \<noteq> 0" "grown 3 r S st s1"
        "node (vmem s1) (pa r) (vpath v) = Some t"
      using W by (cases a) auto
    have ok1: "vm_ok s1 r S" using a(3) by (simp add: grown_def)
    define s2 where "s2 = s1\<lparr>vmem := (vmem s1)(t := (vmem s1 t)(idx1 v := leaf_entry p flags))\<rparr>"
    note L = write_leaf [OF ok1 v a(4) s2_def]
    have "wr s1 (virt_from_phys (vpmm s1) t) (idx1 v) (leaf_entry p flags) = s2"
      using vm_okD(3) [OF ok1 okp_walk(1) [OF v] a(4)] wr_page by (simp add: s2_def)
    then have "vmm_map_page_in r v p flags st = Done (0, if cr3 s2 AND PTE_ADDR = r AND PTE_ADDR then invlpg v s2 else s2)"
      using Done a(1,2) nz by (simp add: vmm_map_page_in_def Let_def)
    moreover obtain f where "(if cr3 s2 AND PTE_ADDR = r AND PTE_ADDR then invlpg v s2 else s2) = s2\<lparr>flushed := f\<rparr>"
      by (cases "cr3 s2 AND PTE_ADDR = r AND PTE_ADDR") (use that [of "flushed s2"] in \<open>auto simp: invlpg_def\<close>)
    ultimately have st': "vmm_map_page_in r v p flags st = Done (0, s2\<lparr>flushed := f\<rparr>)" by (simp only:)
    have ok2: "vm_ok (s2\<lparr>flushed := f\<rparr>) r S" using L(1) by (simp add: vm_ok_def)
    have T: "translate (s2\<lparr>flushed := f\<rparr>) r w = translate s2 r w" for w by (simp add: translate_def split: option.split)
    have w: "translate s2 r w = translate st r w" if "idx4 w \<in> S" "vpage w \<noteq> vpage v" for w
      using L(3) [OF that] a(3) that by (simp add: grown_def)
    have o: "outside (s2\<lparr>flushed := f\<rparr>) r S a \<and> vmem s2 a = vmem st a" if "outside st r S a" for a
      using that a(3) L(4) [of a] by (simp add: grown_def outside_def)
    have m: "same_machine st (s2\<lparr>flushed := f\<rparr>)" "vpmm (s2\<lparr>flushed := f\<rparr>) = vpmm s1"
      using a(3) by (simp_all add: grown_def same_machine_def s2_def)
    show ?thesis
      unfolding st' using ok2 L(2) v w o m a(3) by (simp add: get_pte_translate [OF ok2] get_pte_translate [OF ok] T grown_def)
  qed
qed

lemma unmap_page_in_run:
  assumes ok: "vm_ok st r S" and v: "idx4 v \<in> S"
  shows "\<exists>st'. vmm_unmap_page_in r v st = (if present (vmm_get_pte r v st) then vmm_get_pte r v st AND PTE_ADDR else 0, st') \<and>
    vm_ok st' r S \<and> vmm_get_pte r v st' = (if present (vmm_get_pte r v st) then 0 else vmm_get_pte r v st) \<and>
    (\<forall>w. idx4 w \<in> S \<longrightarrow> vpage w \<noteq> vpage v \<longrightarrow> vmm_get_pte r w st' = vmm_get_pte r w st) \<and>
    (present (vmm_get_pte r v st) \<longrightarrow> cr3 st AND PTE_ADDR = r AND PTE_ADDR \<longrightarrow> v \<in> set (flushed st')) \<and>
    (\<forall>a. outside st r S a \<longrightarrow> outside st' r S a \<and> vmem st' a = vmem st a) \<and>
    vpmm st' = vpmm st \<and> same_machine st st'"
proof (cases "present (vmm_get_pte r v st)")
  case False
  then have "vmm_unmap_page_in r v st = (0, st)"
    by (auto simp: vmm_unmap_page_in_def vmm_get_pte_def Let_def split: if_splits)
  then show ?thesis using ok False by (simp add: same_machine_def)
next
  case True
  then obtain t where t: "node (vmem st) (pa r) (vpath v) = Some t" "translate st r v = vmem st t (idx1 v)"
    unfolding get_pte_translate [OF ok v] translate_def by (auto split: option.splits)
  define s2 where "s2 = st\<lparr>vmem := (vmem st)(t := (vmem st t)(idx1 v := 0))\<rparr>"
  note L = write_leaf [OF ok v t(1) s2_def]
  define st' where "st' = (if cr3 s2 AND PTE_ADDR = r AND PTE_ADDR then invlpg v s2 else s2)"
  obtain f where f: "st' = s2\<lparr>flushed := f\<rparr>"
    by (cases "cr3 s2 AND PTE_ADDR = r AND PTE_ADDR") (use that [of "flushed s2"] in \<open>auto simp: invlpg_def st'_def\<close>)
  have "vmm_unmap_page_in r v st = (vmm_get_pte r v st AND PTE_ADDR, st')"
    unfolding unmap_walk [OF ok v t(1) True] st'_def s2_def by simp
  moreover have ok2: "vm_ok st' r S" using L(1) f by (simp add: vm_ok_def)
  moreover have T: "translate st' r w = translate s2 r w" for w by (simp add: translate_def f split: option.split)
  moreover have "v \<in> set (flushed st')" if "cr3 st AND PTE_ADDR = r AND PTE_ADDR"
    using that by (simp add: st'_def invlpg_def s2_def)
  moreover have "outside st' r S a \<and> vmem st' a = vmem st a" if "outside st r S a" for a
    using L(4) [OF that] by (simp add: f outside_def)
  moreover have "vpmm st' = vpmm st" "same_machine st st'" by (simp_all add: f s2_def same_machine_def)
  ultimately show ?thesis
    using True L(2,3) by (simp add: get_pte_translate [OF ok2] get_pte_translate [OF ok] v)
qed

section \<open>Properties\<close>

text \<open>
  C25. Mapping a page into an address space (any root \<open>r\<close> whose tables form a tree of allocated
  frames, for the addresses whose top-level index lies in \<open>S\<close>) returns 0 and makes the walk of that
  page find the frame with the given flags; every other page keeps its translation, the tables stay
  a tree, and every frame in use that is not one of its tables keeps its contents.  It fails to return
  only when fewer than three frames are free.
\<close>
theorem map_page_in_translates:
  assumes ok: "vm_ok st r S" and v: "idx4 v \<in> S" and nz: "v \<noteq> 0" "p \<noteq> 0"
  shows "case vmm_map_page_in r v p flags st of
      Wild \<Rightarrow> False
    | Halts \<Rightarrow> card (frees (vpmm st)) < 3
    | Done (res, st') \<Rightarrow> res = 0 \<and> vm_ok st' r S \<and>
        vmm_get_pte r v st' = (p AND PTE_ADDR) OR (if flags \<noteq> 0 then flags else PTE_PRESENT OR PTE_RW) \<and>
        (\<forall>w. idx4 w \<in> S \<longrightarrow> vpage w \<noteq> vpage v \<longrightarrow> vmm_get_pte r w st' = vmm_get_pte r w st) \<and>
        (\<forall>a. outside st r S a \<longrightarrow> vmem st' a = vmem st a)"
  using map_page_in_run [OF assms, of flags] by (auto simp: leaf_entry_def split: outcome.split)

theorem map_page_in_translates_witness:
  "\<exists>st'. vmm_map_page_in 0x10000 0x400000 0x5000 7 demo_vm = Done (0, st') \<and>
     vmm_get_pte 0x10000 0x400000 st' = 0x5007 \<and> vmm_get_pte 0x10000 0x401000 st' = vmm_get_pte 0x10000 0x401000 demo_vm"
proof -
  have i: "idx4 0x400000 \<in> {0..<256}" "idx4 0x401000 \<in> {0..<256}" by (simp_all add: idx4_def)
  have "vpage 0x401000 \<noteq> vpage 0x400000" by (simp add: vpage_def mask_eq_exp_minus_1)
  moreover have "\<not> card (frees (vpmm demo_vm)) < 3" by (simp add: demo_vm_def demo_pmm_frees)
  ultimately show ?thesis
    using map_page_in_translates [OF demo_vm_ok(1) i(1), of "0x5000" 7] i(2)
    by (auto simp: PTE_ADDR_def split: outcome.splits)
qed

text \<open>
  C26. Unmapping a page returns the frame that was mapped there (0 when none was), makes the walk of
  that page find no mapping, keeps every other translation and the tree, and invalidates the page in
  the TLB when the address space is the current one and something was mapped.
\<close>
theorem unmap_page_in_unmaps:
  assumes ok: "vm_ok st r S" and v: "idx4 v \<in> S"
  shows "\<exists>st'. vmm_unmap_page_in r v st = (if present (vmm_get_pte r v st) then vmm_get_pte r v st AND PTE_ADDR else 0, st') \<and>
    vm_ok st' r S \<and> \<not> present (vmm_get_pte r v st') \<and>
    (\<forall>w. idx4 w \<in> S \<longrightarrow> vpage w \<noteq> vpage v \<longrightarrow> vmm_get_pte r w st' = vmm_get_pte r w st) \<and>
    (present (vmm_get_pte r v st) \<longrightarrow> cr3 st AND PTE_ADDR = r AND PTE_ADDR \<longrightarrow> v \<in> set (flushed st'))"
  using unmap_page_in_run [OF assms] by auto

theorem unmap_page_in_unmaps_witness:
  "\<exists>st'. vmm_unmap_page_in 0x10000 0x400000 demo_vm = (if present (vmm_get_pte 0x10000 0x400000 demo_vm)
       then vmm_get_pte 0x10000 0x400000 demo_vm AND PTE_ADDR else 0, st') \<and> vm_ok st' 0x10000 {0..<256}"
proof -
  have "idx4 0x400000 \<in> {0..<256}" by (simp add: idx4_def)
  then show ?thesis using unmap_page_in_unmaps [OF demo_vm_ok(1)] by blast
qed

text \<open>
  C27. A new user address space is a fresh root frame: its tables form a tree, every address of the
  user half is unmapped, its upper 256 entries are those of the kernel's root, and every existing
  address space keeps its tree and its translations.
\<close>
theorem create_user_page_table_shares_kernel:
  assumes k: "vm_ok st (kernel_cr3 st) {}"
  shows "case vmm_create_user_page_table st of
      Wild \<Rightarrow> False
    | Halts \<Rightarrow> frees (vpmm st) = {}
    | Done (c, st') \<Rightarrow> vm_ok st' c {0..<256} \<and> (\<forall>v. idx4 v < 256 \<longrightarrow> vmm_get_pte c v st' = 0) \<and>
        (\<forall>i \<in> {256..<512}. vmem st' c i = vmem st (pa (kernel_cr3 st)) i) \<and>
        (\<forall>r S. vm_ok st r S \<longrightarrow> vm_ok st' r S \<and> (\<forall>v. idx4 v \<in> S \<longrightarrow> vmm_get_pte r v st' = vmm_get_pte r v st))"
proof -
  have mok: "mem_ok (vpmm st)" using vm_okD(1) [OF k] .
  show ?thesis
  proof (cases "alloc_page st")
    case Wild
    then show ?thesis using alloc_page_frames [OF mok] by simp
  next
    case Halts
    then show ?thesis using alloc_page_frames [OF mok] by (simp add: vmm_create_user_page_table_def)
  next
    case (Done a)
    then obtain n pm where n: "n < frames (vpmm st)" "n \<in> frees (vpmm st)" "mem_ok pm"
        "a = (virt_from_phys (vpmm st) (of_nat n * PAGE_SIZE), st\<lparr>vpmm := pm\<rparr>)"
        "frees pm = frees (vpmm st) - {n}" "layout pm = layout (vpmm st)"
      using alloc_page_frames [OF mok] by (cases a) auto
    let ?n = "of_nat n * PAGE_SIZE :: u64" and ?k = "pa (kernel_cr3 st)"
    let ?st = "st\<lparr>vpmm := pm\<rparr>"
    have vf: "virt_from_phys pm = virt_from_phys (vpmm st)" "phys_from_virt pm = phys_from_virt (vpmm st)"
      using layout_eqD(3,4) [OF n(6)] by (simp_all add: fun_eq_iff virt_from_phys_def phys_from_virt_def)
    note q = phys_virt [OF mok n(1)]
    have rk: "table_frame (vpmm st) ?k" "reachable_page ?st ?k"
      using vm_okD(3) [OF k, of "[]"] vf by (simp_all add: reachable_page_def)
    then have nk: "?n \<noteq> ?k" using table_frame_free [OF n(1,2)] by auto
    have rn: "reachable_page ?st ?n" using q(1) vf by (simp add: reachable_page_def)
    define st1 where "st1 = ?st\<lparr>vmem := (vmem ?st)(?n := (\<lambda>j. if j < 512 then 0 else vmem ?st ?n j))\<rparr>"
    have c1: "clear_page (virt_from_phys (vpmm st) ?n) ?st = st1" using clear_page_eq [OF rn] vf by (simp add: st1_def)
    have r1: "reachable_page st1 ?n" "reachable_page st1 ?k" using rn rk(2) by (simp_all add: st1_def reachable_page_def)
    define f where "f = (\<lambda>i. if 256 \<le> i \<and> i < 512 then vmem st1 ?k i else vmem st1 ?n i)"
    define st2 where "st2 = st\<lparr>vpmm := pm, vmem := (vmem st)(?n := f)\<rparr>"
    have "fold (\<lambda>i st'. wr st' (virt_from_phys (vpmm st) ?n) i (rd st' (table_ptr st1 (kernel_cr3 st)) i)) [256..<512] st1 = st2"
      using copy_words_eq [OF r1 nk, of 256 512] vf
      by (simp add: table_ptr_pa st1_def st2_def f_def del: upt_rec_numeral)
    then have C: "vmm_create_user_page_table st = Done (?n, st2)"
      unfolding vmm_create_user_page_table_def Done n(4) bind_oc.simps prod.case c1
      using q vf by (simp add: Let_def c1 st2_def st1_def del: upt_rec_numeral)
    have f: "\<And>i. i < 256 \<Longrightarrow> f i = 0" "\<And>i. 256 \<le> i \<Longrightarrow> i < 512 \<Longrightarrow> f i = vmem st ?k i"
      using nk by (simp_all add: f_def st1_def)
    have pn: "pa ?n = ?n" using q(4) by (simp add: pa_def)
    have E: "tree (vmem st2) (pa ?n) {0..<256} \<and> tables (vmem st2) (pa ?n) {0..<256} = {?n}"
      using empty_root_tree [of "{0..<256}" "vmem st2" ?n] f(1) by (simp add: pn st2_def)
    moreover have "table_frame pm ?n" using n(1,5) layout_eqD(2) [OF n(6)] by (auto simp: table_frame_def)
    ultimately have ok2: "vm_ok st2 ?n {0..<256}" using n(3) by (simp add: vm_ok_def st2_def)
    have "translate st2 ?n v = 0" if "idx4 v < 256" for v
      using that f(1) by (simp add: translate_def vpath_def pn st2_def)
    then have Z: "vmm_get_pte ?n v st2 = 0" if "idx4 v < 256" for v
      using get_pte_translate [OF ok2] that by simp
    have K: "vm_ok st2 r S \<and> (\<forall>v. idx4 v \<in> S \<longrightarrow> vmm_get_pte r v st2 = vmm_get_pte r v st)" if "vm_ok st r S" for r S
      using fresh_page_keeps [OF that n(1,2,3,5,6), of st2 f] get_pte_translate [OF that]
      by (simp add: st2_def get_pte_translate)
    show ?thesis unfolding C using ok2 Z K f(2) by (simp add: st2_def)
  qed
qed

theorem create_user_page_table_shares_kernel_witness:
  "\<exists>c st'. vmm_create_user_page_table demo_vm = Done (c, st') \<and> vmm_get_pte c 0x400000 st' = 0 \<and> vmem st' c 256 = 0x1003"
proof -
  have k: "vm_ok demo_vm (kernel_cr3 demo_vm) {}" using demo_vm_ok(2) by (simp add: demo_vm_def)
  have "idx4 0x400000 < 256" "frees (vpmm demo_vm) \<noteq> {}" "pa (kernel_cr3 demo_vm) = 0x10000"
    by (simp_all add: idx4_def demo_vm_def demo_pmm_frees pa_def PTE_ADDR_def)
  moreover have "vmem demo_vm 0x10000 256 = 0x1003" by (simp add: demo_vm_def)
  ultimately show ?thesis
    using create_user_page_table_shares_kernel [OF k] by (fastforce split: outcome.splits)
qed

end
