(* ===== verification/UserStack.thy ===== *)
theory UserStack
  imports Prelude
begin

unbundle bit_operations_syntax

text \<open>
  The initial user stack, \<open>src/src/kernel/sched/build_stack.c\<close>: argument and environment strings at the
  top of the stack block, below them (aligned to 16 bytes) \<open>argc\<close>, the array of argument pointers with
  its null, and the array of environment pointers with its null.  The block is the list of its bytes;
  \<open>offset\<close> is kept as a 64-bit number as in C.

  The lemmas show that the two loops and the pushes fill the block as the ABI wants it.
\<close>

definition MAX_EXEC_ARGS :: int where "MAX_EXEC_ARGS = 64"

record user_stack_result =
  rsp :: u64
  argv_uvaddr :: u64
  envp_uvaddr :: u64

text \<open>A loop over strings: the block, and the new offset with the pointers, or \<open>None\<close> for \<open>return -1\<close>.\<close>
fun push_strings :: "u64 \<Rightarrow> cstring list \<Rightarrow> u64 \<Rightarrow> u64 list \<Rightarrow> u8 list \<Rightarrow> u8 list \<times> (u64 \<times> u64 list) option" where
  "push_strings vaddr_base [] offset ptrs buf = (buf, Some (offset, ptrs))"
| "push_strings vaddr_base (s # ss) offset ptrs buf =
     (let len = of_nat (length s) + 1
      in if offset < len then (buf, None)
         else
           let offset = offset - len
           in push_strings vaddr_base ss offset (ptrs @ [vaddr_base + offset]) (put_bytes buf (unat offset) (s @ [0])))"

text \<open>\<open>offset -= 8\<close> and a 64-bit store; the arrays are pushed from their last element on.\<close>
definition push_word :: "u64 \<Rightarrow> u64 \<times> u8 list \<Rightarrow> u64 \<times> u8 list" where
  "push_word w = (\<lambda>(offset, buf). (offset - 8, put_bytes buf (unat (offset - 8)) (le_bytes 8 w)))"

definition build_user_stack ::
  "u8 list \<Rightarrow> u64 \<Rightarrow> u64 \<Rightarrow> int \<Rightarrow> cstring list \<Rightarrow> int \<Rightarrow> cstring list \<Rightarrow> u8 list \<times> user_stack_result option" where
  "build_user_stack buf stack_bytes vaddr_base argc argv envc envp =
     (if argc < 0 \<or> envc < 0 then (buf, None)
      else if MAX_EXEC_ARGS < argc \<or> MAX_EXEC_ARGS < envc then (buf, None)
      else
        case push_strings vaddr_base (take (nat argc) argv) stack_bytes [] buf of
          (buf, None) \<Rightarrow> (buf, None)
        | (buf, Some (offset, arg_user_ptrs)) \<Rightarrow>
            (case push_strings vaddr_base (take (nat envc) envp) offset [] buf of
               (buf, None) \<Rightarrow> (buf, None)
             | (buf, Some (offset, env_user_ptrs)) \<Rightarrow>
                 let array_size = 24 + 8 * of_int argc + 8 * of_int envc
                 in if offset < array_size then (buf, None)
                    else
                      let target_rsp = (vaddr_base + offset - array_size) AND NOT 0xF
                      in if target_rsp < vaddr_base then (buf, None)
                         else
                           let offset = target_rsp - vaddr_base + array_size
                           in if stack_bytes < offset then (buf, None)
                              else
                                let st = push_word 0 (offset, buf);
                                    st = foldr push_word env_user_ptrs st;
                                    envp_uvaddr = vaddr_base + fst st;
                                    st = push_word 0 st;
                                    st = foldr push_word arg_user_ptrs st;
                                    argv_uvaddr = vaddr_base + fst st;
                                    (offset, buf) = push_word (of_int argc) st
                                in (buf, Some \<lparr>rsp = vaddr_base + offset, argv_uvaddr = argv_uvaddr,
                                     envp_uvaddr = envp_uvaddr\<rparr>)))"

section \<open>The strings\<close>

text \<open>The block holds string \<open>s\<close> with its terminator at the user address \<open>p\<close>, at or above offset \<open>lo\<close>.\<close>
definition string_at :: "u64 \<Rightarrow> u8 list \<Rightarrow> nat \<Rightarrow> u64 \<Rightarrow> cstring \<Rightarrow> bool" where
  "string_at vaddr_base buf lo p s \<longleftrightarrow>
     (\<exists>off. p = vaddr_base + of_nat off \<and> lo \<le> off \<and> off + length s < length buf \<and>
       slice_at buf off (length s + 1) = s @ [0])"

lemma string_at_mono: "string_at vb buf lo p s \<Longrightarrow> lo' \<le> lo \<Longrightarrow> string_at vb buf lo' p s"
  unfolding string_at_def by (metis le_trans)

lemma string_at_put:
  "string_at vb buf lo p s \<Longrightarrow> off + length ws \<le> lo \<Longrightarrow> string_at vb (put_bytes buf off ws) lo p s"
  unfolding string_at_def by (fastforce simp: slice_put_other)

lemma push_strings_spec:
  assumes "push_strings vb ss offset ptrs buf = (buf', Some (offset', ptrs'))" and "unat offset \<le> length buf"
    and "\<forall>s \<in> set ss. length s < 2 ^ 32" and "length ss \<le> 64"
  shows "length buf' = length buf \<and> unat offset' \<le> unat offset \<and>
    (\<exists>new. ptrs' = ptrs @ new \<and> list_all2 (string_at vb buf' (unat offset')) new ss) \<and>
    (\<forall>p s. string_at vb buf (unat offset) p s \<longrightarrow> string_at vb buf' (unat offset') p s)"
  using assms
proof (induction ss arbitrary: offset ptrs buf)
  case (Cons s ss)
  let ?len = "of_nat (length s) + 1 :: u64"
  have len: "unat ?len = length s + 1"
  proof -
    have "?len = of_nat (length s + 1)" by simp
    then show ?thesis using Cons.prems(3) by (simp only: unat_of_nat) simp
  qed
  have le: "?len \<le> offset" using Cons.prems(1) by (auto simp: Let_def split: if_splits)
  define off where "off = offset - ?len"
  have off: "unat off = unat offset - (length s + 1)" "length s + 1 \<le> unat offset"
    using unat_diff_nowrap [OF le] le len by (simp_all add: off_def word_le_nat_alt)
  define buf1 where "buf1 = put_bytes buf (unat off) (s @ [0])"
  have fit: "unat off + length (s @ [0]) \<le> length buf" using off Cons.prems(2) by simp
  then have l1: "length buf1 = length buf" by (simp add: buf1_def)
  have rec: "push_strings vb ss off (ptrs @ [vb + off]) buf1 = (buf', Some (offset', ptrs'))"
    using Cons.prems(1) leD [OF le] by (simp add: Let_def off_def buf1_def)
  have IH: "length buf' = length buf1 \<and> unat offset' \<le> unat off \<and>
      (\<exists>new. ptrs' = (ptrs @ [vb + off]) @ new \<and> list_all2 (string_at vb buf' (unat offset')) new ss) \<and>
      (\<forall>p s. string_at vb buf1 (unat off) p s \<longrightarrow> string_at vb buf' (unat offset') p s)"
    using Cons.IH [OF rec] Cons.prems off l1 by simp
  have "string_at vb buf1 (unat off) (vb + off) s"
    unfolding string_at_def using fit l1
    by (intro exI [of _ "unat off"]) (simp add: buf1_def slice_put_same)
  then have here: "string_at vb buf' (unat offset') (vb + off) s" using IH by blast
  have "string_at vb buf1 (unat off) p x" if "string_at vb buf (unat offset) p x" for p x
    unfolding buf1_def by (rule string_at_mono [OF string_at_put [OF that]]) (use off in simp_all)
  then show ?case using IH here l1 off by auto
qed (auto intro: string_at_mono)

section \<open>The arrays\<close>

lemma length_concat_le8: "length (concat (map (le_bytes 8) ws)) = 8 * length ws"
  by (induction ws) simp_all

lemma put_bytes_below:
  "length vs \<le> off \<Longrightarrow> off + length ws \<le> length buf \<Longrightarrow>
   put_bytes (put_bytes buf off ws) (off - length vs) vs = put_bytes buf (off - length vs) (vs @ ws)"
  by (simp add: put_bytes_def)

lemma push_words_spec:
  "8 * length ws \<le> unat offset \<Longrightarrow> unat offset \<le> length buf \<Longrightarrow>
   \<exists>off'. foldr push_word ws (offset, buf) = (off', put_bytes buf (unat off') (concat (map (le_bytes 8) ws))) \<and>
     unat off' = unat offset - 8 * length ws \<and> off' = offset - 8 * of_nat (length ws)"
proof (induction ws)
  case Nil
  then show ?case by (simp add: put_bytes_def)
next
  case (Cons w ws)
  then obtain off' where o: "foldr push_word ws (offset, buf) = (off', put_bytes buf (unat off') (concat (map (le_bytes 8) ws)))"
      "unat off' = unat offset - 8 * length ws" "off' = offset - 8 * of_nat (length ws)" by auto
  have "8 \<le> unat off'" using o(2) Cons.prems by simp
  then have u: "unat (off' - 8) = unat off' - 8" by (subst unat_diff_nowrap) (simp_all add: word_le_nat_alt)
  have "put_bytes (put_bytes buf (unat off') (concat (map (le_bytes 8) ws))) (unat (off' - 8)) (le_bytes 8 w) =
      put_bytes buf (unat (off' - 8)) (concat (map (le_bytes 8) (w # ws)))"
    using put_bytes_below [of "le_bytes 8 w" "unat off'" "concat (map (le_bytes 8) ws)" buf] \<open>8 \<le> unat off'\<close> o(2) Cons.prems u
    by (simp add: length_concat_le8)
  then have "foldr push_word (w # ws) (offset, buf) = (off' - 8, put_bytes buf (unat (off' - 8)) (concat (map (le_bytes 8) (w # ws))))"
    by (simp only: foldr.simps comp_apply o(1) push_word_def prod.case)
  moreover have "off' - 8 = offset - 8 * of_nat (length (w # ws))" by (simp add: o(3) algebra_simps)
  moreover have "unat (off' - 8) = unat offset - 8 * length (w # ws)" using u o(2) by simp
  ultimately show ?case by blast
qed

text \<open>The words below the strings, in the order of their addresses.\<close>
definition stack_words :: "int \<Rightarrow> u64 list \<Rightarrow> u64 list \<Rightarrow> u64 list" where
  "stack_words argc args envs = of_int argc # args @ 0 # envs @ [0]"

lemma fst_push_words: "fst (foldr push_word ws st) = fst st - 8 * of_nat (length ws)"
proof (induction ws)
  case (Cons w ws)
  have "fst (push_word w st) = fst st - 8" for st by (cases st) (simp add: push_word_def)
  then have "fst (foldr push_word (w # ws) st) = fst st - 8 * of_nat (length ws) - 8" by (simp only: foldr.simps comp_apply Cons)
  then show ?case by (simp add: algebra_simps)
qed simp

text \<open>The alignment of the stack pointer.\<close>
lemma align16:
  fixes vb o2 sz target :: u64
  assumes "target = (vb + o2 - sz) AND NOT 0xF" and "sz \<le> o2" and "unat vb + unat o2 < 2 ^ 64" and "vb \<le> target"
  shows "16 dvd unat target" and "unat (target - vb + sz) \<le> unat o2" and "unat (target - vb) + unat sz \<le> unat o2"
    and "unat (target - vb + sz) = unat (target - vb) + unat sz"
proof -
  have "unat (vb + o2) = unat vb + unat o2" using assms(3) by (subst unat_add_nowrap) simp_all
  moreover have "sz \<le> vb + o2" using assms(2) calculation by (simp add: word_le_nat_alt)
  ultimately have u: "unat (vb + o2 - sz) = unat vb + unat o2 - unat sz" by (simp add: unat_diff_nowrap)
  have "(0xF :: u64) = mask 4" by (simp add: mask_eq_exp_minus_1)
  then have t: "unat target = unat (vb + o2 - sz) div 16 * 16" by (simp only: assms(1) unat_and_not_mask) simp
  then show "16 dvd unat target" by simp
  have "unat target \<le> unat vb + unat o2 - unat sz" unfolding t u by simp
  moreover have d: "unat (target - vb) = unat target - unat vb" using assms(4) by (rule unat_diff_nowrap)
  moreover have "unat sz \<le> unat o2" using assms(2) by (simp add: word_le_nat_alt)
  moreover have "unat vb \<le> unat target" using assms(4) by (simp add: word_le_nat_alt)
  ultimately show s: "unat (target - vb) + unat sz \<le> unat o2" by linarith
  then show e: "unat (target - vb + sz) = unat (target - vb) + unat sz"
    using assms(3) by (subst unat_add_nowrap) simp_all
  show "unat (target - vb + sz) \<le> unat o2" unfolding e by (rule s)
qed

section \<open>Properties\<close>

text \<open>
  C28. A user stack that is built is the one of the ABI.  The stack pointer is 16-byte aligned and
  inside the block; from it on lie \<open>argc\<close>, the argument pointers, a null, the environment pointers and
  a null, and the reported addresses of the two arrays are those of the arrays; every pointer points
  to its string, terminated, above the arrays in the block.
\<close>
theorem build_user_stack_layout:
  assumes b: "build_user_stack buf stack_bytes vb argc argv envc envp = (buf', Some r)"
    and size: "unat stack_bytes = length buf" "unat vb + length buf < 2 ^ 64"
    and args: "nat argc \<le> length argv" "nat envc \<le> length envp" "\<forall>s \<in> set argv \<union> set envp. length s < 2 ^ 32"
  shows "\<exists>off args envs. rsp r = vb + of_nat off \<and> 16 dvd unat (rsp r) \<and> length buf' = length buf \<and>
    length args = nat argc \<and> length envs = nat envc \<and>
    off + 8 * length (stack_words argc args envs) \<le> length buf \<and>
    slice_at buf' off (8 * length (stack_words argc args envs)) = concat (map (le_bytes 8) (stack_words argc args envs)) \<and>
    argv_uvaddr r = rsp r + 8 \<and> envp_uvaddr r = argv_uvaddr r + 8 * (of_int argc + 1) \<and>
    list_all2 (string_at vb buf' (off + 8 * length (stack_words argc args envs))) args (take (nat argc) argv) \<and>
    list_all2 (string_at vb buf' (off + 8 * length (stack_words argc args envs))) envs (take (nat envc) envp)"
proof -
  have c: "0 \<le> argc" "0 \<le> envc" "argc \<le> 64" "envc \<le> 64"
    using b by (auto simp: build_user_stack_def MAX_EXEC_ARGS_def split: if_splits)
  obtain buf1 o1 args where p1: "push_strings vb (take (nat argc) argv) stack_bytes [] buf = (buf1, Some (o1, args))"
    using b c by (auto simp: build_user_stack_def MAX_EXEC_ARGS_def split: prod.splits option.splits if_splits)
  obtain buf2 o2 envs where p2: "push_strings vb (take (nat envc) envp) o1 [] buf1 = (buf2, Some (o2, envs))"
    using b c p1 by (auto simp: build_user_stack_def MAX_EXEC_ARGS_def split: prod.splits option.splits if_splits)
  define sz where "sz = (24 + 8 * of_int argc + 8 * of_int envc :: u64)"
  define target where "target = (vb + o2 - sz) AND NOT 0xF"
  define o3 where "o3 = target - vb + sz"
  have g: "\<not> o2 < sz" "\<not> target < vb" "\<not> stack_bytes < o3"
    using b c p1 p2 by (auto simp: build_user_stack_def MAX_EXEC_ARGS_def Let_def sz_def target_def o3_def split: if_splits)
  have short: "\<forall>s \<in> set (take n argv). length s < 2 ^ 32" "\<forall>s \<in> set (take n envp). length s < 2 ^ 32" for n
    using args(3) by (auto dest: in_set_takeD)
  have c': "nat argc \<le> 64" "nat envc \<le> 64" using c by linarith+
  have s1: "length buf1 = length buf" "unat o1 \<le> length buf" "list_all2 (string_at vb buf1 (unat o1)) args (take (nat argc) argv)"
    using push_strings_spec [OF p1 _ short(1)] size(1) c' by simp_all
  have s2: "length buf2 = length buf" "unat o2 \<le> length buf" "list_all2 (string_at vb buf2 (unat o2)) envs (take (nat envc) envp)"
      "\<And>p s. string_at vb buf1 (unat o1) p s \<Longrightarrow> string_at vb buf2 (unat o2) p s"
    using push_strings_spec [OF p2 _ short(2)] s1(1,2) c' args(2) by simp_all
  have s1': "list_all2 (string_at vb buf2 (unat o2)) args (take (nat argc) argv)"
    using s1(3) s2(4) by (rule list_all2_mono)
  have l: "length args = nat argc" "length envs = nat envc"
    using list_all2_lengthD [OF s1(3)] list_all2_lengthD [OF s2(3)] args by simp_all
  define W where "W = stack_words argc args envs"
  have lW: "length W = nat argc + nat envc + 3" by (simp add: W_def stack_words_def l)
  have szW: "sz = 8 * of_nat (length W)" using c unfolding lW sz_def by (simp add: of_nat_nat algebra_simps)
  have usz: "unat sz = 8 * length W"
  proof -
    have "sz = of_nat (8 * length W)" by (simp add: szW)
    moreover have "8 * length W < 2 ^ 64" using c unfolding lW by simp
    ultimately show ?thesis by (simp only: unat_of_nat) simp
  qed
  have A: "16 dvd unat target" "unat o3 \<le> unat o2" "unat (target - vb) + unat sz \<le> unat o2" "unat o3 = unat (target - vb) + unat sz"
    using align16 [OF target_def, of] g size s2(2) by (simp_all add: o3_def not_less)
  define off where "off = unat (target - vb)"
  have o3: "8 * length W \<le> unat o3" "unat o3 \<le> length buf2" "off + 8 * length W \<le> unat o2" "unat o3 - 8 * length W = off"
    using A usz s2(1,2) by (simp_all add: off_def)
  obtain o4 where P: "foldr push_word W (o3, buf2) = (o4, put_bytes buf2 (unat o4) (concat (map (le_bytes 8) W)))"
      "unat o4 = off" "o4 = o3 - 8 * of_nat (length W)"
    using push_words_spec [OF o3(1,2)] o3(4) by auto
  have o4: "o4 = target - vb" unfolding P(3) o3_def szW by simp
  have R: "buf' = put_bytes buf2 off (concat (map (le_bytes 8) W))" "rsp r = vb + o4"
      "argv_uvaddr r = vb + (o3 - 8 * of_nat (length args + length envs + 2))"
      "envp_uvaddr r = vb + (o3 - 8 * of_nat (length envs + 1))"
  proof -
    have "build_user_stack buf stack_bytes vb argc argv envc envp =
        (let st = foldr push_word W (o3, buf2)
         in (snd st, Some \<lparr>rsp = vb + fst st, argv_uvaddr = vb + fst (foldr push_word (args @ 0 # envs @ [0]) (o3, buf2)),
              envp_uvaddr = vb + fst (foldr push_word (envs @ [0]) (o3, buf2))\<rparr>))"
      using c p1 p2 g
      by (simp add: build_user_stack_def MAX_EXEC_ARGS_def Let_def sz_def target_def o3_def W_def stack_words_def split: prod.split)
    then have "(buf', Some r) = (put_bytes buf2 (unat o4) (concat (map (le_bytes 8) W)),
        Some \<lparr>rsp = vb + o4, argv_uvaddr = vb + (o3 - 8 * of_nat (length args + length envs + 2)),
          envp_uvaddr = vb + (o3 - 8 * of_nat (length envs + 1))\<rparr>)"
      unfolding b P(1) fst_push_words Let_def by simp
    then show "buf' = put_bytes buf2 off (concat (map (le_bytes 8) W))" "rsp r = vb + o4"
        "argv_uvaddr r = vb + (o3 - 8 * of_nat (length args + length envs + 2))"
        "envp_uvaddr r = vb + (o3 - 8 * of_nat (length envs + 1))"
      using P(2) by simp_all
  qed
  have "rsp r = vb + of_nat off" "rsp r = target" using R(2) o4 P(2) by (simp_all add: off_def)
  moreover have "string_at vb buf' (off + 8 * length W) p s" if "string_at vb buf2 (unat o2) p s" for p s
    unfolding R(1) using string_at_mono [OF string_at_put [OF that, of off "concat (map (le_bytes 8) W)"]] o3(3)
    by (simp add: length_concat_le8)
  then have "list_all2 (string_at vb buf' (off + 8 * length W)) args (take (nat argc) argv)"
      "list_all2 (string_at vb buf' (off + 8 * length W)) envs (take (nat envc) envp)"
    using list_all2_mono [OF s1'] list_all2_mono [OF s2(3)] by blast+
  moreover have fit: "off + length (concat (map (le_bytes 8) W)) \<le> length buf2"
    using o3(3) s2(1,2) by (simp add: length_concat_le8)
  then have "length buf' = length buf" "slice_at buf' off (8 * length W) = concat (map (le_bytes 8) W)"
    using s2(1) by (simp_all add: R(1) slice_put_same length_concat_le8)
  moreover have "argv_uvaddr r = rsp r + 8" "envp_uvaddr r = argv_uvaddr r + 8 * (of_int argc + 1)"
    using c unfolding R P(3) lW l by (simp_all add: of_nat_nat algebra_simps)
  moreover have "off + 8 * length W \<le> length buf" using o3(3) s2(2) by simp
  ultimately show ?thesis
    using A(1) l unfolding W_def
    by - (rule exI [of _ off], rule exI [of _ args], rule exI [of _ envs], simp)
qed

theorem build_user_stack_layout_witness:
  "\<exists>buf' r. build_user_stack (replicate 96 0) 96 0x7000 1 [[0x61]] 0 [] = (buf', Some r) \<and> 16 dvd unat (rsp r) \<and>
     length buf' = 96 \<and> argv_uvaddr r = rsp r + 8"
proof -
  have "snd (build_user_stack (replicate 96 0) 96 0x7000 1 [[0x61]] 0 []) \<noteq> None" by code_simp
  then obtain buf' r where b: "build_user_stack (replicate 96 0) 96 0x7000 1 [[0x61]] 0 [] = (buf', Some r)"
    by (cases "build_user_stack (replicate 96 0) 96 0x7000 1 [[0x61]] 0 []") auto
  show ?thesis using build_user_stack_layout [OF b] b by auto
qed

end
