(* ===== verification/Terminal.thy ===== *)
theory Terminal
  imports Pmm
begin

unbundle bit_operations_syntax

text \<open>
  The text screen of a terminal: \<open>tty_t\<close> of \<open>src/src/include/drivers/tty/tty.h\<close> and \<open>tty_push\<close> of
  \<open>src/src/drivers/tty/tty_output.c\<close>.  The cells are the list \<open>buffer\<close> in row-major order; indices are
  computed in \<open>int\<close> as in C, and an access outside the buffer is \<open>Wild\<close>.

  The lemmas read the buffer as a list of rows.  On a terminal with a cursor inside its screen,
  \<open>tty_push\<close> stays inside the buffer and is the screen operation on rows: writing a cell, moving the
  cursor, scrolling by dropping the first row.
\<close>

section \<open>State\<close>

record cell =
  printable_char :: u8
  cell_fg :: u32
  cell_bg :: u32

definition TTY_MAX_BUF :: nat where "TTY_MAX_BUF = 256"
definition TTY_CANONICAL :: int where "TTY_CANONICAL = 0"
definition TTY_RAW :: int where "TTY_RAW = 1"
definition INPUT_STATE_NORMAL :: int where "INPUT_STATE_NORMAL = 0"
definition INPUT_STATE_ESC :: int where "INPUT_STATE_ESC = 1"
definition INPUT_STATE_CSI :: int where "INPUT_STATE_CSI = 2"

record tty =
  tty_id :: u8
  buffer :: "cell list"
  width :: u16
  height :: u16
  x_cursor :: u16
  y_cursor :: u16
  ldisc_mode :: int
  echo :: bool
  input_buf :: "u8 list"
  input_head :: nat
  input_tail :: nat
  line_buffer :: "u8 list"
  line_length :: nat
  line_cursor :: nat
  line_ready :: bool
  input_esc_state :: int

definition get_cell :: "int \<Rightarrow> tty \<Rightarrow> cell outcome" where
  "get_cell i tty = (if 0 \<le> i \<and> nat i < length (buffer tty) then Done (buffer tty ! nat i) else Wild)"

definition put_cell :: "int \<Rightarrow> cell \<Rightarrow> tty \<Rightarrow> tty outcome" where
  "put_cell i c tty =
     (if 0 \<le> i \<and> nat i < length (buffer tty) then Done (tty\<lparr>buffer := (buffer tty)[nat i := c]\<rparr>) else Wild)"

definition columns :: "tty \<Rightarrow> int list" where
  "columns tty = map int [0..<unat (width tty)]"

section \<open>Output of one cell\<close>

text \<open>Clearing the rest of the line; \<open>x\<close> runs from the cursor to the width.\<close>
definition clear_rest :: "cell \<Rightarrow> tty \<Rightarrow> tty outcome" where
  "clear_rest blank tty =
     for_oc (\<lambda>x tty. put_cell (uint (y_cursor tty) * uint (width tty) + int x) blank tty)
       [unat (x_cursor tty)..<unat (width tty)] tty"

definition tab_target :: "tty \<Rightarrow> u16" where
  "tab_target tty =
     (let target_x = (x_cursor tty - x_cursor tty mod 8) + 8
      in if width tty < target_x then width tty else target_x)"

text \<open>The loop that clears cells while the cursor is left of \<open>target_x\<close>.\<close>
definition clear_to_tab :: "cell \<Rightarrow> u16 \<Rightarrow> tty \<Rightarrow> tty outcome" where
  "clear_to_tab blank target_x tty =
     for_oc (\<lambda>_ tty.
         bind_oc (put_cell (uint (y_cursor tty) * uint (width tty) + uint (x_cursor tty)) blank tty) (\<lambda>tty.
           Done (tty\<lparr>x_cursor := x_cursor tty + 1\<rparr>)))
       [unat (x_cursor tty)..<unat target_x] tty"

definition scroll_buffer :: "cell \<Rightarrow> tty \<Rightarrow> tty outcome" where
  "scroll_buffer blank tty =
     bind_oc
       (for_oc (\<lambda>row. for_oc (\<lambda>col tty.
            bind_oc (get_cell (row * uint (width tty) + col) tty) (\<lambda>c.
              put_cell ((row - 1) * uint (width tty) + col) c tty)) (columns tty))
          (map int [1..<unat (height tty)]) tty)
       (for_oc (\<lambda>col tty. put_cell ((uint (height tty) - 1) * uint (width tty) + col) blank tty) (columns tty))"

definition wrap_cursor :: "tty \<Rightarrow> tty" where
  "wrap_cursor tty =
     (if width tty \<le> x_cursor tty then tty\<lparr>x_cursor := 0, y_cursor := y_cursor tty + 1\<rparr> else tty)"

definition tty_push :: "u32 list \<Rightarrow> tty \<Rightarrow> cell \<Rightarrow> tty outcome" where
  "tty_push colors tty cell =
     (let c = printable_char cell;
          blank = cell\<lparr>printable_char := 0x20\<rparr>
      in bind_oc
           (if c = 0x0A then
              bind_oc (clear_rest blank tty) (\<lambda>tty. Done (tty\<lparr>x_cursor := 0, y_cursor := y_cursor tty + 1\<rparr>))
            else if c = 0x0D then Done (tty\<lparr>x_cursor := 0\<rparr>)
            else if c = 0x09 then clear_to_tab blank (tab_target tty) tty
            else if c = 0x08 then
              Done (if 0 < x_cursor tty then tty\<lparr>x_cursor := x_cursor tty - 1\<rparr>
                    else if 0 < y_cursor tty then tty\<lparr>y_cursor := y_cursor tty - 1\<rparr> else tty)
            else
              bind_oc (put_cell (uint (y_cursor tty) * uint (width tty) + uint (x_cursor tty)) cell tty) (\<lambda>tty.
                Done (tty\<lparr>x_cursor := x_cursor tty + 1\<rparr>)))
           (\<lambda>tty.
              let tty = wrap_cursor tty
              in if height tty \<le> y_cursor tty then
                   bind_oc (scroll_buffer \<lparr>printable_char = 0x20, cell_fg = colors ! 7, cell_bg = colors ! 0\<rparr> tty) (\<lambda>tty.
                     Done (tty\<lparr>y_cursor := height tty - 1\<rparr>))
                 else Done tty))"

section \<open>Rows\<close>

definition rows :: "tty \<Rightarrow> cell list list" where
  "rows tty = map (\<lambda>r. slice_at (buffer tty) (r * unat (width tty)) (unat (width tty))) [0..<unat (height tty)]"

text \<open>The cells fill the screen; the cursor is inside it.  The tab stops need a width that does not wrap.\<close>
definition buffer_ok :: "tty \<Rightarrow> bool" where
  "buffer_ok tty \<longleftrightarrow> 0 < unat (width tty) \<and> 0 < unat (height tty) \<and> unat (width tty) \<le> 65528 \<and>
     length (buffer tty) = unat (height tty) * unat (width tty)"

definition tty_ok :: "tty \<Rightarrow> bool" where
  "tty_ok tty \<longleftrightarrow> buffer_ok tty \<and> x_cursor tty < width tty \<and> y_cursor tty < height tty"

text \<open>A screen: its rows and the cursor.\<close>
type_synonym screen = "cell list list \<times> nat \<times> nat"

definition screen :: "tty \<Rightarrow> screen" where
  "screen tty = (rows tty, unat (x_cursor tty), unat (y_cursor tty))"

definition overwrite_row :: "nat \<Rightarrow> nat \<Rightarrow> cell list \<Rightarrow> cell list list \<Rightarrow> cell list list" where
  "overwrite_row y x cs rs = rs[y := put_bytes (rs ! y) x cs]"

definition settle :: "nat \<Rightarrow> nat \<Rightarrow> cell \<Rightarrow> screen \<Rightarrow> screen" where
  "settle w h blank = (\<lambda>(rs, x, y).
     let (x, y) = (if w \<le> x then (0, y + 1) else (x, y))
     in if h \<le> y then (tl rs @ [replicate w blank], x, h - 1) else (rs, x, y))"

text \<open>What printing one cell means on rows.\<close>
definition screen_put :: "nat \<Rightarrow> nat \<Rightarrow> cell \<Rightarrow> cell \<Rightarrow> screen \<Rightarrow> screen" where
  "screen_put w h blank cell = (\<lambda>(rs, x, y).
     settle w h blank
       (let c = printable_char cell; space = cell\<lparr>printable_char := 0x20\<rparr>; stop = min w (8 * (x div 8 + 1))
        in if c = 0x0A then (overwrite_row y x (replicate (w - x) space) rs, 0, y + 1)
           else if c = 0x0D then (rs, 0, y)
           else if c = 0x09 then (overwrite_row y x (replicate (stop - x) space) rs, stop, y)
           else if c = 0x08 then (rs, x - 1, if 0 < x then y else y - 1)
           else (overwrite_row y x [cell] rs, x + 1, y)))"

lemma uint_unat_eq: "uint (w :: 'a::len word) = int (unat w)"
  by simp

lemma length_rows [simp]: "length (rows tty) = unat (height tty)"
  by (simp add: rows_def)

lemma row_index: "y < h \<Longrightarrow> x < w \<Longrightarrow> y * w + x < h * (w :: nat)"
proof -
  assume "y < h" "x < w"
  then have "y * w + x < y * w + w" by simp
  also have "y * w + w = Suc y * w" by simp
  also have "\<dots> \<le> h * w" using \<open>y < h\<close> by (intro mult_le_mono1) simp
  finally show ?thesis .
qed

lemma row_nth: "buffer_ok tty \<Longrightarrow> y < unat (height tty) \<Longrightarrow> x < unat (width tty) \<Longrightarrow>
   rows tty ! y ! x = buffer tty ! (y * unat (width tty) + x)"
  using row_index [of y "unat (height tty)" "unat (width tty) - 1" "unat (width tty)"]
  by (simp add: rows_def buffer_ok_def slice_nth)

lemma length_row: "buffer_ok tty \<Longrightarrow> y < unat (height tty) \<Longrightarrow> length (rows tty ! y) = unat (width tty)"
  using row_index [of y "unat (height tty)" "unat (width tty) - 1" "unat (width tty)"]
  by (simp add: rows_def buffer_ok_def)

text \<open>Two terminals with the same cells at all places have the same rows.\<close>
lemma rows_eqI:
  assumes "buffer_ok t" "length rs = unat (height t)"
    and "\<And>y. y < unat (height t) \<Longrightarrow> length (rs ! y) = unat (width t)"
    and "\<And>y x. y < unat (height t) \<Longrightarrow> x < unat (width t) \<Longrightarrow> buffer t ! (y * unat (width t) + x) = rs ! y ! x"
  shows "rows t = rs"
  by (rule nth_equalityI; (rule nth_equalityI)?) (use assms in \<open>auto simp: length_row row_nth\<close>)

lemma index_unique:
  "x < w \<Longrightarrow> x' < w \<Longrightarrow> y * w + x = y' * w + x' \<longleftrightarrow> y = y' \<and> x = (x' :: nat)"
  by (metis add.commute div_mult_self1 div_less add_0_right add_left_cancel less_nat_zero_code)

lemma row_span: "y < h \<Longrightarrow> x + k \<le> w \<Longrightarrow> y * w + x + k \<le> h * (w :: nat)"
proof -
  assume "y < h" "x + k \<le> w"
  then have "y * w + x + k \<le> y * w + w" by simp
  also have "\<dots> = Suc y * w" by simp
  also have "\<dots> \<le> h * w" using \<open>y < h\<close> by (intro mult_le_mono1) simp
  finally show ?thesis .
qed

lemma rows_put:
  assumes ok: "buffer_ok t" and y: "y < unat (height t)" and x: "x + length cs \<le> unat (width t)"
    and t': "t' = t\<lparr>buffer := put_bytes (buffer t) (y * unat (width t) + x) cs\<rparr>"
  shows "buffer_ok t'" and "rows t' = overwrite_row y x cs (rows t)"
proof -
  let ?w = "unat (width t)" and ?h = "unat (height t)"
  have len: "y * ?w + x + length cs \<le> length (buffer t)" using row_span [OF y x] ok by (simp add: buffer_ok_def)
  show ok': "buffer_ok t'" using ok len by (simp add: buffer_ok_def t')
  show "rows t' = overwrite_row y x cs (rows t)"
  proof (rule rows_eqI [OF ok'])
    fix r c assume rc: "r < unat (height t')" "c < unat (width t')"
    then have r: "r < ?h" and c: "c < ?w" by (simp_all add: t')
    have ix: "r * ?w + c < length (buffer t)" using row_index [OF r c] ok by (simp add: buffer_ok_def)
    have "y * ?w + x \<le> r * ?w + c \<and> r * ?w + c < y * ?w + x + length cs \<longleftrightarrow> r = y \<and> x \<le> c \<and> c < x + length cs"
    proof (cases "r = y")
      case False
      then consider "r < y" | "y < r" by linarith
      then show ?thesis
      proof cases
        case 1
        have "r * ?w + c < y * ?w" using row_index [OF 1 c] .
        then show ?thesis using False by simp
      next
        case 2
        have "y * ?w + x + length cs \<le> r * ?w" using row_span [OF 2 x] .
        then show ?thesis using False by simp
      qed
    qed auto
    then show "buffer t' ! (r * unat (width t') + c) = overwrite_row y x cs (rows t) ! r ! c"
      using len ix x r c y ok
      by (auto simp: t' put_bytes_nth overwrite_row_def nth_list_update length_row row_nth)
  qed (use x y ok in \<open>auto simp: t' overwrite_row_def nth_list_update length_row\<close>)
qed

lemma put_bytes_twice:
  "off + length (us @ vs) \<le> length bs \<Longrightarrow>
   put_bytes (put_bytes bs off us) (off + length us) vs = put_bytes bs off (us @ vs)"
  by (rule nth_equalityI) (auto simp: put_bytes_nth nth_append)

lemma put_cell_at:
  "i < length (buffer t) \<Longrightarrow> put_cell (int i) c t = Done (t\<lparr>buffer := put_bytes (buffer t) i [c]\<rparr>)"
  by (simp add: put_cell_def) (simp add: put_bytes_def upd_conv_take_nth_drop)

lemma cell_int: "uint (y_cursor t) * uint (width t) + int x = int (unat (y_cursor t) * unat (width t) + x)"
  by simp

text \<open>Filling cells; \<open>P\<close> is what the loop body needs to know of the other fields.\<close>
lemma fill_cells:
  assumes f: "\<And>k t. a \<le> k \<Longrightarrow> k < b \<Longrightarrow> P t \<Longrightarrow> f k t = put_cell (int (base + k)) blank t"
    and P: "\<And>t b. P t \<Longrightarrow> P (t\<lparr>buffer := b\<rparr>)" "P t" and b: "a \<le> b" "base + b \<le> length (buffer t)"
  shows "for_oc f [a..<b] t = Done (t\<lparr>buffer := put_bytes (buffer t) (base + a) (replicate (b - a) blank)\<rparr>)"
  using b f P(2)
proof (induction b rule: dec_induct)
  case base
  then show ?case by (simp add: put_bytes_def)
next
  case (step b)
  define t1 where "t1 = t\<lparr>buffer := put_bytes (buffer t) (base + a) (replicate (b - a) blank)\<rparr>"
  have IH: "for_oc f [a..<b] t = Done t1" unfolding t1_def by (rule step.IH) (use step in auto)
  have l: "length (buffer t1) = length (buffer t)" "P t1" using step P(1) by (simp_all add: t1_def)
  have "f b t1 = Done (t1\<lparr>buffer := put_bytes (buffer t1) (base + b) [blank]\<rparr>)"
    using step.prems(2) [of b t1] step l by (simp add: put_cell_at del: of_nat_add)
  moreover have "put_bytes (buffer t1) (base + b) [blank] = put_bytes (buffer t) (base + a) (replicate (Suc b - a) blank)"
    using put_bytes_twice [of "base + a" "replicate (b - a) blank" "[blank]" "buffer t"] step
    by (simp add: t1_def Suc_diff_le replicate_append_same)
  ultimately show ?case using step(1) by (simp add: for_oc_append IH) (simp add: t1_def)
qed

lemma clear_cells:
  assumes "a \<le> b" and "unat (y_cursor t) * unat (width t) + b \<le> length (buffer t)"
  shows "for_oc (\<lambda>x t. put_cell (uint (y_cursor t) * uint (width t) + int x) blank t) [a..<b] t =
    Done (t\<lparr>buffer := put_bytes (buffer t) (unat (y_cursor t) * unat (width t) + a) (replicate (b - a) blank)\<rparr>)"
  by (rule fill_cells [where P = "\<lambda>t1. y_cursor t1 = y_cursor t \<and> width t1 = width t"]) (use assms in auto)

lemma rows_eq: "width t' = width t \<Longrightarrow> height t' = height t \<Longrightarrow> buffer t' = buffer t \<Longrightarrow> rows t' = rows t"
  by (simp add: rows_def)

lemma buffer_ok_eq:
  "width t' = width t \<Longrightarrow> height t' = height t \<Longrightarrow> buffer t' = buffer t \<Longrightarrow> buffer_ok t' = buffer_ok t"
  by (simp add: buffer_ok_def)

lemma clear_tab_cells:
  assumes "a \<le> b" and "b < 65536" and "unat (y_cursor t) * unat (width t) + b \<le> length (buffer t)" and "x_cursor t = of_nat a"
  shows "for_oc (\<lambda>_ t. bind_oc (put_cell (uint (y_cursor t) * uint (width t) + uint (x_cursor t)) blank t) (\<lambda>t.
        Done (t\<lparr>x_cursor := x_cursor t + 1\<rparr>))) [a..<b] t =
    Done (t\<lparr>buffer := put_bytes (buffer t) (unat (y_cursor t) * unat (width t) + a) (replicate (b - a) blank), x_cursor := of_nat b\<rparr>)"
    (is "for_oc ?f _ _ = _")
  using assms
proof (induction b rule: dec_induct)
  case base
  have "t\<lparr>x_cursor := of_nat a\<rparr> = t" using base(3) by simp
  then show ?case by (simp add: put_bytes_def)
next
  case (step b)
  let ?i = "unat (y_cursor t) * unat (width t)"
  define t1 where "t1 = t\<lparr>buffer := put_bytes (buffer t) (?i + a) (replicate (b - a) blank), x_cursor := of_nat b\<rparr>"
  have IH: "for_oc ?f [a..<b] t = Done t1" using step by (simp add: t1_def)
  have l: "length (buffer t1) = length (buffer t)" "y_cursor t1 = y_cursor t" "width t1 = width t" "uint (x_cursor t1) = int b"
    using step by (simp_all add: t1_def unsigned_of_nat take_bit_nat_eq_self)
  have "put_cell (uint (y_cursor t1) * uint (width t1) + uint (x_cursor t1)) blank t1 =
      Done (t1\<lparr>buffer := put_bytes (buffer t1) (?i + b) [blank]\<rparr>)"
    unfolding l(4) cell_int l(2,3) by (rule put_cell_at) (use step l in simp)
  moreover have "put_bytes (buffer t1) (?i + b) [blank] = put_bytes (buffer t) (?i + a) (replicate (Suc b - a) blank)"
    using put_bytes_twice [of "?i + a" "replicate (b - a) blank" "[blank]" "buffer t"] step
    by (simp add: t1_def Suc_diff_le replicate_append_same)
  ultimately show ?case using step(1) by (simp add: for_oc_append IH) (simp add: t1_def)
qed

section \<open>Scrolling\<close>

lemma for_oc_map: "for_oc f (map g xs) s = for_oc (\<lambda>x. f (g x)) xs s"
  by (induction xs arbitrary: s) (auto intro!: bind_oc_cong)

lemma for_oc_cong:
  "(\<And>x s. x \<in> set xs \<Longrightarrow> f x s = g x s) \<Longrightarrow> for_oc f xs s = for_oc g xs s"
  by (induction xs arbitrary: s) (auto intro!: bind_oc_cong)

text \<open>Copying cells in ascending order from \<open>w\<close> places further on.\<close>
lemma copy_cells:
  assumes "\<And>k t. a \<le> k \<Longrightarrow> k < b \<Longrightarrow> width t = wd \<Longrightarrow> length (buffer t) = n \<Longrightarrow>
      f k t = Done (t\<lparr>buffer := (buffer t)[k := buffer t ! (w + k)]\<rparr>)"
    and "a \<le> b" "w + b \<le> n" "0 < w" "width t = wd" "length (buffer t) = n"
  shows "for_oc f [a..<b] t = Done (t\<lparr>buffer := put_bytes (buffer t) a (slice_at (buffer t) (w + a) (b - a))\<rparr>)"
  using assms(2,1,3-)
proof (induction b rule: dec_induct)
  case base
  then show ?case by (simp add: put_bytes_def slice_at_def)
next
  case (step b)
  let ?cs = "\<lambda>b. slice_at (buffer t) (w + a) (b - a)"
  define t1 where "t1 = t\<lparr>buffer := put_bytes (buffer t) a (?cs b)\<rparr>"
  have IH: "for_oc f [a..<b] t = Done t1" unfolding t1_def by (rule step.IH) (use step in auto)
  have l: "length (?cs b) = b - a" using step by (simp add: slice_at_def)
  then have lb: "length (buffer t1) = n" "width t1 = wd" using step by (simp_all add: t1_def)
  have nth: "buffer t1 ! (w + b) = buffer t ! (w + b)" using step l by (simp add: t1_def put_bytes_nth)
  have f: "f b t1 = Done (t1\<lparr>buffer := (buffer t1)[b := buffer t ! (w + b)]\<rparr>)"
    using step.prems(1) [of b t1] step.hyps lb nth by simp
  have "(buffer t1)[b := buffer t ! (w + b)] = put_bytes (buffer t) a (?cs (Suc b))"
  proof -
    have "?cs (Suc b) = ?cs b @ [buffer t ! (w + b)]"
      using step by (simp add: slice_at_def Suc_diff_le take_Suc_conv_app_nth)
    moreover have "(buffer t1)[b := buffer t ! (w + b)] = put_bytes (buffer t1) b [buffer t ! (w + b)]"
      using lb step by (simp add: upd_conv_take_nth_drop put_bytes_def)
    ultimately show ?thesis
      using put_bytes_twice [of a "?cs b" "[buffer t ! (w + b)]" "buffer t"] l step by (simp add: t1_def)
  qed
  then show ?case using step(1) f by (simp add: for_oc_append IH) (simp add: t1_def)
qed

lemma for_oc_grid: "for_oc (\<lambda>r. for_oc (\<lambda>c. f (r * w + c)) [0..<w]) [a..<b] s = for_oc f [a * w..<b * w] s"
proof (induction b arbitrary: s)
  case (Suc b)
  have shift: "for_oc f [m..<m + w] s = for_oc (\<lambda>c. f (m + c)) [0..<w] s" for m s
  proof -
    have "[m..<m + w] = map (\<lambda>c. m + c) [0..<w]" by (rule nth_equalityI) simp_all
    then show ?thesis by (simp only: for_oc_map)
  qed
  show ?case
  proof (cases "a \<le> b")
    case True
    then have "[a * w..<Suc b * w] = [a * w..<b * w] @ [b * w..<b * w + w]"
      using upt_add_eq_append [of "a * w" "b * w" w] by (simp add: mult_le_mono1 add.commute)
    then show ?thesis using True by (simp add: for_oc_append Suc.IH shift bind_oc_assoc cong: bind_oc_cong)
  next
    case False
    then have "Suc b * w \<le> a * w" by (intro mult_le_mono1) simp
    then show ?thesis using False by simp
  qed
qed simp

lemma scroll_loop:
  assumes ok: "buffer_ok t"
  shows "for_oc (\<lambda>row. for_oc (\<lambda>col t. bind_oc (get_cell (row * uint (width t) + col) t) (\<lambda>c.
              put_cell ((row - 1) * uint (width t) + col) c t)) (columns t))
          (map int [1..<unat (height t)]) t =
    Done (t\<lparr>buffer := put_bytes (buffer t) 0 (drop (unat (width t)) (buffer t))\<rparr>)"
proof -
  let ?w = "unat (width t)" and ?h = "unat (height t)"
  define f where "f = (\<lambda>k t1. bind_oc (get_cell (int (k + ?w)) t1) (\<lambda>c. put_cell (int k) c t1))"
  define F where "F = (\<lambda>row col t. bind_oc (get_cell (row * uint (width t) + col) t) (\<lambda>c.
              put_cell ((row - 1) * uint (width t) + col) c t))"
  have pw: "width t1 = width t \<Longrightarrow> F (int (Suc r)) (int c) t1 = f (r * ?w + c) t1" for r c t1
    by (simp add: F_def f_def algebra_simps)
  have w: "for_oc g xs t1 = Done t2 \<Longrightarrow> (\<And>x t1 t2. g x t1 = Done t2 \<Longrightarrow> width t2 = width t1) \<Longrightarrow> width t2 = width t1"
    for g :: "'b \<Rightarrow> tty \<Rightarrow> tty outcome" and xs t1 t2
    by (induction xs arbitrary: t1) (auto simp: bind_oc_eq_Done)
  have wf: "f k t1 = Done t2 \<Longrightarrow> width t2 = width t1" for k t1 t2
    by (auto simp: f_def get_cell_def put_cell_def split: if_splits)
  have inner: "width t1 = width t \<Longrightarrow> for_oc (F (int (Suc r))) (map int cs) t1 = for_oc (\<lambda>c. f (r * ?w + c)) cs t1" for r cs t1
  proof (induction cs arbitrary: t1)
    case (Cons c cs)
    show ?case unfolding list.map for_oc.simps pw [OF Cons.prems]
      by (rule bind_oc_cong [OF refl]) (use Cons wf in auto)
  qed simp
  have outer: "width t1 = width t \<Longrightarrow>
      for_oc (\<lambda>row. for_oc (F row) (columns t)) (map (\<lambda>r. int (Suc r)) rs) t1 =
      for_oc (\<lambda>r. for_oc (\<lambda>c. f (r * ?w + c)) [0..<?w]) rs t1" for rs t1
  proof (induction rs arbitrary: t1)
    case (Cons r rs)
    show ?case unfolding list.map for_oc.simps columns_def inner [OF Cons.prems]
    proof (rule bind_oc_cong [OF refl])
      fix t2 assume "for_oc (\<lambda>c. f (r * ?w + c)) [0..<?w] t1 = Done t2"
      from w [OF this] wf have "width t2 = width t" using Cons.prems by simp
      from Cons.IH [OF this] show "for_oc (\<lambda>row. for_oc (F row) (map int [0..<?w])) (map (\<lambda>r. int (Suc r)) rs) t2 =
          for_oc (\<lambda>r. for_oc (\<lambda>c. f (r * ?w + c)) [0..<?w]) rs t2" by (simp add: columns_def)
    qed
  qed simp
  have "map int [1..<?h] = map (\<lambda>r. int (Suc r)) [0..<?h - 1]"
    by (rule nth_equalityI) simp_all
  then have "for_oc (\<lambda>row. for_oc (F row) (columns t)) (map int [1..<?h]) t = for_oc f [0..<(?h - 1) * ?w] t"
    using outer [OF refl] for_oc_grid [of f ?w 0 "?h - 1" t] by simp
  moreover have "?w + (?h - 1) * ?w = length (buffer t)" using ok by (cases ?h) (simp_all add: buffer_ok_def)
  moreover have "for_oc f [0..<(?h - 1) * ?w] t =
      Done (t\<lparr>buffer := put_bytes (buffer t) 0 (slice_at (buffer t) (?w + 0) ((?h - 1) * ?w - 0))\<rparr>)"
    by (rule copy_cells [where wd = "width t" and n = "length (buffer t)"])
      (use calculation(2) ok in \<open>auto simp: f_def get_cell_def put_cell_def buffer_ok_def add.commute nat_add_distrib simp flip: of_nat_add\<close>)
  moreover have "slice_at (buffer t) (?w + 0) ((?h - 1) * ?w - 0) = drop ?w (buffer t)"
    using calculation(2) by (simp add: slice_at_def)
  ultimately show ?thesis by (simp add: F_def)
qed

lemma scroll_buffer_rows:
  assumes ok: "buffer_ok t"
  shows "\<exists>b. scroll_buffer blank t = Done (t\<lparr>buffer := b\<rparr>) \<and> buffer_ok (t\<lparr>buffer := b\<rparr>) \<and>
    rows (t\<lparr>buffer := b\<rparr>) = tl (rows t) @ [replicate (unat (width t)) blank]"
proof -
  let ?w = "unat (width t)" and ?h = "unat (height t)"
  define t1 where "t1 = t\<lparr>buffer := put_bytes (buffer t) 0 (drop ?w (buffer t))\<rparr>"
  have pos: "0 < ?w" "0 < ?h" and len: "length (buffer t) = ?h * ?w" using ok by (simp_all add: buffer_ok_def)
  then have wl: "?w \<le> length (buffer t)" by simp
  then have ok1: "buffer_ok t1" using ok by (simp add: buffer_ok_def t1_def)
  have "uint (height t1) - 1 = int (?h - 1)" using pos by (simp add: t1_def of_nat_diff)
  moreover have "(?h - 1) * ?w + ?w = ?h * ?w" using pos by (metis Suc_diff_1 add.commute mult_Suc)
  moreover have "length (buffer t1) = length (buffer t)" using wl by (simp add: t1_def)
  ultimately have hw: "uint (height t1) - 1 = int (?h - 1)" "(?h - 1) * ?w + ?w = length (buffer t1)" using len by simp_all
  define b where "b = put_bytes (buffer t1) ((?h - 1) * ?w) (replicate ?w blank)"
  have t1': "columns t1 = map int [0..<?w]" "width t1 = width t" "height t1 = height t" by (simp_all add: t1_def columns_def)
  have "for_oc (\<lambda>k t. put_cell ((uint (height t) - 1) * uint (width t) + int k) blank t) [0..<?w] t1 =
      Done (t1\<lparr>buffer := put_bytes (buffer t1) ((?h - 1) * ?w + 0) (replicate (?w - 0) blank)\<rparr>)"
    by (rule fill_cells [where P = "\<lambda>t2. height t2 = height t1 \<and> width t2 = width t"]) (use hw in \<open>auto simp: t1'\<close>)
  then have "for_oc (\<lambda>col t. put_cell ((uint (height t) - 1) * uint (width t) + col) blank t) (columns t1) t1 = Done (t1\<lparr>buffer := b\<rparr>)"
    unfolding t1'(1) for_oc_map by (simp add: b_def)
  then have "scroll_buffer blank t = Done (t1\<lparr>buffer := b\<rparr>)"
    unfolding scroll_buffer_def scroll_loop [OF ok] by (simp add: t1_def columns_def)
  moreover have "t1\<lparr>buffer := b\<rparr> = t\<lparr>buffer := b\<rparr>" by (simp add: t1_def)
  moreover note R = rows_put [OF ok1, of "?h - 1" 0 "replicate ?w blank" "t1\<lparr>buffer := b\<rparr>"]
  have "buffer_ok (t1\<lparr>buffer := b\<rparr>)" "rows (t1\<lparr>buffer := b\<rparr>) = overwrite_row (?h - 1) 0 (replicate ?w blank) (rows t1)"
    using R pos by (simp_all add: b_def t1')
  moreover have "overwrite_row (?h - 1) 0 (replicate ?w blank) (rows t1) = tl (rows t) @ [replicate ?w blank]"
  proof (rule nth_equalityI)
    fix y assume "y < length (overwrite_row (?h - 1) 0 (replicate ?w blank) (rows t1))"
    then have y: "y < ?h" by (simp add: overwrite_row_def t1')
    show "overwrite_row (?h - 1) 0 (replicate ?w blank) (rows t1) ! y = (tl (rows t) @ [replicate ?w blank]) ! y"
    proof (cases "y = ?h - 1")
      case True
      then show ?thesis using pos length_row [OF ok1, of y] by (simp add: overwrite_row_def t1' put_bytes_def nth_append)
    next
      case False
      then have y': "Suc y < ?h" using y by simp
      have "rows t1 ! y = rows t ! Suc y"
      proof (rule nth_equalityI)
        show "length (rows t1 ! y) = length (rows t ! Suc y)" using y y' by (simp add: length_row ok ok1 t1')
        fix x assume "x < length (rows t1 ! y)"
        then have x: "x < ?w" using y by (simp add: length_row ok1 t1')
        have "?w + (y * ?w + x) < length (buffer t)" using row_index [OF y' x] len by (simp add: add.assoc)
        then have "buffer t1 ! (y * ?w + x) = buffer t ! (?w + (y * ?w + x))" using wl by (simp add: t1_def put_bytes_nth)
        then show "rows t1 ! y ! x = rows t ! Suc y ! x" using x y y' by (simp add: row_nth ok ok1 t1' add.assoc)
      qed
      then show ?thesis using False y y' by (auto simp: overwrite_row_def nth_append nth_tl)
    qed
  qed (use pos in \<open>simp add: overwrite_row_def t1'\<close>)
  ultimately show ?thesis by metis
qed

section \<open>Printing a cell\<close>

lemma tab_target_nat:
  assumes "tty_ok t"
  shows "unat (tab_target t) = min (unat (width t)) (8 * (unat (x_cursor t) div 8 + 1))"
    and "unat (x_cursor t) < unat (tab_target t)"
proof -
  let ?x = "unat (x_cursor t)" and ?w = "unat (width t)"
  have b: "?x < ?w" "?w \<le> 65528" using assms by (auto simp: tty_ok_def buffer_ok_def word_less_nat_alt)
  have m: "unat (x_cursor t mod 8) = ?x mod 8" by (simp add: unat_mod)
  have "x_cursor t mod 8 \<le> x_cursor t" by (simp add: word_le_nat_alt m)
  then have d: "unat (x_cursor t - x_cursor t mod 8) = 8 * (?x div 8)"
    by (subst unat_diff_nowrap) (simp_all add: m minus_mod_eq_mult_div)
  have "8 * (?x div 8) + 8 \<le> ?x + 8" by simp
  then have e: "unat (x_cursor t - x_cursor t mod 8 + 8) = 8 * (?x div 8) + 8"
    using b d by (subst unat_add_nowrap) simp_all
  then show *: "unat (tab_target t) = min ?w (8 * (?x div 8 + 1))"
    by (auto simp: tab_target_def Let_def word_less_nat_alt)
  have "?x < 8 * (?x div 8 + 1)" using div_mult_mod_eq [of ?x 8] mod_less_divisor [of 8 ?x] by simp
  then show "?x < unat (tab_target t)" using * b by simp
qed

text \<open>The part of \<open>tty_push\<close> behind the switch.\<close>
lemma settle_tty:
  assumes ok: "buffer_ok t" and y: "unat (y_cursor t) \<le> unat (height t)" and x: "unat (x_cursor t) \<le> unat (width t)"
    and xy: "y_cursor t < height t \<or> unat (x_cursor t) < unat (width t)"
  shows "\<exists>b x y. (let t = wrap_cursor t
        in if height t \<le> y_cursor t then bind_oc (scroll_buffer blank t) (\<lambda>t. Done (t\<lparr>y_cursor := height t - 1\<rparr>)) else Done t) =
      Done (t\<lparr>buffer := b, x_cursor := x, y_cursor := y\<rparr>) \<and> tty_ok (t\<lparr>buffer := b, x_cursor := x, y_cursor := y\<rparr>) \<and>
      screen (t\<lparr>buffer := b, x_cursor := x, y_cursor := y\<rparr>) = settle (unat (width t)) (unat (height t)) blank (screen t)"
proof -
  let ?w = "unat (width t)" and ?h = "unat (height t)"
  define t1 where "t1 = wrap_cursor t"
  have pos: "0 < ?w" "0 < ?h" using ok by (simp_all add: buffer_ok_def)
  have ys: "unat (y_cursor t + 1) = unat (y_cursor t) + 1" if "y_cursor t < height t"
    using that unat_less [of "height t"] by (subst unat_add_nowrap) (simp_all add: word_less_nat_alt)
  have t1: "t1 = t\<lparr>x_cursor := x_cursor t1, y_cursor := y_cursor t1\<rparr>" by (simp add: t1_def wrap_cursor_def)
  have xy1: "(unat (x_cursor t1), unat (y_cursor t1)) = (if ?w \<le> unat (x_cursor t) then (0, unat (y_cursor t) + 1) else (unat (x_cursor t), unat (y_cursor t)))"
    using xy ys by (auto simp: t1_def wrap_cursor_def word_le_nat_alt)
  have f: "width t1 = width t" "height t1 = height t" "buffer t1 = buffer t" by (simp_all add: t1_def wrap_cursor_def)
  have ok1: "buffer_ok t1" "rows t1 = rows t" using buffer_ok_eq [OF f] rows_eq [OF f] ok by simp_all
  have x1: "unat (x_cursor t1) < ?w" using xy1 pos x by (auto split: if_splits)
  show ?thesis
  proof (cases "height t1 \<le> y_cursor t1")
    case True
    obtain b where b: "scroll_buffer blank t1 = Done (t1\<lparr>buffer := b\<rparr>)" "buffer_ok (t1\<lparr>buffer := b\<rparr>)"
        "rows (t1\<lparr>buffer := b\<rparr>) = tl (rows t) @ [replicate ?w blank]"
      using scroll_buffer_rows [OF ok1(1), of blank] f ok1(2) by auto
    let ?t = "t\<lparr>buffer := b, x_cursor := x_cursor t1, y_cursor := height t - 1\<rparr>"
    have h1: "unat (height t - 1) = ?h - 1" using pos by (subst unat_diff_nowrap) (simp_all add: word_le_nat_alt)
    have r: "rows ?t = rows (t1\<lparr>buffer := b\<rparr>)" "buffer_ok ?t" using b(2) by (simp_all add: rows_def f buffer_ok_def)
    have e: "(t1\<lparr>buffer := b\<rparr>)\<lparr>y_cursor := height t - 1\<rparr> = ?t" by (subst t1) simp
    have "tty_ok ?t" using r h1 x1 pos by (simp add: tty_ok_def word_less_nat_alt)
    moreover have "screen ?t = settle ?w ?h blank (screen t)"
      using True xy1 unfolding screen_def r b(3) settle_def
      by (auto simp: h1 f word_le_nat_alt split: if_splits)
    moreover have "(let t = wrap_cursor t
        in if height t \<le> y_cursor t then bind_oc (scroll_buffer blank t) (\<lambda>t. Done (t\<lparr>y_cursor := height t - 1\<rparr>)) else Done t) = Done ?t"
      using True e f by (simp add: t1_def [symmetric] Let_def b(1))
    ultimately show ?thesis by blast
  next
    case False
    let ?t = "t\<lparr>buffer := buffer t, x_cursor := x_cursor t1, y_cursor := y_cursor t1\<rparr>"
    have e: "?t = t1" by (subst (3) t1) simp
    have "tty_ok t1" using ok1 x1 False f by (simp add: tty_ok_def word_less_nat_alt word_le_nat_alt)
    moreover have "screen t1 = settle ?w ?h blank (screen t)"
      using False xy1 unfolding screen_def ok1(2) settle_def
      by (auto simp: f word_le_nat_alt split: if_splits)
    moreover have "(let t = wrap_cursor t
        in if height t \<le> y_cursor t then bind_oc (scroll_buffer blank t) (\<lambda>t. Done (t\<lparr>y_cursor := height t - 1\<rparr>)) else Done t) = Done t1"
      using False by (simp add: t1_def [symmetric] Let_def)
    ultimately show ?thesis
      by - (rule exI [of _ "buffer t"], rule exI [of _ "x_cursor t1"], rule exI [of _ "y_cursor t1"], simp only: e simp_thms)
  qed
qed

lemma overwrite_nothing: "overwrite_row y x [] rs = rs"
  by (cases "y < length rs") (simp_all add: overwrite_row_def put_bytes_def)

section \<open>Properties\<close>

text \<open>
  C29. Output to a terminal refines the screen operation on rows: on a terminal with its cursor inside
  the screen, \<open>tty_push\<close> never touches memory outside the cell buffer, leaves the cursor inside the
  screen, changes only cells and cursor, and the rows and the cursor afterwards are those of
  \<open>screen_put\<close> (writing a cell, newline, return, tab, backspace, wrapping, scrolling by one row).
\<close>
theorem tty_push_refines_screen:
  assumes ok: "tty_ok t"
  shows "\<exists>b x y. tty_push colors t cell = Done (t\<lparr>buffer := b, x_cursor := x, y_cursor := y\<rparr>) \<and>
    tty_ok (t\<lparr>buffer := b, x_cursor := x, y_cursor := y\<rparr>) \<and>
    screen (t\<lparr>buffer := b, x_cursor := x, y_cursor := y\<rparr>) =
      screen_put (unat (width t)) (unat (height t)) \<lparr>printable_char = 0x20, cell_fg = colors ! 7, cell_bg = colors ! 0\<rparr> cell (screen t)"
proof -
  let ?w = "unat (width t)" and ?h = "unat (height t)" and ?x = "unat (x_cursor t)" and ?y = "unat (y_cursor t)"
  let ?c = "printable_char cell" and ?blank = "\<lparr>printable_char = 0x20, cell_fg = colors ! 7, cell_bg = colors ! 0\<rparr>"
  define space where "space = cell\<lparr>printable_char := 0x20\<rparr>"
  have bok: "buffer_ok t" and xw: "?x < ?w" and yh: "?y < ?h" using ok by (auto simp: tty_ok_def word_less_nat_alt)
  have span: "?y * ?w + ?w \<le> length (buffer t)" using row_span [OF yh, of ?w 0 ?w] bok by (simp add: buffer_ok_def)
  have w16: "?w < 65536" using unat_less [of "width t"] by simp
  have y1: "unat (y_cursor t + 1) = ?y + 1" using yh unat_less [of "height t"] by (subst unat_add_nowrap) simp_all
  have x1: "unat (x_cursor t + 1) = ?x + 1" using xw w16 by (subst unat_add_nowrap) simp_all
  obtain cs x y where m: "(if ?c = 0x0A then bind_oc (clear_rest space t) (\<lambda>t. Done (t\<lparr>x_cursor := 0, y_cursor := y_cursor t + 1\<rparr>))
       else if ?c = 0x0D then Done (t\<lparr>x_cursor := 0\<rparr>)
       else if ?c = 0x09 then clear_to_tab space (tab_target t) t
       else if ?c = 0x08 then Done (if 0 < x_cursor t then t\<lparr>x_cursor := x_cursor t - 1\<rparr>
              else if 0 < y_cursor t then t\<lparr>y_cursor := y_cursor t - 1\<rparr> else t)
       else bind_oc (put_cell (uint (y_cursor t) * uint (width t) + uint (x_cursor t)) cell t) (\<lambda>t. Done (t\<lparr>x_cursor := x_cursor t + 1\<rparr>)))
      = Done (t\<lparr>buffer := put_bytes (buffer t) (?y * ?w + ?x) cs, x_cursor := x, y_cursor := y\<rparr>)"
      "?x + length cs \<le> ?w" "unat x \<le> ?w" "unat y \<le> ?h" "unat y < ?h \<or> unat x < ?w"
      "(let c = ?c; stop = min ?w (8 * (?x div 8 + 1))
        in if c = 0x0A then (overwrite_row ?y ?x (replicate (?w - ?x) space) (rows t), 0, ?y + 1)
           else if c = 0x0D then (rows t, 0, ?y)
           else if c = 0x09 then (overwrite_row ?y ?x (replicate (stop - ?x) space) (rows t), stop, ?y)
           else if c = 0x08 then (rows t, ?x - 1, if 0 < ?x then ?y else ?y - 1)
           else (overwrite_row ?y ?x [cell] (rows t), ?x + 1, ?y)) = (overwrite_row ?y ?x cs (rows t), unat x, unat y)"
  proof -
    consider "?c = 0x0A" | "?c = 0x0D" | "?c = 0x09" | "?c = 0x08" | "?c \<notin> {0x0A, 0x0D, 0x09, 0x08}" by auto
    then show thesis
    proof cases
      case 1
      then show ?thesis
        using that [of "y_cursor t + 1" 0 "replicate (?w - ?x) space"] clear_cells [of ?x ?w t space] xw yh y1 span
        by (simp add: clear_rest_def)
    next
      case 2
      then show ?thesis using that [of "y_cursor t" 0 "[]"] xw yh by (simp add: put_bytes_def overwrite_nothing)
    next
      case 3
      note T = tab_target_nat [OF ok]
      have tw: "unat (tab_target t) \<le> ?w" using T(1) by simp
      then have "clear_to_tab space (tab_target t) t =
          Done (t\<lparr>buffer := put_bytes (buffer t) (?y * ?w + ?x) (replicate (unat (tab_target t) - ?x) space), x_cursor := tab_target t\<rparr>)"
        using clear_tab_cells [of ?x "unat (tab_target t)" t space] T(2) w16 span by (simp add: clear_to_tab_def)
      then show ?thesis
        using that [of "y_cursor t" "tab_target t" "replicate (unat (tab_target t) - ?x) space"] T 3 yh xw tw
        by (simp add: Let_def)
    next
      case 4
      have p: "t\<lparr>buffer := buffer t, x_cursor := x_cursor t - 1, y_cursor := y_cursor t\<rparr> = t\<lparr>x_cursor := x_cursor t - 1\<rparr>"
        "t\<lparr>buffer := buffer t, x_cursor := x_cursor t, y_cursor := y_cursor t - 1\<rparr> = t\<lparr>y_cursor := y_cursor t - 1\<rparr>"
        "t\<lparr>buffer := buffer t, x_cursor := x_cursor t, y_cursor := y_cursor t\<rparr> = t" by simp_all
      have d: "0 < x_cursor t \<Longrightarrow> unat (x_cursor t - 1) = ?x - 1" "0 < y_cursor t \<Longrightarrow> unat (y_cursor t - 1) = ?y - 1"
        by (subst unat_diff_nowrap, simp_all add: word_le_nat_alt word_less_nat_alt)+
      consider "0 < x_cursor t" | "x_cursor t = 0" "0 < y_cursor t" | "x_cursor t = 0" "y_cursor t = 0"
        by (metis word_gt_0)
      then show ?thesis
      proof cases
        case 1
        then show ?thesis using that [of "y_cursor t" "x_cursor t - 1" "[]"] 4 xw yh d p
          by (simp add: put_bytes_def overwrite_nothing word_less_nat_alt)
      next
        case 2
        then show ?thesis using that [of "y_cursor t - 1" "x_cursor t" "[]"] 4 xw yh d p
          by (simp add: put_bytes_def overwrite_nothing word_less_nat_alt)
      next
        case 3
        then show ?thesis using that [of "y_cursor t" "x_cursor t" "[]"] 4 xw yh p
          by (simp add: put_bytes_def overwrite_nothing)
      qed
    next
      case 5
      have "put_cell (uint (y_cursor t) * uint (width t) + uint (x_cursor t)) cell t =
          Done (t\<lparr>buffer := put_bytes (buffer t) (?y * ?w + ?x) [cell]\<rparr>)"
        unfolding uint_unat_eq [of "x_cursor t"] cell_int by (rule put_cell_at) (use span xw in simp)
      then show ?thesis using that [of "y_cursor t" "x_cursor t + 1" "[cell]"] 5 xw yh x1 by simp
    qed
  qed
  define t1 where "t1 = t\<lparr>buffer := put_bytes (buffer t) (?y * ?w + ?x) cs, x_cursor := x, y_cursor := y\<rparr>"
  have f: "width t1 = width t" "height t1 = height t" "x_cursor t1 = x" "y_cursor t1 = y" by (simp_all add: t1_def)
  note R = rows_put [OF bok yh m(2) refl]
  have b1: "buffer_ok t1" "rows t1 = overwrite_row ?y ?x cs (rows t)"
    using R by (simp_all add: t1_def buffer_ok_def rows_def)
  have S: "screen t1 = (overwrite_row ?y ?x cs (rows t), unat x, unat y)" by (simp add: screen_def f b1)
  have P: "tty_push colors t cell = (let t = wrap_cursor t1
        in if height t \<le> y_cursor t then bind_oc (scroll_buffer ?blank t) (\<lambda>t. Done (t\<lparr>y_cursor := height t - 1\<rparr>)) else Done t)"
    unfolding tty_push_def Let_def space_def [symmetric] m(1) by (simp add: t1_def)
  have "screen_put ?w ?h ?blank cell (screen t) = settle ?w ?h ?blank (screen t1)"
    unfolding S m(6) [symmetric] by (simp add: screen_put_def screen_def space_def Let_def)
  moreover obtain b' x' y' where "tty_push colors t cell = Done (t1\<lparr>buffer := b', x_cursor := x', y_cursor := y'\<rparr>)"
      "tty_ok (t1\<lparr>buffer := b', x_cursor := x', y_cursor := y'\<rparr>)"
      "screen (t1\<lparr>buffer := b', x_cursor := x', y_cursor := y'\<rparr>) = settle ?w ?h ?blank (screen t1)"
    using settle_tty [OF b1(1), of ?blank] m(3-5) unfolding P f by (auto simp: word_less_nat_alt)
  moreover have "t1\<lparr>buffer := b', x_cursor := x', y_cursor := y'\<rparr> = t\<lparr>buffer := b', x_cursor := x', y_cursor := y'\<rparr>"
    by (simp add: t1_def)
  ultimately show ?thesis
    by - (rule exI [of _ b'], rule exI [of _ x'], rule exI [of _ y'], simp only: simp_thms)
qed

definition demo_tty :: tty where
  "demo_tty = \<lparr>tty_id = 0, buffer = replicate 6 \<lparr>printable_char = 0x20, cell_fg = 7, cell_bg = 0\<rparr>, width = 3, height = 2,
     x_cursor = 2, y_cursor = 1, ldisc_mode = TTY_CANONICAL, echo = True, input_buf = replicate 256 0, input_head = 0,
     input_tail = 0, line_buffer = replicate 256 0, line_length = 0, line_cursor = 0, line_ready = False,
     input_esc_state = INPUT_STATE_NORMAL\<rparr>"

theorem tty_push_refines_screen_witness:
  "\<exists>b x y. tty_push (replicate 16 0) demo_tty \<lparr>printable_char = 0x41, cell_fg = 7, cell_bg = 0\<rparr> =
       Done (demo_tty\<lparr>buffer := b, x_cursor := x, y_cursor := y\<rparr>) \<and>
     tty_ok (demo_tty\<lparr>buffer := b, x_cursor := x, y_cursor := y\<rparr>)"
proof -
  have "tty_ok demo_tty" by (simp add: tty_ok_def buffer_ok_def demo_tty_def)
  from tty_push_refines_screen [OF this] show ?thesis by blast
qed

end
