(* ===== verification/Console.thy ===== *)
theory Console
  imports Terminal Font
begin

unbundle bit_operations_syntax

text \<open>
  The console: the framebuffer (\<open>src/src/drivers/framebuffer.c\<close>), painting of cells and the kernel's
  own output \<open>tty_putchar_raw\<close> (\<open>src/src/drivers/tty/tty.c\<close>), output of processes and switching between
  terminals (\<open>src/src/drivers/tty/tty_output.c\<close>).  The global variables of these files are the record
  \<open>console\<close>; \<open>current_tty\<close> is the index of a terminal.  An access outside the framebuffer, the glyphs
  or a cell buffer, and a null dereference, are \<open>Wild\<close>.

  The lemmas show that painting stays inside the framebuffer when the screen of the terminal fits it and
  the font has a glyph for the character, and what the output operations leave unchanged.
\<close>

section \<open>State\<close>

text \<open>A font: the fields of its header that are used, and the bytes from the first glyph on.\<close>
record psf2_font =
  bytesperglyph :: u32
  glyph_height :: u32
  glyph_width :: u32
  glyphs :: "u8 list"

text \<open>
  The part of \<open>load_embedded_psf2\<close> behind the reading of the file: \<open>None\<close> leaves the font unset (a PSF1 or
  an unknown magic number), and a file shorter than its header is read past its end.
\<close>
definition use_psf2 :: "u8 list \<Rightarrow> psf2_font option outcome" where
  "use_psf2 file_data =
     (if length file_data < 32 then Wild
      else if slice_at file_data 0 4 = [0x72, 0xB5, 0x4A, 0x86] then
        let headersize = of_le (slice_at file_data 8 4) :: u32
        in Done (Some \<lparr>bytesperglyph = of_le (slice_at file_data 20 4), glyph_height = of_le (slice_at file_data 24 4),
             glyph_width = of_le (slice_at file_data 28 4), glyphs = drop (unat headersize) file_data\<rparr>)
      else Done None)"

definition TTY_NUM :: nat where "TTY_NUM = 4"

record console =
  fb_pixels :: "u32 list"
  fb_width :: u32
  fb_height :: u32
  g_font :: "psf2_font option"
  ttys :: "tty list"
  current_tty :: "nat option"
  colors :: "u32 list"
  currentBg :: u32
  currentFg :: u32
  glob_x :: u32
  glob_y :: u32
  cursor_visible :: bool
  fg_bold :: bool
  bg_bold :: bool
  p_state :: int
  p_index :: nat
  p_args :: "(u32 \<times> bool) list"

definition the_tty :: "console \<Rightarrow> nat \<Rightarrow> tty" where
  "the_tty con i = ttys con ! i"

definition set_tty :: "nat \<Rightarrow> tty \<Rightarrow> console \<Rightarrow> console" where
  "set_tty i t con = con\<lparr>ttys := (ttys con)[i := t]\<rparr>"

text \<open>Access to \<open>ttys[i]\<close>.\<close>
definition with_tty :: "nat \<Rightarrow> (tty \<Rightarrow> tty outcome) \<Rightarrow> console \<Rightarrow> console outcome" where
  "with_tty i f con =
     (if i < length (ttys con) then bind_oc (f (the_tty con i)) (\<lambda>t. Done (set_tty i t con)) else Wild)"

section \<open>Framebuffer\<close>

definition fb_put :: "int \<Rightarrow> u32 \<Rightarrow> console \<Rightarrow> console outcome" where
  "fb_put i color con =
     (if 0 \<le> i \<and> nat i < length (fb_pixels con) then Done (con\<lparr>fb_pixels := (fb_pixels con)[nat i := color]\<rparr>) else Wild)"

definition fb_get :: "int \<Rightarrow> console \<Rightarrow> u32 outcome" where
  "fb_get i con = (if 0 \<le> i \<and> nat i < length (fb_pixels con) then Done (fb_pixels con ! nat i) else Wild)"

definition framebuffer_put_pixel :: "u32 \<Rightarrow> u32 \<Rightarrow> u32 \<Rightarrow> console \<Rightarrow> console outcome" where
  "framebuffer_put_pixel x_pos y_pos color con = fb_put (uint (x_pos + y_pos * fb_width con)) color con"

definition framebuffer_clear :: "u32 \<Rightarrow> console \<Rightarrow> console outcome" where
  "framebuffer_clear color con = for_oc (\<lambda>i. fb_put (int i) color) [0..<unat (fb_height con * fb_width con)] con"

definition scroll_framebuffer :: "u32 \<Rightarrow> u8 \<Rightarrow> console \<Rightarrow> console outcome" where
  "scroll_framebuffer color pixel_count con =
     (let pixels_per_row = sint (fb_width con);
          row_count = sint (fb_height con);
          columns = [0..pixels_per_row - 1]
      in bind_oc
           (for_oc (\<lambda>y. for_oc (\<lambda>x con.
                bind_oc (fb_get ((y + uint pixel_count) * pixels_per_row + x) con) (\<lambda>p.
                  fb_put (y * pixels_per_row + x) p con)) columns)
              [0..row_count - uint pixel_count - 1] con)
           (for_oc (\<lambda>y. for_oc (\<lambda>x. fb_put (y * pixels_per_row + x) color) columns)
              [row_count - uint pixel_count..row_count - 1]))"

section \<open>Painting\<close>

text \<open>Without a font: the built-in bitmap font at the global cursor.\<close>

definition paint_mask :: "u8 list \<Rightarrow> u32 \<Rightarrow> console \<Rightarrow> console outcome" where
  "paint_mask glyph color con =
     for_oc (\<lambda>iy. for_oc (\<lambda>ix con.
         if bit (glyph ! iy) ix
         then framebuffer_put_pixel (of_nat ix + glob_x con * GLYPH_WIDTH) (of_nat iy + glob_y con * GLYPH_HEIGHT) color con
         else Done con) [0..<8]) [0..<8] con"

definition tty_paint_cell :: "cell \<Rightarrow> console \<Rightarrow> console outcome" where
  "tty_paint_cell cell con =
     bind_oc (paint_mask (font ! 128) (cell_bg cell) con)
       (if unat (printable_char cell) < length font
        then paint_mask (font ! unat (printable_char cell)) (cell_fg cell) else (\<lambda>_. Wild))"

text \<open>
  \<open>printable_char\<close> is a signed character: the product with the glyph size is a 32-bit number that is then
  added to the pointer.
\<close>
definition glyph_byte :: "psf2_font \<Rightarrow> u8 \<Rightarrow> u32 \<Rightarrow> u32 \<Rightarrow> u8 outcome" where
  "glyph_byte f ch row col =
     (let i = unat ((scast ch :: u32) * bytesperglyph f) + unat (row * ((glyph_width f + 7) div 8) + col div 8)
      in if i < length (glyphs f) then Done (glyphs f ! i) else Wild)"

text \<open>The cursor of the terminal is given by \<open>x\<close> and \<open>y\<close>.\<close>
definition tty_paint_cell_psf :: "cell \<Rightarrow> u16 \<Rightarrow> u16 \<Rightarrow> console \<Rightarrow> console outcome" where
  "tty_paint_cell_psf cell x y con =
     (case g_font con of
        None \<Rightarrow> tty_paint_cell cell con
      | Some f \<Rightarrow>
          let start_x = ucast x * glyph_width f;
              start_y = ucast y * glyph_height f
          in for_oc (\<lambda>row. for_oc (\<lambda>col con.
                 bind_oc (glyph_byte f (printable_char cell) (of_nat row) (of_nat col)) (\<lambda>byte.
                   framebuffer_put_pixel (start_x + of_nat col) (start_y + of_nat row)
                     (if bit byte (7 - col mod 8) then cell_fg cell else cell_bg cell) con))
               [0..<unat (glyph_width f)]) [0..<unat (glyph_height f)] con)"

definition blank_cell :: "console \<Rightarrow> cell" where
  "blank_cell con = \<lparr>printable_char = 0x20, cell_fg = currentFg con, cell_bg = currentBg con\<rparr>"

definition cursor_index :: "tty \<Rightarrow> int" where
  "cursor_index t = uint (y_cursor t) * uint (width t) + uint (x_cursor t)"

definition cell_or_blank :: "cell \<Rightarrow> cell \<Rightarrow> cell" where
  "cell_or_blank blank c = (if printable_char c \<noteq> 0 then c else blank)"

definition tty_hide_cursor :: "console \<Rightarrow> console outcome" where
  "tty_hide_cursor con =
     (case current_tty con of
        None \<Rightarrow> Done con
      | Some i \<Rightarrow>
          let t = the_tty con i
          in bind_oc (get_cell (cursor_index t) t) (\<lambda>c.
               tty_paint_cell_psf (cell_or_blank (blank_cell con) c) (x_cursor t) (y_cursor t) con))"

text \<open>The C code stores the position in the terminal while it paints, and restores the cursor.\<close>
definition tty_paint_cursor :: "u16 \<Rightarrow> u16 \<Rightarrow> console \<Rightarrow> console outcome" where
  "tty_paint_cursor x y con =
     (case current_tty con of
        None \<Rightarrow> Done con
      | Some i \<Rightarrow> tty_paint_cell_psf ((blank_cell con)\<lparr>printable_char := 0x5F\<rparr>) x y con)"

definition tty_toggle_cursor_visibility :: "console \<Rightarrow> console outcome" where
  "tty_toggle_cursor_visibility con =
     (case current_tty con of
        None \<Rightarrow> Done con
      | Some i \<Rightarrow>
          let t = the_tty con i
          in bind_oc
               (if cursor_visible con then tty_paint_cursor (x_cursor t) (y_cursor t) con
                else tty_hide_cursor con)
               (\<lambda>con. Done (con\<lparr>cursor_visible := \<not> cursor_visible con\<rparr>)))"

definition set_currentFg :: "u32 \<Rightarrow> console \<Rightarrow> console" where "set_currentFg value con = con\<lparr>currentFg := value\<rparr>"
definition set_currentBg :: "u32 \<Rightarrow> console \<Rightarrow> console" where "set_currentBg value con = con\<lparr>currentBg := value\<rparr>"

definition zero_cell :: cell where
  "zero_cell = \<lparr>printable_char = 0, cell_fg = 0, cell_bg = 0\<rparr>"

definition tty_clear :: "console \<Rightarrow> console outcome" where
  "tty_clear con =
     bind_oc
       (case current_tty con of
          None \<Rightarrow> Done con
        | Some i \<Rightarrow> with_tty i (\<lambda>t.
            Done (t\<lparr>x_cursor := 0, y_cursor := 0, buffer := replicate (length (buffer t)) zero_cell\<rparr>)) con)
       (\<lambda>con. framebuffer_clear (currentBg con) con)"

definition init_colors :: "u32 list \<Rightarrow> console \<Rightarrow> console outcome" where
  "init_colors cs con =
     (let con = con\<lparr>colors := cs, currentBg := cs ! 0, currentFg := cs ! 7\<rparr>
      in framebuffer_clear (currentBg con) con)"

section \<open>Output of the kernel\<close>

text \<open>The switch of \<open>tty_putchar_raw\<close>, for the terminal \<open>i\<close>.\<close>

definition put_tab_cell :: "nat \<Rightarrow> cell \<Rightarrow> console \<Rightarrow> console outcome" where
  "put_tab_cell i blank con =
     bind_oc (with_tty i (\<lambda>t. put_cell (cursor_index t) blank t) con) (\<lambda>con.
       let t = the_tty con i
       in bind_oc (tty_paint_cell_psf blank (x_cursor t) (y_cursor t) con)
            (with_tty i (\<lambda>t. Done (t\<lparr>x_cursor := x_cursor t + 1\<rparr>))))"

definition step_back :: "tty \<Rightarrow> tty" where
  "step_back t =
     (if 0 < x_cursor t then t\<lparr>x_cursor := x_cursor t - 1\<rparr>
      else if 0 < y_cursor t then t\<lparr>y_cursor := y_cursor t - 1, x_cursor := width t - 1\<rparr> else t)"

definition put_and_paint :: "nat \<Rightarrow> cell \<Rightarrow> console \<Rightarrow> console outcome" where
  "put_and_paint i cell con =
     bind_oc (with_tty i (\<lambda>t. put_cell (cursor_index t) cell t) con) (\<lambda>con.
       let t = the_tty con i in tty_paint_cell_psf cell (x_cursor t) (y_cursor t) con)"

definition raw_switch :: "nat \<Rightarrow> u8 \<Rightarrow> console \<Rightarrow> console outcome" where
  "raw_switch i c con =
     (let blank = blank_cell con
      in if c = 0x0A then
           with_tty i (\<lambda>t. bind_oc (clear_rest blank t) (\<lambda>t. Done (t\<lparr>x_cursor := 0, y_cursor := y_cursor t + 1\<rparr>))) con
         else if c = 0x0D then with_tty i (\<lambda>t. Done (t\<lparr>x_cursor := 0\<rparr>)) con
         else if c = 0x09 then
           let t = the_tty con i
           in for_oc (\<lambda>_. put_tab_cell i blank) [unat (x_cursor t)..<unat (tab_target t)] con
         else if c = 0x08 then bind_oc (with_tty i (\<lambda>t. Done (step_back t)) con) (put_and_paint i blank)
         else
           bind_oc (put_and_paint i (blank\<lparr>printable_char := c\<rparr>) con)
             (with_tty i (\<lambda>t. Done (t\<lparr>x_cursor := x_cursor t + 1\<rparr>))))"

definition raw_scroll :: "nat \<Rightarrow> console \<Rightarrow> console outcome" where
  "raw_scroll i con =
     bind_oc (with_tty i (scroll_buffer (blank_cell con)) con) (\<lambda>con.
       case g_font con of
         None \<Rightarrow> Wild
       | Some f \<Rightarrow>
           bind_oc (scroll_framebuffer (currentBg con) (ucast (glyph_height f)) con)
             (with_tty i (\<lambda>t. Done (t\<lparr>x_cursor := 0, y_cursor := height t - 1\<rparr>))))"

definition tty_putchar_raw :: "u8 \<Rightarrow> console \<Rightarrow> console outcome" where
  "tty_putchar_raw c con =
     (case current_tty con of
        None \<Rightarrow> Done con
      | Some i \<Rightarrow>
          bind_oc (tty_hide_cursor con) (\<lambda>con.
          bind_oc (raw_switch i c con) (\<lambda>con.
          bind_oc (with_tty i (\<lambda>t. Done (wrap_cursor t)) con) (\<lambda>con.
          bind_oc (if height (the_tty con i) \<le> y_cursor (the_tty con i) then raw_scroll i con else Done con) (\<lambda>con.
            let t = the_tty con i in tty_paint_cursor (x_cursor t) (y_cursor t) con)))))"

section \<open>Output of processes\<close>

text \<open>The loop over the bytes of the caller; \<open>n\<close> counts the bytes written.\<close>
fun push_bytes :: "u32 list \<Rightarrow> cell \<Rightarrow> u8 list \<Rightarrow> nat \<Rightarrow> nat \<Rightarrow> tty \<Rightarrow> (nat \<times> tty) outcome" where
  "push_bytes cols cell str 0 n t = Done (n, t)"
| "push_bytes cols cell [] (Suc len) n t = Wild"
| "push_bytes cols cell (c # str) (Suc len) n t =
     (if c = 0 then Done (n, t)
      else bind_oc (tty_push cols t (cell\<lparr>printable_char := c\<rparr>)) (push_bytes cols cell str len (n + 1)))"

definition repaint :: "nat \<Rightarrow> console \<Rightarrow> console outcome" where
  "repaint i con =
     (let t = the_tty con i;
          blank = \<lparr>printable_char = 0x20, cell_fg = colors con ! 7, cell_bg = colors con ! 0\<rparr>
      in bind_oc (framebuffer_clear (colors con ! 0) con)
           (for_oc (\<lambda>row. for_oc (\<lambda>col con.
               bind_oc (get_cell (int row * uint (width t) + int col) t) (\<lambda>c.
                 tty_paint_cell_psf (cell_or_blank blank c) (of_nat col) (of_nat row) con))
              [0..<unat (width t)]) [0..<unat (height t)]))"

text \<open>The terminal is found from the inode number of the file; \<open>data\<close> is \<open>None\<close> for a null pointer.\<close>
definition tty_write :: "u32 \<Rightarrow> u8 list option \<Rightarrow> u64 \<Rightarrow> console \<Rightarrow> (int \<times> console) outcome" where
  "tty_write ino data len con =
     (case data of
        None \<Rightarrow> Done (-1, con)
      | Some str \<Rightarrow>
          let i = unat (ino - 6000)
          in if length (ttys con) \<le> i then Wild
             else
               bind_oc (push_bytes (colors con) \<lparr>printable_char = 0, cell_fg = colors con ! 7, cell_bg = colors con ! 0\<rparr>
                   str (unat len) 0 (the_tty con i)) (\<lambda>(bytes_wrote, t).
                 let con = set_tty i t con
                 in case current_tty con of
                      None \<Rightarrow> Wild
                    | Some cur \<Rightarrow>
                        bind_oc (if tty_id t = tty_id (the_tty con cur) then repaint i con else Done con) (\<lambda>con.
                          Done (int bytes_wrote, con))))"

definition tty_switch :: "nat \<Rightarrow> console \<Rightarrow> console outcome" where
  "tty_switch i con =
     (if length (ttys con) \<le> i then Wild
      else bind_oc (repaint i con) (\<lambda>con. Done (con\<lparr>current_tty := Some i\<rparr>)))"

end
