(* ===== verification/Hansi.thy ===== *)
theory Hansi
  imports Console
begin

unbundle bit_operations_syntax

text \<open>
  The escape sequences of the kernel's own output, \<open>src/src/drivers/tty/hansi_parser.c\<close>: the global
  parser object (its state, argument index and eight arguments, each a value with a flag \<open>empty\<close>) is part
  of \<open>console\<close>.  Values are 32-bit and wrap around; the argument array ends after eight entries, an access
  behind it is \<open>Wild\<close>.
\<close>

definition MAX_ARGS :: nat where "MAX_ARGS = 8"
definition HTERM_ESC :: int where "HTERM_ESC = 1"
definition HTERM_BRACKET :: int where "HTERM_BRACKET = 2"
definition HTERM_ARGS :: int where "HTERM_ARGS = 3"
definition HTERM_ENDARGS :: int where "HTERM_ENDARGS = 4"

definition isdigit :: "u8 \<Rightarrow> bool" where
  "isdigit c \<longleftrightarrow> 0x30 \<le> c \<and> c \<le> 0x39"

definition set_arg :: "u32 \<times> bool \<Rightarrow> console \<Rightarrow> console outcome" where
  "set_arg v con =
     (if p_index con < length (p_args con) then Done (con\<lparr>p_args := (p_args con)[p_index con := v]\<rparr>) else Wild)"

definition set_state :: "int \<Rightarrow> console \<Rightarrow> console" where
  "set_state s con = con\<lparr>p_state := s\<rparr>"

definition sgr_step :: "u32 \<times> bool \<Rightarrow> console \<Rightarrow> console" where
  "sgr_step arg con =
     (if snd arg \<or> fst arg = 0 then
        (set_currentBg (colors con ! 0) (set_currentFg (colors con ! 7) con))\<lparr>fg_bold := False, bg_bold := False\<rparr>
      else
        let attr = sint (fst arg)
        in if attr = 1 then con\<lparr>fg_bold := True\<rparr>
           else if attr = 21 then con\<lparr>bg_bold := True\<rparr>
           else if 30 \<le> attr \<and> attr \<le> 37 then
             set_currentFg (colors con ! nat (if fg_bold con then attr - 30 + 8 else attr - 30)) con
           else if 40 \<le> attr \<and> attr \<le> 47 then
             set_currentBg (colors con ! nat (if bg_bold con then attr - 40 + 8 else attr - 40)) con
           else con)"

definition hansi_handle_sgr :: "console \<Rightarrow> console outcome" where
  "hansi_handle_sgr con =
     for_oc (\<lambda>i con. if i < length (p_args con) then Done (sgr_step (p_args con ! i) con) else Wild) [0..<p_index con] con"

text \<open>Argument \<open>i\<close> as \<open>int\<close>, with a default and, for the cursor movements, at least 1.\<close>
definition arg_value :: "nat \<Rightarrow> int \<Rightarrow> console \<Rightarrow> int" where
  "arg_value i dflt con = (if snd (p_args con ! i) then dflt else sint (fst (p_args con ! i)))"

definition move_arg :: "nat \<Rightarrow> console \<Rightarrow> u16" where
  "move_arg i con = (let n = arg_value i 1 con in if n < 1 then 1 else of_int n)"

definition on_current :: "(tty \<Rightarrow> tty) \<Rightarrow> console \<Rightarrow> console outcome" where
  "on_current f con = (case current_tty con of None \<Rightarrow> Done con | Some i \<Rightarrow> with_tty i (\<lambda>t. Done (f t)) con)"

definition clamp_x :: "tty \<Rightarrow> tty" where
  "clamp_x t = (if width t \<le> x_cursor t then t\<lparr>x_cursor := width t - 1\<rparr> else t)"

definition clamp_y :: "tty \<Rightarrow> tty" where
  "clamp_y t = (if height t \<le> y_cursor t then t\<lparr>y_cursor := height t - 1\<rparr> else t)"

definition csi_final :: "u8 \<Rightarrow> console \<Rightarrow> console outcome" where
  "csi_final c con =
     (if c = 0x6D then hansi_handle_sgr con
      else if c = 0x41 then
        let n = move_arg 0 con
        in on_current (\<lambda>t. t\<lparr>y_cursor := if n \<le> y_cursor t then y_cursor t - n else 0\<rparr>) con
      else if c = 0x42 then
        let n = move_arg 0 con in on_current (\<lambda>t. clamp_y (t\<lparr>y_cursor := y_cursor t + n\<rparr>)) con
      else if c = 0x43 then
        let n = move_arg 0 con in on_current (\<lambda>t. clamp_x (t\<lparr>x_cursor := x_cursor t + n\<rparr>)) con
      else if c = 0x44 then
        let n = move_arg 0 con
        in on_current (\<lambda>t. t\<lparr>x_cursor := if n \<le> x_cursor t then x_cursor t - n else 0\<rparr>) con
      else if c = 0x48 \<or> c = 0x66 then
        let n = move_arg 0 con; m = move_arg 1 con
        in on_current (\<lambda>t. clamp_x (clamp_y (t\<lparr>y_cursor := n - 1, x_cursor := m - 1\<rparr>))) con
      else if c = 0x4A then (if arg_value 0 0 con = 2 then tty_clear con else Done con)
      else Done con)"

text \<open>The second \<open>if\<close> of the handler, for a character that ends an argument.\<close>
definition end_args :: "u8 \<Rightarrow> console \<Rightarrow> console outcome" where
  "end_args c con =
     (if c = 0x3B then Done (set_state HTERM_ARGS con)
      else bind_oc (csi_final c con) (\<lambda>con. Done (set_state HTERM_ESC con)))"

definition hansi_handler :: "u8 \<Rightarrow> console \<Rightarrow> console outcome" where
  "hansi_handler c con =
     bind_oc
       (if p_state con = HTERM_ESC then
          (if c = 0x1B then set_arg (0, True) (con\<lparr>p_state := HTERM_BRACKET, p_index := 0\<rparr>)
           else tty_putchar_raw c (set_state HTERM_ESC con))
        else if p_state con = HTERM_BRACKET then
          (if c = 0x5B then Done (set_state HTERM_ARGS con) else tty_putchar_raw c (set_state HTERM_ESC con))
        else if p_state con = HTERM_ARGS then
          (if isdigit c then
             (if p_index con < length (p_args con)
              then set_arg (fst (p_args con ! p_index con) * 10 + (ucast c - 0x30), False) con
              else Wild)
           else
             bind_oc (set_arg (0, True) (if p_index con < MAX_ARGS then con\<lparr>p_index := p_index con + 1\<rparr> else con)) (\<lambda>con.
               Done (set_state HTERM_ENDARGS con)))
        else Done con)
       (\<lambda>con. if p_state con = HTERM_ENDARGS then end_args c con else Done con)"

definition tty_putchar :: "u8 \<Rightarrow> console \<Rightarrow> console outcome" where
  "tty_putchar c con = hansi_handler c con"

end
