(* ===== verification/ConsoleOk.thy ===== *)
theory ConsoleOk
  imports Hansi
begin

unbundle bit_operations_syntax

text \<open>
  Safety of output: on a console whose terminals fit the framebuffer and whose font has the ASCII
  glyphs, printing an ASCII character by the kernel, or moving the cursor by an escape sequence, returns,
  never leaves the framebuffer, the glyphs or the cells, and changes only pixels, cells, cursors and
  the parser.
\<close>

section \<open>Outcomes that satisfy a predicate\<close>

definition ok_oc :: "'a outcome \<Rightarrow> ('a \<Rightarrow> bool) \<Rightarrow> bool" where
  "ok_oc m P \<longleftrightarrow> (\<exists>a. m = Done a \<and> P a)"

named_theorems ok_rules \<open>introduction rules for ok_oc\<close>

lemma ok_Done [ok_rules]: "P a \<Longrightarrow> ok_oc (Done a) P"
  by (simp add: ok_oc_def)

lemma ok_bind: "ok_oc m Q \<Longrightarrow> (\<And>a. Q a \<Longrightarrow> ok_oc (f a) P) \<Longrightarrow> ok_oc (bind_oc m f) P"
  by (auto simp: ok_oc_def)

lemma ok_mono: "ok_oc m Q \<Longrightarrow> (\<And>a. Q a \<Longrightarrow> P a) \<Longrightarrow> ok_oc m P"
  by (auto simp: ok_oc_def)

lemma ok_for: "(\<And>x s. x \<in> set xs \<Longrightarrow> I s \<Longrightarrow> ok_oc (f x s) I) \<Longrightarrow> I s \<Longrightarrow> ok_oc (for_oc f xs s) I"
proof (induction xs arbitrary: s)
  case Nil
  then show ?case by (simp add: ok_oc_def)
next
  case (Cons x xs)
  show ?case unfolding for_oc.simps
    by (rule ok_bind [OF Cons.prems(1) [OF _ Cons.prems(2)]]) (use Cons in auto)
qed

lemma for_oc_Nil: "for_oc f [] = Done"
  by (rule ext) simp

lemma ok_for_upt:
  assumes "\<And>k s. a \<le> k \<Longrightarrow> k < b \<Longrightarrow> I k s \<Longrightarrow> ok_oc (f k s) (I (Suc k))" "I a s" "a \<le> b"
  shows "ok_oc (for_oc f [a..<b] s) (I b)"
  using assms(3,1,2)
proof (induction b rule: dec_induct)
  case base
  then show ?case by (simp add: ok_oc_def)
next
  case (step b)
  have "ok_oc (for_oc f [a..<b] s) (I b)" by (rule step.IH) (use step in simp_all)
  then have "ok_oc (bind_oc (for_oc f [a..<b] s) (f b))  (I (Suc b))"
    by (rule ok_bind) (use step in simp_all)
  then show ?case using step(1) by (simp add: for_oc_append for_oc_Nil cong: bind_oc_cong)
qed

lemma ok_if [ok_rules]: "(b \<Longrightarrow> ok_oc m P) \<Longrightarrow> (\<not> b \<Longrightarrow> ok_oc n P) \<Longrightarrow> ok_oc (if b then m else n) P"
  by simp

section \<open>The invariant\<close>

definition font_ok :: "psf2_font \<Rightarrow> bool" where
  "font_ok f \<longleftrightarrow> 128 * unat (bytesperglyph f) \<le> length (glyphs f) \<and> length (glyphs f) < 2 ^ 31 \<and>
     unat (glyph_width f) < 2 ^ 31 \<and> unat (glyph_height f) * ((unat (glyph_width f) + 7) div 8) \<le> unat (bytesperglyph f)"

definition fb_ok :: "console \<Rightarrow> bool" where
  "fb_ok con \<longleftrightarrow> unat (fb_height con) * unat (fb_width con) \<le> length (fb_pixels con) \<and>
     unat (fb_height con) * unat (fb_width con) < 2 ^ 31 \<and> unat (fb_width con) < 2 ^ 31 \<and> unat (fb_height con) < 2 ^ 31"

definition ascii_cells :: "tty \<Rightarrow> bool" where
  "ascii_cells t \<longleftrightarrow> (\<forall>c \<in> set (buffer t). printable_char c < 128)"

definition tty_fits :: "console \<Rightarrow> psf2_font \<Rightarrow> tty \<Rightarrow> bool" where
  "tty_fits con f t \<longleftrightarrow> buffer_ok t \<and> ascii_cells t \<and>
     unat (width t) * unat (glyph_width f) \<le> unat (fb_width con) \<and>
     unat (height t) * unat (glyph_height f) \<le> unat (fb_height con)"

definition cursor_in :: "tty \<Rightarrow> bool" where
  "cursor_in t \<longleftrightarrow> x_cursor t < width t \<and> y_cursor t < height t"

text \<open>The part of the invariant that does not depend on the cursors, with the font and the current terminal.\<close>
definition console_base :: "psf2_font \<Rightarrow> nat \<Rightarrow> console \<Rightarrow> bool" where
  "console_base f i con \<longleftrightarrow> fb_ok con \<and> g_font con = Some f \<and> font_ok f \<and> (\<forall>t \<in> set (ttys con). tty_fits con f t) \<and>
     i < length (ttys con) \<and> current_tty con = Some i \<and> length (p_args con) = MAX_ARGS"

definition console_ok :: "console \<Rightarrow> bool" where
  "console_ok con \<longleftrightarrow> (\<exists>f i. console_base f i con) \<and> (\<forall>t \<in> set (ttys con). cursor_in t)"

text \<open>What output leaves as it is: everything but cells, cursors and pixels.\<close>
definition tty_input_part :: "tty \<Rightarrow> tty" where
  "tty_input_part t = t\<lparr>buffer := [], x_cursor := 0, y_cursor := 0\<rparr>"

definition console_fixed :: "console \<Rightarrow> console" where
  "console_fixed con = con\<lparr>fb_pixels := [], ttys := map tty_input_part (ttys con)\<rparr>"

definition output_only :: "console \<Rightarrow> console \<Rightarrow> bool" where
  "output_only con con' \<longleftrightarrow> console_fixed con' = console_fixed con \<and> length (fb_pixels con') = length (fb_pixels con)"

lemma output_refl [simp]: "output_only con con"
  by (simp add: output_only_def)

lemma output_trans: "output_only a b \<Longrightarrow> output_only b c \<Longrightarrow> output_only a c"
  by (simp add: output_only_def)

lemma input_partD:
  assumes "tty_input_part t' = tty_input_part t"
  shows "tty_id t' = tty_id t" "width t' = width t" "height t' = height t" "ldisc_mode t' = ldisc_mode t" "echo t' = echo t"
    "input_buf t' = input_buf t" "input_head t' = input_head t" "input_tail t' = input_tail t"
    "line_buffer t' = line_buffer t" "line_length t' = line_length t" "line_cursor t' = line_cursor t"
    "line_ready t' = line_ready t" "input_esc_state t' = input_esc_state t"
  using arg_cong [OF assms, of tty_id] arg_cong [OF assms, of width] arg_cong [OF assms, of height] arg_cong [OF assms, of ldisc_mode]
    arg_cong [OF assms, of echo] arg_cong [OF assms, of input_buf] arg_cong [OF assms, of input_head] arg_cong [OF assms, of input_tail]
    arg_cong [OF assms, of line_buffer] arg_cong [OF assms, of line_length] arg_cong [OF assms, of line_cursor]
    arg_cong [OF assms, of line_ready] arg_cong [OF assms, of input_esc_state]
  by (simp_all add: tty_input_part_def)

lemma output_onlyD:
  assumes "output_only con con'"
  shows "g_font con' = g_font con" "current_tty con' = current_tty con" "fb_width con' = fb_width con" "fb_height con' = fb_height con"
    "length (fb_pixels con') = length (fb_pixels con)" "map tty_input_part (ttys con') = map tty_input_part (ttys con)" "colors con' = colors con"
    "currentBg con' = currentBg con" "currentFg con' = currentFg con" "p_state con' = p_state con" "p_index con' = p_index con" "p_args con' = p_args con"
proof -
  have e: "console_fixed con' = console_fixed con" using assms by (simp add: output_only_def)
  show "g_font con' = g_font con" "current_tty con' = current_tty con" "fb_width con' = fb_width con" "fb_height con' = fb_height con"
    "map tty_input_part (ttys con') = map tty_input_part (ttys con)" "colors con' = colors con"
    "currentBg con' = currentBg con" "currentFg con' = currentFg con" "p_state con' = p_state con" "p_index con' = p_index con" "p_args con' = p_args con"
    using arg_cong [OF e, of p_state] arg_cong [OF e, of p_index] arg_cong [OF e, of p_args] arg_cong [OF e, of g_font] arg_cong [OF e, of current_tty] arg_cong [OF e, of fb_width] arg_cong [OF e, of fb_height]
      arg_cong [OF e, of ttys] arg_cong [OF e, of colors] arg_cong [OF e, of currentBg] arg_cong [OF e, of currentFg]
    by (simp_all add: console_fixed_def)
  show "length (fb_pixels con') = length (fb_pixels con)" using assms by (simp add: output_only_def)
qed

lemma output_tty:
  assumes "output_only con con'"
  shows "length (ttys con') = length (ttys con)"
    and "i < length (ttys con) \<Longrightarrow> tty_input_part (the_tty con' i) = tty_input_part (the_tty con i)"
proof -
  have m: "map tty_input_part (ttys con') = map tty_input_part (ttys con)" using output_onlyD(6) [OF assms] .
  show l: "length (ttys con') = length (ttys con)" using map_eq_imp_length_eq [OF m] .
  show "tty_input_part (the_tty con' i) = tty_input_part (the_tty con i)" if "i < length (ttys con)"
    using arg_cong [OF m, of "\<lambda>xs. xs ! i"] that l by (simp add: the_tty_def)
qed

text \<open>The two ways in which output changes the console.\<close>

lemma output_pixels: "length px = length (fb_pixels con) \<Longrightarrow> output_only con (con\<lparr>fb_pixels := px\<rparr>)"
  by (simp add: output_only_def console_fixed_def)

lemma output_set_tty:
  "i < length (ttys con) \<Longrightarrow> tty_input_part t = tty_input_part (the_tty con i) \<Longrightarrow> output_only con (set_tty i t con)"
  by (simp add: output_only_def console_fixed_def set_tty_def map_update list_update_same_conv the_tty_def)

lemma tty_fits_eq:
  "g_font con' = g_font con \<Longrightarrow> fb_width con' = fb_width con \<Longrightarrow> fb_height con' = fb_height con \<Longrightarrow> tty_fits con' f t = tty_fits con f t"
  by (simp add: tty_fits_def)

lemma console_base_pixels:
  "console_base f i con \<Longrightarrow> length px = length (fb_pixels con) \<Longrightarrow> console_base f i (con\<lparr>fb_pixels := px\<rparr>)"
  by (simp add: console_base_def fb_ok_def tty_fits_def)

section \<open>Painting\<close>

text \<open>What a sequence of paintings keeps.\<close>
definition painted :: "console \<Rightarrow> console \<Rightarrow> bool" where
  "painted con con' \<longleftrightarrow> con'\<lparr>fb_pixels := []\<rparr> = con\<lparr>fb_pixels := []\<rparr> \<and> length (fb_pixels con') = length (fb_pixels con)"

lemma painted_refl [simp]: "painted con con"
  by (simp add: painted_def)

lemma painted_trans: "painted a b \<Longrightarrow> painted b c \<Longrightarrow> painted a c"
  by (simp add: painted_def)

lemma painted_eq: "painted con con' \<Longrightarrow> con' = con\<lparr>fb_pixels := fb_pixels con'\<rparr> \<and> length (fb_pixels con') = length (fb_pixels con)"
proof -
  assume p: "painted con con'"
  then have "con'\<lparr>fb_pixels := []\<rparr>\<lparr>fb_pixels := fb_pixels con'\<rparr> = con\<lparr>fb_pixels := []\<rparr>\<lparr>fb_pixels := fb_pixels con'\<rparr>"
    by (simp only: painted_def)
  then show ?thesis using p by (simp add: painted_def)
qed

lemma painted_keeps:
  assumes "painted con con'"
  shows "output_only con con'" "console_base f i con \<Longrightarrow> console_base f i con'" "ttys con' = ttys con" "p_state con' = p_state con"
    "p_index con' = p_index con" "p_args con' = p_args con" "fb_ok con \<Longrightarrow> fb_ok con'"
proof -
  obtain px where px: "con' = con\<lparr>fb_pixels := px\<rparr>" "length px = length (fb_pixels con)" using painted_eq [OF assms] by blast
  show "output_only con con'" unfolding px(1) by (rule output_pixels) (rule px(2))
  show "console_base f i con \<Longrightarrow> console_base f i con'" unfolding px(1) by (erule console_base_pixels) (rule px(2))
  show "ttys con' = ttys con" "p_state con' = p_state con" "p_index con' = p_index con" "p_args con' = p_args con"
    unfolding px(1) by simp_all
  show "fb_ok con \<Longrightarrow> fb_ok con'" unfolding px(1) using px(2) by (simp add: fb_ok_def)
qed

lemma fb_put_painted: "0 \<le> i \<Longrightarrow> nat i < length (fb_pixels con) \<Longrightarrow> ok_oc (fb_put i c con) (painted con)"
  unfolding fb_put_def painted_def by (auto simp: ok_oc_def)

lemma pixel_in_frame:
  assumes "fb_ok con" "unat x < unat (fb_width con)" "unat y < unat (fb_height con)"
  shows "ok_oc (framebuffer_put_pixel x y c con) (painted con)"
proof -
  let ?w = "unat (fb_width con)"
  have i: "unat y * ?w + unat x < unat (fb_height con) * ?w" using row_index [OF assms(3,2)] .
  also have "\<dots> < 2 ^ 31" using assms(1) by (simp add: fb_ok_def)
  finally have b: "unat y * ?w + unat x < 2 ^ 31" .
  have "unat y * ?w < 2 ^ LENGTH(32)" using b by simp
  then have m: "unat (y * fb_width con) = unat y * ?w" by (rule unat_mult_nowrap)
  have "unat x + unat (y * fb_width con) < 2 ^ LENGTH(32)" using b unfolding m by simp
  then have u: "unat (x + y * fb_width con) = unat y * ?w + unat x" using m by (simp only: unat_add_nowrap add.commute)
  show ?thesis unfolding framebuffer_put_pixel_def
    by (rule fb_put_painted) (use u i assms(1) in \<open>simp_all add: fb_ok_def\<close>)
qed

lemma sint_ascii: "(c :: u8) < 128 \<Longrightarrow> sint c = uint c"
proof -
  assume c: "c < 128"
  have "sint c = signed_take_bit 7 (uint c)" by (simp add: sint_uint)
  moreover have "uint c < 128" using c by (simp add: word_less_def)
  then have "signed_take_bit 7 (uint c) = uint c" by (intro signed_take_bit_int_eq_self order_trans [OF _ unsigned_greater_eq]) simp_all
  ultimately show ?thesis by simp
qed

lemma scast_ascii: "(c :: u8) < 128 \<Longrightarrow> unat (scast c :: u32) = unat c"
proof -
  assume c: "c < 128"
  have "(scast c :: u32) = of_int (sint c)" by simp
  then have "(scast c :: u32) = ucast c" unfolding sint_ascii [OF c] by simp
  then show ?thesis by (simp add: unat_ucast_up)
qed

lemma glyph_byte_ok:
  assumes f: "font_ok f" and c: "c < 128" and r: "unat row < unat (glyph_height f)" and col: "unat col < unat (glyph_width f)"
  shows "ok_oc (glyph_byte f c row col) (\<lambda>_. True)"
proof -
  let ?b = "unat (bytesperglyph f)" and ?k = "(unat (glyph_width f) + 7) div 8"
  have F: "128 * ?b \<le> length (glyphs f)" "length (glyphs f) < 2 ^ 31" "unat (glyph_width f) < 2 ^ 31"
    "unat (glyph_height f) * ?k \<le> ?b" using f by (simp_all add: font_ok_def)
  have u: "unat c < 128" using c by (simp add: word_less_nat_alt)
  have o: "Suc (unat c) * ?b \<le> 128 * ?b" using u by (intro mult_le_mono1) simp
  have "unat c * ?b + ?b = Suc (unat c) * ?b" by simp
  then have cb: "unat c * ?b + ?b \<le> length (glyphs f)" using F(1) o by (simp only: order_trans)
  have "unat (scast c :: u32) * ?b < 2 ^ LENGTH(32)" using cb F(2) scast_ascii [OF c] by simp
  then have p1: "unat ((scast c :: u32) * bytesperglyph f) = unat c * ?b"
    using scast_ascii [OF c] by (simp only: unat_mult_nowrap)
  have "unat (glyph_width f + 7) = unat (glyph_width f) + 7" using F(3) by (subst unat_add_nowrap) simp_all
  then have k: "unat ((glyph_width f + 7) div 8) = ?k" by (simp add: unat_div)
  have c8: "unat (col div 8) = unat col div 8" by (simp add: unat_div)
  have "unat col div 8 < ?k" using col by (simp add: div_le_mono less_Suc_eq_le)
  then have rc: "unat row * ?k + unat col div 8 < unat (glyph_height f) * ?k" using row_index r by blast
  then have lim: "unat row * ?k + unat col div 8 < ?b" using F(4) by simp
  then have small: "unat row * ?k + unat col div 8 < 2 ^ 31" using cb F(2) by simp
  have "unat row * unat ((glyph_width f + 7) div 8) < 2 ^ LENGTH(32)" using small k by simp
  then have m: "unat (row * ((glyph_width f + 7) div 8)) = unat row * ?k" using k by (simp only: unat_mult_nowrap)
  have "unat (row * ((glyph_width f + 7) div 8)) + unat (col div 8) < 2 ^ LENGTH(32)" using small m c8 by simp
  then have p2: "unat (row * ((glyph_width f + 7) div 8) + col div 8) = unat row * ?k + unat col div 8"
    using m c8 by (simp only: unat_add_nowrap)
  have "unat c * ?b + (unat row * ?k + unat col div 8) < length (glyphs f)" using lim cb by simp
  then show ?thesis unfolding glyph_byte_def Let_def p1 p2 by (simp add: ok_oc_def)
qed

lemma scaled_position:
  fixes x :: u16 and g W :: u32
  assumes "unat x < n" "n * unat g \<le> unat W" "k < unat g" "unat W < 2 ^ 31"
  shows "unat (ucast x * g + of_nat k) = unat x * unat g + k" "unat x * unat g + k < unat W"
proof -
  have "unat x * unat g + k < n * unat g" using row_index [OF assms(1,3)] .
  then show lt: "unat x * unat g + k < unat W" using assms(2) by simp
  have ux: "unat (ucast x :: u32) = unat x" by (simp add: unat_ucast_up)
  have uk: "unat (of_nat k :: u32) = k" using assms(3) unat_less [of g] by (simp add: unat_of_nat)
  have "unat (ucast x :: u32) * unat g < 2 ^ LENGTH(32)" using lt assms(4) ux by simp
  then have m: "unat (ucast x * g) = unat x * unat g" using ux by (simp only: unat_mult_nowrap)
  have "unat (ucast x * g) + unat (of_nat k :: u32) < 2 ^ LENGTH(32)" using lt assms(4) m uk by simp
  then show "unat (ucast x * g + of_nat k) = unat x * unat g + k" using m uk by (simp only: unat_add_nowrap)
qed

lemma paint_ok:
  assumes con: "fb_ok con" "g_font con = Some f" "font_ok f" and c: "printable_char cell < 128"
    and x: "unat x < w" "w * unat (glyph_width f) \<le> unat (fb_width con)"
    and y: "unat y < h" "h * unat (glyph_height f) \<le> unat (fb_height con)"
  shows "ok_oc (tty_paint_cell_psf cell x y con) (painted con)"
proof -
  have lim: "unat (fb_width con) < 2 ^ 31" "unat (fb_height con) < 2 ^ 31" using con(1) by (simp_all add: fb_ok_def)
  have step: "ok_oc (bind_oc (glyph_byte f (printable_char cell) (of_nat row) (of_nat col)) (\<lambda>byte.
        framebuffer_put_pixel (ucast x * glyph_width f + of_nat col) (ucast y * glyph_height f + of_nat row) (g byte) con')) (painted con)"
    if k: "row < unat (glyph_height f)" "col < unat (glyph_width f)" and p: "painted con con'" for row col con' and g :: "u8 \<Rightarrow> u32"
  proof (rule ok_bind [OF glyph_byte_ok [OF con(3) c]])
    show "unat (of_nat row :: u32) < unat (glyph_height f)" "unat (of_nat col :: u32) < unat (glyph_width f)"
      using k unat_less [of "glyph_height f"] unat_less [of "glyph_width f"] by (simp_all add: unat_of_nat)
    fix byte
    have d: "fb_width con' = fb_width con" "fb_height con' = fb_height con" using output_onlyD(3,4) [OF painted_keeps(1) [OF p]] .
    have "ok_oc (framebuffer_put_pixel (ucast x * glyph_width f + of_nat col) (ucast y * glyph_height f + of_nat row) (g byte) con') (painted con')"
      by (rule pixel_in_frame)
        (use painted_keeps(7) [OF p con(1)] scaled_position [OF x k(2) lim(1)] scaled_position [OF y k(1) lim(2)] d in auto)
    then show "ok_oc (framebuffer_put_pixel (ucast x * glyph_width f + of_nat col) (ucast y * glyph_height f + of_nat row) (g byte) con') (painted con)"
      using painted_trans [OF p] by (rule ok_mono)
  qed
  show ?thesis unfolding tty_paint_cell_psf_def con(2) option.case Let_def
    by (rule ok_for, rule ok_for) (auto intro!: step)
qed

section \<open>The framebuffer as a whole\<close>

lemma fb_index:
  assumes "fb_ok con" "0 \<le> y" "y < uint (fb_height con)" "0 \<le> x" "x < uint (fb_width con)"
  shows "0 \<le> y * uint (fb_width con) + x" "nat (y * uint (fb_width con) + x) < length (fb_pixels con)"
proof -
  obtain y' x' where e: "y = int y'" "x = int x'" using assms(2,4) nonneg_int_cases by metis
  have "y' < unat (fb_height con)" "x' < unat (fb_width con)" using assms(3,5) unfolding e by (metis of_nat_less_iff uint_nat)+
  then have "y' * unat (fb_width con) + x' < length (fb_pixels con)"
    using row_index [of y' _ x'] assms(1) unfolding fb_ok_def by (meson order.strict_trans2)
  moreover have "y * uint (fb_width con) + x = int (y' * unat (fb_width con) + x')" unfolding e by simp
  ultimately show "0 \<le> y * uint (fb_width con) + x" "nat (y * uint (fb_width con) + x) < length (fb_pixels con)"
    by (simp_all only: nat_int of_nat_0_le_iff)
qed

lemma sint_small: "unat (w :: u32) < 2 ^ 31 \<Longrightarrow> sint w = uint w"
proof -
  assume "unat w < 2 ^ 31"
  then have "w < 0x80000000" by (simp add: word_less_nat_alt)
  then have u: "uint w < 2 ^ 31" by (simp add: word_less_def)
  have "sint w = signed_take_bit 31 (uint w)" by (simp add: sint_uint)
  also have "\<dots> = uint w" using u by (intro signed_take_bit_int_eq_self order_trans [OF _ unsigned_greater_eq]) simp_all
  finally show ?thesis .
qed

lemma fb_puts_painted:
  assumes "fb_ok con" "painted con con'" "0 \<le> y" "y < uint (fb_height con)" "0 \<le> x" "x < uint (fb_width con)"
  shows "ok_oc (fb_put (y * uint (fb_width con) + x) c con') (painted con)"
    and "ok_oc (fb_get (y * uint (fb_width con) + x) con') (\<lambda>_. True)"
proof -
  have l: "length (fb_pixels con') = length (fb_pixels con)" using painted_eq [OF assms(2)] by simp
  note ix = fb_index [OF assms(1,3-)]
  show "ok_oc (fb_put (y * uint (fb_width con) + x) c con') (painted con)"
    by (rule ok_mono [OF fb_put_painted painted_trans [OF assms(2)]]) (use ix l in simp_all)
  show "ok_oc (fb_get (y * uint (fb_width con) + x) con') (\<lambda>_. True)"
    using ix l by (simp add: fb_get_def ok_oc_def)
qed

lemma scroll_framebuffer_ok:
  assumes "fb_ok con" "unat n \<le> unat (fb_height con)"
  shows "ok_oc (scroll_framebuffer color n con) (painted con)"
proof -
  have s: "sint (fb_width con) = uint (fb_width con)" "sint (fb_height con) = uint (fb_height con)"
    using assms(1) by (simp_all add: fb_ok_def sint_small)
  have "int (unat n) \<le> int (unat (fb_height con))" using assms(2) by (simp only: of_nat_le_iff)
  then have n: "0 \<le> uint n" "uint n \<le> uint (fb_height con)" by simp_all
  have up: "x < uint (fb_height con)" if "x < uint (fb_height con) - uint n" for x using that n(1) by linarith
  have lo: "0 \<le> x" if "uint (fb_height con) - uint n \<le> x" for x using that n(2) by linarith
  have sum: "0 \<le> x + uint n \<and> x + uint n < uint (fb_height con)" if "0 \<le> x" "x < uint (fb_height con) - uint n" for x
    using that n by linarith
  let ?W = "uint (fb_width con)" and ?H = "uint (fb_height con)"
  have copy: "ok_oc (bind_oc (fb_get ((y + uint n) * ?W + x) con') (\<lambda>p. fb_put (y * ?W + x) p con')) (painted con)"
    if "y \<in> set [0..?H - uint n - 1]" "x \<in> set [0..?W - 1]" "painted con con'" for x y con'
  proof -
    have y: "0 \<le> y" "y < ?H - uint n" and x: "0 \<le> x" "x < ?W" using that(1,2) by simp_all
    show ?thesis
      by (rule ok_bind [OF fb_puts_painted(2) [OF assms(1) that(3) _ _ x]]) (use sum [OF y] fb_puts_painted(1) [OF assms(1) that(3) y(1) up [OF y(2)] x] in simp_all)
  qed
  have clear: "ok_oc (fb_put (y * ?W + x) color con') (painted con)"
    if "y \<in> set [?H - uint n..?H - 1]" "x \<in> set [0..?W - 1]" "painted con con'" for x y con'
    by (rule fb_puts_painted(1) [OF assms(1) that(3)]) (use that(1,2) lo in simp_all)
  show ?thesis unfolding scroll_framebuffer_def s Let_def
  proof (rule ok_bind)
    show "ok_oc (for_oc (\<lambda>y. for_oc (\<lambda>x con'. bind_oc (fb_get ((y + uint n) * ?W + x) con')
        (\<lambda>p. fb_put (y * ?W + x) p con')) [0..?W - 1]) [0..?H - uint n - 1] con) (painted con)"
      by (rule ok_for, rule ok_for, rule copy, assumption+) simp
    fix con' assume p: "painted con con'"
    show "ok_oc (for_oc (\<lambda>y. for_oc (\<lambda>x. fb_put (y * ?W + x) color) [0..?W - 1]) [?H - uint n..?H - 1] con') (painted con)"
      by (rule ok_for, rule ok_for, rule clear, assumption+) (rule p)
  qed
qed

lemma framebuffer_clear_ok:
  assumes "fb_ok con"
  shows "ok_oc (framebuffer_clear color con) (painted con)"
proof -
  have "unat (fb_height con) * unat (fb_width con) < 2 ^ LENGTH(32)" using assms by (simp add: fb_ok_def)
  then have u: "unat (fb_height con * fb_width con) = unat (fb_height con) * unat (fb_width con)" by (rule unat_mult_nowrap)
  show ?thesis unfolding framebuffer_clear_def u
  proof (rule ok_for)
    fix k s assume k: "k \<in> set [0..<unat (fb_height con) * unat (fb_width con)]" and p: "painted con s"
    then have "k < length (fb_pixels s)" using assms painted_eq [OF p] by (simp add: fb_ok_def)
    then show "ok_oc (fb_put (int k) color s) (painted con)"
      by (intro ok_mono [OF fb_put_painted painted_trans [OF p]]) simp_all
  qed simp
qed

section \<open>Cells of a terminal\<close>

definition tty_cells_ok :: "tty \<Rightarrow> bool" where
  "tty_cells_ok t \<longleftrightarrow> buffer_ok t \<and> ascii_cells t"

text \<open>\<open>t'\<close> differs from \<open>t\<close> in its cells only.\<close>
definition cells_only :: "tty \<Rightarrow> tty \<Rightarrow> bool" where
  "cells_only t t' \<longleftrightarrow> tty_input_part t' = tty_input_part t \<and> x_cursor t' = x_cursor t \<and> y_cursor t' = y_cursor t \<and> tty_cells_ok t'"

lemma tty_fits_cells: "tty_fits con f t \<longleftrightarrow> tty_cells_ok t \<and>
    unat (width t) * unat (glyph_width f) \<le> unat (fb_width con) \<and> unat (height t) * unat (glyph_height f) \<le> unat (fb_height con)"
  by (simp add: tty_fits_def tty_cells_ok_def conj_assoc)

lemma cells_only_buffer:
  "length b = length (buffer t) \<Longrightarrow> (\<And>c. c \<in> set b \<Longrightarrow> printable_char c < 128) \<Longrightarrow> buffer_ok t \<Longrightarrow> cells_only t (t\<lparr>buffer := b\<rparr>)"
  by (simp add: cells_only_def tty_input_part_def tty_cells_ok_def buffer_ok_def ascii_cells_def)

lemma set_put_bytes: "set (put_bytes bs off ws) \<subseteq> set bs \<union> set ws"
  by (auto simp: put_bytes_def dest: in_set_takeD in_set_dropD)

lemma ascii_put: "ascii_cells t \<Longrightarrow> (\<And>c. c \<in> set ws \<Longrightarrow> printable_char c < 128) \<Longrightarrow> c \<in> set (put_bytes (buffer t) off ws) \<Longrightarrow> printable_char c < 128"
  using set_put_bytes [of "buffer t" off ws] unfolding ascii_cells_def by blast

lemma cursor_in_nat: "cursor_in t \<longleftrightarrow> unat (x_cursor t) < unat (width t) \<and> unat (y_cursor t) < unat (height t)"
  by (simp add: cursor_in_def word_less_nat_alt)

lemma cursor_index_nat: "cursor_index t = int (unat (y_cursor t) * unat (width t) + unat (x_cursor t))"
  by (simp add: cursor_index_def)

lemma cursor_in_buffer:
  "buffer_ok t \<Longrightarrow> cursor_in t \<Longrightarrow> unat (y_cursor t) * unat (width t) + unat (x_cursor t) < length (buffer t)"
  using row_index unfolding cursor_in_nat buffer_ok_def by metis

lemma get_cell_ok: "tty_cells_ok t \<Longrightarrow> cursor_in t \<Longrightarrow> ok_oc (get_cell (cursor_index t) t) (\<lambda>c. printable_char c < 128)"
  using cursor_in_buffer [of t] unfolding get_cell_def cursor_index_nat
  by (simp add: tty_cells_ok_def ascii_cells_def ok_oc_def del: of_nat_add of_nat_mult)

lemma put_cell_ok:
  assumes "tty_cells_ok t" "cursor_in t" "printable_char c < 128"
  shows "ok_oc (put_cell (cursor_index t) c t) (cells_only t)"
proof -
  have l: "unat (y_cursor t) * unat (width t) + unat (x_cursor t) < length (buffer t)"
    using assms cursor_in_buffer by (simp add: tty_cells_ok_def)
  have b: "buffer_ok t" "ascii_cells t" using assms(1) by (simp_all add: tty_cells_ok_def)
  have a: "printable_char d < 128" if "d \<in> set (put_bytes (buffer t) (unat (y_cursor t) * unat (width t) + unat (x_cursor t)) [c])" for d
    by (rule ascii_put [OF b(2) _ that]) (use assms(3) in simp)
  show ?thesis unfolding cursor_index_nat put_cell_at [OF l]
    by (rule ok_Done, rule cells_only_buffer [OF _ a b(1)]) (use l in simp_all)
qed

lemma clear_rest_ok:
  assumes "tty_cells_ok t" "cursor_in t" "printable_char c < 128"
  shows "ok_oc (clear_rest c t) (cells_only t)"
proof -
  have b: "buffer_ok t" "ascii_cells t" using assms(1) by (simp_all add: tty_cells_ok_def)
  have l: "unat (y_cursor t) * unat (width t) + unat (width t) \<le> length (buffer t)"
    using assms(2) row_span [of "unat (y_cursor t)" "unat (height t)" 0 "unat (width t)"] b(1) by (simp add: cursor_in_nat buffer_ok_def)
  have x: "unat (x_cursor t) \<le> unat (width t)" using assms(2) by (simp add: cursor_in_nat)
  let ?b = "put_bytes (buffer t) (unat (y_cursor t) * unat (width t) + unat (x_cursor t)) (replicate (unat (width t) - unat (x_cursor t)) c)"
  have a: "printable_char d < 128" if "d \<in> set ?b" for d
    by (rule ascii_put [OF b(2) _ that]) (use assms(3) in auto)
  show ?thesis unfolding clear_rest_def clear_cells [OF x l]
    by (rule ok_Done, rule cells_only_buffer [OF _ a b(1)]) (use l x in simp_all)
qed

lemma ascii_rows: "buffer_ok t \<Longrightarrow> ascii_cells t \<longleftrightarrow> (\<forall>r \<in> set (rows t). \<forall>c \<in> set r. printable_char c < 128)"
proof
  assume ok: "buffer_ok t" and a: "ascii_cells t"
  show "\<forall>r \<in> set (rows t). \<forall>c \<in> set r. printable_char c < 128"
    using a by (auto simp: rows_def ascii_cells_def slice_at_def dest!: in_set_takeD in_set_dropD)
next
  assume ok: "buffer_ok t" and r: "\<forall>r \<in> set (rows t). \<forall>c \<in> set r. printable_char c < 128"
  let ?w = "unat (width t)"
  have "printable_char (buffer t ! k) < 128" if k: "k < length (buffer t)" for k
  proof -
    have y: "k div ?w < unat (height t)" and x: "k mod ?w < ?w"
      using k ok by (auto simp: buffer_ok_def less_mult_imp_div_less)
    have "rows t ! (k div ?w) ! (k mod ?w) = buffer t ! k" using row_nth [OF ok y x] by simp
    moreover have "rows t ! (k div ?w) \<in> set (rows t)" "rows t ! (k div ?w) ! (k mod ?w) \<in> set (rows t ! (k div ?w))"
      using x y ok by (simp_all add: length_row)
    ultimately show ?thesis using r by metis
  qed
  then show "ascii_cells t" by (auto simp: ascii_cells_def in_set_conv_nth)
qed

lemma scroll_buffer_ok:
  assumes "tty_cells_ok t" "printable_char c < 128"
  shows "ok_oc (scroll_buffer c t) (cells_only t)"
proof -
  have ok: "buffer_ok t" "ascii_cells t" using assms(1) by (simp_all add: tty_cells_ok_def)
  obtain b where b: "scroll_buffer c t = Done (t\<lparr>buffer := b\<rparr>)" "buffer_ok (t\<lparr>buffer := b\<rparr>)"
      "rows (t\<lparr>buffer := b\<rparr>) = tl (rows t) @ [replicate (unat (width t)) c]"
    using scroll_buffer_rows [OF ok(1)] by metis
  have "set (tl (rows t)) \<subseteq> set (rows t)" by (cases "rows t") auto
  then have "ascii_cells (t\<lparr>buffer := b\<rparr>)"
    using ok(2) assms(2) unfolding ascii_rows [OF b(2)] ascii_rows [OF ok(1)] b(3) by auto
  then show ?thesis using b(1,2) by (simp add: ok_oc_def cells_only_def tty_input_part_def tty_cells_ok_def)
qed

section \<open>Steps of the kernel output\<close>

text \<open>A console reached from \<open>con0\<close> by output, with \<open>P\<close> for the current terminal \<open>i\<close>.\<close>
definition out_state :: "console \<Rightarrow> psf2_font \<Rightarrow> nat \<Rightarrow> (tty \<Rightarrow> bool) \<Rightarrow> console \<Rightarrow> bool" where
  "out_state con0 f i P con \<longleftrightarrow> console_base f i con \<and> output_only con0 con \<and>
     (\<forall>j < length (ttys con). j \<noteq> i \<longrightarrow> cursor_in (the_tty con j)) \<and> P (the_tty con i)"

lemma out_state_mono: "out_state con0 f i P con \<Longrightarrow> (P (the_tty con i) \<Longrightarrow> Q (the_tty con i)) \<Longrightarrow> out_state con0 f i Q con"
  by (simp add: out_state_def)

lemma console_ok_out: "console_ok con \<Longrightarrow> \<exists>f i. out_state con f i cursor_in con"
  unfolding console_ok_def out_state_def the_tty_def console_base_def by (metis nth_mem output_refl)

lemma out_console_ok: "out_state con0 f i cursor_in con \<Longrightarrow> console_ok con \<and> output_only con0 con"
  unfolding console_ok_def out_state_def the_tty_def by (metis in_set_conv_nth)

lemma out_painted:
  assumes o: "out_state con0 f i P con" and m: "ok_oc m (painted con)"
  shows "ok_oc m (out_state con0 f i P)"
proof (rule ok_mono [OF m])
  fix con' assume p: "painted con con'"
  note k = painted_keeps [OF p]
  have "output_only con0 con'" using o k(1) output_trans unfolding out_state_def by blast
  then show "out_state con0 f i P con'" using o k(2,3) by (simp add: out_state_def the_tty_def)
qed

lemma out_stateD:
  assumes "out_state con0 f i P con"
  shows "fb_ok con" "g_font con = Some f" "font_ok f" "current_tty con = Some i" "i < length (ttys con)"
    "tty_cells_ok (the_tty con i)" "unat (width (the_tty con i)) * unat (glyph_width f) \<le> unat (fb_width con)"
    "unat (height (the_tty con i)) * unat (glyph_height f) \<le> unat (fb_height con)" "P (the_tty con i)"
  using assms nth_mem [of i "ttys con"] by (auto simp: out_state_def console_base_def tty_fits_cells the_tty_def)

lemma out_with:
  assumes o: "out_state con0 f i P con"
    and g: "ok_oc (g (the_tty con i)) (\<lambda>t'. tty_input_part t' = tty_input_part (the_tty con i) \<and> tty_cells_ok t' \<and> Q t')"
  shows "ok_oc (with_tty i g con) (out_state con0 f i Q)"
proof -
  let ?t = "the_tty con i"
  note D = out_stateD [OF o]
  obtain t' where t': "g ?t = Done t'" "tty_input_part t' = tty_input_part ?t" "tty_cells_ok t'" "Q t'"
    using g by (auto simp: ok_oc_def)
  have i: "i < length (ttys con)" using D(5) .
  have wh: "width t' = width ?t" "height t' = height ?t" using input_partD [OF t'(2)] by simp_all
  have fits: "tty_fits (set_tty i t' con) f t'" using D(7,8) t'(3) wh by (simp add: tty_fits_cells set_tty_def)
  have "console_base f i (set_tty i t' con)"
    using o fits i by (auto simp: out_state_def console_base_def set_tty_def fb_ok_def tty_fits_cells dest!: set_update_subset_insert [THEN subsetD])
  moreover have "output_only con0 (set_tty i t' con)"
    using o output_set_tty [OF i t'(2)] output_trans unfolding out_state_def by blast
  moreover have "the_tty (set_tty i t' con) j = (if j = i then t' else the_tty con j)" for j
    using i by (simp add: the_tty_def set_tty_def)
  ultimately have "out_state con0 f i Q (set_tty i t' con)"
    using o t'(4) i by (simp add: out_state_def set_tty_def)
  then show ?thesis using i t'(1) by (simp add: with_tty_def ok_oc_def)
qed

lemma out_with_cells:
  assumes o: "out_state con0 f i P con" and g: "ok_oc (g (the_tty con i)) (cells_only (the_tty con i))"
    and P: "\<And>t'. cells_only (the_tty con i) t' \<Longrightarrow> Q t'"
  shows "ok_oc (with_tty i g con) (out_state con0 f i Q)"
  by (rule out_with [OF o], rule ok_mono [OF g]) (use P in \<open>auto simp: cells_only_def\<close>)

lemma cells_only_dims:
  "cells_only t t' \<Longrightarrow> width t' = width t \<and> height t' = height t \<and> x_cursor t' = x_cursor t \<and> y_cursor t' = y_cursor t"
  using input_partD(2,3) [of t' t] by (simp add: cells_only_def)

lemma cells_only_cursor: "cells_only t t' \<Longrightarrow> cursor_in t \<Longrightarrow> cursor_in t'"
  using input_partD(2,3) [of t' t] by (simp add: cells_only_def cursor_in_def)

lemma out_paint:
  assumes o: "out_state con0 f i P con" and c: "printable_char cell < 128"
    and xy: "unat x < unat (width (the_tty con i))" "unat y < unat (height (the_tty con i))"
  shows "ok_oc (tty_paint_cell_psf cell x y con) (out_state con0 f i P)"
  using out_stateD(1-3,7,8) [OF o] by (intro out_painted [OF o] paint_ok [OF _ _ _ c xy(1) _ xy(2)])

lemma blank_ascii [simp]: "printable_char (blank_cell con) < 128"
  by (simp add: blank_cell_def)

lemma hide_cursor_ok:
  assumes o: "out_state con0 f i cursor_in con"
  shows "ok_oc (tty_hide_cursor con) (out_state con0 f i cursor_in)"
proof -
  note D = out_stateD [OF o]
  show ?thesis unfolding tty_hide_cursor_def D(4) option.case Let_def
    by (rule ok_bind [OF get_cell_ok [OF D(6,9)]], rule out_paint [OF o])
      (use D(9) in \<open>simp_all add: cell_or_blank_def cursor_in_nat\<close>)
qed

lemma paint_cursor_ok:
  assumes o: "out_state con0 f i cursor_in con"
  shows "ok_oc (tty_paint_cursor (x_cursor (the_tty con i)) (y_cursor (the_tty con i)) con) (out_state con0 f i cursor_in)"
  unfolding tty_paint_cursor_def out_stateD(4) [OF o] option.case
  by (rule out_paint [OF o]) (use out_stateD(9) [OF o] in \<open>simp_all add: cursor_in_nat\<close>)

text \<open>The cursor behind the switch: at most one step outside the screen.\<close>
definition cursor_edge :: "tty \<Rightarrow> bool" where
  "cursor_edge t \<longleftrightarrow> unat (x_cursor t) \<le> unat (width t) \<and> unat (y_cursor t) \<le> unat (height t) \<and>
     (unat (x_cursor t) < unat (width t) \<or> unat (y_cursor t) < unat (height t))"

lemma put_and_paint_ok:
  assumes o: "out_state con0 f i cursor_in con" and c: "printable_char cell < 128"
  shows "ok_oc (put_and_paint i cell con) (out_state con0 f i cursor_in)"
  unfolding put_and_paint_def Let_def
proof (rule ok_bind)
  note D = out_stateD [OF o]
  show "ok_oc (with_tty i (\<lambda>t. put_cell (cursor_index t) cell t) con) (out_state con0 f i cursor_in)"
    by (rule out_with_cells [OF o], rule put_cell_ok [OF D(6,9) c]) (use cells_only_cursor D(9) in blast)
  fix con' assume o': "out_state con0 f i cursor_in con'"
  show "ok_oc (tty_paint_cell_psf cell (x_cursor (the_tty con' i)) (y_cursor (the_tty con' i)) con') (out_state con0 f i cursor_in)"
    by (rule out_paint [OF o' c]) (use out_stateD(9) [OF o'] in \<open>simp_all add: cursor_in_nat\<close>)
qed

lemma inc_cursor: "unat (v :: u16) < unat (n :: u16) \<Longrightarrow> unat (v + 1) = unat v + 1"
  using unat_less [of n] by (subst unat_add_nowrap) simp_all

lemma tab_ok:
  assumes o: "out_state con0 f i cursor_in con"
  shows "ok_oc (for_oc (\<lambda>_. put_tab_cell i (blank_cell con)) [unat (x_cursor (the_tty con i))..<unat (tab_target (the_tty con i))] con)
    (out_state con0 f i cursor_edge)"
proof -
  let ?t = "the_tty con i"
  define I where "I = (\<lambda>k. out_state con0 f i (\<lambda>t. unat (x_cursor t) = k \<and> y_cursor t = y_cursor ?t \<and> width t = width ?t \<and> height t = height ?t))"
  note D = out_stateD [OF o]
  have tok: "tty_ok ?t" using D(6,9) by (simp add: tty_ok_def tty_cells_ok_def cursor_in_def)
  note T = tab_target_nat [OF tok]
  have tw: "unat (tab_target ?t) \<le> unat (width ?t)" using T(1) by simp
  have y: "unat (y_cursor ?t) < unat (height ?t)" using D(9) by (simp add: cursor_in_nat)
  have "ok_oc (for_oc (\<lambda>_. put_tab_cell i (blank_cell con)) [unat (x_cursor ?t)..<unat (tab_target ?t)] con) (I (unat (tab_target ?t)))"
  proof (rule ok_for_upt)
    fix k c assume k: "unat (x_cursor ?t) \<le> k" "k < unat (tab_target ?t)" and I: "I k c"
    note D' = out_stateD [OF I [unfolded I_def]]
    have cin: "cursor_in (the_tty c i)" using D'(9) k(2) tw y by (simp add: cursor_in_nat)
    show "ok_oc (put_tab_cell i (blank_cell con) c) (I (Suc k))" unfolding put_tab_cell_def Let_def
    proof (rule ok_bind)
      show "ok_oc (with_tty i (\<lambda>t. put_cell (cursor_index t) (blank_cell con) t) c) (I k)" unfolding I_def
        by (rule out_with_cells [OF I [unfolded I_def]], rule put_cell_ok [OF D'(6) cin blank_ascii])
          (use D'(9) in \<open>auto dest: cells_only_dims\<close>)
      fix c' assume I': "I k c'"
      note E = out_stateD [OF I' [unfolded I_def]]
      have xy: "unat (x_cursor (the_tty c' i)) < unat (width (the_tty c' i))" "unat (y_cursor (the_tty c' i)) < unat (height (the_tty c' i))"
        using E(9) k(2) tw y by simp_all
      show "ok_oc (bind_oc (tty_paint_cell_psf (blank_cell con) (x_cursor (the_tty c' i)) (y_cursor (the_tty c' i)) c')
          (with_tty i (\<lambda>t. Done (t\<lparr>x_cursor := x_cursor t + 1\<rparr>)))) (I (Suc k))"
      proof (rule ok_bind [OF out_paint [OF I' [unfolded I_def] blank_ascii xy]])
        fix c2 assume I2: "out_state con0 f i (\<lambda>t. unat (x_cursor t) = k \<and> y_cursor t = y_cursor ?t \<and> width t = width ?t \<and> height t = height ?t) c2"
        note G = out_stateD [OF I2]
        have "unat (x_cursor (the_tty c2 i) + 1) = Suc k" using inc_cursor [of _ "width ?t"] G(9) k(2) tw by simp
        then show "ok_oc (with_tty i (\<lambda>t. Done (t\<lparr>x_cursor := x_cursor t + 1\<rparr>)) c2) (I (Suc k))" unfolding I_def
          by (intro out_with [OF I2]) (use G(6,9) in \<open>simp add: ok_oc_def tty_input_part_def tty_cells_ok_def buffer_ok_def ascii_cells_def\<close>)
      qed
    qed
  qed (use o T(2) in \<open>auto simp: I_def elim: out_state_mono\<close>)
  then show ?thesis
    by (rule ok_mono) (use y tw in \<open>auto simp: I_def cursor_edge_def elim!: out_state_mono\<close>)
qed

lemma edge_intro: "tty_input_part t' = tty_input_part t \<Longrightarrow> buffer t' = buffer t \<Longrightarrow> tty_cells_ok t \<Longrightarrow> tty_cells_ok t'"
  using input_partD(2,3) [of t' t] by (simp add: tty_cells_ok_def buffer_ok_def ascii_cells_def)

lemma move_cursor_ok:
  assumes o: "out_state con0 f i P con" and m: "g (the_tty con i) = (the_tty con i)\<lparr>x_cursor := x, y_cursor := y\<rparr>"
    and Q: "Q ((the_tty con i)\<lparr>x_cursor := x, y_cursor := y\<rparr>)"
  shows "ok_oc (with_tty i (\<lambda>t. Done (g t)) con) (out_state con0 f i Q)"
  by (rule out_with [OF o], unfold m, rule ok_Done)
    (use Q out_stateD(6) [OF o] in \<open>simp add: tty_input_part_def tty_cells_ok_def buffer_ok_def ascii_cells_def\<close>)

lemma raw_switch_ok:
  assumes o: "out_state con0 f i cursor_in con" and c: "c < 128"
  shows "ok_oc (raw_switch i c con) (out_state con0 f i cursor_edge)"
proof -
  let ?t = "the_tty con i"
  note D = out_stateD [OF o]
  have xy: "unat (x_cursor ?t) < unat (width ?t)" "unat (y_cursor ?t) < unat (height ?t)" using D(9) by (simp_all add: cursor_in_nat)
  consider "c = 0x0A" | "c = 0x0D" | "c = 0x09" | "c = 0x08" | "c \<noteq> 0x0A" "c \<noteq> 0x0D" "c \<noteq> 0x09" "c \<noteq> 0x08" by blast
  then show ?thesis
  proof cases
    case 1
    have "ok_oc (with_tty i (\<lambda>t. bind_oc (clear_rest (blank_cell con) t) (\<lambda>t. Done (t\<lparr>x_cursor := 0, y_cursor := y_cursor t + 1\<rparr>))) con)
        (out_state con0 f i cursor_edge)"
    proof (rule out_with [OF o], rule ok_bind [OF clear_rest_ok [OF D(6,9) blank_ascii]], rule ok_Done)
      fix t' assume t': "cells_only ?t t'"
      have "cursor_in t'" using cells_only_cursor [OF t' D(9)] .
      then show "tty_input_part (t'\<lparr>x_cursor := 0, y_cursor := y_cursor t' + 1\<rparr>) = tty_input_part ?t \<and>
          tty_cells_ok (t'\<lparr>x_cursor := 0, y_cursor := y_cursor t' + 1\<rparr>) \<and> cursor_edge (t'\<lparr>x_cursor := 0, y_cursor := y_cursor t' + 1\<rparr>)"
        using t' inc_cursor [of "y_cursor t'" "height t'"]
        by (simp add: cells_only_def tty_input_part_def tty_cells_ok_def buffer_ok_def ascii_cells_def cursor_edge_def cursor_in_nat)
    qed
    then show ?thesis using 1 by (simp add: raw_switch_def)
  next
    case 2
    have "ok_oc (with_tty i (\<lambda>t. Done (t\<lparr>x_cursor := 0\<rparr>)) con) (out_state con0 f i cursor_edge)"
      by (rule move_cursor_ok [OF o, where x = 0 and y = "y_cursor ?t"]) (use xy in \<open>simp_all add: cursor_edge_def\<close>)
    then show ?thesis using 2 by (simp add: raw_switch_def)
  next
    case 3
    then show ?thesis using tab_ok [OF o] by (simp add: raw_switch_def Let_def)
  next
    case 4
    have bk: "ok_oc (with_tty i (\<lambda>t. Done (step_back t)) con) (out_state con0 f i cursor_in)"
    proof -
      have d: "0 < v \<Longrightarrow> unat (v - 1) < unat v" for v :: u16
        by (subst unat_diff_nowrap) (simp_all add: word_le_nat_alt word_less_nat_alt)
      have w: "0 < width ?t" using xy(1) by (simp add: word_less_nat_alt)
      consider "0 < x_cursor ?t" | "x_cursor ?t = 0" "0 < y_cursor ?t" | "x_cursor ?t = 0" "y_cursor ?t = 0" by (metis word_gt_0)
      then show ?thesis
      proof cases
        case 1
        show ?thesis
          by (rule move_cursor_ok [OF o, where x = "x_cursor ?t - 1" and y = "y_cursor ?t"])
            (use 1 xy d [OF 1] in \<open>simp_all add: step_back_def cursor_in_nat\<close>)
      next
        case 2
        show ?thesis
          by (rule move_cursor_ok [OF o, where x = "width ?t - 1" and y = "y_cursor ?t - 1"])
            (use 2 xy d [OF 2(2)] d [OF w] in \<open>simp_all add: step_back_def cursor_in_nat\<close>)
      next
        case 3
        show ?thesis
          by (rule move_cursor_ok [OF o, where x = "x_cursor ?t" and y = "y_cursor ?t"])
            (use 3 xy in \<open>simp_all add: step_back_def cursor_in_nat\<close>)
      qed
    qed
    have "ok_oc (bind_oc (with_tty i (\<lambda>t. Done (step_back t)) con) (put_and_paint i (blank_cell con))) (out_state con0 f i cursor_edge)"
      by (rule ok_bind [OF bk], rule ok_mono, erule put_and_paint_ok)
        (simp_all, auto elim!: out_state_mono simp: cursor_edge_def cursor_in_nat)
    then show ?thesis using 4 by (simp add: raw_switch_def)
  next
    case 5
    let ?cell = "(blank_cell con)\<lparr>printable_char := c\<rparr>"
    have "ok_oc (bind_oc (put_and_paint i ?cell con) (with_tty i (\<lambda>t. Done (t\<lparr>x_cursor := x_cursor t + 1\<rparr>)))) (out_state con0 f i cursor_edge)"
    proof (rule ok_bind [OF put_and_paint_ok [OF o]])
      show "printable_char ?cell < 128" using c by simp
      fix con' assume o': "out_state con0 f i cursor_in con'"
      have "unat (x_cursor (the_tty con' i)) < unat (width (the_tty con' i))" "unat (y_cursor (the_tty con' i)) < unat (height (the_tty con' i))"
        using out_stateD(9) [OF o'] by (simp_all add: cursor_in_nat)
      then show "ok_oc (with_tty i (\<lambda>t. Done (t\<lparr>x_cursor := x_cursor t + 1\<rparr>)) con') (out_state con0 f i cursor_edge)"
        by (intro move_cursor_ok [OF o', where x = "x_cursor (the_tty con' i) + 1" and y = "y_cursor (the_tty con' i)"])
          (simp_all add: cursor_edge_def inc_cursor [of _ "width (the_tty con' i)"])
    qed
    then show ?thesis using 5 by (simp add: raw_switch_def Let_def)
  qed
qed

definition cursor_below :: "tty \<Rightarrow> bool" where
  "cursor_below t \<longleftrightarrow> unat (x_cursor t) < unat (width t) \<and> unat (y_cursor t) \<le> unat (height t)"

lemma wrap_ok:
  assumes o: "out_state con0 f i cursor_edge con"
  shows "ok_oc (with_tty i (\<lambda>t. Done (wrap_cursor t)) con) (out_state con0 f i cursor_below)"
proof -
  let ?t = "the_tty con i"
  note D = out_stateD [OF o]
  have w: "0 < unat (width ?t)" using D(6) by (simp add: tty_cells_ok_def buffer_ok_def)
  show ?thesis
  proof (cases "width ?t \<le> x_cursor ?t")
    case True
    then have "unat (y_cursor ?t) < unat (height ?t)" using D(9) by (auto simp: cursor_edge_def word_le_nat_alt)
    from inc_cursor [OF this] have "unat (y_cursor ?t + 1) \<le> unat (height ?t)" using \<open>unat (y_cursor ?t) < unat (height ?t)\<close> by simp
    then show ?thesis
      by (intro move_cursor_ok [OF o, where x = 0 and y = "y_cursor ?t + 1"]) (use True w in \<open>simp_all add: wrap_cursor_def cursor_below_def\<close>)
  next
    case False
    then show ?thesis
      by (intro move_cursor_ok [OF o, where x = "x_cursor ?t" and y = "y_cursor ?t"])
        (use D(9) in \<open>simp_all add: wrap_cursor_def cursor_below_def cursor_edge_def word_le_nat_alt\<close>)
  qed
qed

lemma raw_scroll_ok:
  assumes o: "out_state con0 f i cursor_below con"
  shows "ok_oc (raw_scroll i con) (out_state con0 f i cursor_in)"
  unfolding raw_scroll_def
proof (rule ok_bind)
  note D = out_stateD [OF o]
  have pos: "0 < unat (width (the_tty con i))" "0 < unat (height (the_tty con i))" using D(6) by (simp_all add: tty_cells_ok_def buffer_ok_def)
  let ?Q = "\<lambda>t. width t = width (the_tty con i) \<and> height t = height (the_tty con i)"
  show "ok_oc (with_tty i (scroll_buffer (blank_cell con)) con) (out_state con0 f i ?Q)"
    by (rule out_with_cells [OF o], rule scroll_buffer_ok [OF D(6) blank_ascii]) (auto dest: cells_only_dims)
  fix c assume c: "out_state con0 f i ?Q c"
  note E = out_stateD [OF c]
  have "unat (glyph_height f) \<le> unat (height (the_tty con i)) * unat (glyph_height f)" using pos(2) by simp
  moreover have "unat (height (the_tty con i)) * unat (glyph_height f) \<le> unat (fb_height c)" using E(8,9) by simp
  ultimately have gh: "unat (glyph_height f) \<le> unat (fb_height c)" by (rule le_trans)
  have "unat (ucast (glyph_height f) :: u8) \<le> unat (glyph_height f)" by (simp add: unat_ucast_mod mod_less_eq_dividend)
  then have fr: "ok_oc (scroll_framebuffer (currentBg c) (ucast (glyph_height f)) c) (out_state con0 f i ?Q)"
    using gh by (intro out_painted [OF c] scroll_framebuffer_ok [OF E(1)]) simp
  show "ok_oc (case g_font c of None \<Rightarrow> Wild | Some f \<Rightarrow> bind_oc (scroll_framebuffer (currentBg c) (ucast (glyph_height f)) c)
      (with_tty i (\<lambda>t. Done (t\<lparr>x_cursor := 0, y_cursor := height t - 1\<rparr>)))) (out_state con0 f i cursor_in)"
    unfolding E(2) option.case
  proof (rule ok_bind [OF fr])
    fix c' assume c': "out_state con0 f i ?Q c'"
    have wh: "width (the_tty c' i) = width (the_tty con i)" "height (the_tty c' i) = height (the_tty con i)" using out_stateD(9) [OF c'] by simp_all
    have "0 < height (the_tty con i)" using pos by (simp add: word_less_nat_alt)
    then have "unat (height (the_tty con i) - 1) < unat (height (the_tty con i))"
      by (subst unat_diff_nowrap) (simp_all add: word_le_nat_alt word_less_nat_alt)
    then show "ok_oc (with_tty i (\<lambda>t. Done (t\<lparr>x_cursor := 0, y_cursor := height t - 1\<rparr>)) c') (out_state con0 f i cursor_in)"
      using wh pos by (intro move_cursor_ok [OF c', where x = 0 and y = "height (the_tty c' i) - 1"]) (simp_all add: cursor_in_nat)
  qed
qed

lemma putchar_raw_out:
  assumes o: "out_state con0 f i cursor_in con" and c: "c < 128"
  shows "ok_oc (tty_putchar_raw c con) (out_state con0 f i cursor_in)"
  unfolding tty_putchar_raw_def out_stateD(4) [OF o] option.case
proof (rule ok_bind [OF hide_cursor_ok [OF o]], rule ok_bind [OF raw_switch_ok [OF _ c]], assumption, rule ok_bind [OF wrap_ok], assumption)
  fix c1 assume b: "out_state con0 f i cursor_below c1"
  show "ok_oc (bind_oc (if height (the_tty c1 i) \<le> y_cursor (the_tty c1 i) then raw_scroll i c1 else Done c1)
      (\<lambda>con. let t = the_tty con i in tty_paint_cursor (x_cursor t) (y_cursor t) con)) (out_state con0 f i cursor_in)"
    unfolding Let_def
  proof (rule ok_bind)
    show "ok_oc (if height (the_tty c1 i) \<le> y_cursor (the_tty c1 i) then raw_scroll i c1 else Done c1) (out_state con0 f i cursor_in)"
      using raw_scroll_ok [OF b] b by (auto intro!: ok_Done elim!: out_state_mono simp: cursor_below_def cursor_in_nat word_le_nat_alt)
  qed (rule paint_cursor_ok)
qed

section \<open>Text and cursor sequences\<close>

lemma out_parser:
  assumes o: "console_base f i con" and a: "length a = MAX_ARGS"
  shows "console_base f i (con\<lparr>p_state := s, p_index := n, p_args := a\<rparr>)"
  using o a by (simp add: console_base_def fb_ok_def tty_fits_def)

text \<open>A console whose parser is between two characters of plain text, and what printing keeps of it.\<close>
definition text_ok :: "console \<Rightarrow> bool" where
  "text_ok con \<longleftrightarrow> console_ok con \<and> p_state con = HTERM_ESC"

definition idle_parser :: "console \<Rightarrow> console" where
  "idle_parser con = con\<lparr>p_state := 0, p_index := 0, p_args := []\<rparr>"

definition printed :: "console \<Rightarrow> console \<Rightarrow> bool" where
  "printed con con' \<longleftrightarrow> output_only (idle_parser con) (idle_parser con')"

lemma printed_refl [simp]: "printed con con" by (simp add: printed_def)

lemma printed_trans: "printed a b \<Longrightarrow> printed b c \<Longrightarrow> printed a c"
  using output_trans unfolding printed_def by blast

lemma printed_output: "output_only a b \<Longrightarrow> printed a b"
proof -
  assume "output_only a b"
  then have "console_fixed b = console_fixed a" "length (fb_pixels b) = length (fb_pixels a)" by (simp_all add: output_only_def)
  moreover have "console_fixed (idle_parser x) = idle_parser (console_fixed x)" for x
    by (cases x) (simp add: console_fixed_def idle_parser_def)
  moreover have "fb_pixels (idle_parser x) = fb_pixels x" for x by (simp add: idle_parser_def)
  ultimately show ?thesis by (simp add: printed_def output_only_def)
qed

lemma printed_parser: "printed con (con\<lparr>p_state := s, p_index := n, p_args := a\<rparr>)"
  by (simp add: printed_def idle_parser_def)

text \<open>Every terminal keeps everything but cells and cursor.\<close>
lemma printedD:
  assumes "printed con con'"
  shows "length (ttys con') = length (ttys con)" "current_tty con' = current_tty con"
    "i < length (ttys con) \<Longrightarrow> tty_input_part (the_tty con' i) = tty_input_part (the_tty con i)"
  using output_tty [OF assms [unfolded printed_def]] output_onlyD(2) [OF assms [unfolded printed_def]]
  by (simp_all add: idle_parser_def the_tty_def)

lemma console_ok_parser:
  "console_ok con \<Longrightarrow> length a = MAX_ARGS \<Longrightarrow> console_ok (con\<lparr>p_state := s, p_index := n, p_args := a\<rparr>)"
  using out_parser unfolding console_ok_def by fastforce

lemma putchar_raw_ok:
  assumes con: "console_ok con" and c: "c < 128"
  shows "ok_oc (tty_putchar_raw c con) (\<lambda>con'. console_ok con' \<and> output_only con con')"
proof -
  obtain f i where "out_state con f i cursor_in con" using console_ok_out [OF con] by blast
  from putchar_raw_out [OF this c] show ?thesis by (rule ok_mono) (use out_console_ok in blast)
qed

text \<open>An ASCII character that does not begin an escape sequence.\<close>
lemma putchar_text_ok:
  assumes con: "text_ok con" and c: "c < 128" "c \<noteq> 0x1B"
  shows "ok_oc (tty_putchar c con) (\<lambda>con'. text_ok con' \<and> printed con con')"
proof -
  have e: "set_state HTERM_ESC con = con" using con by (simp add: set_state_def text_ok_def)
  have h: "tty_putchar c con = bind_oc (tty_putchar_raw c con) (\<lambda>con. if p_state con = HTERM_ENDARGS then end_args c con else Done con)"
    using con c(2) e by (simp add: tty_putchar_def hansi_handler_def text_ok_def)
  have "console_ok con" using con by (simp add: text_ok_def)
  from putchar_raw_ok [OF this c(1)] show ?thesis unfolding h
  proof (rule ok_bind)
    fix con' assume a: "console_ok con' \<and> output_only con con'"
    then have "p_state con' = HTERM_ESC" using output_onlyD(10) [of con con'] con by (simp add: text_ok_def)
    then show "ok_oc (if p_state con' = HTERM_ENDARGS then end_args c con' else Done con') (\<lambda>con'. text_ok con' \<and> printed con con')"
      using a printed_output by (simp add: text_ok_def HTERM_ESC_def HTERM_ENDARGS_def ok_oc_def)
  qed
qed

lemma parser_updates: "con\<lparr>p_index := n, p_args := a, p_state := s\<rparr> = con\<lparr>p_state := s, p_index := n, p_args := a\<rparr>"
  by (cases con) simp

text \<open>The cursor sequences that the line editor prints.\<close>
lemma cursor_sequence_ok:
  assumes con: "text_ok con" and c: "c = 0x43 \<or> c = 0x44"
  shows "ok_oc (for_oc tty_putchar [0x1B, 0x5B, c] con) (\<lambda>con'. text_ok con' \<and> printed con con')"
proof -
  define args where "args = (p_args con)[0 := (0, True), 1 := (0, True)]"
  have ok: "console_ok con" and len: "length (p_args con) = MAX_ARGS" and st: "p_state con = HTERM_ESC"
    using con by (auto simp: text_ok_def console_ok_def console_base_def)
  let ?c1 = "con\<lparr>p_state := HTERM_BRACKET, p_index := 0, p_args := (p_args con)[0 := (0, True)]\<rparr>"
  have 1: "tty_putchar 0x1B con = Done ?c1"
    using len st by (simp add: tty_putchar_def hansi_handler_def set_arg_def MAX_ARGS_def HTERM_BRACKET_def HTERM_ENDARGS_def)
  let ?c2 = "con\<lparr>p_state := HTERM_ARGS, p_index := 0, p_args := (p_args con)[0 := (0, True)]\<rparr>"
  have 2: "tty_putchar 0x5B ?c1 = Done ?c2"
    by (simp add: tty_putchar_def hansi_handler_def HTERM_BRACKET_def HTERM_ENDARGS_def HTERM_ESC_def HTERM_ARGS_def set_state_def)
  let ?c3 = "con\<lparr>p_state := HTERM_ENDARGS, p_index := 1, p_args := args\<rparr>"
  have nd: "\<not> isdigit c" using c by (auto simp: isdigit_def)
  have 3: "tty_putchar c ?c2 = bind_oc (csi_final c ?c3) (\<lambda>con. Done (set_state HTERM_ESC con))"
    using nd len c
    by (auto simp: tty_putchar_def hansi_handler_def HTERM_BRACKET_def HTERM_ENDARGS_def HTERM_ESC_def HTERM_ARGS_def set_state_def
        set_arg_def MAX_ARGS_def args_def end_args_def parser_updates)
  have ok3: "console_ok ?c3" using console_ok_parser [OF ok] len by (simp add: args_def)
  obtain f i where o: "out_state ?c3 f i cursor_in ?c3" using console_ok_out [OF ok3] by blast
  note D = out_stateD [OF o]
  have n: "move_arg 0 ?c3 = 1" using len by (simp add: move_arg_def arg_value_def args_def MAX_ARGS_def)
  let ?t = "the_tty ?c3 i"
  define x where "x = (if c = 0x43 then (if width ?t \<le> x_cursor ?t + 1 then width ?t - 1 else x_cursor ?t + 1)
    else (if 1 \<le> x_cursor ?t then x_cursor ?t - 1 else 0))"
  define g where "g = (if c = 0x43 then (\<lambda>t. clamp_x (t\<lparr>x_cursor := x_cursor t + 1\<rparr>))
    else (\<lambda>t. t\<lparr>x_cursor := if 1 \<le> x_cursor t then x_cursor t - 1 else 0\<rparr>))"
  have csi: "csi_final c ?c3 = with_tty i (\<lambda>t. Done (g t)) ?c3"
    using c n D(4) by (auto simp: csi_final_def on_current_def g_def)
  have gt: "g ?t = ?t\<lparr>x_cursor := x, y_cursor := y_cursor ?t\<rparr>" by (simp add: g_def x_def clamp_x_def)
  have xw: "x_cursor ?t < width ?t" "y_cursor ?t < height ?t" using D(9) by (simp_all add: cursor_in_def)
  have pos: "0 < width ?t" using xw(1) by (metis word_gt_0 word_not_simps(1))
  have dec: "unat (v - 1) < unat v" if "0 < v" for v :: u16
    using that by (subst unat_diff_nowrap) (simp_all add: word_le_nat_alt word_less_nat_alt)
  have "x < width ?t"
    using dec [OF pos] dec [of "x_cursor ?t"] xw(1) pos unfolding x_def word_less_nat_alt word_le_nat_alt
    by (auto simp: word_gt_0 not_le)
  then have Q: "cursor_in (?t\<lparr>x_cursor := x, y_cursor := y_cursor ?t\<rparr>)" using xw(2) by (simp add: cursor_in_def)
  from move_cursor_ok [OF o, where g = g and Q = cursor_in, OF gt Q] have "ok_oc (csi_final c ?c3) (\<lambda>c4. console_ok c4 \<and> output_only ?c3 c4)"
    unfolding csi by (rule ok_mono) (use out_console_ok in blast)
  then have "ok_oc (tty_putchar c ?c2) (\<lambda>con'. text_ok con' \<and> printed con con')" unfolding 3
  proof (rule ok_bind, intro ok_Done conjI)
    fix c4 assume a: "console_ok c4 \<and> output_only ?c3 c4"
    then have l4: "length (p_args c4) = MAX_ARGS" by (auto simp: console_ok_def console_base_def)
    have s: "set_state HTERM_ESC c4 = c4\<lparr>p_state := HTERM_ESC, p_index := p_index c4, p_args := p_args c4\<rparr>"
      by (simp add: set_state_def)
    show "text_ok (set_state HTERM_ESC c4)" unfolding s text_ok_def by (rule conjI, rule console_ok_parser [OF conjunct1 [OF a] l4]) simp
    show "printed con (set_state HTERM_ESC c4)" unfolding s
      using printed_parser [of con] printed_output [of ?c3 c4] printed_parser [of c4] a printed_trans by blast
  qed
  then show ?thesis by (simp add: 1 2 for_oc_Nil)
qed

lemma putchars_ok:
  assumes "text_ok con" "\<And>c. c \<in> set cs \<Longrightarrow> c < 128 \<and> c \<noteq> 0x1B"
  shows "ok_oc (for_oc tty_putchar cs con) (\<lambda>con'. text_ok con' \<and> printed con con')"
proof (rule ok_for)
  fix c s assume "c \<in> set cs" "text_ok s \<and> printed con s"
  then show "ok_oc (tty_putchar c s) (\<lambda>con'. text_ok con' \<and> printed con con')"
    using putchar_text_ok [of s c] assms(2) printed_trans by (fastforce intro: ok_mono)
qed (use assms(1) in simp)

text \<open>The blinking of the cursor paints its cell and turns the flag.\<close>
lemma console_ok_flag: "console_ok (con\<lparr>cursor_visible := b\<rparr>) = console_ok con"
  by (simp add: console_ok_def console_base_def fb_ok_def tty_fits_def)

lemma output_flag: "output_only con con' \<Longrightarrow> output_only (con\<lparr>cursor_visible := b\<rparr>) (con'\<lparr>cursor_visible := b\<rparr>)"
proof -
  assume o: "output_only con con'"
  have "console_fixed (c\<lparr>cursor_visible := b\<rparr>) = (console_fixed c)\<lparr>cursor_visible := b\<rparr>" for c
    by (simp add: console_fixed_def)
  then show ?thesis using o by (simp add: output_only_def)
qed

lemma toggle_cursor_ok:
  assumes ok: "console_ok con"
  shows "\<exists>con'. tty_toggle_cursor_visibility con = Done con' \<and> console_ok con' \<and>
    output_only (con\<lparr>cursor_visible := \<not> cursor_visible con\<rparr>) con'"
proof -
  obtain f i where o: "out_state con f i cursor_in con" using console_ok_out [OF ok] by blast
  note D = out_stateD [OF o]
  have "ok_oc (if cursor_visible con then tty_paint_cursor (x_cursor (the_tty con i)) (y_cursor (the_tty con i)) con
      else tty_hide_cursor con) (out_state con f i cursor_in)"
    by (rule ok_if) (rule paint_cursor_ok [OF o], rule hide_cursor_ok [OF o])
  then obtain c where c: "(if cursor_visible con then tty_paint_cursor (x_cursor (the_tty con i)) (y_cursor (the_tty con i)) con
      else tty_hide_cursor con) = Done c" "out_state con f i cursor_in c"
    by (auto simp: ok_oc_def)
  then have k: "console_ok c" "output_only con c" using out_console_ok by blast+
  have "console_fixed c = console_fixed con" using k(2) by (simp add: output_only_def)
  from arg_cong [OF this, of cursor_visible] have v: "cursor_visible c = cursor_visible con"
    by (simp add: console_fixed_def)
  have "tty_toggle_cursor_visibility con = Done (c\<lparr>cursor_visible := \<not> cursor_visible con\<rparr>)"
    using D(4) c(1) v by (simp add: tty_toggle_cursor_visibility_def Let_def)
  then show ?thesis using k(1) output_flag [OF k(2)] by (simp add: console_ok_flag)
qed

text \<open>Clearing the screen.\<close>
lemma tty_clear_ok:
  assumes con: "text_ok con"
  shows "ok_oc (tty_clear con) (\<lambda>con'. text_ok con' \<and> printed con con')"
proof -
  have ok: "console_ok con" and st: "p_state con = HTERM_ESC" using con by (simp_all add: text_ok_def)
  obtain f i where o: "out_state con f i cursor_in con" using console_ok_out [OF ok] by blast
  note D = out_stateD [OF o]
  have pos: "0 < unat (width (the_tty con i))" "0 < unat (height (the_tty con i))" using D(6) by (simp_all add: tty_cells_ok_def buffer_ok_def)
  have "ok_oc (tty_clear con) (out_state con f i cursor_in)" unfolding tty_clear_def D(4) option.case
  proof (rule ok_bind)
    show "ok_oc (with_tty i (\<lambda>t. Done (t\<lparr>x_cursor := 0, y_cursor := 0, buffer := replicate (length (buffer t)) zero_cell\<rparr>)) con)
        (out_state con f i cursor_in)"
      by (rule out_with [OF o], rule ok_Done)
        (use D(6) pos in \<open>simp add: tty_input_part_def tty_cells_ok_def buffer_ok_def ascii_cells_def cursor_in_nat zero_cell_def\<close>)
    fix c assume c: "out_state con f i cursor_in c"
    show "ok_oc (framebuffer_clear (currentBg c) c) (out_state con f i cursor_in)"
      by (rule out_painted [OF c framebuffer_clear_ok]) (rule out_stateD(1) [OF c])
  qed
  then show ?thesis
  proof (rule ok_mono)
    fix c assume "out_state con f i cursor_in c"
    then have "console_ok c" "output_only con c" using out_console_ok by blast+
    then show "text_ok c \<and> printed con c" using st output_onlyD(10) [of con c] printed_output by (simp add: text_ok_def)
  qed
qed

end
