(* ===== verification/LineDisc.thy ===== *)
theory LineDisc
  imports ConsoleOk
begin

text \<open>
  Terminal input, \<open>src/src/drivers/tty/tty_input.c\<close>: the ring buffer that readers drain, and the line
  discipline that edits a line before it enters the ring.  Output of the echo goes through the escape
  sequence parser to the current terminal.

  The ring buffer is proved to be a bounded queue (locale \<open>bounded_queue\<close>), and the editing of a line to
  be that of a line with a cursor: the characters left of it and those right of it.
\<close>

section \<open>Input\<close>

definition tty_set_ldisc :: "int \<Rightarrow> tty \<Rightarrow> tty" where
  "tty_set_ldisc mode t = t\<lparr>ldisc_mode := mode\<rparr>"

text \<open>A character into the ring buffer; it is dropped when the buffer is full.\<close>
definition ring_put :: "u8 \<Rightarrow> tty \<Rightarrow> tty outcome" where
  "ring_put c t =
     (let next_head = (input_head t + 1) mod TTY_MAX_BUF
      in if next_head \<noteq> input_tail t then
           if input_head t < length (input_buf t)
           then Done (t\<lparr>input_buf := (input_buf t)[input_head t := c], input_head := next_head\<rparr>) else Wild
         else Done t)"

definition line_get :: "nat \<Rightarrow> tty \<Rightarrow> u8 outcome" where
  "line_get i t = (if i < length (line_buffer t) then Done (line_buffer t ! i) else Wild)"

definition line_put :: "nat \<Rightarrow> u8 \<Rightarrow> tty \<Rightarrow> tty outcome" where
  "line_put i c t =
     (if i < length (line_buffer t) then Done (t\<lparr>line_buffer := (line_buffer t)[i := c]\<rparr>) else Wild)"

definition shift_left :: "tty \<Rightarrow> tty outcome" where
  "shift_left t =
     for_oc (\<lambda>i t. bind_oc (line_get (i + 1) t) (\<lambda>c. line_put i c t)) [line_cursor t - 1..<line_length t - 1] t"

definition shift_right :: "tty \<Rightarrow> tty outcome" where
  "shift_right t =
     for_oc (\<lambda>i t. bind_oc (line_get (i - 1) t) (\<lambda>c. line_put i c t)) (rev [line_cursor t + 1..<line_length t + 1]) t"

text \<open>\<open>tty->echo && tty->id == current_tty->id\<close>; without a current terminal the dereference is wild.\<close>
definition echoes :: "nat \<Rightarrow> console \<Rightarrow> bool outcome" where
  "echoes i con =
     (if \<not> echo (the_tty con i) then Done False
      else case current_tty con of
             None \<Rightarrow> Wild
           | Some cur \<Rightarrow> Done (tty_id (the_tty con i) = tty_id (the_tty con cur)))"

definition echo_chars :: "nat \<Rightarrow> u8 list \<Rightarrow> console \<Rightarrow> console outcome" where
  "echo_chars i cs con = bind_oc (echoes i con) (\<lambda>e. if e then for_oc tty_putchar cs con else Done con)"

definition cursor_right :: "nat \<Rightarrow> console \<Rightarrow> console outcome" where
  "cursor_right i con =
     bind_oc (with_tty i (\<lambda>t. Done (t\<lparr>line_cursor := line_cursor t + 1\<rparr>)) con) (echo_chars i [0x1B, 0x5B, 0x43])"

definition cursor_left :: "nat \<Rightarrow> console \<Rightarrow> console outcome" where
  "cursor_left i con =
     bind_oc (with_tty i (\<lambda>t. Done (t\<lparr>line_cursor := line_cursor t - 1\<rparr>)) con) (echo_chars i [0x1B, 0x5B, 0x44])"

text \<open>The final character of an escape sequence that the terminal received.\<close>
definition input_csi :: "nat \<Rightarrow> u8 \<Rightarrow> console \<Rightarrow> console outcome" where
  "input_csi i c con =
     (let t = the_tty con i
      in if c = 0x43 then (if line_cursor t < line_length t then cursor_right i con else Done con)
         else if c = 0x44 then (if 0 < line_cursor t then cursor_left i con else Done con)
         else if c = 0x48 then for_oc (\<lambda>_. cursor_left i) [0..<line_cursor t] con
         else if c = 0x46 then for_oc (\<lambda>_. cursor_right i) [line_cursor t..<line_length t] con
         else Done con)"

text \<open>End of line: the line goes to the ring buffer.\<close>
definition flush_line :: "tty \<Rightarrow> tty outcome" where
  "flush_line t =
     bind_oc (if line_length t < TTY_MAX_BUF - 1
              then bind_oc (line_put (line_length t) 0x0A t) (\<lambda>t. Done (t\<lparr>line_length := line_length t + 1\<rparr>))
              else Done t) (\<lambda>t.
     bind_oc (for_oc (\<lambda>i t. bind_oc (line_get i t) (\<lambda>c. ring_put c t)) [0..<line_length t] t) (\<lambda>t.
       Done (t\<lparr>line_length := 0, line_cursor := 0, line_ready := True\<rparr>)))"

definition erase_char :: "tty \<Rightarrow> tty outcome" where
  "erase_char t =
     bind_oc (shift_left t) (\<lambda>t. Done (t\<lparr>line_length := line_length t - 1, line_cursor := line_cursor t - 1\<rparr>))"

definition insert_char :: "u8 \<Rightarrow> tty \<Rightarrow> tty outcome" where
  "insert_char c t =
     bind_oc (shift_right t) (\<lambda>t.
     bind_oc (line_put (line_cursor t) c t) (\<lambda>t.
       Done (t\<lparr>line_length := line_length t + 1, line_cursor := line_cursor t + 1\<rparr>)))"

text \<open>The characters of the line from place \<open>i\<close> on.\<close>
definition line_tail :: "nat \<Rightarrow> tty \<Rightarrow> u8 list" where
  "line_tail i t = slice_at (line_buffer t) i (line_length t - i)"

definition is_printable :: "u8 \<Rightarrow> bool" where
  "is_printable c \<longleftrightarrow> 32 \<le> c \<and> c < 127"

text \<open>A character in canonical mode outside an escape sequence.\<close>
definition canonical_char :: "nat \<Rightarrow> u8 \<Rightarrow> console \<Rightarrow> console outcome" where
  "canonical_char i c con =
     (if c = 0x1B then with_tty i (\<lambda>t. Done (t\<lparr>input_esc_state := INPUT_STATE_ESC\<rparr>)) con
      else if c = 0x0A \<or> c = 0x0D then bind_oc (with_tty i flush_line con) (echo_chars i [0x0A])
      else if c = 0x08 \<or> c = 127 then
        if 0 < line_cursor (the_tty con i) then
          bind_oc (with_tty i erase_char con) (\<lambda>con.
            let t = the_tty con i
            in echo_chars i (0x08 # line_tail (line_cursor t) t @ 0x20 # replicate (line_length t + 1 - line_cursor t) 0x08) con)
        else Done con
      else if c = 0x03 then
        bind_oc (with_tty i (\<lambda>t. Done (t\<lparr>line_length := 0, line_cursor := 0\<rparr>)) con) (echo_chars i [0x5E, 0x43, 0x0A])
      else if c = 0x0C then
        (case current_tty con of
           None \<Rightarrow> Wild
         | Some cur \<Rightarrow> if tty_id (the_tty con i) = tty_id (the_tty con cur) then tty_clear con else Done con)
      else if is_printable c then
        if line_length (the_tty con i) < TTY_MAX_BUF - 1 then
          bind_oc (with_tty i (insert_char c) con) (\<lambda>con.
            let t = the_tty con i
            in echo_chars i (line_tail (line_cursor t - 1) t @ replicate (line_length t - line_cursor t) 0x08) con)
        else Done con
      else Done con)"

definition tty_input_char :: "nat \<Rightarrow> u8 \<Rightarrow> console \<Rightarrow> console outcome" where
  "tty_input_char i c con =
     (if length (ttys con) \<le> i then Wild
      else if ldisc_mode (the_tty con i) = TTY_RAW then
        bind_oc (with_tty i (ring_put c) con) (\<lambda>con.
          bind_oc (echoes i con) (\<lambda>e. if e \<and> is_printable c then tty_putchar c con else Done con))
      else if input_esc_state (the_tty con i) = INPUT_STATE_ESC then
        with_tty i (\<lambda>t. Done (t\<lparr>input_esc_state := if c = 0x5B then INPUT_STATE_CSI else INPUT_STATE_NORMAL\<rparr>)) con
      else if input_esc_state (the_tty con i) = INPUT_STATE_CSI then
        bind_oc (with_tty i (\<lambda>t. Done (t\<lparr>input_esc_state := INPUT_STATE_NORMAL\<rparr>)) con) (input_csi i c)
      else canonical_char i c con)"

section \<open>Reading\<close>

definition ring_get :: "tty \<Rightarrow> (u8 \<times> tty) outcome" where
  "ring_get t =
     (if input_tail t < length (input_buf t)
      then Done (input_buf t ! input_tail t, t\<lparr>input_tail := (input_tail t + 1) mod TTY_MAX_BUF\<rparr>) else Wild)"

text \<open>The read loops, with the room left in the caller's buffer; the canonical one ends at a newline.\<close>
fun read_ring :: "bool \<Rightarrow> nat \<Rightarrow> tty \<Rightarrow> (u8 list \<times> tty) outcome" where
  "read_ring canonical 0 t = Done ([], t)"
| "read_ring canonical (Suc n) t =
     (if input_tail t = input_head t then Done ([], t)
      else bind_oc (ring_get t) (\<lambda>(c, t).
        if canonical \<and> c = 0x0A then Done ([c], t)
        else bind_oc (read_ring canonical n t) (\<lambda>(cs, t). Done (c # cs, t))))"

text \<open>
  \<open>tty_read\<close> on \<open>ttys[ino - 1000]\<close>.  \<open>None\<close> is the wait for an interrupt: the loop tests its condition
  again after each one.  \<open>buf_null\<close> says that the caller's pointer is null.
\<close>
definition tty_read :: "u32 \<Rightarrow> bool \<Rightarrow> u64 \<Rightarrow> console \<Rightarrow> (u8 list \<times> int \<times> console) option outcome" where
  "tty_read ino buf_null len con =
     (if buf_null \<or> len = 0 then Done (Some ([], -1, con))
      else
        let i = unat (ino - 1000); t = the_tty con i
        in if length (ttys con) \<le> i then Wild
           else if ldisc_mode t = TTY_CANONICAL then
             if \<not> line_ready t then Done None
             else bind_oc (read_ring True (unat len) t) (\<lambda>(cs, t).
               Done (Some (cs, int (length cs),
                 set_tty i (if input_tail t = input_head t then t\<lparr>line_ready := False\<rparr> else t) con)))
           else
             if input_tail t = input_head t then Done None
             else bind_oc (read_ring False (unat len) t) (\<lambda>(cs, t). Done (Some (cs, int (length cs), set_tty i t con))))"

section \<open>Bounded queues\<close>

text \<open>
  A queue that drops what does not fit.  \<open>rest\<close> is the part of the state that belongs to the user of the
  queue.
\<close>
locale bounded_queue =
  fixes put :: "'a \<Rightarrow> 's \<Rightarrow> 's outcome" and get :: "'s \<Rightarrow> ('a \<times> 's) outcome"
    and contents :: "'s \<Rightarrow> 'a list" and ok :: "'s \<Rightarrow> bool" and cap :: nat and rest :: "'s \<Rightarrow> 'r"
  assumes put: "ok s \<Longrightarrow> \<exists>s'. put x s = Done s' \<and> ok s' \<and> contents s' = take cap (contents s @ [x]) \<and> rest s' = rest s"
    and get: "ok s \<Longrightarrow> contents s \<noteq> [] \<Longrightarrow>
      \<exists>s'. get s = Done (hd (contents s), s') \<and> ok s' \<and> contents s' = tl (contents s) \<and> rest s' = rest s"
    and bound: "ok s \<Longrightarrow> length (contents s) \<le> cap"
begin

lemma put_all:
  assumes "ok s"
  shows "\<exists>s'. for_oc put xs s = Done s' \<and> ok s' \<and> contents s' = take cap (contents s @ xs) \<and> rest s' = rest s"
  using assms
proof (induction xs arbitrary: s)
  case Nil
  then show ?case using bound by simp
next
  case (Cons x xs)
  obtain s1 where s1: "put x s = Done s1" "ok s1" "contents s1 = take cap (contents s @ [x])" "rest s1 = rest s"
    using put [OF Cons.prems] by blast
  have "take cap (contents s1 @ xs) = take cap (contents s @ x # xs)"
    using bound [OF Cons.prems] unfolding s1(3) by (cases "length (contents s) = cap") simp_all
  then show ?case using Cons.IH [OF s1(2)] s1(1,4) by auto
qed

end

section \<open>The ring buffer\<close>

definition ring_list :: "tty \<Rightarrow> u8 list" where
  "ring_list t =
     map (\<lambda>k. input_buf t ! ((input_tail t + k) mod 256)) [0..<(input_head t + 256 - input_tail t) mod 256]"

definition ring_ok :: "tty \<Rightarrow> bool" where
  "ring_ok t \<longleftrightarrow> length (input_buf t) = 256 \<and> input_head t < 256 \<and> input_tail t < 256"

definition without_ring :: "tty \<Rightarrow> tty" where
  "without_ring t = t\<lparr>input_buf := [], input_head := 0, input_tail := 0\<rparr>"

lemma ring_arith:
  fixes h t k :: nat
  shows "h < 256 \<Longrightarrow> t < 256 \<Longrightarrow> (h + 256 - t) mod 256 = (if t \<le> h then h - t else h + 256 - t)"
    and "h < 256 \<Longrightarrow> (h + 1) mod 256 = (if h = 255 then 0 else h + 1)"
    and "t < 256 \<Longrightarrow> k < 256 \<Longrightarrow> (t + k) mod 256 = (if t + k < 256 then t + k else t + k - 256)"
  by (auto simp: mod_if not_le)

lemma ring_empty: "ring_ok t \<Longrightarrow> ring_list t = [] \<longleftrightarrow> input_tail t = input_head t"
  by (auto simp: ring_list_def ring_ok_def ring_arith(1) split: if_splits)

lemma ring_put_spec:
  assumes ok: "ring_ok t"
  shows "\<exists>t'. ring_put c t = Done t' \<and> ring_ok t' \<and> ring_list t' = take 255 (ring_list t @ [c]) \<and> without_ring t' = without_ring t"
proof -
  let ?h = "input_head t" and ?t = "input_tail t"
  have b: "length (input_buf t) = 256" "?h < 256" "?t < 256" using ok by (simp_all add: ring_ok_def)
  show ?thesis
  proof (cases "(?h + 1) mod 256 = ?t")
    case True
    then have "(?h + 256 - ?t) mod 256 = 255" using b ring_arith(1) [OF b(2,3)] ring_arith(2) [OF b(2)] by (auto split: if_splits)
    then have "length (ring_list t) = 255" by (simp add: ring_list_def)
    then show ?thesis using ok True by (simp add: ring_put_def TTY_MAX_BUF_def Let_def)
  next
    case False
    let ?t' = "t\<lparr>input_buf := (input_buf t)[?h := c], input_head := (?h + 1) mod 256\<rparr>"
    let ?n = "(?h + 256 - ?t) mod 256"
    have n: "((?h + 1) mod 256 + 256 - ?t) mod 256 = Suc ?n" "?n < 255" "(?t + ?n) mod 256 = ?h"
      using False b ring_arith(1) [OF b(2,3)] ring_arith(2) [OF b(2)] ring_arith(1) [of "(?h + 1) mod 256" ?t] ring_arith(3) [OF b(3), of ?n]
      by (auto split: if_splits)
    have "ring_list ?t' = map (\<lambda>k. (input_buf t)[?h := c] ! ((?t + k) mod 256)) [0..<Suc ?n]"
      using n(1) by (simp add: ring_list_def)
    also have "\<dots> = map (\<lambda>k. (input_buf t)[?h := c] ! ((?t + k) mod 256)) [0..<?n] @ [c]"
      using n(3) b by simp
    also have "map (\<lambda>k. (input_buf t)[?h := c] ! ((?t + k) mod 256)) [0..<?n] = ring_list t"
      unfolding ring_list_def
    proof (rule map_cong [OF refl])
      fix k assume "k \<in> set [0..<?n]"
      then have "k < ?n" by simp
      then have "(?t + k) mod 256 \<noteq> ?h" using b n(2) ring_arith(1) [OF b(2,3)] ring_arith(3) [OF b(3), of k] by (auto split: if_splits)
      then show "(input_buf t)[?h := c] ! ((?t + k) mod 256) = input_buf t ! ((?t + k) mod 256)" by simp
    qed
    finally have "ring_list ?t' = ring_list t @ [c]" .
    moreover have "length (ring_list t) < 255" using n(2) by (simp add: ring_list_def)
    ultimately show ?thesis using False b
      by (simp add: ring_put_def TTY_MAX_BUF_def Let_def ring_ok_def without_ring_def)
  qed
qed

lemma ring_get_spec:
  assumes ok: "ring_ok t" and ne: "ring_list t \<noteq> []"
  shows "\<exists>t'. ring_get t = Done (hd (ring_list t), t') \<and> ring_ok t' \<and> ring_list t' = tl (ring_list t) \<and> without_ring t' = without_ring t"
proof -
  let ?h = "input_head t" and ?t = "input_tail t"
  have b: "length (input_buf t) = 256" "?h < 256" "?t < 256" using ok by (simp_all add: ring_ok_def)
  have "?t \<noteq> ?h" using ring_empty [OF ok] ne by simp
  then have "(?h + 256 - ?t) mod 256 = Suc ((?h + 256 - (?t + 1) mod 256) mod 256)"
    using b ring_arith(1) [OF b(2,3)] ring_arith(2) [OF b(3)] ring_arith(1) [OF b(2), of "(?t + 1) mod 256"] by (auto split: if_splits)
  then obtain n where n: "(?h + 256 - ?t) mod 256 = Suc n" "(?h + 256 - (?t + 1) mod 256) mod 256 = n" by blast
  let ?t' = "t\<lparr>input_tail := (?t + 1) mod 256\<rparr>"
  have l: "ring_list t = input_buf t ! ?t # map (\<lambda>k. input_buf t ! ((?t + Suc k) mod 256)) [0..<n]"
    using b unfolding ring_list_def n(1) by (simp add: upt_conv_Cons map_Suc_upt [symmetric] del: upt_Suc)
  have "ring_list ?t' = map (\<lambda>k. input_buf t ! ((?t + Suc k) mod 256)) [0..<n]"
    using n(2) by (simp add: ring_list_def mod_add_left_eq)
  then show ?thesis using b l by (simp add: ring_get_def TTY_MAX_BUF_def ring_ok_def without_ring_def)
qed

lemma ring_bound: "length (ring_list t) \<le> 255"
proof -
  have "(input_head t + 256 - input_tail t) mod 256 < 256" by simp
  then show ?thesis unfolding ring_list_def by simp
qed

interpretation ring: bounded_queue ring_put ring_get ring_list ring_ok 255 without_ring
  by unfold_locales (blast intro: ring_put_spec, blast intro: ring_get_spec, rule ring_bound)

section \<open>The line\<close>

definition line_ok :: "tty \<Rightarrow> bool" where
  "line_ok t \<longleftrightarrow> length (line_buffer t) = 256 \<and> line_cursor t \<le> line_length t \<and> line_length t \<le> 255"

text \<open>The characters left of the cursor and those from the cursor on.\<close>
definition line_left :: "tty \<Rightarrow> u8 list" where
  "line_left t = take (line_cursor t) (line_buffer t)"

definition line_right :: "tty \<Rightarrow> u8 list" where
  "line_right t = line_tail (line_cursor t) t"

lemma line_lengths: "line_ok t \<Longrightarrow> length (line_left t) = line_cursor t \<and> length (line_right t) = line_length t - line_cursor t"
  by (simp add: line_ok_def line_left_def line_right_def line_tail_def)

lemma line_whole: "line_ok t \<Longrightarrow> line_left t @ line_right t = take (line_length t) (line_buffer t)"
  using take_add [of "line_cursor t" "line_length t - line_cursor t" "line_buffer t"]
  by (simp add: line_ok_def line_left_def line_right_def line_tail_def slice_at_def)

lemma list_update_put: "i < length b \<Longrightarrow> b[i := c] = put_bytes b i [c]"
  by (simp add: put_bytes_def upd_conv_take_nth_drop)

lemma shift_right_loop:
  assumes "cur \<le> len" "len < length (line_buffer t)"
  shows "for_oc (\<lambda>i t. bind_oc (line_get (i - 1) t) (\<lambda>c. line_put i c t)) (rev [cur + 1..<len + 1]) t =
    Done (t\<lparr>line_buffer := put_bytes (line_buffer t) (cur + 1) (slice_at (line_buffer t) cur (len - cur))\<rparr>)"
  using assms
proof (induction len arbitrary: t rule: dec_induct)
  case base
  then show ?case by (simp add: put_bytes_def slice_at_def)
next
  case (step len)
  let ?b = "line_buffer t" and ?b1 = "(line_buffer t)[Suc len := line_buffer t ! len]"
  have "put_bytes ?b1 (cur + 1) (slice_at ?b1 cur (len - cur)) = put_bytes ?b (cur + 1) (slice_at ?b cur (Suc len - cur))"
    using step by (intro nth_equalityI) (auto simp: put_bytes_nth slice_nth nth_list_update)
  then show ?case using step by (simp add: line_get_def line_put_def)
qed

lemma shift_left_loop:
  assumes "a \<le> b" "b < length (line_buffer t)"
  shows "for_oc (\<lambda>i t. bind_oc (line_get (i + 1) t) (\<lambda>c. line_put i c t)) [a..<b] t =
    Done (t\<lparr>line_buffer := put_bytes (line_buffer t) a (slice_at (line_buffer t) (a + 1) (b - a))\<rparr>)"
  using assms
proof (induction b rule: dec_induct)
  case base
  then show ?case by (simp add: put_bytes_def slice_at_def)
next
  case (step b)
  let ?b = "line_buffer t"
  let ?b1 = "put_bytes ?b a (slice_at ?b (a + 1) (b - a))"
  have "?b1[b := ?b1 ! Suc b] = put_bytes ?b a (slice_at ?b (a + 1) (Suc b - a))"
    using step by (intro nth_equalityI) (auto simp: put_bytes_nth slice_nth nth_list_update)
  then show ?case using step by (simp add: for_oc_append line_get_def line_put_def)
qed

lemma insert_char_spec:
  assumes ok: "line_ok t" and room: "line_length t < 255"
  shows "\<exists>b. insert_char c t = Done (t\<lparr>line_buffer := b, line_length := line_length t + 1, line_cursor := line_cursor t + 1\<rparr>) \<and>
    length b = 256 \<and> take (line_cursor t + 1) b = line_left t @ [c] \<and>
    slice_at b (line_cursor t + 1) (line_length t - line_cursor t) = line_right t"
proof -
  let ?cur = "line_cursor t" and ?len = "line_length t" and ?b = "line_buffer t"
  have b: "length ?b = 256" "?cur \<le> ?len" "?len < 255" using ok room by (simp_all add: line_ok_def)
  let ?b1 = "put_bytes ?b (?cur + 1) (slice_at ?b ?cur (?len - ?cur))"
  have sh: "shift_right t = Done (t\<lparr>line_buffer := ?b1\<rparr>)"
    using shift_right_loop [of ?cur ?len t] b by (simp add: shift_right_def)
  have l1: "length ?b1 = 256" using b by simp
  have "insert_char c t = Done (t\<lparr>line_buffer := ?b1[?cur := c], line_length := ?len + 1, line_cursor := ?cur + 1\<rparr>)"
    unfolding insert_char_def sh using b l1 by (simp add: line_put_def)
  moreover have "length (?b1[?cur := c]) = 256" using l1 by simp
  moreover have "take (?cur + 1) (?b1[?cur := c]) = line_left t @ [c]"
    using b l1 by (intro nth_equalityI) (auto simp: line_left_def nth_append put_bytes_nth nth_list_update less_Suc_eq)
  moreover have "slice_at (?b1[?cur := c]) (?cur + 1) (?len - ?cur) = line_right t"
    using b l1 by (intro nth_equalityI) (auto simp: line_right_def line_tail_def slice_nth put_bytes_nth nth_list_update)
  ultimately show ?thesis by blast
qed

lemma erase_char_spec:
  assumes ok: "line_ok t" and cur: "0 < line_cursor t"
  shows "\<exists>b. erase_char t = Done (t\<lparr>line_buffer := b, line_length := line_length t - 1, line_cursor := line_cursor t - 1\<rparr>) \<and>
    length b = 256 \<and> take (line_cursor t - 1) b = butlast (line_left t) \<and>
    slice_at b (line_cursor t - 1) (line_length t - line_cursor t) = line_right t"
proof -
  let ?cur = "line_cursor t" and ?len = "line_length t" and ?b = "line_buffer t"
  have b: "length ?b = 256" "?cur \<le> ?len" "?len \<le> 255" using ok by (simp_all add: line_ok_def)
  let ?b1 = "put_bytes ?b (?cur - 1) (slice_at ?b ?cur (?len - ?cur))"
  have "shift_left t = Done (t\<lparr>line_buffer := ?b1\<rparr>)"
    using shift_left_loop [of "?cur - 1" "?len - 1" t] b cur by (simp add: shift_left_def)
  then have "erase_char t = Done (t\<lparr>line_buffer := ?b1, line_length := ?len - 1, line_cursor := ?cur - 1\<rparr>)"
    by (simp add: erase_char_def)
  moreover have "length ?b1 = 256" using b cur by simp
  moreover have "take (?cur - 1) ?b1 = butlast (line_left t)"
    using b cur by (intro nth_equalityI) (auto simp: line_left_def put_bytes_nth nth_butlast)
  moreover have "slice_at ?b1 (?cur - 1) (?len - ?cur) = line_right t"
    using b cur by (intro nth_equalityI) (auto simp: line_right_def line_tail_def slice_nth put_bytes_nth)
  ultimately show ?thesis by blast
qed

lemma without_ringD:
  assumes "without_ring t' = without_ring t"
  shows "line_buffer t' = line_buffer t" "line_length t' = line_length t" "line_cursor t' = line_cursor t"
    "tty_input_part t' = (tty_input_part t)\<lparr>input_buf := input_buf t', input_head := input_head t', input_tail := input_tail t'\<rparr>"
    "buffer t' = buffer t" "x_cursor t' = x_cursor t" "y_cursor t' = y_cursor t" "width t' = width t" "height t' = height t"
    "tty_id t' = tty_id t" "echo t' = echo t" "ldisc_mode t' = ldisc_mode t" "input_esc_state t' = input_esc_state t" "line_ready t' = line_ready t"
proof -
  have e: "t' = t\<lparr>input_buf := input_buf t', input_head := input_head t', input_tail := input_tail t'\<rparr>"
    using assms by (cases t, cases t') (simp add: without_ring_def)
  show "line_buffer t' = line_buffer t" "line_length t' = line_length t" "line_cursor t' = line_cursor t"
    "buffer t' = buffer t" "x_cursor t' = x_cursor t" "y_cursor t' = y_cursor t" "width t' = width t" "height t' = height t"
    "tty_id t' = tty_id t" "echo t' = echo t" "ldisc_mode t' = ldisc_mode t" "input_esc_state t' = input_esc_state t" "line_ready t' = line_ready t"
    by (subst e, simp)+
  show "tty_input_part t' = (tty_input_part t)\<lparr>input_buf := input_buf t', input_head := input_head t', input_tail := input_tail t'\<rparr>"
    using assms by (cases t, cases t') (simp add: without_ring_def tty_input_part_def)
qed

text \<open>The line as it goes to the ring buffer: with its newline if there is room for it.\<close>
definition line_out :: "u8 list \<Rightarrow> u8 list" where
  "line_out l = l @ (if length l < 255 then [0x0A] else [])"

lemma put_line_loop:
  assumes "ring_ok t" "n \<le> length (line_buffer t)"
  shows "for_oc (\<lambda>i t. bind_oc (line_get i t) (\<lambda>c. ring_put c t)) [0..<n] t = for_oc ring_put (take n (line_buffer t)) t"
  using assms(2)
proof (induction n)
  case (Suc n)
  obtain t1 where t1: "for_oc ring_put (take n (line_buffer t)) t = Done t1" "without_ring t1 = without_ring t"
    using ring.put_all [OF assms(1), of "take n (line_buffer t)"] by blast
  have "line_get n t1 = Done (line_buffer t ! n)" using without_ringD(1) [OF t1(2)] Suc.prems by (simp add: line_get_def)
  then show ?case using Suc t1(1) by (simp add: for_oc_append take_Suc_conv_app_nth for_oc_Nil)
qed simp

lemma flush_line_spec:
  assumes ok: "line_ok t" "ring_ok t"
  shows "\<exists>t' b. flush_line t = Done (t'\<lparr>line_length := 0, line_cursor := 0, line_ready := True\<rparr>) \<and> ring_ok t' \<and>
    ring_list t' = take 255 (ring_list t @ line_out (line_left t @ line_right t)) \<and> length b = 256 \<and>
    (\<exists>n. without_ring t' = without_ring (t\<lparr>line_buffer := b, line_length := n\<rparr>))"
proof -
  let ?len = "line_length t" and ?b = "line_buffer t"
  have b: "length ?b = 256" "?len \<le> 255" using ok(1) by (simp_all add: line_ok_def)
  define n where "n = (if ?len < 255 then ?len + 1 else ?len)"
  define b1 where "b1 = (if ?len < 255 then ?b[?len := 0x0A] else ?b)"
  let ?t1 = "t\<lparr>line_buffer := b1, line_length := n\<rparr>"
  have bl: "length b1 = 256" "n \<le> 256" using b by (simp_all add: b1_def n_def)
  have line: "take n b1 = line_out (line_left t @ line_right t)"
    using b line_whole [OF ok(1)] by (auto simp: n_def b1_def line_out_def take_Suc_conv_app_nth)
  have r1: "ring_ok ?t1" "ring_list ?t1 = ring_list t" using ok(2) by (simp_all add: ring_ok_def ring_list_def)
  obtain t' where t': "for_oc ring_put (take n b1) ?t1 = Done t'" "ring_ok t'"
      "ring_list t' = take 255 (ring_list t @ take n b1)" "without_ring t' = without_ring ?t1"
    using ring.put_all [OF r1(1), of "take n b1"] r1(2) by auto
  have lp: "for_oc (\<lambda>i t. bind_oc (line_get i t) (\<lambda>c. ring_put c t)) [0..<n] ?t1 = Done t'"
    using put_line_loop [OF r1(1), of n] t'(1) bl by simp
  have "flush_line t = bind_oc (Done ?t1) (\<lambda>t. bind_oc (for_oc (\<lambda>i t. bind_oc (line_get i t) (\<lambda>c. ring_put c t)) [0..<line_length t] t) (\<lambda>t.
       Done (t\<lparr>line_length := 0, line_cursor := 0, line_ready := True\<rparr>)))"
    unfolding flush_line_def by (rule bind_oc_cong) (use b in \<open>auto simp: line_put_def TTY_MAX_BUF_def n_def b1_def\<close>)
  then have "flush_line t = Done (t'\<lparr>line_length := 0, line_cursor := 0, line_ready := True\<rparr>)" using lp by simp
  then show ?thesis using t'(2,3,4) bl(1) unfolding line by blast
qed

section \<open>The line editor\<close>

text \<open>
  The abstract terminal input: the line left and right of the cursor, the queue of characters for the
  reader, the state of the escape sequence, and whether a line is ready.
\<close>
type_synonym line_view = "u8 list \<times> u8 list \<times> u8 list \<times> int \<times> bool"

definition view :: "tty \<Rightarrow> line_view" where
  "view t = (line_left t, line_right t, ring_list t, input_esc_state t, line_ready t)"

definition move :: "u8 \<Rightarrow> u8 list \<times> u8 list \<Rightarrow> u8 list \<times> u8 list" where
  "move c = (\<lambda>(l, r).
     if c = 0x43 then (l @ take 1 r, drop 1 r)
     else if c = 0x44 then (butlast l, (if l = [] then [] else [last l]) @ r)
     else if c = 0x48 then ([], l @ r)
     else if c = 0x46 then (l @ r, [])
     else (l, r))"

definition edit :: "u8 \<Rightarrow> line_view \<Rightarrow> line_view" where
  "edit c = (\<lambda>(l, r, q, e, rdy).
     if e = INPUT_STATE_ESC then (l, r, q, if c = 0x5B then INPUT_STATE_CSI else INPUT_STATE_NORMAL, rdy)
     else if e = INPUT_STATE_CSI then (fst (move c (l, r)), snd (move c (l, r)), q, INPUT_STATE_NORMAL, rdy)
     else if c = 0x1B then (l, r, q, INPUT_STATE_ESC, rdy)
     else if c = 0x0A \<or> c = 0x0D then ([], [], take 255 (q @ line_out (l @ r)), e, True)
     else if c = 0x08 \<or> c = 127 then (butlast l, r, q, e, rdy)
     else if c = 0x03 then ([], [], q, e, rdy)
     else if is_printable c \<and> length (l @ r) < 255 then (l @ [c], r, q, e, rdy)
     else (l, r, q, e, rdy))"

text \<open>The invariant of terminal input.  Only printable characters enter the line.\<close>
definition input_ok :: "tty \<Rightarrow> bool" where
  "input_ok t \<longleftrightarrow> line_ok t \<and> ring_ok t \<and> (\<forall>c \<in> set (line_left t @ line_right t). is_printable c)"

definition kept :: "nat \<Rightarrow> console \<Rightarrow> console \<Rightarrow> bool" where
  "kept i con con' \<longleftrightarrow> length (ttys con') = length (ttys con) \<and> current_tty con' = current_tty con \<and>
     (\<forall>j < length (ttys con). j \<noteq> i \<longrightarrow> tty_input_part (the_tty con' j) = tty_input_part (the_tty con j)) \<and>
     ldisc_mode (the_tty con' i) = ldisc_mode (the_tty con i) \<and> echo (the_tty con' i) = echo (the_tty con i)"

text \<open>A console reached from \<open>con0\<close> by input to terminal \<open>i\<close> that left the editor in \<open>v\<close>.\<close>
definition typed :: "nat \<Rightarrow> console \<Rightarrow> line_view \<Rightarrow> console \<Rightarrow> bool" where
  "typed i con0 v con \<longleftrightarrow> text_ok con \<and> i < length (ttys con) \<and> kept i con0 con \<and> input_ok (the_tty con i) \<and> view (the_tty con i) = v"

lemma input_part_view:
  assumes e: "tty_input_part t' = tty_input_part t"
  shows "view t' = view t" "input_ok t' = input_ok t"
proof -
  note D = input_partD [OF e]
  show "view t' = view t" using D by (simp add: view_def line_left_def line_right_def line_tail_def ring_list_def)
  show "input_ok t' = input_ok t"
    using D by (simp add: input_ok_def line_ok_def ring_ok_def line_left_def line_right_def line_tail_def)
qed

lemma typed_printed: "typed i con0 v con \<Longrightarrow> text_ok con' \<Longrightarrow> printed con con' \<Longrightarrow> typed i con0 v con'"
  using printedD [of con con'] input_part_view [of "the_tty con' i" "the_tty con i"] input_partD(4,5) [of "the_tty con' i" "the_tty con i"]
  by (auto simp: typed_def kept_def)

definition same_screen :: "tty \<Rightarrow> tty \<Rightarrow> bool" where
  "same_screen t t' \<longleftrightarrow> buffer t' = buffer t \<and> width t' = width t \<and> height t' = height t \<and> x_cursor t' = x_cursor t \<and>
     y_cursor t' = y_cursor t \<and> ldisc_mode t' = ldisc_mode t \<and> echo t' = echo t"

lemma text_ok_set_tty:
  assumes con: "text_ok con" and i: "i < length (ttys con)" and s: "same_screen (the_tty con i) t'"
  shows "text_ok (set_tty i t' con)"
proof -
  obtain f j where b: "console_base f j con" and cur: "\<forall>t \<in> set (ttys con). cursor_in t"
    using con by (auto simp: text_ok_def console_ok_def)
  have "tty_fits con f (the_tty con i)" "cursor_in (the_tty con i)" using b cur i by (auto simp: console_base_def the_tty_def)
  then have t': "tty_fits con f t'" "cursor_in t'"
    using s by (simp_all add: tty_fits_def same_screen_def cursor_in_def buffer_ok_def ascii_cells_def)
  have "console_base f j (set_tty i t' con)"
    using b t' i by (auto simp: console_base_def set_tty_def fb_ok_def tty_fits_cells dest!: set_update_subset_insert [THEN subsetD])
  moreover have "\<forall>t \<in> set (ttys (set_tty i t' con)). cursor_in t"
    using cur t'(2) by (auto simp: set_tty_def dest!: set_update_subset_insert [THEN subsetD])
  moreover have "p_state (set_tty i t' con) = HTERM_ESC" using con by (simp add: text_ok_def set_tty_def)
  ultimately show ?thesis by (auto simp: text_ok_def console_ok_def)
qed

lemma typed_with:
  assumes T: "typed i con0 v con" and g: "g (the_tty con i) = Done t'" and s: "same_screen (the_tty con i) t'"
    and v: "input_ok t'" "view t' = v'"
  shows "ok_oc (with_tty i g con) (typed i con0 v')"
proof -
  have i: "i < length (ttys con)" using T by (simp add: typed_def)
  have the: "the_tty (set_tty i t' con) j = (if j = i then t' else the_tty con j)" for j
    using i by (simp add: the_tty_def set_tty_def)
  have "kept i con0 (set_tty i t' con)"
    using T s the by (auto simp: typed_def kept_def set_tty_def the_tty_def same_screen_def)
  then have "typed i con0 v' (set_tty i t' con)"
    using T the v text_ok_set_tty [OF _ i s] by (simp add: typed_def set_tty_def)
  then show ?thesis using i g by (simp add: with_tty_def ok_oc_def)
qed

lemma typed_echo:
  assumes T: "typed i con0 v con" and p: "ok_oc (for_oc tty_putchar cs con) (\<lambda>con'. text_ok con' \<and> printed con con')"
  shows "ok_oc (echo_chars i cs con) (typed i con0 v)"
proof -
  obtain cur where "current_tty con = Some cur" using T by (auto simp: typed_def text_ok_def console_ok_def console_base_def)
  then have "\<exists>e. echoes i con = Done e" by (cases "echo (the_tty con i)") (auto simp: echoes_def)
  then obtain e where e: "echoes i con = Done e" by blast
  have "ok_oc (for_oc tty_putchar cs con) (typed i con0 v)"
    using p by (rule ok_mono) (use typed_printed [OF T] in blast)
  then show ?thesis using T e by (simp add: echo_chars_def ok_oc_def)
qed

lemma printable_ascii: "is_printable c \<Longrightarrow> c < 128 \<and> c \<noteq> 0x1B"
proof -
  assume p: "is_printable c"
  then have "c < 127" "c \<noteq> 0x1B" by (auto simp: is_printable_def)
  moreover have "(127 :: u8) \<le> 128" by simp
  ultimately show ?thesis using order.strict_trans2 by blast
qed

lemma echo_plain:
  assumes T: "typed i con0 v con" and cs: "\<And>c. c \<in> set cs \<Longrightarrow> c < 128 \<and> c \<noteq> 0x1B"
  shows "ok_oc (echo_chars i cs con) (typed i con0 v)"
  by (rule typed_echo [OF T putchars_ok]) (use T cs in \<open>simp_all add: typed_def\<close>)

lemma echo_move:
  assumes T: "typed i con0 v con" and c: "c = 0x43 \<or> c = 0x44"
  shows "ok_oc (echo_chars i [0x1B, 0x5B, c] con) (typed i con0 v)"
  by (rule typed_echo [OF T cursor_sequence_ok]) (use T c in \<open>simp_all add: typed_def\<close>)

text \<open>Moving the cursor within the line.\<close>
lemma moved_view:
  assumes ok: "input_ok t" and n: "n \<le> line_length t"
  shows "input_ok (t\<lparr>line_cursor := n\<rparr>)" "same_screen t (t\<lparr>line_cursor := n\<rparr>)"
    "view (t\<lparr>line_cursor := n\<rparr>) = (take n (line_left t @ line_right t), drop n (line_left t @ line_right t), ring_list t, input_esc_state t, line_ready t)"
proof -
  have lo: "line_ok t" using ok by (simp add: input_ok_def)
  then have b: "length (line_buffer t) = 256" "line_length t \<le> 255" by (simp_all add: line_ok_def)
  let ?t = "t\<lparr>line_cursor := n\<rparr>"
  have lo': "line_ok ?t" using lo n by (simp add: line_ok_def)
  have w: "line_left t @ line_right t = take (line_length t) (line_buffer t)" using line_whole [OF lo] .
  have l: "line_left ?t = take n (line_left t @ line_right t)" unfolding w using n by (simp add: line_left_def min_def)
  have r: "line_right ?t = drop n (line_left t @ line_right t)"
    unfolding w by (simp add: line_right_def line_tail_def slice_at_def drop_take)
  show "view ?t = (take n (line_left t @ line_right t), drop n (line_left t @ line_right t), ring_list t, input_esc_state t, line_ready t)"
    unfolding view_def l r by (simp add: ring_list_def)
  have "line_left ?t @ line_right ?t = line_left t @ line_right t" unfolding l r by (simp only: append_take_drop_id)
  then show "input_ok ?t" using ok lo' by (simp add: input_ok_def ring_ok_def)
  show "same_screen t ?t" by (simp add: same_screen_def)
qed

lemma cursor_step:
  assumes T: "typed i con0 (l, r, q, e, rdy) con" and n: "n \<le> length (l @ r)"
    and g: "g (the_tty con i) = Done ((the_tty con i)\<lparr>line_cursor := n\<rparr>)" and c: "c = 0x43 \<or> c = 0x44"
  shows "ok_oc (bind_oc (with_tty i g con) (echo_chars i [0x1B, 0x5B, c])) (typed i con0 (take n (l @ r), drop n (l @ r), q, e, rdy))"
proof -
  let ?t = "the_tty con i"
  have ok: "input_ok ?t" and v: "line_left ?t = l" "line_right ?t = r" "ring_list ?t = q" "input_esc_state ?t = e" "line_ready ?t = rdy"
    using T by (auto simp: typed_def view_def)
  have "line_ok ?t" using ok by (simp add: input_ok_def)
  then have len: "length (l @ r) = line_length ?t" using line_lengths [of ?t] v by (simp add: line_ok_def)
  note M = moved_view [OF ok n [unfolded len]]
  have V: "view (?t\<lparr>line_cursor := n\<rparr>) = (take n (l @ r), drop n (l @ r), q, e, rdy)" using M(3) v by simp
  show ?thesis
    by (rule ok_bind [OF typed_with [where g = g, OF T g M(2,1) V]]) (rule echo_move [OF _ c])
qed

lemma line_view_lengths:
  assumes "typed i con0 (l, r, q, e, rdy) con"
  shows "line_cursor (the_tty con i) = length l" "line_length (the_tty con i) = length l + length r" "length l + length r \<le> 255"
    "line_left (the_tty con i) = l" "line_right (the_tty con i) = r"
  using assms line_lengths [of "the_tty con i"] by (auto simp: typed_def view_def input_ok_def line_ok_def)

lemma cursor_right_typed:
  assumes T: "typed i con0 (l, x # r, q, e, rdy) con"
  shows "ok_oc (cursor_right i con) (typed i con0 (l @ [x], r, q, e, rdy))"
  using cursor_step [OF T, where n = "length l + 1" and g = "\<lambda>t. Done (t\<lparr>line_cursor := line_cursor t + 1\<rparr>)" and c = "0x43"] line_view_lengths(1) [OF T]
  by (simp add: cursor_right_def)

lemma cursor_left_typed:
  assumes T: "typed i con0 (l @ [x], r, q, e, rdy) con"
  shows "ok_oc (cursor_left i con) (typed i con0 (l, x # r, q, e, rdy))"
  using cursor_step [OF T, where n = "length l" and g = "\<lambda>t. Done (t\<lparr>line_cursor := line_cursor t - 1\<rparr>)" and c = "0x44"] line_view_lengths(1) [OF T]
  by (simp add: cursor_left_def)

lemma home_typed:
  "typed i con0 (l, r, q, e, rdy) con \<Longrightarrow>
   ok_oc (for_oc (\<lambda>_. cursor_left i) [0..<length l] con) (typed i con0 ([], l @ r, q, e, rdy))"
proof -
  assume T: "typed i con0 (l, r, q, e, rdy) con"
  have "ok_oc (for_oc (\<lambda>_. cursor_left i) [0..<length l] con)
      (typed i con0 (take (length l - length l) l, drop (length l - length l) l @ r, q, e, rdy))"
  proof (rule ok_for_upt [where I = "\<lambda>k. typed i con0 (take (length l - k) l, drop (length l - k) l @ r, q, e, rdy)"])
    fix k s assume k: "k < length l" and s: "typed i con0 (take (length l - k) l, drop (length l - k) l @ r, q, e, rdy) s"
    define m where "m = length l - Suc k"
    have m: "length l - k = Suc m" "m < length l" using k by (simp_all add: m_def)
    have "take (Suc m) l = take m l @ [l ! m]" "drop m l = l ! m # drop (Suc m) l"
      using m(2) by (simp_all add: take_Suc_conv_app_nth Cons_nth_drop_Suc)
    then show "ok_oc (cursor_left i s) (typed i con0 (take (length l - Suc k) l, drop (length l - Suc k) l @ r, q, e, rdy))"
      using cursor_left_typed [of i con0 "take m l" "l ! m" "drop (Suc m) l @ r" q e rdy s] s unfolding m(1) m_def [symmetric] by simp
  qed (use T in simp_all)
  then show ?thesis by simp
qed

lemma end_typed:
  "typed i con0 (l, r, q, e, rdy) con \<Longrightarrow>
   ok_oc (for_oc (\<lambda>_. cursor_right i) [length l..<length l + length r] con) (typed i con0 (l @ r, [], q, e, rdy))"
proof -
  assume T: "typed i con0 (l, r, q, e, rdy) con"
  have "ok_oc (for_oc (\<lambda>_. cursor_right i) [length l..<length l + length r] con)
      (typed i con0 (take (length l + length r) (l @ r), drop (length l + length r) (l @ r), q, e, rdy))"
  proof (rule ok_for_upt [where I = "\<lambda>k. typed i con0 (take k (l @ r), drop k (l @ r), q, e, rdy)"])
    fix k s assume k: "k < length l + length r" and s: "typed i con0 (take k (l @ r), drop k (l @ r), q, e, rdy) s"
    have "take (Suc k) (l @ r) = take k (l @ r) @ [(l @ r) ! k]" "drop k (l @ r) = (l @ r) ! k # drop (Suc k) (l @ r)"
      using k by (simp_all add: take_Suc_conv_app_nth Cons_nth_drop_Suc del: take_append drop_append)
    then show "ok_oc (cursor_right i s) (typed i con0 (take (Suc k) (l @ r), drop (Suc k) (l @ r), q, e, rdy))"
      using cursor_right_typed [of i con0 "take k (l @ r)" "(l @ r) ! k" "drop (Suc k) (l @ r)" q e rdy s] s by (simp only:)
  qed (use T in simp_all)
  then show ?thesis by simp
qed

text \<open>The single operations on the line, as steps of the editor.\<close>

lemma line_change:
  assumes ok: "input_ok t" and b: "length b = 256" "m \<le> n" "n \<le> 255" "take m b = l" "slice_at b m (n - m) = r"
    and p: "\<forall>c \<in> set (l @ r). is_printable c" and t': "t' = t\<lparr>line_buffer := b, line_length := n, line_cursor := m\<rparr>"
  shows "input_ok t' \<and> same_screen t t' \<and> view t' = (l, r, ring_list t, input_esc_state t, line_ready t)"
  using assms by (simp add: input_ok_def line_ok_def ring_ok_def line_left_def line_right_def line_tail_def view_def same_screen_def ring_list_def)

lemma erase_typed:
  assumes T: "typed i con0 (l, r, q, e, rdy) con" and l: "l \<noteq> []"
  shows "ok_oc (with_tty i erase_char con) (typed i con0 (butlast l, r, q, e, rdy))"
proof -
  let ?t = "the_tty con i"
  have ok: "input_ok ?t" and lo: "line_ok ?t" and v: "ring_list ?t = q" "input_esc_state ?t = e" "line_ready ?t = rdy"
    using T by (auto simp: typed_def view_def input_ok_def)
  note L = line_view_lengths [OF T]
  obtain b where b: "erase_char ?t = Done (?t\<lparr>line_buffer := b, line_length := line_length ?t - 1, line_cursor := line_cursor ?t - 1\<rparr>)"
      "length b = 256" "take (line_cursor ?t - 1) b = butlast l" "slice_at b (line_cursor ?t - 1) (line_length ?t - line_cursor ?t) = r"
    using erase_char_spec [OF lo] l L by auto
  have p: "\<forall>c \<in> set (butlast l @ r). is_printable c" using ok L by (auto simp: input_ok_def dest: in_set_butlastD)
  have ar: "line_length ?t - 1 - (line_cursor ?t - 1) = line_length ?t - line_cursor ?t" using L l by (cases l) auto
  note C = line_change [OF ok b(2) _ _ b(3) b(4) [folded ar] p refl]
  have "input_ok (?t\<lparr>line_buffer := b, line_length := line_length ?t - 1, line_cursor := line_cursor ?t - 1\<rparr>) \<and>
      same_screen ?t (?t\<lparr>line_buffer := b, line_length := line_length ?t - 1, line_cursor := line_cursor ?t - 1\<rparr>) \<and>
      view (?t\<lparr>line_buffer := b, line_length := line_length ?t - 1, line_cursor := line_cursor ?t - 1\<rparr>) = (butlast l, r, q, e, rdy)"
    using C L unfolding v by (simp add: ar)
  then show ?thesis using typed_with [where g = erase_char, OF T b(1)] by blast
qed

lemma insert_typed:
  assumes T: "typed i con0 (l, r, q, e, rdy) con" and room: "length (l @ r) < 255" and c: "is_printable c"
  shows "ok_oc (with_tty i (insert_char c) con) (typed i con0 (l @ [c], r, q, e, rdy))"
proof -
  let ?t = "the_tty con i"
  have ok: "input_ok ?t" and lo: "line_ok ?t" and v: "ring_list ?t = q" "input_esc_state ?t = e" "line_ready ?t = rdy"
    using T by (auto simp: typed_def view_def input_ok_def)
  note L = line_view_lengths [OF T]
  have "line_length ?t < 255" using room L by simp
  then obtain b where b: "insert_char c ?t = Done (?t\<lparr>line_buffer := b, line_length := line_length ?t + 1, line_cursor := line_cursor ?t + 1\<rparr>)"
      "length b = 256" "take (line_cursor ?t + 1) b = l @ [c]" "slice_at b (line_cursor ?t + 1) (line_length ?t - line_cursor ?t) = r"
    using insert_char_spec [OF lo] L by auto
  have p: "\<forall>d \<in> set ((l @ [c]) @ r). is_printable d" using ok L c by (auto simp: input_ok_def)
  have ar: "line_length ?t + 1 - (line_cursor ?t + 1) = line_length ?t - line_cursor ?t" by simp
  note C = line_change [OF ok b(2) _ _ b(3) b(4) [folded ar] p refl]
  have "input_ok (?t\<lparr>line_buffer := b, line_length := line_length ?t + 1, line_cursor := line_cursor ?t + 1\<rparr>) \<and>
      same_screen ?t (?t\<lparr>line_buffer := b, line_length := line_length ?t + 1, line_cursor := line_cursor ?t + 1\<rparr>) \<and>
      view (?t\<lparr>line_buffer := b, line_length := line_length ?t + 1, line_cursor := line_cursor ?t + 1\<rparr>) = (l @ [c], r, q, e, rdy)"
    using C L room unfolding v by simp
  then show ?thesis using typed_with [where g = "insert_char c", OF T b(1)] by blast
qed

lemma flush_typed:
  assumes T: "typed i con0 (l, r, q, e, rdy) con"
  shows "ok_oc (with_tty i flush_line con) (typed i con0 ([], [], take 255 (q @ line_out (l @ r)), e, True))"
proof -
  let ?t = "the_tty con i"
  have ok: "line_ok ?t" "ring_ok ?t" and v: "ring_list ?t = q" "input_esc_state ?t = e"
    using T by (auto simp: typed_def view_def input_ok_def)
  note L = line_view_lengths [OF T]
  obtain t' b n where t': "flush_line ?t = Done (t'\<lparr>line_length := 0, line_cursor := 0, line_ready := True\<rparr>)" "ring_ok t'"
      "ring_list t' = take 255 (q @ line_out (l @ r))" "length b = 256"
      "without_ring t' = without_ring (?t\<lparr>line_buffer := b, line_length := n\<rparr>)"
    using flush_line_spec [OF ok] v L by auto
  note R = without_ringD [OF t'(5)]
  let ?t' = "t'\<lparr>line_length := 0, line_cursor := 0, line_ready := True\<rparr>"
  have "input_ok ?t'" using t'(2,4) R by (simp add: input_ok_def line_ok_def ring_ok_def line_left_def line_right_def line_tail_def slice_at_def)
  moreover have "same_screen ?t ?t'" using R by (simp add: same_screen_def)
  moreover have "view ?t' = ([], [], take 255 (q @ line_out (l @ r)), e, True)"
    using t'(3) R v by (simp add: view_def line_left_def line_right_def line_tail_def slice_at_def ring_list_def)
  ultimately show ?thesis using typed_with [where g = flush_line, OF T t'(1)] by blast
qed

lemma tail_printable:
  assumes T: "typed i con0 v con" and c: "c \<in> set (line_tail k (the_tty con i))"
  shows "c < 128 \<and> c \<noteq> 0x1B"
proof -
  let ?t = "the_tty con i"
  have ok: "line_ok ?t" "\<forall>c \<in> set (line_left ?t @ line_right ?t). is_printable c" using T by (simp_all add: typed_def input_ok_def)
  have "c \<in> set (drop k (take (line_length ?t) (line_buffer ?t)))" using c by (simp add: line_tail_def slice_at_def drop_take)
  then have "c \<in> set (take (line_length ?t) (line_buffer ?t))" by (rule in_set_dropD)
  then show ?thesis using ok(2) unfolding line_whole [OF ok(1)] by (intro printable_ascii) blast
qed

lemma csi_typed:
  assumes T: "typed i con0 (l, r, q, e, rdy) con"
  shows "ok_oc (input_csi i c con) (typed i con0 (fst (move c (l, r)), snd (move c (l, r)), q, e, rdy))"
proof -
  note L = line_view_lengths [OF T]
  consider "c = 0x43" | "c = 0x44" | "c = 0x48" | "c = 0x46" | "c \<noteq> 0x43" "c \<noteq> 0x44" "c \<noteq> 0x48" "c \<noteq> 0x46" by blast
  then show ?thesis
  proof cases
    case 1
    show ?thesis
    proof (cases r)
      case Nil
      then show ?thesis using 1 T L by (simp add: input_csi_def move_def ok_oc_def)
    next
      case (Cons x r')
      then show ?thesis using 1 T L cursor_right_typed [of i con0 l x r'] by (simp add: input_csi_def move_def)
    qed
  next
    case 2
    show ?thesis
    proof (cases l rule: rev_cases)
      case Nil
      then show ?thesis using 2 T L by (simp add: input_csi_def move_def ok_oc_def)
    next
      case (snoc l' x)
      then show ?thesis using 2 T L cursor_left_typed [of i con0 l' x r] by (simp add: input_csi_def move_def)
    qed
  next
    case 3
    then show ?thesis using home_typed [OF T] L by (simp add: input_csi_def move_def)
  next
    case 4
    then show ?thesis using end_typed [OF T] L by (simp add: input_csi_def move_def)
  next
    case 5
    then show ?thesis using T by (simp add: input_csi_def move_def ok_oc_def)
  qed
qed

lemma canonical_typed:
  assumes T: "typed i con0 (l, r, q, e, rdy) con" and e: "e \<noteq> INPUT_STATE_ESC" "e \<noteq> INPUT_STATE_CSI"
  shows "ok_oc (canonical_char i c con) (typed i con0 (edit c (l, r, q, e, rdy)))"
proof -
  let ?t = "the_tty con i"
  note L = line_view_lengths [OF T]
  have iok: "input_ok ?t" using T by (simp add: typed_def)
  have i: "current_tty con \<noteq> None" using T by (auto simp: typed_def text_ok_def console_ok_def console_base_def)
  consider "c = 0x1B" | "c = 0x0A \<or> c = 0x0D" | "c = 0x08 \<or> c = 127" | "c = 0x03" | "c = 0x0C" | "is_printable c"
    | "c \<notin> {0x1B, 0x0A, 0x0D, 0x08, 127, 0x03, 0x0C}" "\<not> is_printable c" by blast
  then show ?thesis
  proof cases
    case 1
    have "ok_oc (with_tty i (\<lambda>t. Done (t\<lparr>input_esc_state := INPUT_STATE_ESC\<rparr>)) con) (typed i con0 (l, r, q, INPUT_STATE_ESC, rdy))"
      by (rule typed_with [OF T refl])
        (use iok T in \<open>simp_all add: same_screen_def input_ok_def line_ok_def ring_ok_def line_left_def line_right_def line_tail_def view_def typed_def ring_list_def\<close>)
    then show ?thesis using 1 e by (simp add: canonical_char_def edit_def)
  next
    case 2
    have "ok_oc (bind_oc (with_tty i flush_line con) (echo_chars i [0x0A])) (typed i con0 ([], [], take 255 (q @ line_out (l @ r)), e, True))"
      by (rule ok_bind [OF flush_typed [OF T]], erule echo_plain) simp
    then show ?thesis using 2 e by (auto simp: canonical_char_def edit_def)
  next
    case 3
    show ?thesis
    proof (cases "l = []")
      case True
      then show ?thesis using 3 e T L by (auto simp: canonical_char_def edit_def ok_oc_def)
    next
      case False
      have "ok_oc (bind_oc (with_tty i erase_char con) (\<lambda>con. let t = the_tty con i
            in echo_chars i (0x08 # line_tail (line_cursor t) t @ 0x20 # replicate (line_length t + 1 - line_cursor t) 0x08) con))
          (typed i con0 (butlast l, r, q, e, rdy))"
        unfolding Let_def by (rule ok_bind [OF erase_typed [OF T False]], rule echo_plain, assumption)
          (auto dest: tail_printable split: if_splits)
      then show ?thesis using 3 e L False by (auto simp: canonical_char_def edit_def)
    qed
  next
    case 4
    have "ok_oc (with_tty i (\<lambda>t. Done (t\<lparr>line_length := 0, line_cursor := 0\<rparr>)) con) (typed i con0 ([], [], q, e, rdy))"
      by (rule typed_with [OF T refl])
        (use iok T in \<open>simp_all add: same_screen_def input_ok_def line_ok_def ring_ok_def line_left_def line_right_def line_tail_def view_def typed_def ring_list_def slice_at_def\<close>)
    then have "ok_oc (bind_oc (with_tty i (\<lambda>t. Done (t\<lparr>line_length := 0, line_cursor := 0\<rparr>)) con) (echo_chars i [0x5E, 0x43, 0x0A]))
        (typed i con0 ([], [], q, e, rdy))"
      by (rule ok_bind) (erule echo_plain, auto)
    then show ?thesis using 4 e by (simp add: canonical_char_def edit_def)
  next
    case 5
    have "ok_oc (tty_clear con) (typed i con0 (l, r, q, e, rdy))"
    proof (rule ok_mono [OF tty_clear_ok])
      show "text_ok con" using T by (simp add: typed_def)
      show "typed i con0 (l, r, q, e, rdy) con'" if "text_ok con' \<and> printed con con'" for con'
        using that typed_printed [OF T] by blast
    qed
    then show ?thesis using 5 e i T by (auto simp: canonical_char_def edit_def is_printable_def ok_oc_def)
  next
    case 6
    then have n: "c \<noteq> 0x1B" "c \<noteq> 0x0A" "c \<noteq> 0x0D" "c \<noteq> 0x08" "c \<noteq> 127" "c \<noteq> 0x03" "c \<noteq> 0x0C" by (auto simp: is_printable_def)
    show ?thesis
    proof (cases "length (l @ r) < 255")
      case True
      have "ok_oc (bind_oc (with_tty i (insert_char c) con) (\<lambda>con. let t = the_tty con i
            in echo_chars i (line_tail (line_cursor t - 1) t @ replicate (line_length t - line_cursor t) 0x08) con))
          (typed i con0 (l @ [c], r, q, e, rdy))"
        unfolding Let_def by (rule ok_bind [OF insert_typed [OF T True 6]], rule echo_plain, assumption)
          (auto dest: tail_printable split: if_splits)
      then show ?thesis using 6 n e L True by (simp add: canonical_char_def edit_def TTY_MAX_BUF_def)
    next
      case False
      then show ?thesis using 6 n e L T by (simp add: canonical_char_def edit_def TTY_MAX_BUF_def ok_oc_def)
    qed
  next
    case 7
    then show ?thesis using e T by (simp add: canonical_char_def edit_def ok_oc_def)
  qed
qed

lemma input_char_typed:
  assumes T: "typed i con0 v con" and m: "ldisc_mode (the_tty con i) = TTY_CANONICAL"
  shows "ok_oc (tty_input_char i c con) (typed i con0 (edit c v))"
proof -
  obtain l r q e rdy where v: "v = (l, r, q, e, rdy)" by (cases v) auto
  have iok: "input_ok (the_tty con i)" and i: "i < length (ttys con)" and e: "input_esc_state (the_tty con i) = e"
    using T by (auto simp: typed_def v view_def)
  have esc: "ok_oc (with_tty i (\<lambda>t. Done (t\<lparr>input_esc_state := x\<rparr>)) con) (typed i con0 (l, r, q, x, rdy))" for x
    by (rule typed_with [OF T refl])
      (use iok T in \<open>simp_all add: v same_screen_def input_ok_def line_ok_def ring_ok_def line_left_def line_right_def line_tail_def view_def typed_def ring_list_def\<close>)
  have raw: "ldisc_mode (the_tty con i) \<noteq> TTY_RAW" using m by (simp add: TTY_RAW_def TTY_CANONICAL_def)
  consider "e = INPUT_STATE_ESC" | "e = INPUT_STATE_CSI" | "e \<noteq> INPUT_STATE_ESC" "e \<noteq> INPUT_STATE_CSI" by blast
  then show ?thesis
  proof cases
    case 1
    then show ?thesis using i raw e esc by (simp add: tty_input_char_def edit_def v)
  next
    case 2
    have "ok_oc (bind_oc (with_tty i (\<lambda>t. Done (t\<lparr>input_esc_state := INPUT_STATE_NORMAL\<rparr>)) con) (input_csi i c))
        (typed i con0 (fst (move c (l, r)), snd (move c (l, r)), q, INPUT_STATE_NORMAL, rdy))"
      by (rule ok_bind [OF esc]) (rule csi_typed)
    moreover have "INPUT_STATE_CSI \<noteq> INPUT_STATE_ESC" by (simp add: INPUT_STATE_CSI_def INPUT_STATE_ESC_def)
    ultimately show ?thesis using 2 i raw e by (simp add: tty_input_char_def edit_def v)
  next
    case 3
    then show ?thesis using i raw e canonical_typed [OF T [unfolded v] 3] by (simp add: tty_input_char_def v)
  qed
qed

section \<open>Reading\<close>

text \<open>What a reader with room for \<open>n\<close> characters gets of the queue.\<close>
definition first_line :: "u8 list \<Rightarrow> u8 list" where
  "first_line q = takeWhile (\<lambda>c. c \<noteq> 0x0A) q @ take 1 (dropWhile (\<lambda>c. c \<noteq> 0x0A) q)"

lemma first_line_Cons: "first_line (c # q) = (if c = 0x0A then [c] else c # first_line q)"
  by (simp add: first_line_def)

lemma read_ring_spec:
  assumes "ring_ok t"
  shows "\<exists>t'. read_ring canonical n t = Done (take n (if canonical then first_line (ring_list t) else ring_list t), t') \<and> ring_ok t' \<and>
    ring_list t' = drop (length (take n (if canonical then first_line (ring_list t) else ring_list t))) (ring_list t) \<and>
    without_ring t' = without_ring t"
  using assms
proof (induction n arbitrary: t)
  case 0
  then show ?case by simp
next
  case (Suc n)
  show ?case
  proof (cases "ring_list t")
    case Nil
    then show ?thesis using Suc.prems ring_empty [OF Suc.prems] by (simp add: first_line_def)
  next
    case (Cons c q)
    obtain t1 where t1: "ring_get t = Done (c, t1)" "ring_ok t1" "ring_list t1 = q" "without_ring t1 = without_ring t"
      using ring_get_spec [OF Suc.prems] Cons by auto
    have ne: "input_tail t \<noteq> input_head t" using ring_empty [OF Suc.prems] Cons by auto
    show ?thesis
    proof (cases "canonical \<and> c = 0x0A")
      case True
      then show ?thesis using t1 ne Cons by (simp add: first_line_Cons)
    next
      case False
      obtain t2 where "read_ring canonical n t1 = Done (take n (if canonical then first_line q else q), t2)" "ring_ok t2"
          "ring_list t2 = drop (length (take n (if canonical then first_line q else q))) q" "without_ring t2 = without_ring t1"
        using Suc.IH [OF t1(2)] t1(3) by auto
      then show ?thesis using t1 ne Cons False by (auto simp: first_line_Cons)
    qed
  qed
qed

section \<open>Properties\<close>

text \<open>
  C30. Terminal input refines a line editor.  In canonical mode a received character never makes the
  kernel touch memory outside its buffers, whatever echo it prints, and the line left and right of the
  cursor, the queue for the reader, the escape state and the ready flag change as in \<open>edit\<close>: insertion,
  erasure, cursor keys, home and end, and the end of a line, which moves the line into the queue as far
  as the 255 places of the ring buffer last.  No other terminal changes its input.
\<close>
theorem input_char_refines_editor:
  assumes "text_ok con" "i < length (ttys con)" "input_ok (the_tty con i)" "ldisc_mode (the_tty con i) = TTY_CANONICAL"
  shows "\<exists>con'. tty_input_char i c con = Done con' \<and> text_ok con' \<and> input_ok (the_tty con' i) \<and>
    view (the_tty con' i) = edit c (view (the_tty con i)) \<and> kept i con con'"
proof -
  have "typed i con (view (the_tty con i)) con" using assms by (simp add: typed_def kept_def)
  from input_char_typed [OF this assms(4)] show ?thesis by (auto simp: typed_def ok_oc_def)
qed

text \<open>A console with one terminal of 3 by 2 cells and a font of one pixel for each character.\<close>
definition demo_console :: console where
  "demo_console = \<lparr>fb_pixels = replicate 6 0, fb_width = 3, fb_height = 2,
     g_font = Some \<lparr>bytesperglyph = 1, glyph_height = 1, glyph_width = 1, glyphs = replicate 128 0\<rparr>,
     ttys = [demo_tty], current_tty = Some 0, colors = replicate 16 0, currentBg = 0, currentFg = 0, glob_x = 0, glob_y = 0,
     cursor_visible = True, fg_bold = False, bg_bold = False, p_state = HTERM_ESC, p_index = 0, p_args = replicate 8 (0, False)\<rparr>"

lemma demo_console_ok:
  "text_ok demo_console" "0 < length (ttys demo_console)" "input_ok (the_tty demo_console 0)"
  "ldisc_mode (the_tty demo_console 0) = TTY_CANONICAL" "view (the_tty demo_console 0) = ([], [], [], INPUT_STATE_NORMAL, False)"
proof -
  have "fb_ok demo_console" by (simp add: fb_ok_def demo_console_def)
  moreover have "tty_fits demo_console \<lparr>bytesperglyph = 1, glyph_height = 1, glyph_width = 1, glyphs = replicate 128 0\<rparr> demo_tty"
    by (simp add: tty_fits_def demo_console_def demo_tty_def buffer_ok_def ascii_cells_def)
  moreover have "font_ok \<lparr>bytesperglyph = 1, glyph_height = 1, glyph_width = 1, glyphs = replicate 128 0\<rparr>" by (simp add: font_ok_def)
  moreover have "cursor_in demo_tty" by (simp add: cursor_in_def demo_tty_def)
  ultimately have "console_ok demo_console" unfolding console_ok_def console_base_def
    by (intro conjI exI [of _ "\<lparr>bytesperglyph = 1, glyph_height = 1, glyph_width = 1, glyphs = replicate 128 0\<rparr>"] exI [of _ 0])
      (simp_all add: demo_console_def MAX_ARGS_def)
  then show "text_ok demo_console" by (simp add: text_ok_def demo_console_def)
  show "0 < length (ttys demo_console)" by (simp add: demo_console_def)
  have t: "the_tty demo_console 0 = demo_tty" by (simp add: the_tty_def demo_console_def)
  show "input_ok (the_tty demo_console 0)" unfolding t
    by (simp add: input_ok_def line_ok_def ring_ok_def line_left_def line_right_def line_tail_def slice_at_def demo_tty_def)
  show "ldisc_mode (the_tty demo_console 0) = TTY_CANONICAL" unfolding t by (simp add: demo_tty_def)
  show "view (the_tty demo_console 0) = ([], [], [], INPUT_STATE_NORMAL, False)" unfolding t
    by (simp add: view_def line_left_def line_right_def line_tail_def slice_at_def ring_list_def demo_tty_def)
qed

theorem input_char_refines_editor_witness:
  "\<exists>con'. tty_input_char 0 0x41 demo_console = Done con' \<and> view (the_tty con' 0) = ([0x41], [], [], INPUT_STATE_NORMAL, False)"
proof -
  have "edit 0x41 ([], [], [], INPUT_STATE_NORMAL, False) = ([0x41], [], [], INPUT_STATE_NORMAL, False)"
    by (simp add: edit_def INPUT_STATE_NORMAL_def INPUT_STATE_ESC_def INPUT_STATE_CSI_def is_printable_def)
  then show ?thesis using input_char_refines_editor [OF demo_console_ok(1-4), of "0x41"] demo_console_ok(5) by auto
qed

end
