(* ===== verification/Keyboard.thy ===== *)
theory Keyboard
  imports LineDisc
begin

unbundle bit_operations_syntax

text \<open>
  The keyboard driver, \<open>src/src/drivers/keyboard.c\<close>: scan codes, modifier keys, the two key maps, and
  where a character goes: to the line discipline of the current terminal, and into \<open>buf_char\<close> for
  \<open>keyboard_read\<close>.
\<close>

section \<open>State\<close>

record kbd =
  buf_char :: u8
  last_scancode :: u8
  isShift :: u8
  isCtrl :: u8
  isAlt :: u8
  caps :: u8
  isExtended :: u8
  irq_done :: int

definition LEFT_SHIFT_PRESSED :: u8 where "LEFT_SHIFT_PRESSED = 0x2A"
definition LEFT_SHIFT_RELEASED :: u8 where "LEFT_SHIFT_RELEASED = 0xAA"
definition RIGHT_SHIFT_PRESSED :: u8 where "RIGHT_SHIFT_PRESSED = 0x36"
definition RIGHT_SHIFT_RELEASED :: u8 where "RIGHT_SHIFT_RELEASED = 0xB6"
definition CAPS_LOCK :: u8 where "CAPS_LOCK = 0x3A"
definition LEFT_CTRL_PRESSED :: u8 where "LEFT_CTRL_PRESSED = 0x1D"
definition LEFT_CTRL_RELEASED :: u8 where "LEFT_CTRL_RELEASED = 0x9D"
definition LEFT_ALT_PRESSED :: u8 where "LEFT_ALT_PRESSED = 0x38"
definition LEFT_ALT_RELEASED :: u8 where "LEFT_ALT_RELEASED = 0xB8"
definition KEY_1 :: u8 where "KEY_1 = 0x02"
definition KEY_2 :: u8 where "KEY_2 = 0x03"
definition KEY_3 :: u8 where "KEY_3 = 0x04"
definition KEY_4 :: u8 where "KEY_4 = 0x05"
definition EXTENDED_SCANCODE :: u8 where "EXTENDED_SCANCODE = 0xE0"
definition KEY_UP :: u8 where "KEY_UP = 0x48"
definition KEY_DOWN :: u8 where "KEY_DOWN = 0x50"
definition KEY_LEFT :: u8 where "KEY_LEFT = 0x4B"
definition KEY_RIGHT :: u8 where "KEY_RIGHT = 0x4D"
definition KEY_HOME :: u8 where "KEY_HOME = 0x47"
definition KEY_END :: u8 where "KEY_END = 0x4F"
definition KEY_DELETE :: u8 where "KEY_DELETE = 0x53"

definition keyMap_normal :: "u8 list" where
  "keyMap_normal =
     [0, 27, 0x31, 0x32, 0x33, 0x34, 0x35, 0x36, 0x37, 0x38, 0x39, 0x30, 0x2D, 0x3D, 0x08,
      0x09, 0x71, 0x77, 0x65, 0x72, 0x74, 0x79, 0x75, 0x69, 0x6F, 0x70, 0x5B, 0x5D, 0x0A, 0,
      0x61, 0x73, 0x64, 0x66, 0x67, 0x68, 0x6A, 0x6B, 0x6C, 0x3B, 0x27, 0x60, 0, 0x5C,
      0x7A, 0x78, 0x63, 0x76, 0x62, 0x6E, 0x6D, 0x2C, 0x2E, 0x2F, 0, 0x2A, 0, 0x20]"

definition keyMap_shift :: "u8 list" where
  "keyMap_shift =
     [0, 27, 0x21, 0x40, 0x23, 0x24, 0x25, 0x5E, 0x26, 0x2A, 0x28, 0x29, 0x5F, 0x2B, 0x08,
      0x09, 0x51, 0x57, 0x45, 0x52, 0x54, 0x59, 0x55, 0x49, 0x4F, 0x50, 0x7B, 0x7D, 0x0A, 0,
      0x41, 0x53, 0x44, 0x46, 0x47, 0x48, 0x4A, 0x4B, 0x4C, 0x3A, 0x22, 0x7E, 0, 0x7C,
      0x5A, 0x58, 0x43, 0x56, 0x42, 0x4E, 0x4D, 0x3C, 0x3E, 0x3F, 0, 0x2A, 0, 0x20]"

section \<open>Keys\<close>

definition key_at :: "u8 list \<Rightarrow> u8 \<Rightarrow> u8 outcome" where
  "key_at km scancode = (if unat scancode < length km then Done (km ! unat scancode) else Wild)"

text \<open>The bound is 58, one more than the last index of the maps.\<close>
definition translate :: "kbd \<Rightarrow> u8 \<Rightarrow> u8 outcome" where
  "translate k scancode =
     (if 58 < scancode then Done 0
      else if isShift k = 1 then key_at keyMap_shift scancode
      else bind_oc (key_at keyMap_normal scancode) (\<lambda>c.
        if caps k = 1 \<and> 97 \<le> c \<and> c \<le> 122 then Done (c - 32) else Done c))"

text \<open>A sequence of characters to the current terminal, if there is one.\<close>
definition to_current :: "u8 list \<Rightarrow> console \<Rightarrow> console outcome" where
  "to_current cs con =
     (case current_tty con of None \<Rightarrow> Done con | Some i \<Rightarrow> for_oc (tty_input_char i) cs con)"

definition arrow_sequence :: "u8 \<Rightarrow> u8 list" where
  "arrow_sequence scancode =
     (if scancode = KEY_UP then [0x1B, 0x5B, 0x41]
      else if scancode = KEY_DOWN then [0x1B, 0x5B, 0x42]
      else if scancode = KEY_RIGHT then [0x1B, 0x5B, 0x43]
      else if scancode = KEY_LEFT then [0x1B, 0x5B, 0x44]
      else if scancode = KEY_HOME then [0x1B, 0x5B, 0x48]
      else if scancode = KEY_END then [0x1B, 0x5B, 0x46]
      else if scancode = KEY_DELETE then [0x1B, 0x5B, 0x33, 0x7E]
      else [])"

definition modifier_key :: "u8 \<Rightarrow> kbd \<Rightarrow> kbd option" where
  "modifier_key scancode k =
     (if scancode = LEFT_SHIFT_PRESSED \<or> scancode = RIGHT_SHIFT_PRESSED then Some (k\<lparr>isShift := 1\<rparr>)
      else if scancode = LEFT_SHIFT_RELEASED \<or> scancode = RIGHT_SHIFT_RELEASED then Some (k\<lparr>isShift := 0\<rparr>)
      else if scancode = LEFT_CTRL_PRESSED then Some (k\<lparr>isCtrl := 1\<rparr>)
      else if scancode = LEFT_CTRL_RELEASED then Some (k\<lparr>isCtrl := 0\<rparr>)
      else if scancode = LEFT_ALT_PRESSED then Some (k\<lparr>isAlt := 1\<rparr>)
      else if scancode = LEFT_ALT_RELEASED then Some (k\<lparr>isAlt := 0\<rparr>)
      else if scancode = CAPS_LOCK then Some (k\<lparr>caps := if caps k = 0 then 1 else if caps k = 1 then 0 else caps k\<rparr>)
      else None)"

definition switch_key :: "u8 \<Rightarrow> nat option" where
  "switch_key scancode =
     (if scancode = KEY_1 then Some 0 else if scancode = KEY_2 then Some 1
      else if scancode = KEY_3 then Some 2 else if scancode = KEY_4 then Some 3 else None)"

text \<open>\<open>ascii > 0\<close> on a signed character.\<close>
definition plain_key :: "u8 \<Rightarrow> kbd \<Rightarrow> console \<Rightarrow> (kbd \<times> console) outcome" where
  "plain_key scancode k con =
     bind_oc (translate k scancode) (\<lambda>ascii.
       bind_oc
         (if 0 < sint ascii
          then bind_oc (to_current [ascii] con) (\<lambda>con. Done (k\<lparr>buf_char := ascii, irq_done := 1\<rparr>, con))
          else Done (k, con))
         (\<lambda>(k, con). Done (k\<lparr>last_scancode := scancode\<rparr>, con)))"

definition handleKey_normal :: "u8 \<Rightarrow> kbd \<Rightarrow> console \<Rightarrow> (kbd \<times> console) outcome" where
  "handleKey_normal scancode k con =
     (if scancode = EXTENDED_SCANCODE then Done (k\<lparr>isExtended := 1\<rparr>, con)
      else if isExtended k \<noteq> 0 then
        let k = k\<lparr>isExtended := 0\<rparr>
        in if scancode AND 0x80 \<noteq> 0 then Done (k, con)
           else bind_oc (to_current (arrow_sequence scancode) con) (\<lambda>con. Done (k, con))
      else
        case modifier_key scancode k of
          Some k \<Rightarrow> Done (k, con)
        | None \<Rightarrow>
            (case (if isCtrl k \<noteq> 0 then switch_key scancode else None) of
               Some i \<Rightarrow> bind_oc (tty_switch i con) (\<lambda>con. Done (k, con))
             | None \<Rightarrow> plain_key scancode k con))"

text \<open>\<open>None\<close> is the wait for the next interrupt.\<close>
definition keyboard_read :: "kbd \<Rightarrow> (u8 \<times> kbd) option" where
  "keyboard_read k = (if irq_done k \<noteq> 1 then None else Some (buf_char k, k\<lparr>irq_done := 0\<rparr>))"

text \<open>A sequence of interrupts.\<close>
definition press_keys :: "u8 list \<Rightarrow> kbd \<times> console \<Rightarrow> (kbd \<times> console) outcome" where
  "press_keys = for_oc (\<lambda>scancode (k, con). handleKey_normal scancode k con)"

section \<open>Typing a line\<close>

lemma key_maps: "length keyMap_normal = 58" "length keyMap_shift = 58"
  by (simp_all add: keyMap_normal_def keyMap_shift_def)

text \<open>The key with scan code \<open>s\<close> gives the character \<open>c\<close> without modifiers: a printable one or a newline.\<close>
definition gives :: "u8 \<Rightarrow> u8 \<Rightarrow> bool" where
  "gives s c \<longleftrightarrow> unat s < 58 \<and> keyMap_normal ! unat s = c \<and> (is_printable c \<or> c = 0x0A)"

text \<open>No modifier is held and no prefix is pending.\<close>
definition kbd_plain :: "kbd \<Rightarrow> bool" where
  "kbd_plain k \<longleftrightarrow> isExtended k = 0 \<and> isShift k = 0 \<and> isCtrl k = 0 \<and> caps k = 0"

lemma gives_no_modifier:
  assumes "gives s c"
  shows "s \<noteq> EXTENDED_SCANCODE" "modifier_key s k = None" "\<not> 58 < s"
proof -
  have s: "unat s < 58" "keyMap_normal ! unat s \<noteq> 0" using assms by (auto simp: gives_def is_printable_def)
  then have lt: "s < 58" by (simp add: word_less_nat_alt)
  then show "\<not> 58 < s" by simp
  have b: "v \<ge> 58 \<Longrightarrow> s \<noteq> v" for v using lt by auto
  then show "s \<noteq> EXTENDED_SCANCODE" by (simp add: EXTENDED_SCANCODE_def)
  have z: "s \<noteq> 0x2A" "s \<noteq> 0x36" "s \<noteq> 0x1D" "s \<noteq> 0x38" using s(2) by (auto simp: keyMap_normal_def)
  show "modifier_key s k = None"
    using b z by (simp add: modifier_key_def LEFT_SHIFT_PRESSED_def LEFT_SHIFT_RELEASED_def RIGHT_SHIFT_PRESSED_def RIGHT_SHIFT_RELEASED_def
        LEFT_CTRL_PRESSED_def LEFT_CTRL_RELEASED_def LEFT_ALT_PRESSED_def LEFT_ALT_RELEASED_def CAPS_LOCK_def)
qed

lemma gives_translate: "gives s c \<Longrightarrow> kbd_plain k \<Longrightarrow> translate k s = Done c"
  using gives_no_modifier(3) [of s c] by (simp add: translate_def kbd_plain_def gives_def key_at_def key_maps)

lemma gives_positive: "gives s c \<Longrightarrow> 0 < sint c"
proof -
  assume g: "gives s c"
  have c: "c < 128" "c \<noteq> 0" using g printable_ascii [of c] by (auto simp: gives_def is_printable_def)
  then have "0 < uint c" by (simp add: word_less_def word_neq_0_conv)
  then show ?thesis using sint_ascii [OF c(1)] by simp
qed

text \<open>One key.\<close>
lemma key_typed:
  assumes g: "gives s c" and k: "kbd_plain k" and T: "typed i con0 v con"
    and cur: "current_tty con0 = Some i" and m: "ldisc_mode (the_tty con0 i) = TTY_CANONICAL"
  shows "ok_oc (handleKey_normal s k con) (\<lambda>(k', con'). kbd_plain k' \<and> typed i con0 (edit c v) con')"
proof -
  have c: "current_tty con = Some i" "ldisc_mode (the_tty con i) = TTY_CANONICAL" using T cur m by (simp_all add: typed_def kept_def)
  have "isExtended k = 0" "isCtrl k = 0" using k by (simp_all add: kbd_plain_def)
  then have h: "handleKey_normal s k con = bind_oc (bind_oc (to_current [c] con) (\<lambda>con. Done (k\<lparr>buf_char := c, irq_done := 1\<rparr>, con)))
      (\<lambda>(k, con). Done (k\<lparr>last_scancode := s\<rparr>, con))"
    using gives_no_modifier(1,2) [OF g] gives_translate [OF g k] gives_positive [OF g]
    by (simp add: handleKey_normal_def plain_key_def)
  have "to_current [c] con = tty_input_char i c con" by (simp add: to_current_def c for_oc_Nil)
  then have "ok_oc (to_current [c] con) (typed i con0 (edit c v))" using input_char_typed [OF T c(2)] by simp
  then show ?thesis unfolding h using k by (auto simp: ok_oc_def kbd_plain_def)
qed

lemma keys_typed:
  assumes "list_all2 gives ss cs" "kbd_plain k" "typed i con0 v con"
    and cur: "current_tty con0 = Some i" "ldisc_mode (the_tty con0 i) = TTY_CANONICAL"
  shows "ok_oc (press_keys ss (k, con)) (\<lambda>(k', con'). kbd_plain k' \<and> typed i con0 (fold edit cs v) con')"
  using assms(1-3)
proof (induction ss cs arbitrary: k con v rule: list_all2_induct)
  case Nil
  then show ?case by (simp add: press_keys_def ok_oc_def)
next
  case (Cons s ss c cs)
  show ?case unfolding press_keys_def for_oc.simps
  proof (rule ok_bind)
    show "ok_oc (case (k, con) of (k, con) \<Rightarrow> handleKey_normal s k con) (\<lambda>(k', con'). kbd_plain k' \<and> typed i con0 (edit c v) con')"
      using key_typed [OF Cons.hyps(1) Cons.prems cur] by simp
    fix st assume "case st of (k', con') \<Rightarrow> kbd_plain k' \<and> typed i con0 (edit c v) con'"
    then show "ok_oc (for_oc (\<lambda>scancode (k, con). handleKey_normal scancode k con) ss st)
        (\<lambda>(k', con'). kbd_plain k' \<and> typed i con0 (fold edit (c # cs) v) con')"
      using Cons.IH [of "fst st" "edit c v" "snd st"] by (simp add: press_keys_def split: prod.splits)
  qed
qed

text \<open>The editor on a line of printable characters and a newline.\<close>
lemma edit_line:
  assumes "\<forall>c \<in> set cs. is_printable c" "length l + length cs < 255"
  shows "fold edit cs (l, [], q, INPUT_STATE_NORMAL, rdy) = (l @ cs, [], q, INPUT_STATE_NORMAL, rdy)"
  using assms
proof (induction cs arbitrary: l)
  case (Cons c cs)
  have "edit c (l, [], q, INPUT_STATE_NORMAL, rdy) = (l @ [c], [], q, INPUT_STATE_NORMAL, rdy)"
    using Cons.prems by (auto simp: edit_def INPUT_STATE_NORMAL_def INPUT_STATE_ESC_def INPUT_STATE_CSI_def is_printable_def)
  then show ?case using Cons by simp
qed simp

lemma edit_newline:
  "length l < 255 \<Longrightarrow> edit 0x0A (l, [], [], INPUT_STATE_NORMAL, rdy) = ([], [], l @ [0x0A], INPUT_STATE_NORMAL, True)"
  by (simp add: edit_def INPUT_STATE_NORMAL_def INPUT_STATE_ESC_def INPUT_STATE_CSI_def line_out_def)

lemma first_line_newline: "0x0A \<notin> set l \<Longrightarrow> first_line (l @ [0x0A]) = l @ [0x0A]"
  by (induction l) (auto simp: first_line_def)

section \<open>Properties\<close>

text \<open>
  C31. What is typed is read.  When the keys of a line of at most 254 printable characters and the
  Enter key are pressed on a terminal in canonical mode with empty buffers, every interrupt handler
  returns, and a read of that terminal with room for the line does not block and delivers exactly the
  line and a newline, after which the queue is empty again and the next read waits.
\<close>
theorem typed_line_is_read:
  assumes con: "text_ok con" "i < length (ttys con)" "current_tty con = Some i" "input_ok (the_tty con i)"
      "ldisc_mode (the_tty con i) = TTY_CANONICAL" "view (the_tty con i) = ([], [], [], INPUT_STATE_NORMAL, rdy)"
    and k: "kbd_plain k" and keys: "list_all2 gives ss (line @ [0x0A])" "0x0A \<notin> set line" "length line < 255"
    and n: "length line < unat n" "i < 2 ^ 31"
  shows "\<exists>k' con1 con2. press_keys ss (k, con) = Done (k', con1) \<and>
    tty_read (1000 + of_nat i) False n con1 = Done (Some (line @ [0x0A], int (length line) + 1, con2)) \<and>
    view (the_tty con2 i) = ([], [], [], INPUT_STATE_NORMAL, False) \<and> tty_read (1000 + of_nat i) False n con2 = Done None"
proof -
  have "typed i con ([], [], [], INPUT_STATE_NORMAL, rdy) con" using con by (simp add: typed_def kept_def)
  from keys_typed [OF keys(1) k this con(3,5)] obtain k' con1 where
    p: "press_keys ss (k, con) = Done (k', con1)" "typed i con (fold edit (line @ [0x0A]) ([], [], [], INPUT_STATE_NORMAL, rdy)) con1"
    by (auto simp: ok_oc_def)
  have "\<forall>c \<in> set line. is_printable c"
    using keys(1,2) by (auto simp: list_all2_conv_all_nth in_set_conv_nth gives_def nth_append split: if_splits)
  then have "fold edit (line @ [0x0A]) ([], [], [], INPUT_STATE_NORMAL, rdy) = ([], [], line @ [0x0A], INPUT_STATE_NORMAL, True)"
    using edit_line [of line "[]"] edit_newline [of line] keys(3) by simp
  then have T: "typed i con ([], [], line @ [0x0A], INPUT_STATE_NORMAL, True) con1" using p(2) by simp
  let ?t = "the_tty con1 i"
  have t: "ring_ok ?t" "ring_list ?t = line @ [0x0A]" "line_ready ?t" "ldisc_mode ?t = TTY_CANONICAL" "i < length (ttys con1)"
    "line_left ?t = []" "line_right ?t = []" "input_esc_state ?t = INPUT_STATE_NORMAL"
    using T con(5) by (auto simp: typed_def view_def input_ok_def kept_def)
  obtain t2 where t2: "read_ring True (unat n) ?t = Done (line @ [0x0A], t2)" "ring_ok t2" "ring_list t2 = []" "without_ring t2 = without_ring ?t"
    using read_ring_spec [OF t(1), of True "unat n"] n(1) unfolding t(2) by (auto simp: first_line_newline [OF keys(2)])
  have idx: "unat (1000 + of_nat i - 1000 :: u32) = i" using n(2) by (simp add: unat_of_nat)
  have n0: "n \<noteq> 0" using n(1) by auto
  have emp: "input_tail t2 = input_head t2" using ring_empty [OF t2(2)] t2(3) by simp
  define con2 where "con2 = set_tty i (t2\<lparr>line_ready := False\<rparr>) con1"
  have r: "tty_read (1000 + of_nat i) False n con1 = Done (Some (line @ [0x0A], int (length line) + 1, con2))"
    using idx n0 t t2(1) emp by (simp add: tty_read_def Let_def con2_def)
  note W = without_ringD [OF t2(4)]
  have the2: "the_tty con2 i = t2\<lparr>line_ready := False\<rparr>" "length (ttys con2) = length (ttys con1)"
    using t(5) by (simp_all add: con2_def the_tty_def set_tty_def)
  have "view (the_tty con2 i) = ([], [], [], INPUT_STATE_NORMAL, False)"
    using t t2(3) W unfolding the2 by (simp add: view_def line_left_def line_right_def line_tail_def ring_list_def)
  moreover have "tty_read (1000 + of_nat i) False n con2 = Done None"
    using idx n0 t W the2 by (simp add: tty_read_def Let_def)
  ultimately show ?thesis using p(1) r by blast
qed

theorem typed_line_is_read_witness:
  "\<exists>k' con1 con2. press_keys [0x23, 0x17, 0x1C] (\<lparr>buf_char = 0, last_scancode = 0, isShift = 0, isCtrl = 0, isAlt = 0, caps = 0,
       isExtended = 0, irq_done = 0\<rparr>, demo_console) = Done (k', con1) \<and>
     tty_read 1000 False 80 con1 = Done (Some ([0x68, 0x69, 0x0A], 3, con2))"
proof -
  have keys: "list_all2 gives [0x23, 0x17, 0x1C] ([0x68, 0x69] @ [0x0A])" by (simp add: gives_def keyMap_normal_def is_printable_def)
  have cur: "current_tty demo_console = Some 0" by (simp add: demo_console_def)
  have k: "kbd_plain \<lparr>buf_char = 0, last_scancode = 0, isShift = 0, isCtrl = 0, isAlt = 0, caps = 0, isExtended = 0, irq_done = 0\<rparr>"
    by (simp add: kbd_plain_def)
  from typed_line_is_read [OF demo_console_ok(1,2) cur demo_console_ok(3-5) k keys, of 80] show ?thesis by (simp, blast)
qed

end
