(* ===== verification/Elf.thy ===== *)
theory Elf
  imports Vmm
begin

unbundle bit_operations_syntax

text \<open>
  The program loader, \<open>src/src/kernel/elf.c\<close>.  A file is the list of its bytes; a read behind its end is
  \<open>Wild\<close>.  Pages are filled through the direct map, byte by byte, in the memory of \<open>Vmm\<close>.  The table of
  loaded pages is one page of pairs (user address, kernel address), so an access from entry 256 on is
  \<open>Wild\<close> too.  The products of 16-bit header fields are computed in 32-bit signed arithmetic as in C.
\<close>

section \<open>Headers\<close>

definition ELF_MAGIC :: u32 where "ELF_MAGIC = 0x464C457F"
definition ELFCLASS64 :: u8 where "ELFCLASS64 = 2"
definition ELFDATA2LSB :: u8 where "ELFDATA2LSB = 1"
definition ET_EXEC :: u16 where "ET_EXEC = 2"
definition EM_X86_64 :: u16 where "EM_X86_64 = 62"
definition PT_LOAD :: u32 where "PT_LOAD = 1"
definition EHDR_SIZE :: u64 where "EHDR_SIZE = 64"
definition PHDR_SIZE :: nat where "PHDR_SIZE = 56"

record elf64_ehdr =
  e_type :: u16
  e_machine :: u16
  e_entry :: u64
  e_phoff :: u64
  e_phentsize :: u16
  e_phnum :: u16

record elf64_phdr =
  p_type :: u32
  p_flags :: u32
  p_offset :: u64
  p_vaddr :: u64
  p_filesz :: u64
  p_memsz :: u64

record elf_info =
  entry_point :: u64
  base_addr :: u64
  end_addr :: u64
  pages :: u64
  num_pages :: u64

definition read_at :: "u8 list \<Rightarrow> u64 \<Rightarrow> nat \<Rightarrow> u8 list outcome" where
  "read_at file_data off n = (if unat off + n \<le> length file_data then Done (slice_at file_data (unat off) n) else Wild)"

definition ehdr_of :: "u8 list \<Rightarrow> elf64_ehdr" where
  "ehdr_of b =
     \<lparr>e_type = of_le (slice_at b 16 2), e_machine = of_le (slice_at b 18 2), e_entry = of_le (slice_at b 24 8),
      e_phoff = of_le (slice_at b 32 8), e_phentsize = of_le (slice_at b 54 2), e_phnum = of_le (slice_at b 56 2)\<rparr>"

definition phdr_of :: "u8 list \<Rightarrow> elf64_phdr" where
  "phdr_of b =
     \<lparr>p_type = of_le (slice_at b 0 4), p_flags = of_le (slice_at b 4 4), p_offset = of_le (slice_at b 8 8),
      p_vaddr = of_le (slice_at b 16 8), p_filesz = of_le (slice_at b 32 8), p_memsz = of_le (slice_at b 40 8)\<rparr>"

text \<open>The product of two 16-bit numbers, an \<open>int\<close>, in 64-bit arithmetic.\<close>
definition int_product :: "u16 \<Rightarrow> u16 \<Rightarrow> u64" where
  "int_product a b = scast (ucast a * ucast b :: u32)"

section \<open>Validation\<close>

definition elf_validate :: "u8 list \<Rightarrow> u64 \<Rightarrow> int outcome" where
  "elf_validate file_data fsize =
     (if fsize < EHDR_SIZE then Done (-1)
      else bind_oc (read_at file_data 0 64) (\<lambda>b.
        let ehdr = ehdr_of b
        in if (of_le (slice_at b 0 4) :: u32) \<noteq> ELF_MAGIC then Done (-1)
           else if b ! 4 \<noteq> ELFCLASS64 then Done (-1)
           else if b ! 5 \<noteq> ELFDATA2LSB then Done (-1)
           else if e_type ehdr \<noteq> ET_EXEC then Done (-1)
           else if e_machine ehdr \<noteq> EM_X86_64 then Done (-1)
           else if e_phoff ehdr = 0 \<or> e_phnum ehdr = 0 then Done (-1)
           else
             let ph_end = e_phoff ehdr + int_product (e_phnum ehdr) (e_phentsize ehdr)
             in if fsize < ph_end then Done (-1) else Done 0))"

definition page_align_up :: "u64 \<Rightarrow> u64" where
  "page_align_up addr = (addr + 0xFFF) AND NOT 0xFFF"

definition page_align_down :: "u64 \<Rightarrow> u64" where
  "page_align_down addr = addr AND NOT 0xFFF"

section \<open>Memory\<close>

text \<open>A byte of a page, through a pointer into the direct map.\<close>
definition put_byte :: "u64 \<Rightarrow> u8 \<Rightarrow> vm \<Rightarrow> vm" where
  "put_byte p b st =
     (let a = phys_from_virt (vpmm st) p; pg = a AND NOT 0xFFF; off = unat (a AND 0xFFF);
          w = vmem st pg (off div 8)
      in st\<lparr>vmem := (vmem st)(pg := (vmem st pg)(off div 8 := of_le ((le_bytes 8 w)[off mod 8 := b])))\<rparr>)"

definition put_block :: "u64 \<Rightarrow> u8 list \<Rightarrow> vm \<Rightarrow> vm" where
  "put_block p bs st = fold (\<lambda>i. put_byte (p + of_nat i) (bs ! i)) [0..<length bs] st"

section \<open>Loading\<close>

definition phdr_at :: "u8 list \<Rightarrow> elf64_ehdr \<Rightarrow> nat \<Rightarrow> elf64_phdr outcome" where
  "phdr_at file_data ehdr i =
     bind_oc (read_at file_data (e_phoff ehdr + int_product (of_nat i) (e_phentsize ehdr)) PHDR_SIZE) (\<lambda>b. Done (phdr_of b))"

definition loads :: "elf64_phdr \<Rightarrow> bool" where
  "loads phdr \<longleftrightarrow> p_type phdr = PT_LOAD \<and> p_memsz phdr \<noteq> 0"

definition seg_start :: "elf64_phdr \<Rightarrow> u64" where
  "seg_start phdr = page_align_down (p_vaddr phdr)"

definition seg_end :: "elf64_phdr \<Rightarrow> u64" where
  "seg_end phdr = page_align_up (p_vaddr phdr + p_memsz phdr)"

text \<open>The first pass: lowest and highest address and the number of pages.\<close>
definition measure_segment :: "u8 list \<Rightarrow> elf64_ehdr \<Rightarrow> nat \<Rightarrow> u64 \<times> u64 \<times> u64 \<Rightarrow> (u64 \<times> u64 \<times> u64) outcome" where
  "measure_segment file_data ehdr i = (\<lambda>(lowest, highest, total).
     bind_oc (phdr_at file_data ehdr i) (\<lambda>phdr.
       if \<not> loads phdr then Done (lowest, highest, total)
       else Done (if seg_start phdr < lowest then seg_start phdr else lowest,
                  if highest < seg_end phdr then seg_end phdr else highest,
                  total + (seg_end phdr - seg_start phdr) div 4096)))"

text \<open>The table of loaded pages at \<open>page_map\<close>.\<close>

definition entry_user :: "u64 \<Rightarrow> nat \<Rightarrow> vm \<Rightarrow> u64 outcome" where
  "entry_user page_map j st = (if j < 256 then Done (rd st page_map (2 * j)) else Wild)"

definition entry_kernel :: "u64 \<Rightarrow> nat \<Rightarrow> vm \<Rightarrow> u64 outcome" where
  "entry_kernel page_map j st = (if j < 256 then Done (rd st page_map (2 * j + 1)) else Wild)"

definition set_entry :: "u64 \<Rightarrow> nat \<Rightarrow> u64 \<Rightarrow> u64 \<Rightarrow> vm \<Rightarrow> vm outcome" where
  "set_entry page_map j vaddr pg st =
     (if j < 256 then Done (wr (wr st page_map (2 * j) vaddr) page_map (2 * j + 1) pg) else Wild)"

text \<open>The first entry among those in the list for which \<open>P\<close> holds of the user address.\<close>
fun find_entry :: "(u64 \<Rightarrow> bool) \<Rightarrow> u64 \<Rightarrow> nat list \<Rightarrow> vm \<Rightarrow> nat option outcome" where
  "find_entry P page_map [] st = Done None"
| "find_entry P page_map (j # js) st =
     bind_oc (entry_user page_map j st) (\<lambda>u. if P u then Done (Some j) else find_entry P page_map js st)"

definition find_kernel_vaddr :: "u64 \<Rightarrow> nat \<Rightarrow> u64 \<Rightarrow> vm \<Rightarrow> u64 outcome" where
  "find_kernel_vaddr page_map num_mapped uva st =
     bind_oc (find_entry (\<lambda>u. u \<le> uva \<and> uva < u + 4096) page_map [0..<num_mapped] st) (\<lambda>r.
       case r of
         None \<Rightarrow> Done 0
       | Some j \<Rightarrow> bind_oc (entry_kernel page_map j st) (\<lambda>k.
           bind_oc (entry_user page_map j st) (\<lambda>u. Done (k + (uva - u)))))"

text \<open>
  The state of the second pass is the memory and \<open>num_mapped\<close>; \<open>Inl\<close> is the way to \<open>elf_free\<close> and
  \<open>return -1\<close>.
\<close>
type_synonym loading = "vm \<times> nat"

definition seg_flags :: "elf64_phdr \<Rightarrow> u64" where
  "seg_flags phdr =
     (let flags = PTE_PRESENT OR PTE_USER;
          flags = (if p_flags phdr AND 2 \<noteq> 0 then flags OR PTE_RW else flags)
      in if p_flags phdr AND 1 = 0 then flags OR 0x8000000000000000 else flags)"

definition load_page :: "u64 \<Rightarrow> u64 \<Rightarrow> u64 \<Rightarrow> u64 \<Rightarrow> loading \<Rightarrow> (loading + loading) outcome" where
  "load_page cr3_phys page_map flags vaddr = (\<lambda>(st, num_mapped).
     bind_oc (find_entry (\<lambda>u. u = vaddr) page_map [0..<num_mapped] st) (\<lambda>already.
       if already \<noteq> None then Done (Inr (st, num_mapped))
       else bind_oc (alloc_page st) (\<lambda>(pg, st).
         if pg = 0 then Done (Inl (st, num_mapped))
         else
           let st = clear_page pg st; phys = phys_from_virt (vpmm st) pg
           in bind_oc (if cr3_phys \<noteq> 0 then vmm_map_page_in cr3_phys vaddr phys flags st
                       else vmm_map_page vaddr phys flags st) (\<lambda>(map_result, st).
                if map_result \<noteq> 0 then bind_oc (free_frame pg st) (\<lambda>st. Done (Inl (st, num_mapped)))
                else bind_oc (set_entry page_map num_mapped vaddr pg st) (\<lambda>st. Done (Inr (st, num_mapped + 1)))))))"

definition seg_pages :: "elf64_phdr \<Rightarrow> u64 list" where
  "seg_pages phdr =
     (if seg_start phdr < seg_end phdr
      then map (\<lambda>k. seg_start phdr + of_nat k * 4096) [0..<unat ((seg_end phdr - seg_start phdr) div 4096)] else [])"

text \<open>How much of \<open>remaining\<close> lies in the page of \<open>vaddr\<close>.\<close>
definition page_part :: "u64 \<Rightarrow> u64 \<Rightarrow> u64" where
  "page_part vaddr remaining =
     (let copy_size = 4096 - (vaddr AND 0xFFF) in if remaining < copy_size then remaining else copy_size)"

lemma page_part_bounds:
  assumes "remaining \<noteq> 0"
  shows "0 < page_part vaddr remaining" "page_part vaddr remaining \<le> remaining"
proof -
  have "vaddr AND 0xFFF = take_bit 12 vaddr" by (simp add: take_bit_eq_mask mask_numeral)
  then have "unat (vaddr AND 0xFFF) < 4096" by (simp add: unsigned_take_bit_eq) (simp add: take_bit_eq_mod)
  then have "vaddr AND 0xFFF < 4096" by (simp add: word_less_nat_alt)
  then have "4096 - (vaddr AND 0xFFF) \<noteq> 0" by auto
  then show "0 < page_part vaddr remaining" "page_part vaddr remaining \<le> remaining"
    using assms by (auto simp: page_part_def Let_def word_gt_0)
qed

function copy_segment :: "u8 list \<Rightarrow> u64 \<Rightarrow> u64 \<Rightarrow> u64 \<Rightarrow> u64 \<Rightarrow> loading \<Rightarrow> (loading + loading) outcome" where
  "copy_segment file_data page_map src dest_vaddr remaining (st, num_mapped) =
     (if remaining = 0 then Done (Inr (st, num_mapped))
      else bind_oc (find_kernel_vaddr page_map num_mapped dest_vaddr st) (\<lambda>kva.
        if kva = 0 then Done (Inl (st, num_mapped))
        else
          let copy_size = page_part dest_vaddr remaining
          in bind_oc (read_at file_data src (unat copy_size)) (\<lambda>bs.
               copy_segment file_data page_map (src + copy_size) (dest_vaddr + copy_size) (remaining - copy_size)
                 (put_block kva bs st, num_mapped))))"
  by pat_completeness auto
termination
proof (relation "measure (\<lambda>(_, _, _, _, remaining, _). unat remaining)", goal_cases)
  case 1
  then show ?case by simp
next
  case (2 file_data page_map src dest_vaddr remaining st num_mapped kva x bs)
  then show ?case using page_part_bounds [of remaining dest_vaddr]
    by (auto simp: unat_diff_nowrap word_less_nat_alt unat_gt_0 intro!: diff_less)
qed

function clear_bss :: "u64 \<Rightarrow> u64 \<Rightarrow> u64 \<Rightarrow> loading \<Rightarrow> loading outcome" where
  "clear_bss page_map bss_start bss_size (st, num_mapped) =
     (if bss_size = 0 then Done (st, num_mapped)
      else bind_oc (find_kernel_vaddr page_map num_mapped bss_start st) (\<lambda>kva.
        if kva = 0 then Done (st, num_mapped)
        else
          let zero_size = page_part bss_start bss_size
          in clear_bss page_map (bss_start + zero_size) (bss_size - zero_size)
               (put_block kva (replicate (unat zero_size) 0) st, num_mapped)))"
  by pat_completeness auto
termination
proof (relation "measure (\<lambda>(_, _, bss_size, _). unat bss_size)", goal_cases)
  case 1
  then show ?case by simp
next
  case (2 page_map bss_start bss_size st num_mapped kva x)
  then show ?case using page_part_bounds [of bss_size bss_start]
    by (auto simp: unat_diff_nowrap word_less_nat_alt unat_gt_0 intro!: diff_less)
qed

declare copy_segment.simps [simp del] clear_bss.simps [simp del]

definition load_segment :: "u8 list \<Rightarrow> u64 \<Rightarrow> elf64_ehdr \<Rightarrow> u64 \<Rightarrow> u64 \<Rightarrow> nat \<Rightarrow> loading \<Rightarrow> (loading + loading) outcome" where
  "load_segment file_data fsize ehdr cr3_phys page_map i ld =
     bind_oc (phdr_at file_data ehdr i) (\<lambda>phdr.
       if \<not> loads phdr then Done (Inr ld)
       else
         bind_oc (for_fail (load_page cr3_phys page_map (seg_flags phdr)) (seg_pages phdr) ld) (\<lambda>r.
           case r of
             Inl ld \<Rightarrow> Done (Inl ld)
           | Inr ld \<Rightarrow>
               bind_oc
                 (if 0 < p_filesz phdr then
                    if fsize < p_offset phdr + p_filesz phdr then Done (Inl ld)
                    else copy_segment file_data page_map (p_offset phdr) (p_vaddr phdr) (p_filesz phdr) ld
                  else Done (Inr ld)) (\<lambda>r.
                 case r of
                   Inl ld \<Rightarrow> Done (Inl ld)
                 | Inr ld \<Rightarrow>
                     if p_filesz phdr < p_memsz phdr
                     then bind_oc (clear_bss page_map (p_vaddr phdr + p_filesz phdr) (p_memsz phdr - p_filesz phdr) ld) (\<lambda>ld. Done (Inr ld))
                     else Done (Inr ld))))"

definition elf_free :: "elf_info \<Rightarrow> vm \<Rightarrow> (elf_info \<times> vm) outcome" where
  "elf_free info st =
     bind_oc (if pages info \<noteq> 0 then bind_oc (free_frame (pages info) st) (\<lambda>st. Done (info\<lparr>pages := 0\<rparr>, st)) else Done (info, st))
       (\<lambda>(info, st). Done (info\<lparr>num_pages := 0, entry_point := 0\<rparr>, st))"

definition elf_load_impl :: "u8 list \<Rightarrow> u64 \<Rightarrow> elf_info \<Rightarrow> u64 \<Rightarrow> vm \<Rightarrow> (int \<times> elf_info \<times> vm) outcome" where
  "elf_load_impl file_data fsize info cr3_phys st =
     bind_oc (elf_validate file_data fsize) (\<lambda>ok.
     if ok \<noteq> 0 then Done (-1, info, st)
     else bind_oc (read_at file_data 0 64) (\<lambda>b.
       let ehdr = ehdr_of b; n = unat (e_phnum ehdr)
       in bind_oc (for_oc (measure_segment file_data ehdr) [0..<n] (0xFFFFFFFFFFFFFFFF, 0, 0)) (\<lambda>(lowest, highest, total).
         if total = 0 then Done (-1, info, st)
         else bind_oc (alloc_page st) (\<lambda>(page_map, st).
           if page_map = 0 then Done (-1, info, st)
           else
             let st = clear_page page_map st;
                 info = info\<lparr>pages := page_map, num_pages := 0, entry_point := e_entry ehdr, base_addr := lowest, end_addr := highest\<rparr>
             in bind_oc (for_fail (load_segment file_data fsize ehdr cr3_phys page_map) [0..<n] (st, 0)) (\<lambda>r.
                  case r of
                    Inl (st, _) \<Rightarrow> bind_oc (elf_free info st) (\<lambda>(info, st). Done (-1, info, st))
                  | Inr (st, num_mapped) \<Rightarrow> Done (0, info\<lparr>num_pages := of_nat num_mapped\<rparr>, st))))))"

definition elf_load :: "u8 list \<Rightarrow> u64 \<Rightarrow> elf_info \<Rightarrow> vm \<Rightarrow> (int \<times> elf_info \<times> vm) outcome" where
  "elf_load file_data fsize info st = elf_load_impl file_data fsize info 0 st"

definition elf_load_into :: "u8 list \<Rightarrow> u64 \<Rightarrow> elf_info \<Rightarrow> u64 \<Rightarrow> vm \<Rightarrow> (int \<times> elf_info \<times> vm) outcome" where
  "elf_load_into file_data fsize info cr3_phys st = elf_load_impl file_data fsize info cr3_phys st"

section \<open>Validation stays inside the file\<close>

text \<open>As long as the product fits an \<open>int\<close> it is the product of the numbers.\<close>
lemma int_product_nat:
  assumes "unat a * unat b < 2 ^ 31"
  shows "unat (int_product a b) = unat a * unat b"
proof -
  have "unat (ucast a * ucast b :: u32) = unat a * unat b"
    using assms by (subst unat_mult_nowrap) (simp_all add: unat_ucast_up)
  then show ?thesis using assms by (simp add: int_product_def scast_small)
qed

definition elf_header_ok :: "u8 list \<Rightarrow> bool" where
  "elf_header_ok f \<longleftrightarrow>
     64 \<le> length f \<and> take 4 f = [0x7F, 0x45, 0x4C, 0x46] \<and> f ! 4 = 2 \<and> f ! 5 = 1 \<and>
     e_type (ehdr_of f) = 2 \<and> e_machine (ehdr_of f) = 62 \<and>
     e_phoff (ehdr_of f) \<noteq> 0 \<and> e_phnum (ehdr_of f) \<noteq> 0 \<and>
     unat (e_phoff (ehdr_of f) + int_product (e_phnum (ehdr_of f)) (e_phentsize (ehdr_of f))) \<le> length f"

lemma ehdr_of_slice: "64 \<le> length f \<Longrightarrow> ehdr_of (slice_at f 0 64) = ehdr_of f"
  by (simp add: ehdr_of_def slice_slice)

lemma magic_bytes:
  assumes "64 \<le> length f"
  shows "(of_le (slice_at f 0 4) :: u32) = ELF_MAGIC \<longleftrightarrow> take 4 f = [0x7F, 0x45, 0x4C, 0x46]"
proof -
  have l: "length (take 4 f) = 4" using assms by simp
  have m: "le_bytes 4 ELF_MAGIC = [0x7F, 0x45, 0x4C, 0x46]" by code_simp
  show ?thesis
  proof
    assume "(of_le (slice_at f 0 4) :: u32) = ELF_MAGIC"
    then have "le_bytes 4 (of_le (take 4 f) :: u32) = [0x7F, 0x45, 0x4C, 0x46]"
      using m by (simp add: slice_at_def)
    then show "take 4 f = [0x7F, 0x45, 0x4C, 0x46]" using l by (simp add: le_bytes_of_le)
  next
    assume "take 4 f = [0x7F, 0x45, 0x4C, 0x46]"
    moreover have "(of_le [0x7F, 0x45, 0x4C, 0x46] :: u32) = ELF_MAGIC" by code_simp
    ultimately show "(of_le (slice_at f 0 4) :: u32) = ELF_MAGIC" by (simp add: slice_at_def)
  qed
qed

lemma elf_validate_run:
  assumes "length f < 2 ^ 64"
  shows "elf_validate f (of_nat (length f)) = Done (if elf_header_ok f then 0 else -1)"
proof -
  have n: "unat (of_nat (length f) :: u64) = length f" using assms by (simp only: unat_of_nat) simp
  show ?thesis
  proof (cases "64 \<le> length f")
    case False
    then show ?thesis
      by (simp add: elf_validate_def elf_header_ok_def word_less_nat_alt n EHDR_SIZE_def)
  next
    case True
    have ix: "slice_at f 0 64 ! 4 = f ! 4" "slice_at f 0 64 ! 5 = f ! 5"
      using True by (simp_all add: slice_nth)
    have r: "read_at f 0 64 = Done (slice_at f 0 64)" using True by (simp add: read_at_def)
    show ?thesis using True
      by (simp add: elf_validate_def elf_header_ok_def word_less_nat_alt word_le_nat_alt n EHDR_SIZE_def r ix ehdr_of_slice
          slice_slice magic_bytes Let_def ELFCLASS64_def ELFDATA2LSB_def ET_EXEC_def EM_X86_64_def not_less)
  qed
qed

text \<open>
  C32. For any bytes \<open>elf_validate\<close> looks only inside the file and accepts exactly the files with the magic
  number, class, byte order, type and machine of a 64-bit little-endian x86 executable whose computed end of the
  program headers is within the file.  Every program header of an accepted file can be read without leaving the
  file if, besides, the size of an entry is at least 56 bytes, the product of size and number is below
  \<open>2^31\<close>, and the offset of the headers is below \<open>2^63\<close>; the code tests none of the three.
\<close>
theorem elf_validate_protects_headers:
  assumes "length f < 2 ^ 63"
  shows "elf_validate f (of_nat (length f)) = Done (if elf_header_ok f then 0 else -1) \<and>
    (elf_header_ok f \<and> unat (e_phoff (ehdr_of f)) < 2 ^ 63 \<and> 56 \<le> unat (e_phentsize (ehdr_of f)) \<and>
     unat (e_phnum (ehdr_of f)) * unat (e_phentsize (ehdr_of f)) < 2 ^ 31 \<longrightarrow>
     (\<forall>i < unat (e_phnum (ehdr_of f)).
        phdr_at f (ehdr_of f) i =
          Done (phdr_of (slice_at f (unat (e_phoff (ehdr_of f)) + i * unat (e_phentsize (ehdr_of f))) 56))))"
proof (intro conjI impI allI)
  show "elf_validate f (of_nat (length f)) = Done (if elf_header_ok f then 0 else -1)"
    using assms by (intro elf_validate_run) simp
next
  fix i
  let ?e = "ehdr_of f"
  assume a: "elf_header_ok f \<and> unat (e_phoff ?e) < 2 ^ 63 \<and> 56 \<le> unat (e_phentsize ?e) \<and>
     unat (e_phnum ?e) * unat (e_phentsize ?e) < 2 ^ 31" and i: "i < unat (e_phnum ?e)"
  have ii: "unat (of_nat i :: u16) = i"
    using i unat_less [of "e_phnum ?e"] by (simp add: unat_of_nat)
  have "Suc i * unat (e_phentsize ?e) \<le> unat (e_phnum ?e) * unat (e_phentsize ?e)"
    using i by (intro mult_le_mono1) simp
  then have up: "i * unat (e_phentsize ?e) + unat (e_phentsize ?e) \<le> unat (e_phnum ?e) * unat (e_phentsize ?e)" by simp
  then have p: "unat (int_product (of_nat i) (e_phentsize ?e)) = i * unat (e_phentsize ?e)"
    using a by (subst int_product_nat) (simp_all add: ii)
  have q: "unat (int_product (e_phnum ?e) (e_phentsize ?e)) = unat (e_phnum ?e) * unat (e_phentsize ?e)"
    using a by (intro int_product_nat) simp
  have o: "unat (e_phoff ?e + int_product (of_nat i) (e_phentsize ?e)) = unat (e_phoff ?e) + i * unat (e_phentsize ?e)"
    using a up by (subst unat_add_nowrap) (simp_all add: p)
  have "unat (e_phoff ?e + int_product (e_phnum ?e) (e_phentsize ?e)) = unat (e_phoff ?e) + unat (e_phnum ?e) * unat (e_phentsize ?e)"
    using a by (subst unat_add_nowrap) (simp_all add: q)
  then have "unat (e_phoff ?e) + unat (e_phnum ?e) * unat (e_phentsize ?e) \<le> length f"
    using a by (simp add: elf_header_ok_def)
  then show "phdr_at f ?e i = Done (phdr_of (slice_at f (unat (e_phoff ?e) + i * unat (e_phentsize ?e)) 56))"
    using a up by (simp add: phdr_at_def read_at_def PHDR_SIZE_def o)
qed

definition demo_elf :: "u8 list" where
  "demo_elf = [0x7F, 0x45, 0x4C, 0x46, 2, 1] @ replicate 10 0 @ [2, 0, 62, 0] @ replicate 12 0 @ [64] @ replicate 21 0 @
     [56, 0, 1, 0] @ replicate 6 0 @ [1] @ replicate 55 0"

lemma elf_validate_protects_headers_witness:
  "elf_validate demo_elf (of_nat (length demo_elf)) = Done 0 \<and>
   phdr_at demo_elf (ehdr_of demo_elf) 0 = Done (phdr_of (slice_at demo_elf 64 56))"
proof -
  have l: "length demo_elf < 2 ^ 63" by (simp add: demo_elf_def)
  have ok: "elf_header_ok demo_elf" by code_simp
  have e: "unat (e_phoff (ehdr_of demo_elf)) = 64" "unat (e_phentsize (ehdr_of demo_elf)) = 56" "unat (e_phnum (ehdr_of demo_elf)) = 1"
    by code_simp+
  show ?thesis using elf_validate_protects_headers [OF l] by (simp add: ok e)
qed

end
