(* ===== verification/VfsHeap.thy ===== *)
theory VfsHeap
  imports KString FatFile Keyboard
begin

text \<open>
  The objects of the virtual file system (\<open>src/src/include/kernel/vfs/vfs.h\<close>) and the directory operations
  of the file systems that live in memory (\<open>kernel/vfs/filesystem.c\<close>, \<open>fs/devfs.c\<close>, \<open>fs/stripFS.c\<close>).

  Pointers to dentries, inodes, open files and initrd records are numbers, null is \<open>None\<close>, and a map holds
  the objects that are alive: an access through null or to an object that was freed is \<open>Wild\<close>.  The
  list of siblings that starts at \<open>children\<close> and goes on along \<open>next\<close> is the list \<open>d_children\<close>; a dentry is in
  at most one such list.  The node that \<open>private\<close> of a FAT32 inode points to is part of its inode.
  Numbers are not used again, so a pointer to a freed object never becomes valid.

  \<open>page_ok\<close> tells for the number of the next object whether \<open>pmalloc\<close> finds a page, which never returns
  if it does not (\<open>Halts\<close>); \<open>kmalloc_ok\<close> tells whether the allocator behind \<open>kmalloc\<close> returns memory
  or null.  A FAT32 operation that does not return, on a cyclic chain, is \<open>Halts\<close> too.
\<close>

section \<open>Objects\<close>

definition NAME_MAX :: nat where "NAME_MAX = 255"
definition PATH_MAX :: nat where "PATH_MAX = 4096"

record superblock =
  fs_type :: cstring
  sb_root :: "nat option"

record vfs_mount_entry =
  mnt_sb :: superblock
  mount_point :: cstring

record dentry =
  dn_name :: cstring
  d_inode :: "nat option"
  d_parent :: "nat option"
  d_children :: "nat list"
  mounted_here :: "vfs_mount_entry option"

record open_file =
  f_inode :: "nat option"
  f_flags :: u32
  f_fops :: "file_ops option"
  f_offset :: u64

record strip_fs_file =
  sf_filename :: cstring
  sf_length :: u32
  sf_offset :: u32
  sf_executable :: u32

text \<open>
  \<open>task_cwd\<close> is what \<open>get_current_task\<close> says: \<open>None\<close> without a task, otherwise \<open>task->cwd\<close>.  \<open>initrd\<close> is the
  memory at \<open>initrd_location_strip\<close>.
\<close>
record vfs =
  dentries :: "nat \<rightharpoonup> dentry"
  inodes :: "nat \<rightharpoonup> inode"
  open_files :: "nat \<rightharpoonup> open_file"
  strip_metas :: "nat \<rightharpoonup> strip_fs_file"
  mounts :: "vfs_mount_entry list"
  root_superblock :: "superblock option"
  task_cwd :: "nat option option"
  volume :: fatfs
  vfs_con :: console
  initrd :: "u8 list"
  header_strip :: bool
  dev_ino_counter :: u32
  next_id :: nat
  page_ok :: "nat \<Rightarrow> bool"
  kmalloc_ok :: "nat \<Rightarrow> bool"

text \<open>The static dentries and inodes of the FAT32 root and of the device file system.\<close>
definition FAT_ROOT :: nat where "FAT_ROOT = 0"
definition DEVFS_ROOT :: nat where "DEVFS_ROOT = 1"

definition zero_dentry :: dentry where
  "zero_dentry = \<lparr>dn_name = [], d_inode = None, d_parent = None, d_children = [], mounted_here = None\<rparr>"

definition get_d :: "nat \<Rightarrow> vfs \<Rightarrow> dentry outcome" where
  "get_d a st = (case dentries st a of None \<Rightarrow> Wild | Some d \<Rightarrow> Done d)"

definition set_d :: "nat \<Rightarrow> dentry \<Rightarrow> vfs \<Rightarrow> vfs" where
  "set_d a d st = st\<lparr>dentries := (dentries st)(a \<mapsto> d)\<rparr>"

definition get_i :: "nat \<Rightarrow> vfs \<Rightarrow> inode outcome" where
  "get_i a st = (case inodes st a of None \<Rightarrow> Wild | Some i \<Rightarrow> Done i)"

definition set_i :: "nat \<Rightarrow> inode \<Rightarrow> vfs \<Rightarrow> vfs" where
  "set_i a i st = st\<lparr>inodes := (inodes st)(a \<mapsto> i)\<rparr>"

text \<open>A pointer that is followed without a test.\<close>
definition deref :: "nat option \<Rightarrow> nat outcome" where
  "deref p = (case p of None \<Rightarrow> Wild | Some a \<Rightarrow> Done a)"

definition new_page :: "vfs \<Rightarrow> (nat \<times> vfs) outcome" where
  "new_page st = (if page_ok st (next_id st) then Done (next_id st, st\<lparr>next_id := next_id st + 1\<rparr>) else Halts)"

definition kmalloc :: "vfs \<Rightarrow> nat option \<times> vfs" where
  "kmalloc st = (if kmalloc_ok st (next_id st) then Some (next_id st) else None, st\<lparr>next_id := next_id st + 1\<rparr>)"

text \<open>\<open>strncpy(dst, src, NAME_MAX - 1)\<close> into a zeroed name.\<close>
definition copy_name :: "cstring \<Rightarrow> cstring" where
  "copy_name s = take (NAME_MAX - 1) s"

section \<open>Searching a directory\<close>

fun find_child :: "cstring \<Rightarrow> nat list \<Rightarrow> vfs \<Rightarrow> nat option outcome" where
  "find_child name [] st = Done None"
| "find_child name (c # cs) st =
     bind_oc (get_d c st) (\<lambda>d. if dn_name d = name then Done (Some c) else find_child name cs st)"

text \<open>The inode of a child, by the dentry that \<open>private\<close> of a directory in memory points to.\<close>
definition private_child :: "nat option \<Rightarrow> cstring \<Rightarrow> vfs \<Rightarrow> nat option outcome" where
  "private_child parent name st =
     (case parent of
        None \<Rightarrow> Done None
      | Some p \<Rightarrow> bind_oc (get_i p st) (\<lambda>i.
          case i_private i of
            PNull \<Rightarrow> Done None
          | PDentry pd \<Rightarrow> bind_oc (get_d pd st) (\<lambda>d. bind_oc (find_child name (d_children d) st) (\<lambda>r.
              case r of None \<Rightarrow> Done None | Some c \<Rightarrow> bind_oc (get_d c st) (\<lambda>cd. Done (d_inode cd))))
          | _ \<Rightarrow> Wild))"

definition vfs_default_dir_lookup :: "nat option \<Rightarrow> cstring \<Rightarrow> vfs \<Rightarrow> nat option outcome" where
  "vfs_default_dir_lookup parent name st = private_child parent name st"

definition devfs_lookup :: "nat option \<Rightarrow> cstring \<Rightarrow> vfs \<Rightarrow> nat option outcome" where
  "devfs_lookup parent name st = private_child parent name st"

definition stripfs_dir_lookup :: "nat option \<Rightarrow> cstring \<Rightarrow> vfs \<Rightarrow> nat option outcome" where
  "stripfs_dir_lookup parent name st = private_child parent name st"

text \<open>
  The end of \<open>fat32_vfs_lookup\<close>: memory for the inode and for its node.  Neither result is tested, so a
  null is written through.  A walk in the driver that does not come back (an endless chain, or a long
  name written past its buffer, see \<open>FatDir\<close>) is \<open>Halts\<close>; \<open>Wild\<close> is kept for the pointers of the VFS.
\<close>
definition fat32_lookup_inode :: "nat \<Rightarrow> cstring \<Rightarrow> vfs \<Rightarrow> (nat option \<times> vfs) outcome" where
  "fat32_lookup_inode p name st =
     bind_oc (get_i p st) (\<lambda>i.
       case fat32_vfs_lookup (volume st) (Some i) name of
         None \<Rightarrow> Halts
       | Some (fs, None) \<Rightarrow> Done (None, st\<lparr>volume := fs\<rparr>)
       | Some (fs, Some node) \<Rightarrow>
           (case kmalloc (st\<lparr>volume := fs\<rparr>) of
              (None, st) \<Rightarrow> Wild
            | (Some a, st) \<Rightarrow> (case kmalloc st of
                (None, st) \<Rightarrow> Wild
              | (Some _, st) \<Rightarrow> Done (Some a, set_i a node st))))"

text \<open>The call of \<open>i_ops->lookup\<close>.\<close>
definition lookup_op :: "inode_ops \<Rightarrow> nat \<Rightarrow> cstring \<Rightarrow> vfs \<Rightarrow> (nat option \<times> vfs) outcome" where
  "lookup_op ops p name st =
     (case ops of
        Fat32_inode_ops \<Rightarrow> fat32_lookup_inode p name st
      | Vfs_dir_iops \<Rightarrow> bind_oc (vfs_default_dir_lookup (Some p) name st) (\<lambda>r. Done (r, st))
      | Devfs_dir_iops \<Rightarrow> bind_oc (devfs_lookup (Some p) name st) (\<lambda>r. Done (r, st))
      | Strip_iops \<Rightarrow> bind_oc (stripfs_dir_lookup (Some p) name st) (\<lambda>r. Done (r, st)))"

end
