(* ===== verification/Vfs.thy ===== *)
theory Vfs
  imports VfsHeap
begin

text \<open>
  The virtual file system: \<open>src/src/kernel/vfs/filesystem.c\<close> (mounting, path lookup with the cache of
  dentries, directories, the working directory) and \<open>src/src/kernel/vfs/files.c\<close> (open files).  Paths are the
  strings that the pointers lead to, \<open>None\<close> for a null pointer.  A call through an operation table
  is a case on the table; an operation that the table leaves out is null.
\<close>

section \<open>Path lookup\<close>

definition slash :: u8 where "slash = 0x2F"
definition dot :: cstring where "dot = [0x2E]"
definition dotdot :: cstring where "dotdot = [0x2E, 0x2E]"

text \<open>\<open>strncpy(path_copy, path, PATH_MAX - 1)\<close>\<close>
definition path_copy :: "cstring \<Rightarrow> cstring" where
  "path_copy path = take (PATH_MAX - 1) path"

definition vfs_lookup :: "nat option \<Rightarrow> cstring \<Rightarrow> vfs \<Rightarrow> (int \<times> nat option \<times> vfs) outcome" where
  "vfs_lookup parent name st =
     (case parent of
        None \<Rightarrow> Done (-1, None, st)
      | Some p \<Rightarrow> bind_oc (get_i p st) (\<lambda>i.
          if is_directory i = 0 then Done (-1, None, st)
          else case i_ops i of
            None \<Rightarrow> Done (-1, None, st)
          | Some ops \<Rightarrow> bind_oc (lookup_op ops p name st) (\<lambda>(found_inode, st).
              if found_inode = None then Done (-1, None, st) else Done (0, found_inode, st))))"

definition vfs_get_root_dentry :: "vfs \<Rightarrow> nat option" where
  "vfs_get_root_dentry st = (case root_superblock st of None \<Rightarrow> None | Some sb \<Rightarrow> sb_root sb)"

definition cwd_or_root :: "vfs \<Rightarrow> nat option" where
  "cwd_or_root st = (case task_cwd st of Some (Some c) \<Rightarrow> Some c | _ \<Rightarrow> vfs_get_root_dentry st)"

text \<open>\<open>!current->inode || !current->inode->is_directory\<close>, negated\<close>
definition is_dir :: "dentry \<Rightarrow> vfs \<Rightarrow> bool outcome" where
  "is_dir d st = (case d_inode d of None \<Rightarrow> Done False | Some i \<Rightarrow> bind_oc (get_i i st) (\<lambda>i. Done (is_directory i \<noteq> 0)))"

definition add_child :: "nat \<Rightarrow> nat \<Rightarrow> dentry \<Rightarrow> vfs \<Rightarrow> vfs outcome" where
  "add_child parent c cd st =
     bind_oc (get_d parent (set_d c cd st)) (\<lambda>d. Done (set_d parent (d\<lparr>d_children := c # d_children d\<rparr>) (set_d c cd st)))"

text \<open>Asking the driver and caching what it found.\<close>
definition cache_child :: "nat \<Rightarrow> dentry \<Rightarrow> cstring \<Rightarrow> vfs \<Rightarrow> (nat option \<times> vfs) outcome" where
  "cache_child current d token st =
     bind_oc (vfs_lookup (d_inode d) token st) (\<lambda>(rc, next_inode, st).
       if rc \<noteq> 0 \<or> next_inode = None then Done (None, st)
       else bind_oc (new_page st) (\<lambda>(found, st).
         bind_oc (add_child current found (zero_dentry\<lparr>dn_name := copy_name token, d_inode := next_inode, d_parent := Some current\<rparr>) st)
           (\<lambda>st. Done (Some found, st))))"

definition cross_mount :: "nat \<Rightarrow> vfs \<Rightarrow> nat option outcome" where
  "cross_mount current st =
     bind_oc (get_d current st) (\<lambda>d.
       Done (case mounted_here d of None \<Rightarrow> Some current | Some m \<Rightarrow> sb_root (mnt_sb m)))"

fun walk :: "cstring list \<Rightarrow> nat option \<Rightarrow> vfs \<Rightarrow> (nat option \<times> vfs) outcome" where
  "walk [] current st = Done (current, st)"
| "walk (token # ts) current st =
     bind_oc (deref current) (\<lambda>cur. bind_oc (get_d cur st) (\<lambda>d. bind_oc (is_dir d st) (\<lambda>ok.
       if \<not> ok then Done (None, st)
       else if token = dot then walk ts current st
       else if token = dotdot then walk ts (if d_parent d \<noteq> None then d_parent d else current) st
       else bind_oc (find_child token (d_children d) st) (\<lambda>found.
         bind_oc (if found = None then cache_child cur d token st else Done (found, st)) (\<lambda>(found, st).
           case found of
             None \<Rightarrow> Done (None, st)
           | Some c \<Rightarrow> bind_oc (cross_mount c st) (\<lambda>current. walk ts current st))))))"

definition vfs_get_dentry :: "cstring option \<Rightarrow> vfs \<Rightarrow> (nat option \<times> vfs) outcome" where
  "vfs_get_dentry path st =
     (case (path, vfs_get_root_dentry st) of
        (Some path, Some root) \<Rightarrow>
          if path = [slash] then Done (Some root, st)
          else walk (tokens {slash} (path_copy path)) (if path \<noteq> [] \<and> hd path = slash then Some root else cwd_or_root st) st
      | _ \<Rightarrow> Done (None, st))"

definition vfs_lookup_path :: "cstring option \<Rightarrow> vfs \<Rightarrow> (int \<times> nat option \<times> vfs) outcome" where
  "vfs_lookup_path path st =
     bind_oc (vfs_get_dentry path st) (\<lambda>(d, st).
       case d of None \<Rightarrow> Done (-1, None, st) | Some d \<Rightarrow> bind_oc (get_d d st) (\<lambda>d. Done (0, d_inode d, st)))"

section \<open>Mounting\<close>

definition vfs_mount :: "superblock option \<Rightarrow> cstring option \<Rightarrow> vfs \<Rightarrow> (int \<times> vfs) outcome" where
  "vfs_mount sb mnt st =
     (case (sb, mnt) of
        (Some sb, Some mnt) \<Rightarrow>
          bind_oc (new_page st) (\<lambda>(_, st).
            let m = \<lparr>mnt_sb = sb, mount_point = copy_name mnt\<rparr>;
                st = st\<lparr>mounts := m # mounts st\<rparr>
            in if mnt = [slash] then Done (0, st\<lparr>root_superblock := Some sb\<rparr>)
               else bind_oc (vfs_get_dentry (Some mnt) st) (\<lambda>(mnt_dentry, st).
                 case mnt_dentry of
                   None \<Rightarrow> Done (0, st)
                 | Some md \<Rightarrow> bind_oc (get_d md st) (\<lambda>d.
                     let d = d\<lparr>mounted_here := Some m\<rparr>; st = set_d md d st
                     in bind_oc (deref (sb_root sb)) (\<lambda>r. bind_oc (get_d r st) (\<lambda>root.
                          let root = root\<lparr>d_parent := d_parent d, dn_name := copy_name (dn_name d)\<rparr>
                          in Done (0, set_d r root st))))))
      | _ \<Rightarrow> Done (-1, st))"

section \<open>Directories\<close>

text \<open>Position of the last slash before \<open>n\<close>: the loop over \<open>i\<close> from the end.\<close>
primrec rfind_slash :: "cstring \<Rightarrow> nat \<Rightarrow> nat option" where
  "rfind_slash p 0 = None"
| "rfind_slash p (Suc i) = (if p ! i = slash then Some i else rfind_slash p i)"

definition vfs_mkdir_at :: "nat option \<Rightarrow> cstring \<Rightarrow> vfs \<Rightarrow> (int \<times> vfs) outcome" where
  "vfs_mkdir_at parent name st =
     (case parent of
        None \<Rightarrow> Done (-1, st)
      | Some p \<Rightarrow> bind_oc (get_i p st) (\<lambda>i.
          if is_directory i = 0 then Done (-1, st)
          else case i_private i of
            PNull \<Rightarrow> Done (-1, st)
          | PDentry parent_d \<Rightarrow> bind_oc (get_d parent_d st) (\<lambda>d.
              bind_oc (find_child name (d_children d) st) (\<lambda>child.
                if child \<noteq> None then Done (-1, st)
                else bind_oc (new_page st) (\<lambda>(new_dentry, st). bind_oc (new_page st) (\<lambda>(new_inode, st).
                  let st = set_i new_inode (zero_inode\<lparr>is_directory := 1, i_type := FT_DIR, i_ops := Some Vfs_dir_iops,
                             f_ops := None, i_private := PDentry new_dentry, i_mode := 5\<rparr>) st
                  in bind_oc (add_child parent_d new_dentry
                        (zero_dentry\<lparr>dn_name := copy_name name, d_parent := Some parent_d, d_inode := Some new_inode\<rparr>) st)
                       (\<lambda>st. Done (0, st))))))
          | _ \<Rightarrow> Wild))"

text \<open>
  The directory part and the last name of a path, as \<open>vfs_mkdir\<close>, \<open>vfs_unlink\<close> and \<open>vfs_create\<close> find them:
  the dentry of the parent and the name.
\<close>
definition parent_and_name :: "cstring \<Rightarrow> vfs \<Rightarrow> (nat option \<times> cstring \<times> vfs) outcome" where
  "parent_and_name p st =
     (case rfind_slash p (length p) of
        Some i \<Rightarrow>
          let name = drop (Suc i) p
          in if i = 0 then Done (vfs_get_root_dentry st, name, st)
             else bind_oc (vfs_get_dentry (Some (take i p)) st) (\<lambda>(d, st). Done (d, name, st))
      | None \<Rightarrow> Done (cwd_or_root st, p, st))"

text \<open>The test that the path does not end with a slash.\<close>
definition trailing_slash :: "cstring \<Rightarrow> bool" where
  "trailing_slash p \<longleftrightarrow> (case rfind_slash p (length p) of Some i \<Rightarrow> drop (Suc i) p = [] | None \<Rightarrow> False)"

text \<open>The inode of the parent, \<open>None\<close> when the parent or its inode is null.\<close>
definition parent_inode :: "nat option \<Rightarrow> vfs \<Rightarrow> nat option outcome" where
  "parent_inode pd st = (case pd of None \<Rightarrow> Done None | Some a \<Rightarrow> bind_oc (get_d a st) (\<lambda>d. Done (d_inode d)))"

definition vfs_mkdir :: "cstring option \<Rightarrow> vfs \<Rightarrow> (int \<times> vfs) outcome" where
  "vfs_mkdir path st =
     (case path of
        None \<Rightarrow> Done (-1, st)
      | Some path \<Rightarrow>
          if trailing_slash (path_copy path) then Done (-1, st)
          else bind_oc (parent_and_name (path_copy path) st) (\<lambda>(parent_dentry, dir_name, st).
            bind_oc (parent_inode parent_dentry st) (\<lambda>p.
              case p of
                None \<Rightarrow> Done (-1, st)
              | Some p \<Rightarrow> bind_oc (get_i p st) (\<lambda>i.
                  if i_ops i = Some Fat32_inode_ops
                  then (case fat32_vfs_mkdir (volume st) (Some i) dir_name of
                          None \<Rightarrow> Halts
                        | Some (fs, r) \<Rightarrow> Done (r, st\<lparr>volume := fs\<rparr>))
                  else vfs_mkdir_at (Some p) dir_name st))))"

definition vfs_chdir :: "cstring option \<Rightarrow> vfs \<Rightarrow> (int \<times> vfs) outcome" where
  "vfs_chdir path st =
     (if path = None \<or> task_cwd st = None then Done (-1, st)
      else bind_oc (vfs_get_dentry path st) (\<lambda>(d, st).
        case d of
          None \<Rightarrow> Done (-1, st)
        | Some a \<Rightarrow> bind_oc (get_d a st) (\<lambda>d. bind_oc (deref (d_inode d)) (\<lambda>i. bind_oc (get_i i st) (\<lambda>i.
            if is_directory i = 0 then Done (-1, st) else Done (0, st\<lparr>task_cwd := Some (Some a)\<rparr>))))))"

text \<open>
  The walk up to the root.  \<open>acc\<close> is what \<open>tmp\<close> holds from \<open>pos\<close> on, without its null, so \<open>pos\<close> is 4095 less
  its length; \<open>None\<close> is \<open>return -1\<close>.
\<close>
function getcwd_loop :: "vfs \<Rightarrow> nat option \<Rightarrow> cstring \<Rightarrow> cstring option outcome" where
  "getcwd_loop st d acc =
     (case d of
        None \<Rightarrow> Done (Some acc)
      | Some a \<Rightarrow> bind_oc (get_d a st) (\<lambda>d.
          if d_parent d = None then Done (Some acc)
          else if int PATH_MAX - 1 - int (length acc) - int (length (dn_name d)) < 1 then Done None
          else getcwd_loop st (d_parent d) (slash # dn_name d @ acc)))"
  by pat_completeness auto
termination
  by (relation "measure (\<lambda>(st, d, acc). PATH_MAX - length acc)") (auto simp: PATH_MAX_def)

declare getcwd_loop.simps [simp del]

text \<open>The result is the return value and the bytes stored, with their null.\<close>
definition vfs_getcwd :: "bool \<Rightarrow> u64 \<Rightarrow> vfs \<Rightarrow> (int \<times> u8 list) outcome" where
  "vfs_getcwd buf_null len st =
     (if buf_null \<or> len = 0 then Done (-1, [])
      else bind_oc (case task_cwd st of
             Some (Some c) \<Rightarrow> Done (Some c)
           | _ \<Rightarrow> (case root_superblock st of None \<Rightarrow> Wild | Some sb \<Rightarrow> Done (sb_root sb))) (\<lambda>cwd.
        bind_oc (getcwd_loop st cwd []) (\<lambda>r.
          case r of
            None \<Rightarrow> Done (-1, [])
          | Some acc \<Rightarrow>
              let tmp = (if acc = [] then [slash] else acc)
              in if len < of_nat (length tmp + 1) then Done (-1, []) else Done (0, tmp @ [0]))))"

section \<open>Removing files\<close>

text \<open>\<open>kfree\<close> of what \<open>private\<close> points to.\<close>
definition free_private :: "private_data \<Rightarrow> vfs \<Rightarrow> vfs" where
  "free_private p st =
     (case p of
        PDentry d \<Rightarrow> st\<lparr>dentries := (dentries st)(d := None)\<rparr>
      | PStripFile f \<Rightarrow> st\<lparr>strip_metas := (strip_metas st)(f := None)\<rparr>
      | _ \<Rightarrow> st)"

definition evict_child :: "nat \<Rightarrow> cstring \<Rightarrow> vfs \<Rightarrow> vfs outcome" where
  "evict_child parent name st =
     bind_oc (get_d parent st) (\<lambda>d. bind_oc (find_child name (d_children d) st) (\<lambda>child.
       case child of
         None \<Rightarrow> Done st
       | Some c \<Rightarrow>
           let st = set_d parent (d\<lparr>d_children := remove1 c (d_children d)\<rparr>) st
           in bind_oc (get_d c st) (\<lambda>cd.
                bind_oc (case d_inode cd of
                    None \<Rightarrow> Done st
                  | Some i \<Rightarrow> bind_oc (get_i i st) (\<lambda>node.
                      let st = free_private (i_private node) st in Done (st\<lparr>inodes := (inodes st)(i := None)\<rparr>)))
                  (\<lambda>st. Done (st\<lparr>dentries := (dentries st)(c := None)\<rparr>)))))"

definition vfs_unlink :: "cstring option \<Rightarrow> vfs \<Rightarrow> (int \<times> vfs) outcome" where
  "vfs_unlink path st =
     (case path of
        None \<Rightarrow> Done (-1, st)
      | Some path \<Rightarrow>
          if trailing_slash (path_copy path) then Done (-1, st)
          else bind_oc (parent_and_name (path_copy path) st) (\<lambda>(parent_dentry, file_name, st).
            bind_oc (parent_inode parent_dentry st) (\<lambda>p.
              case (parent_dentry, p) of
                (Some pd, Some p) \<Rightarrow> bind_oc (get_i p st) (\<lambda>i.
                  if i_ops i = Some Fat32_inode_ops
                  then (case fat32_vfs_unlink (volume st) (Some i) file_name of
                          None \<Rightarrow> Halts
                        | Some (fs, r) \<Rightarrow>
                            let st = st\<lparr>volume := fs\<rparr>
                            in if r \<noteq> 0 then Done (r, st)
                               else bind_oc (evict_child pd file_name st) (\<lambda>st. Done (0, st)))
                  else Done (-1, st))
              | _ \<Rightarrow> Done (-1, st))))"

section \<open>Open files\<close>

definition vfs_create :: "cstring option \<Rightarrow> u32 \<Rightarrow> vfs \<Rightarrow> (int \<times> vfs) outcome" where
  "vfs_create path mode st =
     (case path of
        None \<Rightarrow> Done (-1, st)
      | Some path \<Rightarrow> bind_oc (parent_and_name (path_copy path) st) (\<lambda>(parent_dentry, file_name, st).
          bind_oc (parent_inode parent_dentry st) (\<lambda>p.
            case p of
              None \<Rightarrow> Done (-1, st)
            | Some p \<Rightarrow> bind_oc (get_i p st) (\<lambda>i.
                case i_ops i of
                  None \<Rightarrow> Wild
                | Some Fat32_inode_ops \<Rightarrow>
                    (case fat32_vfs_create (volume st) (Some i) file_name mode of
                       None \<Rightarrow> Halts
                     | Some (fs, r) \<Rightarrow> Done (r, st\<lparr>volume := fs\<rparr>))
                | Some _ \<Rightarrow> Done (-1, st)))))"

definition get_f :: "nat \<Rightarrow> vfs \<Rightarrow> open_file outcome" where
  "get_f a st = (case open_files st a of None \<Rightarrow> Wild | Some f \<Rightarrow> Done f)"

definition set_f :: "nat \<Rightarrow> open_file \<Rightarrow> vfs \<Rightarrow> vfs" where
  "set_f a f st = st\<lparr>open_files := (open_files st)(a \<mapsto> f)\<rparr>"

definition vfs_open :: "nat option \<Rightarrow> u32 \<Rightarrow> vfs \<Rightarrow> (int \<times> nat option \<times> vfs) outcome" where
  "vfs_open node flags st =
     (case node of
        None \<Rightarrow> Done (-1, None, st)
      | Some a \<Rightarrow> (case kmalloc st of
          (None, st) \<Rightarrow> Done (-1, None, st)
        | (Some f, st) \<Rightarrow> bind_oc (get_i a st) (\<lambda>i.
            Done (0, Some f, set_f f \<lparr>f_inode = node, f_flags = flags, f_fops = f_ops i, f_offset = 0\<rparr> st))))"

definition vfs_close :: "nat option \<Rightarrow> vfs \<Rightarrow> (int \<times> vfs) outcome" where
  "vfs_close f st =
     (case f of
        None \<Rightarrow> Done (-1, st)
      | Some a \<Rightarrow> bind_oc (get_f a st) (\<lambda>fl.
          if f_inode fl = None then Done (-1, st)
          else Done (0, st\<lparr>open_files := (open_files st)(a := None)\<rparr>)))"

text \<open>The file of the initrd; the copy from behind its end or to a null buffer is \<open>Wild\<close>.\<close>
definition stripfs_file_read :: "nat \<Rightarrow> bool \<Rightarrow> u64 \<Rightarrow> u64 \<Rightarrow> vfs \<Rightarrow> (u8 list \<times> int \<times> vfs) outcome" where
  "stripfs_file_read a buf_null len off st =
     bind_oc (get_f a st) (\<lambda>f. case f_inode f of None \<Rightarrow> Done ([], -1, st) | Some i \<Rightarrow>
       bind_oc (get_i i st) (\<lambda>node.
         case i_private node of
           PNull \<Rightarrow> Done ([], -1, st)
         | PStripFile m \<Rightarrow> (case strip_metas st m of None \<Rightarrow> Wild | Some meta \<Rightarrow>
             if (scast (sf_length meta) :: u64) < off then Done ([], 0, st)
             else
               let available = scast (sf_length meta) - off;
                   to_read = (if len < available then len else available);
                   src = unat (scast (sf_offset meta) + off)
               in if (src + unat to_read \<le> length (initrd st) \<and> \<not> buf_null) \<or> to_read = 0
                  then Done (slice_at (initrd st) src (unat to_read), sint to_read,
                         set_f a (f\<lparr>f_offset := f_offset f + to_read\<rparr>) st)
                  else Wild)
         | _ \<Rightarrow> Wild))"

text \<open>\<open>None\<close> is a terminal that waits for input.\<close>
definition read_op :: "file_ops \<Rightarrow> nat \<Rightarrow> nat \<Rightarrow> bool \<Rightarrow> u64 \<Rightarrow> u64 \<Rightarrow> vfs \<Rightarrow> (u8 list \<times> int \<times> vfs) option outcome" where
  "read_op ops a i buf_null len off st =
     bind_oc (get_i i st) (\<lambda>node.
       case ops of
         Fat32_file_ops \<Rightarrow> (case fat32_vfs_read (volume st) (Some node) buf_null len off of
             None \<Rightarrow> Halts | Some (fs, bs, r) \<Rightarrow> Done (Some (bs, r, st\<lparr>volume := fs\<rparr>)))
       | Strip_fops \<Rightarrow> bind_oc (stripfs_file_read a buf_null len off st) (\<lambda>r. Done (Some r))
       | Tty_fops \<Rightarrow> bind_oc (tty_read (ino node) buf_null len (vfs_con st)) (\<lambda>r.
           Done (map_option (\<lambda>(bs, r, con). (bs, r, st\<lparr>vfs_con := con\<rparr>)) r)))"

definition advance :: "nat \<Rightarrow> int \<Rightarrow> vfs \<Rightarrow> vfs outcome" where
  "advance a ret st =
     (if ret > 0 then bind_oc (get_f a st) (\<lambda>f. Done (set_f a (f\<lparr>f_offset := f_offset f + of_int ret\<rparr>) st)) else Done st)"

definition vfs_read :: "nat option \<Rightarrow> bool \<Rightarrow> u64 \<Rightarrow> vfs \<Rightarrow> (u8 list \<times> int \<times> vfs) option outcome" where
  "vfs_read f buf_null len st =
     (case f of
        None \<Rightarrow> Done (Some ([], -1, st))
      | Some a \<Rightarrow> bind_oc (get_f a st) (\<lambda>fl.
          case f_inode fl of
            None \<Rightarrow> Done (Some ([], -1, st))
          | Some i \<Rightarrow> bind_oc (get_i i st) (\<lambda>node.
              case f_ops node of
                None \<Rightarrow> Done (Some ([], -1, st))
              | Some ops \<Rightarrow> bind_oc (read_op ops a i buf_null len (f_offset fl) st) (\<lambda>r.
                  case r of
                    None \<Rightarrow> Done None
                  | Some (bs, ret, st) \<Rightarrow> bind_oc (advance a ret st) (\<lambda>st. Done (Some (bs, ret, st)))))))"

text \<open>The initrd has no write operation.\<close>
definition write_op :: "file_ops \<Rightarrow> nat \<Rightarrow> u8 list option \<Rightarrow> u64 \<Rightarrow> u64 \<Rightarrow> vfs \<Rightarrow> (int \<times> vfs) outcome" where
  "write_op ops i buf len off st =
     bind_oc (get_i i st) (\<lambda>node.
       case ops of
         Fat32_file_ops \<Rightarrow> (case fat32_vfs_write (volume st) (Some node) buf len off of
             None \<Rightarrow> Halts
           | Some (fs, node', r) \<Rightarrow>
               Done (r, (case node' of None \<Rightarrow> st | Some n \<Rightarrow> set_i i n st)\<lparr>volume := fs\<rparr>))
       | Strip_fops \<Rightarrow> Done (-1, st)
       | Tty_fops \<Rightarrow> bind_oc (tty_write (ino node) buf len (vfs_con st)) (\<lambda>(r, con). Done (r, st\<lparr>vfs_con := con\<rparr>)))"

definition vfs_write :: "nat option \<Rightarrow> u8 list option \<Rightarrow> u64 \<Rightarrow> vfs \<Rightarrow> (int \<times> vfs) outcome" where
  "vfs_write f buf len st =
     (case f of
        None \<Rightarrow> Done (-1, st)
      | Some a \<Rightarrow> bind_oc (get_f a st) (\<lambda>fl.
          case f_inode fl of
            None \<Rightarrow> Done (-1, st)
          | Some i \<Rightarrow> bind_oc (get_i i st) (\<lambda>node.
              case f_ops node of
                None \<Rightarrow> Done (-1, st)
              | Some ops \<Rightarrow> bind_oc (write_op ops i buf len (f_offset fl) st) (\<lambda>(ret, st).
                  bind_oc (advance a ret st) (\<lambda>st. Done (ret, st))))))"

end
