(* ===== verification/VfsOk.thy ===== *)
theory VfsOk
  imports Vfs
begin

text \<open>
  The shape of the directory tree: an invariant over the maps of dentries and inodes that path lookup, the
  creation of directories and the change of the working directory keep, and under which they never touch a
  null or freed object.  \<open>visible\<close> are the dentries that some path leads to from the root.
\<close>

section \<open>Safe runs\<close>

definition safe_oc :: "'a outcome \<Rightarrow> ('a \<Rightarrow> bool) \<Rightarrow> bool" where
  "safe_oc m P \<longleftrightarrow> (case m of Done a \<Rightarrow> P a | Halts \<Rightarrow> True | Wild \<Rightarrow> False)"

lemma safe_simps [simp]: "safe_oc (Done a) P = P a" "safe_oc Halts P" "\<not> safe_oc Wild P"
  by (simp_all add: safe_oc_def)

lemma safe_bind: "safe_oc m Q \<Longrightarrow> (\<And>a. Q a \<Longrightarrow> safe_oc (f a) P) \<Longrightarrow> safe_oc (bind_oc m f) P"
  by (cases m) auto

lemma safe_mono: "safe_oc m Q \<Longrightarrow> (\<And>a. Q a \<Longrightarrow> P a) \<Longrightarrow> safe_oc m P"
  by (cases m) auto

lemma safe_Done: "safe_oc m P \<Longrightarrow> m = Done a \<Longrightarrow> P a"
  by simp

section \<open>The invariant\<close>

definition name_ok :: "cstring \<Rightarrow> bool" where
  "name_ok nm \<longleftrightarrow> nm \<noteq> [] \<and> slash \<notin> set nm \<and> nm \<noteq> dot \<and> nm \<noteq> dotdot \<and> length nm \<le> 254"

type_synonym dmap = "nat \<rightharpoonup> dentry"
type_synonym imap = "nat \<rightharpoonup> inode"

definition child_name :: "dmap \<Rightarrow> nat \<Rightarrow> cstring" where
  "child_name ds c = (case ds c of Some C \<Rightarrow> dn_name C | None \<Rightarrow> [])"

definition is_dir_inode :: "imap \<Rightarrow> nat option \<Rightarrow> bool" where
  "is_dir_inode im i \<longleftrightarrow> (\<exists>a I. i = Some a \<and> im a = Some I \<and> is_directory I \<noteq> 0)"

definition dentry_ok :: "dmap \<Rightarrow> imap \<Rightarrow> nat \<Rightarrow> dentry \<Rightarrow> bool" where
  "dentry_ok ds im a D \<longleftrightarrow>
     (\<exists>i. d_inode D = Some i \<and> im i \<noteq> None) \<and>
     (d_children D \<noteq> [] \<longrightarrow> is_dir_inode im (d_inode D)) \<and>
     (\<forall>c \<in> set (d_children D). \<exists>C. ds c = Some C \<and> d_parent C = Some a \<and> name_ok (dn_name C)) \<and>
     distinct (map (child_name ds) (d_children D)) \<and>
     (\<forall>m. mounted_here D = Some m \<longrightarrow>
        (\<exists>r R. sb_root (mnt_sb m) = Some r \<and> ds r = Some R \<and> d_parent R = d_parent D \<and> dn_name R = dn_name D))"

definition inode_ok :: "dmap \<Rightarrow> imap \<Rightarrow> inode \<Rightarrow> bool" where
  "inode_ok ds im I \<longleftrightarrow>
     (is_directory I \<noteq> 0 \<and> i_ops I \<noteq> Some Fat32_inode_ops \<longrightarrow> i_private I = PNull \<or> (\<exists>pd. i_private I = PDentry pd)) \<and>
     (\<forall>pd. i_private I = PDentry pd \<longrightarrow> (\<exists>P. ds pd = Some P \<and> is_dir_inode im (d_inode P)))"

text \<open>Where a step onto the child \<open>c\<close> ends.\<close>
definition lands :: "dmap \<Rightarrow> nat \<Rightarrow> nat \<Rightarrow> bool" where
  "lands ds c a \<longleftrightarrow> (\<exists>C. ds c = Some C \<and> (case mounted_here C of None \<Rightarrow> a = c | Some m \<Rightarrow> sb_root (mnt_sb m) = Some a))"

inductive visible :: "dmap \<Rightarrow> nat option \<Rightarrow> nat \<Rightarrow> bool" for ds root where
  root: "root = Some r \<Longrightarrow> visible ds root r"
| child: "visible ds root p \<Longrightarrow> ds p = Some P \<Longrightarrow> c \<in> set (d_children P) \<Longrightarrow> lands ds c a \<Longrightarrow>
    ds a = Some A \<Longrightarrow> d_parent A = Some p \<Longrightarrow> dn_name A = child_name ds c \<Longrightarrow> visible ds root a"

definition tree_ok :: "dmap \<Rightarrow> imap \<Rightarrow> nat option \<Rightarrow> nat option option \<Rightarrow> nat \<Rightarrow> bool" where
  "tree_ok ds im root cwd n \<longleftrightarrow>
     (\<forall>a D. ds a = Some D \<longrightarrow> dentry_ok ds im a D \<and> a < n) \<and>
     (\<forall>i I. im i = Some I \<longrightarrow> inode_ok ds im I \<and> i < n) \<and>
     (\<exists>r R. root = Some r \<and> ds r = Some R \<and> d_parent R = None) \<and>
     (\<forall>c. cwd = Some (Some c) \<longrightarrow> visible ds root c)"

definition vfs_ok :: "vfs \<Rightarrow> bool" where
  "vfs_ok st \<longleftrightarrow> tree_ok (dentries st) (inodes st) (vfs_get_root_dentry st) (task_cwd st) (next_id st)"

text \<open>What the lookups do to the maps: dentries get children, objects are added, nothing else changes.\<close>
definition dgrown :: "dmap \<Rightarrow> dmap \<Rightarrow> bool" where
  "dgrown ds ds' \<longleftrightarrow>
     (\<forall>a D. ds a = Some D \<longrightarrow> (\<exists>D'. ds' a = Some D' \<and> dn_name D' = dn_name D \<and> d_inode D' = d_inode D \<and>
        d_parent D' = d_parent D \<and> mounted_here D' = mounted_here D \<and> set (d_children D) \<subseteq> set (d_children D'))) \<and>
     (\<forall>a D'. ds a = None \<longrightarrow> ds' a = Some D' \<longrightarrow> mounted_here D' = None)"

definition grows :: "vfs \<Rightarrow> vfs \<Rightarrow> bool" where
  "grows st st' \<longleftrightarrow> vfs_get_root_dentry st' = vfs_get_root_dentry st \<and> task_cwd st' = task_cwd st \<and>
     kmalloc_ok st' = kmalloc_ok st \<and> page_ok st' = page_ok st \<and> dgrown (dentries st) (dentries st') \<and> inodes st \<subseteq>\<^sub>m inodes st' \<and>
     open_files st' = open_files st"

lemma dgrown_refl [simp]: "dgrown ds ds"
  by (simp add: dgrown_def)

lemma dgrownD:
  assumes "dgrown ds ds'" and "ds a = Some D"
  shows "\<exists>D'. ds' a = Some D' \<and> dn_name D' = dn_name D \<and> d_inode D' = d_inode D \<and> d_parent D' = d_parent D \<and>
    mounted_here D' = mounted_here D \<and> set (d_children D) \<subseteq> set (d_children D')"
  using assms unfolding dgrown_def by blast

lemma dgrown_trans:
  assumes "dgrown ds ds1" and "dgrown ds1 ds2"
  shows "dgrown ds ds2"
  unfolding dgrown_def
proof (intro conjI allI impI)
  fix a D assume "ds a = Some D"
  then obtain D1 where 1: "ds1 a = Some D1" "dn_name D1 = dn_name D" "d_inode D1 = d_inode D" "d_parent D1 = d_parent D"
    "mounted_here D1 = mounted_here D" "set (d_children D) \<subseteq> set (d_children D1)"
    using dgrownD [OF assms(1)] by blast
  then show "\<exists>D'. ds2 a = Some D' \<and> dn_name D' = dn_name D \<and> d_inode D' = d_inode D \<and> d_parent D' = d_parent D \<and>
      mounted_here D' = mounted_here D \<and> set (d_children D) \<subseteq> set (d_children D')"
    using dgrownD [OF assms(2) 1(1)] by (metis subset_trans)
next
  fix a D2 assume a: "ds a = None" "ds2 a = Some D2"
  show "mounted_here D2 = None"
  proof (cases "ds1 a")
    case None
    then show ?thesis using a assms(2) by (simp add: dgrown_def)
  next
    case (Some D1)
    then show ?thesis using a assms(1) dgrownD [OF assms(2) Some] by (auto simp: dgrown_def)
  qed
qed

lemma grows_refl [simp]: "grows st st"
  by (simp add: grows_def)

lemma grows_trans: "grows st st1 \<Longrightarrow> grows st1 st2 \<Longrightarrow> grows st st2"
  unfolding grows_def by (metis dgrown_trans map_le_trans)

lemma child_name_dgrown: "dgrown ds ds' \<Longrightarrow> ds c \<noteq> None \<Longrightarrow> child_name ds' c = child_name ds c"
  by (auto simp: child_name_def dest: dgrownD)

lemma lands_dgrown: "dgrown ds ds' \<Longrightarrow> lands ds c a \<Longrightarrow> lands ds' c a"
  unfolding lands_def using dgrownD by fastforce

lemma visible_dgrown:
  assumes "dgrown ds ds'" and "visible ds root a"
  shows "visible ds' root a"
  using assms(2)
proof induction
  case (root r)
  then show ?case by (rule visible.root)
next
  case (child p P c a A)
  obtain P' where P': "ds' p = Some P'" "c \<in> set (d_children P')"
    using dgrownD [OF assms(1) child.hyps(2)] child.hyps(3) by blast
  obtain A' where A': "ds' a = Some A'" "d_parent A' = d_parent A" "dn_name A' = dn_name A"
    using dgrownD [OF assms(1) child.hyps(5)] by blast
  have "ds c \<noteq> None" using child.hyps(4) by (auto simp: lands_def)
  then show ?case
    using visible.child [OF child.IH P' lands_dgrown [OF assms(1) child.hyps(4)] A'(1)]
      child_name_dgrown [OF assms(1)] A'(2,3) child.hyps(6,7) by simp
qed

text \<open>A visible dentry is alive.\<close>
lemma visible_alive:
  assumes "visible ds root a" and "\<exists>r R. root = Some r \<and> ds r = Some R \<and> d_parent R = None"
  shows "ds a \<noteq> None"
  using assms(1) by (cases rule: visible.cases) (use assms(2) in auto)

section \<open>Adding objects\<close>

lemma is_dir_inode_mono: "is_dir_inode im i \<Longrightarrow> im \<subseteq>\<^sub>m im' \<Longrightarrow> is_dir_inode im' i"
  unfolding is_dir_inode_def map_le_def by (metis domI)

lemma tree_okD:
  assumes "tree_ok ds im root cwd n"
  shows "ds a = Some D \<Longrightarrow> dentry_ok ds im a D" and "ds a = Some D \<Longrightarrow> a < n"
    and "im i = Some I \<Longrightarrow> inode_ok ds im I" and "im i = Some I \<Longrightarrow> i < n"
    and "\<exists>r R. root = Some r \<and> ds r = Some R \<and> d_parent R = None"
    and "cwd = Some (Some c) \<Longrightarrow> visible ds root c"
  using assms by (auto simp: tree_ok_def)

lemma tree_okI:
  assumes "\<And>a D. ds a = Some D \<Longrightarrow> dentry_ok ds im a D \<and> a < n"
    and "\<And>i I. im i = Some I \<Longrightarrow> inode_ok ds im I \<and> i < n"
    and "\<exists>r R. root = Some r \<and> ds r = Some R \<and> d_parent R = None"
    and "\<And>c. cwd = Some (Some c) \<Longrightarrow> visible ds root c"
  shows "tree_ok ds im root cwd n"
  using assms by (auto simp: tree_ok_def)

lemma tree_ok_more_ids:
  assumes ok: "tree_ok ds im root cwd n" and n: "n \<le> n'"
  shows "tree_ok ds im root cwd n'"
  by (rule tree_okI) (use tree_okD [OF ok] n in \<open>blast intro: order.strict_trans2\<close>)+

lemma dentry_ok_more_inodes:
  assumes "dentry_ok ds im a D" and le: "im \<subseteq>\<^sub>m im'"
  shows "dentry_ok ds im' a D"
proof -
  have "im' i \<noteq> None" if "im i \<noteq> None" for i
    using le that unfolding map_le_def by (metis domI option.exhaust)
  then show ?thesis
    using assms(1) is_dir_inode_mono [OF _ le] unfolding dentry_ok_def by blast
qed

lemma inode_ok_more_inodes: "inode_ok ds im I \<Longrightarrow> im \<subseteq>\<^sub>m im' \<Longrightarrow> inode_ok ds im' I"
  using is_dir_inode_mono unfolding inode_ok_def by blast

lemma tree_ok_add_inode:
  assumes ok: "tree_ok ds im root cwd n" and new: "inode_ok ds im I" "im i = None" "i < n"
  shows "tree_ok ds (im(i \<mapsto> I)) root cwd n"
proof (rule tree_okI)
  have le: "im \<subseteq>\<^sub>m im(i \<mapsto> I)" using new(2) by (auto simp: map_le_def)
  show "dentry_ok ds (im(i \<mapsto> I)) a D \<and> a < n" if "ds a = Some D" for a D
    using dentry_ok_more_inodes [OF tree_okD(1) [OF ok that] le] tree_okD(2) [OF ok that] by simp
  show "inode_ok ds (im(i \<mapsto> I)) J \<and> j < n" if "(im(i \<mapsto> I)) j = Some J" for j J
    using that inode_ok_more_inodes [OF _ le] new(1,3) tree_okD(3,4) [OF ok, of j J] by (cases "j = i") auto
  show "\<exists>r R. root = Some r \<and> ds r = Some R \<and> d_parent R = None" by (rule tree_okD(5) [OF ok])
  show "visible ds root c" if "cwd = Some (Some c)" for c by (rule tree_okD(6) [OF ok that])
qed

text \<open>Linking the new dentry \<open>c\<close> in front of the children of \<open>p\<close>.\<close>
definition link :: "nat \<Rightarrow> dentry \<Rightarrow> nat \<Rightarrow> dentry \<Rightarrow> dmap \<Rightarrow> dmap" where
  "link p P c C ds = ds(c \<mapsto> C, p \<mapsto> P\<lparr>d_children := c # d_children P\<rparr>)"

lemma link_dgrown:
  assumes "ds p = Some P" and "ds c = None" and "mounted_here C = None"
  shows "dgrown ds (link p P c C ds)"
  using assms by (auto simp: dgrown_def link_def)

lemma tree_ok_link:
  assumes ok: "tree_ok ds im root cwd n" and P: "ds p = Some P" "is_dir_inode im (d_inode P)"
    and c: "ds c = None" "c < n"
    and C: "d_parent C = Some p" "name_ok (dn_name C)" "d_children C = []" "mounted_here C = None" "d_inode C = Some i" "im i \<noteq> None"
    and fresh: "dn_name C \<notin> child_name ds ` set (d_children P)"
  shows "tree_ok (link p P c C ds) im root cwd n"
proof (rule tree_okI)
  let ?ds = "link p P c C ds"
  have cp: "c \<noteq> p" using P c by auto
  have g: "dgrown ds ?ds" using P(1) c(1) C(4) by (rule link_dgrown)
  have at: "?ds c = Some C" "?ds p = Some (P\<lparr>d_children := c # d_children P\<rparr>)" using cp by (simp_all add: link_def)
  have other: "?ds a = ds a" if "a \<noteq> c" "a \<noteq> p" for a using that by (simp add: link_def)
  have dok: "dentry_ok ?ds im a D'"
    if D: "dentry_ok ds im a D" and D': "dn_name D' = dn_name D" "d_inode D' = d_inode D" "d_parent D' = d_parent D"
      "mounted_here D' = mounted_here D"
      and ch: "d_children D' = d_children D \<or> (a = p \<and> D = P \<and> d_children D' = c # d_children D)" for a D D'
  proof -
    have alive: "ds x \<noteq> None" if "x \<in> set (d_children D)" for x
      using D that by (auto simp: dentry_ok_def)
    have "\<exists>Y. ?ds x = Some Y \<and> d_parent Y = Some a \<and> name_ok (dn_name Y)" if x: "x \<in> set (d_children D)" for x
    proof -
      obtain Y where Y: "ds x = Some Y" "d_parent Y = Some a" "name_ok (dn_name Y)" using D x by (auto simp: dentry_ok_def)
      show ?thesis using dgrownD [OF g Y(1)] Y(2,3) by auto
    qed
    moreover have nm: "child_name ?ds x = child_name ds x" if "x \<in> set (d_children D)" for x
      using child_name_dgrown [OF g alive [OF that]] .
    moreover have "child_name ?ds c = dn_name C" by (simp add: child_name_def at)
    moreover have "distinct (map (child_name ?ds) (d_children D))"
    proof -
      have "map (child_name ?ds) (d_children D) = map (child_name ds) (d_children D)" using nm by (intro map_cong) auto
      moreover have "distinct (map (child_name ds) (d_children D))" using D by (simp add: dentry_ok_def)
      ultimately show ?thesis by (simp only:)
    qed
    moreover have "\<exists>r R. sb_root (mnt_sb m) = Some r \<and> ?ds r = Some R \<and> d_parent R = d_parent D \<and> dn_name R = dn_name D"
      if m: "mounted_here D = Some m" for m
    proof -
      obtain r R where R: "sb_root (mnt_sb m) = Some r" "ds r = Some R" "d_parent R = d_parent D" "dn_name R = dn_name D"
        using D m by (auto simp: dentry_ok_def)
      show ?thesis using dgrownD [OF g R(2)] R(1,3,4) by auto
    qed
    ultimately show ?thesis
      using D D' ch P(2) fresh C(1,2) at(1) unfolding dentry_ok_def by auto
  qed
  show "dentry_ok ?ds im a D' \<and> a < n" if D': "?ds a = Some D'" for a D'
  proof -
    consider "a = c" | "a = p" | "a \<noteq> c" "a \<noteq> p" by blast
    then show ?thesis
    proof cases
      case 1
      then show ?thesis using D' at(1) C c(2) by (auto simp: dentry_ok_def)
    next
      case 2
      then show ?thesis using D' at(2) dok [OF tree_okD(1) [OF ok P(1)], of D'] tree_okD(2) [OF ok P(1)] by auto
    next
      case 3
      then show ?thesis using D' other dok [OF tree_okD(1) [OF ok, of a D']] tree_okD(2) [OF ok, of a D'] by auto
    qed
  qed
  show "inode_ok ?ds im I \<and> j < n" if I: "im j = Some I" for j I
  proof -
    have "inode_ok ds im I" "j < n" using tree_okD(3,4) [OF ok I] by auto
    then show ?thesis unfolding inode_ok_def using dgrownD [OF g] by metis
  qed
  obtain r R where R: "root = Some r" "ds r = Some R" "d_parent R = None" using tree_okD(5) [OF ok] by blast
  then show "\<exists>r R. root = Some r \<and> ?ds r = Some R \<and> d_parent R = None" using dgrownD [OF g R(2)] by auto
  show "visible ?ds root x" if "cwd = Some (Some x)" for x
    by (rule visible_dgrown [OF g tree_okD(6) [OF ok that]])
qed

section \<open>Lookups keep the invariant\<close>

lemma vfs_okD:
  assumes "vfs_ok st"
  shows "dentries st a = Some D \<Longrightarrow> dentry_ok (dentries st) (inodes st) a D"
    and "inodes st i = Some I \<Longrightarrow> inode_ok (dentries st) (inodes st) I"
    and "\<exists>r R. vfs_get_root_dentry st = Some r \<and> dentries st r = Some R \<and> d_parent R = None"
    and "task_cwd st = Some (Some c) \<Longrightarrow> visible (dentries st) (vfs_get_root_dentry st) c"
    and "dentries st (next_id st) = None" and "inodes st (next_id st) = None"
  using assms tree_okD [of "dentries st" "inodes st" "vfs_get_root_dentry st" "task_cwd st" "next_id st"]
  unfolding vfs_ok_def by (blast, blast, blast, blast, metis less_irrefl option.exhaust, metis less_irrefl option.exhaust)

lemma find_child_total:
  assumes "\<forall>c \<in> set cs. dentries st c \<noteq> None"
  shows "\<exists>r. find_child name cs st = Done r \<and>
    (case r of None \<Rightarrow> name \<notin> child_name (dentries st) ` set cs
     | Some c \<Rightarrow> c \<in> set cs \<and> child_name (dentries st) c = name)"
  using assms
proof (induction cs)
  case Nil
  then show ?case by simp
next
  case (Cons c cs)
  obtain C where C: "dentries st c = Some C" using Cons.prems by auto
  obtain r where r: "find_child name cs st = Done r" "case r of None \<Rightarrow> name \<notin> child_name (dentries st) ` set cs
     | Some c \<Rightarrow> c \<in> set cs \<and> child_name (dentries st) c = name"
    using Cons by auto
  show ?case
    using C r by (cases "dn_name C = name") (auto simp: get_d_def child_name_def split: option.splits)
qed

lemma children_alive: "dentry_ok ds im a D \<Longrightarrow> \<forall>c \<in> set (d_children D). ds c \<noteq> None"
  by (auto simp: dentry_ok_def)

lemma private_child_safe:
  assumes ok: "vfs_ok st" and p: "inodes st p = Some I" "i_private I = PNull \<or> (\<exists>pd. i_private I = PDentry pd)"
  shows "\<exists>r. private_child (Some p) name st = Done r \<and> (\<forall>i. r = Some i \<longrightarrow> inodes st i \<noteq> None)"
proof (cases "i_private I = PNull")
  case True
  then show ?thesis using p by (simp add: private_child_def get_i_def)
next
  case False
  then obtain pd where pd: "i_private I = PDentry pd" using p(2) by blast
  obtain P where P: "dentries st pd = Some P"
    using vfs_okD(2) [OF ok p(1)] pd by (auto simp: inode_ok_def)
  note Pok = vfs_okD(1) [OF ok P]
  obtain r where r: "find_child name (d_children P) st = Done r" "case r of None \<Rightarrow> True | Some c \<Rightarrow> c \<in> set (d_children P)"
    using find_child_total [OF children_alive [OF Pok]] by (fastforce split: option.splits)
  show ?thesis
  proof (cases r)
    case None
    then show ?thesis using p pd P r by (simp add: private_child_def get_i_def get_d_def)
  next
    case (Some c)
    then obtain C where C: "dentries st c = Some C" using Pok r(2) by (auto simp: dentry_ok_def)
    then have "\<exists>i. d_inode C = Some i \<and> inodes st i \<noteq> None" using vfs_okD(1) [OF ok C] by (auto simp: dentry_ok_def)
    then show ?thesis using p pd P r Some C by (auto simp: private_child_def get_i_def get_d_def)
  qed
qed

lemma fat32_lookup_node:
  assumes "fat32_vfs_lookup s (Some p) name = Some (s', Some node)"
  shows "i_ops node = Some Fat32_inode_ops" and "i_private node \<noteq> PDentry pd"
  using assms by (auto simp: fat32_vfs_lookup_def inode_of_slot_def Let_def split: if_splits option.splits prod.splits flow.splits search.splits)

lemma vfs_ok_volume [simp]: "vfs_ok (st\<lparr>volume := fs\<rparr>) = vfs_ok st"
  by (simp add: vfs_ok_def vfs_get_root_dentry_def)

lemma grows_volume [simp]: "grows st (st\<lparr>volume := fs\<rparr>)"
  by (simp add: grows_def vfs_get_root_dentry_def)

text \<open>What a driver's lookup leaves behind.\<close>
definition looked_up :: "vfs \<Rightarrow> nat option \<times> vfs \<Rightarrow> bool" where
  "looked_up st = (\<lambda>(r, st'). vfs_ok st' \<and> grows st st' \<and> dentries st' = dentries st \<and> (\<forall>i. r = Some i \<longrightarrow> inodes st' i \<noteq> None))"

lemma fat32_lookup_inode_safe:
  assumes ok: "vfs_ok st" and mem: "\<forall>n. kmalloc_ok st n" and p: "inodes st p = Some I"
  shows "safe_oc (fat32_lookup_inode p name st) (looked_up st)"
proof (cases "fat32_vfs_lookup (volume st) (Some I) name")
  case None
  then show ?thesis using p by (simp add: fat32_lookup_inode_def get_i_def)
next
  case (Some r)
  then obtain fs node where r: "fat32_vfs_lookup (volume st) (Some I) name = Some (fs, node)" by (cases r) simp
  show ?thesis
  proof (cases node)
    case None
    then show ?thesis using p r ok by (simp add: fat32_lookup_inode_def get_i_def looked_up_def)
  next
    case (Some nd)
    let ?a = "next_id st"
    let ?st = "set_i ?a nd (st\<lparr>volume := fs, next_id := ?a + 1 + 1\<rparr>)"
    have run: "fat32_lookup_inode p name st = Done (Some ?a, ?st)"
      using p r Some mem by (simp add: fat32_lookup_inode_def get_i_def kmalloc_def set_i_def)
    have t: "tree_ok (dentries st) (inodes st) (vfs_get_root_dentry st) (task_cwd st) (?a + 2)"
      using ok tree_ok_more_ids unfolding vfs_ok_def by (metis le_add1)
    have "inode_ok (dentries st) (inodes st) nd"
      using fat32_lookup_node [OF r [unfolded Some]] by (simp add: inode_ok_def)
    from tree_ok_add_inode [OF t this vfs_okD(6) [OF ok]] have "vfs_ok ?st"
      by (simp add: vfs_ok_def set_i_def vfs_get_root_dentry_def)
    moreover have "grows st ?st" using vfs_okD(6) [OF ok] by (auto simp: grows_def set_i_def vfs_get_root_dentry_def map_le_def)
    ultimately show ?thesis unfolding run by (simp add: looked_up_def set_i_def)
  qed
qed

lemma lookup_op_safe:
  assumes ok: "vfs_ok st" and mem: "\<forall>n. kmalloc_ok st n"
    and p: "inodes st p = Some I" "is_directory I \<noteq> 0" "i_ops I = Some ops"
  shows "safe_oc (lookup_op ops p name st) (looked_up st)"
proof (cases "ops = Fat32_inode_ops")
  case True
  then show ?thesis using fat32_lookup_inode_safe [OF ok mem p(1)] by (simp add: lookup_op_def)
next
  case False
  then have "i_private I = PNull \<or> (\<exists>pd. i_private I = PDentry pd)"
    using vfs_okD(2) [OF ok p(1)] p(2,3) by (auto simp: inode_ok_def)
  then obtain r where "private_child (Some p) name st = Done r" "\<forall>i. r = Some i \<longrightarrow> inodes st i \<noteq> None"
    using private_child_safe [OF ok p(1)] by blast
  then show ?thesis using False ok
    by (cases ops) (simp_all add: lookup_op_def vfs_default_dir_lookup_def devfs_lookup_def stripfs_dir_lookup_def looked_up_def)
qed

lemma vfs_lookup_safe:
  assumes ok: "vfs_ok st" and mem: "\<forall>n. kmalloc_ok st n" and p: "inodes st p = Some I"
  shows "safe_oc (vfs_lookup (Some p) name st) (\<lambda>(rc, r, st'). looked_up st (r, st') \<and> (rc = 0 \<longleftrightarrow> r \<noteq> None))"
proof (cases "is_directory I = 0 \<or> i_ops I = None")
  case True
  then show ?thesis using p ok by (auto simp: vfs_lookup_def get_i_def looked_up_def)
next
  case False
  then obtain ops where ops: "is_directory I \<noteq> 0" "i_ops I = Some ops" by auto
  have "safe_oc (bind_oc (lookup_op ops p name st)
      (\<lambda>(found_inode, st). if found_inode = None then Done (- 1 :: int, None, st) else Done (0, found_inode, st)))
      (\<lambda>(rc, r, st'). looked_up st (r, st') \<and> (rc = 0 \<longleftrightarrow> r \<noteq> None))"
    by (rule safe_bind [OF lookup_op_safe [OF ok mem p ops]]) auto
  then show ?thesis using p ops by (simp add: vfs_lookup_def get_i_def)
qed

lemma copy_name_id: "length nm \<le> 254 \<Longrightarrow> copy_name nm = nm"
  by (simp add: copy_name_def NAME_MAX_def)

text \<open>A new dentry in the page of number \<open>c\<close>, linked under a directory.\<close>
lemma add_child_ok:
  assumes ok: "vfs_ok st" and P: "dentries st p = Some P" "is_dir_inode (inodes st) (d_inode P)"
    and c: "dentries st c = None" "c < next_id st"
    and nm: "name_ok nm" "nm \<notin> child_name (dentries st) ` set (d_children P)" and i: "inodes st i \<noteq> None"
  shows "\<exists>st'. add_child p c (zero_dentry\<lparr>dn_name := copy_name nm, d_inode := Some i, d_parent := Some p\<rparr>) st = Done st' \<and>
    vfs_ok st' \<and> grows st st' \<and> inodes st' = inodes st \<and> next_id st' = next_id st \<and>
    (\<exists>P' C. dentries st' p = Some P' \<and> c \<in> set (d_children P') \<and> dentries st' c = Some C \<and> dn_name C = nm \<and>
      mounted_here C = None \<and> d_inode C = Some i \<and> d_parent C = Some p)"
proof -
  let ?C = "zero_dentry\<lparr>dn_name := copy_name nm, d_inode := Some i, d_parent := Some p\<rparr>"
  let ?P = "P\<lparr>d_children := c # d_children P\<rparr>"
  have cp: "c \<noteq> p" using P c by auto
  have nm': "copy_name nm = nm" using nm(1) by (intro copy_name_id) (simp add: name_ok_def)
  have run: "add_child p c ?C st = Done (st\<lparr>dentries := link p P c ?C (dentries st)\<rparr>)"
    using cp P(1) by (simp add: add_child_def set_d_def get_d_def link_def)
  have "tree_ok (link p P c ?C (dentries st)) (inodes st) (vfs_get_root_dentry st) (task_cwd st) (next_id st)"
    using ok P c nm i unfolding vfs_ok_def by (intro tree_ok_link) (auto simp: zero_dentry_def nm')
  then have "vfs_ok (st\<lparr>dentries := link p P c ?C (dentries st)\<rparr>)"
    by (simp add: vfs_ok_def vfs_get_root_dentry_def)
  moreover have "grows st (st\<lparr>dentries := link p P c ?C (dentries st)\<rparr>)"
    using link_dgrown [OF P(1) c(1)] by (simp add: zero_dentry_def grows_def vfs_get_root_dentry_def)
  ultimately show ?thesis using run cp by (auto simp: link_def zero_dentry_def nm')
qed

definition memory_ok :: "vfs \<Rightarrow> bool" where
  "memory_ok st \<longleftrightarrow> (\<forall>n. kmalloc_ok st n)"

lemma memory_ok_grows: "grows st st' \<Longrightarrow> memory_ok st \<Longrightarrow> memory_ok st'"
  by (simp add: memory_ok_def grows_def)

lemma new_page_ok:
  assumes "vfs_ok st"
  shows "safe_oc (new_page st) (\<lambda>(c, st'). vfs_ok st' \<and> grows st st' \<and> dentries st' = dentries st \<and> inodes st' = inodes st \<and>
    dentries st' c = None \<and> inodes st' c = None \<and> c < next_id st')"
proof (cases "page_ok st (next_id st)")
  case True
  have "tree_ok (dentries st) (inodes st) (vfs_get_root_dentry st) (task_cwd st) (next_id st + 1)"
    using assms unfolding vfs_ok_def by (rule tree_ok_more_ids) simp
  then have "vfs_ok (st\<lparr>next_id := next_id st + 1\<rparr>)" by (simp add: vfs_ok_def vfs_get_root_dentry_def)
  then show ?thesis using True vfs_okD(5,6) [OF assms]
    by (simp add: new_page_def grows_def vfs_get_root_dentry_def)
qed (simp add: new_page_def)

text \<open>The child \<open>c\<close> of \<open>p\<close> with a name, in a state that has dgrown.\<close>
definition child_found :: "vfs \<Rightarrow> nat \<Rightarrow> cstring \<Rightarrow> nat option \<times> vfs \<Rightarrow> bool" where
  "child_found st p nm = (\<lambda>(r, st'). vfs_ok st' \<and> grows st st' \<and>
     (\<forall>c. r = Some c \<longrightarrow> (\<exists>P. dentries st' p = Some P \<and> c \<in> set (d_children P) \<and> child_name (dentries st') c = nm)))"

lemma cache_child_safe:
  assumes ok: "vfs_ok st" and mem: "memory_ok st" and P: "dentries st p = Some P" "is_dir_inode (inodes st) (d_inode P)"
    and nm: "name_ok nm" "nm \<notin> child_name (dentries st) ` set (d_children P)"
  shows "safe_oc (cache_child p P nm st) (child_found st p nm)"
proof -
  obtain i I where i: "d_inode P = Some i" "inodes st i = Some I" using P(2) by (auto simp: is_dir_inode_def)
  have "safe_oc (vfs_lookup (d_inode P) nm st) (\<lambda>(rc, r, st'). looked_up st (r, st') \<and> (rc = 0 \<longleftrightarrow> r \<noteq> None))"
    unfolding i(1) by (rule vfs_lookup_safe [OF ok mem [unfolded memory_ok_def] i(2)])
  then show ?thesis unfolding cache_child_def
  proof (rule safe_bind)
    fix t assume t: "case t of (rc, r, st') \<Rightarrow> looked_up st (r, st') \<and> (rc = 0 \<longleftrightarrow> r \<noteq> None)"
    obtain rc r st1 where t1: "t = (rc, r, st1)" by (cases t)
    then have l: "looked_up st (r, st1)" "rc = 0 \<longleftrightarrow> r \<noteq> None" using t by auto
    then have s1: "vfs_ok st1" "grows st st1" "dentries st1 = dentries st" by (auto simp: looked_up_def)
    have "safe_oc (bind_oc (new_page st1) (\<lambda>(found, st2).
        bind_oc (add_child p found (zero_dentry\<lparr>dn_name := copy_name nm, d_inode := r, d_parent := Some p\<rparr>) st2)
          (\<lambda>st3. Done (Some found, st3)))) (child_found st p nm)" if r: "r = Some j" for j
    proof (rule safe_bind [OF new_page_ok [OF s1(1)]], clarify)
      fix c st2
      assume s2: "vfs_ok st2" "grows st1 st2" "dentries st2 = dentries st1" "inodes st2 = inodes st1"
        "dentries st2 c = None" "c < next_id st2"
      have j: "inodes st2 j \<noteq> None" using l(1) r s2(4) by (auto simp: looked_up_def)
      have "is_dir_inode (inodes st2) (d_inode P)"
        using P(2) s1(2) s2(2) by (auto simp: grows_def elim!: is_dir_inode_mono intro: map_le_trans)
      moreover have "dentries st2 p = Some P" "nm \<notin> child_name (dentries st2) ` set (d_children P)"
        using P nm s1(3) s2(3) by simp_all
      ultimately obtain st3 where st3: "add_child p c (zero_dentry\<lparr>dn_name := copy_name nm, d_inode := Some j, d_parent := Some p\<rparr>) st2 = Done st3"
        "vfs_ok st3" "grows st2 st3"
        "\<exists>P' C. dentries st3 p = Some P' \<and> c \<in> set (d_children P') \<and> dentries st3 c = Some C \<and> dn_name C = nm"
        using add_child_ok [OF s2(1) _ _ s2(5,6) nm(1) _ j] by blast
      have "grows st st3" using s1(2) s2(2) st3(3) by (blast intro: grows_trans)
      then show "safe_oc (bind_oc (add_child p c (zero_dentry\<lparr>dn_name := copy_name nm, d_inode := r, d_parent := Some p\<rparr>) st2)
          (\<lambda>st3. Done (Some c, st3))) (child_found st p nm)"
        using st3 r by (auto simp: child_found_def child_name_def)
    qed
    then show "safe_oc ((\<lambda>(rc, next_inode, st). if rc \<noteq> 0 \<or> next_inode = None then Done (None, st)
        else bind_oc (new_page st) (\<lambda>(found, st).
          bind_oc (add_child p found (zero_dentry\<lparr>dn_name := copy_name nm, d_inode := next_inode, d_parent := Some p\<rparr>) st)
            (\<lambda>st. Done (Some found, st)))) t) (child_found st p nm)"
      using t1 l s1 by (cases r) (auto simp: child_found_def)
  qed
qed

text \<open>The step onto a child of a visible directory ends on a visible dentry.\<close>
lemma cross_mount_visible:
  assumes ok: "vfs_ok st" and p: "visible (dentries st) (vfs_get_root_dentry st) p" "dentries st p = Some P" "c \<in> set (d_children P)"
  shows "\<exists>a. cross_mount c st = Done (Some a) \<and> lands (dentries st) c a \<and> visible (dentries st) (vfs_get_root_dentry st) a"
proof -
  obtain C where C: "dentries st c = Some C" "d_parent C = Some p"
    using vfs_okD(1) [OF ok p(2)] p(3) by (auto simp: dentry_ok_def)
  have "\<exists>a A. cross_mount c st = Done (Some a) \<and> lands (dentries st) c a \<and> dentries st a = Some A \<and> d_parent A = Some p \<and> dn_name A = dn_name C"
  proof (cases "mounted_here C")
    case None
    then show ?thesis using C by (auto simp: cross_mount_def get_d_def lands_def)
  next
    case (Some m)
    then obtain r R where "sb_root (mnt_sb m) = Some r" "dentries st r = Some R" "d_parent R = d_parent C" "dn_name R = dn_name C"
      using vfs_okD(1) [OF ok C(1)] by (auto simp: dentry_ok_def)
    then show ?thesis using C Some by (auto simp: cross_mount_def get_d_def lands_def)
  qed
  then obtain a A where a: "cross_mount c st = Done (Some a)" "lands (dentries st) c a" "dentries st a = Some A"
    "d_parent A = Some p" "dn_name A = child_name (dentries st) c" using C(1) by (auto simp: child_name_def)
  then show ?thesis using visible.child [OF p a(2-5)] by blast
qed

definition reached :: "vfs \<Rightarrow> nat option \<times> vfs \<Rightarrow> bool" where
  "reached st = (\<lambda>(r, st'). vfs_ok st' \<and> grows st st' \<and>
     (\<forall>a. r = Some a \<longrightarrow> visible (dentries st') (vfs_get_root_dentry st') a))"

lemma reached_grows: "grows st st1 \<Longrightarrow> reached st1 x \<Longrightarrow> reached st x"
  by (cases x) (auto simp: reached_def intro: grows_trans)

lemma visible_is_dir:
  assumes ok: "vfs_ok st" and D: "dentries st a = Some D"
  shows "\<exists>b. is_dir D st = Done b \<and> (b \<longrightarrow> is_dir_inode (inodes st) (d_inode D))"
  using vfs_okD(1) [OF ok D] by (auto simp: dentry_ok_def is_dir_def get_i_def is_dir_inode_def)

lemma visible_parent:
  assumes ok: "vfs_ok st" and v: "visible (dentries st) (vfs_get_root_dentry st) a" and D: "dentries st a = Some D" "d_parent D = Some p"
  shows "visible (dentries st) (vfs_get_root_dentry st) p"
  using v
proof (cases rule: visible.cases)
  case root
  then show ?thesis using vfs_okD(3) [OF ok] D by auto
next
  case (child q Q c A)
  then show ?thesis using D by simp
qed

definition token_ok :: "cstring \<Rightarrow> bool" where
  "token_ok t \<longleftrightarrow> t \<noteq> [] \<and> slash \<notin> set t \<and> length t \<le> 254"

lemma walk_safe:
  assumes "vfs_ok st" and "memory_ok st" and "visible (dentries st) (vfs_get_root_dentry st) a" and "list_all token_ok ts"
  shows "safe_oc (walk ts (Some a) st) (reached st)"
  using assms
proof (induction ts arbitrary: a st)
  case Nil
  then show ?case by (simp add: reached_def)
next
  case (Cons t ts)
  note ok = Cons.prems(1) and mem = Cons.prems(2) and v = Cons.prems(3)
  have t: "token_ok t" "list_all token_ok ts" using Cons.prems(4) by simp_all
  obtain D where D: "dentries st a = Some D" using visible_alive [OF v vfs_okD(3) [OF ok]] by blast
  obtain b where b: "is_dir D st = Done b" "b \<Longrightarrow> is_dir_inode (inodes st) (d_inode D)"
    using visible_is_dir [OF ok D] by blast
  have step: "walk (t # ts) (Some a) st =
      (if \<not> b then Done (None, st)
       else if t = dot then walk ts (Some a) st
       else if t = dotdot then walk ts (if d_parent D \<noteq> None then d_parent D else Some a) st
       else bind_oc (find_child t (d_children D) st) (\<lambda>found.
         bind_oc (if found = None then cache_child a D t st else Done (found, st)) (\<lambda>(found, st).
           case found of
             None \<Rightarrow> Done (None, st)
           | Some c \<Rightarrow> bind_oc (cross_mount c st) (\<lambda>current. walk ts current st))))"
    using D b(1) by (simp add: deref_def get_d_def)
  show ?case
  proof (cases "\<not> b \<or> t = dot \<or> t = dotdot")
    case True
    moreover have "safe_oc (walk ts (Some p) st) (reached st)" if "d_parent D = Some p" for p
      using Cons.IH [OF ok mem visible_parent [OF ok v D that] t(2)] .
    moreover have "safe_oc (walk ts (Some a) st) (reached st)" by (rule Cons.IH [OF ok mem v t(2)])
    ultimately show ?thesis unfolding step using ok by (cases "d_parent D") (auto simp: reached_def)
  next
    case False
    then have dir: "is_dir_inode (inodes st) (d_inode D)" and nm: "name_ok t" and nd: "b" "t \<noteq> dot" "t \<noteq> dotdot"
      using b(2) t(1) by (auto simp: name_ok_def token_ok_def)
    obtain r where r: "find_child t (d_children D) st = Done r"
      "case r of None \<Rightarrow> t \<notin> child_name (dentries st) ` set (d_children D)
       | Some c \<Rightarrow> c \<in> set (d_children D) \<and> child_name (dentries st) c = t"
      using find_child_total [OF children_alive [OF vfs_okD(1) [OF ok D]]] by blast
    have found: "safe_oc (if r = None then cache_child a D t st else Done (r, st)) (child_found st a t)"
    proof (cases r)
      case None
      then show ?thesis using cache_child_safe [OF ok mem D dir nm] r(2) by simp
    next
      case (Some c)
      then show ?thesis using r(2) D ok by (auto simp: child_found_def)
    qed
    have "safe_oc (bind_oc (if r = None then cache_child a D t st else Done (r, st)) (\<lambda>(found, st).
           case found of
             None \<Rightarrow> Done (None, st)
           | Some c \<Rightarrow> bind_oc (cross_mount c st) (\<lambda>current. walk ts current st))) (reached st)"
    proof (rule safe_bind [OF found], clarify)
      fix f st1 assume f: "child_found st a t (f, st1)"
      then have s1: "vfs_ok st1" "grows st st1" by (auto simp: child_found_def)
      show "safe_oc (case f of None \<Rightarrow> Done (None, st1)
           | Some c \<Rightarrow> bind_oc (cross_mount c st1) (\<lambda>current. walk ts current st1)) (reached st)"
      proof (cases f)
        case None
        then show ?thesis using s1 by (simp add: reached_def)
      next
        case (Some c)
        then obtain P where P: "dentries st1 a = Some P" "c \<in> set (d_children P)" using f by (auto simp: child_found_def)
        have "visible (dentries st1) (vfs_get_root_dentry st1) a"
          using visible_dgrown [OF _ v, of "dentries st1"] s1(2) by (simp add: grows_def)
        then obtain a' where a': "cross_mount c st1 = Done (Some a')" "visible (dentries st1) (vfs_get_root_dentry st1) a'"
          using cross_mount_visible [OF s1(1) _ P] by blast
        have "safe_oc (walk ts (Some a') st1) (reached st1)"
          by (rule Cons.IH [OF s1(1) memory_ok_grows [OF s1(2) mem] a'(2) t(2)])
        then show ?thesis using Some a'(1) by (auto intro: safe_mono reached_grows [OF s1(2)])
      qed
    qed
    then show ?thesis unfolding step using nd r(1) by simp
  qed
qed

text \<open>The components of a path, which the calls of \<open>strtok\<close> deliver.\<close>
definition components :: "cstring \<Rightarrow> cstring list" where
  "components path = tokens {slash} (path_copy path)"

lemma tokens_ok: "t \<in> set (tokens D s) \<Longrightarrow> t \<noteq> [] \<and> set t \<inter> D = {}"
proof (induction D s rule: tokens.induct)
  case (1 D s)
  let ?w = "dropWhile (\<lambda>c. c \<in> D) s"
  show ?case
  proof (cases "?w = []")
    case True
    then show ?thesis using 1 by (simp add: tokens.simps)
  next
    case False
    then have "hd ?w \<notin> D" using hd_dropWhile by blast
    moreover have "tokens D s = takeWhile (\<lambda>c. c \<notin> D) ?w # tokens D (tl (dropWhile (\<lambda>c. c \<notin> D) ?w))"
      using False by (subst tokens.simps) simp
    ultimately show ?thesis using 1 False by (cases ?w) (auto dest: set_takeWhileD)
  qed
qed

definition short_path :: "cstring \<Rightarrow> bool" where
  "short_path path \<longleftrightarrow> (\<forall>t \<in> set (components path). length t \<le> 254)"

lemma components_ok: "short_path path \<Longrightarrow> list_all token_ok (components path)"
  using tokens_ok by (force simp: short_path_def components_def list_all_iff token_ok_def)

lemma cwd_or_root_visible:
  assumes "vfs_ok st"
  shows "\<exists>a. cwd_or_root st = Some a \<and> visible (dentries st) (vfs_get_root_dentry st) a"
proof -
  obtain r where "vfs_get_root_dentry st = Some r" using vfs_okD(3) [OF assms] by blast
  then show ?thesis using vfs_okD(4) [OF assms]
    by (auto simp: cwd_or_root_def visible.root split: option.splits)
qed

lemma vfs_get_dentry_safe:
  assumes ok: "vfs_ok st" and mem: "memory_ok st" and p: "short_path path"
  shows "safe_oc (vfs_get_dentry (Some path) st) (reached st)"
proof -
  obtain r where r: "vfs_get_root_dentry st = Some r" using vfs_okD(3) [OF ok] by blast
  then have vr: "visible (dentries st) (vfs_get_root_dentry st) r" by (simp add: visible.root)
  obtain a where a: "cwd_or_root st = Some a" "visible (dentries st) (vfs_get_root_dentry st) a"
    using cwd_or_root_visible [OF ok] by blast
  have "safe_oc (walk (components path) (Some b) st) (reached st)" if "visible (dentries st) (vfs_get_root_dentry st) b" for b
    by (rule walk_safe [OF ok mem that components_ok [OF p]])
  then show ?thesis using r vr a ok by (auto simp: vfs_get_dentry_def components_def reached_def)
qed

section \<open>Making directories\<close>

lemma tokens_dropWhile: "tokens D (dropWhile (\<lambda>c. c \<in> D) s) = tokens D s"
  by (subst (1 2) tokens.simps) simp

lemma tokens_Nil [simp]: "tokens D [] = []"
  by (simp add: tokens.simps)

lemma takeWhile_stop: "\<not> Q d \<Longrightarrow> takeWhile Q (w @ d # r) = takeWhile Q w"
  by (induction w) auto

lemma dropWhile_stop: "\<not> Q d \<Longrightarrow> dropWhile Q (w @ d # r) = dropWhile Q w @ d # r"
  by (induction w) auto

lemma tokens_append:
  assumes "d \<in> D"
  shows "tokens D (s @ d # r) = tokens D s @ tokens D r"
  using assms
proof (induction D s rule: tokens.induct)
  case (1 D s)
  let ?P = "\<lambda>c. c \<in> D" and ?Q = "\<lambda>c. c \<notin> D"
  let ?w = "dropWhile ?P s"
  have d: "tokens D (d # t) = tokens D t" for t
    using tokens_dropWhile [of D "d # t"] tokens_dropWhile [of D t] 1(2) by simp
  show ?case
  proof (cases "?w = []")
    case True
    then have "dropWhile ?P (s @ d # r) = dropWhile ?P (d # r)" by (simp add: dropWhile_append)
    then have "tokens D (s @ d # r) = tokens D (d # r)" by (metis tokens_dropWhile)
    then show ?thesis using d True by (simp add: tokens.simps [of D s])
  next
    case False
    let ?v = "dropWhile ?Q ?w"
    have sw: "dropWhile ?P (s @ d # r) = ?w @ d # r"
      using False by (auto simp: dropWhile_append dropWhile_eq_Nil_conv)
    have L: "tokens D (s @ d # r) =
        takeWhile ?Q (?w @ d # r) # tokens D (tl (dropWhile ?Q (?w @ d # r)))"
      using False by (subst tokens.simps) (simp add: sw)
    have R: "tokens D s = takeWhile ?Q ?w # tokens D (tl ?v)"
      using False by (subst tokens.simps) simp
    have t: "takeWhile ?Q (?w @ d # r) = takeWhile ?Q ?w" "dropWhile ?Q (?w @ d # r) = ?v @ d # r"
      by (rule takeWhile_stop, use 1(2) in simp) (rule dropWhile_stop, use 1(2) in simp)
    show ?thesis
    proof (cases ?v)
      case Nil
      then show ?thesis unfolding L R t by (simp only: list.sel append.simps tokens_Nil)
    next
      case (Cons x xs)
      then show ?thesis unfolding L R t using 1(1) [OF False 1(2)] by (simp only: list.sel append.simps)
    qed
  qed
qed

lemma tokens_single:
  assumes "s \<noteq> []" and "set s \<inter> D = {}"
  shows "tokens D s = [s]"
proof -
  have "dropWhile (\<lambda>c. c \<in> D) s = s" "takeWhile (\<lambda>c. c \<notin> D) s = s" "dropWhile (\<lambda>c. c \<notin> D) s = []"
    using assms by (cases s; auto simp: takeWhile_eq_all_conv)+
  then show ?thesis using assms(1) by (subst tokens.simps) (simp only: if_False list.sel tokens_Nil)
qed

lemma rfind_slash_Some: "n \<le> length p \<Longrightarrow> rfind_slash p n = Some i \<Longrightarrow> i < n \<and> p ! i = slash \<and> (\<forall>j. i < j \<and> j < n \<longrightarrow> p ! j \<noteq> slash)"
  by (induction n) (auto split: if_splits simp: less_Suc_eq)

lemma rfind_slash_None: "n \<le> length p \<Longrightarrow> rfind_slash p n = None \<Longrightarrow> \<forall>j < n. p ! j \<noteq> slash"
  by (induction n) (auto split: if_splits simp: less_Suc_eq)

text \<open>The last name of a path.\<close>
definition base_name :: "cstring \<Rightarrow> cstring" where
  "base_name p = (case rfind_slash p (length p) of Some i \<Rightarrow> drop (Suc i) p | None \<Rightarrow> p)"

lemma base_name_slash: "slash \<notin> set (base_name p)"
proof (cases "rfind_slash p (length p)")
  case None
  then show ?thesis using rfind_slash_None [of "length p" p] by (auto simp: base_name_def in_set_conv_nth)
next
  case (Some i)
  have "slash \<notin> set (drop (Suc i) p)"
  proof
    assume "slash \<in> set (drop (Suc i) p)"
    then obtain k where k: "k < length (drop (Suc i) p)" "drop (Suc i) p ! k = slash" by (meson in_set_conv_nth)
    then have "p ! (Suc i + k) = slash" "Suc i + k < length p" by auto
    then show False using rfind_slash_Some [OF order.refl Some] by auto
  qed
  then show ?thesis using Some by (simp add: base_name_def)
qed

lemma rfind_slash_split: "rfind_slash p (length p) = Some i \<Longrightarrow> p = take i p @ slash # drop (Suc i) p"
  using rfind_slash_Some [of "length p" p i] id_take_nth_drop by fastforce

text \<open>The directory part of a short path is short, and so is its last name.\<close>
lemma short_path_prefix:
  assumes "short_path path" and i: "rfind_slash (path_copy path) (length (path_copy path)) = Some i"
  shows "short_path (take i (path_copy path))"
proof -
  let ?p = "path_copy path"
  have "components path = tokens {slash} (take i ?p) @ tokens {slash} (drop (Suc i) ?p)"
    unfolding components_def by (subst rfind_slash_split [OF i]) (simp add: tokens_append)
  moreover have "path_copy (take i ?p) = take i ?p" by (simp add: path_copy_def min_def)
  ultimately show ?thesis using assms(1) by (simp add: short_path_def components_def)
qed

lemma short_path_base:
  assumes "short_path path" and "base_name (path_copy path) \<noteq> []"
  shows "length (base_name (path_copy path)) \<le> 254"
proof -
  let ?p = "path_copy path"
  have one: "tokens {slash} (base_name ?p) = [base_name ?p]"
    using assms(2) base_name_slash by (intro tokens_single) auto
  show ?thesis
  proof (cases "rfind_slash ?p (length ?p)")
    case None
    then show ?thesis using one assms(1) by (simp add: base_name_def short_path_def components_def)
  next
    case (Some i)
    have "components path = tokens {slash} (take i ?p) @ tokens {slash} (drop (Suc i) ?p)"
      unfolding components_def by (subst rfind_slash_split [OF Some]) (simp add: tokens_append)
    then show ?thesis using one Some assms(1) by (simp add: base_name_def short_path_def)
  qed
qed

lemma tree_ok_update_inode:
  assumes ok: "tree_ok ds im root cwd n" and i: "im i = Some I0" "is_directory I0 \<noteq> 0" "is_directory I \<noteq> 0"
    and new: "inode_ok ds im I"
  shows "tree_ok ds (im(i \<mapsto> I)) root cwd n"
proof (rule tree_okI)
  let ?im = "im(i \<mapsto> I)"
  have dir: "is_dir_inode ?im x" if "is_dir_inode im x" for x
    using that i by (auto simp: is_dir_inode_def)
  show "dentry_ok ds ?im a D \<and> a < n" if "ds a = Some D" for a D
    using tree_okD(1,2) [OF ok that] dir unfolding dentry_ok_def by auto
  have keep: "inode_ok ds ?im J" if "inode_ok ds im J" for J
    using that dir unfolding inode_ok_def by blast
  show "inode_ok ds ?im J \<and> j < n" if "?im j = Some J" for j J
    using that keep new tree_okD(3,4) [OF ok, of j J] tree_okD(4) [OF ok i(1)] by (cases "j = i") auto
  show "\<exists>r R. root = Some r \<and> ds r = Some R \<and> d_parent R = None" by (rule tree_okD(5) [OF ok])
  show "visible ds root c" if "cwd = Some (Some c)" for c by (rule tree_okD(6) [OF ok that])
qed

text \<open>A directory was made in memory below the dentry \<open>p\<close>.\<close>
definition made_dir :: "vfs \<Rightarrow> nat \<Rightarrow> cstring \<Rightarrow> vfs \<Rightarrow> bool" where
  "made_dir st p nm st' \<longleftrightarrow> (\<exists>P c C i I. dentries st' p = Some P \<and> c \<in> set (d_children P) \<and> dentries st' c = Some C \<and>
     dn_name C = nm \<and> d_parent C = Some p \<and> mounted_here C = None \<and> d_inode C = Some i \<and> inodes st' i = Some I \<and>
     is_directory I = 1 \<and> i_type I = FT_DIR \<and> i_private I = PDentry c)"

lemma mkdir_link_ok:
  assumes ok: "vfs_ok st" and P: "dentries st p = Some P" "is_dir_inode (inodes st) (d_inode P)"
    and nm: "name_ok nm" "nm \<notin> child_name (dentries st) ` set (d_children P)"
    and c: "dentries st c = None" "c < next_id st" and i: "inodes st i = None" "i < next_id st"
  defines "I \<equiv> zero_inode\<lparr>is_directory := 1, i_type := FT_DIR, i_ops := Some Vfs_dir_iops,
                 f_ops := None, i_private := PDentry c, i_mode := 5\<rparr>"
  shows "\<exists>st'. add_child p c (zero_dentry\<lparr>dn_name := copy_name nm, d_parent := Some p, d_inode := Some i\<rparr>) (set_i i I st) = Done st' \<and>
    vfs_ok st' \<and> grows st st' \<and> made_dir st p nm st'"
proof -
  let ?C = "zero_dentry\<lparr>dn_name := copy_name nm, d_parent := Some p, d_inode := Some i\<rparr>"
  let ?J = "zero_inode\<lparr>is_directory := 1\<rparr>" and ?ds = "link p P c ?C (dentries st)" and ?im = "inodes st"
  let ?st = "st\<lparr>dentries := ?ds, inodes := (inodes st)(i \<mapsto> I)\<rparr>"
  have cp: "c \<noteq> p" using P c by auto
  have nm': "copy_name nm = nm" using nm(1) by (intro copy_name_id) (simp add: name_ok_def)
  have le: "?im \<subseteq>\<^sub>m ?im(i \<mapsto> J)" for J using i(1) by (auto simp: map_le_def)
  have "tree_ok (dentries st) (?im(i \<mapsto> ?J)) (vfs_get_root_dentry st) (task_cwd st) (next_id st)"
    using ok i unfolding vfs_ok_def by (intro tree_ok_add_inode) (auto simp: inode_ok_def zero_inode_def)
  then have "tree_ok ?ds (?im(i \<mapsto> ?J)) (vfs_get_root_dentry st) (task_cwd st) (next_id st)"
    using P c nm is_dir_inode_mono [OF P(2) le] by (intro tree_ok_link) (auto simp: zero_dentry_def nm')
  then have "tree_ok ?ds (?im(i \<mapsto> ?J, i \<mapsto> I)) (vfs_get_root_dentry st) (task_cwd st) (next_id st)"
    by (rule tree_ok_update_inode) (auto simp: I_def inode_ok_def link_def cp is_dir_inode_def)
  then have "vfs_ok ?st" by (simp add: vfs_ok_def vfs_get_root_dentry_def)
  moreover have "grows st ?st"
    using link_dgrown [OF P(1) c(1)] le by (simp add: zero_dentry_def grows_def vfs_get_root_dentry_def)
  moreover have "made_dir st p nm ?st"
    using cp by (auto simp: made_dir_def link_def zero_dentry_def nm' I_def)
  moreover have "add_child p c ?C (set_i i I st) = Done ?st"
    using cp P(1) by (simp add: add_child_def set_d_def set_i_def get_d_def link_def)
  ultimately show ?thesis by blast
qed

lemma vfs_mkdir_at_safe:
  assumes ok: "vfs_ok st" and p: "inodes st p = Some I" "i_ops I \<noteq> Some Fat32_inode_ops" and nm: "name_ok nm"
  shows "safe_oc (vfs_mkdir_at (Some p) nm st) (\<lambda>(r, st'). vfs_ok st' \<and> grows st st' \<and>
    (r = 0 \<longrightarrow> (\<exists>pd. i_private I = PDentry pd \<and> made_dir st pd nm st')))"
proof (cases "is_directory I = 0 \<or> i_private I = PNull")
  case True
  then show ?thesis using p ok by (auto simp: vfs_mkdir_at_def get_i_def)
next
  case False
  then obtain pd where pd: "is_directory I \<noteq> 0" "i_private I = PDentry pd"
    using vfs_okD(2) [OF ok p(1)] p(2) by (auto simp: inode_ok_def)
  then obtain P where P: "dentries st pd = Some P" "is_dir_inode (inodes st) (d_inode P)"
    using vfs_okD(2) [OF ok p(1)] by (auto simp: inode_ok_def)
  obtain r where r: "find_child nm (d_children P) st = Done r"
    "case r of None \<Rightarrow> nm \<notin> child_name (dentries st) ` set (d_children P) | Some c \<Rightarrow> True"
    using find_child_total [OF children_alive [OF vfs_okD(1) [OF ok P(1)]]] by (fastforce split: option.splits)
  let ?mk = "\<lambda>c i st. add_child pd c (zero_dentry\<lparr>dn_name := copy_name nm, d_parent := Some pd, d_inode := Some i\<rparr>)
      (set_i i (zero_inode\<lparr>is_directory := 1, i_type := FT_DIR, i_ops := Some Vfs_dir_iops,
         f_ops := None, i_private := PDentry c, i_mode := 5\<rparr>) st)"
  have run: "vfs_mkdir_at (Some p) nm st =
      (if r \<noteq> None then Done (-1, st)
       else bind_oc (new_page st) (\<lambda>(c, st). bind_oc (new_page st) (\<lambda>(i, st). bind_oc (?mk c i st) (\<lambda>st. Done (0, st)))))"
    using p pd P(1) r(1) by (simp add: vfs_mkdir_at_def get_i_def get_d_def)
  let ?Q = "\<lambda>(rc, st'). vfs_ok st' \<and> grows st st' \<and> (rc = 0 \<longrightarrow> (\<exists>pd. i_private I = PDentry pd \<and> made_dir st pd nm st'))"
  have "safe_oc (bind_oc (new_page st) (\<lambda>(c, st). bind_oc (new_page st) (\<lambda>(i, st). bind_oc (?mk c i st) (\<lambda>st. Done (0, st))))) ?Q"
    if r: "r = None"
  proof (rule safe_bind [OF new_page_ok [OF ok]], clarify)
    fix c st1
    assume s1: "vfs_ok st1" "grows st st1" "dentries st1 = dentries st" "inodes st1 = inodes st" "dentries st1 c = None" "c < next_id st1"
    show "safe_oc (bind_oc (new_page st1) (\<lambda>(i, st). bind_oc (?mk c i st) (\<lambda>st. Done (0, st)))) ?Q"
    proof (cases "page_ok st1 (next_id st1)")
      case False
      then show ?thesis by (simp add: new_page_def)
    next
      case True
      let ?st2 = "st1\<lparr>next_id := next_id st1 + 1\<rparr>"
      have np: "new_page st1 = Done (next_id st1, ?st2)" using True by (simp add: new_page_def)
      have s2: "vfs_ok ?st2" "grows st1 ?st2" "inodes ?st2 (next_id st1) = None"
        using safe_Done [OF new_page_ok [OF s1(1)] np] by auto
      have "nm \<notin> child_name (dentries ?st2) ` set (d_children P)" using \<open>r = None\<close> r s1(3) \<open>case r of None \<Rightarrow> _ | Some c \<Rightarrow> True\<close> by simp
      then obtain st3 where st3: "?mk c (next_id st1) ?st2 = Done st3" "vfs_ok st3" "grows ?st2 st3" "made_dir ?st2 pd nm st3"
        using mkdir_link_ok [OF s2(1), of pd P nm c "next_id st1"] P nm s1 s2(3) by auto
      have "grows st st3" using s1(2) s2(2) st3(3) by (blast intro: grows_trans)
      moreover have "made_dir st pd nm st3" using st3(4) by (simp add: made_dir_def)
      ultimately show ?thesis using np st3(1,2) pd(2) by auto
    qed
  qed
  then show ?thesis unfolding run using ok by auto
qed

text \<open>The path leads to a parent that is alive, and a name that can be made there.\<close>
definition makes_path :: "cstring \<Rightarrow> bool" where
  "makes_path path \<longleftrightarrow> path \<noteq> [] \<and> short_path path \<and> base_name (path_copy path) \<notin> {dot, dotdot}"

lemma base_name_ok:
  assumes "makes_path path" and "\<not> trailing_slash (path_copy path)"
  shows "name_ok (base_name (path_copy path))"
proof -
  let ?p = "path_copy path"
  have "?p \<noteq> []" using assms(1) by (simp add: makes_path_def path_copy_def PATH_MAX_def)
  then have "base_name ?p \<noteq> []"
    using assms(2) by (auto simp: base_name_def trailing_slash_def split: option.splits)
  then show ?thesis
    using assms(1) short_path_base base_name_slash by (auto simp: makes_path_def name_ok_def)
qed

lemma parent_and_name_safe:
  assumes ok: "vfs_ok st" and mem: "memory_ok st" and p: "short_path path"
  shows "safe_oc (parent_and_name (path_copy path) st)
    (\<lambda>(pd, nm, st'). reached st (pd, st') \<and> nm = base_name (path_copy path))"
proof (cases "rfind_slash (path_copy path) (length (path_copy path))")
  case None
  then show ?thesis using cwd_or_root_visible [OF ok] ok by (auto simp: parent_and_name_def reached_def base_name_def)
next
  case (Some i)
  from vfs_get_dentry_safe [OF ok mem short_path_prefix [OF p Some]]
  have "safe_oc (bind_oc (vfs_get_dentry (Some (take i (path_copy path))) st) (\<lambda>(d, st). Done (d, base_name (path_copy path), st)))
    (\<lambda>(pd, nm, st'). reached st (pd, st') \<and> nm = base_name (path_copy path))"
    by (rule safe_bind) auto
  then show ?thesis using Some ok by (auto simp: parent_and_name_def base_name_def reached_def visible.root Let_def)
qed

lemma vfs_mkdir_safe:
  assumes ok: "vfs_ok st" and mem: "memory_ok st" and p: "makes_path path"
  shows "safe_oc (vfs_mkdir (Some path) st) (\<lambda>(r, st'). vfs_ok st' \<and> grows st st')"
proof (cases "trailing_slash (path_copy path)")
  case True
  then show ?thesis using ok by (simp add: vfs_mkdir_def)
next
  case False
  note nm = base_name_ok [OF p False]
  have sp: "short_path path" using p by (simp add: makes_path_def)
  let ?nm = "base_name (path_copy path)"
  have "safe_oc (bind_oc (parent_and_name (path_copy path) st) (\<lambda>(parent_dentry, dir_name, st).
          bind_oc (parent_inode parent_dentry st) (\<lambda>p.
            case p of
              None \<Rightarrow> Done (-1, st)
            | Some p \<Rightarrow> bind_oc (get_i p st) (\<lambda>i.
                if i_ops i = Some Fat32_inode_ops
                then (case fat32_vfs_mkdir (volume st) (Some i) dir_name of
                        None \<Rightarrow> Halts
                      | Some (fs, r) \<Rightarrow> Done (r, st\<lparr>volume := fs\<rparr>))
                else vfs_mkdir_at (Some p) dir_name st)))) (\<lambda>(r, st'). vfs_ok st' \<and> grows st st')"
  proof (rule safe_bind [OF parent_and_name_safe [OF ok mem sp]], clarify)
    fix pd nm' st1 assume r: "reached st (pd, st1)"
    then have s1: "vfs_ok st1" "grows st st1" by (auto simp: reached_def)
    show "safe_oc (bind_oc (parent_inode pd st1) (\<lambda>p.
            case p of
              None \<Rightarrow> Done (-1, st1)
            | Some p \<Rightarrow> bind_oc (get_i p st1) (\<lambda>i.
                if i_ops i = Some Fat32_inode_ops
                then (case fat32_vfs_mkdir (volume st1) (Some i) ?nm of
                        None \<Rightarrow> Halts
                      | Some (fs, r) \<Rightarrow> Done (r, st1\<lparr>volume := fs\<rparr>))
                else vfs_mkdir_at (Some p) ?nm st1))) (\<lambda>(r, st'). vfs_ok st' \<and> grows st st')"
    proof (cases pd)
      case None
      then show ?thesis using s1 by (simp add: parent_inode_def)
    next
      case (Some a)
      then have "visible (dentries st1) (vfs_get_root_dentry st1) a" using r by (simp add: reached_def)
      then obtain D where D: "dentries st1 a = Some D" using visible_alive vfs_okD(3) [OF s1(1)] by blast
      then obtain i I where I: "d_inode D = Some i" "inodes st1 i = Some I"
        using vfs_okD(1) [OF s1(1) D] by (auto simp: dentry_ok_def)
      have "safe_oc (vfs_mkdir_at (Some i) ?nm st1) (\<lambda>(r, st'). vfs_ok st' \<and> grows st st')" if "i_ops I \<noteq> Some Fat32_inode_ops"
        by (rule safe_mono [OF vfs_mkdir_at_safe [OF s1(1) I(2) that nm]]) (use s1(2) in \<open>auto intro: grows_trans\<close>)
      moreover have "grows st (st1\<lparr>volume := fs\<rparr>)" for fs by (rule grows_trans [OF s1(2) grows_volume])
      ultimately show ?thesis
        using Some D I s1(1) by (auto simp: parent_inode_def get_d_def get_i_def split: option.split prod.split)
    qed
  qed
  then show ?thesis using False by (simp add: vfs_mkdir_def)
qed

text \<open>A creation that returns leaves the tree as its lookup of the parent left it.\<close>
lemma vfs_create_keeps:
  assumes ok: "vfs_ok st" and mem: "memory_ok st" and p: "short_path path"
    and run: "vfs_create (Some path) mode st = Done (r, st')"
  shows "vfs_ok st' \<and> grows st st'"
proof -
  obtain pd nm st1 where pn: "parent_and_name (path_copy path) st = Done (pd, nm, st1)"
    using run by (cases "parent_and_name (path_copy path) st") (auto simp: vfs_create_def)
  then have "reached st (pd, st1)" using parent_and_name_safe [OF ok mem p] by simp
  then have s1: "vfs_ok st1" "grows st st1" by (auto simp: reached_def)
  obtain p where p: "parent_inode pd st1 = Done p"
    using run pn by (auto simp: vfs_create_def bind_oc_eq_Done)
  have "st' = st1 \<or> (\<exists>fs. st' = st1\<lparr>volume := fs\<rparr>)"
  proof (cases p)
    case None
    then show ?thesis using run pn p by (simp add: vfs_create_def)
  next
    case (Some y)
    then obtain I where I: "get_i y st1 = Done I" using run pn p by (auto simp: vfs_create_def bind_oc_eq_Done)
    then obtain ops where ops: "i_ops I = Some ops"
      using run pn p Some by (auto simp: vfs_create_def split: option.split_asm)
    then show ?thesis
      using run pn p Some I by (cases ops) (auto simp: vfs_create_def split: option.split_asm)
  qed
  then show ?thesis using s1 grows_trans [OF s1(2) grows_volume] by auto
qed

lemma vfs_chdir_safe:
  assumes ok: "vfs_ok st" and mem: "memory_ok st" and p: "short_path path"
  shows "safe_oc (vfs_chdir (Some path) st) (\<lambda>(r, st'). vfs_ok st' \<and> grows st (st'\<lparr>task_cwd := task_cwd st\<rparr>) \<and>
    (r = 0 \<longrightarrow> (\<exists>a D i. task_cwd st' = Some (Some a) \<and> dentries st' a = Some D \<and> is_dir_inode (inodes st') (d_inode D))))"
proof (cases "task_cwd st")
  case None
  moreover have "grows st (st\<lparr>task_cwd := None\<rparr>)" using None by (simp add: grows_def vfs_get_root_dentry_def)
  ultimately show ?thesis using ok by (simp add: vfs_chdir_def)
next
  case (Some c)
  have "safe_oc (bind_oc (vfs_get_dentry (Some path) st) (\<lambda>(d, st).
        case d of
          None \<Rightarrow> Done (-1 :: int, st)
        | Some a \<Rightarrow> bind_oc (get_d a st) (\<lambda>d. bind_oc (deref (d_inode d)) (\<lambda>i. bind_oc (get_i i st) (\<lambda>i.
            if is_directory i = 0 then Done (-1, st) else Done (0, st\<lparr>task_cwd := Some (Some a)\<rparr>))))))
    (\<lambda>(r, st'). vfs_ok st' \<and> grows st (st'\<lparr>task_cwd := task_cwd st\<rparr>) \<and>
      (r = 0 \<longrightarrow> (\<exists>a D i. task_cwd st' = Some (Some a) \<and> dentries st' a = Some D \<and> is_dir_inode (inodes st') (d_inode D))))"
  proof (rule safe_bind [OF vfs_get_dentry_safe [OF ok mem p]], clarify)
    fix d st1 assume r: "reached st (d, st1)"
    then have s1: "vfs_ok st1" "grows st st1" by (simp_all add: reached_def)
    then have cw: "st1\<lparr>task_cwd := task_cwd st\<rparr> = st1" by (simp add: grows_def)
    show "safe_oc (case d of
          None \<Rightarrow> Done (-1 :: int, st1)
        | Some a \<Rightarrow> bind_oc (get_d a st1) (\<lambda>d. bind_oc (deref (d_inode d)) (\<lambda>i. bind_oc (get_i i st1) (\<lambda>i.
            if is_directory i = 0 then Done (-1, st1) else Done (0, st1\<lparr>task_cwd := Some (Some a)\<rparr>)))))
      (\<lambda>(r, st'). vfs_ok st' \<and> grows st (st'\<lparr>task_cwd := task_cwd st\<rparr>) \<and>
        (r = 0 \<longrightarrow> (\<exists>a D i. task_cwd st' = Some (Some a) \<and> dentries st' a = Some D \<and> is_dir_inode (inodes st') (d_inode D))))"
    proof (cases d)
      case None
      then show ?thesis using s1 cw by simp
    next
      case (Some a)
      then have v: "visible (dentries st1) (vfs_get_root_dentry st1) a" using r by (simp add: reached_def)
      then obtain D where D: "dentries st1 a = Some D" using visible_alive vfs_okD(3) [OF s1(1)] by blast
      then obtain i I where I: "d_inode D = Some i" "inodes st1 i = Some I"
        using vfs_okD(1) [OF s1(1) D] by (auto simp: dentry_ok_def)
      have "vfs_ok (st1\<lparr>task_cwd := Some (Some a)\<rparr>)"
        using s1 v by (simp add: vfs_ok_def vfs_get_root_dentry_def tree_ok_def)
      then show ?thesis using Some D I s1 cw by (auto simp: get_d_def get_i_def deref_def is_dir_inode_def)
    qed
  qed
  then show ?thesis using Some by (simp add: vfs_chdir_def)
qed

section \<open>The working directory\<close>

text \<open>The path of a list of names.\<close>
definition join_path :: "cstring list \<Rightarrow> cstring" where
  "join_path ns = concat (map (\<lambda>n. slash # n) ns)"

definition path_string :: "cstring list \<Rightarrow> cstring" where
  "path_string ns = (if ns = [] then [slash] else join_path ns)"

lemma tokens_join_path: "list_all name_ok ns \<Longrightarrow> tokens {slash} (join_path ns) = ns"
proof (induction ns rule: rev_induct)
  case Nil
  then show ?case by (simp add: join_path_def)
next
  case (snoc n ns)
  have "tokens {slash} (join_path (ns @ [n])) = tokens {slash} (join_path ns) @ tokens {slash} n"
    by (simp add: join_path_def tokens_append)
  also have "tokens {slash} n = [n]" using snoc.prems by (intro tokens_single) (auto simp: name_ok_def)
  finally show ?case using snoc by simp
qed

text \<open>The only child with a name is found.\<close>
lemma find_child_unique:
  assumes "\<forall>c \<in> set cs. dentries st c \<noteq> None" and "distinct (map (child_name (dentries st)) cs)" and "c \<in> set cs"
  shows "find_child (child_name (dentries st) c) cs st = Done (Some c)"
  using assms
proof (induction cs)
  case Nil
  then show ?case by simp
next
  case (Cons x cs)
  obtain X where X: "dentries st x = Some X" using Cons.prems(1) by auto
  then have nx: "child_name (dentries st) x = dn_name X" by (simp add: child_name_def)
  show ?case
  proof (cases "c = x")
    case True
    then show ?thesis using X nx by (simp add: get_d_def)
  next
    case False
    then have "c \<in> set cs" using Cons.prems(3) by simp
    then have "child_name (dentries st) c \<in> child_name (dentries st) ` set cs" by blast
    then have "child_name (dentries st) c \<noteq> child_name (dentries st) x" using Cons.prems(2) by (metis distinct.simps(2) list.set_map list.simps(9))
    then show ?thesis using Cons.IH Cons.prems X nx \<open>c \<in> set cs\<close> by (simp add: get_d_def)
  qed
qed

text \<open>A step of the walk onto a cached child.\<close>
lemma walk_cached:
  assumes ok: "vfs_ok st" and p: "dentries st p = Some P" "c \<in> set (d_children P)" "lands (dentries st) c a"
  shows "walk (child_name (dentries st) c # ts) (Some p) st = walk ts (Some a) st" and "name_ok (child_name (dentries st) c)"
proof -
  note Pok = vfs_okD(1) [OF ok p(1)]
  obtain C where C: "dentries st c = Some C" "name_ok (dn_name C)" using Pok p(2) by (auto simp: dentry_ok_def)
  show nm: "name_ok (child_name (dentries st) c)" using C by (simp add: child_name_def)
  have "is_dir_inode (inodes st) (d_inode P)" using Pok p(2) by (auto simp: dentry_ok_def)
  then have d: "is_dir P st = Done True" by (auto simp: is_dir_inode_def is_dir_def get_i_def)
  have f: "find_child (child_name (dentries st) c) (d_children P) st = Done (Some c)"
    using children_alive [OF Pok] Pok p(2) by (intro find_child_unique) (auto simp: dentry_ok_def)
  have m: "cross_mount c st = Done (Some a)"
    using p(3) C(1) by (auto simp: lands_def cross_mount_def get_d_def split: option.splits)
  show "walk (child_name (dentries st) c # ts) (Some p) st = walk ts (Some a) st"
    using p(1) d f m nm by (simp add: deref_def get_d_def name_ok_def)
qed

text \<open>The names from the root down to a visible dentry: going up collects them, going down follows them.\<close>
lemma visible_path:
  assumes ok: "vfs_ok st" and v: "visible (dentries st) (vfs_get_root_dentry st) a"
  shows "\<exists>ns. list_all name_ok ns \<and> (\<forall>ts. walk (ns @ ts) (vfs_get_root_dentry st) st = walk ts (Some a) st) \<and>
    (\<forall>acc. length acc \<le> 4095 \<longrightarrow> getcwd_loop st (Some a) acc =
       Done (if length (join_path ns @ acc) \<le> 4095 then Some (join_path ns @ acc) else None))"
  using v
proof induction
  case (root r)
  then have "\<exists>R. dentries st r = Some R \<and> d_parent R = None" using vfs_okD(3) [OF ok] by auto
  then have "getcwd_loop st (Some r) acc = Done (Some acc)" for acc
    by (subst getcwd_loop.simps) (auto simp: get_d_def)
  then show ?case using root by (intro exI [of _ "[]"]) (simp add: join_path_def)
next
  case (child p P c a A)
  then obtain ns where ns: "list_all name_ok ns" "\<forall>ts. walk (ns @ ts) (vfs_get_root_dentry st) st = walk ts (Some p) st"
    "\<forall>acc. length acc \<le> 4095 \<longrightarrow> getcwd_loop st (Some p) acc =
       Done (if length (join_path ns @ acc) \<le> 4095 then Some (join_path ns @ acc) else None)" by blast
  let ?n = "dn_name A"
  have n: "?n = child_name (dentries st) c" by (rule child.hyps(7))
  have up: "getcwd_loop st (Some a) acc =
      Done (if length (join_path (ns @ [?n]) @ acc) \<le> 4095 then Some (join_path (ns @ [?n]) @ acc) else None)" if acc: "length acc \<le> 4095" for acc
  proof -
    have "getcwd_loop st (Some a) acc =
        (if int PATH_MAX - 1 - int (length acc) - int (length ?n) < 1 then Done None else getcwd_loop st (Some p) (slash # ?n @ acc))"
      using child.hyps(5,6) by (subst getcwd_loop.simps) (simp add: get_d_def)
    moreover have "join_path (ns @ [?n]) @ acc = join_path ns @ slash # ?n @ acc" by (simp add: join_path_def)
    ultimately show ?thesis using ns(3) by (auto simp: PATH_MAX_def)
  qed
  have down: "walk ((ns @ [?n]) @ ts) (vfs_get_root_dentry st) st = walk ts (Some a) st" for ts
    using ns(2) walk_cached(1) [OF ok child.hyps(2-4)] n by simp
  have "list_all name_ok (ns @ [?n])" using ns(1) walk_cached(2) [OF ok child.hyps(2-4)] n by simp
  then show ?case using up down by blast
qed

text \<open>\<open>getcwd\<close> in a good state, and the path it gives.\<close>
lemma getcwd_path:
  assumes ok: "vfs_ok st" and cwd: "task_cwd st = Some (Some a)"
  shows "\<exists>ns. list_all name_ok ns \<and>
    (\<forall>len. vfs_getcwd False len st =
       Done (if len \<noteq> 0 \<and> length (path_string ns) \<le> 4095 \<and> length (path_string ns) < unat len then (0, path_string ns @ [0]) else (-1, []))) \<and>
    (length (path_string ns) \<le> 4095 \<longrightarrow> vfs_get_dentry (Some (path_string ns)) st = Done (Some a, st))"
proof -
  obtain ns where ns: "list_all name_ok ns" "\<forall>ts. walk (ns @ ts) (vfs_get_root_dentry st) st = walk ts (Some a) st"
    "\<forall>acc. length acc \<le> 4095 \<longrightarrow> getcwd_loop st (Some a) acc =
       Done (if length (join_path ns @ acc) \<le> 4095 then Some (join_path ns @ acc) else None)"
    using visible_path [OF ok vfs_okD(4) [OF ok cwd]] by blast
  have loop: "getcwd_loop st (Some a) [] = Done (if length (join_path ns) \<le> 4095 then Some (join_path ns) else None)"
    using ns(3) by simp
  have ps: "(if join_path ns = [] then [slash] else join_path ns) = path_string ns"
    by (cases ns) (simp_all add: path_string_def join_path_def)
  have pl: "length (join_path ns) \<le> 4095 \<longleftrightarrow> length (path_string ns) \<le> 4095" by (simp add: path_string_def join_path_def)
  have lt: "len < of_nat (length (path_string ns) + 1) \<longleftrightarrow> \<not> length (path_string ns) < unat len"
    if "length (path_string ns) \<le> 4095" for len :: u64
  proof -
    have "unat (of_nat (length (path_string ns) + 1) :: u64) = length (path_string ns) + 1"
      using that by (subst unat_of_nat) simp
    then show ?thesis by (simp only: word_less_nat_alt) linarith
  qed
  have cwdr: "vfs_getcwd False len st =
      Done (if len \<noteq> 0 \<and> length (path_string ns) \<le> 4095 \<and> length (path_string ns) < unat len then (0, path_string ns @ [0]) else (-1, []))" for len
    using lt [of len] by (simp add: vfs_getcwd_def cwd loop pl Let_def ps)
  have "vfs_get_dentry (Some (path_string ns)) st = Done (Some a, st)" if l: "length (path_string ns) \<le> 4095"
  proof -
    obtain r where r: "vfs_get_root_dentry st = Some r" using vfs_okD(3) [OF ok] by blast
    have w: "walk ns (Some r) st = Done (Some a, st)" using ns(2) r by (metis append_Nil2 walk.simps(1))
    show ?thesis
    proof (cases ns)
      case Nil
      then show ?thesis using w r by (simp add: vfs_get_dentry_def path_string_def)
    next
      case (Cons n ms)
      then have "path_string ns = slash # n @ join_path ms" "n \<noteq> []" using ns(1) by (simp_all add: path_string_def join_path_def name_ok_def)
      moreover have "tokens {slash} (path_copy (path_string ns)) = ns"
        using l Cons tokens_join_path [OF ns(1)] by (simp add: path_copy_def PATH_MAX_def path_string_def)
      ultimately show ?thesis using w r by (simp add: vfs_get_dentry_def)
    qed
  qed
  then show ?thesis using ns(1) cwdr by blast
qed

end
