(* ===== verification/Mounts.thy ===== *)
theory Mounts
  imports Vfs
begin

text \<open>
  The file systems below the VFS and their set-up: the device file system (\<open>src/src/fs/devfs.c\<close>), the initrd
  (\<open>src/src/fs/stripFS.c\<close>), the mounting of the FAT32 volume (\<open>src/src/fs/fat32.c\<close>), and the listing of
  directories, which the system call does through \<open>i_ops->getdents\<close>.  The static dentries and inodes exist
  from the start; \<open>boot_vfs\<close> is the state of the static variables before anything is mounted.
\<close>

definition boot_vfs :: "fatfs \<Rightarrow> console \<Rightarrow> (nat \<Rightarrow> bool) \<Rightarrow> (nat \<Rightarrow> bool) \<Rightarrow> vfs" where
  "boot_vfs fs con pages kms =
     \<lparr>dentries = [FAT_ROOT \<mapsto> zero_dentry, DEVFS_ROOT \<mapsto> zero_dentry],
      inodes = [FAT_ROOT \<mapsto> zero_inode, DEVFS_ROOT \<mapsto> zero_inode], open_files = Map.empty, strip_metas = Map.empty,
      mounts = [], root_superblock = None, task_cwd = None, volume = fs, vfs_con = con, initrd = [], header_strip = False,
      dev_ino_counter = 1000, next_id = 2, page_ok = pages, kmalloc_ok = kms\<rparr>"

section \<open>The device file system\<close>

text \<open>The loop state: \<open>*offset\<close>, \<open>bytes_written\<close> and the buffer.\<close>
fun devfs_entries :: "u32 \<Rightarrow> nat list \<Rightarrow> vfs \<Rightarrow> u64 \<times> u32 \<times> u8 list \<Rightarrow> (u64 \<times> u32 \<times> u8 list) outcome" where
  "devfs_entries count [] st ls = Done ls"
| "devfs_entries count (c # cs) st (offset, written, buf) =
     bind_oc (get_d c st) (\<lambda>child.
       let reclen = dirent_reclen (length (dn_name child))
       in if count < written + ucast reclen then Done (offset, written, buf)
          else bind_oc (deref (d_inode child)) (\<lambda>i. bind_oc (get_i i st) (\<lambda>node.
            let d_type = (if i_type node = FT_DIR then 4 else if i_type node = FT_CHR then 2 else 8)
            in devfs_entries count cs st (offset + 1, written + ucast reclen,
                 put_dirent buf (unat written) (ucast (ino node)) (offset + 1) reclen d_type (dn_name child)))))"

text \<open>The results are the new offset, the buffer and the return value.\<close>
definition devfs_getdents :: "nat option \<Rightarrow> u64 \<Rightarrow> u8 list \<Rightarrow> u32 \<Rightarrow> vfs \<Rightarrow> (u64 \<times> u8 list \<times> int) outcome" where
  "devfs_getdents node offset buf count st =
     (case node of
        None \<Rightarrow> Done (offset, buf, -1)
      | Some a \<Rightarrow> bind_oc (get_i a st) (\<lambda>i.
          if i_type i \<noteq> FT_DIR then Done (offset, buf, -1)
          else case i_private i of
            PNull \<Rightarrow> Done (offset, buf, -1)
          | PDentry pd \<Rightarrow> bind_oc (get_d pd st) (\<lambda>d.
              bind_oc (devfs_entries count (drop (unat offset) (d_children d)) st (offset, 0, buf)) (\<lambda>(offset, written, buf).
                Done (offset, buf, int (unat written))))
          | _ \<Rightarrow> Wild))"

definition devfs_register_device :: "cstring option \<Rightarrow> file_ops option \<Rightarrow> u8 \<Rightarrow> vfs \<Rightarrow> (int \<times> vfs) outcome" where
  "devfs_register_device name fops type st =
     (case (name, fops) of
        (Some name, Some fops) \<Rightarrow>
          (case kmalloc st of
             (None, st) \<Rightarrow> Wild
           | (Some dev_inode, st) \<Rightarrow>
               let node = zero_inode\<lparr>i_type := type, is_directory := 0, f_ops := Some fops, i_ops := None, ino := dev_ino_counter st\<rparr>;
                   st = set_i dev_inode node (st\<lparr>dev_ino_counter := dev_ino_counter st + 1\<rparr>)
               in (case kmalloc st of
                     (None, st) \<Rightarrow> Wild
                   | (Some new_dev, st) \<Rightarrow>
                       bind_oc (add_child DEVFS_ROOT new_dev
                           (zero_dentry\<lparr>dn_name := copy_name name, d_inode := Some dev_inode, d_parent := Some DEVFS_ROOT\<rparr>) st)
                         (\<lambda>st. Done (0, st))))
      | _ \<Rightarrow> Done (-1, st))"

definition dev_path :: cstring where "dev_path = [0x2F, 0x64, 0x65, 0x76]"

definition devfs_init :: "vfs \<Rightarrow> (int \<times> vfs) outcome" where
  "devfs_init st =
     (let st = set_i DEVFS_ROOT (zero_inode\<lparr>ino := 1, i_type := FT_DIR, is_directory := 1, i_ops := Some Devfs_dir_iops,
            i_private := PDentry DEVFS_ROOT\<rparr>) st;
          st = set_d DEVFS_ROOT (zero_dentry\<lparr>dn_name := tl dev_path, d_inode := Some DEVFS_ROOT\<rparr>) st;
          sb = \<lparr>fs_type = [0x64, 0x65, 0x76, 0x66, 0x73], sb_root = Some DEVFS_ROOT\<rparr>
      in bind_oc (vfs_mkdir (Some dev_path) st) (\<lambda>(_, st). vfs_mount (Some sb) (Some dev_path) st))"

section \<open>The initrd\<close>

definition STRIP_HEADER_SIZE :: nat where "STRIP_HEADER_SIZE = 8"
definition STRIP_FILE_SIZE :: nat where "STRIP_FILE_SIZE = 268"

definition strip_file_of :: "u8 list \<Rightarrow> strip_fs_file" where
  "strip_file_of b =
     \<lparr>sf_filename = takeWhile (\<lambda>c. c \<noteq> 0) (slice_at b 0 256), sf_length = of_le (slice_at b 256 4),
      sf_offset = of_le (slice_at b 260 4), sf_executable = of_le (slice_at b 264 4)\<rparr>"

definition image_at :: "vfs \<Rightarrow> nat \<Rightarrow> nat \<Rightarrow> u8 list outcome" where
  "image_at st off n = (if off + n \<le> length (initrd st) then Done (slice_at (initrd st) off n) else Wild)"

text \<open>
  One round of the loop, on \<open>ptr\<close>, as offset from the start of the image, and \<open>ino_counter\<close>.  When there is no
  memory for the record the round ends without moving \<open>ptr\<close>.
\<close>
definition strip_add_file :: "nat \<Rightarrow> nat \<times> u32 \<times> vfs \<Rightarrow> (nat \<times> u32 \<times> vfs) outcome" where
  "strip_add_file root = (\<lambda>(ptr, ino_counter, st).
     (case kmalloc st of
       (None, st) \<Rightarrow> Done (ptr, ino_counter, st)
     | (Some m, st) \<Rightarrow> bind_oc (image_at st ptr STRIP_FILE_SIZE) (\<lambda>b.
         let filemeta = strip_file_of b; next_ptr = ptr + STRIP_FILE_SIZE
         in (case kmalloc st of
              (None, st) \<Rightarrow> Done (next_ptr, ino_counter, st)
            | (Some i, st) \<Rightarrow>
                let node = zero_inode\<lparr>ino := 9000 + ino_counter, i_size := sf_length filemeta, is_directory := 0, i_type := FT_REG,
                      f_ops := Some Strip_fops, i_ops := None, i_private := PStripFile m,
                      i_mode := (if sf_executable filemeta \<noteq> 0 then 5 else 4)\<rparr>;
                    ino_counter = ino_counter + 1
                in (case kmalloc st of
                     (None, st) \<Rightarrow> Done (next_ptr, ino_counter, st)
                   | (Some d, st) \<Rightarrow>
                       bind_oc (add_child root d
                           (zero_dentry\<lparr>dn_name := copy_name (sf_filename filemeta), d_inode := Some i, d_parent := Some root\<rparr>)
                           (set_i i node (st\<lparr>strip_metas := (strip_metas st)(m \<mapsto> filemeta)\<rparr>)))
                         (\<lambda>st. Done (next_ptr, ino_counter, st)))))))"

definition stripfs_create_and_mount :: "vfs \<Rightarrow> (int \<times> vfs) outcome" where
  "stripfs_create_and_mount st =
     (if \<not> header_strip st then Done (-1, st)
      else case kmalloc st of
        (None, st) \<Rightarrow> Done (-1, st)
      | (Some _, st) \<Rightarrow> (case kmalloc st of
          (None, st) \<Rightarrow> Done (-1, st)
        | (Some root, st) \<Rightarrow> (case kmalloc st of
            (None, st) \<Rightarrow> Done (-1, st)
          | (Some root_inode, st) \<Rightarrow>
              let st = set_i root_inode (zero_inode\<lparr>is_directory := 1, i_type := FT_DIR, i_ops := Some Strip_iops,
                         f_ops := None, i_private := PDentry root\<rparr>) st;
                  st = set_d root (zero_dentry\<lparr>dn_name := [slash], d_inode := Some root_inode\<rparr>) st;
                  sb = \<lparr>fs_type = [0x73, 0x74, 0x72, 0x69, 0x70, 0x66, 0x73], sb_root = Some root\<rparr>
              in bind_oc (image_at st 4 4) (\<lambda>h.
                   let num_files = nat (sint (of_le h :: u32))
                   in bind_oc (for_oc (\<lambda>_. strip_add_file root) [0..<num_files] (STRIP_HEADER_SIZE, 1, st)) (\<lambda>(_, _, st).
                        bind_oc (vfs_mount (Some sb) (Some [slash]) st) (\<lambda>(_, st). Done (0, st)))))))"

definition initrd_path :: cstring where
  "initrd_path = [0x2F, 0x69, 0x6E, 0x69, 0x74, 0x72, 0x64, 0x2E, 0x69, 0x6D, 0x67]"

text \<open>The boot modules are a path, which may be null, and the bytes at their address.\<close>
fun init_initrd_stripFS :: "(cstring option \<times> u8 list) list \<Rightarrow> vfs \<Rightarrow> vfs outcome" where
  "init_initrd_stripFS [] st = Done st"
| "init_initrd_stripFS ((path, bytes) # ms) st =
     (if path = Some initrd_path
      then bind_oc (image_at (st\<lparr>initrd := bytes\<rparr>) 0 2) (\<lambda>magic.
             bind_oc (stripfs_create_and_mount (st\<lparr>initrd := bytes, header_strip := magic = [0x69, 0x42]\<rparr>)) (\<lambda>(_, st). Done st))
      else init_initrd_stripFS ms st)"

fun strip_entries :: "u32 \<Rightarrow> nat list \<Rightarrow> vfs \<Rightarrow> u64 \<times> u64 \<times> u8 list \<Rightarrow> (u64 \<times> u64 \<times> u8 list) outcome" where
  "strip_entries count [] st ls = Done ls"
| "strip_entries count (c # cs) st (offset, pos, buf) =
     (if \<not> pos < ucast count then Done (offset, pos, buf)
      else bind_oc (get_d c st) (\<lambda>child.
        let reclen = align_up8 (24 + of_nat (length (dn_name child)) + 1)
        in if ucast count < pos + reclen then Done (offset, pos, buf)
           else bind_oc (case d_inode child of None \<Rightarrow> Done None | Some i \<Rightarrow> bind_oc (get_i i st) (\<lambda>node. Done (Some node))) (\<lambda>node.
             let d_ino = (case node of None \<Rightarrow> 0 | Some n \<Rightarrow> ucast (ino n));
                 d_type = (case node of
                     None \<Rightarrow> DT_REG
                   | Some n \<Rightarrow> if i_type n \<noteq> 0 then i_type n else if is_directory n \<noteq> 0 then DT_DIR else DT_REG)
             in strip_entries count cs st (offset + 1, pos + reclen,
                  put_dirent buf (unat pos) d_ino (offset + 1) (ucast reclen) d_type (dn_name child)))))"

definition stripfs_dir_getdents :: "nat \<Rightarrow> u64 \<Rightarrow> u8 list \<Rightarrow> u32 \<Rightarrow> vfs \<Rightarrow> (u64 \<times> u8 list \<times> int) outcome" where
  "stripfs_dir_getdents a offset buf count st =
     bind_oc (get_i a st) (\<lambda>i.
       case i_private i of
         PNull \<Rightarrow> Done (offset, buf, -1)
       | PDentry pd \<Rightarrow> bind_oc (get_d pd st) (\<lambda>d.
           bind_oc (strip_entries count (drop (unat offset) (d_children d)) st (offset, 0, buf)) (\<lambda>(offset, pos, buf).
             Done (offset, buf, sint pos)))
       | _ \<Rightarrow> Wild)"

section \<open>The FAT32 volume\<close>

definition fat32_mount_root :: "(u32 \<Rightarrow> u8 list option) \<Rightarrow> u32 \<Rightarrow> vfs \<Rightarrow> (int \<times> vfs) outcome" where
  "fat32_mount_root rd partition_lba st =
     (case fat32_init rd (volume st) partition_lba of (fs, ok) \<Rightarrow>
        let st = st\<lparr>volume := fs\<rparr>
        in if \<not> ok then Done (-1, st)
           else
             let st = set_i FAT_ROOT (zero_inode\<lparr>ino := root_dir_cluster fs, i_size := 0, i_type := FT_DIR, is_directory := 1,
                        f_ops := Some Fat32_file_ops, i_ops := Some Fat32_inode_ops\<rparr>) st;
                 st = set_d FAT_ROOT (zero_dentry\<lparr>dn_name := [slash], d_inode := Some FAT_ROOT\<rparr>) st
             in vfs_mount (Some \<lparr>fs_type = [0x66, 0x61, 0x74, 0x33, 0x32], sb_root = Some FAT_ROOT\<rparr>) (Some [slash]) st)"

text \<open>What \<open>mount_filesystem\<close> prints.\<close>
datatype mount_report = Disk_unreadable | Reported_ok | Reported_failed

definition mount_filesystem :: "(u32 \<Rightarrow> u8 list option) \<Rightarrow> vfs \<Rightarrow> (mount_report \<times> vfs) outcome" where
  "mount_filesystem rd st =
     (case rd 0 of
        None \<Rightarrow> Done (Disk_unreadable, st)
      | Some mbr \<Rightarrow>
          let fat32_start_lba = mbr_lba_start mbr
          in bind_oc (fat32_mount_root rd fat32_start_lba st) (\<lambda>(r, st).
               Done (if r \<noteq> 0 then Reported_ok else Reported_failed, st)))"

section \<open>Listing through the operation table\<close>

text \<open>\<open>i_ops->getdents\<close>, when the table has it; the directories that the VFS makes in memory have none.\<close>
definition has_getdents :: "inode_ops \<Rightarrow> bool" where
  "has_getdents ops \<longleftrightarrow> ops \<noteq> Vfs_dir_iops"

definition getdents_op :: "inode_ops \<Rightarrow> nat \<Rightarrow> u64 \<Rightarrow> u8 list \<Rightarrow> u32 \<Rightarrow> vfs \<Rightarrow> (u64 \<times> u8 list \<times> int \<times> vfs) outcome" where
  "getdents_op ops a offset buf count st =
     (case ops of
        Fat32_inode_ops \<Rightarrow> bind_oc (get_i a st) (\<lambda>i.
          case fat32_dir_getdents (volume st) (Some i) offset buf count of
            None \<Rightarrow> Halts
          | Some (fs, offset, buf, r) \<Rightarrow> Done (offset, buf, r, st\<lparr>volume := fs\<rparr>))
      | Devfs_dir_iops \<Rightarrow> bind_oc (devfs_getdents (Some a) offset buf count st) (\<lambda>(offset, buf, r). Done (offset, buf, r, st))
      | Strip_iops \<Rightarrow> bind_oc (stripfs_dir_getdents a offset buf count st) (\<lambda>(offset, buf, r). Done (offset, buf, r, st))
      | Vfs_dir_iops \<Rightarrow> Wild)"

end
