(* ===== verification/VfsRun.thy ===== *)
theory VfsRun
  imports VfsOk Mounts
begin

text \<open>
  The runs of the virtual file system: the boot sequence of \<open>src/src/init/main.c\<close> (FAT32 root, device file
  system) establishes the invariant of \<open>VfsOk\<close>, and the operations keep it.
\<close>

section \<open>Mounting\<close>

text \<open>A root that is not yet part of the tree.\<close>
definition detached :: "dmap \<Rightarrow> nat \<Rightarrow> bool" where
  "detached ds r \<longleftrightarrow> (\<forall>a D. ds a = Some D \<longrightarrow> r \<notin> set (d_children D) \<and>
     (\<forall>m. mounted_here D = Some m \<longrightarrow> sb_root (mnt_sb m) \<noteq> Some r))"

lemma tree_ok_mount:
  assumes ok: "tree_ok ds im root None n" and det: "detached ds r" and R: "ds r = Some R" and D: "ds md = Some D"
    and ne: "md \<noteq> r" "root \<noteq> Some r" and m: "sb_root (mnt_sb m) = Some r" and nm: "copy_name (dn_name D) = dn_name D" and nomount: "mounted_here R = None"
  shows "tree_ok (ds(md \<mapsto> D\<lparr>mounted_here := Some m\<rparr>, r \<mapsto> R\<lparr>d_parent := d_parent D, dn_name := copy_name (dn_name D)\<rparr>)) im root None n"
proof (rule tree_okI)
  let ?D = "D\<lparr>mounted_here := Some m\<rparr>" and ?R = "R\<lparr>d_parent := d_parent D, dn_name := copy_name (dn_name D)\<rparr>"
  let ?ds = "ds(md \<mapsto> ?D, r \<mapsto> ?R)"
  have child: "\<exists>X'. ?ds x = Some X' \<and> d_parent X' = d_parent X \<and> dn_name X' = dn_name X" if "ds x = Some X" "x \<noteq> r" for x X
    using that D by auto
  have cn: "child_name ?ds x = child_name ds x" if "x \<noteq> r" for x
    using that D by (simp add: child_name_def)
  have keep: "dentry_ok ?ds im a A'"
    if A: "ds a = Some A" "d_children A' = d_children A" "d_inode A' = d_inode A"
      "\<forall>m. mounted_here A' = Some m \<longrightarrow> (\<exists>r R. sb_root (mnt_sb m) = Some r \<and> ?ds r = Some R \<and> d_parent R = d_parent A' \<and> dn_name R = dn_name A')"
    for a A A'
  proof -
    have nr: "x \<noteq> r" if "x \<in> set (d_children A)" for x using det A(1) that by (auto simp: detached_def)
    have ok': "dentry_ok ds im a A" by (rule tree_okD(1) [OF ok A(1)])
    have "\<exists>C. ?ds x = Some C \<and> d_parent C = Some a \<and> name_ok (dn_name C)" if x: "x \<in> set (d_children A)" for x
    proof -
      obtain C where C: "ds x = Some C" "d_parent C = Some a" "name_ok (dn_name C)" using ok' x by (auto simp: dentry_ok_def)
      then show ?thesis using child [OF C(1) nr [OF x]] by auto
    qed
    moreover have "distinct (map (child_name ?ds) (d_children A))"
    proof -
      have "map (child_name ?ds) (d_children A) = map (child_name ds) (d_children A)" using nr cn by (intro map_cong) auto
      then show ?thesis using ok' by (simp only: dentry_ok_def)
    qed
    ultimately show ?thesis using ok' A(2-4) unfolding dentry_ok_def by simp
  qed
  have mounts_keep: "\<exists>q Q. sb_root (mnt_sb m') = Some q \<and> ?ds q = Some Q \<and> d_parent Q = d_parent A \<and> dn_name Q = dn_name A"
    if A: "ds a = Some A" "mounted_here A = Some m'" for a A m'
  proof -
    obtain q Q where q: "sb_root (mnt_sb m') = Some q" "ds q = Some Q" "d_parent Q = d_parent A" "dn_name Q = dn_name A"
      using tree_okD(1) [OF ok A(1)] A(2) by (auto simp: dentry_ok_def)
    then have "q \<noteq> r" using det A by (auto simp: detached_def)
    then show ?thesis using child [OF q(2)] q by auto
  qed
  show "dentry_ok ?ds im a A' \<and> a < n" if a: "?ds a = Some A'" for a A'
  proof -
    consider "a = r" | "a = md" "a \<noteq> r" | "a \<noteq> r" "a \<noteq> md" by blast
    then show ?thesis
    proof cases
      case 1
      then show ?thesis using a nomount keep [OF R, of A'] tree_okD(2) [OF ok R] by auto
    next
      case 2
      then show ?thesis using a ne keep [OF D, of A'] tree_okD(2) [OF ok D] m nm by auto
    next
      case 3
      then have A: "ds a = Some A'" using a by simp
      then show ?thesis using keep [OF A, of A'] mounts_keep [OF A] tree_okD(2) [OF ok A] by auto
    qed
  qed
  have dir: "\<exists>P'. ?ds pd = Some P' \<and> d_inode P' = d_inode P" if "ds pd = Some P" for pd P
    using that D R by auto
  show "inode_ok ?ds im I \<and> i < n" if I: "im i = Some I" for i I
    using tree_okD(3,4) [OF ok I] dir unfolding inode_ok_def by metis
  obtain q Q where q: "root = Some q" "ds q = Some Q" "d_parent Q = None" using tree_okD(5) [OF ok] by blast
  then show "\<exists>q Q. root = Some q \<and> ?ds q = Some Q \<and> d_parent Q = None" using ne D by auto
qed simp

lemma visible_name:
  assumes ok: "vfs_ok st" and v: "visible (dentries st) (vfs_get_root_dentry st) a" and D: "dentries st a = Some D"
  shows "vfs_get_root_dentry st = Some a \<or> name_ok (dn_name D) \<and> d_parent D \<noteq> None"
  using v
proof (cases rule: visible.cases)
  case root
  then show ?thesis by simp
next
  case (child p P c A)
  then show ?thesis using walk_cached(2) [OF ok child(2-4)] D by simp
qed

section \<open>Booting\<close>

lemma dev_path_ok: "makes_path dev_path" "short_path dev_path"
proof -
  have "list_all (\<lambda>t. length t \<le> 254) (components dev_path)" by code_simp
  then show "short_path dev_path" by (simp add: short_path_def list_all_iff)
  moreover have "base_name (path_copy dev_path) = [0x64, 0x65, 0x76]" by code_simp
  ultimately show "makes_path dev_path" by (simp add: makes_path_def dot_def dotdot_def dev_path_def)
qed

text \<open>The set-up that a mounted FAT32 root and the static objects of the device file system make.\<close>
definition booted :: "vfs \<Rightarrow> bool" where
  "booted st \<longleftrightarrow> vfs_ok st \<and> memory_ok st \<and> (\<exists>P. dentries st DEVFS_ROOT = Some P \<and> is_dir_inode (inodes st) (d_inode P))"

lemma booted_grows:
  assumes "booted st" and "vfs_ok st'" and "grows st st'"
  shows "booted st'"
proof -
  obtain P where P: "dentries st DEVFS_ROOT = Some P" "is_dir_inode (inodes st) (d_inode P)"
    using assms(1) by (auto simp: booted_def)
  obtain P' where "dentries st' DEVFS_ROOT = Some P'" "d_inode P' = d_inode P"
    using dgrownD [of "dentries st" "dentries st'", OF _ P(1)] assms(3) by (force simp: grows_def)
  moreover have "is_dir_inode (inodes st') (d_inode P)"
    using P(2) assms(3) is_dir_inode_mono by (auto simp: grows_def)
  ultimately show ?thesis using assms memory_ok_grows by (auto simp: booted_def)
qed

definition static_vfs :: "vfs \<Rightarrow> vfs" where
  "static_vfs st = set_d DEVFS_ROOT (zero_dentry\<lparr>dn_name := tl dev_path, d_inode := Some DEVFS_ROOT\<rparr>)
     (set_i DEVFS_ROOT (zero_inode\<lparr>ino := 1, i_type := FT_DIR, is_directory := 1, i_ops := Some Devfs_dir_iops,
            i_private := PDentry DEVFS_ROOT\<rparr>) st)"

lemma mounted_root:
  assumes "fat32_mount_root rd lba (boot_vfs fs con pages (\<lambda>_. True)) = Done (0, st1)"
  defines "st2 \<equiv> static_vfs st1"
  shows "booted st2" and "task_cwd st2 = None" and "vfs_get_root_dentry st2 = Some FAT_ROOT"
    and "\<exists>R. dentries st2 DEVFS_ROOT = Some R \<and> d_parent R = None \<and> mounted_here R = None"
    and "\<exists>F. dentries st2 FAT_ROOT = Some F \<and> dn_name F = [slash]"
    and "\<forall>a D. dentries st2 a = Some D \<longrightarrow> mounted_here D = None"
proof -
  have slash_copy: "copy_name [slash] = [slash]" by (simp add: copy_name_def NAME_MAX_def)
  obtain fs' ok where init: "fat32_init rd fs lba = (fs', ok)" by (cases "fat32_init rd fs lba")
  let ?b = "boot_vfs fs con pages (\<lambda>_. True)"
  let ?sb = "\<lparr>fs_type = [0x66, 0x61, 0x74, 0x33, 0x32], sb_root = Some FAT_ROOT\<rparr>"
  let ?s = "set_d FAT_ROOT (zero_dentry\<lparr>dn_name := [slash], d_inode := Some FAT_ROOT\<rparr>)
     (set_i FAT_ROOT (zero_inode\<lparr>ino := root_dir_cluster fs', i_size := 0, i_type := FT_DIR, is_directory := 1,
                        f_ops := Some Fat32_file_ops, i_ops := Some Fat32_inode_ops\<rparr>) (?b\<lparr>volume := fs'\<rparr>))"
  have vb: "volume ?b = fs" by (simp add: boot_vfs_def)
  have ok: "ok" using assms(1) by (simp add: fat32_mount_root_def init vb Let_def split: if_splits)
  have mnt: "vfs_mount (Some ?sb) (Some [slash]) ?s = Done (0, st1)"
    using assms(1) ok by (simp add: fat32_mount_root_def init vb Let_def)
  have nx: "next_id ?s = 2" by (simp add: set_d_def set_i_def boot_vfs_def)
  have pg: "page_ok ?s 2" using mnt by (simp add: vfs_mount_def new_page_def nx split: if_splits)
  have st1: "st1 = ?s\<lparr>next_id := 3, mounts := \<lparr>mnt_sb = ?sb, mount_point = [slash]\<rparr> # mounts ?s, root_superblock := Some ?sb\<rparr>"
    using mnt pg by (simp add: vfs_mount_def new_page_def nx slash_copy Let_def)
  have d: "dentries st2 = [FAT_ROOT \<mapsto> zero_dentry\<lparr>dn_name := [slash], d_inode := Some FAT_ROOT\<rparr>,
      DEVFS_ROOT \<mapsto> zero_dentry\<lparr>dn_name := tl dev_path, d_inode := Some DEVFS_ROOT\<rparr>]"
    by (simp add: st2_def st1 static_vfs_def set_d_def set_i_def boot_vfs_def FAT_ROOT_def DEVFS_ROOT_def)
  have i: "inodes st2 = [FAT_ROOT \<mapsto> zero_inode\<lparr>ino := root_dir_cluster fs', i_size := 0, i_type := FT_DIR, is_directory := 1,
                        f_ops := Some Fat32_file_ops, i_ops := Some Fat32_inode_ops\<rparr>,
      DEVFS_ROOT \<mapsto> zero_inode\<lparr>ino := 1, i_type := FT_DIR, is_directory := 1, i_ops := Some Devfs_dir_iops,
            i_private := PDentry DEVFS_ROOT\<rparr>]"
    by (simp add: st2_def st1 static_vfs_def set_d_def set_i_def boot_vfs_def FAT_ROOT_def DEVFS_ROOT_def)
  show c: "task_cwd st2 = None" and r: "vfs_get_root_dentry st2 = Some FAT_ROOT"
    by (simp_all add: st2_def st1 static_vfs_def set_d_def set_i_def boot_vfs_def vfs_get_root_dentry_def)
  have m: "memory_ok st2" and n: "next_id st2 = 3"
    by (simp_all add: st2_def st1 static_vfs_def set_d_def set_i_def boot_vfs_def memory_ok_def)
  have ne: "DEVFS_ROOT \<noteq> FAT_ROOT" "DEVFS_ROOT < 3" "FAT_ROOT < 3" by (simp_all add: FAT_ROOT_def DEVFS_ROOT_def)
  have "vfs_ok st2"
    unfolding vfs_ok_def c r n
  proof (rule tree_okI)
    show "dentry_ok (dentries st2) (inodes st2) a D \<and> a < 3" if "dentries st2 a = Some D" for a D
    proof -
      have "d_children D = [] \<and> mounted_here D = None \<and> a < 3 \<and> d_inode D = Some a \<and> inodes st2 a \<noteq> None"
        using that ne by (auto simp: d i zero_dentry_def split: if_splits)
      then show ?thesis by (simp add: dentry_ok_def)
    qed
    show "inode_ok (dentries st2) (inodes st2) I \<and> j < 3" if "inodes st2 j = Some I" for j I
      using that ne unfolding d i
      by (cases "j = DEVFS_ROOT"; cases "j = FAT_ROOT") (auto simp: inode_ok_def zero_inode_def is_dir_inode_def)
    show "\<exists>q Q. Some FAT_ROOT = Some q \<and> dentries st2 q = Some Q \<and> d_parent Q = None"
      using ne unfolding d by (simp add: zero_dentry_def)
  qed simp
  then show "booted st2" using m ne by (simp add: booted_def d i is_dir_inode_def)
  show "\<exists>R. dentries st2 DEVFS_ROOT = Some R \<and> d_parent R = None \<and> mounted_here R = None"
    and "\<exists>F. dentries st2 FAT_ROOT = Some F \<and> dn_name F = [slash]"
    and "\<forall>a D. dentries st2 a = Some D \<longrightarrow> mounted_here D = None"
    using ne by (simp_all add: d zero_dentry_def)
qed

lemma devfs_init_booted:
  assumes "fat32_mount_root rd lba (boot_vfs fs con pages (\<lambda>_. True)) = Done (0, st1)"
  shows "safe_oc (devfs_init st1) (\<lambda>(r, st'). booted st')"
proof -
  let ?st2 = "static_vfs st1" and ?sb = "\<lparr>fs_type = [0x64, 0x65, 0x76, 0x66, 0x73], sb_root = Some DEVFS_ROOT\<rparr>"
  note m = mounted_root [OF assms]
  have ok2: "vfs_ok ?st2" "memory_ok ?st2" using m(1) by (auto simp: booted_def)
  obtain R2 where R2: "dentries ?st2 DEVFS_ROOT = Some R2" "d_parent R2 = None" "mounted_here R2 = None" using m(4) by blast
  have init: "devfs_init st1 = bind_oc (vfs_mkdir (Some dev_path) ?st2) (\<lambda>(_, st). vfs_mount (Some ?sb) (Some dev_path) st)"
    by (simp add: devfs_init_def static_vfs_def Let_def)
  show ?thesis unfolding init
  proof (rule safe_bind [OF vfs_mkdir_safe [OF ok2 dev_path_ok(1)]], clarify)
    fix r st3 assume s3: "vfs_ok st3" "grows ?st2 st3"
    let ?m = "\<lparr>mnt_sb = ?sb, mount_point = copy_name dev_path\<rparr>"
    have nr: "dev_path \<noteq> [slash]" by (simp add: dev_path_def)
    show "safe_oc (vfs_mount (Some ?sb) (Some dev_path) st3) (\<lambda>(r, st'). booted st')"
      unfolding vfs_mount_def option.case prod.case
    proof (rule safe_bind [OF new_page_ok [OF s3(1)]], clarify)
      fix c st4 assume s4: "vfs_ok st4" "grows st3 st4"
      let ?st4 = "st4\<lparr>mounts := ?m # mounts st4\<rparr>"
      have s4': "vfs_ok ?st4" "grows st4 ?st4" using s4 by (simp_all add: vfs_ok_def vfs_get_root_dentry_def grows_def)
      have g4: "grows ?st2 ?st4" using s3(2) s4(2) s4'(2) by (blast intro: grows_trans)
      have "safe_oc (bind_oc (vfs_get_dentry (Some dev_path) ?st4) (\<lambda>(mnt_dentry, st).
                 case mnt_dentry of
                   None \<Rightarrow> Done (0, st)
                 | Some md \<Rightarrow> bind_oc (get_d md st) (\<lambda>d.
                     let d = d\<lparr>mounted_here := Some ?m\<rparr>; st = set_d md d st
                     in bind_oc (deref (sb_root ?sb)) (\<lambda>r. bind_oc (get_d r st) (\<lambda>root.
                          let root = root\<lparr>d_parent := d_parent d, dn_name := copy_name (dn_name d)\<rparr>
                          in Done (0, set_d r root st)))))) (\<lambda>(r, st'). booted st')"
      proof (rule safe_bind [OF vfs_get_dentry_safe [OF s4'(1) memory_ok_grows [OF g4 ok2(2)] dev_path_ok(2)]], clarify)
        fix md st5 assume re: "reached ?st4 (md, st5)"
        then have s5: "vfs_ok st5" "grows ?st2 st5" using g4 by (auto simp: reached_def intro: grows_trans)
        have b5: "booted st5" by (rule booted_grows [OF m(1) s5])
        have gr: "dgrown (dentries ?st2) (dentries st5)" using s5(2) by (simp add: grows_def)
        obtain R where R: "dentries st5 DEVFS_ROOT = Some R" "d_parent R = None" "mounted_here R = None"
          using dgrownD [OF gr R2(1)] R2 by auto
        have root: "vfs_get_root_dentry st5 = Some FAT_ROOT" "task_cwd st5 = None" using s5(2) m(2,3) by (auto simp: grows_def)
        have none: "mounted_here D = None" if "dentries st5 a = Some D" for a D
          using gr that m(6) dgrownD [OF gr, of a] by (cases "dentries ?st2 a") (auto simp: dgrown_def)
        have det: "detached (dentries st5) DEVFS_ROOT"
          unfolding detached_def using none R vfs_okD(1) [OF s5(1)] by (fastforce simp: dentry_ok_def)
        have ne: "FAT_ROOT \<noteq> DEVFS_ROOT" by (simp add: FAT_ROOT_def DEVFS_ROOT_def)
        show "safe_oc (case md of
                   None \<Rightarrow> Done (0, st5)
                 | Some md \<Rightarrow> bind_oc (get_d md st5) (\<lambda>d.
                     let d = d\<lparr>mounted_here := Some ?m\<rparr>; st = set_d md d st5
                     in bind_oc (deref (sb_root ?sb)) (\<lambda>r. bind_oc (get_d r st) (\<lambda>root.
                          let root = root\<lparr>d_parent := d_parent d, dn_name := copy_name (dn_name d)\<rparr>
                          in Done (0, set_d r root st))))) (\<lambda>(r, st'). booted st')"
        proof (cases md)
          case None
          then show ?thesis using b5 by simp
        next
          case (Some a)
          then have v: "visible (dentries st5) (vfs_get_root_dentry st5) a" using re by (simp add: reached_def)
          then obtain D where D: "dentries st5 a = Some D" using visible_alive vfs_okD(3) [OF s5(1)] by blast
          have an: "a \<noteq> DEVFS_ROOT" using visible_name [OF s5(1) v D] root(1) R D ne by auto
          obtain F where "dentries st5 FAT_ROOT = Some F" "dn_name F = [slash]" using m(5) dgrownD [OF gr] by fastforce
          then have nm: "copy_name (dn_name D) = dn_name D"
            using visible_name [OF s5(1) v D] root(1) D by (auto simp: copy_name_def NAME_MAX_def name_ok_def)
          let ?D = "D\<lparr>mounted_here := Some ?m\<rparr>" and ?R = "R\<lparr>d_parent := d_parent D, dn_name := copy_name (dn_name D)\<rparr>"
          let ?ds = "(dentries st5)(a \<mapsto> ?D, DEVFS_ROOT \<mapsto> ?R)" and ?st6 = "set_d DEVFS_ROOT ?R (set_d a ?D st5)"
          have "tree_ok (dentries st5) (inodes st5) (Some FAT_ROOT) None (next_id st5)"
            using s5(1) root by (simp add: vfs_ok_def)
          from tree_ok_mount [OF this det R(1) D an _ _ nm R(3), of ?m] ne
          have "tree_ok ?ds (inodes st5) (Some FAT_ROOT) None (next_id st5)" by simp
          then have "vfs_ok ?st6" using root by (simp add: vfs_ok_def set_d_def vfs_get_root_dentry_def)
          moreover have "is_dir_inode (inodes st5) (d_inode R)" "memory_ok st5" using b5 R by (auto simp: booted_def)
          ultimately have "booted ?st6" by (simp add: booted_def set_d_def memory_ok_def)
          then show ?thesis using Some D R(1) an by (simp add: get_d_def set_d_def deref_def Let_def)
        qed
      qed
      then show "safe_oc (let m = ?m; st = st4\<lparr>mounts := m # mounts st4\<rparr>
            in if dev_path = [slash] then Done (0, st\<lparr>root_superblock := Some ?sb\<rparr>)
               else bind_oc (vfs_get_dentry (Some dev_path) st) (\<lambda>(mnt_dentry, st).
                 case mnt_dentry of
                   None \<Rightarrow> Done (0, st)
                 | Some md \<Rightarrow> bind_oc (get_d md st) (\<lambda>d.
                     let d = d\<lparr>mounted_here := Some m\<rparr>; st = set_d md d st
                     in bind_oc (deref (sb_root ?sb)) (\<lambda>r. bind_oc (get_d r st) (\<lambda>root.
                          let root = root\<lparr>d_parent := d_parent d, dn_name := copy_name (dn_name d)\<rparr>
                          in Done (0, set_d r root st)))))) (\<lambda>(r, st'). booted st')"
        using nr by (simp add: Let_def)
    qed
  qed
qed

section \<open>Runs\<close>

text \<open>
  The states that the boot sequence and the operations lead to, with the working directory of whatever
  task is current.  Memory for small objects does not run out; file names have at most 254 characters.
  Each step is a call that returned.  \<open>vfs_unlink\<close> is not a step: it frees dentries that may still be
  the working directory of a task.
\<close>
inductive vfs_run :: "vfs \<Rightarrow> bool" where
  boot: "fat32_mount_root rd lba (boot_vfs fs con pages (\<lambda>_. True)) = Done (0, st1) \<Longrightarrow>
    devfs_init st1 = Done (r, st) \<Longrightarrow> vfs_run st"
| register: "vfs_run st \<Longrightarrow> dentries st DEVFS_ROOT = Some P \<Longrightarrow> name_ok name \<Longrightarrow>
    name \<notin> child_name (dentries st) ` set (d_children P) \<Longrightarrow>
    devfs_register_device (Some name) fops type st = Done (r, st') \<Longrightarrow> vfs_run st'"
| task: "vfs_run st \<Longrightarrow> (\<forall>a. c = Some (Some a) \<longrightarrow> visible (dentries st) (vfs_get_root_dentry st) a) \<Longrightarrow>
    vfs_run (st\<lparr>task_cwd := c\<rparr>)"
| lookup: "vfs_run st \<Longrightarrow> short_path path \<Longrightarrow> vfs_get_dentry (Some path) st = Done (d, st') \<Longrightarrow> vfs_run st'"
| mkdir: "vfs_run st \<Longrightarrow> makes_path path \<Longrightarrow> vfs_mkdir (Some path) st = Done (r, st') \<Longrightarrow> vfs_run st'"
| create: "vfs_run st \<Longrightarrow> short_path path \<Longrightarrow> vfs_create (Some path) mode st = Done (r, st') \<Longrightarrow> vfs_run st'"
| chdir: "vfs_run st \<Longrightarrow> short_path path \<Longrightarrow> vfs_chdir (Some path) st = Done (r, st') \<Longrightarrow> vfs_run st'"
| open_f: "vfs_run st \<Longrightarrow> vfs_open i flags st = Done (r, f, st') \<Longrightarrow> vfs_run st'"
| close_f: "vfs_run st \<Longrightarrow> vfs_close f st = Done (r, st') \<Longrightarrow> vfs_run st'"
| read_f: "vfs_run st \<Longrightarrow> vfs_read f buf_null len st = Done (Some (bs, r, st')) \<Longrightarrow> vfs_run st'"
| write_f: "vfs_run st \<Longrightarrow> vfs_write f buf len st = Done (r, st') \<Longrightarrow> vfs_run st'"

text \<open>Operations on files leave the tree alone.\<close>
definition same_tree :: "vfs \<Rightarrow> vfs \<Rightarrow> bool" where
  "same_tree st st' \<longleftrightarrow> dentries st' = dentries st \<and> inodes st' = inodes st \<and> root_superblock st' = root_superblock st \<and>
     task_cwd st' = task_cwd st \<and> kmalloc_ok st' = kmalloc_ok st \<and> next_id st \<le> next_id st'"

lemma booted_same_tree:
  assumes "booted st" and "same_tree st st'"
  shows "booted st'"
proof -
  have "tree_ok (dentries st) (inodes st) (vfs_get_root_dentry st) (task_cwd st) (next_id st')"
    using assms by (auto simp: booted_def vfs_ok_def same_tree_def intro: tree_ok_more_ids)
  then show ?thesis using assms by (auto simp: booted_def same_tree_def vfs_ok_def vfs_get_root_dentry_def memory_ok_def)
qed

lemma open_same_tree: "vfs_open i flags st = Done (r, f, st') \<Longrightarrow> same_tree st st'"
  by (auto simp: vfs_open_def kmalloc_def set_f_def same_tree_def bind_oc_eq_Done split: option.splits if_splits)

lemma close_same_tree: "vfs_close f st = Done (r, st') \<Longrightarrow> same_tree st st'"
  by (auto simp: vfs_close_def same_tree_def bind_oc_eq_Done split: option.splits if_splits)

lemma strip_read_same_tree:
  assumes "stripfs_file_read a b len off st = Done (bs, r, st')"
  shows "same_tree st st'"
proof -
  obtain f where f: "get_f a st = Done f" using assms by (auto simp: stripfs_file_read_def bind_oc_eq_Done)
  show ?thesis
  proof (cases "f_inode f")
    case None
    then show ?thesis using assms f by (simp add: stripfs_file_read_def same_tree_def)
  next
    case (Some i)
    then obtain node where node: "get_i i st = Done node"
      using assms f by (auto simp: stripfs_file_read_def bind_oc_eq_Done)
    show ?thesis
      using assms f Some node
      by (cases "i_private node")
        (auto simp: stripfs_file_read_def set_f_def same_tree_def Let_def split: option.split_asm if_split_asm)
  qed
qed

lemma read_op_same_tree: "read_op ops a i b len off st = Done (Some (bs, r, st')) \<Longrightarrow> same_tree st st'"
  by (cases ops)
    (auto simp: read_op_def same_tree_def [of st "st\<lparr>volume := _\<rparr>"] same_tree_def [of st "st\<lparr>vfs_con := _\<rparr>"] bind_oc_eq_Done
      split: option.split_asm prod.split_asm dest: strip_read_same_tree)

lemma advance_same_tree: "advance a ret st = Done st' \<Longrightarrow> same_tree st st'"
  by (auto simp: advance_def set_f_def same_tree_def bind_oc_eq_Done split: if_splits)

lemma same_tree_trans: "same_tree st st1 \<Longrightarrow> same_tree st1 st2 \<Longrightarrow> same_tree st st2"
  by (simp add: same_tree_def)

lemma read_same_tree:
  assumes "vfs_read f b len st = Done (Some (bs, r, st'))"
  shows "same_tree st st'"
proof -
  have refl: "same_tree st st" by (simp add: same_tree_def)
  show ?thesis using assms refl
    by (auto simp: vfs_read_def bind_oc_eq_Done split: option.split_asm
        dest!: advance_same_tree read_op_same_tree) (blast intro: same_tree_trans)
qed

text \<open>A write to a file on the volume may set the size in its inode, and changes nothing else of it.\<close>
lemma fat32_write_node:
  assumes "fat32_vfs_write s (Some node) buf len off = Some (s', n', r)"
  shows "\<exists>z. n' = Some (node\<lparr>i_size := z\<rparr>)"
proof -
  have same: "\<exists>z. node = node\<lparr>i_size := z\<rparr>" by (rule exI [of _ "i_size node"]) simp
  have "\<exists>z. snd (update_size t node e) = node\<lparr>i_size := z\<rparr>" for t e
    using same by (auto simp: update_size_def Let_def split: private_data.split)
  then have upd: "update_size t node e = (t', m) \<Longrightarrow> \<exists>z. m = node\<lparr>i_size := z\<rparr>" for t e t' m
    by (metis snd_conv)
  show ?thesis
    using assms same upd
    by (auto simp: fat32_vfs_write_def Let_def split: option.split_asm if_split_asm prod.split_asm bool.split_asm)
qed

lemma tree_ok_resize:
  assumes ok: "tree_ok ds im root cwd n" and i: "im i = Some I"
  shows "tree_ok ds (im(i \<mapsto> I\<lparr>i_size := z\<rparr>)) root cwd n"
proof (rule tree_okI)
  let ?im = "im(i \<mapsto> I\<lparr>i_size := z\<rparr>)"
  have dir: "is_dir_inode ?im x = is_dir_inode im x" for x using i by (auto simp: is_dir_inode_def)
  have keep: "inode_ok ds ?im J = inode_ok ds im J" for J unfolding inode_ok_def dir ..
  show "dentry_ok ds ?im a D \<and> a < n" if "ds a = Some D" for a D
    using tree_okD(1,2) [OF ok that] unfolding dentry_ok_def dir by auto
  have "inode_ok ds im (I\<lparr>i_size := z\<rparr>)" using tree_okD(3) [OF ok i] by (simp add: inode_ok_def)
  then show "inode_ok ds ?im J \<and> j < n" if "?im j = Some J" for j J
    unfolding keep using that tree_okD(3,4) [OF ok, of j J] tree_okD(4) [OF ok i] by (cases "j = i") auto
  show "\<exists>r R. root = Some r \<and> ds r = Some R \<and> d_parent R = None" by (rule tree_okD(5) [OF ok])
  show "visible ds root c" if "cwd = Some (Some c)" for c by (rule tree_okD(6) [OF ok that])
qed

lemma booted_resize:
  assumes b: "booted st" and i: "inodes st i = Some I"
  shows "booted (set_i i (I\<lparr>i_size := z\<rparr>) st)"
proof -
  obtain P where P: "dentries st DEVFS_ROOT = Some P" "is_dir_inode (inodes st) (d_inode P)"
    using b by (auto simp: booted_def)
  have "is_dir_inode ((inodes st)(i \<mapsto> I\<lparr>i_size := z\<rparr>)) (d_inode P)"
    using P(2) i by (auto simp: is_dir_inode_def)
  then show ?thesis
    using b P(1) tree_ok_resize [of "dentries st" "inodes st" _ _ _ i I z, OF _ i]
    by (auto simp: booted_def vfs_ok_def memory_ok_def set_i_def vfs_get_root_dentry_def)
qed

lemma write_op_booted:
  assumes b: "booted st" and run: "write_op ops i buf len off st = Done (r, st')"
  shows "booted st'"
proof -
  obtain I where I: "get_i i st = Done I" "inodes st i = Some I"
    using run by (auto simp: write_op_def bind_oc_eq_Done get_i_def split: option.split_asm)
  have vol: "booted (st\<lparr>volume := fs\<rparr>)" if "booted st" for fs st
    using booted_same_tree [OF that] by (simp add: same_tree_def)
  have con: "booted (st\<lparr>vfs_con := c\<rparr>)" for c using booted_same_tree [OF b] by (simp add: same_tree_def)
  show ?thesis
  proof (cases ops)
    case Fat32_file_ops
    then obtain fs n' where f: "fat32_vfs_write (volume st) (Some I) buf len off = Some (fs, n', r)"
        "st' = (case n' of None \<Rightarrow> st | Some n \<Rightarrow> set_i i n st)\<lparr>volume := fs\<rparr>"
      using run I(1) by (auto simp: write_op_def split: option.split_asm)
    then obtain z where "n' = Some (I\<lparr>i_size := z\<rparr>)" using fat32_write_node by blast
    then show ?thesis using f(2) vol booted_resize [OF b I(2)] by simp
  qed (use run I(1) b con in \<open>auto simp: write_op_def bind_oc_eq_Done\<close>)
qed

lemma write_booted:
  assumes b: "booted st" and run: "vfs_write f buf len st = Done (r, st')"
  shows "booted st'"
proof -
  have adv: "booted st2" if "booted st1" "advance a x st1 = Done st2" for a x st1 st2
    using booted_same_tree [OF that(1)] advance_same_tree [OF that(2)] by blast
  show ?thesis
    using run b adv
    by (auto simp: vfs_write_def bind_oc_eq_Done split: option.split_asm dest!: write_op_booted [OF b])
qed

lemma register_booted:
  assumes b: "booted st" and P: "dentries st DEVFS_ROOT = Some P" and nm: "name_ok name" "name \<notin> child_name (dentries st) ` set (d_children P)"
    and run: "devfs_register_device (Some name) fops type st = Done (r, st')"
  shows "booted st'"
proof (cases fops)
  case None
  then show ?thesis using run b by (simp add: devfs_register_device_def)
next
  case (Some fo)
  let ?i = "next_id st" and ?c = "next_id st + 1"
  let ?node = "zero_inode\<lparr>i_type := type, is_directory := 0, f_ops := Some fo, i_ops := None, ino := dev_ino_counter st\<rparr>"
  let ?st2 = "set_i ?i ?node (st\<lparr>dev_ino_counter := dev_ino_counter st + 1\<rparr>)\<lparr>next_id := next_id st + 2\<rparr>"
  have ok: "vfs_ok st" and mem: "\<forall>n. kmalloc_ok st n" using b by (auto simp: booted_def memory_ok_def)
  have "tree_ok (dentries st) (inodes st) (vfs_get_root_dentry st) (task_cwd st) (next_id st + 2)"
    using ok tree_ok_more_ids unfolding vfs_ok_def by (metis le_add1)
  then have "tree_ok (dentries st) ((inodes st)(?i \<mapsto> ?node)) (vfs_get_root_dentry st) (task_cwd st) (next_id st + 2)"
    using vfs_okD(6) [OF ok] by (intro tree_ok_add_inode) (auto simp: inode_ok_def zero_inode_def)
  then have ok2: "vfs_ok ?st2" by (simp add: vfs_ok_def set_i_def vfs_get_root_dentry_def)
  have le: "inodes st \<subseteq>\<^sub>m inodes ?st2" using vfs_okD(6) [OF ok] by (auto simp: set_i_def map_le_def)
  have g2: "grows st ?st2" using le by (simp add: grows_def set_i_def vfs_get_root_dentry_def)
  have dir: "is_dir_inode (inodes ?st2) (d_inode P)"
    using b P le is_dir_inode_mono by (auto simp: booted_def)
  have c: "dentries ?st2 ?c = None" "?c < next_id ?st2"
  proof -
    have "a < next_id st" if "dentries st a = Some D" for a D
      using ok that by (auto simp: vfs_ok_def tree_ok_def)
    then have "dentries st ?c = None" by (metis add_lessD1 less_irrefl option.exhaust)
    then show "dentries ?st2 ?c = None" "?c < next_id ?st2" by (simp_all add: set_i_def)
  qed
  have P2: "dentries ?st2 DEVFS_ROOT = Some P" "name \<notin> child_name (dentries ?st2) ` set (d_children P)"
    and i: "inodes ?st2 ?i \<noteq> None" using P nm by (simp_all add: set_i_def)
  obtain st3 where st3: "add_child DEVFS_ROOT ?c (zero_dentry\<lparr>dn_name := copy_name name, d_inode := Some ?i, d_parent := Some DEVFS_ROOT\<rparr>) ?st2 = Done st3"
    "vfs_ok st3" "grows ?st2 st3"
    using add_child_ok [OF ok2 P2(1) dir c nm(1) P2(2) i] by blast
  have "devfs_register_device (Some name) fops type st = Done (0, st3)"
    using Some mem st3(1) by (simp add: devfs_register_device_def kmalloc_def set_i_def)
  then show ?thesis using run booted_grows [OF b st3(2) grows_trans [OF g2 st3(3)]] by simp
qed

lemma vfs_run_booted: "vfs_run st \<Longrightarrow> booted st"
proof (induction rule: vfs_run.induct)
  case (boot rd lba fs con pages st1 r st)
  then show ?case using devfs_init_booted [OF boot(1)] by simp
next
  case (register st P name fops type r st')
  then show ?case using register_booted by blast
next
  case (task st c)
  then show ?case by (simp add: booted_def vfs_ok_def tree_ok_def vfs_get_root_dentry_def memory_ok_def)
next
  case (lookup st path d st')
  have "reached st (d, st')"
    using vfs_get_dentry_safe [of st path] lookup by (simp add: booted_def)
  then show ?case using booted_grows [OF lookup.IH] by (simp add: reached_def)
next
  case (mkdir st path r st')
  then have "vfs_ok st' \<and> grows st st'" using vfs_mkdir_safe [of st path] by (simp add: booted_def)
  then show ?case using booted_grows [OF mkdir.IH] by blast
next
  case (create st path mode r st')
  then show ?case using vfs_create_keeps [of st path mode r st'] booted_grows [OF create.IH] by (simp add: booted_def)
next
  case (chdir st path r st')
  then have "safe_oc (vfs_chdir (Some path) st) (\<lambda>(r, st'). vfs_ok st' \<and> grows st (st'\<lparr>task_cwd := task_cwd st\<rparr>))"
    by (intro safe_mono [OF vfs_chdir_safe]) (auto simp: booted_def)
  then have s: "vfs_ok st'" "grows st (st'\<lparr>task_cwd := task_cwd st\<rparr>)" using chdir by simp_all
  then have "vfs_ok (st'\<lparr>task_cwd := task_cwd st\<rparr>)"
    using chdir.IH visible_dgrown by (auto simp: vfs_ok_def tree_ok_def booted_def grows_def vfs_get_root_dentry_def)
  then have "booted (st'\<lparr>task_cwd := task_cwd st\<rparr>)" by (rule booted_grows [OF chdir.IH _ s(2)])
  then show ?case using s(1) by (simp add: booted_def memory_ok_def)
next
  case (open_f st i flags r f st')
  then show ?case using booted_same_tree open_same_tree by blast
next
  case (close_f st f r st')
  then show ?case using booted_same_tree close_same_tree by blast
next
  case (read_f st f b len bs r st')
  then show ?case using booted_same_tree read_same_tree by blast
next
  case (write_f st f buf len r st')
  then show ?case using write_booted by blast
qed


text \<open>
  A read of the initrd moves the offset of the file, and \<open>vfs_read\<close> moves it again by the same amount.
\<close>
lemma strip_read_advances_twice:
  assumes f: "open_files st a = Some f" "f_inode f = Some i" and i: "inodes st i = Some node" "f_ops node = Some Strip_fops"
    and run: "vfs_read (Some a) False len st = Done (Some (bs, r, st'))" and r: "0 < r"
  shows "\<exists>f'. open_files st' a = Some f' \<and> f_offset f' = f_offset f + 2 * of_int r"
proof -
  obtain st1 where st1: "stripfs_file_read a False len (f_offset f) st = Done (bs, r, st1)" "advance a r st1 = Done st'"
    using run f i by (auto simp: vfs_read_def get_f_def get_i_def read_op_def bind_oc_eq_Done)
  obtain k where k: "r = sint k" "st1 = set_f a (f\<lparr>f_offset := f_offset f + k\<rparr>) st"
    using st1(1) f i r
    by (cases "i_private node")
      (auto simp: stripfs_file_read_def get_f_def get_i_def Let_def split: option.split_asm if_split_asm)
  then have "st' = set_f a (f\<lparr>f_offset := f_offset f + k + of_int r\<rparr>) st1"
    using st1(2) r by (simp add: advance_def get_f_def set_f_def)
  then show ?thesis using k by (simp add: set_f_def)
qed

section \<open>A volume with a directory for the devices\<close>

definition demo_disk :: disk where
  "demo_disk l = (if l = 2112 then put_bytes (replicate 512 0) 0 (mk_dir_slot (format_83_name (tl dev_path)) 0x10 5) else replicate 512 0)"
definition demo_dev_vol :: fatfs where
  "demo_dev_vol = demo_volume\<lparr>fat_start_lba := 2080, data_start_lba := 2112, disk := demo_disk\<rparr>"
definition demo_fat_root :: inode where
  "demo_fat_root = zero_inode\<lparr>ino := 2, i_type := FT_DIR, is_directory := 1, f_ops := Some Fat32_file_ops, i_ops := Some Fat32_inode_ops\<rparr>"

lemma demo_init: "fat32_init (\<lambda>_. Some demo_boot) (demo_volume\<lparr>disk := demo_disk\<rparr>) 2048 = (demo_dev_vol, True)"
proof -
  have b: "bpb_reserved_sectors demo_boot = 32" "bpb_fat_count demo_boot = 2" "bpb_fat_size_32 demo_boot = 16"
    "bpb_boot_signature demo_boot = 0x29" "bpb_sectors_per_cluster demo_boot = 1" "bpb_root_cluster demo_boot = 2" by code_simp+
  then show ?thesis by (simp add: fat32_init_def b Let_def demo_dev_vol_def demo_volume_def)
qed

abbreviation dev_name83 :: "u8 list" where "dev_name83 \<equiv> format_83_name (tl dev_path)"
definition demo_slot :: "u8 list" where "demo_slot = mk_dir_slot dev_name83 0x10 5"
lemma demo_slot_len: "length demo_slot = 32" by code_simp
lemma demo_visit: "\<exists>acc hl. find_visit dev_name83 (tl dev_path) 2112 0 demo_slot fresh_accum = Stop (Found 2112 0 demo_slot acc hl)"
proof -
  have f: "demo_slot ! 0 \<noteq> 0" "demo_slot ! 0 \<noteq> 0xE5" "d_attributes demo_slot \<noteq> FAT_ATTR_LFN"
    "compare_name_83 (d_name demo_slot) dev_name83" by code_simp+
  then obtain acc ln where "lfn_feed_entry fresh_accum demo_slot 2112 (of_nat 0) = Some (acc, ln)"
    using feed_fits [OF fresh_fits, of demo_slot 2112 "of_nat 0"] by (auto simp: lfn_fits_def)
  then show ?thesis using f by (simp add: find_visit_def)
qed
lemma demo_lookup: "fat32_vfs_lookup demo_dev_vol (Some demo_fat_root) (tl dev_path) =
   Some (demo_dev_vol, Some (inode_of_slot 2112 0 demo_slot))"
proof -
  have g: "cluster_to_lba demo_dev_vol 2 = 2112" "sectors_per_cluster demo_dev_vol = 1" by (simp_all add: demo_dev_vol_def demo_volume_def cluster_to_lba_def)
  have r: "slice_at (disk_read (disk demo_dev_vol) 2112) 0 32 = demo_slot"
    using demo_slot_len by (simp add: demo_dev_vol_def disk_read_def lba28_def demo_disk_def slice_put_same flip: demo_slot_def)
  have u: "[0..<16] = 0 # [1..<16::nat]" by (simp add: upt_rec)
  obtain acc hl where v: "find_visit dev_name83 (tl dev_path) 2112 0 demo_slot fresh_accum = Stop (Found 2112 0 demo_slot acc hl)"
    using demo_visit by blast
  show ?thesis
    by (simp add: fat32_vfs_lookup_def demo_fat_root_def scan_chain.simps [of _ _ _ 2] scan_cluster_def scan_sector_def g r u v FAT32_EOC_MARKER_def)
qed

text \<open>The state after booting from that volume.\<close>
definition demo_root_sb :: superblock where
  "demo_root_sb = \<lparr>fs_type = [0x66, 0x61, 0x74, 0x33, 0x32], sb_root = Some FAT_ROOT\<rparr>"

definition demo_dev_mount :: vfs_mount_entry where
  "demo_dev_mount = \<lparr>mnt_sb = \<lparr>fs_type = [0x64, 0x65, 0x76, 0x66, 0x73], sb_root = Some DEVFS_ROOT\<rparr>, mount_point = dev_path\<rparr>"

definition demo_vfs :: vfs where
  "demo_vfs = (boot_vfs demo_dev_vol demo_console (\<lambda>_. True) (\<lambda>_. True))
     \<lparr>dentries :=
        [0 \<mapsto> zero_dentry\<lparr>dn_name := [slash], d_inode := Some 0, d_children := [6]\<rparr>,
         1 \<mapsto> zero_dentry\<lparr>dn_name := tl dev_path, d_inode := Some 1, d_parent := Some 0\<rparr>,
         6 \<mapsto> zero_dentry\<lparr>dn_name := tl dev_path, d_inode := Some 4, d_parent := Some 0, mounted_here := Some demo_dev_mount\<rparr>],
      inodes :=
        [0 \<mapsto> demo_fat_root,
         1 \<mapsto> zero_inode\<lparr>ino := 1, i_type := FT_DIR, is_directory := 1, i_ops := Some Devfs_dir_iops, i_private := PDentry 1\<rparr>,
         4 \<mapsto> inode_of_slot 2112 0 demo_slot],
      mounts := [demo_dev_mount, \<lparr>mnt_sb = demo_root_sb, mount_point = [slash]\<rparr>], root_superblock := Some demo_root_sb, next_id := 7\<rparr>"

definition demo_mounted :: vfs where
  "demo_mounted = (boot_vfs demo_dev_vol demo_console (\<lambda>_. True) (\<lambda>_. True))
     \<lparr>dentries := [0 \<mapsto> zero_dentry\<lparr>dn_name := [slash], d_inode := Some 0\<rparr>, 1 \<mapsto> zero_dentry],
      inodes := [0 \<mapsto> demo_fat_root, 1 \<mapsto> zero_inode],
      mounts := [\<lparr>mnt_sb = demo_root_sb, mount_point = [slash]\<rparr>], root_superblock := Some demo_root_sb, next_id := 3\<rparr>"

lemma dev_path_parts:
  "path_copy dev_path = dev_path" "rfind_slash dev_path 4 = Some 0" "length dev_path = 4" "tokens {slash} dev_path = [tl dev_path]"
  "tl dev_path \<noteq> dot" "tl dev_path \<noteq> dotdot" "copy_name (tl dev_path) = tl dev_path" "copy_name dev_path = dev_path"
  "dev_path \<noteq> [slash]" "dev_path \<noteq> []" "tl dev_path \<noteq> []" "drop (Suc 0) dev_path = tl dev_path" "hd dev_path = slash"
  by code_simp+

lemma demo_mount_root:
  "fat32_mount_root (\<lambda>_. Some demo_boot) 2048 (boot_vfs (demo_volume\<lparr>disk := demo_disk\<rparr>) demo_console (\<lambda>_. True) (\<lambda>_. True)) =
   Done (0, demo_mounted)"
proof -
  have c: "copy_name [slash] = [slash]" by (simp add: copy_name_def NAME_MAX_def)
  have v: "root_dir_cluster demo_dev_vol = 2" by (simp add: demo_dev_vol_def demo_volume_def)
  show ?thesis
    by (simp add: fat32_mount_root_def boot_vfs_def demo_init v Let_def vfs_mount_def new_page_def set_d_def set_i_def c
        demo_mounted_def demo_root_sb_def FAT_ROOT_def DEVFS_ROOT_def demo_fat_root_def zero_inode_def fun_upd_twist)
qed

text \<open>The lookup of the root directory in the state \<open>st\<close>.\<close>
lemma demo_lookup_op:
  assumes "inodes st 0 = Some demo_fat_root" and "volume st = demo_dev_vol" and "kmalloc_ok st = (\<lambda>_. True)"
  shows "vfs_lookup (Some 0) (tl dev_path) st =
    Done (0, Some (next_id st), set_i (next_id st) (inode_of_slot 2112 0 demo_slot) (st\<lparr>next_id := next_id st + 2\<rparr>))"
proof -
  have vv: "st\<lparr>volume := demo_dev_vol, next_id := n\<rparr> = st\<lparr>next_id := n\<rparr>" for n using assms(2) by (cases st) simp
  have "is_directory demo_fat_root = 1" "i_ops demo_fat_root = Some Fat32_inode_ops" by (simp_all add: demo_fat_root_def)
  then show ?thesis using assms(1,3) demo_lookup
    by (simp add: vfs_lookup_def lookup_op_def fat32_lookup_inode_def get_i_def kmalloc_def assms(2) vv)
qed

lemma demo_devfs_init: "devfs_init demo_mounted = Done (0, demo_vfs)"
proof -
  let ?s = "static_vfs demo_mounted"
  have root: "vfs_get_root_dentry ?s = Some 0"
    by (simp add: static_vfs_def demo_mounted_def set_d_def set_i_def vfs_get_root_dentry_def demo_root_sb_def FAT_ROOT_def)
  have fields: "dentries ?s = [0 \<mapsto> zero_dentry\<lparr>dn_name := [slash], d_inode := Some 0\<rparr>, 1 \<mapsto> zero_dentry\<lparr>dn_name := tl dev_path, d_inode := Some 1\<rparr>]"
    "inodes ?s 0 = Some demo_fat_root" "volume ?s = demo_dev_vol" "kmalloc_ok ?s = (\<lambda>_. True)" "page_ok ?s = (\<lambda>_. True)" "next_id ?s = 3"
    by (simp_all add: static_vfs_def demo_mounted_def set_d_def set_i_def boot_vfs_def DEVFS_ROOT_def)
  have "i_ops demo_fat_root = Some Fat32_inode_ops" "i_type demo_fat_root = FT_DIR" by (simp_all add: demo_fat_root_def)
  moreover have "?s\<lparr>volume := demo_dev_vol\<rparr> = ?s" using fields(3) by (cases ?s) simp
  ultimately have mk: "vfs_mkdir (Some dev_path) ?s = Done (-1, ?s)"
    using root fields demo_lookup dev_path_parts
    by (simp add: vfs_mkdir_def trailing_slash_def parent_and_name_def Let_def parent_inode_def get_d_def get_i_def fat32_vfs_mkdir_def)
  let ?m = demo_dev_mount and ?s4 = "?s\<lparr>next_id := 4, mounts := demo_dev_mount # mounts ?s\<rparr>"
  let ?C = "zero_dentry\<lparr>dn_name := tl dev_path, d_inode := Some 4, d_parent := Some 0\<rparr>"
  let ?s7 = "set_d 0 (zero_dentry\<lparr>dn_name := [slash], d_inode := Some 0, d_children := [6]\<rparr>) (set_d 6 ?C
      (set_i 4 (inode_of_slot 2112 0 demo_slot) ?s4\<lparr>next_id := 7\<rparr>))"
  have look: "vfs_lookup (Some 0) (tl dev_path) ?s4 = Done (0, Some 4, set_i 4 (inode_of_slot 2112 0 demo_slot) ?s4\<lparr>next_id := 6\<rparr>)"
    using demo_lookup_op [of ?s4] fields by (simp add: set_i_def)
  have cache: "cache_child 0 (zero_dentry\<lparr>dn_name := [slash], d_inode := Some 0\<rparr>) (tl dev_path) ?s4 = Done (Some 6, ?s7)"
    using look fields dev_path_parts(7)
    by (simp add: cache_child_def zero_dentry_def new_page_def add_child_def set_d_def set_i_def get_d_def)
  have "walk [tl dev_path] (Some 0) ?s4 = Done (Some 6, ?s7)"
    using cache fields dev_path_parts
    by (simp add: deref_def get_d_def is_dir_def get_i_def demo_fat_root_def zero_dentry_def cross_mount_def set_d_def)
  then have walk: "vfs_get_dentry (Some dev_path) ?s4 = Done (Some 6, ?s7)"
    using root dev_path_parts by (simp add: vfs_get_dentry_def vfs_get_root_dentry_def)
  have "devfs_init demo_mounted = vfs_mount (Some (mnt_sb demo_dev_mount)) (Some dev_path) ?s"
    using mk by (simp add: devfs_init_def Let_def demo_dev_mount_def flip: static_vfs_def)
  also have "\<dots> = Done (0, demo_vfs)"
    using walk fields dev_path_parts
    by (simp add: vfs_mount_def new_page_def demo_dev_mount_def Let_def get_d_def deref_def set_d_def DEVFS_ROOT_def)
      (simp add: demo_vfs_def static_vfs_def demo_mounted_def set_i_def set_d_def DEVFS_ROOT_def zero_dentry_def fun_upd_twist demo_dev_mount_def boot_vfs_def)
  finally show ?thesis .
qed

lemma demo_run: "vfs_run (demo_vfs\<lparr>task_cwd := Some None\<rparr>)"
  using vfs_run.task [OF vfs_run.boot [OF demo_mount_root demo_devfs_init], of "Some None"] by simp

lemma demo_get_dentry: "vfs_get_dentry (Some dev_path) (demo_vfs\<lparr>task_cwd := Some None\<rparr>) = Done (Some 1, demo_vfs\<lparr>task_cwd := Some None\<rparr>)"
proof -
  have f: "vfs_get_root_dentry (demo_vfs\<lparr>task_cwd := Some None\<rparr>) = Some 0"
    by (simp add: demo_vfs_def vfs_get_root_dentry_def demo_root_sb_def FAT_ROOT_def)
  have "walk [tl dev_path] (Some 0) (demo_vfs\<lparr>task_cwd := Some None\<rparr>) = Done (Some 1, demo_vfs\<lparr>task_cwd := Some None\<rparr>)"
    using dev_path_parts
    by (simp add: demo_vfs_def deref_def get_d_def is_dir_def get_i_def demo_fat_root_def zero_dentry_def cross_mount_def
        demo_dev_mount_def DEVFS_ROOT_def)
  then show ?thesis using f dev_path_parts by (simp add: vfs_get_dentry_def)
qed

lemma demo_chdir: "vfs_chdir (Some dev_path) (demo_vfs\<lparr>task_cwd := Some None\<rparr>) = Done (0, demo_vfs\<lparr>task_cwd := Some (Some 1)\<rparr>)"
  using demo_get_dentry
  by (simp add: vfs_chdir_def) (simp add: demo_vfs_def get_d_def get_i_def deref_def zero_dentry_def)



text \<open>
  C34. After a successful \<open>chdir\<close>, \<open>getcwd\<close> gives an absolute path, made of the names from the root down, whenever
  it fits into the buffer and into a path, and \<open>chdir\<close> to that path stays in the same directory, across
  mount points and without asking a driver.
\<close>
theorem chdir_getcwd_roundtrip:
  assumes "vfs_run st" and "short_path path" and "vfs_chdir (Some path) st = Done (0, st1)"
  shows "\<exists>ns. list_all name_ok ns \<and>
    (\<forall>len. vfs_getcwd False len st1 =
       Done (if len \<noteq> 0 \<and> length (path_string ns) \<le> 4095 \<and> length (path_string ns) < unat len then (0, path_string ns @ [0]) else (-1, []))) \<and>
    (length (path_string ns) \<le> 4095 \<longrightarrow> vfs_chdir (Some (path_string ns)) st1 = Done (0, st1))"
proof -
  have r1: "vfs_run st1" by (rule vfs_run.chdir [OF assms])
  have ok: "vfs_ok st" "memory_ok st" "vfs_ok st1" using vfs_run_booted [OF assms(1)] vfs_run_booted [OF r1] by (auto simp: booted_def)
  obtain a D where a: "task_cwd st1 = Some (Some a)" "dentries st1 a = Some D" "is_dir_inode (inodes st1) (d_inode D)"
    using vfs_chdir_safe [OF ok(1,2) assms(2)] assms(3) by auto
  then obtain i I where i: "d_inode D = Some i" "inodes st1 i = Some I" "is_directory I \<noteq> 0" by (auto simp: is_dir_inode_def)
  obtain ns where ns: "list_all name_ok ns"
    "\<forall>len. vfs_getcwd False len st1 =
       Done (if len \<noteq> 0 \<and> length (path_string ns) \<le> 4095 \<and> length (path_string ns) < unat len then (0, path_string ns @ [0]) else (-1, []))"
    "length (path_string ns) \<le> 4095 \<longrightarrow> vfs_get_dentry (Some (path_string ns)) st1 = Done (Some a, st1)"
    using getcwd_path [OF ok(3) a(1)] by blast
  have same: "st1\<lparr>task_cwd := Some (Some a)\<rparr> = st1" using a(1) by (cases st1) simp
  then have "vfs_chdir (Some (path_string ns)) st1 = Done (0, st1)" if "length (path_string ns) \<le> 4095"
    using that ns(3) a i by (simp add: vfs_chdir_def get_d_def get_i_def deref_def)
  then show ?thesis using ns(1,2) by blast
qed

theorem chdir_getcwd_roundtrip_witness:
  "vfs_getcwd False 100 (demo_vfs\<lparr>task_cwd := Some (Some 1)\<rparr>) = Done (0, dev_path @ [0]) \<and>
   (\<exists>p. vfs_chdir (Some p) (demo_vfs\<lparr>task_cwd := Some (Some 1)\<rparr>) = Done (0, demo_vfs\<lparr>task_cwd := Some (Some 1)\<rparr>) \<and> p = dev_path)"
proof -
  let ?t = "demo_vfs\<lparr>task_cwd := Some (Some 1)\<rparr>"
  have g: "vfs_getcwd False 100 ?t = Done (0, dev_path @ [0])"
    by (simp add: vfs_getcwd_def demo_vfs_def getcwd_loop.simps get_d_def zero_dentry_def PATH_MAX_def dev_path_def slash_def Let_def)
  obtain ns where ns: "vfs_getcwd False 100 ?t =
       Done (if (100 :: u64) \<noteq> 0 \<and> length (path_string ns) \<le> 4095 \<and> length (path_string ns) < unat (100 :: u64) then (0, path_string ns @ [0]) else (-1, []))"
    "length (path_string ns) \<le> 4095 \<longrightarrow> vfs_chdir (Some (path_string ns)) ?t = Done (0, ?t)"
    using chdir_getcwd_roundtrip [OF demo_run dev_path_ok(2) demo_chdir] by blast
  then have "path_string ns = dev_path" using g by (simp split: if_splits)
  then show ?thesis using g ns(2) by (simp add: dev_path_def)
qed

end
