(* ===== verification/Tasks.thy ===== *)
theory Tasks
  imports Vmm VfsHeap
begin

text \<open>
  Tasks and the list they are in (\<open>src/src/include/kernel/sched/scheduler.h\<close>,
  \<open>src/src/kernel/sched/scheduler.c\<close>).  A pointer to a task is its address, null is 0, and a map holds the
  tasks that are alive; an access through another pointer is \<open>Wild\<close>.  The list is linked through \<open>next\<close>
  into a ring, as in C, and its loops follow the pointers; a loop that never comes back to the first
  task is \<open>None\<close> and becomes \<open>Halts\<close>.

  The kernel's state \<open>kernel\<close> joins the static variables of the scheduler with the memory of \<open>Vmm\<close>, the
  virtual file system, the tick counter and the stack pointer in the task state segment.

  The lemmas describe the loops on a ring that is given as the list of its tasks.
\<close>

section \<open>Data\<close>

record regs =
  reg_r15 :: u64
  reg_r14 :: u64
  reg_r13 :: u64
  reg_r12 :: u64
  reg_r11 :: u64
  reg_r10 :: u64
  reg_r9 :: u64
  reg_r8 :: u64
  reg_rbp :: u64
  reg_rdi :: u64
  reg_rsi :: u64
  reg_rdx :: u64
  reg_rcx :: u64
  reg_rbx :: u64
  reg_rax :: u64
  reg_int_no :: u64
  reg_err_code :: u64
  reg_rip :: u64
  reg_cs :: u64
  reg_rflags :: u64
  reg_rsp :: u64
  reg_ss :: u64

datatype task_state = TASK_RUNNABLE | TASK_RUNNING | TASK_BLOCKED | TASK_ZOMBIE

definition MAX_FDS :: nat where "MAX_FDS = 16"

record task =
  t_next :: u64
  t_state :: task_state
  t_regs :: regs
  stack_base :: u64
  stack_pages :: u64
  task_id :: u32
  wake_tick :: u64
  parent_id :: u32
  exit_status :: u32
  t_cr3 :: u64
  brk_start :: u64
  brk_current :: u64
  is_usermode :: u8
  user_code :: u64
  user_stack :: u64
  user_code_pages :: u64
  mmap_base :: u64
  fd_table :: "nat option list"
  t_cwd :: "nat option"

text \<open>
  \<open>task_memory\<close> holds what \<open>kmalloc\<close> returns for the next tasks, 0 where it has no memory; behind its end
  there is none.  \<open>syscall_regs\<close> are the registers that \<open>current_syscall_regs\<close> points to.
\<close>
record kernel =
  tasks :: "u64 \<rightharpoonup> task"
  task_list :: u64
  current :: u64
  next_task_id :: u32
  pit_ticks :: u64
  rsp0 :: u64
  hz :: u16
  tty_initialized :: bool
  kvm :: vm
  kvfs :: vfs
  task_memory :: "u64 list"
  syscall_regs :: "regs option"

definition zero_regs :: regs where
  "zero_regs = \<lparr>reg_r15 = 0, reg_r14 = 0, reg_r13 = 0, reg_r12 = 0, reg_r11 = 0, reg_r10 = 0, reg_r9 = 0, reg_r8 = 0,
     reg_rbp = 0, reg_rdi = 0, reg_rsi = 0, reg_rdx = 0, reg_rcx = 0, reg_rbx = 0, reg_rax = 0, reg_int_no = 0,
     reg_err_code = 0, reg_rip = 0, reg_cs = 0, reg_rflags = 0, reg_rsp = 0, reg_ss = 0\<rparr>"

text \<open>A task of zero bytes.\<close>
definition zero_task :: task where
  "zero_task = \<lparr>t_next = 0, t_state = TASK_RUNNABLE, t_regs = zero_regs, stack_base = 0, stack_pages = 0, task_id = 0,
     wake_tick = 0, parent_id = 0, exit_status = 0, t_cr3 = 0, brk_start = 0, brk_current = 0, is_usermode = 0,
     user_code = 0, user_stack = 0, user_code_pages = 0, mmap_base = 0, fd_table = replicate MAX_FDS None, t_cwd = None\<rparr>"

section \<open>Access\<close>

definition get_t :: "u64 \<Rightarrow> kernel \<Rightarrow> task outcome" where
  "get_t t k = (if t = 0 then Wild else case tasks k t of None \<Rightarrow> Wild | Some tk \<Rightarrow> Done tk)"

definition set_t :: "u64 \<Rightarrow> task \<Rightarrow> kernel \<Rightarrow> kernel" where
  "set_t t tk k = k\<lparr>tasks := (tasks k)(t \<mapsto> tk)\<rparr>"

definition update_t :: "u64 \<Rightarrow> (task \<Rightarrow> task) \<Rightarrow> kernel \<Rightarrow> kernel outcome" where
  "update_t t f k = bind_oc (get_t t k) (\<lambda>tk. Done (set_t t (f tk) k))"

section \<open>The task list\<close>

definition init_scheduler :: "kernel \<Rightarrow> kernel" where
  "init_scheduler k = k\<lparr>task_list := 0, current := 0\<rparr>"

definition get_current_task :: "kernel \<Rightarrow> u64" where
  "get_current_task k = current k"

partial_function (option) find_loop :: "kernel \<Rightarrow> u32 \<Rightarrow> u64 \<Rightarrow> u64 outcome option" where
  "find_loop k i t =
     (case get_t t k of
        Done tk \<Rightarrow> if task_id tk = i then Some (Done t)
          else if t_next tk = task_list k then Some (Done 0) else find_loop k i (t_next tk)
      | _ \<Rightarrow> Some Wild)"

definition find_task_by_id :: "u32 \<Rightarrow> kernel \<Rightarrow> u64 outcome" where
  "find_task_by_id i k = (if task_list k = 0 then Done 0 else run_oc (find_loop k i (task_list k)))"

text \<open>The task before \<open>stop\<close>, from \<open>t\<close> on.\<close>
partial_function (option) pred_loop :: "kernel \<Rightarrow> u64 \<Rightarrow> u64 \<Rightarrow> u64 outcome option" where
  "pred_loop k stop t =
     (case get_t t k of
        Done tk \<Rightarrow> if t_next tk \<noteq> stop then pred_loop k stop (t_next tk) else Some (Done t)
      | _ \<Rightarrow> Some Wild)"

definition task_enqueue :: "u64 \<Rightarrow> kernel \<Rightarrow> kernel outcome" where
  "task_enqueue t k =
     (if task_list k = 0 then update_t t (\<lambda>tk. tk\<lparr>t_next := t\<rparr>) (k\<lparr>task_list := t\<rparr>)
      else
        bind_oc (run_oc (pred_loop k (task_list k) (task_list k))) (\<lambda>tail.
          bind_oc (update_t tail (\<lambda>tk. tk\<lparr>t_next := t\<rparr>) k) (\<lambda>k.
            update_t t (\<lambda>tk. tk\<lparr>t_next := task_list k\<rparr>) k)))"

text \<open>Taking a task out of the list, as \<open>sys_waitpid\<close> does it.\<close>
definition task_unlink :: "u64 \<Rightarrow> kernel \<Rightarrow> kernel outcome" where
  "task_unlink child k =
     bind_oc (get_t child k) (\<lambda>c.
       if child = task_list k then
         if t_next c = child then Done (k\<lparr>task_list := 0\<rparr>)
         else
           let k = k\<lparr>task_list := t_next c\<rparr>
           in bind_oc (run_oc (pred_loop k child (task_list k))) (\<lambda>tail.
                update_t tail (\<lambda>tk. tk\<lparr>t_next := task_list k\<rparr>) k)
       else
         bind_oc (run_oc (pred_loop k child (task_list k))) (\<lambda>prev.
           update_t prev (\<lambda>tk. tk\<lparr>t_next := t_next c\<rparr>) k))"

section \<open>Rings\<close>

text \<open>\<open>chain ns a xs b\<close>: following \<open>next\<close> from \<open>a\<close> visits \<open>xs\<close> and ends before \<open>b\<close>.\<close>
fun chain :: "(u64 \<rightharpoonup> task) \<Rightarrow> u64 \<Rightarrow> u64 list \<Rightarrow> u64 \<Rightarrow> bool" where
  "chain m a [] b \<longleftrightarrow> a = b"
| "chain m a (x # xs) b \<longleftrightarrow> a = x \<and> x \<noteq> 0 \<and> (\<exists>tk. m x = Some tk \<and> chain m (t_next tk) xs b)"

definition ring :: "kernel \<Rightarrow> u64 list \<Rightarrow> bool" where
  "ring k xs \<longleftrightarrow> distinct xs \<and> (if xs = [] then task_list k = 0 else chain (tasks k) (task_list k) xs (task_list k))"

lemma chain_append [simp]: "chain m a (xs @ ys) b \<longleftrightarrow> (\<exists>c. chain m a xs c \<and> chain m c ys b)"
  by (induction xs arbitrary: a) auto

lemma chain_cong: "(\<And>x. x \<in> set xs \<Longrightarrow> map_option t_next (m' x) = map_option t_next (m x)) \<Longrightarrow> chain m' a xs b = chain m a xs b"
proof (induction xs arbitrary: a)
  case (Cons x xs)
  have "map_option t_next (m' x) = map_option t_next (m x)" using Cons.prems by simp
  then have "(\<exists>tk. m' x = Some tk \<and> chain m' (t_next tk) xs b) \<longleftrightarrow> (\<exists>tk. m x = Some tk \<and> chain m (t_next tk) xs b)"
    using Cons by (cases "m' x"; cases "m x") auto
  then show ?case by auto
qed simp

lemma chain_alive: "chain m a xs b \<Longrightarrow> x \<in> set xs \<Longrightarrow> x \<noteq> 0 \<and> (\<exists>tk. m x = Some tk)"
  by (induction xs arbitrary: a) auto

lemma get_t_alive: "t \<noteq> 0 \<Longrightarrow> tasks k t = Some tk \<Longrightarrow> get_t t k = Done tk"
  by (simp add: get_t_def)

lemma ring_Cons: "ring k (x # xs) \<longleftrightarrow> distinct (x # xs) \<and> task_list k = x \<and> chain (tasks k) x (x # xs) x"
  by (auto simp: ring_def)

lemma pred_loop_chain:
  "chain (tasks k) a (xs @ [x]) stop \<Longrightarrow> stop \<notin> set (tl (xs @ [x])) \<Longrightarrow> pred_loop k stop a = Some (Done x)"
proof (induction xs arbitrary: a)
  case Nil
  then show ?case by (subst pred_loop.simps) (auto simp: get_t_alive)
next
  case (Cons y ys)
  then obtain tk where tk: "a = y" "y \<noteq> 0" "tasks k y = Some tk" "chain (tasks k) (t_next tk) (ys @ [x]) stop" by auto
  have "t_next tk \<noteq> stop" using tk(4) Cons.prems(2) by (cases ys) auto
  moreover have "stop \<notin> set (tl (ys @ [x]))" using Cons.prems(2) by (cases ys) auto
  ultimately show ?case using Cons.IH [OF tk(4)] tk by (subst pred_loop.simps) (simp add: get_t_alive)
qed

text \<open>The search goes through the whole list.\<close>

lemma find_loop_chain:
  "chain (tasks k) a (xs @ [x]) (task_list k) \<Longrightarrow> task_list k \<notin> set (tl (xs @ [x])) \<Longrightarrow>
   find_loop k i a = Some (Done (case find (\<lambda>t. task_id (the (tasks k t)) = i) (xs @ [x]) of None \<Rightarrow> 0 | Some t \<Rightarrow> t))"
proof (induction xs arbitrary: a)
  case Nil
  then show ?case by (subst find_loop.simps) (auto simp: get_t_alive)
next
  case (Cons y ys)
  then obtain tk where tk: "a = y" "y \<noteq> 0" "tasks k y = Some tk" "chain (tasks k) (t_next tk) (ys @ [x]) (task_list k)" by auto
  have "t_next tk \<noteq> task_list k" using tk(4) Cons.prems(2) by (cases ys) auto
  moreover have "task_list k \<notin> set (tl (ys @ [x]))" using Cons.prems(2) by (cases ys) auto
  ultimately show ?case using Cons.IH [OF tk(4)] tk by (subst find_loop.simps) (simp add: get_t_alive)
qed

lemma find_task_by_id_ring:
  assumes "ring k xs"
  shows "find_task_by_id i k = Done (case find (\<lambda>t. task_id (the (tasks k t)) = i) xs of None \<Rightarrow> 0 | Some t \<Rightarrow> t)"
proof (cases xs rule: rev_cases)
  case Nil
  then show ?thesis using assms by (simp add: ring_def find_task_by_id_def)
next
  case (snoc ys y)
  have c: "chain (tasks k) (task_list k) (ys @ [y]) (task_list k)" and d: "distinct (ys @ [y])"
    using assms snoc by (auto simp: ring_def)
  have "task_list k = hd (ys @ [y])" using c by (cases ys) auto
  then have "task_list k \<notin> set (tl (ys @ [y]))" using d by (cases ys) auto
  moreover have "task_list k \<noteq> 0" using c by (cases ys) auto
  ultimately show ?thesis using find_loop_chain [OF c] snoc by (simp add: find_task_by_id_def run_oc_def)
qed


lemma ringD:
  assumes "ring k (as @ c # bs)"
  shows "\<exists>tc. c \<noteq> 0 \<and> tasks k c = Some tc \<and> chain (tasks k) (t_next tc) (bs @ as) c"
    and "task_list k \<noteq> 0" and "distinct (as @ c # bs)"
  using assms by (cases as; force simp: ring_def)+

lemma ring_alive: "ring k xs \<Longrightarrow> x \<in> set xs \<Longrightarrow> x \<noteq> 0 \<and> (\<exists>tk. tasks k x = Some tk)"
  using chain_alive unfolding ring_def by (metis empty_iff empty_set)

text \<open>
  States that differ only in the links between tasks: the fields of every task except \<open>next\<close> are the
  same, and so is the rest of the kernel.
\<close>
definition relinked :: "kernel \<Rightarrow> kernel \<Rightarrow> bool" where
  "relinked k k' \<longleftrightarrow> k' = k\<lparr>tasks := tasks k', task_list := task_list k'\<rparr> \<and>
     (\<forall>x. map_option (t_next_update (\<lambda>_. 0)) (tasks k' x) = map_option (t_next_update (\<lambda>_. 0)) (tasks k x))"

lemma relinked_get: "relinked k k' \<Longrightarrow> tasks k x = Some tk \<Longrightarrow> \<exists>n. tasks k' x = Some (tk\<lparr>t_next := n\<rparr>)"
proof -
  assume "relinked k k'" "tasks k x = Some tk"
  then have "map_option (t_next_update (\<lambda>_. 0)) (tasks k' x) = Some (tk\<lparr>t_next := 0\<rparr>)"
    unfolding relinked_def by (metis option.simps(9))
  then obtain tk' where t: "tasks k' x = Some tk'" "tk'\<lparr>t_next := 0\<rparr> = tk\<lparr>t_next := 0\<rparr>" by auto
  have "tk' = tk'\<lparr>t_next := 0, t_next := t_next tk'\<rparr>" by simp
  also have "\<dots> = tk\<lparr>t_next := t_next tk'\<rparr>" unfolding t(2) by simp
  finally have e: "tk' = tk\<lparr>t_next := t_next tk'\<rparr>" .
  show ?thesis by (rule exI [of _ "t_next tk'"]) (simp add: t(1) e [symmetric])
qed

lemma update_t_alive: "t \<noteq> 0 \<Longrightarrow> tasks k t = Some tk \<Longrightarrow> update_t t f k = Done (set_t t (f tk) k)"
  by (simp add: update_t_def get_t_alive)

lemma set_t_simps [simp]:
  "tasks (set_t t tk k) = (tasks k)(t \<mapsto> tk)" "task_list (set_t t tk k) = task_list k"
  "current (set_t t tk k) = current k" "pit_ticks (set_t t tk k) = pit_ticks k" "kvm (set_t t tk k) = kvm k"
  "kvfs (set_t t tk k) = kvfs k" "rsp0 (set_t t tk k) = rsp0 k" "next_task_id (set_t t tk k) = next_task_id k" "hz (set_t t tk k) = hz k" "tty_initialized (set_t t tk k) = tty_initialized k"
  "task_memory (set_t t tk k) = task_memory k" "syscall_regs (set_t t tk k) = syscall_regs k"
  by (simp_all add: set_t_def)

text \<open>A state update that keeps the links keeps the ring.\<close>
lemma ring_cong: "task_list k' = task_list k \<Longrightarrow>
    (\<And>x. x \<in> set xs \<Longrightarrow> map_option t_next (tasks k' x) = map_option t_next (tasks k x)) \<Longrightarrow> ring k' xs = ring k xs"
  using chain_cong [of xs "tasks k'" "tasks k"] by (auto simp: ring_def)

text \<open>Adding a task appends it to the ring.\<close>

lemma task_enqueue_ring:
  assumes r: "ring k xs" and t: "t \<notin> set xs" "t \<noteq> 0" "tasks k t = Some tk"
  shows "\<exists>k'. task_enqueue t k = Done k' \<and> ring k' (xs @ [t]) \<and> relinked k k'"
proof (cases xs rule: rev_cases)
  case Nil
  then show ?thesis using r t by (auto simp: ring_def task_enqueue_def update_t_alive relinked_def set_t_def)
next
  case (snoc ys y)
  have c: "chain (tasks k) (task_list k) ys y" and y: "y \<noteq> 0" "\<exists>ty. tasks k y = Some ty \<and> t_next ty = task_list k"
      and d: "distinct (ys @ [y])"
    using r snoc by (auto simp: ring_def)
  obtain ty where ty: "tasks k y = Some ty" "t_next ty = task_list k" using y by blast
  have l: "task_list k = hd (ys @ [y])" using c by (cases ys) auto
  then have l': "task_list k \<notin> set (tl (ys @ [y]))" using d by (cases ys) auto
  have l0: "task_list k \<noteq> 0" using c y by (cases ys) auto
  have p: "pred_loop k (task_list k) (task_list k) = Some (Done y)"
    by (rule pred_loop_chain [OF _ l']) (use c y ty in auto)
  let ?k = "set_t t (tk\<lparr>t_next := task_list k\<rparr>) (set_t y (ty\<lparr>t_next := t\<rparr>) k)"
  have ny: "t \<noteq> y" using t(1) snoc by auto
  have "task_enqueue t k = Done ?k"
    using l0 p y(1) ty(1) t ny by (simp add: task_enqueue_def run_oc_def update_t_alive)
  moreover have "ring ?k (xs @ [t])"
  proof -
    have "chain (tasks ?k) (task_list k) ys y"
      by (subst chain_cong [of ys _ "tasks k"]) (use c d t snoc in auto)
    then show ?thesis using d t snoc y ny by (auto simp: ring_def)
  qed
  moreover have "relinked k ?k"
    unfolding relinked_def using t ty ny by (auto simp: set_t_def)
  ultimately show ?thesis by blast
qed

text \<open>Taking a task out removes it from the ring.\<close>

lemma task_unlink_ring:
  assumes r: "ring k (as @ c # bs)"
  shows "\<exists>k'. task_unlink c k = Done k' \<and> ring k' (as @ bs) \<and> relinked k k'"
proof (cases as)
  case Nil
  obtain tc where tc: "c \<noteq> 0" "tasks k c = Some tc" "chain (tasks k) (t_next tc) bs c" using ringD(1) [OF r] Nil by auto
  have tl: "task_list k = c" and d: "distinct (c # bs)" using r Nil by (auto simp: ring_def)
  show ?thesis
  proof (cases bs rule: rev_cases)
    case Nil
    then show ?thesis using tc tl \<open>as = []\<close> by (auto simp: task_unlink_def get_t_alive ring_def relinked_def)
  next
    case (snoc ds e)
    let ?n = "t_next tc" and ?k = "k\<lparr>task_list := t_next tc\<rparr>"
    have n: "?n = hd bs" using tc(3) snoc by (cases ds) auto
    have nc: "?n \<noteq> c" using d n snoc by (cases ds) auto
    obtain te where te: "e \<noteq> 0" "tasks k e = Some te" "t_next te = c" "chain (tasks k) ?n ds e" using tc(3) snoc by auto
    have "c \<notin> set (tl (ds @ [e]))" using d snoc by (cases ds) auto
    then have p: "pred_loop ?k c ?n = Some (Done e)"
      by (intro pred_loop_chain) (use te in auto)
    let ?k' = "set_t e (te\<lparr>t_next := ?n\<rparr>) ?k"
    have "task_unlink c k = Done ?k'"
      using tc tl nc p te by (simp add: task_unlink_def get_t_alive run_oc_def update_t_alive)
    moreover have "chain (tasks ?k') ?n ds e" by (subst chain_cong [of ds _ "tasks k"]) (use te d snoc in auto)
    then have "ring ?k' (as @ bs)" using \<open>as = []\<close> snoc d te by (auto simp: ring_def)
    moreover have "relinked k ?k'"
      unfolding relinked_def using te by (auto simp: set_t_def)
    ultimately show ?thesis by blast
  qed
next
  case (Cons a as')
  obtain ds e where de: "as = ds @ [e]" using Cons by (metis list.distinct(1) rev_exhaust)
  obtain tc where tc: "c \<noteq> 0" "tasks k c = Some tc" using ringD(1) [OF r] by auto
  have ch: "chain (tasks k) (task_list k) ds e" "e \<noteq> 0" "\<exists>te. tasks k e = Some te \<and> t_next te = c" "chain (tasks k) (t_next tc) bs (task_list k)"
    using r de tc by (auto simp: ring_def)
  then obtain te where te: "tasks k e = Some te" "t_next te = c" by blast
  have d: "distinct (ds @ [e] @ c # bs)" using r de by (auto simp: ring_def)
  have l: "task_list k = hd (ds @ [e])" using ch by (cases ds) auto
  then have lc: "c \<noteq> task_list k" using d by (cases ds) auto
  have "c \<notin> set (tl (ds @ [e]))" using d by (cases ds) auto
  then have p: "pred_loop k c (task_list k) = Some (Done e)"
    by (intro pred_loop_chain) (use ch te in auto)
  let ?k' = "set_t e (te\<lparr>t_next := t_next tc\<rparr>) k"
  have "task_unlink c k = Done ?k'"
    using tc lc p te ch(2) by (simp add: task_unlink_def get_t_alive run_oc_def update_t_alive)
  moreover have "chain (tasks ?k') (task_list k) ds e" "chain (tasks ?k') (t_next tc) bs (task_list k)"
    by (subst chain_cong [of _ _ "tasks k"]; use ch d in auto)+
  then have "ring ?k' (as @ bs)" using de d ch(2) by (auto simp: ring_def)
  moreover have "relinked k ?k'"
    unfolding relinked_def using te by (auto simp: set_t_def)
  ultimately show ?thesis by blast
qed

end
