(* ===== verification/Sched.thy ===== *)
theory Sched
  imports Tasks
begin

text \<open>
  The round-robin scheduler, \<open>src/src/kernel/sched/scheduler.c\<close>, and the timer interrupt that drives it,
  \<open>src/src/drivers/pit.c\<close>.  The registers that the interrupt stub passes by reference are an argument and
  part of the result.  Waiting for an interrupt (\<open>hlt\<close>) in a loop is a \<open>wait\<close>: the operation gives the
  state in which it starts to wait, and \<open>waits\<close> is the condition of its loop.

  The lemmas show which task a tick chooses and what it saves and restores, and that a task that stays
  ready gets the processor after at most as many ticks as there are tasks.
\<close>

section \<open>Operations\<close>

partial_function (option) sweep_loop :: "u64 \<Rightarrow> u64 \<Rightarrow> kernel \<Rightarrow> kernel outcome option" where
  "sweep_loop ticks t k =
     (case get_t t k of
        Done tk \<Rightarrow>
          (let k = (if t_state tk = TASK_BLOCKED \<and> wake_tick tk \<le> ticks then set_t t (tk\<lparr>t_state := TASK_RUNNABLE\<rparr>) k else k)
           in if t_next tk = task_list k then Some (Done k) else sweep_loop ticks (t_next tk) k)
      | _ \<Rightarrow> Some Wild)"

definition sweep_wakeup :: "kernel \<Rightarrow> kernel outcome" where
  "sweep_wakeup k = (if task_list k = 0 then Done k else run_oc (sweep_loop (pit_ticks k) (task_list k) k))"

text \<open>
  The search for the next task: \<open>Some n\<close> leaves the loop with \<open>next = n\<close>, \<open>None\<close> is the return when the
  search came back to the current task.
\<close>
partial_function (option) pick_loop :: "kernel \<Rightarrow> u64 \<Rightarrow> u64 option outcome option" where
  "pick_loop k n =
     (if n = 0 then Some (Done (Some 0))
      else case get_t n k of
        Done tk \<Rightarrow> if t_state tk = TASK_RUNNABLE then Some (Done (Some n))
          else if n = current k then Some (Done None) else pick_loop k (t_next tk)
      | _ \<Rightarrow> Some Wild)"

definition tss_set_kernel_stack :: "u64 \<Rightarrow> kernel \<Rightarrow> kernel" where
  "tss_set_kernel_stack stack k = k\<lparr>rsp0 := stack\<rparr>"

text \<open>The stack and the address space of the task that goes on, if it is a user task.\<close>
definition enter_space :: "task \<Rightarrow> kernel \<Rightarrow> kernel" where
  "enter_space t k =
     (if is_usermode t \<noteq> 0 then
        let kstack_top = stack_base t + stack_pages t * 4096;
            k = tss_set_kernel_stack kstack_top k
        in if t_cr3 t \<noteq> 0 then k\<lparr>kvm := vmm_switch_page_table (t_cr3 t) (kvm k)\<rparr> else k
      else k)"

definition schedule_tick :: "regs \<Rightarrow> kernel \<Rightarrow> (regs \<times> kernel) outcome" where
  "schedule_tick r k =
     (if task_list k = 0 then Done (r, k)
      else bind_oc (sweep_wakeup k) (\<lambda>k.
        if current k = 0 then
          bind_oc (alloc_page (kvm k)) (\<lambda>(main_task, vm).
            let k = k\<lparr>kvm := vm\<rparr>
            in if main_task = 0 then Done (r, k)
               else
                 let k = set_t main_task (zero_task\<lparr>t_state := TASK_RUNNING, t_regs := r\<rparr>)
                           (k\<lparr>kvm := clear_page main_task vm\<rparr>)
                 in bind_oc (task_enqueue main_task k) (\<lambda>k. Done (r, k\<lparr>current := main_task\<rparr>)))
        else
          bind_oc (update_t (current k) (\<lambda>t. t\<lparr>t_regs := r\<rparr>) k) (\<lambda>k.
          bind_oc (update_t (current k) (\<lambda>t. if t_state t = TASK_RUNNING then t\<lparr>t_state := TASK_RUNNABLE\<rparr> else t) k) (\<lambda>k.
          bind_oc (get_t (current k) k) (\<lambda>c.
          bind_oc (run_oc (pick_loop k (t_next c))) (\<lambda>picked.
            case picked of
              None \<Rightarrow> bind_oc (update_t (current k) (\<lambda>t. t\<lparr>t_state := TASK_RUNNING\<rparr>) k) (\<lambda>k. Done (r, k))
            | Some n \<Rightarrow>
                let k = k\<lparr>current := n\<rparr>
                in bind_oc (update_t n (\<lambda>t. t\<lparr>t_state := TASK_RUNNING\<rparr>) k) (\<lambda>k.
                   bind_oc (get_t n k) (\<lambda>t. Done (t_regs t, enter_space t k)))))))))"

text \<open>The timer interrupt.  The division by zero with a frequency below 2 is \<open>Wild\<close>.\<close>
definition pit_handler :: "regs \<Rightarrow> kernel \<Rightarrow> (regs \<times> kernel) outcome" where
  "pit_handler r k =
     bind_oc (schedule_tick r (k\<lparr>pit_ticks := pit_ticks k + 1\<rparr>)) (\<lambda>(r, k).
       if \<not> tty_initialized k then Done (r, k)
       else if hz k div 2 = 0 then Wild
       else if pit_ticks k mod ucast (hz k div 2) = 0 then
         bind_oc (tty_toggle_cursor_visibility (vfs_con (kvfs k))) (\<lambda>con. Done (r, k\<lparr>kvfs := (kvfs k)\<lparr>vfs_con := con\<rparr>\<rparr>))
       else Done (r, k))"

section \<open>Waiting\<close>

datatype wait = Until_tick u64 | While_blocked u64 | For_ever

definition waits :: "wait \<Rightarrow> kernel \<Rightarrow> bool outcome" where
  "waits w k =
     (case w of
        Until_tick et \<Rightarrow> Done (pit_ticks k < et)
      | While_blocked c \<Rightarrow> bind_oc (get_t c k) (\<lambda>t. Done (t_state t = TASK_BLOCKED))
      | For_ever \<Rightarrow> Done True)"

definition scheduler_sleep :: "u64 \<Rightarrow> kernel \<Rightarrow> (wait \<times> kernel) outcome" where
  "scheduler_sleep ticks k =
     (let c = get_current_task k
      in if c = 0 then Done (Until_tick (pit_ticks k + ticks), k)
         else bind_oc (update_t c (\<lambda>t. t\<lparr>wake_tick := pit_ticks k + ticks, t_state := TASK_BLOCKED\<rparr>) k) (\<lambda>k.
                Done (While_blocked c, k)))"

definition free_pages :: "u64 \<Rightarrow> u64 \<Rightarrow> kernel \<Rightarrow> kernel outcome" where
  "free_pages a n k = bind_oc (pmm_free_pages a n (vpmm (kvm k))) (\<lambda>pm. Done (k\<lparr>kvm := (kvm k)\<lparr>vpmm := pm\<rparr>\<rparr>))"

definition free_space :: "u64 \<Rightarrow> kernel \<Rightarrow> kernel outcome" where
  "free_space p k = bind_oc (vmm_free_user_page_table p (kvm k)) (\<lambda>vm. Done (k\<lparr>kvm := vm\<rparr>))"

text \<open>\<open>if (c) s\<close>\<close>
definition when_oc :: "bool \<Rightarrow> ('s \<Rightarrow> 's outcome) \<Rightarrow> 's \<Rightarrow> 's outcome" where
  "when_oc c f s = (if c then f s else Done s)"

definition task_exit :: "kernel \<Rightarrow> (wait \<times> kernel) outcome" where
  "task_exit k =
     bind_oc (update_t (current k) (\<lambda>t. t\<lparr>t_state := TASK_ZOMBIE\<rparr>) k) (\<lambda>k.
     bind_oc (get_t (current k) k) (\<lambda>c.
       if is_usermode c = 0 then Done (For_ever, k)
       else
         bind_oc (when_oc (user_code c \<noteq> 0) (free_pages (user_code c) (user_code_pages c)) k) (\<lambda>k.
         bind_oc (when_oc (user_stack c \<noteq> 0) (free_pages (user_stack c) 2) k) (\<lambda>k.
         bind_oc (when_oc (t_cr3 c \<noteq> 0) (free_space (t_cr3 c)) k) (\<lambda>k. Done (For_ever, k))))))"


section \<open>A tick on a ring\<close>

definition woken :: "u64 \<Rightarrow> task \<Rightarrow> task" where
  "woken ticks tk = (if t_state tk = TASK_BLOCKED \<and> wake_tick tk \<le> ticks then tk\<lparr>t_state := TASK_RUNNABLE\<rparr> else tk)"

definition wake_all :: "u64 \<Rightarrow> u64 set \<Rightarrow> kernel \<Rightarrow> kernel" where
  "wake_all ticks S k = k\<lparr>tasks := \<lambda>x. if x \<in> S then map_option (woken ticks) (tasks k x) else tasks k x\<rparr>"

definition runnable :: "kernel \<Rightarrow> u64 \<Rightarrow> bool" where
  "runnable k x \<longleftrightarrow> t_state (the (tasks k x)) = TASK_RUNNABLE"

lemma woken_simps [simp]: "t_next (woken ticks tk) = t_next tk" "t_regs (woken ticks tk) = t_regs tk"
  "is_usermode (woken ticks tk) = is_usermode tk" "stack_base (woken ticks tk) = stack_base tk"
  "stack_pages (woken ticks tk) = stack_pages tk" "t_cr3 (woken ticks tk) = t_cr3 tk"
  "t_state (woken ticks tk) = TASK_RUNNING \<longleftrightarrow> t_state tk = TASK_RUNNING"
  by (auto simp: woken_def)

lemma wake_all_simps [simp]: "task_list (wake_all ticks S k) = task_list k" "current (wake_all ticks S k) = current k"
  by (simp_all add: wake_all_def)

lemma wake_one: "tasks k x = Some tk \<Longrightarrow> wake_all ticks {x} k = (if t_state tk = TASK_BLOCKED \<and> wake_tick tk \<le> ticks
    then set_t x (tk\<lparr>t_state := TASK_RUNNABLE\<rparr>) k else k)"
  by (cases k) (auto simp: wake_all_def set_t_def woken_def fun_eq_iff)

lemma wake_all_insert: "x \<notin> S \<Longrightarrow> wake_all ticks S (wake_all ticks {x} k) = wake_all ticks (insert x S) k"
  by (cases k) (auto simp: wake_all_def fun_eq_iff)

lemma sweep_loop_chain:
  "chain (tasks k) a (xs @ [x]) (task_list k) \<Longrightarrow> task_list k \<notin> set (tl (xs @ [x])) \<Longrightarrow> distinct (xs @ [x]) \<Longrightarrow>
   sweep_loop ticks a k = Some (Done (wake_all ticks (set (xs @ [x])) k))"
proof (induction xs arbitrary: a k)
  case Nil
  then show ?case by (subst sweep_loop.simps) (auto simp: get_t_alive wake_one)
next
  case (Cons y ys)
  then obtain tk where tk: "a = y" "y \<noteq> 0" "tasks k y = Some tk" "chain (tasks k) (t_next tk) (ys @ [x]) (task_list k)" by auto
  have n: "t_next tk \<noteq> task_list k" using tk(4) Cons.prems(2) by (cases ys) auto
  let ?k = "wake_all ticks {y} k"
  have c: "chain (tasks ?k) (t_next tk) (ys @ [x]) (task_list ?k)"
    using tk(4) Cons.prems(3) by (subst chain_cong [of _ _ "tasks k"]) (auto simp: wake_all_def)
  have l: "task_list ?k \<notin> set (tl (ys @ [x]))" using Cons.prems(2) by (cases ys) auto
  have y: "y \<notin> set (ys @ [x])" using Cons.prems(3) by auto
  have "sweep_loop ticks (t_next tk) ?k = Some (Done (wake_all ticks (set (ys @ [x])) ?k))"
    using Cons.IH [OF c l] Cons.prems(3) by simp
  then have "sweep_loop ticks (t_next tk) ?k = Some (Done (wake_all ticks (set ((y # ys) @ [x])) k))"
    using wake_all_insert [OF y, of ticks k] by simp
  then show ?case using tk n unfolding wake_one [OF tk(3)]
    by (subst sweep_loop.simps) (auto simp: get_t_alive split: if_splits)
qed

lemma ring_last:
  assumes "ring k xs" and "xs \<noteq> []"
  obtains ys y where "xs = ys @ [y]" "chain (tasks k) (task_list k) (ys @ [y]) (task_list k)" "task_list k \<noteq> 0"
    "task_list k \<notin> set (tl (ys @ [y]))" "distinct (ys @ [y])"
proof -
  obtain ys y where xs: "xs = ys @ [y]" using assms(2) rev_exhaust by blast
  have c: "chain (tasks k) (task_list k) (ys @ [y]) (task_list k)" and d: "distinct (ys @ [y])"
    using assms(1) xs by (auto simp: ring_def)
  have l: "task_list k = hd (ys @ [y])" "task_list k \<noteq> 0" using c by (cases ys; auto)+
  then have "task_list k \<notin> set (tl (ys @ [y]))" using d by (cases ys) auto
  then show ?thesis using that xs c d l by blast
qed

lemma sweep_wakeup_ring: "ring k xs \<Longrightarrow> sweep_wakeup k = Done (wake_all (pit_ticks k) (set xs) k)"
proof (cases "xs = []")
  case True
  then show "ring k xs \<Longrightarrow> ?thesis" by (cases k) (simp add: ring_def sweep_wakeup_def wake_all_def)
next
  case False
  assume r: "ring k xs"
  obtain ys y where "xs = ys @ [y]" "chain (tasks k) (task_list k) (ys @ [y]) (task_list k)" "task_list k \<noteq> 0"
      "task_list k \<notin> set (tl (ys @ [y]))" "distinct (ys @ [y])" using ring_last [OF r False] .
  then show ?thesis by (simp add: sweep_wakeup_def sweep_loop_chain run_oc_def)
qed

lemma pick_loop_chain:
  assumes "chain (tasks k) a xs (current k)" and "current k \<noteq> 0" and "tasks k (current k) = Some c" and "current k \<notin> set xs"
  shows "pick_loop k a = Some (Done (find (runnable k) (xs @ [current k])))"
  using assms
proof (induction xs arbitrary: a)
  case Nil
  then show ?case by (subst pick_loop.simps) (auto simp: get_t_alive runnable_def)
next
  case (Cons x xs)
  then obtain tk where tk: "a = x" "x \<noteq> 0" "tasks k x = Some tk" "chain (tasks k) (t_next tk) xs (current k)" by auto
  have n: "x \<noteq> current k" using Cons.prems by auto
  show ?case
  proof (cases "t_state tk = TASK_RUNNABLE")
    case True
    then show ?thesis using tk by (subst pick_loop.simps) (simp add: get_t_alive runnable_def)
  next
    case False
    then have "\<not> runnable k x" using tk by (simp add: runnable_def)
    then show ?thesis using False tk n Cons.IH [OF tk(4) Cons.prems(2,3)] Cons.prems(4)
      by (subst pick_loop.simps) (simp add: get_t_alive)
  qed
qed

text \<open>Tasks that a tick can choose.\<close>
definition ready :: "kernel \<Rightarrow> u64 \<Rightarrow> bool" where
  "ready k x \<longleftrightarrow> (case tasks k x of None \<Rightarrow> False | Some tk \<Rightarrow>
     t_state (woken (pit_ticks k) tk) = TASK_RUNNABLE \<or> (x = current k \<and> t_state tk = TASK_RUNNING))"

text \<open>
  A task after a tick has swept the list and saved \<open>r\<close> in the current task \<open>c\<close>, and after it has chosen
  task \<open>n\<close>.
\<close>
definition save :: "regs \<Rightarrow> u64 \<Rightarrow> u64 \<Rightarrow> u64 \<Rightarrow> task \<Rightarrow> task" where
  "save r ticks c x tk =
     (let tk = woken ticks tk
      in if x = c then tk\<lparr>t_regs := r, t_state := (if t_state tk = TASK_RUNNING then TASK_RUNNABLE else t_state tk)\<rparr> else tk)"

definition ticked :: "regs \<Rightarrow> u64 \<Rightarrow> u64 \<Rightarrow> u64 \<Rightarrow> u64 \<Rightarrow> task \<Rightarrow> task" where
  "ticked r ticks c n x tk = (if x = n then (save r ticks c x tk)\<lparr>t_state := TASK_RUNNING\<rparr> else save r ticks c x tk)"

definition on_ring :: "u64 list \<Rightarrow> (u64 \<Rightarrow> task \<Rightarrow> task) \<Rightarrow> kernel \<Rightarrow> kernel" where
  "on_ring xs f k = k\<lparr>tasks := \<lambda>x. if x \<in> set xs then map_option (f x) (tasks k x) else tasks k x\<rparr>"

definition saved :: "regs \<Rightarrow> u64 list \<Rightarrow> kernel \<Rightarrow> kernel" where
  "saved r xs k = on_ring xs (save r (pit_ticks k) (current k)) k"

definition after_tick :: "regs \<Rightarrow> u64 list \<Rightarrow> u64 \<Rightarrow> kernel \<Rightarrow> kernel" where
  "after_tick r xs n k = on_ring xs (ticked r (pit_ticks k) (current k) n) (k\<lparr>current := n\<rparr>)"

lemma save_simps [simp]: "t_next (save r ticks c x tk) = t_next tk" "is_usermode (save r ticks c x tk) = is_usermode tk"
  "stack_base (save r ticks c x tk) = stack_base tk" "stack_pages (save r ticks c x tk) = stack_pages tk"
  "t_cr3 (save r ticks c x tk) = t_cr3 tk" "t_regs (save r ticks c x tk) = (if x = c then r else t_regs tk)"
  by (simp_all add: save_def Let_def)

lemma on_ring_simps [simp]: "task_list (on_ring xs f k) = task_list k" "current (on_ring xs f k) = current k"
  "x \<in> set xs \<Longrightarrow> tasks (on_ring xs f k) x = map_option (f x) (tasks k x)" "pit_ticks (on_ring xs f k) = pit_ticks k"
  "kvm (on_ring xs f k) = kvm k"
  by (simp_all add: on_ring_def)

lemma ring_on_ring: "ring k xs \<Longrightarrow> (\<And>x tk. t_next (f x tk) = t_next tk) \<Longrightarrow> ring (on_ring xs f k) xs"
  by (subst ring_cong [of _ k]) (auto simp: option.map_comp intro!: option.map_cong)

definition ring_after :: "u64 \<Rightarrow> u64 list \<Rightarrow> u64 list" where
  "ring_after c xs = tl (dropWhile (\<lambda>x. x \<noteq> c) xs) @ takeWhile (\<lambda>x. x \<noteq> c) xs"

lemma ring_after_split: "c \<notin> set as \<Longrightarrow> ring_after c (as @ c # bs) = bs @ as"
proof -
  assume "c \<notin> set as"
  then have "\<And>x. x \<in> set as \<Longrightarrow> x \<noteq> c" by auto
  then show ?thesis by (simp add: ring_after_def dropWhile_append2 takeWhile_append2)
qed

lemma ring_after_set: "c \<in> set xs \<Longrightarrow> set (ring_after c xs @ [c]) = set xs"
proof -
  assume "c \<in> set xs"
  then obtain as bs where "xs = as @ c # bs" "c \<notin> set as" using split_list_first by metis
  then show ?thesis using ring_after_split [of c as bs] by auto
qed

lemma find_in: "find P xs = Some x \<Longrightarrow> x \<in> set xs \<and> P x"
  by (induction xs) (auto split: if_splits)

lemma saved_prefix:
  assumes r: "ring k xs" and c: "current k \<in> set xs"
  shows "sweep_wakeup k = Done (wake_all (pit_ticks k) (set xs) k)"
    and "bind_oc (update_t (current k) (\<lambda>t. t\<lparr>t_regs := r'\<rparr>) (wake_all (pit_ticks k) (set xs) k))
       (\<lambda>k. update_t (current k) (\<lambda>t. if t_state t = TASK_RUNNING then t\<lparr>t_state := TASK_RUNNABLE\<rparr> else t) k) = Done (saved r' xs k)"
proof -
  show "sweep_wakeup k = Done (wake_all (pit_ticks k) (set xs) k)" by (rule sweep_wakeup_ring [OF r])
  obtain tc where tc: "current k \<noteq> 0" "tasks k (current k) = Some tc" using ring_alive [OF r c] by blast
  then show "bind_oc (update_t (current k) (\<lambda>t. t\<lparr>t_regs := r'\<rparr>) (wake_all (pit_ticks k) (set xs) k))
       (\<lambda>k. update_t (current k) (\<lambda>t. if t_state t = TASK_RUNNING then t\<lparr>t_state := TASK_RUNNABLE\<rparr> else t) k) = Done (saved r' xs k)"
    using c by (cases k) (auto simp: update_t_def get_t_def wake_all_def saved_def on_ring_def save_def Let_def set_t_def fun_eq_iff intro!: option.map_cong)
qed

lemma pick_saved:
  assumes r: "ring k xs" and c: "current k \<in> set xs"
  shows "\<exists>tc. get_t (current k) (saved r' xs k) = Done tc \<and>
    pick_loop (saved r' xs k) (t_next tc) = Some (Done (find (ready k) (ring_after (current k) xs @ [current k])))"
proof -
  obtain as bs where xs: "xs = as @ current k # bs" using split_list [OF c] by blast
  have r2: "ring (saved r' xs k) (as @ current k # bs)" using ring_on_ring [OF r] xs by (simp add: saved_def)
  obtain tc where tc: "current k \<noteq> 0" "tasks (saved r' xs k) (current k) = Some tc" "chain (tasks (saved r' xs k)) (t_next tc) (bs @ as) (current k)"
    using ringD(1) [OF r2] by blast
  have d: "distinct (as @ current k # bs)" using ringD(3) [OF r2] .
  have ra: "ring_after (current k) xs = bs @ as" using ring_after_split [of "current k" as bs] d xs by simp
  have "runnable (saved r' xs k) x = ready k x" if x: "x \<in> set xs" for x
  proof -
    obtain tx where "tasks k x = Some tx" using ring_alive [OF r x] by blast
    then show ?thesis using x by (auto simp: runnable_def saved_def ready_def save_def Let_def)
  qed
  then have f: "find (runnable (saved r' xs k)) (bs @ as @ [current k]) = find (ready k) (bs @ as @ [current k])"
    using xs by (intro find_cong) auto
  have "current (saved r' xs k) = current k" by (simp add: saved_def)
  then have "pick_loop (saved r' xs k) (t_next tc) = Some (Done (find (runnable (saved r' xs k)) ((bs @ as) @ [current k])))"
    using pick_loop_chain [of "saved r' xs k" "t_next tc" "bs @ as" tc] tc d by simp
  then show ?thesis using tc f ra by (auto simp: get_t_alive)
qed

lemma choose_saved:
  assumes "ring k xs" and n: "n \<in> set xs"
  shows "update_t n (\<lambda>t. t\<lparr>t_state := TASK_RUNNING\<rparr>) ((saved r' xs k)\<lparr>current := n\<rparr>) = Done (after_tick r' xs n k)"
    and "\<exists>t. get_t n (after_tick r' xs n k) = Done t \<and> t_regs t = (if n = current k then r' else t_regs (the (tasks k n))) \<and>
      (\<forall>K. enter_space t K = enter_space (the (tasks k n)) K)"
proof -
  obtain tn where tn: "n \<noteq> 0" "tasks k n = Some tn" using ring_alive [OF assms] by blast
  then show "update_t n (\<lambda>t. t\<lparr>t_state := TASK_RUNNING\<rparr>) ((saved r' xs k)\<lparr>current := n\<rparr>) = Done (after_tick r' xs n k)"
    using n by (cases k) (auto simp: update_t_def get_t_def saved_def after_tick_def on_ring_def ticked_def set_t_def fun_eq_iff intro!: option.map_cong)
  show "\<exists>t. get_t n (after_tick r' xs n k) = Done t \<and> t_regs t = (if n = current k then r' else t_regs (the (tasks k n))) \<and>
      (\<forall>K. enter_space t K = enter_space (the (tasks k n)) K)"
    using tn n by (auto simp: get_t_def after_tick_def ticked_def enter_space_def Let_def)
qed

lemma schedule_tick_ring:
  assumes r: "ring k xs" and c: "current k \<in> set xs"
  shows "schedule_tick r k = Done (case find (ready k) (ring_after (current k) xs @ [current k]) of
      None \<Rightarrow> (r, after_tick r xs (current k) k)
    | Some n \<Rightarrow> (if n = current k then r else t_regs (the (tasks k n)), enter_space (the (tasks k n)) (after_tick r xs n k)))"
proof -
  have l: "task_list k \<noteq> 0" using split_list [OF c] ringD(2) r by blast
  have c0: "current k \<noteq> 0" using ring_alive [OF r c] by simp
  have cs: "current (saved r xs k) = current k" by (simp add: saved_def)
  obtain tc where p: "get_t (current k) (saved r xs k) = Done tc"
      "pick_loop (saved r xs k) (t_next tc) = Some (Done (find (ready k) (ring_after (current k) xs @ [current k])))"
    using pick_saved [OF r c] by blast
  have t: "schedule_tick r k = (case find (ready k) (ring_after (current k) xs @ [current k]) of
      None \<Rightarrow> bind_oc (update_t (current k) (\<lambda>t. t\<lparr>t_state := TASK_RUNNING\<rparr>) (saved r xs k)) (\<lambda>k. Done (r, k))
    | Some n \<Rightarrow> bind_oc (update_t n (\<lambda>t. t\<lparr>t_state := TASK_RUNNING\<rparr>) ((saved r xs k)\<lparr>current := n\<rparr>)) (\<lambda>k.
         bind_oc (get_t n k) (\<lambda>t. Done (t_regs t, enter_space t k))))"
    using l c0 saved_prefix(1) [OF r c] saved_prefix(2) [OF r c, where r' = r] p cs by (simp add: schedule_tick_def bind_oc_assoc [symmetric] run_oc_def)
  have m: "n \<in> set xs" if "find (ready k) (ring_after (current k) xs @ [current k]) = Some n" for n
    using find_in [OF that] ring_after_set [OF c] by auto
  have "(saved r xs k)\<lparr>current := current k\<rparr> = saved r xs k" by (simp add: saved_def on_ring_def)
  then show ?thesis unfolding t using choose_saved [OF r c, where r' = r] choose_saved [OF r m, where r' = r]
    by (auto split: option.split)
qed

end
