(* ===== verification/SchedRun.thy ===== *)
theory SchedRun
  imports Sched VfsRun
begin

text \<open>
  What the scheduler guarantees: a tick switches to the first ready task after the current one, and a
  task that stays ready runs after at most as many ticks as there are tasks in the list.  The second
  holds as long as nobody adds a task: a task is added behind the last one, so a task at the
  end of the list that creates a task at every turn, which does the same, keeps the others waiting.
\<close>

section \<open>Going round the ring\<close>

lemma distinct_split_eq: "distinct (p @ n # q) \<Longrightarrow> a @ n # b = p @ n # q \<Longrightarrow> p = a \<and> q = b"
  using append_Cons_eq_iff [of n p q a b] by auto

lemma ring_after_rotate:
  assumes d: "distinct xs" and c: "c \<in> set xs" and e: "ring_after c xs @ [c] = p @ n # q"
  shows "ring_after n xs @ [n] = q @ p @ [n]"
proof -
  obtain as bs where xs: "xs = as @ c # bs" using split_list [OF c] by blast
  have ra: "ring_after c xs = bs @ as" using ring_after_split [of c as bs] d xs by simp
  have e': "bs @ as @ [c] = p @ n # q" using e ra by simp
  have dd: "distinct (p @ n # q)" using d xs unfolding e' [symmetric] by auto
  have "n \<in> set (bs @ as @ [c])" using e' by (metis in_set_conv_decomp)
  then consider "n \<in> set bs" | "n \<in> set as" | "n = c" by auto
  then show ?thesis
  proof cases
    case 1
    then obtain b1 b2 where b: "bs = b1 @ n # b2" using split_list by metis
    have "b1 @ n # (b2 @ as @ [c]) = p @ n # q" using e' b by simp
    then have "p = b1" "q = b2 @ as @ [c]" using distinct_split_eq [OF dd] by blast+
    moreover have "n \<notin> set (as @ c # b1)" using d unfolding xs b by auto
    ultimately show ?thesis using ring_after_split [of n "as @ c # b1" b2] xs b by simp
  next
    case 2
    then obtain a1 a2 where a: "as = a1 @ n # a2" using split_list by metis
    have "(bs @ a1) @ n # (a2 @ [c]) = p @ n # q" using e' a by simp
    then have "p = bs @ a1" "q = a2 @ [c]" using distinct_split_eq [OF dd] by blast+
    moreover have "n \<notin> set a1" using d unfolding xs a by auto
    ultimately show ?thesis using ring_after_split [of n a1 "a2 @ c # bs"] xs a by simp
  next
    case 3
    have "(bs @ as) @ n # [] = p @ n # q" using e' 3 by simp
    then have "p = bs @ as" "q = []" using distinct_split_eq [OF dd] by blast+
    then show ?thesis using 3 ra by simp
  qed
qed

lemma ring_after_filter:
  assumes "distinct xs" and c: "c \<in> set xs" and "P c"
  shows "ring_after c (filter P xs) = filter P (ring_after c xs)"
proof -
  obtain as bs where xs: "xs = as @ c # bs" using split_list [OF c] by blast
  have "c \<notin> set as" "c \<notin> set (filter P as)" using assms(1) xs by auto
  then show ?thesis using ring_after_split [of c as bs] ring_after_split [of c "filter P as" "filter P bs"] xs assms(3) by simp
qed

text \<open>The number of tasks that are chosen before \<open>t\<close> when all are ready.\<close>
definition turns :: "u64 \<Rightarrow> u64 \<Rightarrow> u64 list \<Rightarrow> nat" where
  "turns c t xs = length (takeWhile (\<lambda>x. x \<noteq> t) (ring_after c xs @ [c]))"

lemma length_takeWhile_filter: "P t \<Longrightarrow> length (takeWhile (\<lambda>x. x \<noteq> t) (filter P xs)) \<le> length (takeWhile (\<lambda>x. x \<noteq> t) xs)"
  by (induction xs) auto

lemma turns_filter: "distinct xs \<Longrightarrow> c \<in> set xs \<Longrightarrow> P c \<Longrightarrow> P t \<Longrightarrow> turns c t (filter P xs) \<le> turns c t xs"
  using length_takeWhile_filter [of P t "ring_after c xs @ [c]"] by (simp add: turns_def ring_after_filter)

lemma length_takeWhile_in: "t \<in> set xs \<Longrightarrow> length (takeWhile (\<lambda>x. x \<noteq> t) xs) < length xs"
  by (induction xs) auto

lemma turns_less: "distinct xs \<Longrightarrow> c \<in> set xs \<Longrightarrow> t \<in> set xs \<Longrightarrow> turns c t xs < length xs"
proof -
  assume "distinct xs" "c \<in> set xs" "t \<in> set xs"
  then obtain as bs where xs: "xs = as @ c # bs" "ring_after c xs = bs @ as"
    using split_list ring_after_split by (metis distinct_append distinct.simps(2) in_set_conv_decomp_first)
  then have "length (ring_after c xs @ [c]) = length xs" "t \<in> set (ring_after c xs @ [c])" using \<open>t \<in> set xs\<close> by auto
  then show ?thesis unfolding turns_def by (metis length_takeWhile_in)
qed

lemma turns_next:
  assumes d: "distinct xs" and c: "c \<in> set xs" and t: "t \<in> set xs" and P: "P t"
    and f: "find P (ring_after c xs @ [c]) = Some n" and nt: "n \<noteq> t"
  shows "turns n t xs < turns c t xs"
proof -
  obtain i where i: "i < length (ring_after c xs @ [c])" "P ((ring_after c xs @ [c]) ! i)" "n = (ring_after c xs @ [c]) ! i"
      "\<forall>j < i. \<not> P ((ring_after c xs @ [c]) ! j)" using f by (auto simp: find_Some_iff)
  let ?l = "ring_after c xs @ [c]"
  define p q where "p = take i ?l" and "q = drop (Suc i) ?l"
  have e: "?l = p @ n # q" unfolding p_def q_def i(3) by (rule id_take_nth_drop [OF i(1)])
  have tp: "t \<notin> set p"
  proof
    assume "t \<in> set p"
    then obtain j where j: "j < length p" "p ! j = t" by (auto simp: in_set_conv_nth)
    then have "j < i" "?l ! j = t" unfolding p_def by (simp_all only: length_take min_less_iff_conj nth_take)
    then show False using i(4) P by auto
  qed
  have tq: "t \<in> set q" using ring_after_set [OF c] t tp nt unfolding e by auto
  have "turns c t xs = length p + 1 + length (takeWhile (\<lambda>x. x \<noteq> t) q)"
    unfolding turns_def e using tp nt by (subst takeWhile_append2) auto
  moreover have "turns n t xs = length (takeWhile (\<lambda>x. x \<noteq> t) q)"
    unfolding turns_def ring_after_rotate [OF d c e] using tq by (subst takeWhile_append1) auto
  ultimately show ?thesis by simp
qed

section \<open>Ticks\<close>

lemma after_tick_ring: "ring k xs \<Longrightarrow> ring (after_tick r xs n k) xs"
  unfolding after_tick_def by (rule ring_on_ring) (simp_all add: ring_def ticked_def)

lemma after_tick_simps [simp]: "current (after_tick r xs n k) = n" "kvm (after_tick r xs n k) = kvm k"
  "tasks (after_tick r xs n k) x =
     (if x \<in> set xs then map_option (ticked r (pit_ticks k) (current k) n x) (tasks k x) else tasks k x)"
  by (simp_all add: after_tick_def on_ring_def)

lemma enter_space_simps [simp]: "tasks (enter_space t k) = tasks k" "task_list (enter_space t k) = task_list k"
  "current (enter_space t k) = current k" "ring (enter_space t k) xs = ring k xs"
  "is_usermode t \<noteq> 0 \<Longrightarrow> rsp0 (enter_space t k) = stack_base t + stack_pages t * 4096"
  "is_usermode t \<noteq> 0 \<Longrightarrow> cr3 (kvm (enter_space t k)) = (if t_cr3 t \<noteq> 0 then t_cr3 t else cr3 (kvm k))"
  by (simp_all add: enter_space_def Let_def tss_set_kernel_stack_def ring_def vmm_switch_page_table_def)


lemma tick_result:
  assumes r: "ring k xs" and c: "current k \<in> set xs"
  shows "\<exists>r' k'. schedule_tick r0 k = Done (r', k') \<and> ring k' xs \<and>
    current k' = (case find (ready k) (ring_after (current k) xs @ [current k]) of None \<Rightarrow> current k | Some n \<Rightarrow> n)"
  unfolding schedule_tick_ring [OF r c]
  using after_tick_ring [OF r] by (auto split: option.split)

text \<open>
  What may happen between a tick and the next one: whatever the running task does, it goes on to be the
  current task, and it may take other tasks out of the list, except \<open>t\<close>.
\<close>
definition between_ticks :: "u64 \<Rightarrow> kernel \<Rightarrow> kernel \<Rightarrow> bool" where
  "between_ticks t k k' \<longleftrightarrow> current k' = current k \<and>
     (\<exists>P. P (current k) \<and> P t \<and> (\<forall>xs. ring k xs \<longrightarrow> ring k' (filter P xs)))"

lemma ready_task_runs_in:
  assumes "ring (s m) xs" and "current (s m) \<in> set xs" and "t \<in> set xs"
    and rdy: "\<And>n. ready (s n) t"
    and act: "\<And>n r' k'. schedule_tick (r n) (s n) = Done (r', k') \<Longrightarrow> between_ticks t k' (s (Suc n))"
  shows "\<exists>n \<ge> m. n \<le> m + turns (current (s m)) t xs \<and> (\<exists>r' k'. schedule_tick (r n) (s n) = Done (r', k') \<and> current k' = t)"
  using assms(1-3)
proof (induction "turns (current (s m)) t xs" arbitrary: m xs rule: less_induct)
  case less
  have d: "distinct xs" using less.prems(1) by (simp add: ring_def)
  obtain r' k' where k': "schedule_tick (r m) (s m) = Done (r', k')" "ring k' xs"
      "current k' = (case find (ready (s m)) (ring_after (current (s m)) xs @ [current (s m)]) of None \<Rightarrow> current (s m) | Some n \<Rightarrow> n)"
    using tick_result [OF less.prems(1,2), of "r m"] by blast
  have "t \<in> set (ring_after (current (s m)) xs @ [current (s m)])" using ring_after_set [OF less.prems(2)] less.prems(3) by simp
  then obtain n where n: "find (ready (s m)) (ring_after (current (s m)) xs @ [current (s m)]) = Some n"
    using rdy [of m] by (metis find_None_iff option.exhaust)
  have cn: "current k' = n" using k'(3) n by simp
  show ?case
  proof (cases "n = t")
    case True
    then show ?thesis using k'(1) cn by (intro exI [of _ m]) auto
  next
    case False
    have nx: "n \<in> set xs" using find_in [OF n] ring_after_set [OF less.prems(2)] by auto
    have lt: "turns n t xs < turns (current (s m)) t xs" by (rule turns_next [OF d less.prems(2,3) rdy n False])
    obtain P where P: "P n" "P t" "ring (s (Suc m)) (filter P xs)" "current (s (Suc m)) = n"
      using act [OF k'(1)] k'(2) cn by (auto simp: between_ticks_def)
    have le: "turns (current (s (Suc m))) t (filter P xs) \<le> turns n t xs"
      using turns_filter [OF d nx P(1,2)] P(4) by simp
    obtain j where j: "Suc m \<le> j" "j \<le> Suc m + turns (current (s (Suc m))) t (filter P xs)"
        "\<exists>r' k'. schedule_tick (r j) (s j) = Done (r', k') \<and> current k' = t"
      using less.hyps [of "Suc m" "filter P xs"] lt le P nx less.prems(3) by auto
    then show ?thesis using le lt by (intro exI [of _ j]) auto
  qed
qed

text \<open>Taking another task out of the list, as waiting for a child does, is such an action.\<close>

lemma chain_unique:
  "chain m a xs b \<Longrightarrow> chain m a ys b \<Longrightarrow> b \<notin> set (tl xs) \<Longrightarrow> b \<notin> set (tl ys) \<Longrightarrow> (xs = [] \<longleftrightarrow> ys = []) \<Longrightarrow> xs = ys"
proof (induction xs arbitrary: a ys)
  case (Cons x xs)
  then obtain zs tk where z: "ys = x # zs" "m x = Some tk" "chain m (t_next tk) xs b" "chain m (t_next tk) zs b"
    by (cases ys) auto
  have n: "b \<notin> set xs" "b \<notin> set zs" using Cons.prems z(1) by auto
  have "(xs = [] \<longleftrightarrow> zs = [])" using z(3,4) n by (cases xs; cases zs) auto
  moreover have "b \<notin> set (tl xs)" "b \<notin> set (tl zs)" using n by (cases xs; cases zs; simp)+
  ultimately show ?case using Cons.IH [OF z(3,4)] z(1) by simp
qed simp

lemma ring_unique:
  assumes "ring k xs" and "ring k ys"
  shows "xs = ys"
proof (cases "xs = [] \<or> ys = []")
  case True
  then show ?thesis using assms by (cases xs; cases ys) (auto simp: ring_def)
next
  case False
  have "task_list k \<notin> set (tl zs)" if "ring k zs" for zs using that by (cases zs) (auto simp: ring_def)
  then show ?thesis using assms False chain_unique [of "tasks k" "task_list k" xs "task_list k" ys] by (auto simp: ring_def)
qed

lemma unlink_between_ticks:
  assumes r: "ring k xs" and c: "c \<in> set xs" "c \<noteq> current k" "c \<noteq> t"
  shows "\<exists>k'. task_unlink c k = Done k' \<and> between_ticks t k k'"
proof -
  obtain as bs where xs: "xs = as @ c # bs" using split_list [OF c(1)] by blast
  obtain k' where k': "task_unlink c k = Done k'" "ring k' (as @ bs)" "relinked k k'"
    using task_unlink_ring r unfolding xs by blast
  have "\<forall>x \<in> set as \<union> set bs. x \<noteq> c" using r xs by (auto simp: ring_def)
  then have "filter (\<lambda>x. x \<noteq> c) xs = as @ bs" unfolding xs by (simp add: filter_True)
  then have "\<forall>ys. ring k ys \<longrightarrow> ring k' (filter (\<lambda>x. x \<noteq> c) ys)" using ring_unique [OF r] k'(2) by auto
  moreover have "current k' = current k" using k'(3) unfolding relinked_def by (metis (no_types) kernel.select_convs(3) kernel.surjective kernel.update_convs(1) kernel.update_convs(2))
  ultimately show ?thesis using k'(1) c by (auto simp: between_ticks_def intro!: exI [of _ "\<lambda>x. x \<noteq> c"])
qed

section \<open>Guarantees\<close>

text \<open>
  C35. A tick in a list that contains the current task saves the registers of the current task and goes
  on with the first ready task after it, in the order of the list and with the current task last.  Ready
  are the runnable tasks, those that are blocked until a tick that has passed, and the current task if
  it runs.  That task becomes the running one and its saved registers are loaded, and for a user task
  the kernel stack and the address space are its own.  Every other task only is woken or loses the
  processor.  If no task is ready, the current one goes on.
\<close>
theorem schedule_tick_switches:
  assumes "ring k xs" and "current k \<in> set xs"
  shows "\<exists>r' k' n. schedule_tick r k = Done (r', k') \<and> ring k' xs \<and> current k' = n \<and>
    n = (case find (ready k) (ring_after (current k) xs @ [current k]) of None \<Rightarrow> current k | Some n \<Rightarrow> n) \<and>
    r' = (if n = current k then r else t_regs (the (tasks k n))) \<and>
    (\<forall>x tk. x \<in> set xs \<longrightarrow> tasks k x = Some tk \<longrightarrow> tasks k' x = Some (ticked r (pit_ticks k) (current k) n x tk)) \<and>
    (\<forall>x. x \<notin> set xs \<longrightarrow> tasks k' x = tasks k x) \<and>
    (ready k n \<and> is_usermode (the (tasks k n)) \<noteq> 0 \<longrightarrow>
       rsp0 k' = stack_base (the (tasks k n)) + stack_pages (the (tasks k n)) * 4096 \<and>
       cr3 (kvm k') = (if t_cr3 (the (tasks k n)) \<noteq> 0 then t_cr3 (the (tasks k n)) else cr3 (kvm k)))"
proof (cases "find (ready k) (ring_after (current k) xs @ [current k])")
  case None
  then have "\<not> ready k (current k)" by (auto simp: find_None_iff)
  then show ?thesis unfolding schedule_tick_ring [OF assms] using None after_tick_ring [OF assms(1)]
    by auto
next
  case (Some n)
  show ?thesis unfolding schedule_tick_ring [OF assms] using Some after_tick_ring [OF assms(1)]
    by auto
qed

text \<open>
  C36. A task of the list that is ready at every tick gets the processor after at most as many ticks as
  the list has tasks, whatever the other tasks do between the ticks, as long as none of them adds a
  task.
\<close>
theorem ready_task_runs:
  assumes "ring (s 0) xs" and "current (s 0) \<in> set xs" and "t \<in> set xs"
    and "\<And>n. ready (s n) t"
    and "\<And>n r' k'. schedule_tick (r n) (s n) = Done (r', k') \<Longrightarrow> between_ticks t k' (s (Suc n))"
  shows "\<exists>n < length xs. \<exists>r' k'. schedule_tick (r n) (s n) = Done (r', k') \<and> current k' = t"
proof -
  have "turns (current (s 0)) t xs < length xs"
    using turns_less [OF _ assms(2,3)] assms(1) by (simp add: ring_def)
  moreover have "\<exists>n \<ge> 0. n \<le> 0 + turns (current (s 0)) t xs \<and> (\<exists>r' k'. schedule_tick (r n) (s n) = Done (r', k') \<and> current k' = t)"
    by (rule ready_task_runs_in [of s 0 xs t r]) (fact assms)+
  ultimately show ?thesis by (metis add_0 le_less_trans)
qed


text \<open>Two tasks that take turns.\<close>

definition demo_task :: "u64 \<Rightarrow> task_state \<Rightarrow> task" where
  "demo_task n st = zero_task\<lparr>t_next := n, t_state := st\<rparr>"

definition demo_kernel :: "kernel \<Rightarrow> bool \<Rightarrow> kernel" where
  "demo_kernel k b = k\<lparr>tasks := [0x1000 \<mapsto> demo_task 0x2000 (if b then TASK_RUNNABLE else TASK_RUNNING),
     0x2000 \<mapsto> demo_task 0x1000 (if b then TASK_RUNNING else TASK_RUNNABLE)], task_list := 0x1000,
     current := (if b then 0x2000 else 0x1000)\<rparr>"

lemma demo_kernel_ring: "ring (demo_kernel k b) [0x1000, 0x2000]"
  by (simp add: ring_def demo_kernel_def demo_task_def)

lemma demo_kernel_tick: "schedule_tick zero_regs (demo_kernel k b) = Done (zero_regs, demo_kernel k (\<not> b))"
proof -
  have "find (ready (demo_kernel k b)) (ring_after (current (demo_kernel k b)) [0x1000, 0x2000] @ [current (demo_kernel k b)]) =
      Some (if b then 0x1000 else 0x2000)"
    by (simp add: demo_kernel_def ready_def woken_def ring_after_def demo_task_def)
  moreover have "after_tick zero_regs [0x1000, 0x2000] (if b then 0x1000 else 0x2000) (demo_kernel k b) = demo_kernel k (\<not> b)"
    by (cases k) (auto simp: after_tick_def on_ring_def demo_kernel_def demo_task_def ticked_def save_def woken_def fun_eq_iff zero_task_def)
  ultimately show ?thesis
    using schedule_tick_ring [OF demo_kernel_ring, of k b zero_regs]
    by (simp add: demo_kernel_def demo_task_def enter_space_def zero_task_def)
qed

definition idle_kernel :: kernel where
  "idle_kernel = \<lparr>tasks = Map.empty, task_list = 0, current = 0, next_task_id = 1, pit_ticks = 0, rsp0 = 0, hz = 100,
     tty_initialized = False, kvm = demo_vm, kvfs = demo_vfs, task_memory = [], syscall_regs = None\<rparr>"

theorem schedule_tick_switches_witness:
  "\<exists>r' k'. schedule_tick zero_regs (demo_kernel idle_kernel False) = Done (r', k') \<and> current k' = 0x2000"
proof -
  have c: "current (demo_kernel idle_kernel False) \<in> set [0x1000, 0x2000]" by (simp add: demo_kernel_def)
  have "find (ready (demo_kernel idle_kernel False)) (ring_after (current (demo_kernel idle_kernel False)) [0x1000, 0x2000] @ [current (demo_kernel idle_kernel False)]) =
      Some 0x2000"
    by (simp add: demo_kernel_def ready_def woken_def ring_after_def demo_task_def)
  then show ?thesis using schedule_tick_switches [OF demo_kernel_ring c, of zero_regs] by auto
qed

theorem ready_task_runs_witness:
  "\<exists>n < (2 :: nat). \<exists>r' k'. schedule_tick zero_regs (demo_kernel idle_kernel (odd n)) = Done (r', k') \<and> current k' = 0x2000"
proof -
  let ?s = "\<lambda>n :: nat. demo_kernel idle_kernel (odd n)"
  have "ready (?s n) 0x2000" for n by (simp add: demo_kernel_def ready_def woken_def demo_task_def)
  moreover have "between_ticks 0x2000 k' (?s (Suc n))" if "schedule_tick zero_regs (?s n) = Done (r', k')" for n r' k'
    using that by (auto simp: demo_kernel_tick between_ticks_def intro!: exI [of _ "\<lambda>_. True"])
  moreover have "current (?s 0) \<in> set [0x1000, 0x2000]" by (simp add: demo_kernel_def)
  ultimately have "\<exists>n < length [0x1000 :: u64, 0x2000]. \<exists>r' k'. schedule_tick zero_regs (?s n) = Done (r', k') \<and> current k' = 0x2000"
    by (intro ready_task_runs [where s = ?s and r = "\<lambda>_. zero_regs"]) (use demo_kernel_ring in auto)
  then show ?thesis by (simp add: numeral_2_eq_2)
qed

end
