(* ===== verification/Process.thy ===== *)
theory Process
  imports Sched Elf UserStack KStdio Mounts
begin

unbundle bit_operations_syntax

text \<open>
  Creating processes, \<open>src/src/kernel/sched/scheduler.c\<close>: a task from an executable file and a copy of the
  running task.  The pages of a process are in the memory of \<open>Vmm\<close>; the fields of a task are in the map of
  tasks, so zeroing the page of a task is both the zero task and the zeroed page.  \<open>create_elf_task_args\<close>
  takes the task from \<open>kmalloc\<close> and zeroes 4096 bytes there; the heap behind the task is not modelled.

  The lemmas follow the failure paths and show what a new process has in common with its parent.
\<close>

section \<open>Access to memory and files\<close>

definition USER_STACK_TOP_VADDR :: u64 where "USER_STACK_TOP_VADDR = 0x7FFFF0000000"

definition user_flags :: u64 where "user_flags = PTE_PRESENT OR PTE_RW OR PTE_USER"

text \<open>A word, and the bytes of a block, through a pointer into the direct map.\<close>

definition rd64 :: "vm \<Rightarrow> u64 \<Rightarrow> u64" where
  "rd64 st p = rd st (p AND NOT 0xFFF) (unat (p AND 0xFFF) div 8)"

definition wr64 :: "u64 \<Rightarrow> u64 \<Rightarrow> vm \<Rightarrow> vm" where
  "wr64 p v st = wr st (p AND NOT 0xFFF) (unat (p AND 0xFFF) div 8) v"

definition get_byte :: "vm \<Rightarrow> u64 \<Rightarrow> u8" where
  "get_byte st p = le_bytes 8 (rd64 st p) ! (unat (p AND 0xFFF) mod 8)"

definition get_block :: "vm \<Rightarrow> u64 \<Rightarrow> nat \<Rightarrow> u8 list" where
  "get_block st p n = map (\<lambda>i. get_byte st (p + of_nat i)) [0..<n]"

text \<open>Operations on the memory and on the file system inside the kernel.\<close>

definition on_vm :: "(vm \<Rightarrow> ('a \<times> vm) outcome) \<Rightarrow> kernel \<Rightarrow> ('a \<times> kernel) outcome" where
  "on_vm f k = bind_oc (f (kvm k)) (\<lambda>(a, vm). Done (a, k\<lparr>kvm := vm\<rparr>))"

definition pages_alloc :: "u64 \<Rightarrow> kernel \<Rightarrow> (u64 \<times> kernel) outcome" where
  "pages_alloc n k = bind_oc (pmalloc n (vpmm (kvm k))) (\<lambda>(p, pm). Done (p, k\<lparr>kvm := (kvm k)\<lparr>vpmm := pm\<rparr>\<rparr>))"

text \<open>
  The file system asks \<open>get_current_task\<close> for the working directory and sets it in \<open>vfs_chdir\<close>; a current
  task that is not alive, which the scheduler never leaves, counts as none here.
\<close>
definition cwd_of :: "kernel \<Rightarrow> nat option option" where
  "cwd_of k = (if current k = 0 then None else map_option t_cwd (tasks k (current k)))"

definition with_cwd :: "nat option option \<Rightarrow> kernel \<Rightarrow> kernel" where
  "with_cwd c k = (case (c, tasks k (current k)) of
     (Some d, Some t) \<Rightarrow> (if current k = 0 then k else set_t (current k) (t\<lparr>t_cwd := d\<rparr>) k) | _ \<Rightarrow> k)"

definition on_vfs :: "(vfs \<Rightarrow> ('a \<times> vfs) outcome) \<Rightarrow> kernel \<Rightarrow> ('a \<times> kernel) outcome" where
  "on_vfs f k = bind_oc (f ((kvfs k)\<lparr>task_cwd := cwd_of k\<rparr>)) (\<lambda>(a, st). Done (a, with_cwd (task_cwd st) (k\<lparr>kvfs := st\<rparr>)))"

definition map_user :: "u64 \<Rightarrow> u64 \<Rightarrow> u64 \<Rightarrow> kernel \<Rightarrow> (int \<times> kernel) outcome" where
  "map_user space vaddr kaddr k =
     on_vm (vmm_map_page_in space vaddr (phys_from_virt (vpmm (kvm k)) kaddr) user_flags) k"

section \<open>Standard streams\<close>

definition tty_prefix :: cstring where "tty_prefix = [0x2F, 0x64, 0x65, 0x76, 0x2F, 0x74, 0x74, 0x79]"

definition open_stream :: "u64 \<Rightarrow> nat option \<Rightarrow> nat \<Rightarrow> kernel \<Rightarrow> kernel outcome" where
  "open_stream t nd fd k =
     bind_oc (on_vfs (\<lambda>st. bind_oc (vfs_open nd 2 st) (\<lambda>(r, f, st). Done ((r, f), st))) k) (\<lambda>((r, f), k).
       if r = 0 \<and> f \<noteq> None then update_t t (\<lambda>tk. tk\<lparr>fd_table := (fd_table tk)[fd := f]\<rparr>) k else Done k)"

definition open_streams :: "u64 \<Rightarrow> cstring \<Rightarrow> kernel \<Rightarrow> kernel outcome" where
  "open_streams t tty_path k =
     bind_oc (on_vfs (\<lambda>st. bind_oc (vfs_lookup_path (Some tty_path) st) (\<lambda>(r, n, st). Done ((r, n), st))) k)
       (\<lambda>((r, nd), k). if r \<noteq> 0 \<or> nd = None then Done k else for_oc (open_stream t nd) [0..<3] k)"

definition setup_task_stdio :: "u64 \<Rightarrow> kernel \<Rightarrow> kernel outcome" where
  "setup_task_stdio t k =
     (let con = vfs_con (kvfs k)
      in case current_tty con of
           None \<Rightarrow> Done k
         | Some i \<Rightarrow>
             (if length (ttys con) \<le> i then Wild
              else case itoa (uint (tty_id (the_tty con i))) 10 of
                     None \<Rightarrow> Halts
                   | Some id_str \<Rightarrow> open_streams t (tty_prefix @ id_str) k))"

section \<open>A task from an executable\<close>

definition no_info :: elf_info where
  "no_info = \<lparr>entry_point = 0, base_addr = 0, end_addr = 0, pages = 0, num_pages = 0\<rparr>"

definition task_kmalloc :: "kernel \<Rightarrow> u64 \<times> kernel" where
  "task_kmalloc k = (case task_memory k of [] \<Rightarrow> (0, k) | a # as \<Rightarrow> (a, k\<lparr>task_memory := as\<rparr>))"

text \<open>The failure path: everything that was allocated is given back.\<close>
definition discard :: "u64 \<Rightarrow> u64 \<Rightarrow> u64 \<Rightarrow> u64 \<Rightarrow> elf_info \<Rightarrow> u64 \<Rightarrow> kernel \<Rightarrow> (u64 \<times> kernel) outcome" where
  "discard t kernel_stack stack_pgs ustack info task_cr3 k =
     bind_oc (when_oc (t \<noteq> 0) (free_pages t 1) k) (\<lambda>k.
     bind_oc (when_oc (kernel_stack \<noteq> 0) (free_pages kernel_stack stack_pgs) k) (\<lambda>k.
     bind_oc (when_oc (ustack \<noteq> 0) (free_pages ustack 2) k) (\<lambda>k.
     bind_oc (on_vm (elf_free info) k) (\<lambda>(_, k).
     bind_oc (free_space task_cr3 k) (\<lambda>k. Done (0, k))))))"

text \<open>\<open>build_user_stack\<close> on the 8192 bytes at \<open>p\<close>.\<close>
definition stack_at :: "u64 \<Rightarrow> u64 \<Rightarrow> int \<Rightarrow> cstring list \<Rightarrow> int \<Rightarrow> cstring list \<Rightarrow> kernel \<Rightarrow> user_stack_result option \<times> kernel" where
  "stack_at p vaddr_base argc argv envc envp k =
     (let (buf, res) = build_user_stack (get_block (kvm k) p 8192) 8192 vaddr_base argc argv envc envp
      in (res, k\<lparr>kvm := put_block p buf (kvm k)\<rparr>))"

definition new_regs :: "elf_info \<Rightarrow> user_stack_result \<Rightarrow> int \<Rightarrow> regs" where
  "new_regs info res argc = zero_regs\<lparr>reg_rip := entry_point info, reg_cs := 0x20 OR 3, reg_rflags := 0x202,
     reg_rsp := rsp res, reg_ss := 0x18 OR 3, reg_rdi := of_int argc, reg_rsi := argv_uvaddr res, reg_rdx := envp_uvaddr res\<rparr>"

definition create_elf_task_args :: "u8 list \<Rightarrow> u64 \<Rightarrow> u64 \<Rightarrow> int \<Rightarrow> cstring list \<Rightarrow> int \<Rightarrow> cstring list \<Rightarrow> kernel \<Rightarrow> (u64 \<times> kernel) outcome" where
  "create_elf_task_args elf_data elf_size stack_pgs argc argv envc envp k =
     bind_oc (on_vm vmm_create_user_page_table k) (\<lambda>(task_cr3, k).
     if task_cr3 = 0 then Done (0, k)
     else bind_oc (on_vm (\<lambda>vm. bind_oc (elf_load_into elf_data elf_size no_info task_cr3 vm) (\<lambda>(r, i, vm). Done ((r, i), vm))) k)
       (\<lambda>((loaded, info), k).
     if loaded \<noteq> 0 then bind_oc (free_space task_cr3 k) (\<lambda>k. Done (0, k))
     else
       let (t, k) = task_kmalloc k
       in bind_oc (pages_alloc stack_pgs k) (\<lambda>(kernel_stack, k).
          bind_oc (pages_alloc 2 k) (\<lambda>(ustack, k).
          if t = 0 \<or> kernel_stack = 0 \<or> ustack = 0 then discard t kernel_stack stack_pgs ustack info task_cr3 k
          else
            let k = set_t t (zero_task\<lparr>brk_start := end_addr info, brk_current := end_addr info\<rparr>) k
            in bind_oc (map_user task_cr3 USER_STACK_TOP_VADDR ustack k) (\<lambda>(m1, k).
               bind_oc (if m1 \<noteq> 0 then Done (m1, k) else map_user task_cr3 (USER_STACK_TOP_VADDR + 4096) (ustack + 4096) k) (\<lambda>(m2, k).
               if m2 \<noteq> 0 then discard t kernel_stack stack_pgs ustack info task_cr3 k
               else case stack_at ustack USER_STACK_TOP_VADDR argc argv envc envp k of
                 (None, k) \<Rightarrow> discard t kernel_stack stack_pgs ustack info task_cr3 k
               | (Some res, k) \<Rightarrow>
                   let cwd = (case cwd_of k of Some (Some d) \<Rightarrow> Some d | _ \<Rightarrow> vfs_get_root_dentry (kvfs k))
                   in bind_oc (update_t t (\<lambda>tk. tk\<lparr>stack_base := kernel_stack, stack_pages := stack_pgs, t_state := TASK_RUNNABLE,
                          task_id := next_task_id k, t_cr3 := task_cr3, is_usermode := 1, user_code := pages info, user_stack := ustack,
                          user_code_pages := num_pages info, t_regs := new_regs info res argc, t_cwd := cwd\<rparr>)
                        (k\<lparr>next_task_id := next_task_id k + 1\<rparr>)) (\<lambda>k.
                      bind_oc (setup_task_stdio t k) (\<lambda>k.
                      bind_oc (task_enqueue t k) (\<lambda>k. Done (t, k))))))))))"

section \<open>A copy of the running task\<close>

definition meta_pages :: "u64 \<Rightarrow> u64" where
  "meta_pages n = (let m = (n * 16 + 4095) div 4096 in if m = 0 then 1 else m)"

definition clear_pages :: "u64 \<Rightarrow> u64 \<Rightarrow> vm \<Rightarrow> vm" where
  "clear_pages p n st = fold (\<lambda>i. clear_page (p + of_nat i * 4096)) [0..<unat n] st"

text \<open>An entry of the page list of the child.\<close>
definition copy_entry :: "u64 \<Rightarrow> u64 \<Rightarrow> u64 \<Rightarrow> nat \<Rightarrow> vm \<Rightarrow> vm outcome" where
  "copy_entry parent_pages child_pages child_cr3 i st =
     (if parent_pages = 0 then Wild
      else
        let u_vaddr = rd64 st (parent_pages + of_nat i * 16);
            c_phys = vmm_get_pte child_cr3 u_vaddr st AND PTE_ADDR;
            st = wr64 (child_pages + of_nat i * 16) u_vaddr st
        in Done (wr64 (child_pages + of_nat i * 16 + 8) (virt_from_phys (vpmm st) c_phys) st))"

definition fork_current_task :: "regs \<Rightarrow> kernel \<Rightarrow> (u64 \<times> kernel) outcome" where
  "fork_current_task parent_regs k =
     (if current k = 0 then Done (0, k)
      else bind_oc (get_t (current k) k) (\<lambda>parent.
        if is_usermode parent = 0 then Done (0, k)
        else bind_oc (on_vm (vmm_clone_user_page_table (t_cr3 parent)) k) (\<lambda>(child_cr3, k).
        if child_cr3 = 0 then Done (0, k)
        else bind_oc (pages_alloc 1 k) (\<lambda>(child, k).
             bind_oc (pages_alloc (stack_pages parent) k) (\<lambda>(kernel_stack, k).
        if child = 0 \<or> kernel_stack = 0 then
          bind_oc (when_oc (child \<noteq> 0) (free_pages child 1) k) (\<lambda>k.
          bind_oc (when_oc (kernel_stack \<noteq> 0) (free_pages kernel_stack (stack_pages parent)) k) (\<lambda>k.
          bind_oc (free_space child_cr3 k) (\<lambda>k. Done (0, k))))
        else
          let k = set_t child zero_task (k\<lparr>kvm := clear_page child (kvm k)\<rparr>);
              meta = meta_pages (user_code_pages parent)
          in bind_oc (pages_alloc meta k) (\<lambda>(child_pages, k).
             if child_pages = 0 then
               bind_oc (free_pages kernel_stack (stack_pages parent) k) (\<lambda>k.
               bind_oc (free_pages child 1 k) (\<lambda>k.
               bind_oc (free_space child_cr3 k) (\<lambda>k. Done (0, k))))
             else
               bind_oc (for_oc (copy_entry (user_code parent) child_pages child_cr3) [0..<unat (user_code_pages parent)]
                   (clear_pages child_pages meta (kvm k))) (\<lambda>vm.
                 let stack_phys = vmm_get_pte child_cr3 USER_STACK_TOP_VADDR vm AND PTE_ADDR;
                     child_task = zero_task\<lparr>stack_base := kernel_stack, brk_start := brk_start parent, brk_current := brk_current parent,
                       mmap_base := mmap_base parent, stack_pages := stack_pages parent, t_state := TASK_RUNNABLE,
                       task_id := next_task_id k, parent_id := task_id parent, t_cr3 := child_cr3, is_usermode := 1,
                       user_code := child_pages, user_stack := virt_from_phys (vpmm vm) stack_phys,
                       user_code_pages := user_code_pages parent, t_cwd := t_cwd parent,
                       t_regs := parent_regs\<lparr>reg_rax := 0\<rparr>, fd_table := fd_table parent\<rparr>
                 in bind_oc (task_enqueue child (set_t child child_task (k\<lparr>kvm := vm, next_task_id := next_task_id k + 1\<rparr>))) (\<lambda>k.
                      Done (child, k)))))))))"

end
