(* ===== verification/Syscalls.thy ===== *)
theory Syscalls
  imports Process Hansi
begin

unbundle bit_operations_syntax

text \<open>
  What a system call is for its handlers.  A handler takes six words, as in C.  What the addresses of
  the process lead to is the parameter \<open>user\<close>: the string at an address, the bytes and the null-terminated
  array of pointers; address 0 is tested where C tests it and is \<open>Wild\<close> where C does not.  A handler gives
  the word it returns, as a bit pattern, with the blocks of bytes it stored in the memory of the process.  A
  handler that waits gives what it waits for and what it returns then; \<open>Input\<close> is a read that waits for
  the keyboard.
\<close>

record user =
  u_string :: "u64 \<Rightarrow> cstring"
  u_bytes :: "u64 \<Rightarrow> nat \<Rightarrow> u8 list"
  u_pointers :: "u64 \<Rightarrow> u64 list"

type_synonym stores = "(u64 \<times> u8 list) list"

datatype answer = Ret u64 stores | Wait_then wait u64 | Input

type_synonym handler = "user \<Rightarrow> u64 \<Rightarrow> u64 \<Rightarrow> u64 \<Rightarrow> kernel \<Rightarrow> (answer \<times> kernel) outcome"

definition path_arg :: "user \<Rightarrow> u64 \<Rightarrow> cstring option" where
  "path_arg u p = (if p = 0 then None else Some (u_string u p))"

abbreviation ret :: "u64 \<Rightarrow> kernel \<Rightarrow> (answer \<times> kernel) outcome" where
  "ret v k \<equiv> Done (Ret v [], k)"

end
