(* ===== verification/MemOk.thy ===== *)
theory MemOk
  imports SysMem SchedRun
begin

unbundle bit_operations_syntax

text \<open>
  What the memory system calls do to an address space: a page that is mapped gets a zeroed frame that was
  free, a range gets distinct ones, and unmapping gives them back.  Frame 0 is taken to be in use, as the
  boot loader's map guarantees: a page in frame 0 would have the physical address 0, which
  \<open>vmm_map_page_in\<close> refuses.
\<close>

section \<open>One page\<close>

lemma mem_ok_frame: "mem_ok pm \<Longrightarrow> n \<in> frees pm \<Longrightarrow> n < frames pm"
  using free_below_frames by (simp add: mem_ok_def)

lemma not_free_frame: "n < frames pm \<Longrightarrow> n \<notin> frees pm \<Longrightarrow> table_frame pm (of_nat n * PAGE_SIZE)"
  by (auto simp: table_frame_def)

lemma alloc_fresh:
  assumes ok: "vm_ok st r S"
  shows "case alloc_page st of Wild \<Rightarrow> False | Halts \<Rightarrow> frees (vpmm st) = {}
    | Done (page, st1) \<Rightarrow> \<exists>n. n \<in> frees (vpmm st) \<and> page \<noteq> 0 \<and>
        (let F = of_nat n * PAGE_SIZE; st2 = clear_page page st1
         in phys_from_virt (vpmm st2) page = F \<and> vm_ok st2 r S \<and> same_machine st st2 \<and> frees (vpmm st2) = frees (vpmm st) - {n} \<and>
            outside st2 r S F \<and> (\<forall>i < 512. vmem st2 F i = 0) \<and> \<not> table_frame (vpmm st) F \<and>
            (\<forall>w. idx4 w \<in> S \<longrightarrow> vmm_get_pte r w st2 = vmm_get_pte r w st) \<and>
            (\<forall>a. outside st r S a \<longrightarrow> outside st2 r S a \<and> vmem st2 a = vmem st a))"
proof (cases "alloc_page st")
  case Wild
  then show ?thesis using alloc_page_frames [OF vm_okD(1) [OF ok]] by simp
next
  case Halts
  then show ?thesis using alloc_page_frames [OF vm_okD(1) [OF ok]] by simp
next
  case (Done a)
  have mok: "mem_ok (vpmm st)" using vm_okD(1) [OF ok] .
  obtain n pm where n: "n < frames (vpmm st)" "n \<in> frees (vpmm st)" "mem_ok pm"
      "a = (virt_from_phys (vpmm st) (of_nat n * PAGE_SIZE), st\<lparr>vpmm := pm\<rparr>)"
      "frees pm = frees (vpmm st) - {n}" "layout pm = layout (vpmm st)"
    using alloc_page_frames [OF mok] Done by (cases a) auto
  let ?F = "of_nat n * PAGE_SIZE :: u64" and ?st = "st\<lparr>vpmm := pm\<rparr>"
  have vf: "virt_from_phys pm = virt_from_phys (vpmm st)" "phys_from_virt pm = phys_from_virt (vpmm st)"
    using layout_eqD(3,4) [OF n(6)] by (simp_all add: fun_eq_iff virt_from_phys_def phys_from_virt_def)
  have q: "virt_from_phys (vpmm st) ?F \<noteq> 0" "phys_from_virt (vpmm st) (virt_from_phys (vpmm st) ?F) = ?F"
    using phys_virt [OF mok n(1)] by simp_all
  define st2 where "st2 = ?st\<lparr>vmem := (vmem ?st)(?F := (\<lambda>j. if j < 512 then 0 else vmem ?st ?F j))\<rparr>"
  have "reachable_page ?st ?F" using q(2) vf by (simp add: reachable_page_def)
  then have c: "clear_page (virt_from_phys (vpmm st) ?F) ?st = st2"
    using clear_page_eq [of ?st ?F] vf by (simp add: st2_def)
  have nt: "\<not> table_frame (vpmm st) ?F" using table_frame_free [OF n(1,2)] .
  have v2: "vpmm st2 = pm" "vmem st2 = (vmem st)(?F := (\<lambda>j. if j < 512 then 0 else vmem ?st ?F j))" by (simp_all add: st2_def)
  note K = fresh_page_keeps [OF ok n(1,2,3,5,6) v2]
  have nT: "?F \<notin> tables (vmem st) (pa r) S" using ok nt by (auto simp: vm_ok_def)
  have T: "tables (vmem st2) (pa r) S = tables (vmem st) (pa r) S"
    unfolding tables_def st2_def using node_fresh [OF nT] by auto
  have "outside st2 r S ?F"
    using not_free_frame [of n pm] n(1,5) layout_eqD(2) [OF n(6)] nT T by (simp add: outside_def) (simp add: st2_def)
  moreover have "outside st2 r S b \<and> vmem st2 b = vmem st b" if "outside st r S b" for b
    using that table_frame_mono [OF _ n(6)] n(5) T nt by (auto simp: outside_def st2_def)
  moreover have "vmm_get_pte r w st2 = vmm_get_pte r w st" if "idx4 w \<in> S" for w
    using K(2) that by (simp add: get_pte_translate [OF K(1)] get_pte_translate [OF ok])
  moreover have "same_machine st st2" "vpmm st2 = pm" using n(6) by (simp_all add: same_machine_def st2_def)
  moreover have "\<forall>i < 512. vmem st2 ?F i = 0" "phys_from_virt (vpmm st2) (virt_from_phys (vpmm st) ?F) = ?F"
    using q(2) vf by (simp_all add: st2_def)
  ultimately show ?thesis
    unfolding Done n(4) outcome.case prod.case Let_def c
    by (intro exI [of _ n] conjI) (use n(2,5) q(1) nt K(1) in simp_all)
qed

lemma map_fresh_run:
  assumes ok: "vm_ok st r S" and v: "idx4 v \<in> S" "v \<noteq> 0" and z: "0 \<notin> frees (vpmm st)"
  shows "case map_fresh r v flags st of Wild \<Rightarrow> False | Halts \<Rightarrow> card (frees (vpmm st)) < 4
    | Done (Inl st') \<Rightarrow> False
    | Done (Inr st') \<Rightarrow> \<exists>F. vm_ok st' r S \<and> same_machine st st' \<and> \<not> table_frame (vpmm st) F \<and> outside st' r S F \<and>
        (\<forall>i < 512. vmem st' F i = 0) \<and> vmm_get_pte r v st' = leaf_entry F flags \<and>
        (\<forall>w. idx4 w \<in> S \<longrightarrow> vpage w \<noteq> vpage v \<longrightarrow> vmm_get_pte r w st' = vmm_get_pte r w st) \<and>
        (\<forall>a. outside st r S a \<longrightarrow> outside st' r S a \<and> vmem st' a = vmem st a) \<and>
        (\<exists>N. length N \<le> 4 \<and> frees (vpmm st') = frees (vpmm st) - set N)"
proof (cases "alloc_page st")
  case Wild
  then show ?thesis using alloc_fresh [OF ok] by simp
next
  case Halts
  then show ?thesis using alloc_fresh [OF ok] by (simp add: map_fresh_def)
next
  case (Done a)
  obtain page st1 where a: "a = (page, st1)" by force
  define st2 where "st2 = clear_page page st1"
  obtain n where n: "n \<in> frees (vpmm st)" "page \<noteq> 0" "phys_from_virt (vpmm st2) page = of_nat n * PAGE_SIZE" "vm_ok st2 r S"
      "same_machine st st2" "frees (vpmm st2) = frees (vpmm st) - {n}" "outside st2 r S (of_nat n * PAGE_SIZE)"
      "\<forall>i < 512. vmem st2 (of_nat n * PAGE_SIZE) i = 0" "\<not> table_frame (vpmm st) (of_nat n * PAGE_SIZE)"
      "\<forall>w. idx4 w \<in> S \<longrightarrow> vmm_get_pte r w st2 = vmm_get_pte r w st"
      "\<forall>a. outside st r S a \<longrightarrow> outside st2 r S a \<and> vmem st2 a = vmem st a"
    using alloc_fresh [OF ok] Done a by (auto simp: Let_def st2_def)
  let ?F = "of_nat n * PAGE_SIZE :: u64"
  have "n < frames (vpmm st)" using mem_ok_frame [OF vm_okD(1) [OF ok] n(1)] .
  then have "unat ?F = n * 4096" "n \<noteq> 0" using frame_addr_less n(1) z by (auto intro: gr0I)
  then have F0: "?F \<noteq> 0" by (metis mult_eq_0_iff unat_0 zero_neq_numeral)
  note M = map_page_in_run [OF n(4) v F0, of flags]
  have m: "map_fresh r v flags st = bind_oc (vmm_map_page_in r v ?F flags st2)
      (\<lambda>(res, st). if res \<noteq> 0 then bind_oc (free_frame page st) (\<lambda>st. Done (Inl st)) else Done (Inr st))"
    using Done a n(2,3) by (simp add: map_fresh_def st2_def [symmetric])
  have cd: "card (frees (vpmm st)) < 4" if "card (frees (vpmm st2)) < 3"
    using that n(1) unfolding n(6) by (cases "finite (frees (vpmm st))") auto
  have N4: "\<exists>N'. length N' \<le> 4 \<and> frees pm = frees (vpmm st) - set N'" if "length N \<le> 3" "frees pm = frees (vpmm st2) - set N" for pm N
    using that n(6) by (intro exI [of _ "n # N"]) auto
  show ?thesis
  proof (cases "vmm_map_page_in r v ?F flags st2")
    case (Done b)
    obtain st3 where b: "b = (0, st3)" using M Done by (cases b) auto
    have s: "same_machine st st3" using n(5) M Done b by (simp add: same_machine_def)
    show ?thesis using M Done b n(7-11) s N4 unfolding m
      by (auto intro!: exI [of _ ?F])
  qed (use M m cd in auto)
qed


section \<open>Ranges\<close>

text \<open>
  \<open>st'\<close> is \<open>st\<close> with the pages \<open>vs\<close> mapped to the frames \<open>fs\<close>: frames that were not in use, all different, not
  tables, and zeroed; all other pages and all frames that were in use are as before.
\<close>
definition fresh_pages :: "u64 \<Rightarrow> nat set \<Rightarrow> u64 \<Rightarrow> u64 list \<Rightarrow> u64 list \<Rightarrow> vm \<Rightarrow> vm \<Rightarrow> bool" where
  "fresh_pages r S flags vs fs st st' \<longleftrightarrow>
     vm_ok st' r S \<and> same_machine st st' \<and> length fs = length vs \<and> distinct fs \<and>
     (\<forall>F \<in> set fs. \<not> table_frame (vpmm st) F \<and> outside st' r S F \<and> (\<forall>i < 512. vmem st' F i = 0)) \<and>
     (\<forall>j < length vs. vmm_get_pte r (vs ! j) st' = leaf_entry (fs ! j) flags) \<and>
     (\<forall>w. idx4 w \<in> S \<longrightarrow> vpage w \<notin> vpage ` set vs \<longrightarrow> vmm_get_pte r w st' = vmm_get_pte r w st) \<and>
     (\<forall>a. outside st r S a \<longrightarrow> outside st' r S a \<and> vmem st' a = vmem st a) \<and>
     (\<exists>N. length N \<le> 4 * length vs \<and> frees (vpmm st') = frees (vpmm st) - set N)"

lemma fresh_pages_Nil: "vm_ok st r S \<Longrightarrow> fresh_pages r S flags [] [] st st"
  by (simp add: fresh_pages_def same_machine_def)

lemma fresh_pages_Cons:
  assumes a: "fresh_pages r S flags [v] [F] st s1" and b: "fresh_pages r S flags vs fs s1 s2"
    and d: "vpage v \<notin> vpage ` set vs" and v: "idx4 v \<in> S"
  shows "fresh_pages r S flags (v # vs) (F # fs) st s2"
proof -
  have F: "\<not> table_frame (vpmm st) F" "outside s1 r S F" "\<forall>i < 512. vmem s1 F i = 0" "vmm_get_pte r v s1 = leaf_entry F flags"
      "vm_ok s1 r S" "same_machine st s1"
    using a by (simp_all add: fresh_pages_def)
  obtain N N' where N: "length N \<le> 4" "frees (vpmm s1) = frees (vpmm st) - set N" "length N' \<le> 4 * length vs"
      "frees (vpmm s2) = frees (vpmm s1) - set N'"
    using a b by (auto simp: fresh_pages_def)
  have b': "\<And>G. G \<in> set fs \<Longrightarrow> \<not> table_frame (vpmm s1) G" "\<And>a. outside s1 r S a \<Longrightarrow> outside s2 r S a \<and> vmem s2 a = vmem s1 a"
      "\<And>w. idx4 w \<in> S \<Longrightarrow> vpage w \<notin> vpage ` set vs \<Longrightarrow> vmm_get_pte r w s2 = vmm_get_pte r w s1" "same_machine s1 s2"
    using b by (simp_all add: fresh_pages_def)
  have mono: "table_frame (vpmm st) G \<Longrightarrow> table_frame (vpmm s1) G" for G
    using table_frame_mono [of "vpmm st" G "vpmm s1"] N(2) F(6) by (auto simp: same_machine_def)
  have "F \<notin> set fs" using b'(1) F(2) by (auto simp: outside_def)
  moreover have "\<And>G. G \<in> set fs \<Longrightarrow> \<not> table_frame (vpmm st) G" using b'(1) mono by blast
  moreover have "vmm_get_pte r v s2 = leaf_entry F flags" using b'(3) [OF v d] F(4) by simp
  moreover have "outside s2 r S F" "\<forall>i < 512. vmem s2 F i = 0" using b'(2) [OF F(2)] F(3) by simp_all
  moreover have "same_machine st s2" using F(6) b'(4) by (simp add: same_machine_def)
  moreover have "\<exists>M. length M \<le> 4 * length (v # vs) \<and> frees (vpmm s2) = frees (vpmm st) - set M"
    using N by (intro exI [of _ "N @ N'"]) auto
  moreover have "\<And>j. j < length (v # vs) \<Longrightarrow> vmm_get_pte r ((v # vs) ! j) s2 = leaf_entry ((F # fs) ! j) flags"
    using b calculation(3) by (auto simp: fresh_pages_def nth_Cons split: nat.split)
  ultimately show ?thesis
    using a b F(1) unfolding fresh_pages_def [of r S flags "v # vs"] by (auto simp: fresh_pages_def)
qed

lemma map_fresh_pages:
  assumes "vm_ok st r S" and "idx4 v \<in> S" "v \<noteq> 0" and "0 \<notin> frees (vpmm st)"
  shows "case map_fresh r v flags st of Wild \<Rightarrow> False | Halts \<Rightarrow> card (frees (vpmm st)) < 4
    | Done (Inl st') \<Rightarrow> False
    | Done (Inr st') \<Rightarrow> \<exists>F. fresh_pages r S flags [v] [F] st st'"
  using map_fresh_run [OF assms, of flags] by (fastforce simp: fresh_pages_def split: outcome.split sum.split)

lemma map_loop_run:
  assumes "vm_ok st r S" and "0 \<notin> frees (vpmm st)"
    and "\<And>j. j < n \<Longrightarrow> idx4 (page_of v (i + j)) \<in> S \<and> page_of v (i + j) \<noteq> 0"
    and "distinct (map (\<lambda>j. vpage (page_of v j)) [i..<i + n])"
  shows "case map_loop r v i n flags st of Wild \<Rightarrow> False | Halts \<Rightarrow> card (frees (vpmm st)) < 4 * n
    | Done (res, st') \<Rightarrow> res = 0 \<and> (\<exists>fs. fresh_pages r S flags (map (page_of v) [i..<i + n]) fs st st')"
  using assms
proof (induction n arbitrary: i st)
  case 0
  then show ?case by (auto intro!: exI [of _ "[]"] fresh_pages_Nil)
next
  case (Suc n)
  have v: "idx4 (page_of v i) \<in> S" "page_of v i \<noteq> 0" using Suc.prems(3) [of 0] by simp_all
  note M = map_fresh_pages [OF Suc.prems(1) v Suc.prems(2), of flags]
  show ?case
  proof (cases "map_fresh r (page_of v i) flags st")
    case Wild
    then show ?thesis using M by simp
  next
    case Halts
    then show ?thesis using M by simp
  next
    case (Done b)
    then obtain s1 F where b: "b = Inr s1" and F: "fresh_pages r S flags [page_of v i] [F] st s1"
      using M by (cases b) auto
    have up: "[i..<i + Suc n] = i # [Suc i..<Suc i + n]" by (simp add: upt_rec)
    have ok1: "vm_ok s1 r S" using F by (simp add: fresh_pages_def)
    obtain N where N: "length N \<le> 4" "frees (vpmm s1) = frees (vpmm st) - set N" using F by (auto simp: fresh_pages_def)
    have z1: "0 \<notin> frees (vpmm s1)" using Suc.prems(2) N(2) by simp
    have c1: "card (frees (vpmm st)) < 4 * Suc n" if "card (frees (vpmm s1)) < 4 * n"
    proof -
      have "card (set N) \<le> 4" using N(1) card_length [of N] by linarith
      then show ?thesis using that diff_card_le_card_Diff [of "set N" "frees (vpmm st)"] unfolding N(2) by simp
    qed
    have d: "vpage (page_of v i) \<notin> vpage ` set (map (page_of v) [Suc i..<Suc i + n])"
      using Suc.prems(4) unfolding up by (auto simp: image_image)
    have IH: "case map_loop r v (Suc i) n flags s1 of Wild \<Rightarrow> False | Halts \<Rightarrow> card (frees (vpmm s1)) < 4 * n
        | Done (res, st') \<Rightarrow> res = 0 \<and> (\<exists>fs. fresh_pages r S flags (map (page_of v) [Suc i..<Suc i + n]) fs s1 st')"
    proof (rule Suc.IH [OF ok1 z1])
      show "distinct (map (\<lambda>j. vpage (page_of v j)) [Suc i..<Suc i + n])" using Suc.prems(4) unfolding up by simp
    qed (use Suc.prems(3) [of "Suc _"] in simp)
    show ?thesis
      using IH Done b c1 fresh_pages_Cons [OF F _ d v(1)] unfolding up
      by (cases "map_loop r v (Suc i) n flags s1") (auto simp del: upt_Suc)
  qed
qed

section \<open>Taking pages out\<close>

text \<open>Giving back a frame that no page table of the address space is in.\<close>

lemma free_frame_run:
  assumes ok: "vm_ok st r S" and F: "outside st r S F"
  shows "\<exists>n pm. F = of_nat n * PAGE_SIZE \<and> n < frames (vpmm st) \<and> n \<notin> frees (vpmm st) \<and>
    free_frame (virt_from_phys (vpmm st) F) st = Done (st\<lparr>vpmm := pm\<rparr>) \<and> frees pm = insert n (frees (vpmm st)) \<and>
    layout pm = layout (vpmm st) \<and> vm_ok (st\<lparr>vpmm := pm\<rparr>) r S \<and>
    (\<forall>w. idx4 w \<in> S \<longrightarrow> vmm_get_pte r w (st\<lparr>vpmm := pm\<rparr>) = vmm_get_pte r w st) \<and>
    (\<forall>a. outside st r S a \<longrightarrow> a \<noteq> F \<longrightarrow> outside (st\<lparr>vpmm := pm\<rparr>) r S a)"
proof -
  have mok: "mem_ok (vpmm st)" using vm_okD(1) [OF ok] .
  obtain n where n: "F = of_nat n * PAGE_SIZE" "n < frames (vpmm st)" "n \<notin> frees (vpmm st)" "F \<notin> tables (vmem st) (pa r) S"
    using F by (auto simp: outside_def table_frame_def)
  have "virt_from_phys (vpmm st) F = page_addr (vpmm st) n" using phys_virt(3) [OF mok n(2)] n(1) by simp
  then obtain pm where pm: "pmm_free_pages (virt_from_phys (vpmm st) F) 1 (vpmm st) = Done pm" "pmm_ok pm" "same_layout (vpmm st) pm"
      "frees pm = insert n (frees (vpmm st))"
    using pmm_free_pages_returns [of "vpmm st" n 1 "virt_from_phys (vpmm st) F"] mok n(2) by (auto simp: mem_ok_def)
  let ?st = "st\<lparr>vpmm := pm\<rparr>"
  have l: "layout pm = layout (vpmm st)" using same_layout_layout pm(3) by blast
  have m: "mem_ok pm" using mok pm(2,3) by (simp add: mem_ok_def same_layout_fields)
  have t: "table_frame pm a" if "table_frame (vpmm st) a" "a \<noteq> F" for a
    using that pm(4) layout_eqD(2) [OF l] n(1) by (auto simp: table_frame_def)
  have ok': "vm_ok ?st r S" using ok m t n(4) by (auto simp: vm_ok_def)
  have "vmm_get_pte r w ?st = vmm_get_pte r w st" if "idx4 w \<in> S" for w
    using that by (simp add: get_pte_translate [OF ok'] get_pte_translate [OF ok] Vmm.translate_def cong: option.case_cong)
  moreover have "free_frame (virt_from_phys (vpmm st) F) st = Done ?st" using pm(1) by (simp add: free_frame_def)
  moreover have "outside ?st r S a" if "outside st r S a" "a \<noteq> F" for a using that t by (simp add: outside_def)
  ultimately show ?thesis using n pm(4) ok' l by (intro exI [of _ n] exI [of _ pm] conjI) simp_all
qed

text \<open>The pages \<open>vs\<close> are mapped to the different frames \<open>fs\<close>, none of which is a table.\<close>
definition mapped_to :: "u64 \<Rightarrow> nat set \<Rightarrow> u64 list \<Rightarrow> u64 list \<Rightarrow> vm \<Rightarrow> bool" where
  "mapped_to r S vs fs st \<longleftrightarrow> vm_ok st r S \<and> length fs = length vs \<and> distinct fs \<and> distinct (map vpage vs) \<and>
     (\<forall>j < length vs. idx4 (vs ! j) \<in> S \<and> present (vmm_get_pte r (vs ! j) st) \<and>
        vmm_get_pte r (vs ! j) st AND PTE_ADDR = fs ! j \<and> fs ! j \<noteq> 0 \<and> outside st r S (fs ! j))"

text \<open>\<open>st'\<close> is \<open>st\<close> with these pages taken out.\<close>
definition taken_out :: "u64 \<Rightarrow> nat set \<Rightarrow> u64 list \<Rightarrow> u64 list \<Rightarrow> vm \<Rightarrow> vm \<Rightarrow> bool" where
  "taken_out r S vs fs st st' \<longleftrightarrow> vm_ok st' r S \<and> same_machine st st' \<and>
     (\<forall>v \<in> set vs. vmm_get_pte r v st' = 0) \<and>
     (\<forall>w. idx4 w \<in> S \<longrightarrow> vpage w \<notin> vpage ` set vs \<longrightarrow> vmm_get_pte r w st' = vmm_get_pte r w st) \<and>
     (\<forall>a. outside st r S a \<longrightarrow> a \<notin> set fs \<longrightarrow> outside st' r S a \<and> vmem st' a = vmem st a) \<and>
     frees (vpmm st') = frees (vpmm st) \<union> {n. n < frames (vpmm st) \<and> of_nat n * PAGE_SIZE \<in> set fs}"


lemma unmap_one_run:
  assumes m: "mapped_to r S (v # vs) (F # fs) st" and v: "v = page_of vaddr i"
  shows "\<exists>st'. unmap_one r vaddr i st = Done st' \<and> taken_out r S [v] [F] st st' \<and> mapped_to r S vs fs st'"
proof -
  have ok: "vm_ok st r S" and d: "distinct (F # fs)" "distinct (map vpage (v # vs))" "length fs = length vs" using m by (simp_all add: mapped_to_def)
  have a: "idx4 v \<in> S \<and> present (vmm_get_pte r v st) \<and> vmm_get_pte r v st AND PTE_ADDR = F \<and> F \<noteq> 0 \<and> outside st r S F"
    using m by (auto simp: mapped_to_def dest: spec [of _ 0])
  have as: "idx4 (vs ! j) \<in> S \<and> present (vmm_get_pte r (vs ! j) st) \<and> vmm_get_pte r (vs ! j) st AND PTE_ADDR = fs ! j \<and> fs ! j \<noteq> 0 \<and> outside st r S (fs ! j)"
    if "j < length vs" for j
    using m that by (auto simp: mapped_to_def dest: spec [of _ "Suc j"])
  obtain s1 where s1: "vmm_unmap_page_in r v st = (F, s1)" "vm_ok s1 r S" "vmm_get_pte r v s1 = 0"
      "\<And>w. idx4 w \<in> S \<Longrightarrow> vpage w \<noteq> vpage v \<Longrightarrow> vmm_get_pte r w s1 = vmm_get_pte r w st"
      "\<And>a. outside st r S a \<Longrightarrow> outside s1 r S a \<and> vmem s1 a = vmem st a" "vpmm s1 = vpmm st" "same_machine st s1"
    using unmap_page_in_run [OF ok conjunct1 [OF a]] a by auto
  have o1: "outside s1 r S F" using s1(5) a by blast
  obtain n pm where f: "F = of_nat n * PAGE_SIZE" "n < frames (vpmm s1)"
      "free_frame (virt_from_phys (vpmm s1) F) s1 = Done (s1\<lparr>vpmm := pm\<rparr>)" "frees pm = insert n (frees (vpmm s1))"
      "layout pm = layout (vpmm s1)" "vm_ok (s1\<lparr>vpmm := pm\<rparr>) r S"
      "\<And>w. idx4 w \<in> S \<Longrightarrow> vmm_get_pte r w (s1\<lparr>vpmm := pm\<rparr>) = vmm_get_pte r w s1"
      "\<And>a. outside s1 r S a \<Longrightarrow> a \<noteq> F \<Longrightarrow> outside (s1\<lparr>vpmm := pm\<rparr>) r S a"
    using free_frame_run [OF s1(2) o1] by blast
  let ?s = "s1\<lparr>vpmm := pm\<rparr>"
  have u: "unmap_one r vaddr i st = Done ?s" using s1(1) f(3) a v by (simp add: unmap_one_def)
  have fr: "{k. k < frames (vpmm st) \<and> (of_nat k * PAGE_SIZE :: u64) = F} = {n}"
    using f(1,2) frame_addr_less [of _ "vpmm st"] unfolding s1(6) by (auto) (metis mult_right_cancel zero_neq_numeral)
  have "taken_out r S [v] [F] st ?s"
    unfolding taken_out_def using f s1 a fr by (auto simp: same_machine_def)
  moreover have "mapped_to r S vs fs ?s"
  proof -
    have "vpage (vs ! j) \<noteq> vpage v" "fs ! j \<noteq> F" if j: "j < length vs" for j
    proof -
      have "vpage (vs ! j) \<in> vpage ` set vs" "fs ! j \<in> set fs" using j d(3) by simp_all
      moreover have "vpage v \<notin> vpage ` set vs" "F \<notin> set fs" using d(1,2) by simp_all
      ultimately show "vpage (vs ! j) \<noteq> vpage v" "fs ! j \<noteq> F" by metis+
    qed
    then show ?thesis unfolding mapped_to_def using as d f(6-8) s1(4,5) by auto
  qed
  ultimately show ?thesis using u by blast
qed

lemma taken_out_Cons:
  assumes a: "taken_out r S [v] [F] st s1" and b: "taken_out r S vs fs s1 s2" and d: "vpage v \<notin> vpage ` set vs" "idx4 v \<in> S"
  shows "taken_out r S (v # vs) (F # fs) st s2"
proof -
  have "layout (vpmm s1) = layout (vpmm st)" using a by (simp only: taken_out_def same_machine_def)
  note n = layout_eqD(2) [OF this]
  have f: "frees (vpmm s2) = frees (vpmm st) \<union> {n. n < frames (vpmm st) \<and> of_nat n * PAGE_SIZE \<in> set (F # fs)}"
  proof -
    have e: "frees (vpmm s1) = frees (vpmm st) \<union> {n. n < frames (vpmm st) \<and> of_nat n * PAGE_SIZE \<in> set [F]}"
        "frees (vpmm s2) = frees (vpmm s1) \<union> {n. n < frames (vpmm s1) \<and> of_nat n * PAGE_SIZE \<in> set fs}"
      using a b by (simp_all only: taken_out_def)
    show ?thesis unfolding e n by (simp only: list.set) blast
  qed
  have a': "\<And>w. idx4 w \<in> S \<Longrightarrow> vpage w \<noteq> vpage v \<Longrightarrow> vmm_get_pte r w s1 = vmm_get_pte r w st" "vmm_get_pte r v s1 = 0"
      "\<And>a. outside st r S a \<Longrightarrow> a \<noteq> F \<Longrightarrow> outside s1 r S a \<and> vmem s1 a = vmem st a" "same_machine st s1"
    using a by (simp_all add: taken_out_def)
  have b': "\<And>w. idx4 w \<in> S \<Longrightarrow> vpage w \<notin> vpage ` set vs \<Longrightarrow> vmm_get_pte r w s2 = vmm_get_pte r w s1" "\<And>v. v \<in> set vs \<Longrightarrow> vmm_get_pte r v s2 = 0"
      "\<And>a. outside s1 r S a \<Longrightarrow> a \<notin> set fs \<Longrightarrow> outside s2 r S a \<and> vmem s2 a = vmem s1 a" "same_machine s1 s2" "vm_ok s2 r S"
    using b by (simp_all add: taken_out_def)
  have "vmm_get_pte r v s2 = 0" using b'(1) [OF d(2,1)] a'(2) by simp
  moreover have "same_machine st s2" using a'(4) b'(4) by (simp add: same_machine_def)
  moreover have "vmm_get_pte r w s2 = vmm_get_pte r w st" if "idx4 w \<in> S" "vpage w \<notin> vpage ` set (v # vs)" for w
    using that a'(1) b'(1) by simp
  moreover have "outside s2 r S a \<and> vmem s2 a = vmem st a" if "outside st r S a" "a \<notin> set (F # fs)" for a
    using that a'(3) b'(3) by simp
  ultimately show ?thesis using b'(2,5) f unfolding taken_out_def by simp
qed

lemma unmap_loop_run:
  "mapped_to r S (map (page_of vaddr) is) fs st \<Longrightarrow>
   \<exists>st'. for_oc (unmap_one r vaddr) is st = Done st' \<and> taken_out r S (map (page_of vaddr) is) fs st st'"
proof (induction "is" arbitrary: fs st)
  case Nil
  then show ?case by (auto simp: mapped_to_def taken_out_def same_machine_def)
next
  case (Cons i "is")
  then obtain F fs' where fs: "fs = F # fs'" by (cases fs) (auto simp: mapped_to_def)
  have m: "mapped_to r S (page_of vaddr i # map (page_of vaddr) is) (F # fs') st" using Cons.prems fs by simp
  obtain s1 where s1: "unmap_one r vaddr i st = Done s1" "taken_out r S [page_of vaddr i] [F] st s1" "mapped_to r S (map (page_of vaddr) is) fs' s1"
    using unmap_one_run [OF m refl] by blast
  obtain s2 where s2: "for_oc (unmap_one r vaddr) is s1 = Done s2" "taken_out r S (map (page_of vaddr) is) fs' s1 s2"
    using Cons.IH [OF s1(3)] by blast
  have "vpage (page_of vaddr i) \<notin> vpage ` set (map (page_of vaddr) is)" "idx4 (page_of vaddr i) \<in> S"
    using m by (auto simp: mapped_to_def dest: spec [of _ 0])
  then show ?case using taken_out_Cons [OF s1(2) s2(2)] s1(1) s2(1) fs by auto
qed

section \<open>Page ranges of the user half\<close>

text \<open>The pages of a range that lies in the user half are different, not null, and have their index there.\<close>

definition user_range :: "u64 \<Rightarrow> nat \<Rightarrow> bool" where
  "user_range v n \<longleftrightarrow> v AND NOT PAGE_MASK = 0 \<and> v \<noteq> 0 \<and> unat v + n * 4096 \<le> 2 ^ 47"

lemma page_of_nat: "user_range v n \<Longrightarrow> j < n \<Longrightarrow> unat (page_of v j) = unat v + j * 4096"
proof -
  assume r: "user_range v n" and j: "j < n"
  have "j * 4096 < n * 4096" using j by simp
  then have lt: "unat v + j * 4096 < 2 ^ 47" using r unfolding user_range_def by linarith
  then have "unat (of_nat j * PAGE_SIZE :: u64) = j * 4096" using lt by (intro unat_frame_addr) simp
  then show ?thesis using lt by (simp add: page_of_def unat_add_nowrap)
qed

lemma idx4_low: "unat v < 2 ^ 47 \<Longrightarrow> idx4 v < 256"
proof -
  assume v: "unat v < 2 ^ 47"
  have "unat (drop_bit 39 v AND 0x1FF) \<le> unat (drop_bit 39 v)" using word_and_le2 [of "drop_bit 39 v" "0x1FF"] by (simp add: word_le_nat_alt)
  moreover have "unat (drop_bit 39 v) = unat v div 2 ^ 39" by (simp add: drop_bit_eq_div unat_div)
  moreover have "unat v div 2 ^ 39 < 256" using v by (simp add: div_less_iff_less_mult)
  ultimately show ?thesis by (simp add: idx4_def)
qed

lemma vpage_low: "unat v < 2 ^ 47 \<Longrightarrow> unat (vpage v) = unat v div 4096"
proof -
  assume v: "unat v < 2 ^ 47"
  then have "unat v div 4096 < 2 ^ 36" by (simp add: div_less_iff_less_mult)
  then show ?thesis
    by (simp add: vpage_def take_bit_eq_mask [symmetric] drop_bit_eq_div take_bit_eq_mod unat_div unat_mod)
qed

lemma user_range_pages:
  assumes r: "user_range v n"
  shows "j < n \<Longrightarrow> idx4 (page_of v j) \<in> {0..<256} \<and> page_of v j \<noteq> 0"
    and "distinct (map (\<lambda>j. vpage (page_of v j)) [0..<n])"
proof -
  have lt: "unat (page_of v j) < 2 ^ 47" if "j < n" for j
  proof -
    have "j * 4096 < n * 4096" using that by simp
    then show ?thesis using r page_of_nat [OF r that] unfolding user_range_def by linarith
  qed
  show "idx4 (page_of v j) \<in> {0..<256} \<and> page_of v j \<noteq> 0" if "j < n"
  proof -
    have "unat v \<noteq> 0" using r by (simp add: user_range_def unat_eq_0)
    then have "unat (page_of v j) \<noteq> 0" using page_of_nat [OF r that] by simp
    then show ?thesis using idx4_low [OF lt [OF that]] by (auto simp: unat_eq_0)
  qed
  have "unat (vpage (page_of v j)) = unat v div 4096 + j" if "j < n" for j
    using vpage_low [OF lt [OF that]] page_of_nat [OF r that] by simp
  then have "inj_on (\<lambda>j. vpage (page_of v j)) {0..<n}"
    by (intro inj_onI) (metis add_left_cancel atLeastLessThan_iff)
  then show "distinct (map (\<lambda>j. vpage (page_of v j)) [0..<n])" by (simp add: distinct_map)
qed

lemma prot_flags: "prot_to_flags prot AND PTE_ADDR = 0" "present (prot_to_flags prot)" "prot_to_flags prot \<noteq> 0"
proof -
  have "bit (prot_to_flags prot) 0"
    by (simp add: prot_to_flags_def Let_def bit_or_iff PTE_PRESENT_def PTE_USER_def PTE_RW_def PTE_NX_def bit_0)
  then show "present (prot_to_flags prot)" "prot_to_flags prot \<noteq> 0" by (auto simp: present_bit)
  show "prot_to_flags prot AND PTE_ADDR = 0"
    by (simp add: prot_to_flags_def Let_def PTE_PRESENT_def PTE_USER_def PTE_RW_def PTE_NX_def PTE_ADDR_def)
qed

lemma leaf_prot:
  assumes "F AND PTE_ADDR = F"
  shows "leaf_entry F (prot_to_flags prot) AND PTE_ADDR = F" "present (leaf_entry F (prot_to_flags prot))"
  using assms prot_flags [of prot] present_or [of "prot_to_flags prot" F]
  by (simp_all add: leaf_entry_def present_bit bit.conj_disj_distrib2)

text \<open>Mapped pages can be taken out again.\<close>

lemma fresh_pages_mapped:
  assumes f: "fresh_pages r S (prot_to_flags prot) vs fs st st'" and z: "0 \<notin> frees (vpmm st)"
    and vs: "\<And>v. v \<in> set vs \<Longrightarrow> idx4 v \<in> S" "distinct (map vpage vs)"
  shows "mapped_to r S vs fs st'"
proof -
  have ok: "vm_ok st' r S" and l: "layout (vpmm st') = layout (vpmm st)" using f by (simp_all add: fresh_pages_def same_machine_def)
  have F: "F AND PTE_ADDR = F \<and> F \<noteq> 0 \<and> outside st' r S F" if "F \<in> set fs" for F
  proof -
    have o: "outside st' r S F" "\<not> table_frame (vpmm st) F" using f that by (simp_all add: fresh_pages_def)
    have "table_frame (vpmm st) 0" if "table_frame (vpmm st') 0"
      using that z layout_eqD(2) [OF l] by (auto simp: table_frame_def intro!: exI [of _ 0])
    then have "F \<noteq> 0" using o by (auto simp: outside_def)
    then show ?thesis using o table_frame_virt [OF vm_okD(1) [OF ok]] by (simp add: outside_def)
  qed
  have n: "length fs = length vs" "distinct fs" "\<And>j. j < length vs \<Longrightarrow> vmm_get_pte r (vs ! j) st' = leaf_entry (fs ! j) (prot_to_flags prot)"
    using f by (simp_all add: fresh_pages_def)
  show ?thesis unfolding mapped_to_def using ok n vs F leaf_prot nth_mem by simp
qed

section \<open>System calls\<close>

lemma map_pages_range:
  assumes "vm_ok st r {0..<256}" and "0 \<notin> frees (vpmm st)" and "user_range v (unat n)"
  shows "case map_pages r v n flags st of Wild \<Rightarrow> False | Halts \<Rightarrow> card (frees (vpmm st)) < 4 * unat n
    | Done (res, st') \<Rightarrow> res = 0 \<and> (\<exists>fs. fresh_pages r {0..<256} flags (map (page_of v) [0..<unat n]) fs st st')"
  unfolding map_pages_def using user_range_pages [OF assms(3)]
  by (intro map_loop_run [where i = 0, unfolded add_0, OF assms(1,2)]) simp_all

lemma unmap_pages_range:
  assumes f: "fresh_pages r {0..<256} (prot_to_flags prot) (map (page_of v) [0..<unat n]) fs st st'" and z: "0 \<notin> frees (vpmm st)"
    and u: "user_range v (unat n)"
  shows "\<exists>st''. unmap_pages r v n st' = Done st'' \<and> taken_out r {0..<256} (map (page_of v) [0..<unat n]) fs st' st''"
proof -
  have "mapped_to r {0..<256} (map (page_of v) [0..<unat n]) fs st'"
    by (rule fresh_pages_mapped [OF f z]) (use user_range_pages [OF u] in \<open>auto simp: comp_def\<close>)
  then show ?thesis using unmap_loop_run by (simp add: unmap_pages_def)
qed

lemma page_count:
  assumes "unat len < 2 ^ 63"
  shows "unat (PAGE_ALIGN_UP len div PAGE_SIZE) = (unat len + 4095) div 4096"
proof -
  have m: "PAGE_MASK = NOT (mask 12)" by (simp add: PAGE_MASK_def page_mask)
  have s: "unat (len + PAGE_SIZE - 1) = unat len + 4095"
  proof -
    have "len + PAGE_SIZE - 1 = len + 4095" by (simp add: PAGE_SIZE_def)
    then show ?thesis using assms by (simp only:) (simp add: unat_add_nowrap)
  qed
  have "PAGE_ALIGN_UP len div PAGE_SIZE = drop_bit 12 (PAGE_ALIGN_UP len)"
    by (simp add: PAGE_SIZE_def drop_bit_eq_div)
  also have "\<dots> = drop_bit 12 (len + PAGE_SIZE - 1)"
    unfolding PAGE_ALIGN_UP_def m by (rule bit_word_eqI) (auto simp: bit_drop_bit_eq bit_and_iff bit_not_iff bit_mask_iff dest: bit_imp_le_length)
  finally show ?thesis using s by (simp add: drop_bit_eq_div unat_div)
qed


lemma with_space_run:
  "current k \<noteq> 0 \<Longrightarrow> tasks k (current k) = Some t \<Longrightarrow> t_cr3 t \<noteq> 0 \<Longrightarrow> with_space f k = f t k"
  by (simp add: with_space_def get_t_alive)

text \<open>Where an anonymous mapping without address goes.\<close>
definition next_base :: "task \<Rightarrow> u64" where
  "next_base t = (if mmap_base t = 0 then MMAP_BASE else mmap_base t)"

lemma mmap_place_next:
  assumes "current k \<noteq> 0" and "tasks k (current k) = Some t" and "flags AND MAP_FIXED = 0"
  shows "mmap_place 0 n flags k =
    Done (Some (next_base t), set_t (current k) (t\<lparr>mmap_base := next_base t + n * PAGE_SIZE\<rparr>) k)"
  using assms by (cases k) (auto simp: mmap_place_def set_current_def update_t_alive get_t_alive next_base_def set_t_def MMAP_BASE_def)

text \<open>
  C38. An anonymous mapping (no \<open>MAP_FIXED\<close>, address argument 0, a protection that is not writable and
  executable at once) whose range, at the process's next base, lies below the end of the user half:
  it returns a page-aligned address in the user half; every page of the range from there is then
  mapped, with the flags for the requested protection, to a zeroed frame of its own that was not in use,
  and every other page of the process and every frame that was in use, except its page tables, is as
  before.  \<open>munmap\<close> of the same range then takes exactly these pages out and gives exactly their frames
  back.  \<open>mmap\<close> fails to return only when fewer than four frames for each page are free, and neither
  operation leaves the memory it owns.  Nothing is claimed about where the next mapping goes, nor of
  pages that are writable and executable: there the comments of the code say other things than the
  code does.
\<close>
theorem mmap_then_munmap:
  assumes task: "current k \<noteq> 0" "tasks k (current k) = Some t" "t_cr3 t \<noteq> 0"
    and space: "vm_ok (kvm k) (t_cr3 t) {0..<256}" "0 \<notin> frees (vpmm (kvm k))"
    and len: "len \<noteq> 0" "unat len < 2 ^ 63" and n: "n = (unat len + 4095) div 4096"
    and flags: "flags AND MAP_ANONYMOUS \<noteq> 0" "flags AND (MAP_PRIVATE OR MAP_SHARED) \<noteq> 0" "flags AND MAP_FIXED = 0"
    and prot: "prot AND PROT_WRITE = 0 \<or> prot AND PROT_EXEC = 0"
    and range: "user_range (next_base t) n"
  shows "case sys_mmap 0 len prot flags fd off k of
      Wild \<Rightarrow> False
    | Halts \<Rightarrow> card (frees (vpmm (kvm k))) < 4 * n
    | Done (a, k') \<Rightarrow>
        (\<exists>v fs. a = Ret v [] \<and> user_range v n \<and>
          fresh_pages (t_cr3 t) {0..<256} (prot_to_flags prot) (map (page_of v) [0..<n]) fs (kvm k) (kvm k') \<and>
          (\<exists>k''. sys_munmap u v len x k' = Done (Ret 0 [], k'') \<and>
             taken_out (t_cr3 t) {0..<256} (map (page_of v) [0..<n]) fs (kvm k') (kvm k'')))"
proof -
  let ?n = "PAGE_ALIGN_UP len div PAGE_SIZE" and ?b = "next_base t"
  let ?k = "set_t (current k) (t\<lparr>mmap_base := ?b + ?n * PAGE_SIZE\<rparr>) k"
  have n': "unat ?n = n" using page_count [OF len(2)] n by simp
  have m: "sys_mmap 0 len prot flags fd off k = bind_oc (on_vm (map_pages (t_cr3 t) ?b ?n (prot_to_flags prot)) ?k)
      (\<lambda>(r, k). if r \<noteq> 0 then ret r k else ret ?b k)"
    using len flags by (simp add: sys_mmap_def with_space_run [OF task] mmap_place_next [OF task(1,2) flags(3)] Let_def)
  have R: "case map_pages (t_cr3 t) ?b ?n (prot_to_flags prot) (kvm k) of Wild \<Rightarrow> False | Halts \<Rightarrow> card (frees (vpmm (kvm k))) < 4 * n
    | Done (res, st') \<Rightarrow> res = 0 \<and> (\<exists>fs. fresh_pages (t_cr3 t) {0..<256} (prot_to_flags prot) (map (page_of ?b) [0..<n]) fs (kvm k) st')"
    using map_pages_range [OF space, of ?b ?n "prot_to_flags prot"] range unfolding n' by simp
  have un: "\<exists>k''. sys_munmap u ?b len x (?k\<lparr>kvm := st'\<rparr>) = Done (Ret 0 [], k'') \<and>
      taken_out (t_cr3 t) {0..<256} (map (page_of ?b) [0..<n]) fs st' (kvm k'')"
    if f: "fresh_pages (t_cr3 t) {0..<256} (prot_to_flags prot) (map (page_of ?b) [0..<n]) fs (kvm k) st'" for fs st'
  proof -
    obtain st'' where st'': "unmap_pages (t_cr3 t) ?b ?n st' = Done st''" "taken_out (t_cr3 t) {0..<256} (map (page_of ?b) [0..<n]) fs st' st''"
      using unmap_pages_range [of "t_cr3 t" prot ?b ?n fs "kvm k" st'] f range space(2) unfolding n' by blast
    have "?b \<noteq> 0" "?b AND NOT PAGE_MASK = 0" using range by (simp_all add: user_range_def)
    then have "sys_munmap u ?b len x (?k\<lparr>kvm := st'\<rparr>) = Done (Ret 0 [], ?k\<lparr>kvm := st''\<rparr>)"
      using st''(1) len(1) task by (simp add: sys_munmap_def with_space_def get_t_alive on_vm_def Let_def)
    then show ?thesis using st''(2) by auto
  qed
  show ?thesis
  proof (cases "map_pages (t_cr3 t) ?b ?n (prot_to_flags prot) (kvm k)")
    case (Done r)
    then obtain st' fs where "r = (0, st')" "fresh_pages (t_cr3 t) {0..<256} (prot_to_flags prot) (map (page_of ?b) [0..<n]) fs (kvm k) st'"
      using R by (cases r) auto
    moreover from this obtain k'' where "sys_munmap u ?b len x (?k\<lparr>kvm := st'\<rparr>) = Done (Ret 0 [], k'')"
        "taken_out (t_cr3 t) {0..<256} (map (page_of ?b) [0..<n]) fs st' (kvm k'')"
      using un by blast
    ultimately show ?thesis using Done range
      by (simp add: m on_vm_def) (intro exI [of _ ?b] exI [of _ fs], auto)
  qed (use R in \<open>simp_all add: m on_vm_def\<close>)
qed


definition space_kernel :: kernel where
  "space_kernel = idle_kernel\<lparr>tasks := [0x2000 \<mapsto> zero_task\<lparr>t_next := 0x2000, t_state := TASK_RUNNING, t_cr3 := 0x10000\<rparr>],
     task_list := 0x2000, current := 0x2000\<rparr>"

theorem mmap_then_munmap_witness:
  "\<exists>v k'. sys_mmap 0 0x1000 3 0x22 0 0 space_kernel = Done (Ret v [], k') \<and> user_range v 1"
proof -
  let ?t = "zero_task\<lparr>t_next := 0x2000, t_state := TASK_RUNNING, t_cr3 := 0x10000\<rparr>"
  have b: "next_base ?t = 0x7F0000000000" by (simp add: next_base_def zero_task_def MMAP_BASE_def)
  have "user_range (next_base ?t) 1" by (simp add: b user_range_def PAGE_MASK_def PAGE_SIZE_def)
  moreover have "vm_ok (kvm space_kernel) (t_cr3 ?t) {0..<256}" "0 \<notin> frees (vpmm (kvm space_kernel))"
      "\<not> card (frees (vpmm (kvm space_kernel))) < 4 * 1"
    using demo_vm_ok(1) by (simp_all add: space_kernel_def idle_kernel_def) (simp_all add: demo_vm_def demo_pmm_frees)
  moreover have "current space_kernel \<noteq> 0" "tasks space_kernel (current space_kernel) = Some ?t" "t_cr3 ?t \<noteq> 0"
    by (simp_all add: space_kernel_def)
  ultimately show ?thesis
    using mmap_then_munmap [where k = space_kernel and t = ?t and len = "0x1000" and n = 1 and flags = "0x22" and prot = 3 and fd = 0 and off = 0 and x = 0
      and u = "\<lparr>u_string = \<lambda>_. [], u_bytes = \<lambda>_ _. [], u_pointers = \<lambda>_. []\<rparr>"]
    by (auto simp: MAP_ANONYMOUS_def MAP_PRIVATE_def MAP_SHARED_def MAP_FIXED_def PROT_EXEC_def split: outcome.splits)
qed

end
