(* ===== verification/SysFile.thy ===== *)
theory SysFile
  imports Syscalls
begin

unbundle bit_operations_syntax

text \<open>
  The system calls for files and directories, \<open>src/src/arch/x86_64/syscall/fops.c\<close>.  They go through the
  descriptor table of the current task.  What the log writes to the serial port is left out.
\<close>

section \<open>Descriptors\<close>

definition ENOENT :: u64 where "ENOENT = 2"
definition EINVAL_F :: u64 where "EINVAL_F = 22"
definition O_CREAT :: u64 where "O_CREAT = 0x200"

text \<open>\<open>current->fd_table[fd]\<close> where \<open>fd\<close> is in range and the entry is not null.\<close>
definition fd_file :: "task \<Rightarrow> u64 \<Rightarrow> nat option" where
  "fd_file t fd = (if fd < of_nat MAX_FDS then fd_table t ! unat fd else None)"

text \<open>The handlers that need a task and an open descriptor; \<open>-1\<close> without.\<close>
definition with_fd :: "u64 \<Rightarrow> (nat \<Rightarrow> task \<Rightarrow> kernel \<Rightarrow> (answer \<times> kernel) outcome) \<Rightarrow> kernel \<Rightarrow> (answer \<times> kernel) outcome" where
  "with_fd fd f k =
     (if current k = 0 then ret (-1) k
      else bind_oc (get_t (current k) k) (\<lambda>t.
        case fd_file t fd of None \<Rightarrow> ret (-1) k | Some a \<Rightarrow> f a t k))"

definition set_fd :: "nat \<Rightarrow> nat option \<Rightarrow> kernel \<Rightarrow> kernel outcome" where
  "set_fd fd f k = update_t (current k) (\<lambda>t. t\<lparr>fd_table := (fd_table t)[fd := f]\<rparr>) k"

text \<open>An operation of the file system that returns an \<open>int\<close>.\<close>
definition vfs_call :: "(vfs \<Rightarrow> (int \<times> vfs) outcome) \<Rightarrow> kernel \<Rightarrow> (int \<times> kernel) outcome" where
  "vfs_call f k = on_vfs f k"

definition lookup_path :: "cstring option \<Rightarrow> kernel \<Rightarrow> (nat option \<times> kernel) outcome" where
  "lookup_path path k =
     on_vfs (\<lambda>st. bind_oc (vfs_lookup_path path st) (\<lambda>(r, nd, st). Done (if r \<noteq> 0 then None else nd, st))) k"

section \<open>Reading and writing\<close>

definition sys_write :: handler where
  "sys_write u fd buf count k =
     (if fd = 1 \<or> fd = 2 then
        (if current_tty (vfs_con (kvfs k)) = None then ret (-1) k
         else if buf = 0 \<and> count \<noteq> 0 then Wild
         else bind_oc (for_oc tty_putchar (u_bytes u buf (unat count)) (vfs_con (kvfs k))) (\<lambda>con.
                ret count (k\<lparr>kvfs := (kvfs k)\<lparr>vfs_con := con\<rparr>\<rparr>)))
      else with_fd fd (\<lambda>a t k.
        bind_oc (vfs_call (vfs_write (Some a) (if buf = 0 then None else Some (u_bytes u buf (unat count))) count) k) (\<lambda>(r, k).
          ret (of_int r) k)) k)"

definition sys_read :: handler where
  "sys_read u fd buf count = with_fd fd (\<lambda>a t k.
     bind_oc (on_vfs (\<lambda>st. bind_oc (vfs_read (Some a) (buf = 0) count st) (\<lambda>r.
         case r of None \<Rightarrow> Done (None, st) | Some (bs, r, st) \<Rightarrow> Done (Some (bs, r), st))) k) (\<lambda>(r, k).
       case r of
         None \<Rightarrow> Done (Input, k)
       | Some (bs, r) \<Rightarrow> Done (Ret (of_int r) (if bs = [] then [] else [(buf, bs)]), k)))"

section \<open>Opening and closing\<close>

text \<open>The first free descriptor from 3 on.\<close>
definition free_fd :: "task \<Rightarrow> nat option" where
  "free_fd t = List.find (\<lambda>i. fd_table t ! i = None) [3..<MAX_FDS]"

definition sys_open :: handler where
  "sys_open u path_ptr flags mode k =
     (if current k = 0 \<or> path_ptr = 0 then ret (-1) k
      else
        let path = path_arg u path_ptr
        in bind_oc (get_t (current k) k) (\<lambda>t.
             case free_fd t of
               None \<Rightarrow> ret (-1) k
             | Some fd \<Rightarrow>
                 bind_oc (lookup_path path k) (\<lambda>(nd, k).
                 bind_oc
                   (if nd \<noteq> None then Done (Inr nd, k)
                    else if flags AND O_CREAT \<noteq> 0 then
                      bind_oc (vfs_call (vfs_create path (ucast mode)) k) (\<lambda>(r, k).
                        if r \<noteq> 0 then Done (Inl (-1), k)
                        else bind_oc (lookup_path path k) (\<lambda>(nd, k). Done (if nd = None then Inl (-1) else Inr nd, k)))
                    else Done (Inl (- ENOENT), k)) (\<lambda>(found, k).
                 case found of
                   Inl e \<Rightarrow> ret e k
                 | Inr nd \<Rightarrow>
                     bind_oc (on_vfs (\<lambda>st. bind_oc (vfs_open nd (ucast flags) st) (\<lambda>(r, f, st). Done (if r \<noteq> 0 then None else f, st))) k)
                       (\<lambda>(f, k). if f = None then ret (-1) k else bind_oc (set_fd fd f k) (ret (of_nat fd)))))))"

definition sys_close :: handler where
  "sys_close u fd arg2 arg3 k =
     (if current k \<noteq> 0 \<and> fd < 3 then ret (-1) k
      else with_fd fd (\<lambda>a t k.
        bind_oc (vfs_call (vfs_close (Some a)) k) (\<lambda>(_, k). bind_oc (set_fd (unat fd) None k) (ret 0))) k)"

section \<open>Directories and paths\<close>

definition sys_mkdir :: handler where
  "sys_mkdir u path_ptr mode arg3 k =
     (if current k = 0 \<or> path_ptr = 0 then ret (-1) k
      else bind_oc (vfs_call (vfs_mkdir (path_arg u path_ptr)) k) (\<lambda>(r, k). ret (if r \<noteq> 0 then -1 else 0) k))"

definition sys_chdir :: handler where
  "sys_chdir u path_ptr arg2 arg3 k =
     (if path_ptr = 0 then ret (-1) k
      else bind_oc (vfs_call (vfs_chdir (path_arg u path_ptr)) k) (\<lambda>(r, k). ret (of_int r) k))"

definition sys_unlink :: handler where
  "sys_unlink u path_ptr arg2 arg3 k =
     (if path_ptr = 0 then ret (-1) k
      else bind_oc (vfs_call (vfs_unlink (path_arg u path_ptr)) k) (\<lambda>(r, k). ret (if r \<noteq> 0 then - ENOENT else 0) k))"

definition sys_getcwd :: handler where
  "sys_getcwd u buf_ptr len arg3 k =
     (if buf_ptr = 0 \<or> len = 0 then ret (-1) k
      else bind_oc (vfs_getcwd False len ((kvfs k)\<lparr>task_cwd := cwd_of k\<rparr>)) (\<lambda>(r, bs).
        if r \<noteq> 0 then ret (-1) k else Done (Ret buf_ptr [(buf_ptr, bs)], k)))"

definition sys_getdents64 :: handler where
  "sys_getdents64 u fd buf_ptr count = with_fd fd (\<lambda>a t k.
     bind_oc (get_f a (kvfs k)) (\<lambda>f.
       case f_inode f of
         None \<Rightarrow> ret (-1) k
       | Some n \<Rightarrow> bind_oc (get_i n (kvfs k)) (\<lambda>i.
           if is_directory i = 0 then ret (-1) k
           else case i_ops i of
             None \<Rightarrow> ret (-1) k
           | Some ops \<Rightarrow>
               (if \<not> has_getdents ops then ret (-1) k
                else bind_oc (getdents_op ops n (f_offset f) (u_bytes u buf_ptr (unat count)) (ucast count) (kvfs k))
                  (\<lambda>(offset, bs, r, st).
                     if buf_ptr = 0 \<and> 0 < r then Wild
                     else Done (Ret (of_int r) [(buf_ptr, bs)], k\<lparr>kvfs := set_f a (f\<lparr>f_offset := offset\<rparr>) st\<rparr>))))))"

section \<open>File status\<close>

definition type_bits :: "inode \<Rightarrow> u32" where
  "type_bits i =
     (if i_type i = FT_DIR then 0x4000
      else if i_type i = FT_CHR then 0x2000
      else if i_type i = 6 then 0x6000
      else if i_type i = 10 then 0xA000
      else if i_type i = 1 then 0x1000
      else if i_type i = 12 then 0xC000
      else if is_directory i \<noteq> 0 then 0x4000 else 0x8000)"

text \<open>\<open>struct user_stat\<close>: ten 32-bit fields.\<close>
definition fill_stat_from_inode :: "inode \<Rightarrow> u8 list" where
  "fill_stat_from_inode i =
     concat (map (le_bytes 4)
       [ino i, (i_mode i AND 0x1FF) OR type_bits i, i_uid i, i_gid i, i_size i, i_atime i, i_mtime i, i_ctime i, i_blocks i,
        (if i_block_size i \<noteq> 0 then i_block_size i else 4096)])"

definition sys_stat :: handler where
  "sys_stat u path_ptr buf_ptr arg3 k =
     (if path_ptr = 0 \<or> buf_ptr = 0 then ret (-1) k
      else bind_oc (lookup_path (path_arg u path_ptr) k) (\<lambda>(nd, k).
        case nd of
          None \<Rightarrow> ret (-1) k
        | Some n \<Rightarrow> bind_oc (get_i n (kvfs k)) (\<lambda>i. Done (Ret 0 [(buf_ptr, fill_stat_from_inode i)], k))))"

definition sys_fstat :: handler where
  "sys_fstat u fd buf_ptr arg3 = with_fd fd (\<lambda>a t k.
     bind_oc (get_f a (kvfs k)) (\<lambda>f.
       case f_inode f of
         None \<Rightarrow> ret (-1) k
       | Some n \<Rightarrow> bind_oc (get_i n (kvfs k)) (\<lambda>i.
           if buf_ptr = 0 then Wild else Done (Ret 0 [(buf_ptr, fill_stat_from_inode i)], k))))"

section \<open>Positions\<close>

text \<open>The new position; \<open>None\<close> is \<open>-EINVAL\<close>.  Overflow in the signed additions wraps.\<close>
definition seek_target :: "open_file \<Rightarrow> u64 \<Rightarrow> u64 \<Rightarrow> vfs \<Rightarrow> u64 option outcome" where
  "seek_target f offset whence st =
     (if whence = 0 then Done (Some offset)
      else if whence = 1 then Done (Some (f_offset f + offset))
      else if whence = 2 then
        (case f_inode f of
           None \<Rightarrow> Done None
         | Some n \<Rightarrow> bind_oc (get_i n st) (\<lambda>i. Done (Some (ucast (i_size i) + offset))))
      else Done None)"

definition sys_lseek :: handler where
  "sys_lseek u fd offset whence = with_fd fd (\<lambda>a t k.
     bind_oc (get_f a (kvfs k)) (\<lambda>f.
     bind_oc (seek_target f offset whence (kvfs k)) (\<lambda>new_offset.
       case new_offset of
         None \<Rightarrow> ret (- EINVAL_F) k
       | Some p \<Rightarrow>
           if p <s 0 then ret (- EINVAL_F) k
           else ret p (k\<lparr>kvfs := set_f a (f\<lparr>f_offset := ucast (ucast p :: u32)\<rparr>) (kvfs k)\<rparr>))))"

end
