(* ===== verification/SysProc.thy ===== *)
theory SysProc
  imports SysMem SysFile
begin

unbundle bit_operations_syntax

text \<open>
  The system calls for processes, \<open>src/src/arch/x86_64/syscall/proc.c\<close>, the start of the first program
  in \<open>src/src/init/main.c\<close>, and the table of handlers and its dispatch, \<open>src/src/arch/x86_64/syscall.c\<close>.  The
  snapshots that \<open>sys_exec\<close> takes of its arguments are the strings themselves; their memory comes from
  \<open>kmalloc\<close>, as that of the open files does.
\<close>

section \<open>Ending and waiting\<close>

definition wake_parent :: "task \<Rightarrow> kernel \<Rightarrow> kernel outcome" where
  "wake_parent c k =
     (if 0 <s parent_id c then
        bind_oc (find_task_by_id (parent_id c) k) (\<lambda>parent.
          if parent = 0 then Done k
          else update_t parent (\<lambda>p. if t_state p = TASK_BLOCKED then p\<lparr>t_state := TASK_RUNNABLE\<rparr> else p) k)
      else Done k)"

definition sys_exit :: handler where
  "sys_exit u status arg2 arg3 k =
     (if current k = 0 then ret (-1) k
      else bind_oc (set_current (\<lambda>t. t\<lparr>exit_status := ucast status\<rparr>) k) (\<lambda>k.
        bind_oc (get_t (current k) k) (\<lambda>c.
        bind_oc (wake_parent c k) (\<lambda>k.
        bind_oc (set_current (\<lambda>t. t\<lparr>t_state := TASK_ZOMBIE\<rparr>) k) (\<lambda>k.
          if is_usermode c = 0 then Done (Wait_then For_ever 0, k)
          else
            bind_oc (when_oc (user_code c \<noteq> 0) (free_pages (user_code c) (meta_pages (user_code_pages c))) k) (\<lambda>k.
            bind_oc (when_oc (t_cr3 c \<noteq> 0) (free_space (t_cr3 c)) k) (\<lambda>k.
            bind_oc (set_current (\<lambda>t. t\<lparr>user_code := 0, user_stack := 0, t_cr3 := 0\<rparr>) k) (\<lambda>k.
              Done (Wait_then For_ever 0, k)))))))))"

text \<open>A task that ended leaves the list, and its stack and page are given back.\<close>
definition collect :: "u64 \<Rightarrow> task \<Rightarrow> u64 \<Rightarrow> kernel \<Rightarrow> (answer \<times> kernel) outcome" where
  "collect child c status_ptr k =
     bind_oc (task_unlink child k) (\<lambda>k.
     bind_oc (free_pages (stack_base c) (stack_pages c) k) (\<lambda>k.
     bind_oc (free_pages child 1 k) (\<lambda>k.
       Done (Ret (scast (task_id c)) (if status_ptr = 0 then [] else [(status_ptr, le_bytes 4 (exit_status c))]),
             k\<lparr>tasks := (tasks k)(child := None)\<rparr>))))"

definition sys_waitpid :: handler where
  "sys_waitpid u pid status_ptr options k =
     (if current k = 0 \<or> pid = 0 then ret (-1) k
      else bind_oc (get_t (current k) k) (\<lambda>me.
        bind_oc (find_task_by_id (ucast pid) k) (\<lambda>child.
          if child = 0 then ret (-1) k
          else bind_oc (get_t child k) (\<lambda>c.
            if parent_id c \<noteq> task_id me then ret (-1) k
            else if t_state c = TASK_ZOMBIE then collect child c status_ptr k
            else if options AND 1 \<noteq> 0 then ret 0 k
            else bind_oc (set_current (\<lambda>t. t\<lparr>t_state := TASK_BLOCKED, wake_tick := 0xFFFFFFFFFFFFFFFF\<rparr>) k) (\<lambda>k.
                   Done (Wait_then (While_blocked (current k)) (-2), k))))))"

section \<open>Copying\<close>

definition sys_fork :: handler where
  "sys_fork u arg1 arg2 arg3 k =
     (case syscall_regs k of
        None \<Rightarrow> ret (-1) k
      | Some r \<Rightarrow>
          bind_oc (fork_current_task r k) (\<lambda>(child, k).
            if child = 0 then ret (-1) k
            else bind_oc (update_t child (\<lambda>t. t\<lparr>t_regs := (t_regs t)\<lparr>reg_rax := 0\<rparr>\<rparr>) k) (\<lambda>k.
                 bind_oc (get_t child k) (\<lambda>c. ret (scast (task_id c)) k))))"

section \<open>Executing a file\<close>

text \<open>The snapshot of the arguments: a block for each string.\<close>
fun snapshot :: "cstring list \<Rightarrow> kernel \<Rightarrow> bool \<times> kernel" where
  "snapshot [] k = (True, k)"
| "snapshot (s # ss) k =
     (case kmalloc (kvfs k) of
        (None, st) \<Rightarrow> (False, k\<lparr>kvfs := st\<rparr>)
      | (Some _, st) \<Rightarrow> snapshot ss (k\<lparr>kvfs := st\<rparr>))"

definition arg_strings :: "user \<Rightarrow> u64 \<Rightarrow> cstring list" where
  "arg_strings u p = (if p = 0 then [] else map (u_string u) (take (nat MAX_EXEC_ARGS) (u_pointers u p)))"

text \<open>
  A whole file read into new pages: their address, the file's length and the bytes of the pages, or
  \<open>Inl\<close> of what is returned instead.
\<close>
definition load_file :: "cstring option \<Rightarrow> kernel \<Rightarrow> ((answer + u64 \<times> u64 \<times> u8 list) \<times> kernel) outcome" where
  "load_file path k =
     bind_oc (lookup_path path k) (\<lambda>(nd, k).
       case nd of
         None \<Rightarrow> Done (Inl (Ret (-1) []), k)
       | Some n \<Rightarrow>
           bind_oc (on_vfs (\<lambda>st. bind_oc (vfs_open nd 0 st) (\<lambda>(r, f, st). Done (if r \<noteq> 0 then None else f, st))) k) (\<lambda>(f, k).
           if f = None then Done (Inl (Ret (-1) []), k)
           else bind_oc (get_i n (kvfs k)) (\<lambda>i.
             let file_size = ucast (i_size i) :: u64; n_pages = (file_size + 4095) div 4096
             in bind_oc (pages_alloc n_pages k) (\<lambda>(elf_data, k).
                if elf_data = 0 then bind_oc (vfs_call (vfs_close f) k) (\<lambda>(_, k). Done (Inl (Ret (-1) []), k))
                else bind_oc (on_vfs (\<lambda>st. bind_oc (vfs_read f False file_size st) (\<lambda>r.
                    case r of None \<Rightarrow> Done (None, st) | Some (bs, r, st) \<Rightarrow> Done (Some (bs, r), st))) k) (\<lambda>(r, k).
                  case r of
                    None \<Rightarrow> Done (Inl Input, k)
                  | Some (bs, r) \<Rightarrow>
                      let k = k\<lparr>kvm := put_block elf_data bs (kvm k)\<rparr>
                      in if r \<noteq> uint file_size then
                           bind_oc (free_pages elf_data n_pages k) (\<lambda>k.
                           bind_oc (vfs_call (vfs_close f) k) (\<lambda>(_, k). Done (Inl (Ret (-1) []), k)))
                         else bind_oc (vfs_call (vfs_close f) k) (\<lambda>(_, k).
                           Done (Inr (elf_data, file_size, get_block (kvm k) elf_data (unat n_pages * 4096)), k)))))))"

text \<open>The image and the stack that a task had before.\<close>

definition free_image_page :: "u64 \<Rightarrow> nat \<Rightarrow> kernel \<Rightarrow> kernel outcome" where
  "free_image_page img i k =
     (let p = rd64 (kvm k) (img + of_nat i * 16 + 8) in when_oc (p \<noteq> 0) (free_pages p 1) k)"

definition free_image :: "task \<Rightarrow> kernel \<Rightarrow> kernel outcome" where
  "free_image c k =
     bind_oc (when_oc (user_code c \<noteq> 0) (\<lambda>k.
       bind_oc (for_oc (free_image_page (user_code c)) [0..<unat (user_code_pages c)] k)
         (free_pages (user_code c) (meta_pages (user_code_pages c)))) k)
       (when_oc (user_stack c \<noteq> 0) (free_pages (user_stack c) 2))"

definition exec_regs :: "elf_info \<Rightarrow> user_stack_result \<Rightarrow> nat \<Rightarrow> regs \<Rightarrow> regs" where
  "exec_regs info res argc r = r\<lparr>reg_rip := entry_point info, reg_rsp := rsp res, reg_rdi := of_nat argc,
     reg_rsi := argv_uvaddr res, reg_rdx := envp_uvaddr res, reg_rax := 0\<rparr>"

text \<open>Giving up after the file is loaded, with the new stack where there is one.\<close>
definition exec_fails :: "u64 \<Rightarrow> elf_info \<Rightarrow> kernel \<Rightarrow> (answer \<times> kernel) outcome" where
  "exec_fails new_stack info k =
     bind_oc (when_oc (new_stack \<noteq> 0) (free_pages new_stack 2) k) (\<lambda>k.
     bind_oc (on_vm (elf_free info) k) (\<lambda>(_, k). ret (-1) k))"

definition exec_commit :: "u64 \<Rightarrow> elf_info \<Rightarrow> user_stack_result \<Rightarrow> nat \<Rightarrow> kernel \<Rightarrow> (answer \<times> kernel) outcome" where
  "exec_commit new_stack info res argc k =
     bind_oc (set_current (\<lambda>t. t\<lparr>brk_start := end_addr info, brk_current := end_addr info\<rparr>) k) (\<lambda>k.
     bind_oc (get_t (current k) k) (\<lambda>c.
     bind_oc (free_image c k) (\<lambda>k.
     bind_oc (set_current (\<lambda>t. t\<lparr>user_code := pages info, user_code_pages := num_pages info, user_stack := new_stack\<rparr>) k) (\<lambda>k.
       case syscall_regs k of
         None \<Rightarrow> Wild
       | Some r \<Rightarrow> ret 0 (k\<lparr>syscall_regs := Some (exec_regs info res argc r), kvm := vmm_switch_page_table (t_cr3 c) (kvm k)\<rparr>)))))"

definition exec_stack :: "u64 \<Rightarrow> elf_info \<Rightarrow> cstring list \<Rightarrow> cstring list \<Rightarrow> kernel \<Rightarrow> (answer \<times> kernel) outcome" where
  "exec_stack cr3_phys info argv envp k =
     bind_oc (pages_alloc 2 k) (\<lambda>(new_stack, k).
       if new_stack = 0 then exec_fails 0 info k
       else case stack_at new_stack (USER_STACK_TOP_VADDR - 8192) (int (length argv)) argv (int (length envp)) envp k of
         (None, k) \<Rightarrow> exec_fails new_stack info k
       | (Some res, k) \<Rightarrow>
           bind_oc (map_user cr3_phys (USER_STACK_TOP_VADDR - 8192) new_stack k) (\<lambda>(m1, k).
           bind_oc (if m1 \<noteq> 0 then Done (m1, k) else map_user cr3_phys (USER_STACK_TOP_VADDR - 4096) (new_stack + 4096) k) (\<lambda>(m2, k).
             if m2 \<noteq> 0 then exec_fails new_stack info k
             else exec_commit new_stack info res (length argv) k)))"

definition sys_exec :: handler where
  "sys_exec u path_ptr argv_ptr envp_ptr k =
     (if current k = 0 \<or> path_ptr = 0 then ret (-1) k
      else
        let argv = arg_strings u argv_ptr; envp = arg_strings u envp_ptr; (ok, k) = snapshot (argv @ envp) k
        in if \<not> ok then ret (-1) k
           else bind_oc (load_file (path_arg u path_ptr) k) (\<lambda>(r, k).
             case r of
               Inl a \<Rightarrow> Done (a, k)
             | Inr (elf_data, file_size, bytes) \<Rightarrow>
                 bind_oc (get_t (current k) k) (\<lambda>c.
                 bind_oc (on_vm (\<lambda>vm. bind_oc (elf_load_into bytes file_size no_info (t_cr3 c) vm) (\<lambda>(r, i, vm). Done ((r, i), vm))) k)
                   (\<lambda>((loaded, info), k).
                 bind_oc (free_pages elf_data ((file_size + 4095) div 4096) k) (\<lambda>k.
                   if loaded \<noteq> 0 then ret (-1) k else exec_stack (t_cr3 c) info argv envp k)))))"

section \<open>The first program\<close>

definition run_elf_from_initrd :: "cstring \<Rightarrow> int \<Rightarrow> cstring list \<Rightarrow> kernel \<Rightarrow> (u64 \<times> kernel) outcome" where
  "run_elf_from_initrd filename argc argv k =
     bind_oc (load_file (Some (slash # take 254 filename)) k) (\<lambda>(r, k).
       case r of
         Inl Input \<Rightarrow> Halts
       | Inl _ \<Rightarrow> Done (0, k)
       | Inr (tmp_pages, file_size, bytes) \<Rightarrow>
           bind_oc (create_elf_task_args bytes file_size 4 argc argv 0 [] k) (\<lambda>(t, k).
           bind_oc (free_pages tmp_pages ((file_size + 4095) div 4096) k) (\<lambda>k. Done (t, k))))"

section \<open>Dispatch\<close>

definition MAX_SYSCALLS :: nat where "MAX_SYSCALLS = 32"

type_synonym handler6 = "user \<Rightarrow> u64 \<Rightarrow> u64 \<Rightarrow> u64 \<Rightarrow> u64 \<Rightarrow> u64 \<Rightarrow> u64 \<Rightarrow> kernel \<Rightarrow> (answer \<times> kernel) outcome"
type_synonym syscall_table = "nat \<Rightarrow> handler6 option"

text \<open>A handler that ignores its last three arguments.\<close>
definition three :: "handler \<Rightarrow> handler6" where
  "three h = (\<lambda>u a b c d e f k. h u a b c k)"

definition syscall_register :: "nat \<Rightarrow> handler6 \<Rightarrow> syscall_table \<Rightarrow> syscall_table" where
  "syscall_register num h tbl = (if num < MAX_SYSCALLS then tbl(num := Some h) else tbl)"

definition init_syscalls :: "syscall_table \<Rightarrow> syscall_table" where
  "init_syscalls tbl = fold (\<lambda>(num, h). syscall_register num h)
     [(0, three sys_exit), (1, three sys_read), (2, three sys_write), (3, three sys_open), (4, three sys_close),
      (5, three sys_fork), (6, three sys_exec), (7, three sys_waitpid), (8, three sys_fork), (9, three sys_brk),
      (10, \<lambda>u. sys_mmap), (11, three sys_munmap), (12, three sys_getdents64), (13, three sys_stat), (14, three sys_fstat),
      (15, three sys_chdir), (16, three sys_getcwd), (17, three sys_mkdir), (18, three sys_unlink), (19, three sys_lseek)]
     (\<lambda>i. if i < MAX_SYSCALLS then None else tbl i)"

text \<open>
  The registers are those of the interrupt frame; \<open>sys_exec\<close> changes them there.  They are the process's
  own when the answer is not a wait.
\<close>
definition syscall_dispatch :: "syscall_table \<Rightarrow> user \<Rightarrow> regs \<Rightarrow> kernel \<Rightarrow> (answer \<times> regs \<times> kernel) outcome" where
  "syscall_dispatch tbl u r k =
     (let syscall_num = reg_rax r;
          k = k\<lparr>syscall_regs := Some r\<rparr>
      in if of_nat MAX_SYSCALLS \<le> syscall_num then Done (Ret (-1) [], r, k\<lparr>syscall_regs := None\<rparr>)
         else case tbl (unat syscall_num) of
           None \<Rightarrow> Done (Ret (-1) [], r, k\<lparr>syscall_regs := None\<rparr>)
         | Some h \<Rightarrow>
             bind_oc (h u (reg_rdi r) (reg_rsi r) (reg_rdx r) (reg_r10 r) (reg_r8 r) (reg_r9 r) k) (\<lambda>(a, k).
               let r = (case syscall_regs k of Some r \<Rightarrow> r | None \<Rightarrow> r)
               in case a of Ret v s \<Rightarrow> Done (a, r, k\<lparr>syscall_regs := None\<rparr>) | _ \<Rightarrow> Done (a, r, k)))"

end
