(* ===== verification/Gdt.thy ===== *)
theory Gdt
  imports Prelude
begin

unbundle bit_operations_syntax

text \<open>
  The descriptor tables of the processor: the segment descriptors and the task state segment of
  \<open>src/src/arch/x86_64/gdt.c\<close>, and the interrupt gates of \<open>src/src/arch/x86_64/idt.c\<close> with the vectors
  that \<open>isr.c\<close>, \<open>irq.c\<close> and \<open>syscall.c\<close> install.  A table is the bytes that the processor reads, so that
  the task descriptor, which the code writes over two entries, is what it is in memory.  The addresses
  that the linker chooses (of the tables, the segment and the stubs) are arguments.

  The second half reads the bytes as the processor does; the lemmas show that what it reads is what the
  code was asked to install.
\<close>

section \<open>Segment descriptors\<close>

definition GDT_KERNEL_CODE :: u16 where "GDT_KERNEL_CODE = 0x08"
definition GDT_KERNEL_DATA :: u16 where "GDT_KERNEL_DATA = 0x10"
definition GDT_TSS :: u16 where "GDT_TSS = 0x28"

record gdt_entry =
  limit0 :: u16
  base0 :: u16
  base1 :: u8
  access_byte :: u8
  limit1 :: u8
  base2 :: u8

text \<open>The packed structure in memory.\<close>
definition gdt_entry_bytes :: "gdt_entry \<Rightarrow> u8 list" where
  "gdt_entry_bytes e =
     le_bytes 2 (limit0 e) @ le_bytes 2 (base0 e) @ [base1 e, access_byte e, limit1 e, base2 e]"

record tss_entry =
  te_limit0 :: u16
  te_base0 :: u16
  te_base1 :: u8
  te_access :: u8
  te_limit1_flags :: u8
  te_base2 :: u8
  te_base3 :: u32
  te_reserved :: u32

definition tss_entry_bytes :: "tss_entry \<Rightarrow> u8 list" where
  "tss_entry_bytes e =
     le_bytes 2 (te_limit0 e) @ le_bytes 2 (te_base0 e) @
     [te_base1 e, te_access e, te_limit1_flags e, te_base2 e] @ le_bytes 4 (te_base3 e) @ le_bytes 4 (te_reserved e)"

text \<open>The task state segment: \<open>rsp0\<close> to \<open>rsp2\<close>, the seven interrupt stacks and the offset of the I/O map.\<close>
record tss =
  tss_rsp0 :: u64
  tss_rsp1 :: u64
  tss_rsp2 :: u64
  tss_ist :: "u64 list"
  iopb_offset :: u16

definition sizeof_tss :: nat where "sizeof_tss = 104"

record descriptors =
  gdt_entries :: "u8 list"
  gdt_size :: u16
  gdt_offset :: u64
  the_tss :: tss
  task_register :: u16
  code_segment :: u16
  data_segments :: u16

definition gdt_set_entry :: "nat \<Rightarrow> u32 \<Rightarrow> u32 \<Rightarrow> u8 \<Rightarrow> u8 \<Rightarrow> descriptors \<Rightarrow> descriptors" where
  "gdt_set_entry num base limit access flags d =
     (let e = \<lparr>limit0 = ucast (limit AND 0xFFFF), base0 = ucast (base AND 0xFFFF),
               base1 = ucast (drop_bit 16 base AND 0xFF), access_byte = access,
               limit1 = ucast (drop_bit 16 limit AND 0x0F) OR (flags AND 0xF0),
               base2 = ucast (drop_bit 24 base AND 0xFF)\<rparr>
      in d\<lparr>gdt_entries := put_bytes (gdt_entries d) (8 * num) (gdt_entry_bytes e)\<rparr>)"

definition gdt_set_tss :: "nat \<Rightarrow> u64 \<Rightarrow> u32 \<Rightarrow> descriptors \<Rightarrow> descriptors" where
  "gdt_set_tss num base limit d =
     (let e = \<lparr>te_limit0 = ucast (limit AND 0xFFFF), te_base0 = ucast (base AND 0xFFFF),
               te_base1 = ucast (drop_bit 16 base AND 0xFF), te_access = 0x89,
               te_limit1_flags = ucast (drop_bit 16 limit AND 0x0F),
               te_base2 = ucast (drop_bit 24 base AND 0xFF),
               te_base3 = ucast (drop_bit 32 base AND 0xFFFFFFFF), te_reserved = 0\<rparr>
      in d\<lparr>gdt_entries := put_bytes (gdt_entries d) (8 * num) (tss_entry_bytes e)\<rparr>)"

text \<open>The two routines of \<open>gdt_asm.asm\<close>.\<close>
definition load_gdt :: "u16 \<Rightarrow> u64 \<Rightarrow> descriptors \<Rightarrow> descriptors" where
  "load_gdt sz off d = d\<lparr>gdt_size := sz, gdt_offset := off, data_segments := GDT_KERNEL_DATA, code_segment := GDT_KERNEL_CODE\<rparr>"

definition load_tss :: "u16 \<Rightarrow> descriptors \<Rightarrow> descriptors" where
  "load_tss sel d = d\<lparr>task_register := sel\<rparr>"

definition init_gdt :: "u64 \<Rightarrow> u64 \<Rightarrow> descriptors \<Rightarrow> descriptors" where
  "init_gdt gdt_at tss_at d =
     (let d = d\<lparr>the_tss := \<lparr>tss_rsp0 = 0, tss_rsp1 = 0, tss_rsp2 = 0, tss_ist = replicate 7 0,
                            iopb_offset = of_nat sizeof_tss\<rparr>\<rparr>;
          d = gdt_set_entry 0 0 0 0 0 d;
          d = gdt_set_entry 1 0 0xFFFFF 0x9A 0xA0 d;
          d = gdt_set_entry 2 0 0xFFFFF 0x92 0x80 d;
          d = gdt_set_entry 3 0 0xFFFFF 0xF2 0x80 d;
          d = gdt_set_entry 4 0 0xFFFFF 0xFA 0xA0 d;
          d = gdt_set_tss 5 tss_at (of_nat sizeof_tss - 1) d;
          d = load_gdt (8 * 7 - 1) gdt_at d
      in load_tss GDT_TSS d)"

section \<open>Interrupt gates\<close>

record idt_entry =
  ie_base_low :: u16
  ie_sel :: u16
  ie_ist :: u8
  ie_flags :: u8
  ie_base_medium :: u16
  ie_base_high :: u32
  ie_null :: u32

definition idt_entry_bytes :: "idt_entry \<Rightarrow> u8 list" where
  "idt_entry_bytes e =
     le_bytes 2 (ie_base_low e) @ le_bytes 2 (ie_sel e) @ [ie_ist e, ie_flags e] @
     le_bytes 2 (ie_base_medium e) @ le_bytes 4 (ie_base_high e) @ le_bytes 4 (ie_null e)"

record idt =
  idt_entries :: "u8 list"
  idt_limit :: u16
  idt_base :: u64

definition idt_set_gate :: "u8 \<Rightarrow> u64 \<Rightarrow> u16 \<Rightarrow> u8 \<Rightarrow> idt \<Rightarrow> idt" where
  "idt_set_gate num base sel flags t =
     (let e = \<lparr>ie_base_low = ucast (base AND 0xFFFF), ie_sel = sel, ie_ist = 0, ie_flags = flags,
               ie_base_medium = ucast (drop_bit 16 base AND 0xFFFF), ie_base_high = ucast (drop_bit 32 base), ie_null = 0\<rparr>
      in t\<lparr>idt_entries := put_bytes (idt_entries t) (16 * unat num) (idt_entry_bytes e)\<rparr>)"

definition init_idt :: "u64 \<Rightarrow> idt \<Rightarrow> idt" where
  "init_idt idt_at t = t\<lparr>idt_limit := 16 * 256 - 1, idt_base := idt_at, idt_entries := replicate (16 * 256) 0\<rparr>"

text \<open>The stubs of \<open>interrupts.asm\<close>: where the linker put \<open>isr0\<close> to \<open>isr31\<close>, \<open>irq0\<close> to \<open>irq15\<close> and \<open>syscall_stub\<close>.\<close>
record stubs =
  isr_stub :: "nat \<Rightarrow> u64"
  irq_stub :: "nat \<Rightarrow> u64"
  syscall_stub :: u64

definition init_isr :: "stubs \<Rightarrow> idt \<Rightarrow> idt" where
  "init_isr s t = fold (\<lambda>n. idt_set_gate (of_nat n) (isr_stub s n) 0x08 0x8E) [0..<32] t"

definition init_irq_gates :: "stubs \<Rightarrow> idt \<Rightarrow> idt" where
  "init_irq_gates s t = fold (\<lambda>n. idt_set_gate (of_nat (32 + n)) (irq_stub s n) 0x08 0x8E) [0..<16] t"

definition init_syscall_gate :: "stubs \<Rightarrow> idt \<Rightarrow> idt" where
  "init_syscall_gate s t = idt_set_gate 0x80 (syscall_stub s) GDT_KERNEL_CODE 0xEE t"

section \<open>What the processor reads\<close>

text \<open>Base, limit, access byte and flags of the descriptor that begins at \<open>off\<close>.\<close>
definition seg_base :: "u8 list \<Rightarrow> nat \<Rightarrow> u32" where
  "seg_base t off = of_le (slice_at t (off + 2) 2) OR push_bit 16 (ucast (t ! (off + 4))) OR push_bit 24 (ucast (t ! (off + 7)))"

definition seg_limit :: "u8 list \<Rightarrow> nat \<Rightarrow> u32" where
  "seg_limit t off = of_le (slice_at t off 2) OR push_bit 16 (ucast (t ! (off + 6) AND 0x0F))"

definition seg_access :: "u8 list \<Rightarrow> nat \<Rightarrow> u8" where
  "seg_access t off = t ! (off + 5)"

definition seg_flags :: "u8 list \<Rightarrow> nat \<Rightarrow> u8" where
  "seg_flags t off = t ! (off + 6) AND 0xF0"

text \<open>The base of a task descriptor has four bytes more.\<close>
definition tss_base :: "u8 list \<Rightarrow> nat \<Rightarrow> u64" where
  "tss_base t off = ucast (seg_base t off) OR push_bit 32 (of_le (slice_at t (off + 8) 4))"

definition gate_target :: "u8 list \<Rightarrow> nat \<Rightarrow> u64" where
  "gate_target t v =
     of_le (slice_at t (16 * v) 2) OR push_bit 16 (of_le (slice_at t (16 * v + 6) 2)) OR
     push_bit 32 (of_le (slice_at t (16 * v + 8) 4))"

definition gate_selector :: "u8 list \<Rightarrow> nat \<Rightarrow> u16" where
  "gate_selector t v = of_le (slice_at t (16 * v + 2) 2)"

definition gate_flags :: "u8 list \<Rightarrow> nat \<Rightarrow> u8" where
  "gate_flags t v = t ! (16 * v + 5)"

definition gate_present :: "idt \<Rightarrow> nat \<Rightarrow> bool" where
  "gate_present t v \<longleftrightarrow> gate_flags (idt_entries t) v AND 0x80 \<noteq> 0"

definition gate_privilege :: "idt \<Rightarrow> nat \<Rightarrow> u8" where
  "gate_privilege t v = drop_bit 5 (gate_flags (idt_entries t) v) AND 3"

text \<open>Vector \<open>v\<close> leads to \<open>target\<close> in the kernel's code segment.\<close>
definition gate_to :: "idt \<Rightarrow> nat \<Rightarrow> u64 \<Rightarrow> u8 \<Rightarrow> bool" where
  "gate_to t v target flags \<longleftrightarrow> gate_target (idt_entries t) v = target \<and>
     gate_selector (idt_entries t) v = GDT_KERNEL_CODE \<and> gate_flags (idt_entries t) v = flags"

section \<open>Lemmas\<close>

lemma length_entry_bytes [simp, layout]: "length (gdt_entry_bytes e) = 8" "length (tss_entry_bytes f) = 16" "length (idt_entry_bytes g) = 16"
  by (simp_all add: gdt_entry_bytes_def tss_entry_bytes_def idt_entry_bytes_def)

lemma of_le_le_bytes_ucast:
  "LENGTH('a) \<le> 8 * n \<Longrightarrow> of_le (le_bytes n (w :: 'a::len word)) = (ucast w :: 'b::len word)"
proof (rule bit_word_eqI)
  fix k assume n: "LENGTH('a) \<le> 8 * n" and k: "k < LENGTH('b)"
  have d: "8 * (k div 8) + k mod 8 = k" by simp
  show "bit (of_le (le_bytes n w) :: 'b word) k = bit (ucast w :: 'b word) k"
  proof (cases "k < LENGTH('a)")
    case True
    then have "k div 8 < n" using n by (simp add: less_mult_imp_div_less mult.commute)
    then show ?thesis using k d by (auto simp: bit_of_le le_bytes_def bit_simps)
  next
    case False
    then have "\<not> bit w k" using bit_imp_le_length by blast
    then show ?thesis using k d by (auto simp: bit_of_le le_bytes_def bit_simps)
  qed
qed

lemma slice_at_0: "slice_at (xs @ ys) 0 n = (if n \<le> length xs then take n xs else xs @ take (n - length xs) ys)"
  by (simp add: slice_at_def)

text \<open>A field of a structure that was written at \<open>off\<close>.\<close>
lemma slice_put_field:
  "off + length ws \<le> length t \<Longrightarrow> k + n \<le> length ws \<Longrightarrow> slice_at (put_bytes t off ws) (off + k) n = slice_at ws k n"
  by (simp add: slice_put_within)

lemma nth_put_field:
  "off + length ws \<le> length t \<Longrightarrow> k < length ws \<Longrightarrow> put_bytes t off ws ! (off + k) = ws ! k"
  by (simp add: put_bytes_nth)

lemma slice_put_kept:
  "off' + length ws \<le> length t \<Longrightarrow> off + n \<le> length t \<Longrightarrow> off + n \<le> off' \<or> off' + length ws \<le> off \<Longrightarrow>
   slice_at (put_bytes t off' ws) off n = slice_at t off n"
  by (rule slice_put_other)

lemma masks: "(0xFFFF :: 'a::len word) = mask 16" "(0xFF :: 'a::len word) = mask 8" "(0x0F :: 'a::len word) = mask 4"
  "(0xFFFFFFFF :: 'a::len word) = mask 32"
  by (simp_all add: mask_eq_exp_minus_1)

lemma base_parts: "(ucast (ucast (w AND 0xFFFF) :: u16) :: u64) OR push_bit 16 (ucast (ucast (drop_bit 16 w AND 0xFFFF) :: u16)) OR
   push_bit 32 (ucast (ucast (drop_bit 32 w) :: u32)) = (w :: u64)"
proof (rule bit_word_eqI)
  fix n assume "n < LENGTH(64)"
  have m: "(0xFFFF :: u64) = mask 16" by (simp add: mask_eq_exp_minus_1)
  show "bit ((ucast (ucast (w AND 0xFFFF) :: u16) :: u64) OR push_bit 16 (ucast (ucast (drop_bit 16 w AND 0xFFFF) :: u16)) OR
   push_bit 32 (ucast (ucast (drop_bit 32 w) :: u32))) n = bit w n"
    unfolding m using bit_imp_le_length [of w n] by (cases "n < 16"; cases "n < 32") (auto simp: bit_simps)
qed

lemma gate_fields:
  "gate_target (idt_entries t) v = of_le (slice_at (slice_at (idt_entries t) (16 * v) 16) 0 2) OR
     push_bit 16 (of_le (slice_at (slice_at (idt_entries t) (16 * v) 16) 6 2)) OR
     push_bit 32 (of_le (slice_at (slice_at (idt_entries t) (16 * v) 16) 8 4))"
  "gate_selector (idt_entries t) v = of_le (slice_at (slice_at (idt_entries t) (16 * v) 16) 2 2)"
  "16 * v + 16 \<le> length (idt_entries t) \<Longrightarrow> gate_flags (idt_entries t) v = slice_at (idt_entries t) (16 * v) 16 ! 5"
  by (simp_all add: gate_target_def gate_selector_def gate_flags_def slice_slice slice_nth)

text \<open>The processor finds at a vector what was installed there, and all other vectors are kept.\<close>
lemma idt_set_gate_reads:
  assumes "length (idt_entries t) = 16 * 256"
  shows "length (idt_entries (idt_set_gate num base sel flags t)) = 16 * 256"
    and "gate_target (idt_entries (idt_set_gate num base sel flags t)) (unat num) = base"
    and "gate_selector (idt_entries (idt_set_gate num base sel flags t)) (unat num) = sel"
    and "gate_flags (idt_entries (idt_set_gate num base sel flags t)) (unat num) = flags"
    and "v < 256 \<Longrightarrow> v \<noteq> unat num \<Longrightarrow> slice_at (idt_entries (idt_set_gate num base sel flags t)) (16 * v) 16 = slice_at (idt_entries t) (16 * v) 16"
proof -
  have n: "unat num < 256" using unsigned_less [of num] by simp
  let ?t = "idt_set_gate num base sel flags t"
  show l: "length (idt_entries ?t) = 16 * 256" using n assms by (simp add: idt_set_gate_def)
  have e: "slice_at (idt_entries ?t) (16 * unat num) 16 = idt_entry_bytes \<lparr>ie_base_low = ucast (base AND 0xFFFF), ie_sel = sel, ie_ist = 0, ie_flags = flags,
               ie_base_medium = ucast (drop_bit 16 base AND 0xFFFF), ie_base_high = ucast (drop_bit 32 base), ie_null = 0\<rparr>"
    using n assms by (simp add: idt_set_gate_def slice_put_same)
  show "gate_target (idt_entries ?t) (unat num) = base"
    unfolding gate_fields e 
    by (simp add: idt_entry_bytes_def slice_at_def of_le_le_bytes_ucast del: push_bit_of_1 push_bit_numeral push_bit_eq_mult) (rule base_parts)
  show "gate_selector (idt_entries ?t) (unat num) = sel"
    unfolding gate_fields e by (simp add: idt_entry_bytes_def slice_at_def of_le_le_bytes)
  show "gate_flags (idt_entries ?t) (unat num) = flags"
    using n l by (simp add: gate_fields(3) e) (simp add: idt_entry_bytes_def nth_append)
  show "slice_at (idt_entries ?t) (16 * v) 16 = slice_at (idt_entries t) (16 * v) 16" if "v < 256" "v \<noteq> unat num"
  proof -
    have "16 * v + 16 \<le> 16 * unat num \<or> 16 * unat num + 16 \<le> 16 * v" using that by linarith
    then show ?thesis using n assms that by (simp add: idt_set_gate_def slice_put_other)
  qed
qed

lemma gate_to_slice:
  assumes "length (idt_entries t) = 16 * 256" "length (idt_entries t') = 16 * 256" "v < 256"
    and "slice_at (idt_entries t') (16 * v) 16 = slice_at (idt_entries t) (16 * v) 16"
  shows "gate_to t' v = gate_to t v"
  using assms by (simp add: gate_to_def fun_eq_iff gate_fields)

lemma gate_to_set:
  assumes "length (idt_entries t) = 16 * 256" and "v < 256"
  shows "gate_to (idt_set_gate num base GDT_KERNEL_CODE flags t) v target f \<longleftrightarrow>
    (if v = unat num then target = base \<and> f = flags else gate_to t v target f)"
proof (cases "v = unat num")
  case True
  then show ?thesis using idt_set_gate_reads(2,3,4) [OF assms(1)] by (auto simp: gate_to_def)
next
  case False
  then show ?thesis
    using gate_to_slice [OF assms(1) idt_set_gate_reads(1) [OF assms(1)] assms(2) idt_set_gate_reads(5) [OF assms(1,2)]] by simp
qed

lemma gates_loop:
  "length (idt_entries t) = 16 * 256 \<Longrightarrow> k + n \<le> 256 \<Longrightarrow>
   length (idt_entries (fold (\<lambda>i. idt_set_gate (of_nat (k + i)) (g i) GDT_KERNEL_CODE flags) [0..<n] t)) = 16 * 256 \<and>
   (\<forall>v < 256. gate_to (fold (\<lambda>i. idt_set_gate (of_nat (k + i)) (g i) GDT_KERNEL_CODE flags) [0..<n] t) v target f \<longleftrightarrow>
      (if k \<le> v \<and> v < k + n then target = g (v - k) \<and> f = flags else gate_to t v target f))"
proof (induction n)
  case (Suc n)
  then have "unat (of_nat (k + n) :: u8) = k + n" by (simp only: unat_of_nat) (simp add: take_bit_nat_eq_self)
  then have u: "unat (of_nat k + of_nat n :: u8) = k + n" by simp
  show ?case using Suc by (auto simp: u gate_to_set idt_set_gate_reads(1))
qed auto

text \<open>The gates after start-up.\<close>
definition boot_idt :: "u64 \<Rightarrow> stubs \<Rightarrow> idt \<Rightarrow> idt" where
  "boot_idt idt_at s t = init_syscall_gate s (init_irq_gates s (init_isr s (init_idt idt_at t)))"

lemma boot_gates:
  assumes "v < 256"
  shows "gate_to (boot_idt idt_at s t) v target f \<longleftrightarrow>
    (if v < 32 then target = isr_stub s v \<and> f = 0x8E
     else if v < 48 then target = irq_stub s (v - 32) \<and> f = 0x8E
     else if v = 0x80 then target = syscall_stub s \<and> f = 0xEE
     else gate_to (init_idt idt_at t) v target f)"
proof -
  let ?a = "init_idt idt_at t" and ?b = "init_isr s (init_idt idt_at t)"
  have a: "length (idt_entries ?a) = 16 * 256" by (simp add: init_idt_def)
  have b: "length (idt_entries ?b) = 16 * 256" "gate_to ?b v target f = (if v < 32 then target = isr_stub s v \<and> f = 0x8E else gate_to ?a v target f)"
    using gates_loop [OF a, of 0 32 "isr_stub s" "0x8E" target f] assms by (simp_all add: init_isr_def GDT_KERNEL_CODE_def)
  have c: "length (idt_entries (init_irq_gates s ?b)) = 16 * 256"
      "gate_to (init_irq_gates s ?b) v target f = (if 32 \<le> v \<and> v < 48 then target = irq_stub s (v - 32) \<and> f = 0x8E else gate_to ?b v target f)"
    using gates_loop [OF b(1), of 32 16 "irq_stub s" "0x8E" target f] assms by (simp_all add: init_irq_gates_def GDT_KERNEL_CODE_def)
  show ?thesis
    unfolding boot_idt_def init_syscall_gate_def gate_to_set [OF c(1) assms] c(2) b(2) by auto
qed

text \<open>The flags of every vector, those without a gate included.\<close>
lemma gate_flags_set:
  assumes "length (idt_entries t) = 16 * 256" and "v < 256"
  shows "gate_flags (idt_entries (idt_set_gate num base sel flags t)) v = (if v = unat num then flags else gate_flags (idt_entries t) v)"
proof (cases "v = unat num")
  case False
  then show ?thesis
    using idt_set_gate_reads(1) [OF assms(1)] idt_set_gate_reads(5) [OF assms] assms by (simp add: gate_fields(3))
qed (simp add: idt_set_gate_reads(4) [OF assms(1)])

lemma gate_flags_loop:
  "length (idt_entries t) = 16 * 256 \<Longrightarrow> k + n \<le> 256 \<Longrightarrow> v < 256 \<Longrightarrow>
   gate_flags (idt_entries (fold (\<lambda>i. idt_set_gate (of_nat (k + i)) (g i) GDT_KERNEL_CODE flags) [0..<n] t)) v =
     (if k \<le> v \<and> v < k + n then flags else gate_flags (idt_entries t) v)"
proof (induction n)
  case (Suc n)
  then have "unat (of_nat (k + n) :: u8) = k + n" by (simp only: unat_of_nat) (simp add: take_bit_nat_eq_self)
  then have u: "unat (of_nat k + of_nat n :: u8) = k + n" by simp
  have l: "length (idt_entries (fold (\<lambda>i. idt_set_gate (of_nat (k + i)) (g i) GDT_KERNEL_CODE flags) [0..<n] t)) = 16 * 256"
    using gates_loop Suc.prems by simp
  show ?case using Suc gate_flags_set [OF l Suc.prems(3), of "of_nat k + of_nat n" "g n" GDT_KERNEL_CODE flags] by (auto simp: u)
qed auto

lemma no_gate:
  assumes "v < 256"
  shows "gate_flags (idt_entries (init_idt idt_at t)) v = 0"
  using assms by (simp add: gate_flags_def init_idt_def)

lemma boot_gate_flags:
  assumes "v < 256"
  shows "gate_flags (idt_entries (boot_idt idt_at s t)) v = (if v < 48 then 0x8E else if v = 0x80 then 0xEE else 0)"
proof -
  let ?a = "init_idt idt_at t" and ?b = "init_isr s (init_idt idt_at t)"
  have a: "length (idt_entries ?a) = 16 * 256" by (simp add: init_idt_def)
  have b: "length (idt_entries ?b) = 16 * 256" "gate_flags (idt_entries ?b) v = (if v < 32 then 0x8E else 0)"
    using gates_loop [OF a, of 0 32 "isr_stub s" "0x8E"] gate_flags_loop [OF a, of 0 32 v "isr_stub s" "0x8E"] no_gate assms
    by (simp_all add: init_isr_def GDT_KERNEL_CODE_def)
  have c: "length (idt_entries (init_irq_gates s ?b)) = 16 * 256"
      "gate_flags (idt_entries (init_irq_gates s ?b)) v = (if v < 48 then 0x8E else 0)"
    using gates_loop [OF b(1), of 32 16 "irq_stub s" "0x8E"] gate_flags_loop [OF b(1), of 32 16 v "irq_stub s" "0x8E"] b(2) assms
    by (simp_all add: init_irq_gates_def GDT_KERNEL_CODE_def)
  show ?thesis
    unfolding boot_idt_def init_syscall_gate_def gate_flags_set [OF c(1) assms] c(2) by auto
qed

text \<open>A segment descriptor reads back as what was asked for; the limit has 20 bits.\<close>
lemma seg_parts:
  "(ucast (ucast (b AND 0xFFFF) :: u16) :: u32) OR push_bit 16 (ucast (ucast (drop_bit 16 b AND 0xFF) :: u8)) OR
     push_bit 24 (ucast (ucast (drop_bit 24 b AND 0xFF) :: u8)) = (b :: u32)"
  unfolding masks
proof (rule bit_word_eqI)
  fix n assume "n < LENGTH(32)"
  then show "bit ((ucast (ucast (b AND mask 16) :: u16) :: u32) OR push_bit 16 (ucast (ucast (drop_bit 16 b AND mask 8) :: u8)) OR
     push_bit 24 (ucast (ucast (drop_bit 24 b AND mask 8) :: u8))) n = bit b n"
    using bit_imp_le_length [of b n] by (cases "n < 16"; cases "n < 24") (auto simp: bit_simps)
qed

lemma limit_parts:
  "(ucast (ucast (l AND 0xFFFF) :: u16) :: u32) OR push_bit 16 (ucast (((ucast (drop_bit 16 l AND 0x0F) :: u8) OR (f AND 0xF0)) AND 0x0F)) =
     take_bit 20 (l :: u32)" (is "?l = _")
  "((ucast (drop_bit 16 l AND 0x0F) :: u8) OR (f AND 0xF0)) AND 0xF0 = f AND 0xF0" (is "?f = _")
proof -
  have m: "(0xF0 :: u8) = push_bit 4 (mask 4)" by (simp add: mask_eq_exp_minus_1)
  show "?l = take_bit 20 l"
    unfolding masks m
  proof (rule bit_word_eqI)
    fix n assume "n < LENGTH(32)"
    then show "bit ((ucast (ucast (l AND mask 16) :: u16) :: u32) OR push_bit 16 (ucast (((ucast (drop_bit 16 l AND mask 4) :: u8) OR
        (f AND push_bit 4 (mask 4))) AND mask 4))) n = bit (take_bit 20 l) n"
      by (cases "n < 16") (auto simp: bit_simps)
  qed
  show "?f = f AND 0xF0"
    unfolding masks m by (rule bit_word_eqI) (auto simp: bit_simps)
qed

lemma gdt_set_entry_reads:
  assumes l: "8 * num + 8 \<le> length (gdt_entries d)" and t: "t = gdt_entries (gdt_set_entry num base limit access flags d)"
  shows "length t = length (gdt_entries d)" and "seg_base t (8 * num) = base" and "seg_limit t (8 * num) = take_bit 20 limit"
    and "seg_access t (8 * num) = access" and "seg_flags t (8 * num) = flags AND 0xF0"
    and "off + n \<le> length (gdt_entries d) \<Longrightarrow> off + n \<le> 8 * num \<or> 8 * num + 8 \<le> off \<Longrightarrow>
      slice_at t off n = slice_at (gdt_entries d) off n"
proof -
  show "length t = length (gdt_entries d)" using assms by (simp add: gdt_set_entry_def)
  show "slice_at t off n = slice_at (gdt_entries d) off n"
    if "off + n \<le> length (gdt_entries d)" "off + n \<le> 8 * num \<or> 8 * num + 8 \<le> off"
    using assms that by (simp add: gdt_set_entry_def slice_put_other)
  let ?e = "\<lparr>limit0 = ucast (limit AND 0xFFFF), base0 = ucast (base AND 0xFFFF), base1 = ucast (drop_bit 16 base AND 0xFF),
     access_byte = access, limit1 = ucast (drop_bit 16 limit AND 0x0F) OR (flags AND 0xF0), base2 = ucast (drop_bit 24 base AND 0xFF)\<rparr>"
  have w: "t = put_bytes (gdt_entries d) (8 * num) (gdt_entry_bytes ?e)" by (simp add: t gdt_set_entry_def)
  have f: "slice_at t (8 * num) 2 = slice_at (gdt_entry_bytes ?e) 0 2" "slice_at t (8 * num + 2) 2 = slice_at (gdt_entry_bytes ?e) 2 2"
    using slice_put_field [of "8 * num" "gdt_entry_bytes ?e" "gdt_entries d" 0 2] slice_put_field [of "8 * num" "gdt_entry_bytes ?e" "gdt_entries d" 2 2] l
    by (simp_all add: w)
  have b: "t ! (8 * num + k) = gdt_entry_bytes ?e ! k" if "k < 8" for k using l that by (simp add: w nth_put_field)
  show "seg_base t (8 * num) = base"
    unfolding seg_base_def f b [of 4, simplified] b [of 7, simplified]
    by (simp add: gdt_entry_bytes_def slice_at_def nth_append of_le_le_bytes_ucast del: push_bit_of_1 push_bit_numeral push_bit_eq_mult) (rule seg_parts)
  show "seg_limit t (8 * num) = take_bit 20 limit"
    unfolding seg_limit_def f b [of 6, simplified]
    by (simp add: gdt_entry_bytes_def slice_at_def nth_append of_le_le_bytes_ucast del: push_bit_of_1 push_bit_numeral push_bit_eq_mult) (rule limit_parts(1))
  show "seg_access t (8 * num) = access"
    unfolding seg_access_def b [of 5, simplified] by (simp add: gdt_entry_bytes_def nth_append)
  show "seg_flags t (8 * num) = flags AND 0xF0"
    unfolding seg_flags_def b [of 6, simplified] by (simp add: gdt_entry_bytes_def nth_append) (rule limit_parts(2))
qed

text \<open>Base, limit, access byte and flags of the descriptor of a selector.\<close>
definition segment :: "descriptors \<Rightarrow> u16 \<Rightarrow> u32 \<times> u32 \<times> u8 \<times> u8" where
  "segment d sel = (let off = unat sel div 8 * 8; t = gdt_entries d in (seg_base t off, seg_limit t off, seg_access t off, seg_flags t off))"

lemma segment_slice:
  assumes "off + 8 \<le> length t"
  shows "(seg_base t off, seg_limit t off, seg_access t off, seg_flags t off) =
    (let b = slice_at t off 8 in (seg_base b 0, seg_limit b 0, seg_access b 0, seg_flags b 0))"
  using assms by (simp add: seg_base_def seg_limit_def seg_access_def seg_flags_def Let_def slice_slice slice_nth)

lemma tss_parts: "(ucast ((ucast (ucast (b AND 0xFFFF) :: u16) :: u32) OR push_bit 16 (ucast (ucast (drop_bit 16 b AND 0xFF) :: u8)) OR
     push_bit 24 (ucast (ucast (drop_bit 24 b AND 0xFF) :: u8))) :: u64) OR push_bit 32 (ucast (ucast (drop_bit 32 b AND 0xFFFFFFFF) :: u32)) = (b :: u64)"
  unfolding masks
proof (rule bit_word_eqI)
  fix n assume "n < LENGTH(64)"
  then show "bit ((ucast ((ucast (ucast (b AND mask 16) :: u16) :: u32) OR push_bit 16 (ucast (ucast (drop_bit 16 b AND mask 8) :: u8)) OR
     push_bit 24 (ucast (ucast (drop_bit 24 b AND mask 8) :: u8))) :: u64) OR push_bit 32 (ucast (ucast (drop_bit 32 b AND mask 32) :: u32))) n = bit b n"
    using bit_imp_le_length [of b n] by (cases "n < 16"; cases "n < 24"; cases "n < 32") (auto simp: bit_simps)
qed

lemma gdt_set_tss_reads:
  assumes l: "8 * num + 16 \<le> length (gdt_entries d)" and t: "t = gdt_entries (gdt_set_tss num base limit d)"
  shows "tss_base t (8 * num) = base" and "seg_access t (8 * num) = 0x89"
    and "off + n \<le> 8 * num \<Longrightarrow> slice_at t off n = slice_at (gdt_entries d) off n"
proof -
  show "slice_at t off n = slice_at (gdt_entries d) off n" if "off + n \<le> 8 * num"
    using assms that by (simp add: gdt_set_tss_def slice_put_other)
  let ?e = "\<lparr>te_limit0 = ucast (limit AND 0xFFFF), te_base0 = ucast (base AND 0xFFFF),
     te_base1 = ucast (drop_bit 16 base AND 0xFF), te_access = 0x89, te_limit1_flags = ucast (drop_bit 16 limit AND 0x0F),
     te_base2 = ucast (drop_bit 24 base AND 0xFF), te_base3 = ucast (drop_bit 32 base AND 0xFFFFFFFF), te_reserved = 0\<rparr>"
  have w: "t = put_bytes (gdt_entries d) (8 * num) (tss_entry_bytes ?e)" by (simp add: t gdt_set_tss_def)
  have f: "slice_at t (8 * num + 2) 2 = slice_at (tss_entry_bytes ?e) 2 2" "slice_at t (8 * num + 8) 4 = slice_at (tss_entry_bytes ?e) 8 4"
    using slice_put_field [of "8 * num" "tss_entry_bytes ?e" "gdt_entries d" 2 2] slice_put_field [of "8 * num" "tss_entry_bytes ?e" "gdt_entries d" 8 4] l
    by (simp_all add: w)
  have b: "t ! (8 * num + k) = tss_entry_bytes ?e ! k" if "k < 16" for k using l that by (simp add: w nth_put_field)
  show "tss_base t (8 * num) = base"
    unfolding tss_base_def seg_base_def f b [of 4, simplified] b [of 7, simplified]
    by (simp add: tss_entry_bytes_def slice_at_def nth_append of_le_le_bytes_ucast del: push_bit_of_1 push_bit_numeral push_bit_eq_mult) (rule tss_parts)
  show "seg_access t (8 * num) = 0x89"
    unfolding seg_access_def b [of 5, simplified] by (simp add: tss_entry_bytes_def nth_append)
qed

text \<open>The descriptor of slot \<open>k\<close> after slot \<open>num\<close> has been written.\<close>
lemma segment_set_entry:
  assumes "length (gdt_entries d) = 56" and "num < 7" and "unat sel div 8 < 7"
  shows "segment (gdt_set_entry num base limit access flags d) sel =
    (if unat sel div 8 = num then (base, take_bit 20 limit, access, flags AND 0xF0) else segment d sel)"
proof (cases "unat sel div 8 = num")
  case True
  then show ?thesis
    using gdt_set_entry_reads(2-5) [OF _ refl, of num d] assms(1,2) by (simp add: segment_def mult.commute)
next
  case False
  let ?k = "unat sel div 8"
  have "?k * 8 + 8 \<le> 8 * num \<or> 8 * num + 8 \<le> ?k * 8" using False by linarith
  then have "slice_at (gdt_entries (gdt_set_entry num base limit access flags d)) (?k * 8) 8 = slice_at (gdt_entries d) (?k * 8) 8"
    using gdt_set_entry_reads(6) [OF _ refl, of num d "?k * 8" 8] assms by simp
  then show ?thesis using False assms by (simp add: segment_def segment_slice gdt_set_entry_def)
qed

lemma length_gdt_set_entry [simp, layout]:
  "length (gdt_entries d) = 56 \<Longrightarrow> num < 7 \<Longrightarrow> length (gdt_entries (gdt_set_entry num base limit access flags d)) = 56"
  by (simp add: gdt_set_entry_def)

lemma segment_set_tss:
  assumes "length (gdt_entries d) = 56" and "unat sel div 8 < 5"
  shows "segment (gdt_set_tss 5 base limit d) sel = segment d sel"
proof -
  let ?k = "unat sel div 8"
  have "slice_at (gdt_entries (gdt_set_tss 5 base limit d)) (?k * 8) 8 = slice_at (gdt_entries d) (?k * 8) 8"
    using gdt_set_tss_reads(3) [OF _ refl, of 5 d "?k * 8" 8] assms by simp
  then show ?thesis using assms by (simp add: segment_def segment_slice gdt_set_tss_def)
qed

text \<open>Start-up: flat segments of both rings, and the task descriptor leads to the task state segment.\<close>
lemma init_gdt_segments:
  assumes "length (gdt_entries d) = 56"
  shows "segment (init_gdt gdt_at tss_at d) 0x08 = (0, 0xFFFFF, 0x9A, 0xA0)"
    and "segment (init_gdt gdt_at tss_at d) 0x10 = (0, 0xFFFFF, 0x92, 0x80)"
    and "segment (init_gdt gdt_at tss_at d) 0x1B = (0, 0xFFFFF, 0xF2, 0x80)"
    and "segment (init_gdt gdt_at tss_at d) 0x23 = (0, 0xFFFFF, 0xFA, 0xA0)"
    and "tss_base (gdt_entries (init_gdt gdt_at tss_at d)) (unat GDT_TSS) = tss_at"
proof -
  let ?i = "init_gdt gdt_at tss_at d"
  let ?d = "gdt_set_entry 4 0 0xFFFFF 0xFA 0xA0 (gdt_set_entry 3 0 0xFFFFF 0xF2 0x80 (gdt_set_entry 2 0 0xFFFFF 0x92 0x80
      (gdt_set_entry 1 0 0xFFFFF 0x9A 0xA0 (gdt_set_entry 0 0 0 0 0
        (d\<lparr>the_tss := \<lparr>tss_rsp0 = 0, tss_rsp1 = 0, tss_rsp2 = 0, tss_ist = replicate 7 0, iopb_offset = of_nat sizeof_tss\<rparr>\<rparr>)))))"
  have i: "gdt_entries ?i = gdt_entries (gdt_set_tss 5 tss_at (of_nat sizeof_tss - 1) ?d)"
    by (simp add: init_gdt_def load_gdt_def load_tss_def Let_def)
  have l: "length (gdt_entries ?d) = 56" using assms by simp
  have "segment ?i sel = segment ?d sel" if "unat sel div 8 < 5" for sel
    using segment_set_tss [OF l that, of tss_at "of_nat sizeof_tss - 1"] by (simp add: segment_def i)
  then show "segment ?i 0x08 = (0, 0xFFFFF, 0x9A, 0xA0)" "segment ?i 0x10 = (0, 0xFFFFF, 0x92, 0x80)"
    "segment ?i 0x1B = (0, 0xFFFFF, 0xF2, 0x80)" "segment ?i 0x23 = (0, 0xFFFFF, 0xFA, 0xA0)"
    using assms by (simp_all add: segment_set_entry)
  show "tss_base (gdt_entries ?i) (unat GDT_TSS) = tss_at"
    using gdt_set_tss_reads(1) [OF _ i] l by (simp add: GDT_TSS_def)
qed

text \<open>
  C39. After start-up the tables of the processor are those the kernel is built on: the exceptions lead to their stubs, the sixteen
  device interrupts to theirs and vector 128 to the system calls, all in the kernel's code segment; no other
  vector is present, and vector 128 is the only one that a user program may call.  The segments of kernel
  and user are flat with their privilege, and the task register's descriptor leads to the task state segment.
\<close>
theorem boot_tables_protect_kernel:
  assumes "length (gdt_entries d) = 56" and "v < 256"
  shows "(v < 32 \<longrightarrow> gate_to (boot_idt idt_at s t) v (isr_stub s v) 0x8E) \<and>
    (32 \<le> v \<and> v < 48 \<longrightarrow> gate_to (boot_idt idt_at s t) v (irq_stub s (v - 32)) 0x8E) \<and>
    gate_to (boot_idt idt_at s t) 0x80 (syscall_stub s) 0xEE \<and>
    (gate_present (boot_idt idt_at s t) v \<longleftrightarrow> v < 48 \<or> v = 0x80) \<and>
    (gate_present (boot_idt idt_at s t) v \<and> gate_privilege (boot_idt idt_at s t) v = 3 \<longleftrightarrow> v = 0x80) \<and>
    segment (init_gdt gdt_at tss_at d) 0x08 = (0, 0xFFFFF, 0x9A, 0xA0) \<and>
    segment (init_gdt gdt_at tss_at d) 0x10 = (0, 0xFFFFF, 0x92, 0x80) \<and>
    segment (init_gdt gdt_at tss_at d) 0x1B = (0, 0xFFFFF, 0xF2, 0x80) \<and>
    segment (init_gdt gdt_at tss_at d) 0x23 = (0, 0xFFFFF, 0xFA, 0xA0) \<and>
    tss_base (gdt_entries (init_gdt gdt_at tss_at d)) (unat (task_register (init_gdt gdt_at tss_at d))) = tss_at"
proof -
  note g = boot_gates [where idt_at = idt_at and s = s and t = t, OF assms(2)]
  have "task_register (init_gdt gdt_at tss_at d) = GDT_TSS" by (simp add: init_gdt_def load_tss_def Let_def)
  then show ?thesis
    using g boot_gates [of "0x80", where idt_at = idt_at and s = s and t = t] init_gdt_segments [OF assms(1)] by (simp add: gate_present_def gate_privilege_def boot_gate_flags [OF assms(2)])
qed

definition demo_descriptors :: descriptors where
  "demo_descriptors = \<lparr>gdt_entries = replicate 56 0, gdt_size = 0, gdt_offset = 0,
     the_tss = \<lparr>tss_rsp0 = 0, tss_rsp1 = 0, tss_rsp2 = 0, tss_ist = [], iopb_offset = 0\<rparr>, task_register = 0, code_segment = 0, data_segments = 0\<rparr>"

theorem boot_tables_protect_kernel_witness:
  "gate_present (boot_idt 0x5000 \<lparr>isr_stub = of_nat, irq_stub = of_nat, syscall_stub = 7\<rparr> \<lparr>idt_entries = [], idt_limit = 0, idt_base = 0\<rparr>) 0x80 \<and>
   \<not> gate_present (boot_idt 0x5000 \<lparr>isr_stub = of_nat, irq_stub = of_nat, syscall_stub = 7\<rparr> \<lparr>idt_entries = [], idt_limit = 0, idt_base = 0\<rparr>) 0x30"
  using boot_tables_protect_kernel [of demo_descriptors "0x80", where idt_at = "0x5000" and s = "\<lparr>isr_stub = of_nat, irq_stub = of_nat, syscall_stub = 7\<rparr>" and t = "\<lparr>idt_entries = [], idt_limit = 0, idt_base = 0\<rparr>"]
    boot_tables_protect_kernel [of demo_descriptors "0x30", where idt_at = "0x5000" and s = "\<lparr>isr_stub = of_nat, irq_stub = of_nat, syscall_stub = 7\<rparr>" and t = "\<lparr>idt_entries = [], idt_limit = 0, idt_base = 0\<rparr>"]
  by (simp add: demo_descriptors_def)

end
