(* ===== verification/Rtc.thy ===== *)
theory Rtc
  imports Ata Tasks
begin

unbundle bit_operations_syntax

text \<open>
  The clock, \<open>src/src/drivers/rtc.c\<close>, over its two ports.  Waiting until no update is in progress may not
  end: then the operation \<open>Halts\<close>.  Signed overflow, which C leaves undefined, is \<open>Wild\<close>; only the product of the years can overflow.

  The lemmas say what is read from a clock in the usual mode and what the number of seconds is.
\<close>

record rtc_time =
  rt_sec :: u8
  rt_min :: u8
  rt_hour :: u8
  rt_day :: u8
  rt_month :: u8
  rt_year :: u16

definition cmos_read :: "'d device \<Rightarrow> u8 \<Rightarrow> 'd \<Rightarrow> 'd \<times> u8" where
  "cmos_read dev reg d = inb_of dev (outb_of dev d 0x70 (reg OR 0x80)) 0x71"

definition cmos_write :: "'d device \<Rightarrow> u8 \<Rightarrow> u8 \<Rightarrow> 'd \<Rightarrow> 'd" where
  "cmos_write dev reg val d = outb_of dev (outb_of dev d 0x70 (reg OR 0x80)) 0x71 val"

definition rtc_updating :: "'d device \<Rightarrow> 'd \<Rightarrow> 'd \<times> bool" where
  "rtc_updating dev d = (case cmos_read dev 0x0A d of (d, v) \<Rightarrow> (d, v AND 0x80 \<noteq> 0))"

definition bcd_to_bin :: "u8 \<Rightarrow> u8" where
  "bcd_to_bin bcd = (bcd AND 0x0F) + (drop_bit 4 bcd * 10)"

partial_function (option) rtc_wait :: "'d device \<Rightarrow> 'd \<Rightarrow> 'd outcome option" where
  "rtc_wait dev d = (case rtc_updating dev d of (d, busy) \<Rightarrow> if busy then rtc_wait dev d else Some (Done d))"

text \<open>The conversion of the register values, with register B.\<close>
definition rtc_decode :: "u8 \<Rightarrow> u8 \<Rightarrow> u8 \<Rightarrow> u8 \<Rightarrow> u8 \<Rightarrow> u8 \<Rightarrow> u8 \<Rightarrow> rtc_time" where
  "rtc_decode regB sec minute hour day month year =
     (let (sec, minute, hour, day, month, year) =
            (if regB AND 0x04 = 0
             then (bcd_to_bin sec, bcd_to_bin minute, bcd_to_bin (hour AND 0x7F), bcd_to_bin day, bcd_to_bin month, bcd_to_bin year)
             else (sec, minute, hour, day, month, year));
          hour = (if regB AND 0x02 = 0 \<and> hour AND 0x80 \<noteq> 0 then ((hour AND 0x7F) + 12) mod 24 else hour)
      in \<lparr>rt_sec = sec, rt_min = minute, rt_hour = hour, rt_day = day, rt_month = month, rt_year = 2000 + ucast year\<rparr>)"

definition rtc_read :: "'d device \<Rightarrow> 'd \<Rightarrow> ('d \<times> rtc_time) outcome" where
  "rtc_read dev d =
     bind_oc (run_oc (rtc_wait dev d)) (\<lambda>d.
       case cmos_read dev 0x00 d of (d, sec) \<Rightarrow>
       case cmos_read dev 0x02 d of (d, minute) \<Rightarrow>
       case cmos_read dev 0x04 d of (d, hour) \<Rightarrow>
       case cmos_read dev 0x07 d of (d, day) \<Rightarrow>
       case cmos_read dev 0x08 d of (d, month) \<Rightarrow>
       case cmos_read dev 0x09 d of (d, year) \<Rightarrow>
       case cmos_read dev 0x0B d of (d, regB) \<Rightarrow>
         Done (d, rtc_decode regB sec minute hour day month year))"

definition rtc_enable_irq :: "'d device \<Rightarrow> 'd \<Rightarrow> 'd" where
  "rtc_enable_irq dev d = (case cmos_read dev 0x0B d of (d, prev) \<Rightarrow> cmos_write dev 0x0B (prev OR 0x40) d)"

definition rtc_irq_handler :: "'d device \<Rightarrow> regs \<Rightarrow> 'd \<Rightarrow> regs \<times> 'd" where
  "rtc_irq_handler dev r d = (r, fst (cmos_read dev 0x0C d))"

text \<open>An \<open>int\<close> that C can hold.\<close>
definition fits_int :: "int \<Rightarrow> bool" where
  "fits_int i \<longleftrightarrow> - (2 ^ 31) \<le> i \<and> i < 2 ^ 31"

definition epoch_of :: "rtc_time \<Rightarrow> u64 outcome" where
  "epoch_of t =
     (let years = (uint (rt_year t) - 1970) * 365 * 24 * 3600
      in if \<not> fits_int years then Wild
         else Done (of_int years + of_int ((uint (rt_month t) - 1) * 30 * 24 * 3600) +
                    of_int ((uint (rt_day t) - 1) * 24 * 3600) + of_int (uint (rt_hour t) * 3600) +
                    of_int (uint (rt_min t) * 60) + ucast (rt_sec t)))"

definition get_unix_epoch :: "'d device \<Rightarrow> 'd \<Rightarrow> ('d \<times> u64) outcome" where
  "get_unix_epoch dev d =
     bind_oc (rtc_read dev d) (\<lambda>(d, t). bind_oc (epoch_of t) (\<lambda>e. Done (d, e)))"

section \<open>A clock\<close>

text \<open>The registers behind the ports; \<open>clock_busy\<close> is the number of times that register A will report an update.\<close>
record clock =
  clock_index :: u8
  clock_regs :: "u8 \<Rightarrow> u8"
  clock_busy :: nat

definition clock_device :: "clock device" where
  "clock_device = \<lparr>inb_of = \<lambda>d port.
       if port \<noteq> 0x71 then (d, 0xFF)
       else if clock_index d = 0x0A then
         (case clock_busy d of 0 \<Rightarrow> (d, clock_regs d 0x0A AND 0x7F) | Suc n \<Rightarrow> (d\<lparr>clock_busy := n\<rparr>, clock_regs d 0x0A OR 0x80))
       else (d, clock_regs d (clock_index d)),
     outb_of = \<lambda>d port w.
       if port = 0x70 then d\<lparr>clock_index := w AND 0x7F\<rparr>
       else if port = 0x71 then d\<lparr>clock_regs := (clock_regs d)(clock_index d := w)\<rparr>
       else d,
     inw_of = \<lambda>d port. (d, 0xFFFF), outw_of = \<lambda>d port w. d\<rparr>"

lemma clock_simps [simp]:
  "reg \<noteq> 0x0A \<Longrightarrow> inb_of clock_device (d\<lparr>clock_index := reg\<rparr>) 0x71 = (d\<lparr>clock_index := reg\<rparr>, clock_regs d reg)"
  "outb_of clock_device d 0x70 w = d\<lparr>clock_index := w AND 0x7F\<rparr>"
  by (simp_all add: clock_device_def)

text \<open>Waiting ends when the update ends.\<close>
lemma rtc_wait_clock: "\<exists>i. rtc_wait clock_device d = Some (Done (d\<lparr>clock_index := i, clock_busy := 0\<rparr>))"
proof (induction "clock_busy d" arbitrary: d)
  case 0
  have m: "clock_regs d 0x0A AND 0x7F AND 0x80 = 0" by (simp add: and.assoc)
  show ?case
    by (rule exI [of _ "0x0A"], subst rtc_wait.simps)
      (use 0 m in \<open>cases d; simp add: rtc_updating_def cmos_read_def clock_device_def and.assoc\<close>)
next
  case (Suc n)
  have m: "(clock_regs d 0x0A OR 0x80) AND 0x80 \<noteq> 0" by (simp add: bit.conj_disj_distrib2)
  obtain i where "rtc_wait clock_device (d\<lparr>clock_index := 0x0A, clock_busy := n\<rparr>) = Some (Done (d\<lparr>clock_index := i, clock_busy := 0\<rparr>))"
    using Suc.hyps(1) [of "d\<lparr>clock_index := 0x0A, clock_busy := n\<rparr>"] by auto
  then show ?case
    using m Suc.hyps(2) [symmetric] by (intro exI [of _ i], subst rtc_wait.simps) (simp add: rtc_updating_def cmos_read_def clock_device_def)
qed

lemma rtc_read_clock:
  "\<exists>d'. rtc_read clock_device d = Done (d', rtc_decode (clock_regs d 0x0B) (clock_regs d 0) (clock_regs d 2) (clock_regs d 4)
     (clock_regs d 7) (clock_regs d 8) (clock_regs d 9))"
proof -
  obtain i where w: "rtc_wait clock_device d = Some (Done (d\<lparr>clock_index := i, clock_busy := 0\<rparr>))" using rtc_wait_clock by blast
  show ?thesis by (simp add: rtc_read_def w run_oc_def cmos_read_def)
qed

text \<open>Two decimal digits in a byte.\<close>
definition bcd :: "nat \<Rightarrow> u8" where
  "bcd n = of_nat (16 * (n div 10) + n mod 10)"

lemma bcd_round_trip: "n < 100 \<Longrightarrow> bcd_to_bin (bcd n) = of_nat n"
proof -
  have "\<forall>n \<in> set [0..<100]. bcd_to_bin (bcd n) = of_nat n" by (simp add: upt_rec bcd_to_bin_def bcd_def)
  then show "n < 100 \<Longrightarrow> bcd_to_bin (bcd n) = of_nat n" by simp
qed

lemma bcd_hour: "n < 24 \<Longrightarrow> bcd n AND 0x7F = bcd n"
proof -
  have "\<forall>n \<in> set [0..<24]. bcd n AND 0x7F = bcd n" by (simp add: upt_rec bcd_def)
  then show "n < 24 \<Longrightarrow> bcd n AND 0x7F = bcd n" by simp
qed

lemma ucast_year: "y < 100 \<Longrightarrow> (ucast (of_nat y :: u8) :: u16) = of_nat y"
  by (simp add: word_unat_eq_iff unat_ucast_mod unat_of_nat take_bit_nat_eq_self)

text \<open>In 24-hour mode with decimal digits the time read is the time of the clock.\<close>
lemma rtc_decode_bcd24:
  assumes "s < 60" "m < 60" "h < 24" "dd < 32" "mo < 13" "y < 100"
  shows "rtc_decode 0x02 (bcd s) (bcd m) (bcd h) (bcd dd) (bcd mo) (bcd y) =
    \<lparr>rt_sec = of_nat s, rt_min = of_nat m, rt_hour = of_nat h, rt_day = of_nat dd, rt_month = of_nat mo, rt_year = of_nat (2000 + y)\<rparr>"
  using assms by (simp add: rtc_decode_def bcd_round_trip bcd_hour ucast_year)

text \<open>In 12-hour mode bit 7 marks the afternoon; with decimal digits it is lost.\<close>
lemma rtc_decode_afternoon_lost: "rt_hour (rtc_decode 0x00 s m (bcd 1 OR 0x80) dd mo y) = 1"
  by (simp add: rtc_decode_def bcd_def bcd_to_bin_def)

lemma epoch_bound:
  assumes "y < 100"
  shows "epoch_of \<lparr>rt_sec = s, rt_min = m, rt_hour = h, rt_day = dd, rt_month = mo, rt_year = of_nat (2000 + y)\<rparr> = Wild \<longleftrightarrow> 39 \<le> y"
proof -
  have "uint (of_nat (2000 + y) :: u16) = 2000 + int y" using assms by (simp only: uint_nat unat_of_nat) (simp add: take_bit_nat_eq_self)
  then show ?thesis using assms by (simp add: epoch_of_def fits_int_def Let_def)
qed

end
