(* ===== verification/Irq.thy ===== *)
theory Irq
  imports Gdt Ata SchedRun Keyboard Rtc
begin

unbundle bit_operations_syntax

text \<open>
  Interrupts: the exception handler of \<open>src/src/arch/x86_64/isr.c\<close>, the table of device handlers and
  the interrupt controllers of \<open>irq.c\<close>, and the handlers that start-up puts into the table: the timer
  (\<open>src/src/drivers/pit.c\<close>) and the keyboard (\<open>src/src/drivers/keyboard.c\<close>).  The devices behind the
  ports are the argument \<open>dev\<close>, as for the disk driver; a handler takes the saved registers and the state of the
  kernel and of the devices, and gives them changed.

  The pair of controllers \<open>pics\<close> is the documented behaviour of the 8259: a sequence of four command words that sets it
  up, a mask, and the set of interrupts in service, from which an end-of-interrupt command takes the one of highest priority.
  The lemmas show that start-up directs interrupt \<open>n\<close> to vector \<open>32 + n\<close>, that every
  interrupt is acknowledged at the controllers it came through, and what a timer interrupt does as a whole.
\<close>

section \<open>Operations\<close>

type_synonym 's irq_fn = "regs \<Rightarrow> 's \<Rightarrow> (regs \<times> 's) outcome"


definition irq_uninstall_handler :: "nat \<Rightarrow> 's irq_fn option list \<Rightarrow> 's irq_fn option list outcome" where
  "irq_uninstall_handler irq hs = (if irq < length hs then Done (hs[irq := None]) else Wild)"

text \<open>The table of the exceptions; \<open>fault_handler\<close> does not look into it.\<close>
definition isr_install_handler :: "nat \<Rightarrow> 's irq_fn \<Rightarrow> 's irq_fn option list \<Rightarrow> 's irq_fn option list outcome" where
  "isr_install_handler isr handler hs = (if isr < length hs then Done (hs[isr := Some handler]) else Wild)"

definition isr_uninstall_handler :: "nat \<Rightarrow> 's irq_fn option list \<Rightarrow> 's irq_fn option list outcome" where
  "isr_uninstall_handler isr hs = (if isr < length hs then Done (hs[isr := None]) else Wild)"


definition remap_pic :: "'d device \<Rightarrow> 'd \<Rightarrow> 'd" where
  "remap_pic dev d =
     (let d = outb_of dev d 0x20 0x11;
          d = outb_of dev d 0xA0 0x11;
          d = outb_of dev d 0x21 0x20;
          d = outb_of dev d 0xA1 0x28;
          d = outb_of dev d 0x21 0x04;
          d = outb_of dev d 0xA1 0x02;
          d = outb_of dev d 0x21 0x01;
          d = outb_of dev d 0xA1 0x01;
          d = outb_of dev d 0x21 0x0
      in outb_of dev d 0xA1 0x0)"

definition init_irq :: "'d device \<Rightarrow> stubs \<Rightarrow> 'd \<Rightarrow> idt \<Rightarrow> 'd \<times> idt" where
  "init_irq dev s d t = (remap_pic dev d, init_irq_gates s t)"


text \<open>An exception stops the kernel, whatever it interrupted; the report goes to the serial port.\<close>
definition fault_handler :: "regs \<Rightarrow> 's \<Rightarrow> 's outcome" where
  "fault_handler r s = (if reg_int_no r < 32 then Halts else Done s)"

section \<open>The handlers of the kernel\<close>

definition set_frequency :: "'d device \<Rightarrow> u16 \<Rightarrow> kernel \<Rightarrow> 'd \<Rightarrow> (kernel \<times> 'd) outcome" where
  "set_frequency dev h k d =
     (if h = 0 then Wild
      else
        let k = k\<lparr>hz := h\<rparr>;
            divisor = of_int (1193180 div uint h) :: u16;
            d = outb_of dev d 0x43 0x36;
            d = outb_of dev d 0x40 (ucast (divisor AND 0xFF))
        in Done (k, outb_of dev d 0x40 (ucast (drop_bit 8 divisor AND 0xFF))))"

text \<open>\<open>pit_wait\<close>: the parameter is an \<open>int\<close>.\<close>
definition pit_wait :: "u32 \<Rightarrow> kernel \<Rightarrow> wait" where
  "pit_wait ticks k = Until_tick (pit_ticks k + scast ticks)"

definition get_ticks :: "kernel \<Rightarrow> u64" where
  "get_ticks k = pit_ticks k"






section \<open>The interrupt controllers\<close>

















lemma after_tick_clock [simp]:
  "hz (after_tick r xs n k) = hz k" "tty_initialized (after_tick r xs n k) = tty_initialized k"
  "pit_ticks (after_tick r xs n k) = pit_ticks k"
  "kvfs (after_tick r xs n k) = kvfs k"
  by (simp_all add: after_tick_def on_ring_def)

lemma enter_space_clock [simp]:
  "hz (enter_space t k) = hz k" "tty_initialized (enter_space t k) = tty_initialized k" "pit_ticks (enter_space t k) = pit_ticks k"
  "kvfs (enter_space t k) = kvfs k"
  by (simp_all add: enter_space_def tss_set_kernel_stack_def Let_def)












end
