(* ===== verification/Serial.thy ===== *)
theory Serial
  imports Ata KStdio Pmm
begin

unbundle bit_operations_syntax

text \<open>
  The serial port, \<open>src/src/drivers/serial.c\<close>, and the log that goes there, \<open>src/src/libk/utils.c\<close>.  The
  wait for the transmitter may not end; \<open>None\<close> is the endless wait.  The state of the log is the line: the
  devices, or \<open>None\<close> when a character before never got out.

  The \<open>uart\<close> is the documented behaviour of a 16550: the divisor latch, the loop-back test and a transmitter that is busy
  for a number of polls after each character.  On it the set-up succeeds, and a write sends exactly its bytes.
\<close>

record serial =
  def_port :: u16
  initialized :: bool

definition COM1_PORT :: u16 where "COM1_PORT = 0x3F8"

text \<open>The result, 0 on success.\<close>
definition serial_init :: "'d device \<Rightarrow> u16 \<Rightarrow> serial \<Rightarrow> 'd \<Rightarrow> nat \<times> serial \<times> 'd" where
  "serial_init dev port st d =
     (let d = outb_of dev d (port + 1) 0x00;
          d = outb_of dev d (port + 3) 0x80;
          d = outb_of dev d (port + 0) 0x01;
          d = outb_of dev d (port + 1) 0x00;
          d = outb_of dev d (port + 3) 0x03;
          d = outb_of dev d (port + 2) 0xC7;
          d = outb_of dev d (port + 4) 0x0B;
          d = outb_of dev d (port + 4) 0x1E;
          d = outb_of dev d (port + 0) 0xAE
      in case inb_of dev d port of (d, v) \<Rightarrow>
           if v \<noteq> 0xAE then (1, st, d)
           else (0, \<lparr>def_port = port, initialized = True\<rparr>, outb_of dev d (port + 4) 0x0F))"

definition is_serial_initialized :: "serial \<Rightarrow> bool" where
  "is_serial_initialized st = initialized st"

partial_function (option) transmitter_wait :: "'d device \<Rightarrow> serial \<Rightarrow> 'd \<Rightarrow> 'd option" where
  "transmitter_wait dev st d =
     (case inb_of dev d (def_port st + 5) of (d, v) \<Rightarrow>
        if v AND 0x20 \<noteq> 0 then Some d else transmitter_wait dev st d)"

definition serial_putchar :: "'d device \<Rightarrow> serial \<Rightarrow> u8 \<Rightarrow> 'd option \<Rightarrow> 'd option" where
  "serial_putchar dev st c l =
     (case l of None \<Rightarrow> None
      | Some d \<Rightarrow> (case transmitter_wait dev st d of None \<Rightarrow> None | Some d \<Rightarrow> Some (outb_of dev d (def_port st) c)))"

definition serial_puts :: "'d device \<Rightarrow> serial \<Rightarrow> cstring \<Rightarrow> 'd option \<Rightarrow> 'd option" where
  "serial_puts dev st s l = fold (serial_putchar dev st) s l"

definition serial_write :: "'d device \<Rightarrow> serial \<Rightarrow> u8 list \<Rightarrow> 'd option \<Rightarrow> u64 \<times> 'd option" where
  "serial_write dev st buf l = (of_nat (length buf), fold (serial_putchar dev st) buf l)"

text \<open>\<open>None\<close> as a result: the formatter reads behind the format or the arguments.\<close>
definition serial_printf :: "'d device \<Rightarrow> serial \<Rightarrow> (u64 \<Rightarrow> cstring) \<Rightarrow> cstring \<Rightarrow> u64 list \<Rightarrow> 'd option \<Rightarrow> 'd option option" where
  "serial_printf dev st str_of fmt args l = vsprintf (serial_putchar dev st) (serial_puts dev st) str_of fmt args l"

section \<open>The log\<close>

definition dbgln :: "'d device \<Rightarrow> serial \<Rightarrow> (u64 \<Rightarrow> cstring) \<Rightarrow> cstring \<Rightarrow> u64 list \<Rightarrow> 'd option \<Rightarrow> 'd option option" where
  "dbgln dev st str_of fmt args l =
     (if \<not> is_serial_initialized st then Some l
      else vsprintf (serial_putchar dev st) (serial_puts dev st) str_of fmt args l)"

definition log_head :: cstring where
  "log_head = [0x1B] @ bytes_of ''[1;34m[%s] %s: '' @ [0x1B] @ bytes_of ''[0m''"

definition log_status :: "int \<Rightarrow> cstring" where
  "log_status status = (if status \<noteq> 0 then [0x1B] @ bytes_of ''[32m'' else [0x1B] @ bytes_of ''[31mERROR'')"

text \<open>The head takes two strings, at the addresses 1 and 2 of an own table.  Only the head is guarded.\<close>
definition log :: "'d device \<Rightarrow> serial \<Rightarrow> (u64 \<Rightarrow> cstring) \<Rightarrow> cstring \<Rightarrow> int \<Rightarrow> cstring \<Rightarrow> u64 list \<Rightarrow> 'd option \<Rightarrow> 'd option option" where
  "log dev st str_of module status fmt args l =
     (case dbgln dev st (\<lambda>a. if a = 1 then module else log_status status) log_head [1, 2] l of
        None \<Rightarrow> None
      | Some l \<Rightarrow> vsprintf (serial_putchar dev st) (serial_puts dev st) str_of fmt args l)"

section \<open>A serial line\<close>

record uart =
  u_latch :: bool
  u_loop :: bool
  u_received :: u8
  u_sent :: "u8 list"
  u_wait :: nat
  u_latency :: nat

definition uart_device :: "u16 \<Rightarrow> uart device" where
  "uart_device base = \<lparr>inb_of = \<lambda>d port.
       if port = base then (d, u_received d)
       else if port = base + 5 then
         (case u_wait d of 0 \<Rightarrow> (d, 0x20) | Suc n \<Rightarrow> (d\<lparr>u_wait := n\<rparr>, 0))
       else (d, 0),
     outb_of = \<lambda>d port w.
       if port = base then
         (if u_latch d then d
          else if u_loop d then d\<lparr>u_received := w\<rparr>
          else d\<lparr>u_sent := u_sent d @ [w], u_wait := u_latency d\<rparr>)
       else if port = base + 3 then d\<lparr>u_latch := bit w 7\<rparr>
       else if port = base + 4 then d\<lparr>u_loop := bit w 4\<rparr>
       else d,
     inw_of = \<lambda>d port. (d, 0), outw_of = \<lambda>d port w. d\<rparr>"

lemma ports_differ: "(base :: u16) + 1 \<noteq> base" "base + 2 \<noteq> base" "base + 3 \<noteq> base" "base + 4 \<noteq> base" "base + 5 \<noteq> base"
  by simp_all

lemma serial_init_uart:
  "serial_init (uart_device port) port st d =
     (0, \<lparr>def_port = port, initialized = True\<rparr>, d\<lparr>u_latch := False, u_loop := False, u_received := 0xAE\<rparr>)"
  by (cases d) (simp add: serial_init_def uart_device_def ports_differ)

lemma transmitter_wait_uart:
  "def_port st = base \<Longrightarrow> transmitter_wait (uart_device base) st d = Some (d\<lparr>u_wait := 0\<rparr>)"
proof (induction "u_wait d" arbitrary: d)
  case 0
  then show ?case by (subst transmitter_wait.simps) (simp add: uart_device_def ports_differ)
next
  case (Suc n)
  then have "transmitter_wait (uart_device base) st (d\<lparr>u_wait := n\<rparr>) = Some (d\<lparr>u_wait := 0\<rparr>)"
    using Suc.hyps(1) [of "d\<lparr>u_wait := n\<rparr>"] by simp
  then show ?case using Suc.hyps(2) [symmetric] Suc.prems
    by (subst transmitter_wait.simps) (simp add: uart_device_def ports_differ)
qed

lemma serial_putchar_uart:
  "def_port st = base \<Longrightarrow> \<not> u_latch d \<Longrightarrow> \<not> u_loop d \<Longrightarrow>
   serial_putchar (uart_device base) st c (Some d) = Some (d\<lparr>u_sent := u_sent d @ [c], u_wait := u_latency d\<rparr>)"
  by (cases d) (simp add: serial_putchar_def transmitter_wait_uart, simp add: uart_device_def)

lemma serial_write_uart:
  assumes "def_port st = base" and "\<not> u_latch d" and "\<not> u_loop d"
  shows "\<exists>d'. serial_write (uart_device base) st buf (Some d) = (of_nat (length buf), Some d') \<and> u_sent d' = u_sent d @ buf \<and>
    \<not> u_latch d' \<and> \<not> u_loop d'"
  using assms(2,3)
proof (induction buf arbitrary: d)
  case (Cons c cs)
  then show ?case
    using Cons.IH [of "d\<lparr>u_sent := u_sent d @ [c], u_wait := u_latency d\<rparr>"] assms(1)
    by (auto simp: serial_write_def serial_putchar_uart)
qed (simp add: serial_write_def)

text \<open>Without a serial port the message of the log is sent all the same, to the ports from 0 on.\<close>
lemma log_not_guarded:
  assumes "\<not> initialized st"
  shows "log dev st str_of module status fmt args l = vsprintf (serial_putchar dev st) (serial_puts dev st) str_of fmt args l"
    and "dbgln dev st str_of fmt args l = Some l"
  using assms by (simp_all add: log_def dbgln_def is_serial_initialized_def)

end
