(* ===== verification/KArgs.thy ===== *)
theory KArgs
  imports KString Pmm
begin

text \<open>
  The kernel's command line, \<open>init_arg_parser\<close> and \<open>arg_exist\<close> of \<open>src/src/libk/utils.c\<close>: the words of
  the line that the boot loader passed, as addresses into it.  The table has 128 entries, the last argument included;
  an access behind it is \<open>Wild\<close>.
\<close>

record kargs =
  kernel_argv :: "nat option list"
  kernel_argc :: nat

text \<open>\<open>kernel_argv[kernel_argc] = strtok(s, " ")\<close>; \<open>delim\<close> is where the string of one blank is.\<close>
definition next_arg :: "nat \<Rightarrow> nat option \<Rightarrow> mem \<times> nat \<times> kargs \<Rightarrow> (mem \<times> nat \<times> kargs) outcome option" where
  "next_arg delim s x =
     (case x of (m, oldword, a) \<Rightarrow>
        (case strtok m oldword s delim of
           None \<Rightarrow> None
         | Some (m, oldword, r) \<Rightarrow>
             Some (if kernel_argc a < length (kernel_argv a)
                   then Done (m, oldword, a\<lparr>kernel_argv := (kernel_argv a)[kernel_argc a := r]\<rparr>) else Wild)))"

partial_function (option) arg_loop :: "nat \<Rightarrow> mem \<times> nat \<times> kargs \<Rightarrow> (mem \<times> nat \<times> kargs) outcome option" where
  "arg_loop delim x =
     (case x of (m, oldword, a) \<Rightarrow>
        (case kernel_argv a ! kernel_argc a of
           None \<Rightarrow> Some (Done x)
         | Some _ \<Rightarrow>
             (case next_arg delim None (m, oldword, a\<lparr>kernel_argc := kernel_argc a + 1\<rparr>) of
                None \<Rightarrow> None
              | Some (Done x) \<Rightarrow> arg_loop delim x
              | Some _ \<Rightarrow> Some Wild)))"

text \<open>\<open>cmdline\<close> is null when the boot loader passed none.\<close>
definition init_arg_parser :: "nat \<Rightarrow> nat option \<Rightarrow> mem \<Rightarrow> nat \<Rightarrow> kargs \<Rightarrow> (mem \<times> nat \<times> kargs) outcome option" where
  "init_arg_parser delim cmdline m oldword a =
     (case cmdline of
        Some p \<Rightarrow>
          (case next_arg delim (Some p) (m, oldword, a) of
             None \<Rightarrow> None
           | Some (Done x) \<Rightarrow> arg_loop delim x
           | Some _ \<Rightarrow> Some Wild)
      | None \<Rightarrow> Some (if kernel_argc a < length (kernel_argv a)
            then Done (m, oldword, a\<lparr>kernel_argv := (kernel_argv a)[kernel_argc a := None]\<rparr>) else Wild))"

fun arg_search :: "mem \<Rightarrow> nat \<Rightarrow> nat option list \<Rightarrow> bool outcome option" where
  "arg_search m arg [] = Some (Done False)"
| "arg_search m arg (None # as) = Some Wild"
| "arg_search m arg (Some p # as) =
     (case strcmp m arg p of None \<Rightarrow> None | Some r \<Rightarrow> if r = 0 then Some (Done True) else arg_search m arg as)"

definition arg_exist :: "mem \<Rightarrow> nat \<Rightarrow> kargs \<Rightarrow> bool outcome option" where
  "arg_exist m arg a = arg_search m arg (take (kernel_argc a) (kernel_argv a))"

section \<open>Lemmas\<close>

lemma next_arg_loop:
  assumes "strtok_all n m oldword s delim = Some (m', as)"
    and "kernel_argc a + length as < length (kernel_argv a)"
  shows "\<exists>old x. next_arg delim s (m, oldword, a) = Some (Done x) \<and> arg_loop delim x = Some (Done (m', old,
    \<lparr>kernel_argv = take (kernel_argc a) (kernel_argv a) @ map Some as @ None # drop (kernel_argc a + length as + 1) (kernel_argv a),
     kernel_argc = kernel_argc a + length as\<rparr>))"
  using assms
proof (induction n arbitrary: m oldword s as a)
  case (Suc n)
  obtain m1 old r where st: "strtok m oldword s delim = Some (m1, old, r)" using Suc.prems(1) by (auto split: option.splits)
  have k: "kernel_argc a < length (kernel_argv a)" using Suc.prems(2) by simp
  let ?a = "a\<lparr>kernel_argv := (kernel_argv a)[kernel_argc a := r]\<rparr>"
  have n: "next_arg delim s (m, oldword, a) = Some (Done (m1, old, ?a))" using st k by (simp add: next_arg_def)
  show ?case
  proof (cases r)
    case None
    then have "as = []" "m' = m1" using Suc.prems(1) st by auto
    moreover have "arg_loop delim (m1, old, ?a) = Some (Done (m1, old, ?a))"
      using None k by (subst arg_loop.simps) simp
    ultimately show ?thesis using n k None by (cases a) (simp add: upd_conv_take_nth_drop)
  next
    case (Some p)
    then obtain bs where bs: "as = p # bs" "strtok_all n m1 old None delim = Some (m', bs)"
      using Suc.prems(1) st by (auto split: option.splits)
    let ?b = "?a\<lparr>kernel_argc := kernel_argc a + 1\<rparr>"
    obtain old' x where x: "next_arg delim None (m1, old, ?b) = Some (Done x)" "arg_loop delim x = Some (Done (m', old',
        \<lparr>kernel_argv = take (kernel_argc ?b) (kernel_argv ?b) @ map Some bs @ None # drop (kernel_argc ?b + length bs + 1) (kernel_argv ?b),
         kernel_argc = kernel_argc ?b + length bs\<rparr>))"
      using Suc.IH [OF bs(2), of ?b] Suc.prems(2) bs(1) by auto
    have "arg_loop delim (m1, old, ?a) = arg_loop delim x"
      using Some k x(1) by (subst arg_loop.simps) simp
    moreover have "take (kernel_argc a + 1) ((kernel_argv a)[kernel_argc a := r]) = take (kernel_argc a) (kernel_argv a) @ [Some p]"
      using k Some by (simp add: take_Suc_conv_app_nth)
    ultimately show ?thesis using n x(2) bs(1) k Some by simp
  qed
qed simp

lemma arg_search_at:
  assumes "list_all2 (cstring_at m) as ts" and "cstring_at m arg s"
  shows "arg_search m arg (map Some as) = Some (Done (s \<in> set ts))"
  using assms(1)
proof (induction rule: list_all2_induct)
  case (Cons p as t ts)
  obtain r where "strcmp m arg p = Some r" "r = 0 \<longleftrightarrow> s = t" using strcmp_at [OF assms(2) Cons.hyps(1)] by blast
  then show ?case using Cons.IH by auto
qed simp

text \<open>An argument is found exactly when it is a word of the command line.\<close>
lemma arg_exist_word:
  assumes line: "cstring_at m p line" and blank: "cstring_at m q [0x20]" and arg: "cstring_at m arg s"
    and apart: "q + 1 < p \<or> p + length line < q" "arg + length s < p \<or> p + length line < arg"
    and few: "length (tokens {0x20} line) < 128"
  shows "\<exists>m' old a. init_arg_parser q (Some p) m oldword \<lparr>kernel_argv = replicate 128 None, kernel_argc = 0\<rparr> = Some (Done (m', old, a)) \<and>
    arg_exist m' arg a = Some (Done (s \<in> set (tokens {0x20} line)))"
proof -
  obtain m' as where t: "strtok_all (Suc (length (tokens {0x20} line))) m oldword (Some p) q = Some (m', as)"
      "list_all2 (cstring_at m') as (tokens {0x20} line)" "\<forall>a. a < p \<or> p + length line \<le> a \<longrightarrow> m' a = m a"
    using strtok_all_at [OF line blank, of oldword] apart(1) by auto
  have l: "length as < 128" using t(2) few by (simp add: list_all2_lengthD)
  obtain old x where x: "next_arg q (Some p) (m, oldword, \<lparr>kernel_argv = replicate 128 None, kernel_argc = 0\<rparr>) = Some (Done x)"
      "arg_loop q x = Some (Done (m', old, \<lparr>kernel_argv = map Some as @ None # drop (length as + 1) (replicate 128 None), kernel_argc = length as\<rparr>))"
    using next_arg_loop [OF t(1), of "\<lparr>kernel_argv = replicate 128 None, kernel_argc = 0\<rparr>"] l by auto
  have "cstring_at m' arg s" by (rule cstring_at_cong [OF arg]) (use t(3) apart(2) in auto)
  from arg_search_at [OF t(2) this] show ?thesis
    using x by (auto simp: init_arg_parser_def arg_exist_def)
qed

end
