(* ===== verification/Spinlock.thy ===== *)
theory Spinlock
  imports Prelude
begin

text \<open>
  The spinlock, \<open>src/src/libk/spinlock.c\<close>, that guards the allocator.  Each of its accesses to the lock
  is atomic; between them other threads run.  A thread is where it is in \<open>spinlock_acquire\<close>: \<open>Idle\<close> outside, \<open>Trying\<close> at
  the exchange of its loop, \<open>Holding\<close> after it, until \<open>spinlock_release\<close>.  A step of the system is a
  step of any thread.

  The lemmas are the exclusion of the threads from each other, and that a free lock goes to the next thread that tries.
\<close>

section \<open>The accesses\<close>

type_synonym spinlock = u32

definition spinlock_init :: spinlock where
  "spinlock_init = 0"

text \<open>\<open>atomic_exchange (&lock->lock, 1) == 1\<close>, the condition under which the loop goes on.\<close>
definition spin_once :: "spinlock \<Rightarrow> bool \<times> spinlock" where
  "spin_once lock = (lock = 1, 1)"

definition spinlock_release :: "spinlock \<Rightarrow> spinlock" where
  "spinlock_release lock = 0"

section \<open>Threads\<close>

datatype thread = Idle | Trying | Holding

record threads =
  the_lock :: spinlock
  pc :: "nat \<Rightarrow> thread"

inductive lock_step :: "threads \<Rightarrow> threads \<Rightarrow> bool" where
  enter: "pc s t = Idle \<Longrightarrow> lock_step s (s\<lparr>pc := (pc s)(t := Trying)\<rparr>)"
| spin: "pc s t = Trying \<Longrightarrow> spin_once (the_lock s) = (True, l) \<Longrightarrow> lock_step s (s\<lparr>the_lock := l\<rparr>)"
| got: "pc s t = Trying \<Longrightarrow> spin_once (the_lock s) = (False, l) \<Longrightarrow>
    lock_step s (s\<lparr>the_lock := l, pc := (pc s)(t := Holding)\<rparr>)"
| leave: "pc s t = Holding \<Longrightarrow> lock_step s (s\<lparr>the_lock := spinlock_release (the_lock s), pc := (pc s)(t := Idle)\<rparr>)"

inductive lock_run :: "threads \<Rightarrow> bool" where
  start: "lock_run \<lparr>the_lock = spinlock_init, pc = \<lambda>_. Idle\<rparr>"
| more: "lock_run s \<Longrightarrow> lock_step s s' \<Longrightarrow> lock_run s'"

inductive_cases lock_stepE: "lock_step s s'"

text \<open>The lock is 1 exactly while a thread holds it, and then only that one.\<close>
definition held_by :: "threads \<Rightarrow> nat option \<Rightarrow> bool" where
  "held_by s h \<longleftrightarrow> (\<forall>t. pc s t = Holding \<longleftrightarrow> h = Some t) \<and> the_lock s = (if h = None then 0 else 1)"

lemma held_by_step:
  assumes "lock_step s s'" and h: "held_by s h"
  shows "\<exists>h'. held_by s' h' \<and> (h = None \<or> h' = None \<or> h' = h)"
  using assms(1)
proof cases
  case (enter t)
  moreover have "pc s u = Holding \<longleftrightarrow> h = Some u" for u using h by (simp add: held_by_def)
  ultimately have "held_by s' h" using h by (auto simp: held_by_def) (metis thread.distinct(3))+
  then show ?thesis by blast
next
  case (spin t l)
  then show ?thesis using h by (intro exI [of _ h]) (auto simp: held_by_def spin_once_def split: if_splits)
next
  case (got t l)
  then show ?thesis using h by (intro exI [of _ "Some t"]) (auto simp: held_by_def spin_once_def split: if_splits)
next
  case (leave t)
  then show ?thesis using h by (intro exI [of _ None]) (auto simp: held_by_def spinlock_release_def split: if_splits)
qed

lemma lock_run_held: "lock_run s \<Longrightarrow> \<exists>h. held_by s h"
proof (induction rule: lock_run.induct)
  case start
  show ?case by (rule exI [of _ None]) (simp add: held_by_def spinlock_init_def)
next
  case (more s s')
  then show ?case using held_by_step by blast
qed

text \<open>
  C40. Whatever the order in which the threads run, at most one of them is between the end of
  \<open>spinlock_acquire\<close> and \<open>spinlock_release\<close>; and when none is, the next attempt of a waiting thread succeeds.
\<close>
theorem spinlock_mutual_exclusion:
  assumes "lock_run s" and "pc s t = Holding"
  shows "(\<forall>u. pc s u = Holding \<longrightarrow> u = t) \<and>
    (\<forall>u s'. lock_step s s' \<longrightarrow> pc s u = Trying \<longrightarrow> pc s' t = Holding \<longrightarrow> pc s' u = Trying) \<and>
    (\<forall>s' u. s' = s\<lparr>the_lock := spinlock_release (the_lock s), pc := (pc s)(t := Idle)\<rparr> \<longrightarrow> pc s' u = Trying \<longrightarrow>
       spin_once (the_lock s') = (False, 1))"
proof -
  obtain h where h: "held_by s h" using lock_run_held [OF assms(1)] by blast
  then have u: "pc s u = Holding \<longleftrightarrow> u = t" for u using assms(2) by (auto simp: held_by_def)
  have "pc s' u = Trying" if "lock_step s s'" "pc s u = Trying" "pc s' t = Holding" for s' u
    using that(1)
  proof cases
    case (got v l)
    then show ?thesis using h assms(2) by (auto simp: held_by_def spin_once_def split: if_splits)
  qed (use that u in \<open>auto split: if_splits\<close>)
  then show ?thesis using u by (auto simp: spinlock_release_def spin_once_def)
qed

theorem spinlock_mutual_exclusion_witness:
  "\<exists>s. lock_run s \<and> pc s 5 = Holding \<and> pc s 6 = Trying \<and> (\<forall>u. pc s u = Holding \<longrightarrow> u = 5)"
proof -
  let ?s0 = "\<lparr>the_lock = spinlock_init, pc = \<lambda>_. Idle\<rparr>"
  let ?s1 = "?s0\<lparr>pc := (pc ?s0)(5 := Trying)\<rparr>"
  let ?s2 = "?s1\<lparr>the_lock := 1, pc := (pc ?s1)(5 := Holding)\<rparr>"
  let ?s3 = "?s2\<lparr>pc := (pc ?s2)(6 := Trying)\<rparr>"
  have "lock_run ?s1" by (rule lock_run.more [OF lock_run.start], rule lock_step.enter) simp
  then have "lock_run ?s2" by (rule lock_run.more, intro lock_step.got) (simp_all add: spin_once_def spinlock_init_def)
  then have r: "lock_run ?s3" by (rule lock_run.more, intro lock_step.enter) simp
  show ?thesis by (rule exI [of _ ?s3]) (use spinlock_mutual_exclusion [OF r, of 5] r in simp)
qed

end
