(* ===== verification/Liballoc.thy ===== *)
theory Liballoc
  imports Pmm Spinlock
begin

unbundle bit_operations_syntax

text \<open>
  The allocator of the kernel, \<open>src/src/mm/liballoc.c\<close> with its hooks \<open>src/src/mm/liballoc_lock.c\<close>: \<open>kmalloc\<close>,
  \<open>kfree\<close>, \<open>kcalloc\<close> and \<open>krealloc\<close>.  Memory comes from the page allocator in major blocks; a block has a list of
  minor blocks, each a header of 40 bytes with the memory of one allocation behind it.

  The headers are maps from their addresses, the other bytes of memory a function.  A header is known
  until the memory it lies in is handed out or given back: then somebody else may write there, and the model forgets it;
  an access to a header that is not known is \<open>Wild\<close>.  \<open>Halts\<close> is the wait for a lock that is taken or the page allocator's search for memory
  that there is not.  The message under \<open>DEBUG\<close> and \<open>INFO\<close> is not compiled.
\<close>

section \<open>Headers\<close>

definition ALIGNMENT :: u64 where "ALIGNMENT = 16"
definition ALIGN_INFO :: u64 where "ALIGN_INFO = 16"
definition LIBALLOC_MAGIC :: u32 where "LIBALLOC_MAGIC = 0xc001c0de"
definition LIBALLOC_DEAD :: u32 where "LIBALLOC_DEAD = 0xdeaddead"
definition l_pageSize :: u32 where "l_pageSize = 4096"
definition l_pageCount :: u32 where "l_pageCount = 16"

record liballoc_major =
  maj_prev :: u64
  maj_next :: u64
  maj_pages :: u32
  maj_size :: u32
  maj_usage :: u32
  maj_first :: u64

record liballoc_minor =
  min_prev :: u64
  min_next :: u64
  min_block :: u64
  min_magic :: u32
  min_size :: u32
  min_req_size :: u32

definition sizeof_major :: u64 where "sizeof_major = 40"
definition sizeof_minor :: u64 where "sizeof_minor = 40"

record kheap =
  majors :: "u64 \<rightharpoonup> liballoc_major"
  minors :: "u64 \<rightharpoonup> liballoc_minor"
  kbytes :: "u64 \<Rightarrow> u8"
  l_memRoot :: u64
  l_bestBet :: u64
  l_allocated :: u64
  l_inuse :: u64
  l_warningCount :: u64
  l_errorCount :: u64
  l_possibleOverruns :: u64
  liballoc_spinlock :: spinlock
  hpmm :: pmm

definition get_major :: "u64 \<Rightarrow> kheap \<Rightarrow> liballoc_major outcome" where
  "get_major a h = (if a = 0 then Wild else case majors h a of None \<Rightarrow> Wild | Some M \<Rightarrow> Done M)"

definition get_minor :: "u64 \<Rightarrow> kheap \<Rightarrow> liballoc_minor outcome" where
  "get_minor a h = (if a = 0 then Wild else case minors h a of None \<Rightarrow> Wild | Some m \<Rightarrow> Done m)"

definition update_major :: "u64 \<Rightarrow> (liballoc_major \<Rightarrow> liballoc_major) \<Rightarrow> kheap \<Rightarrow> kheap outcome" where
  "update_major a f h = bind_oc (get_major a h) (\<lambda>M. Done (h\<lparr>majors := (majors h)(a \<mapsto> f M)\<rparr>))"

definition update_minor :: "u64 \<Rightarrow> (liballoc_minor \<Rightarrow> liballoc_minor) \<Rightarrow> kheap \<Rightarrow> kheap outcome" where
  "update_minor a f h = bind_oc (get_minor a h) (\<lambda>m. Done (h\<lparr>minors := (minors h)(a \<mapsto> f m)\<rparr>))"

text \<open>The header at \<open>x\<close> shares a byte with the \<open>n\<close> bytes from \<open>a\<close> on.\<close>
definition touches :: "u64 \<Rightarrow> u64 \<Rightarrow> nat \<Rightarrow> bool" where
  "touches x a n \<longleftrightarrow> unat x < unat a + n \<and> unat a < unat x + 40"

definition forget :: "u64 \<Rightarrow> nat \<Rightarrow> kheap \<Rightarrow> kheap" where
  "forget a n h = h\<lparr>majors := \<lambda>x. if touches x a n then None else majors h x,
                    minors := \<lambda>x. if touches x a n then None else minors h x\<rparr>"

section \<open>The hooks\<close>

definition liballoc_init :: "kheap \<Rightarrow> kheap" where
  "liballoc_init h = h\<lparr>liballoc_spinlock := spinlock_init\<rparr>"

definition liballoc_lock :: "kheap \<Rightarrow> kheap outcome" where
  "liballoc_lock h =
     (case spin_once (liballoc_spinlock h) of (busy, l) \<Rightarrow> if busy then Halts else Done (h\<lparr>liballoc_spinlock := l\<rparr>))"

definition liballoc_unlock :: "kheap \<Rightarrow> kheap" where
  "liballoc_unlock h = h\<lparr>liballoc_spinlock := spinlock_release (liballoc_spinlock h)\<rparr>"

definition liballoc_alloc :: "u64 \<Rightarrow> kheap \<Rightarrow> (u64 \<times> kheap) outcome" where
  "liballoc_alloc n h = bind_oc (pmalloc n (hpmm h)) (\<lambda>(a, pm). Done (a, h\<lparr>hpmm := pm\<rparr>))"

definition liballoc_free :: "u64 \<Rightarrow> u64 \<Rightarrow> kheap \<Rightarrow> kheap outcome" where
  "liballoc_free a n h = bind_oc (pmm_free_pages a n (hpmm h)) (\<lambda>pm. Done (h\<lparr>hpmm := pm\<rparr>))"

section \<open>Bytes\<close>

definition liballoc_memset :: "u64 \<Rightarrow> u8 \<Rightarrow> nat \<Rightarrow> kheap \<Rightarrow> kheap" where
  "liballoc_memset s c n h = fold (\<lambda>i h. h\<lparr>kbytes := (kbytes h)(s + of_nat i := c)\<rparr>) [0..<n] h"

text \<open>\<open>ALIGN\<close> and \<open>UNALIGN\<close>: the byte 16 before the aligned pointer says how far it was moved.\<close>
definition align_ptr :: "u64 \<Rightarrow> kheap \<Rightarrow> u64 \<times> kheap" where
  "align_ptr p h =
     (let p = p + ALIGN_INFO;
          diff = p AND (ALIGNMENT - 1);
          (p, diff) = (if diff \<noteq> 0 then (p + (ALIGNMENT - diff), ALIGNMENT - diff) else (p, diff))
      in (p, h\<lparr>kbytes := (kbytes h)(p - ALIGN_INFO := ucast (diff + ALIGN_INFO))\<rparr>))"

definition unalign_ptr :: "u64 \<Rightarrow> kheap \<Rightarrow> u64" where
  "unalign_ptr p h =
     (let diff = scast (kbytes h (p - ALIGN_INFO)) :: u64
      in if diff < ALIGNMENT + ALIGN_INFO then p - diff else p)"

section \<open>Allocation\<close>

definition page_count :: "u32 \<Rightarrow> u32" where
  "page_count sz =
     (let st = sz + ucast sizeof_major;
          st = st + ucast sizeof_minor;
          st = (if st mod l_pageSize = 0 then st div l_pageSize else st div l_pageSize + 1)
      in if st < l_pageCount then l_pageCount else st)"

definition allocate_new_page :: "u32 \<Rightarrow> kheap \<Rightarrow> (u64 \<times> kheap) outcome" where
  "allocate_new_page sz h =
     (let st = page_count sz
      in bind_oc (liballoc_alloc (ucast st) h) (\<lambda>(maj, h).
           if maj = 0 then Done (0, h\<lparr>l_warningCount := l_warningCount h + 1\<rparr>)
           else
             let M = \<lparr>maj_prev = 0, maj_next = 0, maj_pages = st, maj_size = st * l_pageSize,
                      maj_usage = ucast sizeof_major, maj_first = 0\<rparr>;
                 h = forget maj (unat (st * l_pageSize)) h
             in Done (maj, h\<lparr>majors := (majors h)(maj \<mapsto> M), l_allocated := l_allocated h + ucast (maj_size M)\<rparr>)))"

text \<open>
  A new minor at \<open>a\<close> between \<open>prv\<close> and \<open>nxt\<close>, which may be null: its header, the neighbours' links, the
  accounts, and the aligned pointer behind it.  The four places of \<open>kmalloc\<close> that make a minor do this.
\<close>
definition make_minor :: "u64 \<Rightarrow> u64 \<Rightarrow> u64 \<Rightarrow> u64 \<Rightarrow> u64 \<Rightarrow> u64 \<Rightarrow> kheap \<Rightarrow> (u64 \<times> kheap) outcome" where
  "make_minor maj prv nxt a sz req_size h =
     (let h = forget a (40 + unat sz) h;
          h = h\<lparr>minors := (minors h)(a \<mapsto> \<lparr>min_prev = prv, min_next = nxt, min_block = maj,
                min_magic = LIBALLOC_MAGIC, min_size = ucast sz, min_req_size = ucast req_size\<rparr>)\<rparr>
      in bind_oc (if nxt = 0 then Done h else update_minor nxt (\<lambda>m. m\<lparr>min_prev := a\<rparr>) h) (\<lambda>h.
         bind_oc (if prv = 0 then update_major maj (\<lambda>M. M\<lparr>maj_first := a\<rparr>) h else update_minor prv (\<lambda>m. m\<lparr>min_next := a\<rparr>) h) (\<lambda>h.
         bind_oc (update_major maj (\<lambda>M. M\<lparr>maj_usage := maj_usage M + ucast (sz + sizeof_minor)\<rparr>) h) (\<lambda>h.
           Done (align_ptr (a + sizeof_minor) (h\<lparr>l_inuse := l_inuse h + sz\<rparr>))))))"

text \<open>Case 4: the walk over the minors from \<open>min\<close> on; the result 0 is the end of the walk.\<close>
partial_function (option) minor_loop :: "u64 \<Rightarrow> u64 \<Rightarrow> u64 \<Rightarrow> u64 \<Rightarrow> kheap \<Rightarrow> (u64 \<times> kheap) outcome option" where
  "minor_loop maj sz req_size mn h =
     (if mn = 0 then Some (Done (0, h))
      else case (get_major maj h, get_minor mn h) of
        (Done M, Done m) \<Rightarrow>
          (let room = (if min_next m = 0 then maj + ucast (maj_size M) else min_next m) - mn - sizeof_minor - ucast (min_size m)
           in if sz + sizeof_minor \<le> room
              then Some (make_minor maj mn (min_next m) (mn + sizeof_minor + ucast (min_size m)) sz req_size h)
              else minor_loop maj sz req_size (min_next m) h)
      | _ \<Rightarrow> Some Wild)"

text \<open>\<open>maj->next = allocate_new_page(size)\<close>; 0 when there is no memory.\<close>
definition append_major :: "u64 \<Rightarrow> u64 \<Rightarrow> kheap \<Rightarrow> (u64 \<times> kheap) outcome" where
  "append_major maj sz h =
     bind_oc (allocate_new_page (ucast sz) h) (\<lambda>(n, h).
     bind_oc (update_major maj (\<lambda>M. M\<lparr>maj_next := n\<rparr>) h) (\<lambda>h.
       if n = 0 then Done (0, h)
       else bind_oc (update_major n (\<lambda>N. N\<lparr>maj_prev := maj\<rparr>) h) (\<lambda>h. Done (n, h))))"

text \<open>Cases 2 to 4: a place in the block \<open>maj\<close>; 0 when there is none.\<close>
definition place_minor :: "u64 \<Rightarrow> u64 \<Rightarrow> u64 \<Rightarrow> kheap \<Rightarrow> (u64 \<times> kheap) outcome" where
  "place_minor maj sz req_size h =
     bind_oc (get_major maj h) (\<lambda>M.
       if maj_first M = 0 then make_minor maj 0 0 (maj + sizeof_major) sz req_size h
       else if sz + sizeof_minor \<le> maj_first M - maj - sizeof_major
       then make_minor maj 0 (maj_first M) (maj + sizeof_major) sz req_size h
       else case minor_loop maj sz req_size (maj_first M) h of None \<Rightarrow> Halts | Some r \<Rightarrow> r)"

text \<open>
  A round of the loop over the major blocks, at \<open>maj\<close>.  \<open>startedBet\<close> is whether the loop began at the best bet,
  \<open>bestSize\<close> the most free memory seen.  A round ends the loop with a pointer, or goes on to another block.  A block
  that is made in case 1 is used at once, one that is made in case 5 in the next round.
\<close>
definition major_round :: "u64 \<Rightarrow> u64 \<Rightarrow> u64 \<Rightarrow> bool \<Rightarrow> u64 \<Rightarrow> kheap \<Rightarrow>
    (u64 \<times> bool \<times> u64 \<times> kheap, u64 \<times> kheap) flow outcome" where
  "major_round sz req_size maj startedBet bestSize h =
     bind_oc (get_major maj h) (\<lambda>M.
       let diff = ucast (maj_size M - maj_usage M) :: u64;
           h = (if bestSize < diff then h\<lparr>l_bestBet := maj\<rparr> else h);
           bestSize = (if bestSize < diff then diff else bestSize)
       in if diff < sz + sizeof_minor \<and> maj_next M \<noteq> 0 then Done (Cont (maj_next M, startedBet, bestSize, h))
          else if diff < sz + sizeof_minor \<and> startedBet then Done (Cont (l_memRoot h, False, bestSize, h))
          else bind_oc (if diff < sz + sizeof_minor then append_major maj sz h else Done (maj, h)) (\<lambda>(maj, h).
            if maj = 0 then Done (Stop (0, h))
            else bind_oc (place_minor maj sz req_size h) (\<lambda>(p, h).
              if p \<noteq> 0 then Done (Stop (p, h))
              else bind_oc (get_major maj h) (\<lambda>M.
                if maj_next M \<noteq> 0 then Done (Cont (maj_next M, startedBet, bestSize, h))
                else if startedBet then Done (Cont (l_memRoot h, False, bestSize, h))
                else bind_oc (append_major maj sz h) (\<lambda>(n, h). Done (Cont (n, startedBet, bestSize, h)))))))"

partial_function (option) major_loop :: "u64 \<Rightarrow> u64 \<Rightarrow> u64 \<Rightarrow> bool \<Rightarrow> u64 \<Rightarrow> kheap \<Rightarrow> (u64 \<times> kheap) outcome option" where
  "major_loop sz req_size maj startedBet bestSize h =
     (if maj = 0 then Some (Done (0, h))
      else case major_round sz req_size maj startedBet bestSize h of
        Done (Cont (maj, startedBet, bestSize, h)) \<Rightarrow> major_loop sz req_size maj startedBet bestSize h
      | Done (Stop r) \<Rightarrow> Some (Done r)
      | Halts \<Rightarrow> Some Halts
      | Wild \<Rightarrow> Some Wild)"

text \<open>The block to begin at: the best bet if it has more room than needed, else the root.\<close>
definition first_major :: "u64 \<Rightarrow> kheap \<Rightarrow> (u64 \<times> bool \<times> u64) outcome" where
  "first_major sz h =
     (if l_bestBet h = 0 then Done (l_memRoot h, False, 0)
      else bind_oc (get_major (l_bestBet h) h) (\<lambda>B.
        let bestSize = ucast (maj_size B - maj_usage B)
        in if sz + sizeof_minor < bestSize then Done (l_bestBet h, True, bestSize) else Done (l_memRoot h, False, bestSize)))"

definition malloc_locked :: "u64 \<Rightarrow> u64 \<Rightarrow> kheap \<Rightarrow> (u64 \<times> kheap) outcome" where
  "malloc_locked sz req_size h =
     bind_oc (if l_memRoot h = 0
              then bind_oc (allocate_new_page (ucast sz) h) (\<lambda>(maj, h). Done (h\<lparr>l_memRoot := maj\<rparr>))
              else Done h) (\<lambda>h.
       if l_memRoot h = 0 then Done (0, h)
       else bind_oc (first_major sz h) (\<lambda>(maj, startedBet, bestSize).
              case major_loop sz req_size maj startedBet bestSize h of None \<Rightarrow> Halts | Some r \<Rightarrow> r))"

definition kmalloc :: "u64 \<Rightarrow> kheap \<Rightarrow> (u64 \<times> kheap) outcome" where
  "kmalloc req_size h =
     (let (req_size, h) = (if req_size + (ALIGNMENT + ALIGN_INFO) = 0 then (1, h\<lparr>l_warningCount := l_warningCount h + 1\<rparr>) else (req_size, h))
      in bind_oc (liballoc_lock h) (\<lambda>h.
         bind_oc (malloc_locked (req_size + (ALIGNMENT + ALIGN_INFO)) req_size h) (\<lambda>(p, h). Done (p, liballoc_unlock h))))"

section \<open>Giving back\<close>

text \<open>A header without the magic number: the error is counted, an overrun if its low bytes are right.\<close>
definition bad_magic :: "u32 \<Rightarrow> kheap \<Rightarrow> kheap" where
  "bad_magic magic h =
     (let h = h\<lparr>l_errorCount := l_errorCount h + 1\<rparr>
      in if magic AND 0xFFFFFF = LIBALLOC_MAGIC AND 0xFFFFFF \<or> magic AND 0xFFFF = LIBALLOC_MAGIC AND 0xFFFF \<or>
            magic AND 0xFF = LIBALLOC_MAGIC AND 0xFF
         then h\<lparr>l_possibleOverruns := l_possibleOverruns h + 1\<rparr> else h)"

text \<open>\<open>if (a != NULL) ...\<close>\<close>
definition unless_null :: "u64 \<Rightarrow> (kheap \<Rightarrow> kheap outcome) \<Rightarrow> kheap \<Rightarrow> kheap outcome" where
  "unless_null a f h = (if a = 0 then Done h else f h)"

definition release_major :: "u64 \<Rightarrow> liballoc_major \<Rightarrow> kheap \<Rightarrow> kheap outcome" where
  "release_major maj M h =
     (let h = (if l_memRoot h = maj then h\<lparr>l_memRoot := maj_next M\<rparr> else h);
          h = (if l_bestBet h = maj then h\<lparr>l_bestBet := 0\<rparr> else h)
      in bind_oc (unless_null (maj_prev M) (update_major (maj_prev M) (\<lambda>P. P\<lparr>maj_next := maj_next M\<rparr>)) h) (\<lambda>h.
         bind_oc (unless_null (maj_next M) (update_major (maj_next M) (\<lambda>N. N\<lparr>maj_prev := maj_prev M\<rparr>)) h) (\<lambda>h.
           liballoc_free maj (ucast (maj_pages M))
             (forget maj (unat (maj_pages M) * 4096) (h\<lparr>l_allocated := l_allocated h - ucast (maj_size M)\<rparr>)))))"

definition better_bet :: "u64 \<Rightarrow> liballoc_major \<Rightarrow> kheap \<Rightarrow> kheap outcome" where
  "better_bet maj M h =
     (if l_bestBet h = 0 then Done h
      else bind_oc (get_major (l_bestBet h) h) (\<lambda>B.
        Done (if sint (maj_size B - maj_usage B) < sint (maj_size M - maj_usage M) then h\<lparr>l_bestBet := maj\<rparr> else h)))"

definition free_minor :: "u64 \<Rightarrow> liballoc_minor \<Rightarrow> kheap \<Rightarrow> kheap outcome" where
  "free_minor mn m h =
     bind_oc (update_major (min_block m) (\<lambda>M. M\<lparr>maj_usage := maj_usage M - ucast (ucast (min_size m) + sizeof_minor)\<rparr>)
       (h\<lparr>l_inuse := l_inuse h - ucast (min_size m)\<rparr>)) (\<lambda>h.
     bind_oc (update_minor mn (\<lambda>m. m\<lparr>min_magic := LIBALLOC_DEAD\<rparr>) h) (\<lambda>h.
     bind_oc (unless_null (min_next m) (update_minor (min_next m) (\<lambda>n. n\<lparr>min_prev := min_prev m\<rparr>)) h) (\<lambda>h.
     bind_oc (unless_null (min_prev m) (update_minor (min_prev m) (\<lambda>p. p\<lparr>min_next := min_next m\<rparr>)) h) (\<lambda>h.
     bind_oc (if min_prev m = 0 then update_major (min_block m) (\<lambda>M. M\<lparr>maj_first := min_next m\<rparr>) h else Done h) (\<lambda>h.
     bind_oc (get_major (min_block m) h) (\<lambda>M.
       if maj_first M = 0 then release_major (min_block m) M h else better_bet (min_block m) M h))))))"

definition kfree :: "u64 \<Rightarrow> kheap \<Rightarrow> kheap outcome" where
  "kfree p h =
     (if p = 0 then Done (h\<lparr>l_warningCount := l_warningCount h + 1\<rparr>)
      else
        let mn = unalign_ptr p h - sizeof_minor
        in bind_oc (liballoc_lock h) (\<lambda>h.
           bind_oc (get_minor mn h) (\<lambda>m.
             if min_magic m \<noteq> LIBALLOC_MAGIC then Done (liballoc_unlock (bad_magic (min_magic m) h))
             else bind_oc (free_minor mn m h) (\<lambda>h. Done (liballoc_unlock h)))))"

section \<open>The other two\<close>

text \<open>\<open>real_size\<close> is an \<open>int\<close>: the product is cut to 32 bits and extended with its sign.  Clearing at the null pointer is \<open>Wild\<close>, and so is clearing with a size of 4 GB or more, where the counter of 32 bits never gets to the end.\<close>
definition kcalloc :: "u64 \<Rightarrow> u64 \<Rightarrow> kheap \<Rightarrow> (u64 \<times> kheap) outcome" where
  "kcalloc nobj sz h =
     (let real_size = scast (ucast (nobj * sz) :: u32) :: u64
      in bind_oc (kmalloc real_size h) (\<lambda>(p, h).
           if p = 0 \<and> real_size \<noteq> 0 then Wild
           else if 2 ^ 32 \<le> unat real_size then Wild
           else Done (p, liballoc_memset p 0 (unat real_size) h)))"

text \<open>Four bytes at a time, then the rest.\<close>
definition copy_byte :: "u64 \<Rightarrow> u64 \<Rightarrow> (u64 \<Rightarrow> u8) \<Rightarrow> u64 \<Rightarrow> u8" where
  "copy_byte d s b = b(d := b s)"

definition copy_uint :: "u64 \<Rightarrow> u64 \<Rightarrow> (u64 \<Rightarrow> u8) \<Rightarrow> u64 \<Rightarrow> u8" where
  "copy_uint d s b = b(d := b s, d + 1 := b (s + 1), d + 2 := b (s + 2), d + 3 := b (s + 3))"

fun liballoc_memcpy :: "u64 \<Rightarrow> u64 \<Rightarrow> nat \<Rightarrow> (u64 \<Rightarrow> u8) \<Rightarrow> u64 \<Rightarrow> u8" where
  "liballoc_memcpy d s (Suc (Suc (Suc (Suc n)))) b = liballoc_memcpy (d + 4) (s + 4) n (copy_uint d s b)"
| "liballoc_memcpy d s (Suc n) b = liballoc_memcpy (d + 1) (s + 1) n (copy_byte d s b)"
| "liballoc_memcpy d s 0 b = b"

definition krealloc :: "u64 \<Rightarrow> u64 \<Rightarrow> kheap \<Rightarrow> (u64 \<times> kheap) outcome" where
  "krealloc p sz h =
     (if sz = 0 then bind_oc (kfree p h) (\<lambda>h. Done (0, h))
      else if p = 0 then kmalloc sz h
      else
        let mn = unalign_ptr p h - sizeof_minor
        in bind_oc (liballoc_lock h) (\<lambda>h.
           bind_oc (get_minor mn h) (\<lambda>m.
             if min_magic m \<noteq> LIBALLOC_MAGIC then Done (0, liballoc_unlock (bad_magic (min_magic m) h))
             else if sz \<le> ucast (min_req_size m)
             then bind_oc (update_minor mn (\<lambda>m. m\<lparr>min_req_size := ucast sz\<rparr>) h) (\<lambda>h. Done (p, liballoc_unlock h))
             else bind_oc (kmalloc sz (liballoc_unlock h)) (\<lambda>(q, h).
               if q = 0 \<and> min_req_size m \<noteq> 0 then Wild
               else bind_oc (kfree p (h\<lparr>kbytes := liballoc_memcpy q p (unat (min_req_size m)) (kbytes h)\<rparr>)) (\<lambda>h. Done (q, h))))))"

end
