(* ===== verification/LiballocOk.thy ===== *)
theory LiballocOk
  imports Liballoc
begin

text \<open>
  The state of the allocator as lists: the major blocks in order, each with its minor blocks in
  order of their addresses.  \<open>heap_ok\<close> says that the headers are linked as the lists say, the blocks
  are apart from each other and within pages that are in use, and the accounts are right.
\<close>

section \<open>Minor blocks in a row\<close>

text \<open>A minor block: the address of its header, its size and the size that was asked for.\<close>
type_synonym blk = "u64 \<times> nat \<times> nat"

definition last_at :: "u64 \<Rightarrow> (u64 \<times> 'b) list \<Rightarrow> u64" where
  "last_at prv us = (if us = [] then prv else fst (last us))"

definition first_at :: "(u64 \<times> 'b) list \<Rightarrow> u64 \<Rightarrow> u64" where
  "first_at vs q = (if vs = [] then q else fst (hd vs))"

lemma at_simps [simp]: "last_at prv [] = prv" "last_at prv (us @ [b]) = fst b" "first_at [] q = q" "first_at (b # vs) q = fst b"
  "last_at prv (b # us) = last_at (fst b) us"
  by (simp_all add: last_at_def first_at_def)

fun seg :: "(u64 \<rightharpoonup> liballoc_minor) \<Rightarrow> u64 \<Rightarrow> u64 \<Rightarrow> u64 \<Rightarrow> blk list \<Rightarrow> u64 \<Rightarrow> bool" where
  "seg mm maj prv p [] q \<longleftrightarrow> p = q"
| "seg mm maj prv p ((x, s, r) # bs) q \<longleftrightarrow> p = x \<and> x \<noteq> 0 \<and>
     (case mm x of None \<Rightarrow> False
      | Some m \<Rightarrow> min_prev m = prv \<and> min_block m = maj \<and> min_magic m = LIBALLOC_MAGIC \<and>
          unat (min_size m) = s \<and> unat (min_req_size m) = r \<and> seg mm maj x (min_next m) bs q)"

lemma seg_first: "seg mm maj prv p bs q \<Longrightarrow> p = first_at bs q"
  by (cases bs) auto

lemma seg_append:
  "seg mm maj prv p (us @ vs) q \<longleftrightarrow> seg mm maj prv p us (first_at vs q) \<and> seg mm maj (last_at prv us) (first_at vs q) vs q"
proof (induction us arbitrary: prv p)
  case Nil
  then show ?case using seg_first by auto
next
  case (Cons b us)
  then show ?case by (cases b) (auto split: option.splits)
qed

lemma seg_cong: "(\<And>x. x \<in> fst ` set bs \<Longrightarrow> mm' x = mm x) \<Longrightarrow> seg mm' maj prv p bs q = seg mm maj prv p bs q"
proof (induction bs arbitrary: prv p)
  case (Cons b bs)
  then show ?case by (cases b) (auto split: option.splits)
qed simp

lemma seg_upd [simp]: "x \<notin> fst ` set bs \<Longrightarrow> seg (mm(x := v)) maj prv p bs q = seg mm maj prv p bs q"
  by (rule seg_cong) auto

lemma seg_in: "seg mm maj prv p bs q \<Longrightarrow> (x, s, r) \<in> set bs \<Longrightarrow> x \<noteq> 0 \<and> (\<exists>m. mm x = Some m \<and> min_block m = maj \<and>
    min_magic m = LIBALLOC_MAGIC \<and> unat (min_size m) = s \<and> unat (min_req_size m) = r)"
proof (induction bs arbitrary: prv p)
  case (Cons b bs)
  then show ?case by (cases b) (auto split: option.splits)
qed simp

text \<open>The header in the middle of a row.\<close>
lemma seg_mid:
  assumes "seg mm maj prv p (us @ (x, s, r) # vs) q"
  shows "\<exists>m. mm x = Some m \<and> min_prev m = last_at prv us \<and> min_next m = first_at vs q \<and> min_block m = maj \<and>
    min_magic m = LIBALLOC_MAGIC \<and> unat (min_size m) = s \<and> unat (min_req_size m) = r"
  using assms seg_first unfolding seg_append by (auto split: option.splits)

lemma seg_new_prev:
  assumes "seg mm maj prv p ((x, s, r) # vs) q" and "x \<notin> fst ` set vs"
  shows "seg (mm(x \<mapsto> (the (mm x))\<lparr>min_prev := prv'\<rparr>)) maj prv' p ((x, s, r) # vs) q"
  using assms by (auto split: option.splits)

lemma seg_new_next:
  assumes "seg mm maj prv p (us @ [(x, s, r)]) q" and "x \<notin> fst ` set us"
  shows "seg (mm(x \<mapsto> (the (mm x))\<lparr>min_next := q'\<rparr>)) maj prv p (us @ [(x, s, r)]) q'"
  using assms unfolding seg_append by (auto split: option.splits)

text \<open>The blocks lie one behind the other between \<open>lo\<close> and \<open>hi\<close>.\<close>
fun room :: "nat \<Rightarrow> nat \<Rightarrow> blk list \<Rightarrow> bool" where
  "room lo hi [] \<longleftrightarrow> lo \<le> hi"
| "room lo hi ((x, s, r) # bs) \<longleftrightarrow> lo \<le> unat x \<and> 32 + r \<le> s \<and> room (unat x + 40 + s) hi bs"

lemma room_le: "room lo hi bs \<Longrightarrow> lo \<le> hi"
  by (induction lo hi bs rule: room.induct) auto

lemma room_append: "room lo hi (us @ (x, s, r) # vs) \<longleftrightarrow> room lo (unat x) us \<and> 32 + r \<le> s \<and> room (unat x + 40 + s) hi vs"
  by (induction lo hi us rule: room.induct) (auto dest: room_le)

lemma room_in: "room lo hi bs \<Longrightarrow> (x, s, r) \<in> set bs \<Longrightarrow> lo \<le> unat x \<and> unat x + 40 + s \<le> hi \<and> 32 + r \<le> s"
  by (induction lo hi bs rule: room.induct) (auto dest: room_le)

lemma room_wider: "room lo hi bs \<Longrightarrow> lo' \<le> lo \<Longrightarrow> hi \<le> hi' \<Longrightarrow> room lo' hi' bs"
  by (induction lo hi bs arbitrary: lo' rule: room.induct) auto

lemma room_distinct: "room lo hi bs \<Longrightarrow> distinct (map fst bs)"
proof (induction lo hi bs rule: room.induct)
  case (2 lo hi x s r bs)
  then show ?case using room_in [of "unat x + 40 + s" hi bs] by fastforce
qed simp

text \<open>A gap holds no header.\<close>
lemma room_untouched:
  assumes "room lo (unat a) us" and "room (unat a + n) hi vs" and "x \<in> fst ` set (us @ vs)"
  shows "\<not> touches x a n"
  using assms room_in [OF assms(1)] room_in [OF assms(2)] by (fastforce simp: touches_def)

definition used :: "blk list \<Rightarrow> nat" where
  "used bs = (\<Sum>(x, s, r) \<leftarrow> bs. 40 + s)"

lemma used_simps [simp]: "used [] = 0" "used ((x, s, r) # bs) = 40 + s + used bs" "used (us @ vs) = used us + used vs"
  by (simp_all add: used_def)

lemma used_room: "room lo hi bs \<Longrightarrow> lo + used bs \<le> hi"
  by (induction lo hi bs rule: room.induct) auto

text \<open>A new block in a row: the headers of the neighbours lead to it.\<close>
lemma seg_insert:
  assumes s: "seg mm maj 0 (first_at (us @ vs) 0) (us @ vs) 0" and x: "x \<noteq> 0" "x \<notin> fst ` set (us @ vs)" and d: "distinct (map fst (us @ vs))"
    and m: "m = \<lparr>min_prev = last_at 0 us, min_next = first_at vs 0, min_block = maj, min_magic = LIBALLOC_MAGIC, min_size = sw, min_req_size = rw\<rparr>"
    and m1: "mm1 = (if vs = [] then mm(x \<mapsto> m) else (mm(x \<mapsto> m))(first_at vs 0 \<mapsto> (the (mm (first_at vs 0)))\<lparr>min_prev := x\<rparr>))"
    and m2: "mm2 = (if us = [] then mm1 else mm1(last_at 0 us \<mapsto> (the (mm1 (last_at 0 us)))\<lparr>min_next := x\<rparr>))"
  shows "seg mm2 maj 0 (first_at (us @ (x, unat sw, unat rw) # vs) 0) (us @ (x, unat sw, unat rw) # vs) 0"
proof -
  have su: "seg mm maj 0 (first_at (us @ vs) 0) us (first_at vs 0)" and sv: "seg mm maj (last_at 0 us) (first_at vs 0) vs 0"
    using s by (simp_all add: seg_append)
  have v1: "seg mm1 maj x (first_at vs 0) vs 0"
  proof (cases vs)
    case (Cons b bs)
    obtain y t r where b: "b = (y, t, r)" by (cases b)
    have "seg (mm(y \<mapsto> (the (mm y))\<lparr>min_prev := x\<rparr>)) maj x (first_at vs 0) vs 0"
      using seg_new_prev [of mm maj "last_at 0 us" "first_at vs 0" y t r bs 0 x] sv d Cons b by auto
    then show ?thesis using Cons b x(2) m1 by (subst (asm) seg_cong [of vs mm1, symmetric]) auto
  qed simp
  have u1: "seg mm1 maj 0 (first_at (us @ vs) 0) us (first_at vs 0)"
  proof -
    have "first_at vs 0 \<notin> fst ` set us" if "vs \<noteq> []" using that d by (cases vs) auto
    moreover have "x \<notin> fst ` set us" using x(2) by auto
    ultimately show ?thesis using su m1 by (cases "vs = []") auto
  qed
  have x1: "mm1 x = Some m" using x(2) m1 by (cases vs) auto
  have f: "first_at (us @ vs) 0 = (if us = [] then first_at vs 0 else first_at (us @ (x, unat sw, unat rw) # vs) 0)" by (cases us) auto
  show ?thesis
  proof (cases us rule: rev_cases)
    case Nil
    then show ?thesis using v1 x1 x(1) m m2 by simp
  next
    case (snoc us' b)
    obtain y t r where b: "b = (y, t, r)" by (cases b)
    have y: "y \<notin> fst ` set vs" "y \<noteq> x" "y \<notin> fst ` set us'" using snoc b d x(2) by auto
    have "seg mm2 maj 0 (first_at (us @ vs) 0) us x"
      using seg_new_next [OF u1 [unfolded snoc b], of x] y(3) snoc b m2 by simp
    moreover have "seg mm2 maj x (first_at vs 0) vs 0" using v1 y(1) snoc b m2 by (subst seg_cong [of vs mm2 mm1]) auto
    moreover have "mm2 x = Some m" using x1 y(2) snoc b m2 by simp
    ultimately show ?thesis unfolding seg_append using snoc f x(1) m by simp
  qed
qed

section \<open>The aligned pointer\<close>

definition uptr :: "u64 \<Rightarrow> u64" where
  "uptr x = (let p = x + 56 in if p AND 15 \<noteq> 0 then p + (16 - (p AND 15)) else p)"

definition pad_ok :: "kheap \<Rightarrow> u64 \<Rightarrow> bool" where
  "pad_ok h x \<longleftrightarrow> kbytes h (uptr x - 16) = ucast (uptr x - 40 - x)"

lemma align_ptr_eq: "align_ptr (x + 40) h = (uptr x, h\<lparr>kbytes := (kbytes h)(uptr x - 16 := ucast (uptr x - 40 - x))\<rparr>)"
proof -
  have e: "x + 40 + 16 = x + 56" "x + 56 - 40 - x = 16" "\<And>d. x + 56 + d - 40 - x = d + (16 :: u64)" by simp_all
  show ?thesis unfolding align_ptr_def uptr_def ALIGN_INFO_def ALIGNMENT_def Let_def e
    by (cases "x + 56 AND 15 = 0") (simp_all add: e)
qed

lemma unat_and_15: "unat ((w :: u64) AND 15) = unat w mod 16"
proof -
  have "w AND 15 = take_bit 4 w" unfolding take_bit_eq_mask by (simp add: mask_eq_exp_minus_1)
  then have "w AND 15 = w mod 16" by (simp add: take_bit_eq_mod)
  then show ?thesis by (simp add: unat_mod)
qed

lemma uptr_range:
  assumes "unat x + 72 \<le> 2 ^ 64"
  shows "unat x + 56 \<le> unat (uptr x)" and "unat (uptr x) < unat x + 72" and "16 dvd unat (uptr x)"
proof -
  let ?p = "x + 56"
  have p: "unat ?p = unat x + 56" using assms by (subst unat_add_nowrap) simp_all
  have "unat (uptr x) = (if unat ?p mod 16 = 0 then unat ?p else unat ?p + (16 - unat ?p mod 16))"
  proof (cases "unat ?p mod 16 = 0")
    case True
    then have "?p AND 15 = 0" by (metis unat_and_15 unsigned_0 unat_eq_0)
    then show ?thesis using True by (simp add: uptr_def)
  next
    case False
    then have n: "?p AND 15 \<noteq> 0" by (metis unat_and_15 unsigned_0)
    have "?p AND 15 \<le> 16" unfolding word_le_nat_alt unat_and_15 by simp
    then have d: "unat (16 - (?p AND 15)) = 16 - unat ?p mod 16" by (simp add: unat_diff_nowrap unat_and_15)
    have "unat (?p + (16 - (?p AND 15))) = unat ?p + (16 - unat ?p mod 16)"
      using p assms False by (subst unat_add_nowrap) (simp_all add: d)
    then show ?thesis using False n by (simp add: uptr_def Let_def)
  qed
  moreover obtain q r where qr: "unat ?p = 16 * q + r" "r < 16" "unat ?p mod 16 = r"
    by (metis mod_less_divisor mult_div_mod_eq zero_less_numeral)
  ultimately have e: "unat (uptr x) = (if r = 0 then 16 * q else 16 * (q + 1))" by simp
  have "unat x + 56 \<le> unat (uptr x) \<and> unat (uptr x) < unat x + 72 \<and> 16 dvd unat (uptr x)"
    unfolding e using qr p by (cases "r = 0") auto
  then show "unat x + 56 \<le> unat (uptr x)" "unat (uptr x) < unat x + 72" "16 dvd unat (uptr x)" by blast+
qed

lemma uptr_minus:
  assumes "unat x + 72 \<le> 2 ^ 64"
  shows "unat (uptr x - 16) = unat (uptr x) - 16" and "unat (uptr x - 40 - x) = unat (uptr x) - 40 - unat x"
proof -
  have r: "unat x + 56 \<le> unat (uptr x)" by (rule uptr_range(1) [OF assms])
  then show "unat (uptr x - 16) = unat (uptr x) - 16" by (subst unat_diff_nowrap) (simp_all add: word_le_nat_alt)
  have "unat (uptr x - 40) = unat (uptr x) - 40" using r by (subst unat_diff_nowrap) (simp_all add: word_le_nat_alt)
  then show "unat (uptr x - 40 - x) = unat (uptr x) - 40 - unat x" using r by (subst unat_diff_nowrap) (simp_all add: word_le_nat_alt)
qed

lemma unalign_uptr:
  assumes "unat x + 72 \<le> 2 ^ 64" and "pad_ok h x"
  shows "unalign_ptr (uptr x) h = x + 40"
proof -
  let ?d = "uptr x - 40 - x"
  have d: "unat ?d < 32" using uptr_range [OF assms(1)] uptr_minus(2) [OF assms(1)] by simp
  have "(scast (ucast ?d :: u8) :: u64) = ?d"
  proof (rule bit_word_eqI)
    fix n assume n: "n < LENGTH(64)"
    have z: "\<not> bit ?d k" if "5 \<le> k" for k
    proof -
      have "(2::nat) ^ 5 \<le> 2 ^ k" using that by (intro power_increasing) simp_all
      then have "unat ?d < 2 ^ k" using d by simp
      then have "?d = take_bit k ?d" by (simp add: word_unat_eq_iff unsigned_take_bit_eq take_bit_nat_eq_self)
      then show ?thesis by (metis bit_take_bit_iff less_irrefl)
    qed
    show "bit (scast (ucast ?d :: u8) :: u64) n = bit ?d n"
      using n z [of n] z [of 7] by (cases "n < 7") (auto simp: bit_simps min_def)
  qed
  then show ?thesis using assms(2) d
    by (simp add: unalign_ptr_def pad_ok_def ALIGN_INFO_def ALIGNMENT_def word_less_nat_alt)
qed

section \<open>The heap\<close>

text \<open>A major block: its address, its number of pages and its minor blocks.\<close>
type_synonym grp = "u64 \<times> nat \<times> blk list"

fun mseg :: "(u64 \<rightharpoonup> liballoc_major) \<Rightarrow> u64 \<Rightarrow> u64 \<Rightarrow> grp list \<Rightarrow> u64 \<Rightarrow> bool" where
  "mseg mj prv p [] q \<longleftrightarrow> p = q"
| "mseg mj prv p ((a, n, bs) # H) q \<longleftrightarrow> p = a \<and> a \<noteq> 0 \<and>
     (case mj a of None \<Rightarrow> False
      | Some M \<Rightarrow> maj_prev M = prv \<and> unat (maj_pages M) = n \<and> unat (maj_size M) = 4096 * n \<and>
          unat (maj_usage M) = 40 + used bs \<and> maj_first M = first_at bs 0 \<and> mseg mj a (maj_next M) H q)"

lemma mseg_first: "mseg mj prv p H q \<Longrightarrow> p = first_at H q"
  by (cases H) auto

lemma mseg_append:
  "mseg mj prv p (G @ H) q \<longleftrightarrow> mseg mj prv p G (first_at H q) \<and> mseg mj (last_at prv G) (first_at H q) H q"
proof (induction G arbitrary: prv p)
  case Nil
  then show ?case using mseg_first by auto
next
  case (Cons g G)
  then show ?case by (cases g) (auto split: option.splits)
qed

lemma mseg_cong: "(\<And>a. a \<in> fst ` set H \<Longrightarrow> mj' a = mj a) \<Longrightarrow> mseg mj' prv p H q = mseg mj prv p H q"
proof (induction H arbitrary: prv p)
  case (Cons g H)
  then show ?case by (cases g) (auto split: option.splits)
qed simp

lemma mseg_upd [simp]: "a \<notin> fst ` set H \<Longrightarrow> mseg (mj(a := v)) prv p H q = mseg mj prv p H q"
  by (rule mseg_cong) auto

lemma mseg_mid:
  assumes "mseg mj prv p (H1 @ (a, n, bs) # H2) q"
  shows "a \<noteq> 0 \<and> (\<exists>M. mj a = Some M \<and> maj_prev M = last_at prv H1 \<and> maj_next M = first_at H2 q \<and> unat (maj_pages M) = n \<and>
    unat (maj_size M) = 4096 * n \<and> unat (maj_usage M) = 40 + used bs \<and> maj_first M = first_at bs 0)"
  using assms mseg_first unfolding mseg_append by (auto split: option.splits)

text \<open>One block changes its minors, not its links.\<close>
lemma mseg_replace:
  assumes "mseg mj prv p (H1 @ (a, n, bs) # H2) q" and "a \<notin> fst ` set (H1 @ H2)" and "mj a = Some M"
    and "maj_prev M' = maj_prev M" "maj_next M' = maj_next M" "maj_pages M' = maj_pages M" "maj_size M' = maj_size M"
    and "unat (maj_usage M') = 40 + used bs'" "maj_first M' = first_at bs' 0"
  shows "mseg (mj(a \<mapsto> M')) prv p (H1 @ (a, n, bs') # H2) q"
proof -
  have "a \<notin> fst ` set H1" "a \<notin> fst ` set H2" using assms(2) by auto
  then show ?thesis using assms(1,3-) by (simp add: mseg_append)
qed

definition apart :: "grp \<Rightarrow> grp \<Rightarrow> bool" where
  "apart g g' \<longleftrightarrow> unat (fst g) + 4096 * fst (snd g) \<le> unat (fst g') \<or> unat (fst g') + 4096 * fst (snd g') \<le> unat (fst g)"

text \<open>The \<open>n\<close> pages from \<open>a\<close> on, taken from the page allocator; page 0 is never among them.\<close>
definition in_use :: "pmm \<Rightarrow> u64 \<Rightarrow> nat \<Rightarrow> bool" where
  "in_use pm a n \<longleftrightarrow> (\<exists>i. 0 < i \<and> a = page_addr pm i \<and> i + n \<le> frames pm \<and> {i..<i + n} \<inter> frees pm = {})"

definition grp_ok :: "kheap \<Rightarrow> grp \<Rightarrow> bool" where
  "grp_ok h g \<longleftrightarrow> (case g of (a, n, bs) \<Rightarrow>
     0 < n \<and> in_use (hpmm h) a n \<and> seg (minors h) a 0 (first_at bs 0) bs 0 \<and>
     room (unat a + 40) (unat a + 4096 * n) bs \<and> (\<forall>x \<in> fst ` set bs. pad_ok h x))"

definition inuse_of :: "grp list \<Rightarrow> nat" where
  "inuse_of H = (\<Sum>(a, n, bs) \<leftarrow> H. \<Sum>(x, s, r) \<leftarrow> bs. s)"

definition pages_of :: "grp list \<Rightarrow> nat" where
  "pages_of H = (\<Sum>(a, n, bs) \<leftarrow> H. n)"

definition heap_ok :: "kheap \<Rightarrow> grp list \<Rightarrow> bool" where
  "heap_ok h H \<longleftrightarrow> pmm_ok (hpmm h) \<and> 0 \<notin> frees (hpmm h) \<and> mseg (majors h) 0 (l_memRoot h) H 0 \<and>
     (\<forall>g \<in> set H. grp_ok h g) \<and> sorted_wrt apart H \<and> (l_bestBet h = 0 \<or> l_bestBet h \<in> fst ` set H) \<and>
     l_inuse h = of_nat (inuse_of H) \<and> l_allocated h = of_nat (4096 * pages_of H)"

definition all_blocks :: "grp list \<Rightarrow> blk list" where
  "all_blocks H = concat (map (\<lambda>(a, n, bs). bs) H)"

lemma all_blocks_simps [simp]: "all_blocks [] = []" "all_blocks ((a, n, bs) # H) = bs @ all_blocks H"
  "all_blocks (G @ H) = all_blocks G @ all_blocks H"
  by (simp_all add: all_blocks_def)

definition sizes :: "blk list \<Rightarrow> nat" where
  "sizes bs = (\<Sum>(x, s, r) \<leftarrow> bs. s)"

lemma sizes_simps [simp]: "sizes [] = 0" "sizes ((x, s, r) # bs) = s + sizes bs" "sizes (us @ vs) = sizes us + sizes vs"
  by (simp_all add: sizes_def)

lemma accounts_simps [simp]: "inuse_of [] = 0" "inuse_of ((a, n, bs) # H) = sizes bs + inuse_of H" "inuse_of (G @ H) = inuse_of G + inuse_of H"
  "pages_of [] = 0" "pages_of ((a, n, bs) # H) = n + pages_of H" "pages_of (G @ H) = pages_of G + pages_of H"
  by (simp_all add: inuse_of_def pages_of_def sizes_def)

text \<open>What the allocator has handed out: pointer and size.\<close>
definition live :: "grp list \<Rightarrow> (u64 \<times> nat) set" where
  "live H = (\<lambda>(x, s, r). (uptr x, r)) ` set (all_blocks H)"

lemma frame_end:
  assumes ok: "pmm_ok pm" and i: "i \<le> frames pm"
  shows "unat (hhdm_offset pm) + 4096 * i < 2 ^ 64"
  using frame_le [OF i] highest_less [of pm] ok by (cases "hhdm_offset pm = 0") (auto simp: pmm_ok_def)

lemma page_addr_unat:
  assumes ok: "pmm_ok pm" and i: "i < frames pm"
  shows "unat (page_addr pm i) = unat (hhdm_offset pm) + 4096 * i"
proof -
  have b: "(i + 1) * 4096 \<le> unat (highest_page pm)" using frame_le [of "i + 1" pm] i by simp
  then have u: "unat (of_nat i * PAGE_SIZE) = i * 4096" using highest_less [of pm] by (intro unat_frame_addr) simp
  show ?thesis
  proof (cases "hhdm_offset pm = 0")
    case True
    then show ?thesis using u by (simp add: page_addr_def get_virtual_address_def)
  next
    case False
    then have h: "unat (highest_page pm) \<le> unat (hhdm_offset pm)" using ok by (auto simp: pmm_ok_def)
    then have "\<not> hhdm_offset pm \<le> of_nat i * PAGE_SIZE" using b u unfolding word_le_nat_alt by simp
    then show ?thesis using False u frame_end [OF ok, of i] i
      by (simp add: page_addr_def get_virtual_address_def unat_add_nowrap)
  qed
qed

lemma in_use_region:
  assumes "pmm_ok pm" and "in_use pm a n" and "0 < n"
  shows "unat a + 4096 * n < 2 ^ 64" and "4096 \<le> unat a"
proof -
  obtain i where i: "0 < i" "a = page_addr pm i" "i + n \<le> frames pm" using assms(2) by (auto simp: in_use_def)
  have a: "unat a = unat (hhdm_offset pm) + 4096 * i" using page_addr_unat [OF assms(1), of i] i assms(3) by simp
  show "unat a + 4096 * n < 2 ^ 64" using frame_end [OF assms(1) i(3)] a by simp
  show "4096 \<le> unat a" using a i(1) by simp
qed

text \<open>Pages from disjoint runs of frames lie apart.\<close>
lemma frames_apart:
  assumes ok: "pmm_ok pm" and i: "i + n \<le> frames pm" and j: "j + k \<le> frames pm" and n: "0 < n" "0 < k"
    and d: "{i..<i + n} \<inter> {j..<j + k} = {}"
  shows "apart (page_addr pm i, n, bs) (page_addr pm j, k, cs)"
proof -
  have "unat (page_addr pm i) = unat (hhdm_offset pm) + 4096 * i" "unat (page_addr pm j) = unat (hhdm_offset pm) + 4096 * j"
    using page_addr_unat [OF ok] i j n by simp_all
  moreover have "i + n \<le> j \<or> j + k \<le> i"
  proof (rule ccontr)
    assume "\<not> ?thesis"
    then have "max i j \<in> {i..<i + n} \<inter> {j..<j + k}" using n by auto
    then show False using d by blast
  qed
  ultimately show ?thesis by (auto simp: apart_def)
qed

lemma heap_okD:
  assumes "heap_ok h H"
  shows "pmm_ok (hpmm h)" "0 \<notin> frees (hpmm h)" "mseg (majors h) 0 (l_memRoot h) H 0" "\<And>g. g \<in> set H \<Longrightarrow> grp_ok h g"
    "sorted_wrt apart H" "l_bestBet h = 0 \<or> l_bestBet h \<in> fst ` set H" "l_inuse h = of_nat (inuse_of H)"
    "l_allocated h = of_nat (4096 * pages_of H)"
  using assms by (auto simp: heap_ok_def)

lemma apart_sym: "apart g g' \<longleftrightarrow> apart g' g"
  by (auto simp: apart_def)

lemma sorted_apart: "sorted_wrt apart (H1 @ g # H2) \<longleftrightarrow> sorted_wrt apart (H1 @ H2) \<and> (\<forall>g' \<in> set (H1 @ H2). apart g g')"
  using apart_sym by (auto simp: sorted_wrt_append)

text \<open>The parts of a major block in a heap: where it is, and that the headers of all others are elsewhere.\<close>
lemma grp_okD:
  assumes "heap_ok h H" and "(a, n, bs) \<in> set H"
  shows "0 < n" "in_use (hpmm h) a n" "seg (minors h) a 0 (first_at bs 0) bs 0" "room (unat a + 40) (unat a + 4096 * n) bs"
    "x \<in> fst ` set bs \<Longrightarrow> pad_ok h x" "unat a + 4096 * n < 2 ^ 64" "4096 \<le> unat a"
proof -
  show *: "0 < n" "in_use (hpmm h) a n" "seg (minors h) a 0 (first_at bs 0) bs 0" "room (unat a + 40) (unat a + 4096 * n) bs"
    "x \<in> fst ` set bs \<Longrightarrow> pad_ok h x"
    using heap_okD(4) [OF assms] by (auto simp: grp_ok_def)
  show "unat a + 4096 * n < 2 ^ 64" "4096 \<le> unat a" using in_use_region [OF heap_okD(1) [OF assms(1)] *(2,1)] by auto
qed

lemma header_in_grp:
  assumes "heap_ok h H" and "(b, k, cs) \<in> set H" and "x = b \<or> x \<in> fst ` set cs"
  shows "unat b \<le> unat x" "unat x + 40 \<le> unat b + 4096 * k"
  using grp_okD(1,4) [OF assms(1,2)] assms(3) room_in [OF grp_okD(4) [OF assms(1,2)]] by fastforce+

text \<open>Memory within a major block, behind its header, touches no header of another one.\<close>
lemma untouched_elsewhere:
  assumes ok: "heap_ok h (H1 @ (a, n, bs) # H2)" and g: "(b, k, cs) \<in> set (H1 @ H2)" and x: "x = b \<or> x \<in> fst ` set cs"
    and r: "unat a \<le> unat p" "unat p + m \<le> unat a + 4096 * n"
  shows "\<not> touches x p m"
proof -
  have "apart (a, n, bs) (b, k, cs)" using heap_okD(5) [OF ok] g unfolding sorted_apart by auto
  moreover have "unat b \<le> unat x" "unat x + 40 \<le> unat b + 4096 * k"
    using header_in_grp [OF ok _ x, of k] g by auto
  ultimately show ?thesis using r by (auto simp: apart_def touches_def)
qed

section \<open>A new minor block\<close>

lemma forget_kept [simp]:
  "\<not> touches x a n \<Longrightarrow> majors (forget a n h) x = majors h x" "\<not> touches x a n \<Longrightarrow> minors (forget a n h) x = minors h x"
  "kbytes (forget a n h) = kbytes h" "l_memRoot (forget a n h) = l_memRoot h" "l_bestBet (forget a n h) = l_bestBet h"
  "l_inuse (forget a n h) = l_inuse h" "l_allocated (forget a n h) = l_allocated h" "hpmm (forget a n h) = hpmm h"
  "liballoc_spinlock (forget a n h) = liballoc_spinlock h"
  by (simp_all add: forget_def)

text \<open>The header that is made is nobody else's memory.\<close>
lemma gap_untouched:
  assumes ok: "heap_ok h (H1 @ (a, n, us @ vs) # H2)"
    and r: "room (unat a + 40) (unat a + 4096 * n) (us @ (x, s, q) # vs)"
  shows "b \<in> fst ` set (H1 @ (a, n, us @ vs) # H2) \<Longrightarrow> \<not> touches b x (40 + s)"
    and "y \<in> fst ` set (all_blocks (H1 @ (a, n, us @ vs) # H2)) \<Longrightarrow> \<not> touches y x (40 + s)"
proof -
  have g: "unat a + 40 \<le> unat x" "unat x + (40 + s) \<le> unat a + 4096 * n" using room_in [OF r, of x s q] by auto
  have e: "\<not> touches y x (40 + s)" if "(b, k, cs) \<in> set (H1 @ H2)" "y = b \<or> y \<in> fst ` set cs" for y b k cs
    by (rule untouched_elsewhere [OF ok that]) (use g in simp_all)
  show "\<not> touches b x (40 + s)" if b: "b \<in> fst ` set (H1 @ (a, n, us @ vs) # H2)"
  proof (cases "b = a")
    case True
    then show ?thesis using g(1) by (auto simp: touches_def)
  next
    case False
    then obtain k cs where "(b, k, cs) \<in> set (H1 @ H2)" using b by force
    then show ?thesis using e by blast
  qed
  show "\<not> touches y x (40 + s)" if y: "y \<in> fst ` set (all_blocks (H1 @ (a, n, us @ vs) # H2))"
  proof (cases "y \<in> fst ` set (us @ vs)")
    case True
    then show ?thesis using r room_untouched [of "unat a + 40" x us "40 + s" "unat a + 4096 * n" vs y] unfolding room_append by (simp add: add.assoc)
  next
    case False
    then obtain b k cs where "(b, k, cs) \<in> set (H1 @ H2)" "y \<in> fst ` set cs" using y by (force simp: all_blocks_def)
    then show ?thesis using e by blast
  qed
qed

text \<open>What \<open>make_minor\<close> does to the headers, as one update of each map.\<close>
lemma make_minor_updates:
  assumes seg: "seg (minors h) maj 0 (first_at (us @ vs) 0) (us @ vs) 0" and d: "distinct (map fst (us @ vs))"
    and x: "x \<noteq> 0" "x \<notin> fst ` set (us @ vs)" and M: "maj \<noteq> 0" "majors h maj = Some M"
    and u: "\<And>y. y \<in> insert maj (fst ` set (us @ vs)) \<Longrightarrow> \<not> touches y x (40 + unat sz)"
    and m: "m = \<lparr>min_prev = last_at 0 us, min_next = first_at vs 0, min_block = maj, min_magic = LIBALLOC_MAGIC, min_size = ucast sz, min_req_size = ucast rq\<rparr>"
    and m1: "mm1 = (if vs = [] then (minors (forget x (40 + unat sz) h))(x \<mapsto> m)
      else ((minors (forget x (40 + unat sz) h))(x \<mapsto> m))(first_at vs 0 \<mapsto> (the (minors h (first_at vs 0)))\<lparr>min_prev := x\<rparr>))"
    and m2: "mm2 = (if us = [] then mm1 else mm1(last_at 0 us \<mapsto> (the (mm1 (last_at 0 us)))\<lparr>min_next := x\<rparr>))"
    and M': "M' = M\<lparr>maj_first := (if us = [] then x else maj_first M), maj_usage := maj_usage M + ucast (sz + sizeof_minor)\<rparr>"
  shows "make_minor maj (last_at 0 us) (first_at vs 0) x sz rq h =
    Done (align_ptr (x + sizeof_minor) ((forget x (40 + unat sz) h)\<lparr>minors := mm2,
      majors := (majors (forget x (40 + unat sz) h))(maj \<mapsto> M'), l_inuse := l_inuse h + sz\<rparr>))"
proof -
  let ?h = "forget x (40 + unat sz) h"
  have Mh: "majors ?h maj = Some M" using u [of maj] M(2) by simp
  have nz: "y \<noteq> 0" "\<exists>m. minors h y = Some m" "minors ?h y = minors h y" if "y \<in> fst ` set (us @ vs)" for y
    using seg_in [OF seg] that u [of y] by fastforce+
  have fv: "first_at vs 0 \<in> fst ` set (us @ vs)" "first_at vs 0 \<noteq> x" if "vs \<noteq> []"
  proof -
    show "first_at vs 0 \<in> fst ` set (us @ vs)" using that by (cases vs) auto
    then show "first_at vs 0 \<noteq> x" using x(2) by blast
  qed
  have lu: "last_at 0 us \<in> fst ` set (us @ vs)" "last_at 0 us \<noteq> x" "vs \<noteq> [] \<longrightarrow> last_at 0 us \<noteq> first_at vs 0" if ne: "us \<noteq> []"
  proof -
    obtain us' b where b: "us = us' @ [b]" using ne by (metis rev_exhaust)
    show "last_at 0 us \<in> fst ` set (us @ vs)" using b by auto
    then show "last_at 0 us \<noteq> x" using x(2) by blast
    show "vs \<noteq> [] \<longrightarrow> last_at 0 us \<noteq> first_at vs 0" using d b by (cases vs) auto
  qed
  have s1: "(if first_at vs 0 = 0 then Done (?h\<lparr>minors := (minors ?h)(x \<mapsto> m)\<rparr>)
      else update_minor (first_at vs 0) (\<lambda>m. m\<lparr>min_prev := x\<rparr>) (?h\<lparr>minors := (minors ?h)(x \<mapsto> m)\<rparr>)) = Done (?h\<lparr>minors := mm1\<rparr>)"
  proof (cases "vs = []")
    case False
    then show ?thesis using nz [OF fv(1) [OF False]] fv(2) [OF False] m1 by (auto simp: update_minor_def get_minor_def)
  qed (simp add: m1)
  have s2: "(if last_at 0 us = 0 then update_major maj (\<lambda>M. M\<lparr>maj_first := x\<rparr>) (?h\<lparr>minors := mm1\<rparr>)
      else update_minor (last_at 0 us) (\<lambda>m. m\<lparr>min_next := x\<rparr>) (?h\<lparr>minors := mm1\<rparr>)) =
      Done (?h\<lparr>minors := mm2, majors := (majors ?h)(maj \<mapsto> M\<lparr>maj_first := (if us = [] then x else maj_first M)\<rparr>)\<rparr>)"
  proof (cases "us = []")
    case True
    then show ?thesis using M(1) Mh m2 by (simp add: update_major_def get_major_def)
  next
    case False
    have "\<exists>m. mm1 (last_at 0 us) = Some m" using nz [OF lu(1) [OF False]] lu(2,3) [OF False] m1 by auto
    moreover have "(majors ?h)(maj \<mapsto> M) = majors ?h" using Mh by (auto simp: fun_eq_iff)
    ultimately show ?thesis using nz(1) [OF lu(1) [OF False]] False m2 by (auto simp: update_minor_def get_minor_def)
  qed
  show ?thesis unfolding make_minor_def Let_def m [symmetric] s1 bind_oc.simps s2
    using M(1) by (simp add: update_major_def get_major_def M')
qed

text \<open>Blocks apart from each other, as far as the addresses go.\<close>
definition spread :: "grp list \<Rightarrow> bool" where
  "spread H \<longleftrightarrow> sorted_wrt apart H \<and> (\<forall>(a, n, bs) \<in> set H. room (unat a + 40) (unat a + 4096 * n) bs)"

lemma heap_spread: "heap_ok h H \<Longrightarrow> spread H"
  by (auto simp: spread_def heap_ok_def grp_ok_def)

lemma spreadD: "spread H \<Longrightarrow> (b, k, cs) \<in> set H \<Longrightarrow> room (unat b + 40) (unat b + 4096 * k) cs"
  by (auto simp: spread_def)

lemma apart_blocks: "apart (a, n, bs) = apart (a, n, cs)"
  by (simp add: apart_def fun_eq_iff)

lemma sorted_apart_blocks: "sorted_wrt apart (H1 @ (a, n, bs) # H2) \<longleftrightarrow> sorted_wrt apart (H1 @ (a, n, cs) # H2)"
  unfolding sorted_apart apart_blocks [of a n bs cs] by simp

lemma spread_insert:
  assumes "spread (H1 @ (a, n, bs) # H2)" and "room (unat a + 40) (unat a + 4096 * n) cs"
  shows "spread (H1 @ (a, n, cs) # H2)"
  using assms sorted_apart_blocks [of H1 a n bs H2 cs] by (auto simp: spread_def)

lemma spread_apart:
  assumes sp: "spread (H1 @ (a, n, us @ (x, s, q) # vs) # H2)" and y: "(y, t, p) \<in> set (all_blocks (H1 @ (a, n, us @ vs) # H2))"
  shows "unat y + 40 + t \<le> unat x \<or> unat x + 40 + s \<le> unat y"
proof (cases "(y, t, p) \<in> set (us @ vs)")
  case True
  have "room (unat a + 40) (unat a + 4096 * n) (us @ (x, s, q) # vs)" using sp by (auto simp: spread_def)
  then have "room (unat a + 40) (unat x) us" "room (unat x + 40 + s) (unat a + 4096 * n) vs" unfolding room_append by auto
  then show ?thesis using True room_in [of "unat a + 40" "unat x" us y t p] room_in [of "unat x + 40 + s" "unat a + 4096 * n" vs y t p] by auto
next
  case False
  then obtain b k cs where g: "(b, k, cs) \<in> set (H1 @ H2)" "(y, t, p) \<in> set cs" using y by (force simp: all_blocks_def)
  have "apart (a, n, us @ (x, s, q) # vs) (b, k, cs)" using sp g(1) unfolding spread_def sorted_apart by blast
  moreover have "room (unat b + 40) (unat b + 4096 * k) cs" by (rule spreadD [OF sp]) (use g(1) in auto)
  moreover have "room (unat a + 40) (unat a + 4096 * n) (us @ (x, s, q) # vs)" using sp by (auto simp: spread_def)
  ultimately show ?thesis using room_in [of "unat b + 40" _ cs y t p] g(2) room_in [of "unat a + 40" _ "us @ (x, s, q) # vs" x s q]
    by (fastforce simp: apart_def)
qed

text \<open>The pointer of a block and the byte before it lie in the block.\<close>
lemma block_bounds:
  assumes ok: "heap_ok h H" and b: "(x, s, q) \<in> set (all_blocks H)"
  shows "32 + q \<le> s" "unat x + 72 \<le> 2 ^ 64" "unat x + 40 + s < 2 ^ 64" "pad_ok h x"
    "unat x + 40 \<le> unat (uptr x - 16)" "unat (uptr x - 16) + 16 = unat (uptr x)" "unat (uptr x) + q \<le> unat x + 40 + s" "x \<noteq> 0"
proof -
  obtain a n bs where g: "(a, n, bs) \<in> set H" "(x, s, q) \<in> set bs" using b by (auto simp: all_blocks_def)
  have r: "unat x + 40 + s \<le> unat a + 4096 * n" "32 + q \<le> s" using room_in [OF grp_okD(4) [OF ok g(1)] g(2)] by auto
  show "32 + q \<le> s" by (fact r(2))
  show e: "unat x + 40 + s < 2 ^ 64" using r(1) grp_okD(6) [OF ok g(1)] by simp
  then show w: "unat x + 72 \<le> 2 ^ 64" using r(2) by simp
  show "pad_ok h x" using grp_okD(5) [OF ok g(1)] g(2) by force
  show "unat x + 40 \<le> unat (uptr x - 16)" "unat (uptr x - 16) + 16 = unat (uptr x)"
    using uptr_range(1) [OF w] uptr_minus(1) [OF w] by simp_all
  show "unat (uptr x) + q \<le> unat x + 40 + s" using uptr_range(2) [OF w] r(2) by simp
  show "x \<noteq> 0" using seg_in [OF grp_okD(3) [OF ok g(1)] g(2)] by simp
qed

lemma make_minor_ok:
  assumes ok: "heap_ok h (H1 @ (a, n, us @ vs) # H2)"
    and r: "room (unat a + 40) (unat a + 4096 * n) (us @ (x, unat sz, unat rq) # vs)"
  shows "\<exists>h'. make_minor a (last_at 0 us) (first_at vs 0) x sz rq h = Done (uptr x, h') \<and>
    heap_ok h' (H1 @ (a, n, us @ (x, unat sz, unat rq) # vs) # H2) \<and> hpmm h' = hpmm h \<and>
    liballoc_spinlock h' = liballoc_spinlock h \<and> kbytes h' = (kbytes h)(uptr x - 16 := ucast (uptr x - 40 - x))"
proof -
  let ?H = "H1 @ (a, n, us @ vs) # H2" and ?H' = "H1 @ (a, n, us @ (x, unat sz, unat rq) # vs) # H2" and ?h = "forget x (40 + unat sz) h"
  have g: "(a, n, us @ vs) \<in> set ?H" by simp
  note G = grp_okD [OF ok g]
  note D = heap_okD [OF ok]
  obtain M where M: "a \<noteq> 0" "majors h a = Some M" "unat (maj_size M) = 4096 * n" "unat (maj_usage M) = 40 + used (us @ vs)" "maj_first M = first_at (us @ vs) 0"
    using mseg_mid [OF D(3)] by blast
  have n: "4096 * n < 2 ^ 32" using unat_less [of "maj_size M"] M(3) by simp
  have xr: "unat a + 40 \<le> unat x" "unat x + 40 + unat sz \<le> unat a + 4096 * n" "32 + unat rq \<le> unat sz"
    using room_in [OF r, of x "unat sz" "unat rq"] by auto
  then have cut: "unat (ucast sz :: u32) = unat sz" "unat (ucast rq :: u32) = unat rq" "unat sz < 2 ^ 32"
    using n by (simp_all add: unat_ucast_mod)
  have x0: "x \<noteq> 0" using xr(1) by auto
  note un = gap_untouched [OF ok r]
  have mk: "minors ?h y = minors h y" if "y \<in> fst ` set (all_blocks ?H)" for y using un(2) [OF that] by simp
  have sub: "fst ` set (us @ vs) \<subseteq> fst ` set (all_blocks ?H)" by auto
  have ux: "x \<notin> fst ` set (all_blocks ?H)" using un(2) [of x] by (auto simp: touches_def)
  have ua: "a \<notin> fst ` set (H1 @ H2)"
  proof
    assume "a \<in> fst ` set (H1 @ H2)"
    then obtain k cs where k: "(a, k, cs) \<in> set (H1 @ H2)" by force
    have "apart (a, n, us @ vs) (a, k, cs)" using D(5) k unfolding sorted_apart by blast
    then show False using G(1) grp_okD(1) [OF ok, of a k cs] k by (auto simp: apart_def)
  qed
  define m where "m = \<lparr>min_prev = last_at 0 us, min_next = first_at vs 0, min_block = a, min_magic = LIBALLOC_MAGIC, min_size = ucast sz, min_req_size = ucast rq\<rparr>"
  define mm1 where "mm1 = (if vs = [] then (minors ?h)(x \<mapsto> m) else ((minors ?h)(x \<mapsto> m))(first_at vs 0 \<mapsto> (the (minors h (first_at vs 0)))\<lparr>min_prev := x\<rparr>))"
  define mm2 where "mm2 = (if us = [] then mm1 else mm1(last_at 0 us \<mapsto> (the (mm1 (last_at 0 us)))\<lparr>min_next := x\<rparr>))"
  define M' where "M' = M\<lparr>maj_first := (if us = [] then x else maj_first M), maj_usage := maj_usage M + ucast (sz + sizeof_minor)\<rparr>"
  define h' where "h' = ?h\<lparr>minors := mm2, majors := (majors ?h)(a \<mapsto> M'), l_inuse := l_inuse h + sz,
    kbytes := (kbytes h)(uptr x - 16 := ucast (uptr x - 40 - x))\<rparr>"
  have xb: "x \<notin> fst ` set (us @ vs)" using ux by auto
  have made: "make_minor a (last_at 0 us) (first_at vs 0) x sz rq h = Done (uptr x, h')"
    using make_minor_updates [OF G(3) room_distinct [OF G(4)] x0 xb M(1,2) _ m_def mm1_def mm2_def M'_def]
      un align_ptr_eq [of x] by (auto simp: sizeof_minor_def h'_def)
  have pads: "pad_ok h' y" if y: "(y, t, p) \<in> set (all_blocks ?H)" for y t p
  proof -
    have "unat (uptr y - 16) \<noteq> unat (uptr x - 16)"
      using spread_apart [OF spread_insert [OF heap_spread [OF ok] r] y] block_bounds [OF ok y] xr uptr_range [of x] uptr_minus(1) [of x] G(6) by auto
    then show ?thesis using block_bounds(4) [OF ok y] by (auto simp: pad_ok_def h'_def)
  qed
  have "heap_ok h' ?H'"
    unfolding heap_ok_def
  proof (intro conjI ballI)
    show "pmm_ok (hpmm h')" "0 \<notin> frees (hpmm h')" using D(1,2) by (simp_all add: h'_def)
    have "unat (ucast (sz + sizeof_minor) :: u32) = unat sz + 40"
    proof -
      have "unat (sz + sizeof_minor) = unat sz + 40" using cut(3) by (subst unat_add_nowrap) (simp_all add: sizeof_minor_def)
      then show ?thesis using xr n by (simp add: unat_ucast_mod)
    qed
    moreover have "40 + used (us @ vs) + (40 + unat sz) \<le> 4096 * n" using used_room [OF r] by simp
    ultimately have us: "unat (maj_usage M') = 40 + used (us @ (x, unat sz, unat rq) # vs)"
      using n M(4) by (simp add: M'_def unat_add_nowrap)
    have "mseg (majors ?h) 0 (l_memRoot h) ?H 0" using D(3) un(1) by (subst mseg_cong) auto
    from mseg_replace [OF this ua _ _ _ _ _ us]
    show "mseg (majors h') 0 (l_memRoot h') ?H' 0"
      using M(2,5) un(1) [of a] by (cases us) (auto simp: h'_def M'_def)
    show "sorted_wrt apart ?H'" using D(5) sorted_apart_blocks [of H1 a n _ H2 "us @ vs"] by blast
    show "l_bestBet h' = 0 \<or> l_bestBet h' \<in> fst ` set ?H'" using D(6) by (auto simp: h'_def)
    show "l_inuse h' = of_nat (inuse_of ?H')" "l_allocated h' = of_nat (4096 * pages_of ?H')"
      using D(7,8) by (simp_all add: h'_def)
  next
    fix g assume g': "g \<in> set ?H'"
    obtain b k cs where b: "g = (b, k, cs)" by (cases g)
    show "grp_ok h' g"
    proof (cases "g = (a, n, us @ (x, unat sz, unat rq) # vs)")
      case True
      have "seg mm2 a 0 (first_at (us @ (x, unat sz, unat rq) # vs) 0) (us @ (x, unat sz, unat rq) # vs) 0"
      proof -
        have "seg (minors ?h) a 0 (first_at (us @ vs) 0) (us @ vs) 0" 
          using G(3) seg_cong [of "us @ vs" "minors ?h" "minors h"] mk subsetD [OF sub] by simp
        moreover have "vs \<noteq> [] \<Longrightarrow> minors ?h (first_at vs 0) = minors h (first_at vs 0)" using sub by (intro mk) (cases vs; auto)
        then have "mm1 = (if vs = [] then (minors ?h)(x \<mapsto> m) else ((minors ?h)(x \<mapsto> m))(first_at vs 0 \<mapsto> (the (minors ?h (first_at vs 0)))\<lparr>min_prev := x\<rparr>))"
          by (auto simp: mm1_def)
        ultimately show ?thesis using seg_insert [OF _ x0 xb room_distinct [OF G(4)] m_def _ mm2_def] cut by simp
      qed
      moreover have "pad_ok h' y" if "y \<in> fst ` set (us @ vs)" for y using pads that by force
      moreover have "pad_ok h' x" by (simp add: pad_ok_def h'_def)
      ultimately show ?thesis using True G(1,2) r by (auto simp: grp_ok_def h'_def)
    next
      case False
      then have gh: "(b, k, cs) \<in> set (H1 @ H2)" using g' b by auto
      then have old: "(b, k, cs) \<in> set ?H" by auto
      have "minors h' y = minors h y" if y: "y \<in> fst ` set cs" for y
      proof -
        have "y \<noteq> z" if "z \<in> fst ` set (us @ (x, unat sz, unat rq) # vs)" for z
        proof -
          obtain t p where z: "(z, t, p) \<in> set (us @ (x, unat sz, unat rq) # vs)" using \<open>z \<in> _\<close> by force
          have "\<not> touches y z 1" by (rule untouched_elsewhere [OF ok gh]) (use room_in [OF r z] y in auto)
          then show ?thesis by (auto simp: touches_def)
        qed
        moreover have "first_at vs 0 \<in> fst ` set (us @ (x, unat sz, unat rq) # vs)" if "vs \<noteq> []" using that by (cases vs) auto
        moreover have "last_at 0 us \<in> fst ` set (us @ (x, unat sz, unat rq) # vs)" if "us \<noteq> []" using that by (cases us rule: rev_cases) auto
        moreover have "x \<in> fst ` set (us @ (x, unat sz, unat rq) # vs)" by simp
        ultimately have "y \<noteq> x" "vs \<noteq> [] \<Longrightarrow> y \<noteq> first_at vs 0" "us \<noteq> [] \<Longrightarrow> y \<noteq> last_at 0 us" by blast+
        moreover have "minors ?h y = minors h y" using old y by (intro mk) (force simp: all_blocks_def)
        ultimately show ?thesis by (simp add: h'_def mm2_def mm1_def)
      qed
      then have "seg (minors h') b 0 (first_at cs 0) cs 0" using grp_okD(3) [OF ok old] by (subst seg_cong) auto
      moreover have "pad_ok h' y" if "y \<in> fst ` set cs" for y using pads old that by (force simp: all_blocks_def)
      ultimately show ?thesis using b grp_okD(1,2,4) [OF ok old] by (auto simp: grp_ok_def h'_def)
    qed
  qed
  then show ?thesis using made by (auto simp: h'_def)
qed

end
