(* ===== verification/LiballocRun.thy ===== *)
theory LiballocRun
  imports LiballocOk
begin

unbundle bit_operations_syntax

text \<open>
  What the allocator does for its clients: \<open>kmalloc\<close> gives a piece of memory that is aligned and apart from
  everything handed out before, and keeps all of that; \<open>kfree\<close> takes exactly one piece back.
\<close>

section \<open>Looking for a place\<close>

lemma room_insert:
  assumes "room lo hi (us @ vs)" and "room lo (unat x) us" and "32 + q \<le> s"
    and "unat x + 40 + s \<le> (if vs = [] then hi else unat (first_at vs 0))"
  shows "room lo hi (us @ (x, s, q) # vs)"
proof (cases vs)
  case Nil
  then show ?thesis using assms by (simp add: room_append)
next
  case (Cons v vs')
  obtain y t p where v: "v = (y, t, p)" by (cases v)
  have "room (unat y + 40 + t) hi vs'" "32 + p \<le> t" using assms(1) unfolding Cons v room_append by auto
  then show ?thesis using assms(2-4) Cons v by (simp add: room_append)
qed

text \<open>The block \<open>a\<close> has got a new minor for the request.\<close>
definition placed :: "kheap \<Rightarrow> grp list \<Rightarrow> grp \<Rightarrow> grp list \<Rightarrow> u64 \<Rightarrow> u64 \<Rightarrow> (u64 \<times> kheap) outcome \<Rightarrow> bool" where
  "placed h H1 g H2 sz rq r \<longleftrightarrow> (\<exists>a n us vs x h'. g = (a, n, us @ vs) \<and> r = Done (uptr x, h') \<and>
     heap_ok h' (H1 @ (a, n, us @ (x, unat sz, unat rq) # vs) # H2) \<and> hpmm h' = hpmm h \<and>
     liballoc_spinlock h' = liballoc_spinlock h \<and> kbytes h' = (kbytes h)(uptr x - 16 := ucast (uptr x - 40 - x)))"

lemma make_minor_placed:
  assumes ok: "heap_ok h (H1 @ (a, n, us @ vs) # H2)" and sz: "32 + unat rq \<le> unat sz"
    and "room (unat a + 40) (unat x) us" and "unat x + 40 + unat sz \<le> (if vs = [] then unat a + 4096 * n else unat (first_at vs 0))"
  shows "placed h H1 (a, n, us @ vs) H2 sz rq (make_minor a (last_at 0 us) (first_at vs 0) x sz rq h)"
proof -
  have "room (unat a + 40) (unat a + 4096 * n) (us @ (x, unat sz, unat rq) # vs)"
    by (rule room_insert [OF grp_okD(4) [OF ok] assms(3) sz assms(4)]) auto
  from make_minor_ok [OF ok this] show ?thesis unfolding placed_def by blast
qed

lemma major_facts:
  assumes "heap_ok h (H1 @ (a, n, bs) # H2)"
  shows "\<exists>M. get_major a h = Done M \<and> majors h a = Some M \<and> a \<noteq> 0 \<and> maj_prev M = last_at 0 H1 \<and> maj_next M = first_at H2 0 \<and>
    unat (maj_pages M) = n \<and> unat (maj_size M) = 4096 * n \<and> unat (maj_usage M) = 40 + used bs \<and> maj_first M = first_at bs 0 \<and>
    unat (ucast (maj_size M - maj_usage M) :: u64) = 4096 * n - 40 - used bs \<and> 40 + used bs \<le> 4096 * n"
proof -
  obtain M where M: "a \<noteq> 0" "majors h a = Some M" "maj_prev M = last_at 0 H1" "maj_next M = first_at H2 0" "unat (maj_pages M) = n"
      "unat (maj_size M) = 4096 * n" "unat (maj_usage M) = 40 + used bs" "maj_first M = first_at bs 0"
    using mseg_mid [OF heap_okD(3) [OF assms]] by blast
  have u: "40 + used bs \<le> 4096 * n" using used_room [OF grp_okD(4) [OF assms, of a n bs]] by simp
  then have "maj_usage M \<le> maj_size M" using M(6,7) by (simp add: word_le_nat_alt)
  then have "unat (ucast (maj_size M - maj_usage M) :: u64) = 4096 * n - 40 - used bs"
    using M(6,7) by (simp add: unat_ucast_up unat_diff_nowrap)
  then show ?thesis using M u by (simp add: get_major_def)
qed

lemma minor_step:
  assumes ok: "heap_ok h (H1 @ (a, n, us @ (y, t, p) # vs) # H2)" and sz: "32 + unat rq \<le> unat sz" "unat sz < 2 ^ 32"
  shows "(\<exists>r. minor_loop a sz rq y h = Some r \<and> placed h H1 (a, n, us @ (y, t, p) # vs) H2 sz rq r) \<or>
    minor_loop a sz rq y h = minor_loop a sz rq (first_at vs 0) h"
proof -
  let ?bs = "us @ (y, t, p) # vs"
  have g: "(a, n, ?bs) \<in> set (H1 @ (a, n, ?bs) # H2)" by simp
  note G = grp_okD [OF ok g]
  obtain M where M: "get_major a h = Done M" "unat (maj_size M) = 4096 * n" using major_facts [OF ok] by blast
  obtain m where m: "minors h y = Some m" "min_next m = first_at vs 0" "unat (min_size m) = t" using seg_mid [OF G(3)] by blast
  have y0: "y \<noteq> 0" using seg_in [OF G(3), of y t p] by simp
  let ?hi = "unat a + 4096 * n"
  define e where "e = (if vs = [] then ?hi else unat (first_at vs 0))"
  have rm: "room (unat a + 40) (unat y) us" "32 + p \<le> t" "room (unat y + 40 + t) ?hi vs" using G(4) unfolding room_append by auto
  have ye: "unat y + 40 + t \<le> e"
  proof (cases vs)
    case (Cons v vs')
    then show ?thesis using rm(3) by (cases v) (simp add: e_def)
  qed (use rm(3) in \<open>simp add: e_def\<close>)
  define w where "w = (if min_next m = 0 then a + ucast (maj_size M) else min_next m)"
  have n0: "vs \<noteq> [] \<Longrightarrow> first_at vs 0 \<noteq> 0"
    using seg_in [OF G(3), of "fst (hd vs)" "fst (snd (hd vs))" "snd (snd (hd vs))"] by (cases vs) auto
  have "unat (a + ucast (maj_size M)) = ?hi" using M(2) G(6) by (simp add: unat_add_nowrap unat_ucast_up)
  then have w: "unat w = e" using n0 m(2) by (cases "vs = []") (auto simp: w_def e_def)
  have t: "unat (ucast (min_size m) :: u64) = t" using m(3) by (simp add: unat_ucast_up)
  define gap where "gap = w - y - sizeof_minor - ucast (min_size m)"
  have "unat (w - y) = e - unat y" using w ye by (subst unat_diff_nowrap) (simp_all add: word_le_nat_alt)
  then have "unat (w - y - 40) = e - unat y - 40" using ye by (subst unat_diff_nowrap) (simp_all add: word_le_nat_alt)
  then have gap: "unat gap = e - unat y - 40 - t"
    using ye t unfolding gap_def sizeof_minor_def by (subst unat_diff_nowrap) (simp_all add: word_le_nat_alt)
  have s40: "unat (sz + sizeof_minor) = unat sz + 40" using sz(2) by (subst unat_add_nowrap) (simp_all add: sizeof_minor_def)
  have loop: "minor_loop a sz rq y h = (if sz + sizeof_minor \<le> gap
      then Some (make_minor a y (first_at vs 0) (y + sizeof_minor + ucast (min_size m)) sz rq h)
      else minor_loop a sz rq (first_at vs 0) h)"
    using y0 M(1) m(1,2) by (subst minor_loop.simps) (simp add: get_minor_def gap_def w_def Let_def)
  show ?thesis
  proof (cases "sz + sizeof_minor \<le> gap")
    case True
    let ?x = "y + sizeof_minor + ucast (min_size m)"
    have hi: "e \<le> ?hi"
    proof (cases vs)
      case (Cons v vs')
      then show ?thesis using room_in [OF rm(3), of "fst v" "fst (snd v)" "snd (snd v)"] by (cases v) (simp add: e_def)
    qed (simp add: e_def)
    have "unat (y + sizeof_minor) = unat y + 40" using ye hi G(6) by (subst unat_add_nowrap) (simp_all add: sizeof_minor_def)
    then have x: "unat ?x = unat y + 40 + t" using ye hi G(6) t by (subst unat_add_nowrap) simp_all
    have "unat ?x + 40 + unat sz \<le> e" using True x gap s40 ye by (simp add: word_le_nat_alt)
    moreover have "room (unat a + 40) (unat ?x) (us @ [(y, t, p)])" using rm(1,2) x by (simp add: room_append)
    ultimately have "placed h H1 (a, n, (us @ [(y, t, p)]) @ vs) H2 sz rq (make_minor a (last_at 0 (us @ [(y, t, p)])) (first_at vs 0) ?x sz rq h)"
      using ok sz(1) by (intro make_minor_placed) (simp_all add: e_def)
    then show ?thesis using True loop by simp
  next
    case False
    then show ?thesis using loop by simp
  qed
qed

lemma minor_loop_placed:
  assumes "heap_ok h (H1 @ (a, n, us @ (y, t, p) # vs) # H2)" and sz: "32 + unat rq \<le> unat sz" "unat sz < 2 ^ 32"
  shows "\<exists>r. minor_loop a sz rq y h = Some r \<and> (r = Done (0, h) \<or> placed h H1 (a, n, us @ (y, t, p) # vs) H2 sz rq r)"
  using assms(1)
proof (induction vs arbitrary: us y t p)
  case Nil
  have "minor_loop a sz rq 0 h = Some (Done (0, h))" by (subst minor_loop.simps) simp
  then show ?case using minor_step [OF Nil sz] by auto
next
  case (Cons v vs)
  obtain y' t' p' where v: "v = (y', t', p')" by (cases v)
  have "\<exists>r. minor_loop a sz rq y' h = Some r \<and> (r = Done (0, h) \<or> placed h H1 (a, n, (us @ [(y, t, p)]) @ (y', t', p') # vs) H2 sz rq r)"
    by (rule Cons.IH) (use Cons.prems v in simp)
  then show ?case using minor_step [OF Cons.prems sz] v by auto
qed

text \<open>A block with enough room in total: there is a place, or the room is in pieces that are too small.\<close>
lemma place_minor_placed:
  assumes ok: "heap_ok h (H1 @ (a, n, bs) # H2)" and sz: "32 + unat rq \<le> unat sz" "unat sz < 2 ^ 32"
    and fit: "unat sz + 40 \<le> 4096 * n - 40 - used bs"
  shows "(place_minor a sz rq h = Done (0, h) \<and> bs \<noteq> []) \<or> placed h H1 (a, n, bs) H2 sz rq (place_minor a sz rq h)"
proof -
  have g: "(a, n, bs) \<in> set (H1 @ (a, n, bs) # H2)" by simp
  note G = grp_okD [OF ok g]
  obtain M where M: "get_major a h = Done M" "maj_first M = first_at bs 0" using major_facts [OF ok] by blast
  have a40: "unat (a + sizeof_major) = unat a + 40" using G(1,6) by (subst unat_add_nowrap) (simp_all add: sizeof_major_def)
  have s40: "unat (sz + sizeof_minor) = unat sz + 40" using sz(2) by (subst unat_add_nowrap) (simp_all add: sizeof_minor_def)
  show ?thesis
  proof (cases bs)
    case Nil
    have "placed h H1 (a, n, [] @ bs) H2 sz rq (make_minor a (last_at 0 ([] :: blk list)) (first_at bs 0) (a + sizeof_major) sz rq h)"
      by (rule make_minor_placed) (use ok sz fit a40 Nil in simp_all)
    then show ?thesis using M Nil by (simp add: place_minor_def)
  next
    case (Cons v vs)
    obtain y t p where v: "v = (y, t, p)" by (cases v)
    have y: "y \<noteq> 0" "unat a + 40 \<le> unat y" using seg_in [OF G(3), of y t p] room_in [OF G(4), of y t p] Cons v by auto
    have "unat (y - a) = unat y - unat a" using y(2) by (subst unat_diff_nowrap) (simp_all add: word_le_nat_alt)
    then have d: "unat (y - a - sizeof_major) = unat y - unat a - 40"
      using y(2) by (subst unat_diff_nowrap) (simp_all add: word_le_nat_alt sizeof_major_def)
    show ?thesis
    proof (cases "sz + sizeof_minor \<le> y - a - sizeof_major")
      case True
      then have "unat a + 40 + 40 + unat sz \<le> unat y" using d s40 y(2) by (simp add: word_le_nat_alt)
      then have "placed h H1 (a, n, [] @ bs) H2 sz rq (make_minor a (last_at 0 ([] :: blk list)) (first_at bs 0) (a + sizeof_major) sz rq h)"
        by (intro make_minor_placed) (use ok sz a40 Cons v in simp_all)
      then show ?thesis using M True y Cons v by (simp add: place_minor_def)
    next
      case False
      obtain r where "minor_loop a sz rq y h = Some r" "r = Done (0, h) \<or> placed h H1 (a, n, [] @ (y, t, p) # vs) H2 sz rq r"
        using minor_loop_placed [of h H1 a n "[]" y t p vs H2 rq sz] ok sz Cons v by auto
      then show ?thesis using M False y(1) Cons v by (auto simp: place_minor_def)
    qed
  qed
qed

section \<open>A new major block\<close>

text \<open>Requests for which no size of a block is cut to 32 bits.\<close>
definition moderate :: "u64 \<Rightarrow> bool" where
  "moderate sz \<longleftrightarrow> unat sz + 4176 \<le> 2 ^ 32"

definition pages_for :: "u64 \<Rightarrow> nat" where
  "pages_for sz = unat (page_count (ucast sz))"

lemma page_count_fits:
  assumes "moderate sz"
  shows "0 < pages_for sz" and "unat sz + 80 \<le> 4096 * pages_for sz" and "4096 * pages_for sz < 2 ^ 32"
proof -
  let ?w = "ucast sz + ucast sizeof_major + ucast sizeof_minor :: u32"
  have "unat (ucast sz :: u32) = unat sz" using assms by (simp add: moderate_def unat_ucast_mod)
  then have "unat (ucast sz + ucast sizeof_major :: u32) = unat sz + 40"
    using assms by (subst unat_add_nowrap) (simp_all add: moderate_def sizeof_major_def)
  then have w: "unat ?w = unat sz + 80" using assms by (subst unat_add_nowrap) (simp_all add: moderate_def sizeof_minor_def)
  define q where "q = (unat sz + 80) div 4096"
  have q: "4096 * q \<le> unat sz + 80" "unat sz + 80 < 4096 * (q + 1)" unfolding q_def by simp_all
  have d: "unat (?w div l_pageSize) = q" using w by (simp add: unat_div l_pageSize_def q_def)
  have m: "?w mod l_pageSize = 0 \<longleftrightarrow> unat sz + 80 = 4096 * q"
    using w by (simp add: unat_eq_0 [symmetric] unat_mod l_pageSize_def q_def mod_eq_0_iff_dvd) (metis dvd_div_mult_self dvd_triv_left mult.commute)
  define st where "st = (if ?w mod l_pageSize = 0 then ?w div l_pageSize else ?w div l_pageSize + 1)"
  have q32: "q + 1 < 2 ^ 32" using q(1) assms by (simp add: moderate_def)
  have "unat (?w div l_pageSize + 1) = q + 1" using d q32 by (subst unat_add_nowrap) simp_all
  then have st: "unat st = (if unat sz + 80 = 4096 * q then q else q + 1)" using d m by (simp add: st_def)
  have "pages_for sz = (if unat st < 16 then 16 else unat st)"
    by (simp add: pages_for_def page_count_def Let_def st_def [symmetric] l_pageCount_def word_less_nat_alt)
  then show "0 < pages_for sz" "unat sz + 80 \<le> 4096 * pages_for sz" "4096 * pages_for sz < 2 ^ 32"
    using st q assms by (auto simp: moderate_def split: if_splits)
qed

lemma heap_grp_in_use:
  "heap_ok h H \<Longrightarrow> (a, n, bs) \<in> set H \<Longrightarrow> in_use (hpmm h) a n"
  by (rule grp_okD(2))

lemma in_use_later:
  assumes "in_use pm a n" and "same_layout pm pm'" and "frees pm' \<subseteq> frees pm"
  shows "in_use pm' a n"
proof -
  obtain i where "0 < i" "a = page_addr pm i" "i + n \<le> frames pm" "{i..<i + n} \<inter> frees pm = {}" using assms(1) by (auto simp: in_use_def)
  moreover have "page_addr pm' = page_addr pm" "frames pm' = frames pm"
    using same_layout_fields [OF assms(2)] by (simp_all add: fun_eq_iff page_addr_def)
  ultimately show ?thesis using assms(3) by (auto simp: in_use_def)
qed

text \<open>The heap \<open>H\<close> with a new block of \<open>n\<close> pages at \<open>a\<close> that is not linked to it.\<close>
definition fresh :: "kheap \<Rightarrow> kheap \<Rightarrow> grp list \<Rightarrow> u64 \<Rightarrow> nat \<Rightarrow> bool" where
  "fresh h h' H a n \<longleftrightarrow> a \<noteq> 0 \<and> a \<notin> fst ` set H \<and>
     (\<exists>M. majors h' a = Some M \<and> maj_prev M = 0 \<and> maj_next M = 0 \<and> unat (maj_pages M) = n \<and> unat (maj_size M) = 4096 * n \<and>
        unat (maj_usage M) = 40 \<and> maj_first M = 0) \<and>
     (\<forall>g \<in> set (H @ [(a, n, [])]). grp_ok h' g) \<and> mseg (majors h') 0 (l_memRoot h') H 0 \<and> sorted_wrt apart (H @ [(a, n, [])]) \<and>
     pmm_ok (hpmm h') \<and> 0 \<notin> frees (hpmm h') \<and> l_memRoot h' = l_memRoot h \<and> l_bestBet h' = l_bestBet h \<and> l_inuse h' = l_inuse h \<and>
     l_allocated h' = of_nat (4096 * pages_of (H @ [(a, n, [])])) \<and> kbytes h' = kbytes h \<and> liballoc_spinlock h' = liballoc_spinlock h"

lemma page_addr_nz: "pmm_ok pm \<Longrightarrow> i < frames pm \<Longrightarrow> 0 < i \<Longrightarrow> page_addr pm i \<noteq> 0"
  using page_addr_unat [of pm i] by (metis add_is_0 gr_implies_not0 mult_is_0 unsigned_0 zero_neq_numeral)

lemma allocate_new_page_fresh:
  assumes ok: "heap_ok h H" and sz: "moderate sz"
  shows "(allocate_new_page (ucast sz) h = Halts \<and> (\<forall>i. \<not> {i..<i + pages_for sz} \<subseteq> frees (hpmm h))) \<or>
    (\<exists>a h'. allocate_new_page (ucast sz) h = Done (a, h') \<and> fresh h h' H a (pages_for sz))"
proof -
  let ?st = "page_count (ucast sz)" and ?n = "pages_for sz"
  note P = page_count_fits [OF sz] and D = heap_okD [OF ok]
  have n: "unat (ucast ?st :: u64) = ?n" by (simp add: pages_for_def unat_ucast_up)
  then have n0: "0 < unat (ucast ?st :: u64)" using P(1) by simp
  show ?thesis
  proof (cases "pmalloc (ucast ?st) (hpmm h)")
    case Wild
    then show ?thesis using pmalloc_tame [OF D(1) n0] by simp
  next
    case Halts
    then have "\<not> {i..<i + ?n} \<subseteq> frees (hpmm h)" for i using pmalloc_returns [OF D(1) n0, of i] n by auto
    then show ?thesis using Halts by (simp add: allocate_new_page_def liballoc_alloc_def Let_def)
  next
    case (Done r)
    obtain a pm where r: "r = (a, pm)" by (cases r)
    obtain i where i: "a = page_addr (hpmm h) i" "same_layout (hpmm h) pm" "pmm_ok pm" "i + ?n \<le> frames (hpmm h)"
        "{i..<i + ?n} \<subseteq> frees (hpmm h)" "frees pm = frees (hpmm h) - {i..<i + ?n}"
      using pmalloc_takes [OF D(1) n0] Done r n by metis
    have i0: "0 < i" using i(5) D(2) P(1) by (cases i) auto
    have a0: "a \<noteq> 0" using page_addr_nz [OF D(1) _ i0] i(1,4) P(1) by simp
    have same: "page_addr pm = page_addr (hpmm h)" "frames pm = frames (hpmm h)"
      using same_layout_fields [OF i(2)] by (simp_all add: fun_eq_iff page_addr_def)
    have sz32: "unat (?st * l_pageSize) = 4096 * ?n"
      using P(3) by (subst unat_mult_nowrap) (simp_all add: l_pageSize_def pages_for_def)
    have ap: "apart (b, k, cs) (a, ?n, [])" "\<not> touches x a (4096 * ?n)" if g: "(b, k, cs) \<in> set H" and x: "x = b \<or> x \<in> fst ` set cs" for b k cs x
    proof -
      obtain j where j: "b = page_addr (hpmm h) j" "j + k \<le> frames (hpmm h)" "{j..<j + k} \<inter> frees (hpmm h) = {}"
        using grp_okD(2) [OF ok g] by (auto simp: in_use_def)
      then show "apart (b, k, cs) (a, ?n, [])"
        using frames_apart [OF D(1) j(2) i(4) grp_okD(1) [OF ok g] P(1)] i(1,5) by blast
      then show "\<not> touches x a (4096 * ?n)" using header_in_grp [OF ok g x] by (auto simp: apart_def touches_def)
    qed
    define M where "M = \<lparr>maj_prev = 0, maj_next = 0, maj_pages = ?st, maj_size = ?st * l_pageSize, maj_usage = ucast sizeof_major, maj_first = 0\<rparr>"
    define h1 where "h1 = forget a (4096 * ?n) (h\<lparr>hpmm := pm\<rparr>)"
    define h' where "h' = h1\<lparr>majors := (majors h1)(a \<mapsto> M), l_allocated := l_allocated h + ucast (maj_size M)\<rparr>"
    have new: "allocate_new_page (ucast sz) h = Done (a, h')"
      using Done r n a0 sz32 by (simp add: allocate_new_page_def liballoc_alloc_def Let_def h'_def h1_def M_def)
    have aH: "a \<notin> fst ` set H"
    proof
      assume "a \<in> fst ` set H"
      then obtain k cs where "(a, k, cs) \<in> set H" by force
      then show False using ap(2) [of a k cs a] P(1) by (auto simp: touches_def)
    qed
    have old: "majors h' b = majors h b" if bH: "b \<in> fst ` set H" for b
    proof -
      obtain k cs where "(b, k, cs) \<in> set H" using bH by force
      then show ?thesis using ap(2) [of b k cs b] aH bH by (auto simp: h'_def h1_def)
    qed
    have "grp_ok h' g" if "g \<in> set H" for g
    proof -
      obtain b k cs where g: "g = (b, k, cs)" by (cases g)
      then have b: "(b, k, cs) \<in> set H" using that by simp
      have "minors h' y = minors h y" if "y \<in> fst ` set cs" for y using ap(2) [OF b, of y] that by (simp add: h'_def h1_def)
      then have "seg (minors h') b 0 (first_at cs 0) cs 0" using grp_okD(3) [OF ok b] by (subst seg_cong) auto
      moreover have "in_use pm b k" by (rule in_use_later [OF grp_okD(2) [OF ok b] i(2)]) (use i(6) in auto)
      ultimately show ?thesis using g grp_okD(1,4,5) [OF ok b] by (auto simp: grp_ok_def h'_def h1_def pad_ok_def)
    qed
    moreover have "grp_ok h' (a, ?n, [])"
      using P(1) i(1,4,6) i0 same by (auto simp: grp_ok_def in_use_def h'_def h1_def)
    moreover have "mseg (majors h') 0 (l_memRoot h) H 0" using D(3) old by (subst mseg_cong) auto
    moreover have "sorted_wrt apart (H @ [(a, ?n, [])])" using D(5) ap(1) by (auto simp: sorted_wrt_append)
    moreover have "l_allocated h' = of_nat (4096 * pages_of (H @ [(a, ?n, [])]))"
    proof -
      have "(ucast (maj_size M) :: u64) = of_nat (4096 * ?n)"
        unfolding M_def liballoc_major.simps sz32 [symmetric] by simp
      then show ?thesis using D(8) by (simp add: h'_def algebra_simps)
    qed
    moreover have "0 \<notin> frees pm" using D(2) i(6) by simp
    moreover have "majors h' a = Some M" by (simp add: h'_def)
    ultimately have "fresh h h' H a ?n"
      unfolding fresh_def using a0 aH i(3) sz32 by (auto simp: h'_def h1_def M_def sizeof_major_def pages_for_def)
    then show ?thesis using new by blast
  qed
qed

lemma heap_addr_once:
  assumes ok: "heap_ok h (H1 @ (a, n, bs) # H2)"
  shows "a \<notin> fst ` set (H1 @ H2)"
proof
  assume "a \<in> fst ` set (H1 @ H2)"
  then obtain k cs where k: "(a, k, cs) \<in> set (H1 @ H2)" by force
  have "apart (a, n, bs) (a, k, cs)" using heap_okD(5) [OF ok] k unfolding sorted_apart by blast
  then show False using grp_okD(1) [OF ok, of a n bs] grp_okD(1) [OF ok, of a k cs] k by (auto simp: apart_def)
qed

text \<open>The first block of an empty heap.\<close>
lemma fresh_root:
  assumes "fresh h h' [] a n" and "heap_ok h []"
  shows "heap_ok (h'\<lparr>l_memRoot := a\<rparr>) [(a, n, [])]"
  using assms by (auto simp: fresh_def heap_ok_def grp_ok_def pad_ok_def)

text \<open>A block behind the last one.\<close>
lemma append_major_fresh:
  assumes ok: "heap_ok h (G @ [(b, k, cs)])" and sz: "moderate sz"
  shows "(append_major b sz h = Halts \<and> (\<forall>i. \<not> {i..<i + pages_for sz} \<subseteq> frees (hpmm h))) \<or>
    (\<exists>a h'. append_major b sz h = Done (a, h') \<and> a \<noteq> 0 \<and> heap_ok h' (G @ [(b, k, cs)] @ [(a, pages_for sz, [])]) \<and>
      kbytes h' = kbytes h \<and> liballoc_spinlock h' = liballoc_spinlock h)"
  using allocate_new_page_fresh [OF ok sz]
proof (elim disjE exE conjE)
  fix a h1
  assume new: "allocate_new_page (ucast sz) h = Done (a, h1)" and f: "fresh h h1 (G @ [(b, k, cs)]) a (pages_for sz)"
  let ?H = "G @ [(b, k, cs)]" and ?n = "pages_for sz"
  obtain M where M: "majors h1 a = Some M" "maj_prev M = 0" "maj_next M = 0" "unat (maj_pages M) = ?n" "unat (maj_size M) = 4096 * ?n"
      "unat (maj_usage M) = 40" "maj_first M = 0"
    using f by (auto simp: fresh_def)
  have a: "a \<noteq> 0" "a \<notin> fst ` set ?H" and ms: "mseg (majors h1) 0 (l_memRoot h1) ?H 0" using f by (auto simp: fresh_def)
  obtain B where B: "majors h1 b = Some B" "b \<noteq> 0" using mseg_mid [of "majors h1" 0 "l_memRoot h1" G b k cs "[]" 0] ms by auto
  have bG: "b \<notin> fst ` set G" using heap_addr_once [of h G b k cs "[]"] ok by simp
  have ab: "a \<noteq> b" using a(2) by auto
  define h' where "h' = h1\<lparr>majors := (majors h1)(b \<mapsto> B\<lparr>maj_next := a\<rparr>, a \<mapsto> M\<lparr>maj_prev := b\<rparr>)\<rparr>"
  have "append_major b sz h = Done (a, h')"
    using new M(1) B a(1) ab by (simp add: append_major_def update_major_def get_major_def h'_def fun_upd_twist)
  moreover have "mseg (majors h') 0 (l_memRoot h') (?H @ [(a, ?n, [])]) 0"
    using ms M B a ab bG by (simp add: h'_def mseg_append)
  moreover have "grp_ok h' g" if "grp_ok h1 g" for g using that by (auto simp: h'_def grp_ok_def pad_ok_def split: prod.splits)
  moreover have "l_bestBet h1 = 0 \<or> l_bestBet h1 \<in> fst ` set ?H" "l_inuse h1 = of_nat (inuse_of ?H)"
    using f heap_okD(6,7) [OF ok] by (auto simp: fresh_def)
  ultimately have "heap_ok h' (?H @ [(a, ?n, [])])" using f by (auto simp: heap_ok_def fresh_def h'_def)
  then show ?thesis using \<open>append_major b sz h = _\<close> f a(1) by (auto simp: h'_def fresh_def)
qed (simp add: append_major_def)

section \<open>All blocks\<close>

text \<open>The answer to a request: a new minor somewhere, or the page allocator has no run of pages that would do.\<close>
definition served :: "kheap \<Rightarrow> grp list \<Rightarrow> u64 \<Rightarrow> u64 \<Rightarrow> (u64 \<times> kheap) outcome \<Rightarrow> bool" where
  "served h H sz rq r \<longleftrightarrow> (r = Halts \<and> (\<forall>i. \<not> {i..<i + pages_for sz} \<subseteq> frees (hpmm h))) \<or>
     (\<exists>H1 a n us vs H2 x h'. r = Done (uptr x, h') \<and> heap_ok h' (H1 @ (a, n, us @ (x, unat sz, unat rq) # vs) # H2) \<and>
        set (all_blocks (H1 @ (a, n, us @ vs) # H2)) = set (all_blocks H) \<and> liballoc_spinlock h' = liballoc_spinlock h \<and>
        kbytes h' = (kbytes h)(uptr x - 16 := ucast (uptr x - 40 - x)))"

definition same_but_bet :: "kheap \<Rightarrow> kheap \<Rightarrow> bool" where
  "same_but_bet h h' \<longleftrightarrow> (\<exists>b. h' = h\<lparr>l_bestBet := b\<rparr>)"

lemma placed_served:
  assumes "placed h' H1 g H2 sz rq r" and "set (all_blocks (H1 @ g # H2)) = set (all_blocks H)"
    and "kbytes h' = kbytes h" "liballoc_spinlock h' = liballoc_spinlock h"
  shows "served h H sz rq r" and "\<exists>p h'. r = Done (p, h') \<and> p \<noteq> 0"
proof -
  obtain a n us vs x h'' where g: "g = (a, n, us @ vs)" "r = Done (uptr x, h'')"
      "heap_ok h'' (H1 @ (a, n, us @ (x, unat sz, unat rq) # vs) # H2)" "liballoc_spinlock h'' = liballoc_spinlock h'"
      "kbytes h'' = (kbytes h')(uptr x - 16 := ucast (uptr x - 40 - x))"
    using assms(1) unfolding placed_def by blast
  then show "served h H sz rq r" unfolding served_def using assms(2-4) by (intro disjI2 exI conjI) auto
  have "unat (uptr x) \<noteq> 0" using block_bounds(6) [OF g(3), of x "unat sz" "unat rq"] by simp
  then show "\<exists>p h'. r = Done (p, h') \<and> p \<noteq> 0" using g(2) by auto
qed

text \<open>The best bet is any block of the heap.\<close>
lemma heap_ok_bet:
  assumes "heap_ok h H" and "b \<in> fst ` set H"
  shows "heap_ok (h\<lparr>l_bestBet := b\<rparr>) H"
  using assms by (auto simp: heap_ok_def grp_ok_def pad_ok_def)

lemma moderate_add: "moderate sz \<Longrightarrow> unat (sz + sizeof_minor) = unat sz + 40"
  by (subst unat_add_nowrap) (simp_all add: moderate_def sizeof_minor_def)

lemma heap_next: "heap_ok h (H1 @ H2) \<Longrightarrow> first_at H2 0 = 0 \<longleftrightarrow> H2 = []"
  using grp_okD(7) [of h "H1 @ H2" "fst (hd H2)" "fst (snd (hd H2))" "snd (snd (hd H2))"] by (cases H2) auto

text \<open>The loop at a block, once the block is read: \<open>h0\<close> has the best bet so far.\<close>
definition bet :: "u64 \<Rightarrow> u64 \<Rightarrow> u64 \<Rightarrow> kheap \<Rightarrow> kheap" where
  "bet b diff best h = (if best < diff then h\<lparr>l_bestBet := b\<rparr> else h)"

lemma bet_simps [simp]: "majors (bet b d s h) = majors h" "minors (bet b d s h) = minors h" "kbytes (bet b d s h) = kbytes h"
  "hpmm (bet b d s h) = hpmm h" "liballoc_spinlock (bet b d s h) = liballoc_spinlock h" "l_memRoot (bet b d s h) = l_memRoot h"
  by (simp_all add: bet_def)

lemma bet_ok: "heap_ok h (H1 @ (b, n, bs) # H2) \<Longrightarrow> heap_ok (bet b d s h) (H1 @ (b, n, bs) # H2)"
  using heap_ok_bet [of h _ b] by (auto simp: bet_def)

text \<open>
  A round at a block of the heap: it serves the request, makes a block behind the last one that has room enough,
  or goes on to the next block, or to the root if it began at the best bet.
\<close>
lemma major_round_at:
  assumes ok: "heap_ok h (H1 @ (b, n, bs) # H2)" and sz: "moderate sz" "32 + unat rq \<le> unat sz"
    and r: "r = major_round sz rq b started best h"
  shows "(r = Halts \<and> (\<forall>i. \<not> {i..<i + pages_for sz} \<subseteq> frees (hpmm h))) \<or>
    (\<exists>p h'. p \<noteq> 0 \<and> r = Done (Stop (p, h')) \<and> served h (H1 @ (b, n, bs) # H2) sz rq (Done (p, h'))) \<or>
    (H2 = [] \<and> \<not> started \<and> (\<exists>a best' h'. r = Done (Cont (a, started, best', h')) \<and> heap_ok h' (H1 @ [(b, n, bs)] @ [(a, pages_for sz, [])]) \<and>
       kbytes h' = kbytes h \<and> liballoc_spinlock h' = liballoc_spinlock h)) \<or>
    (\<exists>best' h'. heap_ok h' (H1 @ (b, n, bs) # H2) \<and> hpmm h' = hpmm h \<and> kbytes h' = kbytes h \<and> liballoc_spinlock h' = liballoc_spinlock h \<and>
       l_memRoot h' = l_memRoot h \<and> r = Done (Cont (if H2 \<noteq> [] then (first_at H2 0, started, best', h') else (l_memRoot h', False, best', h'))) \<and>
       (H2 = [] \<longrightarrow> started))"
proof -
  obtain M where M: "get_major b h = Done M" "b \<noteq> 0" "maj_next M = first_at H2 0"
      "unat (ucast (maj_size M - maj_usage M) :: u64) = 4096 * n - 40 - used bs"
    using major_facts [OF ok] by blast
  let ?H = "H1 @ (b, n, bs) # H2" and ?d = "ucast (maj_size M - maj_usage M) :: u64"
  let ?h = "bet b ?d best h"
  have nx: "first_at H2 0 \<noteq> 0 \<longleftrightarrow> H2 \<noteq> []" using heap_next [of h "H1 @ [(b, n, bs)]" H2] ok by simp
  have lt: "?d < sz + sizeof_minor \<longleftrightarrow> 4096 * n - 40 - used bs < unat sz + 40"
    unfolding word_less_nat_alt moderate_add [OF sz(1)] M(4) ..
  have s32: "unat sz < 2 ^ 32" using sz(1) by (simp add: moderate_def)
  have ok': "heap_ok ?h ?H" by (rule bet_ok [OF ok])
  have "get_major b ?h = get_major b h" by (simp add: get_major_def)
  then have M': "get_major b ?h = Done M" using M(1) by simp
  show ?thesis
  proof (cases "?d < sz + sizeof_minor")
    case small: True
    show ?thesis
    proof (cases "H2 \<noteq> [] \<or> started")
      case True
      then have "r = Done (Cont (if H2 \<noteq> [] then (first_at H2 0, started, (if best < ?d then ?d else best), ?h) else (l_memRoot ?h, False, (if best < ?d then ?d else best), ?h)))"
        using M small nx by (auto simp: r major_round_def bet_def Let_def)
      then show ?thesis using ok' True by auto
    next
      case False
      then have H2: "H2 = []" "\<not> started" by auto
      have okl: "heap_ok ?h (H1 @ [(b, n, bs)])" using ok' H2(1) by simp
      show ?thesis
        using append_major_fresh [OF okl sz(1)]
      proof (elim disjE exE conjE)
        fix a h1
        assume new: "append_major b sz ?h = Done (a, h1)" "a \<noteq> 0" "kbytes h1 = kbytes ?h" "liballoc_spinlock h1 = liballoc_spinlock ?h"
          and ok1: "heap_ok h1 (H1 @ [(b, n, bs)] @ [(a, pages_for sz, [])])"
        have "placed h1 (H1 @ [(b, n, bs)]) (a, pages_for sz, []) [] sz rq (place_minor a sz rq h1)"
          using place_minor_placed [of h1 "H1 @ [(b, n, bs)]" a "pages_for sz" "[]" "[]" rq sz] ok1 sz(2) s32 page_count_fits(2) [OF sz(1)] by simp
        from placed_served [OF this, of ?H h] obtain p h' where "place_minor a sz rq h1 = Done (p, h')" "p \<noteq> 0" "served h ?H sz rq (Done (p, h'))"
          using new(3,4) H2 by auto
        then have "r = Done (Stop (p, h'))" using M small nx H2 new(1,2) by (simp add: r major_round_def bet_def [symmetric] Let_def)
        then show ?thesis using \<open>p \<noteq> 0\<close> \<open>served h ?H sz rq _\<close> by blast
      qed (use M small nx H2 in \<open>simp_all add: r major_round_def bet_def [symmetric] Let_def\<close>)
    qed
  next
    case big: False
    then have fit: "unat sz + 40 \<le> 4096 * n - 40 - used bs" using lt by simp
    show ?thesis
      using place_minor_placed [OF ok' sz(2) s32 fit]
    proof (elim disjE conjE)
      assume "placed ?h H1 (b, n, bs) H2 sz rq (place_minor b sz rq ?h)"
      from placed_served [OF this, of ?H h] obtain p h' where "place_minor b sz rq ?h = Done (p, h')" "p \<noteq> 0" "served h ?H sz rq (Done (p, h'))"
        by auto
      then have "r = Done (Stop (p, h'))" using M big by (simp add: r major_round_def bet_def Let_def)
      then show ?thesis using \<open>p \<noteq> 0\<close> \<open>served h ?H sz rq _\<close> by blast
    next
      assume none: "place_minor b sz rq ?h = Done (0, ?h)" "bs \<noteq> []"
      have r: "r = (if H2 \<noteq> [] then Done (Cont (first_at H2 0, started, (if best < ?d then ?d else best), ?h))
          else if started then Done (Cont (l_memRoot ?h, False, (if best < ?d then ?d else best), ?h))
          else bind_oc (append_major b sz ?h) (\<lambda>(n, h). Done (Cont (n, started, (if best < ?d then ?d else best), h))))"
        using M M' big nx none(1) by (simp add: r major_round_def bet_def [symmetric] Let_def)
      show ?thesis
      proof (cases "H2 \<noteq> [] \<or> started")
        case True
        then show ?thesis using ok' r by auto
      next
        case False
        then have okl: "heap_ok ?h (H1 @ [(b, n, bs)])" using ok' by simp
        show ?thesis
          using append_major_fresh [OF okl sz(1)] False r none(2) by (elim disjE exE conjE) auto
      qed
    qed
  qed
qed

lemma served_from:
  assumes "served h' H' sz rq r" and "set (all_blocks H') = set (all_blocks H)"
    and "kbytes h' = kbytes h" "liballoc_spinlock h' = liballoc_spinlock h" and "hpmm h' = hpmm h \<or> r \<noteq> Halts"
  shows "served h H sz rq r"
  using assms(1)
  unfolding served_def
proof (elim disjE)
  assume "r = Halts \<and> (\<forall>i. \<not> {i..<i + pages_for sz} \<subseteq> frees (hpmm h'))"
  then show "(r = Halts \<and> (\<forall>i. \<not> {i..<i + pages_for sz} \<subseteq> frees (hpmm h))) \<or>
     (\<exists>H1 a n us vs H2 x h''. r = Done (uptr x, h'') \<and> heap_ok h'' (H1 @ (a, n, us @ (x, unat sz, unat rq) # vs) # H2) \<and>
        set (all_blocks (H1 @ (a, n, us @ vs) # H2)) = set (all_blocks H) \<and> liballoc_spinlock h'' = liballoc_spinlock h \<and>
        kbytes h'' = (kbytes h)(uptr x - 16 := ucast (uptr x - 40 - x)))"
    using assms(5) by auto
qed (simp only: assms(2-4), blast)

text \<open>A block without minors serves the request if it is large enough.\<close>
lemma major_round_fresh:
  assumes ok: "heap_ok h (H1 @ [(a, n, [])])" and sz: "moderate sz" "32 + unat rq \<le> unat sz" and fit: "unat sz + 40 \<le> 4096 * n - 40"
  shows "\<exists>p h'. major_round sz rq a started best h = Done (Stop (p, h')) \<and> served h (H1 @ [(a, n, [])]) sz rq (Done (p, h'))"
proof -
  obtain M where M: "get_major a h = Done M" "a \<noteq> 0" "maj_next M = 0"
      "unat (ucast (maj_size M - maj_usage M) :: u64) = 4096 * n - 40 - used []"
    using major_facts [OF ok] by auto
  let ?d = "ucast (maj_size M - maj_usage M) :: u64"
  let ?h = "bet a ?d best h"
  have lt: "\<not> ?d < sz + sizeof_minor"
    unfolding word_less_nat_alt moderate_add [OF sz(1)] M(4) using fit by simp
  have ok': "heap_ok ?h (H1 @ [(a, n, [])])" by (rule bet_ok [OF ok])
  have s32: "unat sz < 2 ^ 32" using sz(1) by (simp add: moderate_def)
  have "placed ?h H1 (a, n, []) [] sz rq (place_minor a sz rq ?h)"
    using place_minor_placed [OF ok' sz(2) s32] fit by simp
  from placed_served [OF this, of "H1 @ [(a, n, [])]" h] obtain p h'
    where "place_minor a sz rq ?h = Done (p, h')" "p \<noteq> 0" "served h (H1 @ [(a, n, [])]) sz rq (Done (p, h'))" by auto
  then show ?thesis using M lt by (simp add: major_round_def bet_def [symmetric] Let_def)
qed

declare major_loop.simps [simp del]

lemma major_loop_cont:
  "major_round sz rq b started best h = Done (Cont (a, s', best', h')) \<Longrightarrow> b \<noteq> 0 \<Longrightarrow>
    major_loop sz rq b started best h = major_loop sz rq a s' best' h'"
  by (simp add: major_loop.simps [of sz rq b])

text \<open>The loop over the blocks serves the request; without the best bet first, then with it.\<close>
lemma major_loop_root:
  assumes "heap_ok h (H1 @ (b, n, bs) # H2)" and sz: "moderate sz" "32 + unat rq \<le> unat sz"
  shows "\<exists>r. major_loop sz rq b False best h = Some r \<and> served h (H1 @ (b, n, bs) # H2) sz rq r"
  using assms(1)
proof (induction H2 arbitrary: h H1 b n bs best)
  case ok: Nil
  have b0: "b \<noteq> 0" using major_facts [OF ok] by blast
  show ?case
    using major_round_at [OF ok sz refl, of False best]
  proof (elim disjE exE conjE)
    fix a best' h'
    assume r: "major_round sz rq b False best h = Done (Cont (a, False, best', h'))"
      and ok': "heap_ok h' (H1 @ [(b, n, bs)] @ [(a, pages_for sz, [])])"
      and same: "kbytes h' = kbytes h" "liballoc_spinlock h' = liballoc_spinlock h"
    have fit: "unat sz + 40 \<le> 4096 * pages_for sz - 40" using page_count_fits(2) [OF sz(1)] by simp
    have a0: "a \<noteq> 0" using major_facts [of h' "H1 @ [(b, n, bs)]" a] ok' by auto
    have okA: "heap_ok h' ((H1 @ [(b, n, bs)]) @ [(a, pages_for sz, [])])" using ok' by simp
    obtain p h'' where "major_round sz rq a False best' h' = Done (Stop (p, h''))"
        "served h' ((H1 @ [(b, n, bs)]) @ [(a, pages_for sz, [])]) sz rq (Done (p, h''))"
      using major_round_fresh [OF okA sz fit, of False best'] by blast
    moreover have "served h (H1 @ [(b, n, bs)]) sz rq (Done (p, h''))"
      by (rule served_from [OF calculation(2)]) (simp_all add: same all_blocks_def)
    ultimately show ?thesis using r b0 a0 by (simp add: major_loop.simps)
  qed (use b0 in \<open>auto simp: major_loop.simps served_def\<close>)
next
  case (Cons g H2)
  obtain a k cs where g: "g = (a, k, cs)" by (cases g)
  note ok = Cons.prems
  have b0: "b \<noteq> 0" using major_facts [OF ok] by blast
  show ?case
    using major_round_at [OF ok sz refl, of False best]
  proof (elim disjE exE conjE)
    fix best' h'
    assume ok': "heap_ok h' (H1 @ (b, n, bs) # g # H2)"
      and same: "hpmm h' = hpmm h" "kbytes h' = kbytes h" "liballoc_spinlock h' = liballoc_spinlock h"
      and r: "major_round sz rq b False best h = Done (Cont (if g # H2 \<noteq> [] then (first_at (g # H2) 0, False, best', h') else (l_memRoot h', False, best', h')))"
    have "\<exists>r. major_loop sz rq a False best' h' = Some r \<and> served h' ((H1 @ [(b, n, bs)]) @ (a, k, cs) # H2) sz rq r"
      by (rule Cons.IH) (use ok' g in simp)
    then show ?thesis using r b0 g served_from [OF _ refl same(2,3) disjI1 [OF same(1)]] by (auto simp: major_loop_cont)
  qed (use b0 in \<open>auto simp: major_loop.simps served_def\<close>)
qed

lemma major_loop_serves:
  assumes "heap_ok h (H1 @ (b, n, bs) # H2)" and sz: "moderate sz" "32 + unat rq \<le> unat sz"
  shows "\<exists>r. major_loop sz rq b started best h = Some r \<and> served h (H1 @ (b, n, bs) # H2) sz rq r"
proof (cases started)
  case False
  then show ?thesis using major_loop_root [OF assms] by simp
next
  case True
  have "\<exists>r. major_loop sz rq b True best h = Some r \<and> served h (H1 @ (b, n, bs) # H2) sz rq r"
    using assms(1)
  proof (induction H2 arbitrary: h H1 b n bs best)
    case ok: Nil
    have b0: "b \<noteq> 0" using major_facts [OF ok] by blast
    show ?case
      using major_round_at [OF ok sz refl, of True best]
    proof (elim disjE exE conjE)
      fix best' h'
      assume ok': "heap_ok h' (H1 @ [(b, n, bs)])"
        and same: "hpmm h' = hpmm h" "kbytes h' = kbytes h" "liballoc_spinlock h' = liballoc_spinlock h"
        and r: "major_round sz rq b True best h = Done (Cont (if ([] :: grp list) \<noteq> [] then (first_at ([] :: grp list) 0, True, best', h') else (l_memRoot h', False, best', h')))"
      obtain a k cs H' where H: "H1 @ [(b, n, bs)] = [] @ (a, k, cs) # H'" by (cases "H1 @ [(b, n, bs)]") auto
      have root: "l_memRoot h' = a" using mseg_first [OF heap_okD(3) [OF ok']] H by simp
      have "\<exists>r. major_loop sz rq a False best' h' = Some r \<and> served h' (H1 @ [(b, n, bs)]) sz rq r"
        using major_loop_root [of h' "[]" a k cs H', OF _ sz] ok' H by simp
      then show ?thesis using r b0 root served_from [OF _ refl same(2,3) disjI1 [OF same(1)]] by (auto simp: major_loop_cont)
    qed (use b0 in \<open>auto simp: major_loop.simps served_def\<close>)
  next
    case (Cons g H2)
    obtain a k cs where g: "g = (a, k, cs)" by (cases g)
    note ok = Cons.prems
    have b0: "b \<noteq> 0" using major_facts [OF ok] by blast
    show ?case
      using major_round_at [OF ok sz refl, of True best]
    proof (elim disjE exE conjE)
      fix best' h'
      assume ok': "heap_ok h' (H1 @ (b, n, bs) # g # H2)"
        and same: "hpmm h' = hpmm h" "kbytes h' = kbytes h" "liballoc_spinlock h' = liballoc_spinlock h"
        and r: "major_round sz rq b True best h = Done (Cont (if g # H2 \<noteq> [] then (first_at (g # H2) 0, True, best', h') else (l_memRoot h', False, best', h')))"
      have "\<exists>r. major_loop sz rq a True best' h' = Some r \<and> served h' ((H1 @ [(b, n, bs)]) @ (a, k, cs) # H2) sz rq r"
        by (rule Cons.IH) (use ok' g in simp)
      then show ?thesis using r b0 g served_from [OF _ refl same(2,3) disjI1 [OF same(1)]] by (auto simp: major_loop_cont)
    qed (use b0 in \<open>auto simp: major_loop.simps served_def\<close>)
  qed
  then show ?thesis using True by simp
qed

section \<open>The allocator\<close>

lemma first_major_at:
  assumes "heap_ok h H" and "H \<noteq> []"
  shows "\<exists>H1 b n bs H2 started best. first_major sz h = Done (b, started, best) \<and> H = H1 @ (b, n, bs) # H2"
proof -
  have root: "\<exists>n bs H2. H = [] @ (l_memRoot h, n, bs) # H2"
    using mseg_first [OF heap_okD(3) [OF assms(1)]] assms(2) by (cases H) auto
  consider "l_bestBet h = 0" | n bs H1 H2 where "H = H1 @ (l_bestBet h, n, bs) # H2"
    using heap_okD(6) [OF assms(1)] by (auto simp: in_set_conv_decomp)
  then show ?thesis
  proof cases
    case 1
    then have "first_major sz h = Done (l_memRoot h, False, 0)" by (simp add: first_major_def)
    then show ?thesis using root by blast
  next
    case 2
    obtain B where B: "get_major (l_bestBet h) h = Done B" "l_bestBet h \<noteq> 0" using major_facts [OF assms(1) [unfolded 2]] by blast
    let ?best = "ucast (maj_size B - maj_usage B) :: u64"
    show ?thesis
    proof (cases "sz + sizeof_minor < ?best")
      case True
      then have "first_major sz h = Done (l_bestBet h, True, ?best)" using B by (simp add: first_major_def Let_def)
      then show ?thesis using 2 by blast
    next
      case False
      then have "first_major sz h = Done (l_memRoot h, False, ?best)" using B by (simp add: first_major_def Let_def)
      then show ?thesis using root by blast
    qed
  qed
qed

lemma malloc_locked_serves:
  assumes ok: "heap_ok h H" and sz: "moderate sz" "32 + unat rq \<le> unat sz"
  shows "served h H sz rq (malloc_locked sz rq h)"
proof (cases "l_memRoot h = 0")
  case False
  then have "H \<noteq> []" using heap_okD(3) [OF ok] by auto
  then obtain H1 b n bs H2 started best where f: "first_major sz h = Done (b, started, best)" "H = H1 @ (b, n, bs) # H2"
    using first_major_at [OF ok] by blast
  then show ?thesis using major_loop_serves [OF ok [unfolded f(2)] sz, of started best] False by (auto simp: malloc_locked_def)
next
  case root: True
  then have H: "H = []" using mseg_first [OF heap_okD(3) [OF ok]] heap_next [of h "[]" H] ok by simp
  show ?thesis
    using allocate_new_page_fresh [OF ok sz(1)]
  proof (elim disjE exE conjE)
    fix a h1
    assume new: "allocate_new_page (ucast sz) h = Done (a, h1)" and f: "fresh h h1 H a (pages_for sz)"
    let ?h = "h1\<lparr>l_memRoot := a\<rparr>"
    have ok1: "heap_ok ?h ([] @ [(a, pages_for sz, [])])" using fresh_root f ok H by simp
    have a0: "a \<noteq> 0" and b0: "l_bestBet ?h = 0" and same: "kbytes ?h = kbytes h" "liballoc_spinlock ?h = liballoc_spinlock h"
      using f heap_okD(6) [OF ok] H by (auto simp: fresh_def)
    have fit: "unat sz + 40 \<le> 4096 * pages_for sz - 40" using page_count_fits(2) [OF sz(1)] by simp
    obtain p h2 where r: "major_round sz rq a False 0 ?h = Done (Stop (p, h2))" "served ?h ([] @ [(a, pages_for sz, [])]) sz rq (Done (p, h2))"
      using major_round_fresh [OF ok1 sz fit, of False 0] by blast
    have "malloc_locked sz rq h = Done (p, h2)"
      using root new a0 b0 r(1) by (simp add: malloc_locked_def first_major_def major_loop.simps)
    then show ?thesis using served_from [OF r(2), of H h] same H by simp
  qed (use root in \<open>simp add: malloc_locked_def served_def\<close>)
qed

text \<open>What lies in a block that was handed out lies behind its header, and in no other block.\<close>
lemma live_apart:
  assumes ok: "heap_ok h (H1 @ (a, n, us @ (x, s, q) # vs) # H2)" and l: "(p, k) \<in> live (H1 @ (a, n, us @ vs) # H2)"
  shows "unat p + k \<le> unat x \<or> unat x + 40 + s + 16 \<le> unat p" and "p \<noteq> uptr x"
proof -
  obtain y t where y: "(y, t, k) \<in> set (all_blocks (H1 @ (a, n, us @ vs) # H2))" "p = uptr y" using l by (auto simp: live_def)
  then have y': "(y, t, k) \<in> set (all_blocks (H1 @ (a, n, us @ (x, s, q) # vs) # H2))" by auto
  have x': "(x, s, q) \<in> set (all_blocks (H1 @ (a, n, us @ (x, s, q) # vs) # H2))" by auto
  note B = block_bounds [OF ok y'] and X = block_bounds [OF ok x']
  note sa = spread_apart [OF heap_spread [OF ok] y(1)]
  show "unat p + k \<le> unat x \<or> unat x + 40 + s + 16 \<le> unat p" using sa B y(2) by auto
  then show "p \<noteq> uptr x" using sa B X y(2) by auto
qed

text \<open>What \<open>kmalloc\<close> promises.\<close>
lemma kmalloc_serves:
  assumes ok: "heap_ok h H" and free: "liballoc_spinlock h = spinlock_init" and req: "unat req + 4208 \<le> 2 ^ 32"
  shows "(kmalloc req h = Halts \<and> (\<forall>i. \<not> {i..<i + pages_for (req + 32)} \<subseteq> frees (hpmm h))) \<or>
    (\<exists>p h' H'. kmalloc req h = Done (p, h') \<and> heap_ok h' H' \<and> live H' = insert (p, unat req) (live H) \<and>
       p \<noteq> 0 \<and> 16 dvd unat p \<and> unat p + unat req < 2 ^ 64 \<and> liballoc_spinlock h' = spinlock_init \<and>
       (\<forall>(q, k) \<in> live H. q \<noteq> p \<and> (unat q + k \<le> unat p \<or> unat p + unat req \<le> unat q) \<and>
          (\<forall>i < k. kbytes h' (q + of_nat i) = kbytes h (q + of_nat i))))"
proof -
  let ?sz = "req + 32" and ?h = "h\<lparr>liballoc_spinlock := 1\<rparr>"
  have sz: "unat ?sz = unat req + 32" using req by (subst unat_add_nowrap) simp_all
  have m: "moderate ?sz" "32 + unat req \<le> unat ?sz" using sz req by (simp_all add: moderate_def)
  have nz: "?sz \<noteq> 0" using sz by auto
  have ok1: "heap_ok ?h H" using ok by (auto simp: heap_ok_def grp_ok_def pad_ok_def)
  have k: "kmalloc req h = bind_oc (malloc_locked ?sz req ?h) (\<lambda>(p, h). Done (p, liballoc_unlock h))"
    using nz free by (simp add: kmalloc_def ALIGNMENT_def ALIGN_INFO_def liballoc_lock_def spin_once_def spinlock_init_def)
  show ?thesis
    using malloc_locked_serves [OF ok1 m]
    unfolding served_def
  proof (elim disjE exE conjE)
    assume "malloc_locked ?sz req ?h = Halts" "\<forall>i. \<not> {i..<i + pages_for ?sz} \<subseteq> frees (hpmm ?h)"
    then show ?thesis using k by simp
  next
    fix H1 H2 :: "grp list" and a x :: u64 and n and us vs :: "blk list" and h'
    let ?H' = "H1 @ (a, n, us @ (x, unat ?sz, unat req) # vs) # H2" and ?h' = "liballoc_unlock h'"
    assume r: "malloc_locked ?sz req ?h = Done (uptr x, h')" and ok': "heap_ok h' ?H'"
      and same: "set (all_blocks (H1 @ (a, n, us @ vs) # H2)) = set (all_blocks H)"
      and kb: "kbytes h' = (kbytes ?h)(uptr x - 16 := ucast (uptr x - 40 - x))"
    have live: "live H = live (H1 @ (a, n, us @ vs) # H2)" using same by (simp add: live_def)
    have x: "(x, unat ?sz, unat req) \<in> set (all_blocks ?H')" by simp
    note B = block_bounds [OF ok' x]
    have old: "q \<noteq> uptr x \<and> (unat q + k \<le> unat (uptr x) \<or> unat (uptr x) + unat req \<le> unat q) \<and>
        (\<forall>i < k. kbytes ?h' (q + of_nat i) = kbytes h (q + of_nat i))" if l: "(q, k) \<in> live H" for q k
    proof (intro conjI allI impI)
      note A = live_apart [OF ok' l [unfolded live]]
      show "q \<noteq> uptr x" by (rule A(2))
      show "unat q + k \<le> unat (uptr x) \<or> unat (uptr x) + unat req \<le> unat q" using A(1) B by auto
      obtain y t where y: "(y, t, k) \<in> set (all_blocks ?H')" "q = uptr y" using l unfolding live by (auto simp: live_def)
      fix i assume i: "i < k"
      then have "unat (of_nat i :: u64) = i" "unat q + i < 2 ^ 64" using block_bounds [OF ok' y(1)] y(2) by (simp_all add: unat_of_nat)
      then have "unat (q + of_nat i) = unat q + i" by (subst unat_add_nowrap) simp_all
      then have "q + of_nat i \<noteq> uptr x - 16" using A(1) B i by auto
      then show "kbytes ?h' (q + of_nat i) = kbytes h (q + of_nat i)" using kb by (simp add: liballoc_unlock_def)
    qed
    have "heap_ok ?h' ?H'" using ok' by (auto simp: heap_ok_def grp_ok_def pad_ok_def liballoc_unlock_def)
    moreover have "live ?H' = insert (uptr x, unat req) (live H)" unfolding live by (auto simp: live_def)
    moreover have "uptr x \<noteq> 0" using B by auto
    moreover have "16 dvd unat (uptr x)" by (rule uptr_range(3) [OF B(2)])
    moreover have "unat (uptr x) + unat req < 2 ^ 64" using B by simp
    moreover have "liballoc_spinlock ?h' = spinlock_init" by (simp add: liballoc_unlock_def spinlock_release_def spinlock_init_def)
    moreover have "kmalloc req h = Done (uptr x, ?h')" using k r by simp
    ultimately show ?thesis using old by blast
  qed
qed

section \<open>A heap\<close>

text \<open>An empty heap over 23 free pages.\<close>
definition demo_heap :: kheap where
  "demo_heap = \<lparr>majors = Map.empty, minors = Map.empty, kbytes = \<lambda>_. 0, l_memRoot = 0, l_bestBet = 0, l_allocated = 0, l_inuse = 0,
     l_warningCount = 0, l_errorCount = 0, l_possibleOverruns = 0, liballoc_spinlock = spinlock_init,
     hpmm = demo_pmm\<lparr>pmm_bitmap := [0xFF, 0xFF, 0x01, 0x00, 0x00, 0xFF], highest_page := 0x28000\<rparr>\<rparr>"

lemma demo_heap_frees: "frees (hpmm demo_heap) = {17..<40}"
proof -
  let ?pm = "demo_pmm\<lparr>pmm_bitmap := [0xFF, 0xFF, 0x01, 0x00, 0x00, 0xFF], highest_page := 0x28000\<rparr>"
  have "list_all (\<lambda>n. page_free ?pm n \<longleftrightarrow> 17 \<le> n \<and> n < 40) [0..<48]" by code_simp
  moreover have "page_free ?pm n \<Longrightarrow> n < 48" for n by (auto simp: page_free_def demo_pmm_def)
  ultimately show ?thesis by (auto simp: demo_heap_def frees_def list_all_iff simp del: upt_rec_numeral)
qed

lemma demo_heap_ok: "heap_ok demo_heap []"
proof -
  have "pmm_ok (hpmm demo_heap)" by (simp add: pmm_ok_def demo_heap_frees) (simp add: demo_heap_def frames_def demo_pmm_def)
  moreover have "0 \<notin> frees (hpmm demo_heap)" by (simp add: demo_heap_frees)
  ultimately show ?thesis by (simp add: heap_ok_def) (simp add: demo_heap_def)
qed

text \<open>
  C10. \<open>kmalloc\<close> of up to 4 GB less a page gives a pointer that is aligned to 16 bytes and not null, to memory that is apart from all that was
  handed out before; the bytes of that are kept, the headers and accounts stay in order and the lock is
  free again.  It does not return only if no run of pages that would hold the request is free.
\<close>
theorem kmalloc_fresh_memory:
  assumes ok: "heap_ok h H" and free: "liballoc_spinlock h = spinlock_init" and req: "unat req + 4208 \<le> 2 ^ 32"
  shows "(kmalloc req h = Halts \<and> (\<forall>i. \<not> {i..<i + pages_for (req + 32)} \<subseteq> frees (hpmm h))) \<or>
    (\<exists>p h' H'. kmalloc req h = Done (p, h') \<and> heap_ok h' H' \<and> live H' = insert (p, unat req) (live H) \<and>
       p \<noteq> 0 \<and> 16 dvd unat p \<and> unat p + unat req < 2 ^ 64 \<and> liballoc_spinlock h' = spinlock_init \<and>
       (\<forall>(q, k) \<in> live H. q \<noteq> p \<and> (unat q + k \<le> unat p \<or> unat p + unat req \<le> unat q) \<and>
          (\<forall>i < k. kbytes h' (q + of_nat i) = kbytes h (q + of_nat i))))"
  by (rule kmalloc_serves [OF assms])

lemma demo_heap_pages: "{17..<17 + pages_for (100 + 32)} \<subseteq> frees (hpmm demo_heap)"
proof -
  have "pages_for 132 = 16" by (simp add: pages_for_def page_count_def Let_def sizeof_major_def sizeof_minor_def l_pageSize_def l_pageCount_def)
  then show ?thesis by (simp add: demo_heap_frees)
qed

theorem kmalloc_fresh_memory_witness:
  "\<exists>p h' H'. kmalloc 100 demo_heap = Done (p, h') \<and> heap_ok h' H' \<and> live H' = {(p, 100)} \<and> p \<noteq> 0 \<and> 16 dvd unat p"
  using kmalloc_fresh_memory [OF demo_heap_ok, of 100] demo_heap_pages by (auto simp: demo_heap_def live_def)

end
