(* ===== verification/LiballocFree.thy ===== *)
theory LiballocFree
  imports LiballocRun
begin

text \<open>
  \<open>kfree\<close> takes one block out of the lists: the minor is unlinked, the accounts go down, and a major block
  that has become empty goes back to the page allocator.
\<close>

section \<open>Out of a row\<close>

lemma seg_delete:
  assumes s: "seg mm maj 0 (first_at (us @ (x, t, r) # vs) 0) (us @ (x, t, r) # vs) 0" and d: "distinct (map fst (us @ (x, t, r) # vs))"
    and m0: "\<And>y. y \<in> fst ` set (us @ vs) \<Longrightarrow> mm0 y = mm y"
    and m1: "mm1 = (if vs = [] then mm0 else mm0(first_at vs 0 \<mapsto> (the (mm (first_at vs 0)))\<lparr>min_prev := last_at 0 us\<rparr>))"
    and m2: "mm2 = (if us = [] then mm1 else mm1(last_at 0 us \<mapsto> (the (mm (last_at 0 us)))\<lparr>min_next := first_at vs 0\<rparr>))"
  shows "seg mm2 maj 0 (first_at (us @ vs) 0) (us @ vs) 0"
proof -
  have su: "seg mm maj 0 (first_at (us @ (x, t, r) # vs) 0) us x" and sv: "seg mm maj x (first_at vs 0) vs 0"
    using s seg_first [of mm maj x _ vs 0] unfolding seg_append by (auto split: option.splits)
  have v2: "seg mm2 maj (last_at 0 us) (first_at vs 0) vs 0"
  proof (cases vs)
    case (Cons b bs)
    obtain y k q where b: "b = (y, k, q)" by (cases b)
    have "seg (mm(y \<mapsto> (the (mm y))\<lparr>min_prev := last_at 0 us\<rparr>)) maj (last_at 0 us) (first_at vs 0) vs 0"
      using seg_new_prev [of mm maj x "first_at vs 0" y k q bs 0 "last_at 0 us"] sv d Cons b by auto
    moreover have "mm2 z = (mm(y \<mapsto> (the (mm y))\<lparr>min_prev := last_at 0 us\<rparr>)) z" if "z \<in> fst ` set vs" for z
    proof -
      have "us = [] \<or> last_at 0 us \<noteq> z" using that d by (cases us rule: rev_cases) auto
      moreover have "mm0 z = mm z" using m0 that by auto
      ultimately show ?thesis using m1 m2 Cons b by auto
    qed
    ultimately show ?thesis by (subst seg_cong) auto
  qed simp
  show ?thesis
  proof (cases us rule: rev_cases)
    case (snoc us' b)
    obtain y k q where b: "b = (y, k, q)" by (cases b)
    have "seg (mm(y \<mapsto> (the (mm y))\<lparr>min_next := first_at vs 0\<rparr>)) maj 0 (first_at (us @ vs) 0) us (first_at vs 0)"
      using seg_new_next [of mm maj 0 "first_at (us @ (x, t, r) # vs) 0" us' y k q x "first_at vs 0"] su d snoc b by (cases us') auto
    moreover have "mm2 z = (mm(y \<mapsto> (the (mm y))\<lparr>min_next := first_at vs 0\<rparr>)) z" if z: "z \<in> fst ` set us" for z
    proof -
      have "vs = [] \<or> first_at vs 0 \<noteq> z" using z d by (cases vs) auto
      moreover have "mm0 z = mm z" using m0 z by auto
      ultimately show ?thesis using m1 m2 snoc b by auto
    qed
    ultimately have "seg mm2 maj 0 (first_at (us @ vs) 0) us (first_at vs 0)" by (subst seg_cong) auto
    then show ?thesis using v2 by (simp add: seg_append)
  qed (use v2 in simp)
qed

lemma mseg_new_prev:
  assumes "mseg mj prv p ((a, n, bs) # H) q" and "a \<notin> fst ` set H"
  shows "mseg (mj(a \<mapsto> (the (mj a))\<lparr>maj_prev := prv'\<rparr>)) prv' p ((a, n, bs) # H) q"
  using assms by (auto split: option.splits)

lemma mseg_new_next:
  assumes "mseg mj prv p (G @ [(a, n, bs)]) q" and "a \<notin> fst ` set G"
  shows "mseg (mj(a \<mapsto> (the (mj a))\<lparr>maj_next := q'\<rparr>)) prv p (G @ [(a, n, bs)]) q'"
  using assms unfolding mseg_append by (auto split: option.splits)

lemma mseg_delete:
  assumes s: "mseg mj 0 (first_at (G @ (a, n, bs) # H) 0) (G @ (a, n, bs) # H) 0" and d: "distinct (map fst (G @ (a, n, bs) # H))"
    and m1: "mj1 = (if G = [] then mj else mj(last_at 0 G \<mapsto> (the (mj (last_at 0 G)))\<lparr>maj_next := first_at H 0\<rparr>))"
    and m2: "\<And>y. y \<in> fst ` set (G @ H) \<Longrightarrow>
      mj2 y = (if H = [] then mj1 else mj1(first_at H 0 \<mapsto> (the (mj1 (first_at H 0)))\<lparr>maj_prev := last_at 0 G\<rparr>)) y"
  shows "mseg mj2 0 (first_at (G @ H) 0) (G @ H) 0"
proof -
  have su: "mseg mj 0 (first_at (G @ (a, n, bs) # H) 0) G a" and sv: "mseg mj a (first_at H 0) H 0"
    using s mseg_first [of mj a _ H 0] unfolding mseg_append by (auto split: option.splits)
  have G1: "G \<noteq> [] \<Longrightarrow> last_at 0 G \<in> fst ` set G" by (cases G rule: rev_cases) auto
  have H1: "H \<noteq> [] \<Longrightarrow> first_at H 0 \<in> fst ` set H" by (cases H) auto
  have dj: "fst ` set G \<inter> fst ` set H = {}" using d by auto
  have v2: "mseg mj2 (last_at 0 G) (first_at H 0) H 0"
  proof (cases H)
    case (Cons g H')
    obtain y k q where g: "g = (y, k, q)" by (cases g)
    have "mseg (mj(y \<mapsto> (the (mj y))\<lparr>maj_prev := last_at 0 G\<rparr>)) (last_at 0 G) (first_at H 0) H 0"
      using mseg_new_prev [of mj a "first_at H 0" y k q H' 0 "last_at 0 G"] sv d Cons g by auto
    moreover have "mj2 z = (mj(y \<mapsto> (the (mj y))\<lparr>maj_prev := last_at 0 G\<rparr>)) z" if z: "z \<in> fst ` set H" for z
    proof -
      have "mj1 w = mj w" if w: "w \<in> fst ` set H" for w
      proof (cases "G = []")
        case False
        then have "last_at 0 G \<noteq> w" using w G1 dj by blast
        then show ?thesis using m1 by simp
      qed (simp add: m1)
      moreover have "z \<in> fst ` set (G @ H)" using z by auto
      then have "mj2 z = (mj1(y \<mapsto> (the (mj1 y))\<lparr>maj_prev := last_at 0 G\<rparr>)) z" using m2 [of z] Cons g by simp
      ultimately show ?thesis using z Cons g by (cases "z = y") auto
    qed
    ultimately show ?thesis by (subst mseg_cong) auto
  qed simp
  show ?thesis
  proof (cases G rule: rev_cases)
    case (snoc G' g)
    obtain y k q where g: "g = (y, k, q)" by (cases g)
    have "mseg (mj(y \<mapsto> (the (mj y))\<lparr>maj_next := first_at H 0\<rparr>)) 0 (first_at (G @ H) 0) G (first_at H 0)"
      using mseg_new_next [of mj 0 "first_at (G @ (a, n, bs) # H) 0" G' y k q a "first_at H 0"] su d snoc g by (cases G') auto
    moreover have "mj2 z = (mj(y \<mapsto> (the (mj y))\<lparr>maj_next := first_at H 0\<rparr>)) z" if z: "z \<in> fst ` set G" for z
    proof -
      have "z \<in> fst ` set (G @ H)" using z by auto
      moreover have "H \<noteq> [] \<Longrightarrow> z \<noteq> first_at H 0" using z H1 dj by blast
      ultimately have "z \<in> fst ` set (G @ H)" "H \<noteq> [] \<Longrightarrow> z \<noteq> first_at H 0" .
      then show ?thesis using m2 [of z] m1 snoc g by (cases "H = []") simp_all
    qed
    ultimately have "mseg mj2 0 (first_at (G @ H) 0) G (first_at H 0)" by (subst mseg_cong) auto
    then show ?thesis using v2 by (simp add: mseg_append)
  qed (use v2 in simp)
qed

section \<open>A block without minors\<close>

lemma heap_addrs_distinct:
  assumes ok: "heap_ok h H"
  shows "distinct (map fst H)"
proof -
  have "distinct (map fst G)" if "sorted_wrt apart G" "\<forall>(a, n, bs) \<in> set G. 0 < n" for G
    using that by (induction G) (fastforce simp: apart_def)+
  then show ?thesis using heap_okD(5) [OF ok] grp_okD(1) [OF ok] by blast
qed

lemma same_layout_in_use:
  assumes "in_use pm a n" and "same_layout pm pm'" and "frees pm' = frees pm \<union> {i..<i + k}" and ok: "pmm_ok pm"
    and k: "i + k \<le> frames pm" "0 < k" "0 < n" and apart: "apart (a, n, bs) (page_addr pm i, k, cs)"
  shows "in_use pm' a n"
proof -
  obtain j where j: "0 < j" "a = page_addr pm j" "j + n \<le> frames pm" "{j..<j + n} \<inter> frees pm = {}" using assms(1) by (auto simp: in_use_def)
  have "unat (page_addr pm j) = unat (hhdm_offset pm) + 4096 * j" "unat (page_addr pm i) = unat (hhdm_offset pm) + 4096 * i"
    using page_addr_unat [OF ok] j(3) k by simp_all
  then have "{j..<j + n} \<inter> {i..<i + k} = {}" using apart j(2) by (auto simp: apart_def)
  moreover have "page_addr pm' = page_addr pm" "frames pm' = frames pm"
    using same_layout_fields [OF assms(2)] by (simp_all add: fun_eq_iff page_addr_def)
  ultimately show ?thesis using j assms(3) by (auto simp: in_use_def)
qed

text \<open>The block is taken out of the list of the major blocks, and its pages go back.\<close>
lemma release_major_updates:
  assumes ok: "heap_ok h (G @ (a, n, []) # H)" and M: "majors h a = Some M"
    and m1: "mj1 = (if G = [] then majors h else (majors h)(last_at 0 G \<mapsto> (the (majors h (last_at 0 G)))\<lparr>maj_next := first_at H 0\<rparr>))"
    and m2: "mj2 = (if H = [] then mj1 else mj1(first_at H 0 \<mapsto> (the (mj1 (first_at H 0)))\<lparr>maj_prev := last_at 0 G\<rparr>))"
  shows "release_major a M h = liballoc_free a (ucast (maj_pages M)) (forget a (4096 * n)
    (h\<lparr>l_memRoot := first_at (G @ H) 0, l_bestBet := (if l_bestBet h = a then 0 else l_bestBet h), majors := mj2,
       l_allocated := l_allocated h - of_nat (4096 * n)\<rparr>))"
proof -
  note D = heap_okD [OF ok]
  have M': "maj_prev M = last_at 0 G" "maj_next M = first_at H 0" "unat (maj_pages M) = n" "unat (maj_size M) = 4096 * n" "a \<noteq> 0"
    using mseg_mid [OF D(3)] M by auto
  have known: "y \<noteq> 0 \<and> (\<exists>Y. majors h y = Some Y)" if y: "y \<in> fst ` set (G @ H)" for y
  proof -
    obtain k cs where "(y, k, cs) \<in> set (G @ (a, n, []) # H)" using y by force
    then obtain G' H' where "G @ (a, n, []) # H = G' @ (y, k, cs) # H'" by (meson split_list)
    then show ?thesis using mseg_mid [of "majors h" 0 "l_memRoot h" G' y k cs H' 0] D(3) by auto
  qed
  have root: "(if l_memRoot h = a then maj_next M else l_memRoot h) = first_at (G @ H) 0"
  proof (cases G)
    case Nil
    then show ?thesis using mseg_first [OF D(3)] M' by simp
  next
    case (Cons g G')
    then have "l_memRoot h = fst g" "fst g \<noteq> a" using mseg_first [OF D(3)] heap_addrs_distinct [OF ok] by auto
    then show ?thesis using Cons by simp
  qed
  have size: "ucast (maj_size M) = (of_nat (4096 * n) :: u64)" unfolding M'(4) [symmetric] by simp
  have G1: "last_at 0 G \<noteq> 0 \<and> (\<exists>Y. majors h (last_at 0 G) = Some Y)" if "G \<noteq> []"
    by (rule known) (use that in \<open>cases G rule: rev_cases; auto\<close>)
  have H1: "first_at H 0 \<noteq> 0 \<and> (\<exists>Y. mj1 (first_at H 0) = Some Y)" if "H \<noteq> []"
    using known [of "first_at H 0"] that m1 by (cases H) auto
  let ?h = "h\<lparr>l_memRoot := first_at (G @ H) 0, l_bestBet := (if l_bestBet h = a then 0 else l_bestBet h)\<rparr>"
  have 0: "(let h = (if l_memRoot h = a then h\<lparr>l_memRoot := maj_next M\<rparr> else h)
      in if l_bestBet h = a then h\<lparr>l_bestBet := 0\<rparr> else h) = ?h"
    using root by (auto simp: Let_def)
  have 1: "unless_null (maj_prev M) (update_major (maj_prev M) (\<lambda>P. P\<lparr>maj_next := maj_next M\<rparr>)) ?h = Done (?h\<lparr>majors := mj1\<rparr>)"
    using G1 m1 by (cases "G = []") (auto simp: unless_null_def update_major_def get_major_def M')
  have 2: "unless_null (maj_next M) (update_major (maj_next M) (\<lambda>N. N\<lparr>maj_prev := maj_prev M\<rparr>)) (?h\<lparr>majors := mj1\<rparr>) = Done (?h\<lparr>majors := mj2\<rparr>)"
    using H1 m2 by (cases "H = []") (auto simp: unless_null_def update_major_def get_major_def M')
  show ?thesis
    using 0 1 2 unfolding release_major_def Let_def by (simp add: size M'(3) mult.commute)
qed

lemma release_major_ok:
  assumes ok: "heap_ok h (G @ (a, n, []) # H)" and M: "majors h a = Some M"
  shows "\<exists>h' i. release_major a M h = Done h' \<and> heap_ok h' (G @ H) \<and> kbytes h' = kbytes h \<and> liballoc_spinlock h' = liballoc_spinlock h \<and>
    a = page_addr (hpmm h) i \<and> i + n \<le> frames (hpmm h) \<and> {i..<i + n} \<inter> frees (hpmm h) = {} \<and>
    frees (hpmm h') = frees (hpmm h) \<union> {i..<i + n}"
proof -
  note D = heap_okD [OF ok]
  have g: "(a, n, []) \<in> set (G @ (a, n, []) # H)" by simp
  have M': "unat (maj_pages M) = n" using mseg_mid [OF D(3)] M by auto
  obtain i where i: "0 < i" "a = page_addr (hpmm h) i" "i + n \<le> frames (hpmm h)" "{i..<i + n} \<inter> frees (hpmm h) = {}"
    using grp_okD(2) [OF ok g] by (auto simp: in_use_def)
  have n: "unat (ucast (maj_pages M) :: u64) = n" using M' by (simp add: unat_ucast_up)
  obtain pm where pm: "pmm_free_pages a (ucast (maj_pages M)) (hpmm h) = Done pm" "pmm_ok pm" "same_layout (hpmm h) pm"
      "frees pm = frees (hpmm h) \<union> {i..<i + n}"
    using pmm_free_pages_returns [OF D(1), of i "ucast (maj_pages M)" a] i n by auto
  define mj1 where "mj1 = (if G = [] then majors h else (majors h)(last_at 0 G \<mapsto> (the (majors h (last_at 0 G)))\<lparr>maj_next := first_at H 0\<rparr>))"
  define mj2 where "mj2 = (if H = [] then mj1 else mj1(first_at H 0 \<mapsto> (the (mj1 (first_at H 0)))\<lparr>maj_prev := last_at 0 G\<rparr>))"
  define h1 where "h1 = h\<lparr>l_memRoot := first_at (G @ H) 0, l_bestBet := (if l_bestBet h = a then 0 else l_bestBet h), majors := mj2,
       l_allocated := l_allocated h - of_nat (4096 * n)\<rparr>"
  define h' where "h' = (forget a (4096 * n) h1)\<lparr>hpmm := pm\<rparr>"
  have run: "release_major a M h = Done h'"
    using release_major_updates [OF ok M mj1_def mj2_def] pm(1) by (simp add: liballoc_free_def h'_def h1_def)
  have un: "\<not> touches x a (4096 * n)" if "(b, k, cs) \<in> set (G @ H)" "x = b \<or> x \<in> fst ` set cs" for b k cs x
    by (rule untouched_elsewhere [OF ok that]) auto
  have "mseg (majors h') 0 (l_memRoot h') (G @ H) 0"
  proof -
    have "majors h' y = mj2 y" if y: "y \<in> fst ` set (G @ H)" for y
    proof -
      obtain k cs where "(y, k, cs) \<in> set (G @ H)" using y by force
      then show ?thesis using un [of y k cs y] by (simp add: h'_def h1_def)
    qed
    then have "mseg (majors h') 0 (first_at (G @ H) 0) (G @ H) 0"
      using mseg_delete [OF _ heap_addrs_distinct [OF ok] mj1_def] D(3) mseg_first [OF D(3)] by (simp add: mj2_def)
    then show ?thesis by (simp add: h'_def h1_def)
  qed
  moreover have "grp_ok h' g'" if g': "g' \<in> set (G @ H)" for g'
  proof -
    obtain b k cs where b: "g' = (b, k, cs)" by (cases g')
    have old: "(b, k, cs) \<in> set (G @ (a, n, []) # H)" using g' b by auto
    have ap: "apart (b, k, cs) (page_addr (hpmm h) i, n, [])"
      using D(5) g' b i(2) apart_sym unfolding sorted_apart by blast
    have "in_use pm b k"
      by (rule same_layout_in_use [OF grp_okD(2) [OF ok old] pm(3,4) D(1) i(3) grp_okD(1) [OF ok g] grp_okD(1) [OF ok old] ap])
    moreover have "seg (minors h') b 0 (first_at cs 0) cs 0"
      using grp_okD(3) [OF ok old] un [of b k cs] g' b by (subst seg_cong [of _ _ "minors h"]) (auto simp: h'_def h1_def)
    ultimately show ?thesis using b grp_okD(1,4,5) [OF ok old] by (auto simp: grp_ok_def h'_def h1_def pad_ok_def)
  qed
  moreover have "sorted_wrt apart (G @ H)" using D(5) unfolding sorted_apart by blast
  moreover have "l_bestBet h' = 0 \<or> l_bestBet h' \<in> fst ` set (G @ H)" using D(6) by (auto simp: h'_def h1_def)
  moreover have "l_inuse h' = of_nat (inuse_of (G @ H))" "l_allocated h' = of_nat (4096 * pages_of (G @ H))"
    using D(7,8) by (simp_all add: h'_def h1_def algebra_simps)
  moreover have "pmm_ok (hpmm h')" "0 \<notin> frees (hpmm h')" using pm D(2) i(1) by (simp_all add: h'_def)
  ultimately have "heap_ok h' (G @ H)" unfolding heap_ok_def by blast
  then show ?thesis using run i(2-4) pm(4) by (auto simp: h'_def h1_def)
qed

section \<open>A minor is unlinked\<close>

text \<open>The first part of \<open>free_minor\<close>, up to the look at what is left in the major.\<close>
lemma free_minor_updates:
  assumes ok: "heap_ok h (H1 @ (a, n, us @ (x, s, q) # vs) # H2)" and m: "minors h x = Some m" and M: "majors h a = Some M"
    and m1: "mm1 = (if vs = [] then (minors h)(x \<mapsto> m\<lparr>min_magic := LIBALLOC_DEAD\<rparr>)
      else ((minors h)(x \<mapsto> m\<lparr>min_magic := LIBALLOC_DEAD\<rparr>))(first_at vs 0 \<mapsto> (the (minors h (first_at vs 0)))\<lparr>min_prev := last_at 0 us\<rparr>))"
    and m2: "mm2 = (if us = [] then mm1 else mm1(last_at 0 us \<mapsto> (the (minors h (last_at 0 us)))\<lparr>min_next := first_at vs 0\<rparr>))"
    and M': "M' = M\<lparr>maj_usage := maj_usage M - ucast (ucast (min_size m) + sizeof_minor),
      maj_first := (if us = [] then first_at vs 0 else maj_first M)\<rparr>"
    and h': "h' = h\<lparr>l_inuse := l_inuse h - ucast (min_size m), minors := mm2, majors := (majors h)(a \<mapsto> M')\<rparr>"
  shows "free_minor x m h = (if maj_first M' = 0 then release_major a M' h' else better_bet a M' h')"
proof -
  have g: "(a, n, us @ (x, s, q) # vs) \<in> set (H1 @ (a, n, us @ (x, s, q) # vs) # H2)" by simp
  note G = grp_okD [OF ok g] and d = room_distinct [OF grp_okD(4) [OF ok g]]
  have m': "min_prev m = last_at 0 us" "min_next m = first_at vs 0" "min_block m = a" using seg_mid [OF G(3)] m by auto
  have a0: "a \<noteq> 0" using G(7) by auto
  have known: "y \<noteq> 0 \<and> (\<exists>Y. minors h y = Some Y) \<and> y \<noteq> x" if y: "y \<in> fst ` set (us @ vs)" for y
  proof -
    obtain t r where "(y, t, r) \<in> set (us @ (x, s, q) # vs)" using y by force
    then have "y \<noteq> 0 \<and> (\<exists>Y. minors h y = Some Y)" using seg_in [OF G(3)] by blast
    moreover have "y \<noteq> x" using y d by auto
    ultimately show ?thesis by blast
  qed
  have x0: "x \<noteq> 0" using seg_in [OF G(3), of x s q] by simp
  have v: "first_at vs 0 \<noteq> 0 \<and> (\<exists>Y. minors h (first_at vs 0) = Some Y) \<and> first_at vs 0 \<noteq> x" if "vs \<noteq> []"
    by (rule known) (use that in \<open>cases vs; auto\<close>)
  have u: "last_at 0 us \<noteq> 0 \<and> (\<exists>Y. minors h (last_at 0 us) = Some Y) \<and> last_at 0 us \<noteq> x" if "us \<noteq> []"
    by (rule known) (use that in \<open>cases us rule: rev_cases; auto\<close>)
  have uv: "last_at 0 us \<noteq> first_at vs 0" if "us \<noteq> []" "vs \<noteq> []"
    using d that by (cases us rule: rev_cases; cases vs) auto
  let ?h = "h\<lparr>l_inuse := l_inuse h - ucast (min_size m)\<rparr>"
  let ?M = "M\<lparr>maj_usage := maj_usage M - ucast (ucast (min_size m) + sizeof_minor)\<rparr>"
  let ?h1 = "?h\<lparr>majors := (majors h)(a \<mapsto> ?M)\<rparr>"
  have 1: "update_major (min_block m) (\<lambda>M. M\<lparr>maj_usage := maj_usage M - ucast (ucast (min_size m) + sizeof_minor)\<rparr>) ?h = Done ?h1"
    using M a0 by (simp add: update_major_def get_major_def m')
  have 2: "update_minor x (\<lambda>m. m\<lparr>min_magic := LIBALLOC_DEAD\<rparr>) ?h1 = Done (?h1\<lparr>minors := (minors h)(x \<mapsto> m\<lparr>min_magic := LIBALLOC_DEAD\<rparr>)\<rparr>)"
    using m x0 by (simp add: update_minor_def get_minor_def)
  have 3: "unless_null (min_next m) (update_minor (min_next m) (\<lambda>n. n\<lparr>min_prev := min_prev m\<rparr>))
      (?h1\<lparr>minors := (minors h)(x \<mapsto> m\<lparr>min_magic := LIBALLOC_DEAD\<rparr>)\<rparr>) = Done (?h1\<lparr>minors := mm1\<rparr>)"
    using v m1 by (cases "vs = []") (auto simp: unless_null_def update_minor_def get_minor_def m')
  have 4: "unless_null (min_prev m) (update_minor (min_prev m) (\<lambda>p. p\<lparr>min_next := min_next m\<rparr>)) (?h1\<lparr>minors := mm1\<rparr>) = Done (?h1\<lparr>minors := mm2\<rparr>)"
  proof (cases "us = []")
    case False
    have "mm1 (last_at 0 us) = minors h (last_at 0 us)" using u [OF False] uv [OF False] m1 by (cases "vs = []") auto
    then show ?thesis using u [OF False] False m2 by (auto simp: unless_null_def update_minor_def get_minor_def m')
  qed (simp add: unless_null_def m' m2)
  have 5: "(if min_prev m = 0 then update_major (min_block m) (\<lambda>M. M\<lparr>maj_first := min_next m\<rparr>) (?h1\<lparr>minors := mm2\<rparr>) else Done (?h1\<lparr>minors := mm2\<rparr>)) = Done h'"
    using a0 u M' h' by (cases "us = []") (auto simp: update_major_def get_major_def m')
  have 6: "get_major (min_block m) h' = Done M'" using a0 h' by (simp add: get_major_def m')
  show ?thesis unfolding free_minor_def 1 bind_oc.simps 2 3 4 5 6 by (simp add: m')
qed

lemma header_elsewhere:
  assumes ok: "heap_ok h (H1 @ (a, n, bs) # H2)" and g: "(b, k, cs) \<in> set (H1 @ H2)" and y: "y \<in> fst ` set cs" and z: "z \<in> fst ` set bs"
  shows "y \<noteq> z"
proof -
  obtain t p where t: "(z, t, p) \<in> set bs" using z by force
  have "room (unat a + 40) (unat a + 4096 * n) bs" by (rule grp_okD(4) [OF ok]) simp
  then have "\<not> touches y z 1" using room_in [OF _ t] y by (intro untouched_elsewhere [OF ok g]) fastforce+
  then show ?thesis by (auto simp: touches_def)
qed

text \<open>Without the minor the heap is in order again; the major may be empty now.\<close>
lemma unlinked_ok:
  assumes ok: "heap_ok h (H1 @ (a, n, us @ (x, s, q) # vs) # H2)" and m: "minors h x = Some m" and M: "majors h a = Some M"
    and m1: "mm1 = (if vs = [] then (minors h)(x \<mapsto> m\<lparr>min_magic := LIBALLOC_DEAD\<rparr>)
      else ((minors h)(x \<mapsto> m\<lparr>min_magic := LIBALLOC_DEAD\<rparr>))(first_at vs 0 \<mapsto> (the (minors h (first_at vs 0)))\<lparr>min_prev := last_at 0 us\<rparr>))"
    and m2: "mm2 = (if us = [] then mm1 else mm1(last_at 0 us \<mapsto> (the (minors h (last_at 0 us)))\<lparr>min_next := first_at vs 0\<rparr>))"
    and M': "M' = M\<lparr>maj_usage := maj_usage M - ucast (ucast (min_size m) + sizeof_minor),
      maj_first := (if us = [] then first_at vs 0 else maj_first M)\<rparr>"
    and h': "h' = h\<lparr>l_inuse := l_inuse h - ucast (min_size m), minors := mm2, majors := (majors h)(a \<mapsto> M')\<rparr>"
  shows "heap_ok h' (H1 @ (a, n, us @ vs) # H2)" and "maj_first M' = first_at (us @ vs) 0"
proof -
  let ?H = "H1 @ (a, n, us @ (x, s, q) # vs) # H2" and ?H' = "H1 @ (a, n, us @ vs) # H2"
  have g: "(a, n, us @ (x, s, q) # vs) \<in> set ?H" by simp
  note D = heap_okD [OF ok] and G = grp_okD [OF ok g] and d = room_distinct [OF grp_okD(4) [OF ok g]]
  have sm: "unat (min_size m) = s" using seg_mid [OF G(3)] m by auto
  have F: "unat (maj_size M) = 4096 * n" "unat (maj_usage M) = 40 + used (us @ (x, s, q) # vs)" "maj_first M = first_at (us @ (x, s, q) # vs) 0"
    using mseg_mid [OF D(3)] M by auto
  have r: "room (unat a + 40) (unat a + 4096 * n) (us @ vs)"
  proof (cases vs)
    case Nil
    then show ?thesis using G(4) room_wider [of "unat a + 40" "unat x" us "unat a + 40" "unat a + 4096 * n"] by (auto simp: room_append)
  next
    case (Cons v vs')
    obtain y t p where "v = (y, t, p)" by (cases v)
    then show ?thesis using G(4) Cons room_wider [of "unat a + 40" "unat x" us "unat a + 40" "unat y"] by (auto simp: room_append)
  qed
  show first: "maj_first M' = first_at (us @ vs) 0" using F(3) M' by (cases us) auto
  have "unat (ucast (ucast (min_size m) + sizeof_minor :: u64) :: u32) = s + 40"
  proof -
    have b: "unat (maj_usage M) < 2 ^ 32" using unat_less [of "maj_usage M"] by simp
    have "unat (ucast (min_size m) + sizeof_minor :: u64) = s + 40"
      using sm b F(2) by (subst unat_add_nowrap) (simp_all add: unat_ucast_up sizeof_minor_def)
    then show ?thesis using b F(2) by (simp add: unat_ucast_mod)
  qed
  then have us: "unat (maj_usage M') = 40 + used (us @ vs)"
    using F(2) M' by (simp add: unat_diff_nowrap word_le_nat_alt)
  show "heap_ok h' ?H'"
    unfolding heap_ok_def
  proof (intro conjI ballI)
    show "pmm_ok (hpmm h')" "0 \<notin> frees (hpmm h')" using D(1,2) by (simp_all add: h')
    show "mseg (majors h') 0 (l_memRoot h') ?H' 0"
      using mseg_replace [OF D(3) heap_addr_once [OF ok] M _ _ _ _ us first] by (simp add: h' M')
    show "sorted_wrt apart ?H'" using D(5) sorted_apart_blocks [of H1 a n _ H2 "us @ vs"] by blast
    show "l_bestBet h' = 0 \<or> l_bestBet h' \<in> fst ` set ?H'" using D(6) by (auto simp: h')
    have "(ucast (min_size m) :: u64) = of_nat s" unfolding sm [symmetric] by simp
    then show "l_inuse h' = of_nat (inuse_of ?H')" "l_allocated h' = of_nat (4096 * pages_of ?H')"
      using D(7,8) by (simp_all add: h' algebra_simps)
  next
    fix g' assume g': "g' \<in> set ?H'"
    show "grp_ok h' g'"
    proof (cases "g' = (a, n, us @ vs)")
      case True
      have "y \<noteq> x" if "y \<in> fst ` set (us @ vs)" for y using that d by auto
      then have "seg mm2 a 0 (first_at (us @ vs) 0) (us @ vs) 0"
        using seg_delete [OF G(3) d _ m1 m2] by simp
      then show ?thesis using True G(1,2,5) r by (auto simp: grp_ok_def h' pad_ok_def)
    next
      case False
      obtain b k cs where b: "g' = (b, k, cs)" by (cases g')
      then have gh: "(b, k, cs) \<in> set (H1 @ H2)" using g' False by auto
      then have old: "(b, k, cs) \<in> set ?H" by auto
      have "minors h' y = minors h y" if y: "y \<in> fst ` set cs" for y
      proof -
        have "y \<noteq> z" if "z \<in> fst ` set (us @ (x, s, q) # vs)" for z
          using header_elsewhere [OF ok gh y that] .
        moreover have "first_at vs 0 \<in> fst ` set (us @ (x, s, q) # vs)" if "vs \<noteq> []" using that by (cases vs) auto
        moreover have "last_at 0 us \<in> fst ` set (us @ (x, s, q) # vs)" if "us \<noteq> []" using that by (cases us rule: rev_cases) auto
        moreover have "x \<in> fst ` set (us @ (x, s, q) # vs)" by simp
        ultimately have "y \<noteq> x" "vs \<noteq> [] \<Longrightarrow> y \<noteq> first_at vs 0" "us \<noteq> [] \<Longrightarrow> y \<noteq> last_at 0 us" by blast+
        then show ?thesis by (simp add: h' m1 m2)
      qed
      then have "seg (minors h') b 0 (first_at cs 0) cs 0" using grp_okD(3) [OF ok old] by (subst seg_cong) auto
      then show ?thesis using b grp_okD(1,2,4,5) [OF ok old] by (auto simp: grp_ok_def h' pad_ok_def)
    qed
  qed
qed

lemma better_bet_ok:
  assumes ok: "heap_ok h (H1 @ (a, n, bs) # H2)"
  shows "\<exists>h'. better_bet a M h = Done h' \<and> heap_ok h' (H1 @ (a, n, bs) # H2) \<and> kbytes h' = kbytes h \<and>
    liballoc_spinlock h' = liballoc_spinlock h \<and> hpmm h' = hpmm h"
proof (cases "l_bestBet h = 0")
  case False
  then have "l_bestBet h \<in> fst ` set (H1 @ (a, n, bs) # H2)" using heap_okD(6) [OF ok] by blast
  then obtain k cs where "(l_bestBet h, k, cs) \<in> set (H1 @ (a, n, bs) # H2)" by (metis (no_types, lifting) imageE prod.collapse)
  then obtain G H where H: "H1 @ (a, n, bs) # H2 = G @ (l_bestBet h, k, cs) # H" by (meson split_list)
  obtain B where "get_major (l_bestBet h) h = Done B" using major_facts [OF ok [unfolded H]] by blast
  then show ?thesis using False heap_ok_bet [OF ok, of a] ok by (simp add: better_bet_def)
qed (use ok in \<open>simp add: better_bet_def\<close>)

text \<open>A block is taken back: it alone is gone, and an empty major gives its pages back.\<close>
lemma free_minor_ok:
  assumes ok: "heap_ok h (H1 @ (a, n, us @ (x, s, q) # vs) # H2)" and m: "minors h x = Some m"
  shows "\<exists>h' H'. free_minor x m h = Done h' \<and> heap_ok h' H' \<and> all_blocks H' = all_blocks (H1 @ (a, n, us @ vs) # H2) \<and>
    kbytes h' = kbytes h \<and> liballoc_spinlock h' = liballoc_spinlock h \<and>
    (if us @ vs = []
     then \<exists>i. a = page_addr (hpmm h) i \<and> i + n \<le> frames (hpmm h) \<and> {i..<i + n} \<inter> frees (hpmm h) = {} \<and>
      frees (hpmm h') = frees (hpmm h) \<union> {i..<i + n}
     else hpmm h' = hpmm h)"
proof -
  obtain M where M: "majors h a = Some M" using major_facts [OF ok] by blast
  define mm1 where "mm1 = (if vs = [] then (minors h)(x \<mapsto> m\<lparr>min_magic := LIBALLOC_DEAD\<rparr>)
      else ((minors h)(x \<mapsto> m\<lparr>min_magic := LIBALLOC_DEAD\<rparr>))(first_at vs 0 \<mapsto> (the (minors h (first_at vs 0)))\<lparr>min_prev := last_at 0 us\<rparr>))"
  define mm2 where "mm2 = (if us = [] then mm1 else mm1(last_at 0 us \<mapsto> (the (minors h (last_at 0 us)))\<lparr>min_next := first_at vs 0\<rparr>))"
  define M' where "M' = M\<lparr>maj_usage := maj_usage M - ucast (ucast (min_size m) + sizeof_minor),
      maj_first := (if us = [] then first_at vs 0 else maj_first M)\<rparr>"
  define h1 where "h1 = h\<lparr>l_inuse := l_inuse h - ucast (min_size m), minors := mm2, majors := (majors h)(a \<mapsto> M')\<rparr>"
  note run = free_minor_updates [OF ok m M mm1_def mm2_def M'_def h1_def]
  note ok1 = unlinked_ok [OF ok m M mm1_def mm2_def M'_def h1_def]
  have M1: "majors h1 a = Some M'" and same: "kbytes h1 = kbytes h" "liballoc_spinlock h1 = liballoc_spinlock h" "hpmm h1 = hpmm h"
    by (simp_all add: h1_def)
  show ?thesis
  proof (cases "us @ vs = []")
    case True
    then have "maj_first M' = 0" using ok1(2) by simp
    moreover obtain h' i where "release_major a M' h1 = Done h'" "heap_ok h' (H1 @ H2)" "kbytes h' = kbytes h1"
        "liballoc_spinlock h' = liballoc_spinlock h1" "a = page_addr (hpmm h1) i"
        "i + n \<le> frames (hpmm h1)" "{i..<i + n} \<inter> frees (hpmm h1) = {}" "frees (hpmm h') = frees (hpmm h1) \<union> {i..<i + n}"
      using release_major_ok [of h1 H1 a n H2 M'] ok1(1) True M1 by auto
    ultimately show ?thesis using run True same by (intro exI [of _ h'] exI [of _ "H1 @ H2"]) auto
  next
    case False
    have g: "(a, n, us @ vs) \<in> set (H1 @ (a, n, us @ vs) # H2)" by simp
    obtain y t r bs where y: "us @ vs = (y, t, r) # bs" using False by (cases "us @ vs") auto
    then have "first_at (us @ vs) 0 \<noteq> 0" using seg_in [OF grp_okD(3) [OF ok1(1) g], of y t r] by simp
    moreover obtain h' where "better_bet a M' h1 = Done h'" "heap_ok h' (H1 @ (a, n, us @ vs) # H2)" "kbytes h' = kbytes h1"
        "liballoc_spinlock h' = liballoc_spinlock h1" "hpmm h' = hpmm h1"
      using better_bet_ok [OF ok1(1)] by blast
    ultimately show ?thesis using run ok1(2) False same by (intro exI [of _ h'] exI [of _ "H1 @ (a, n, us @ vs) # H2"]) auto
  qed
qed

text \<open>
  What \<open>kfree\<close> does: the block leaves its group, and a group that held this block alone goes back to
  the page allocator with all its pages.
\<close>
lemma kfree_gives_pages:
  assumes ok: "heap_ok h H" and free: "liballoc_spinlock h = spinlock_init" and p: "(p, k) \<in> live H"
  shows "\<exists>h' H' a n bs x s. kfree p h = Done h' \<and> heap_ok h' H' \<and> live H' = live H - {(p, k)} \<and> kbytes h' = kbytes h \<and>
    liballoc_spinlock h' = spinlock_init \<and>
    (a, n, bs) \<in> set H \<and> (x, s, k) \<in> set bs \<and> p = uptr x \<and>
    (if bs = [(x, s, k)]
     then \<exists>i. a = page_addr (hpmm h) i \<and> i + n \<le> frames (hpmm h) \<and> {i..<i + n} \<inter> frees (hpmm h) = {} \<and>
            frees (hpmm h') = frees (hpmm h) \<union> {i..<i + n}
     else hpmm h' = hpmm h)"
proof -
  obtain x s where x: "(x, s, k) \<in> set (all_blocks H)" "p = uptr x" using p by (auto simp: live_def)
  then obtain a n bs where "(a, n, bs) \<in> set H" "(x, s, k) \<in> set bs" by (auto simp: all_blocks_def)
  then obtain H1 H2 us vs where H: "H = H1 @ (a, n, us @ (x, s, k) # vs) # H2" by (metis split_list)
  let ?h = "h\<lparr>liballoc_spinlock := 1\<rparr>"
  note B = block_bounds [OF ok x(1)]
  have ok1: "heap_ok ?h (H1 @ (a, n, us @ (x, s, k) # vs) # H2)" using ok H by (auto simp: heap_ok_def grp_ok_def pad_ok_def)
  have "(a, n, us @ (x, s, k) # vs) \<in> set (H1 @ (a, n, us @ (x, s, k) # vs) # H2)" by simp
  from seg_mid [OF grp_okD(3) [OF ok1 this]] obtain m where m: "minors ?h x = Some m" "min_magic m = LIBALLOC_MAGIC" by blast
  obtain h' H' where r: "free_minor x m ?h = Done h'" "heap_ok h' H'" "all_blocks H' = all_blocks (H1 @ (a, n, us @ vs) # H2)"
      "kbytes h' = kbytes ?h"
      "if us @ vs = []
       then \<exists>i. a = page_addr (hpmm ?h) i \<and> i + n \<le> frames (hpmm ?h) \<and> {i..<i + n} \<inter> frees (hpmm ?h) = {} \<and>
         frees (hpmm h') = frees (hpmm ?h) \<union> {i..<i + n}
       else hpmm h' = hpmm ?h"
    using free_minor_ok [OF ok1 m(1)] by blast
  have "p \<noteq> 0" using B x(2) by auto
  moreover have "unalign_ptr p h - sizeof_minor = x" using unalign_uptr [OF B(2,4)] x(2) by (simp add: sizeof_minor_def)
  moreover have "liballoc_lock h = Done ?h" using free by (simp add: liballoc_lock_def spin_once_def spinlock_init_def)
  moreover have "get_minor x ?h = Done m" using m(1) B(8) by (simp add: get_minor_def)
  ultimately have "kfree p h = Done (liballoc_unlock h')" using r(1) m(2) by (simp add: kfree_def Let_def)
  moreover have "heap_ok (liballoc_unlock h') H'" using r(2) by (auto simp: heap_ok_def grp_ok_def pad_ok_def liballoc_unlock_def)
  moreover have "live H' = live H - {(p, k)}"
  proof -
    have l: "live H' = live (H1 @ (a, n, us @ vs) # H2)" using r(3) by (simp add: live_def)
    have "(p, k) \<notin> live H'" using live_apart(2) [OF ok [unfolded H]] x(2) unfolding l by blast
    moreover have "live H = insert (p, k) (live H')" unfolding l H using x(2) by (auto simp: live_def)
    ultimately show ?thesis by blast
  qed
  moreover have "kbytes (liballoc_unlock h') = kbytes h" "liballoc_spinlock (liballoc_unlock h') = spinlock_init"
    using r(4) by (simp_all add: liballoc_unlock_def spinlock_release_def spinlock_init_def)
  moreover have "if us @ (x, s, k) # vs = [(x, s, k)]
     then \<exists>i. a = page_addr (hpmm h) i \<and> i + n \<le> frames (hpmm h) \<and> {i..<i + n} \<inter> frees (hpmm h) = {} \<and>
            frees (hpmm (liballoc_unlock h')) = frees (hpmm h) \<union> {i..<i + n}
     else hpmm (liballoc_unlock h') = hpmm h"
  proof (cases "us @ vs = []")
    case True
    then show ?thesis using r(5) by (auto simp: liballoc_unlock_def)
  next
    case False
    then have "us @ (x, s, k) # vs \<noteq> [(x, s, k)]" by (cases us) auto
    then show ?thesis using r(5) False by (simp add: liballoc_unlock_def)
  qed
  moreover have "(a, n, us @ (x, s, k) # vs) \<in> set H" "(x, s, k) \<in> set (us @ (x, s, k) # vs)" by (simp_all add: H)
  ultimately show ?thesis using x(2) by blast
qed

lemma kfree_takes_one:
  assumes ok: "heap_ok h H" and free: "liballoc_spinlock h = spinlock_init" and p: "(p, k) \<in> live H"
  shows "\<exists>h' H'. kfree p h = Done h' \<and> heap_ok h' H' \<and> live H' = live H - {(p, k)} \<and> kbytes h' = kbytes h \<and>
    liballoc_spinlock h' = spinlock_init \<and> frees (hpmm h) \<subseteq> frees (hpmm h')"
proof -
  have sub: "A \<subseteq> B" if "B = A \<union> C" for A B C :: "nat set" using that by blast
  show ?thesis
    using kfree_gives_pages [OF assms] by (elim exE conjE) (auto intro: sub split: if_splits)
qed

text \<open>
  C11. \<open>kfree\<close> of a pointer that was handed out takes back that block and no other: it returns, no byte
  of memory behind a pointer changes, the headers and accounts stay in order and the lock is free
  again.  If the block was the only one of its major, exactly the pages of that major become free in
  the page allocator; otherwise the page allocator is not touched.
\<close>
theorem kfree_takes_back:
  assumes ok: "heap_ok h H" and free: "liballoc_spinlock h = spinlock_init" and p: "(p, k) \<in> live H"
  shows "\<exists>h' H' a n bs x s. kfree p h = Done h' \<and> heap_ok h' H' \<and> live H' = live H - {(p, k)} \<and> kbytes h' = kbytes h \<and>
    liballoc_spinlock h' = spinlock_init \<and>
    (a, n, bs) \<in> set H \<and> (x, s, k) \<in> set bs \<and> p = uptr x \<and>
    (if bs = [(x, s, k)]
     then \<exists>i. a = page_addr (hpmm h) i \<and> i + n \<le> frames (hpmm h) \<and> {i..<i + n} \<inter> frees (hpmm h) = {} \<and>
            frees (hpmm h') = frees (hpmm h) \<union> {i..<i + n}
     else hpmm h' = hpmm h)"
  by (rule kfree_gives_pages [OF assms])

theorem kfree_takes_back_witness:
  "\<exists>p h' h'' H'. kmalloc 100 demo_heap = Done (p, h') \<and> kfree p h' = Done h'' \<and> heap_ok h'' H' \<and> live H' = {}"
proof -
  have "liballoc_spinlock demo_heap = spinlock_init" by (simp add: demo_heap_def)
  then obtain p h' H' where a: "kmalloc 100 demo_heap = Done (p, h')" "heap_ok h' H'" "live H' = {(p, 100)}" "liballoc_spinlock h' = spinlock_init"
    using kmalloc_serves [OF demo_heap_ok, of 100] demo_heap_pages by (auto simp: live_def)
  moreover have "(p, 100) \<in> live H'" using a(3) by simp
  ultimately obtain h'' H'' where "kfree p h' = Done h''" "heap_ok h'' H''" "live H'' = live H' - {(p, 100)}"
    using kfree_takes_back [OF a(2,4), of p 100] by blast
  then show ?thesis using a by auto
qed

end
