(* ===== verification/LiballocUse.thy ===== *)
theory LiballocUse
  imports LiballocFree
begin

text \<open>
  The allocator and its clients: a run of calls and of writes to the memory that was handed out.  Whatever
  the clients do inside their blocks, the blocks stay apart and the next call finds the headers in order.
  Then \<open>kcalloc\<close> and \<open>krealloc\<close>, which are clients of \<open>kmalloc\<close> and \<open>kfree\<close>.
\<close>

section \<open>Writes to blocks\<close>

text \<open>The address \<open>a\<close> is one of the \<open>n\<close> from \<open>p\<close> on.\<close>
definition within :: "u64 \<Rightarrow> u64 \<Rightarrow> nat \<Rightarrow> bool" where
  "within a p n \<longleftrightarrow> unat p \<le> unat a \<and> unat a < unat p + n"

lemma block_split:
  assumes "b \<in> set (all_blocks H)"
  shows "\<exists>H1 a n us vs H2. H = H1 @ (a, n, us @ b # vs) # H2"
proof -
  obtain a n bs where "(a, n, bs) \<in> set H" "b \<in> set bs" using assms by (auto simp: all_blocks_def)
  then show ?thesis by (metis split_list)
qed

lemma blocks_apart:
  assumes ok: "heap_ok h H" and x: "(x, s, q) \<in> set (all_blocks H)" and y: "(y, t, r) \<in> set (all_blocks H)" and ne: "(x, s, q) \<noteq> (y, t, r)"
  shows "unat y + 40 + t \<le> unat x \<or> unat x + 40 + s \<le> unat y"
proof -
  obtain H1 a n us vs H2 where H: "H = H1 @ (a, n, us @ (x, s, q) # vs) # H2" using block_split [OF x] by blast
  then have "(y, t, r) \<in> set (all_blocks (H1 @ (a, n, us @ vs) # H2))" using y ne by auto
  then show ?thesis by (rule spread_apart [OF heap_spread [OF ok [unfolded H]]])
qed

lemma live_disjoint:
  assumes ok: "heap_ok h H" and p: "(p, k) \<in> live H" and q: "(q, j) \<in> live H" and ne: "(p, k) \<noteq> (q, j)"
  shows "unat p + k \<le> unat q \<or> unat q + j \<le> unat p"
proof -
  obtain x s y t where b: "(x, s, k) \<in> set (all_blocks H)" "p = uptr x" "(y, t, j) \<in> set (all_blocks H)" "q = uptr y"
    using p q by (auto simp: live_def)
  then have "unat y + 40 + t \<le> unat x \<or> unat x + 40 + s \<le> unat y" using blocks_apart [OF ok b(1,3)] ne by blast
  then show ?thesis using block_bounds [OF ok b(1)] block_bounds [OF ok b(3)] b(2,4) by auto
qed

lemma live_bounds:
  assumes ok: "heap_ok h H" and p: "(p, k) \<in> live H"
  shows "p \<noteq> 0" "16 dvd unat p" "unat p + k < 2 ^ 64"
proof -
  obtain x s where b: "(x, s, k) \<in> set (all_blocks H)" "p = uptr x" using p by (auto simp: live_def)
  note B = block_bounds [OF ok b(1)]
  show "p \<noteq> 0" using B b(2) by auto
  show "16 dvd unat p" using uptr_range(3) [OF B(2)] b(2) by simp
  show "unat p + k < 2 ^ 64" using B b(2) by simp
qed

lemma heap_ok_write:
  assumes ok: "heap_ok h H" and w: "\<And>a. (\<And>p k. (p, k) \<in> live H \<Longrightarrow> \<not> within a p k) \<Longrightarrow> b a = kbytes h a"
  shows "heap_ok (h\<lparr>kbytes := b\<rparr>) H"
proof -
  have "pad_ok (h\<lparr>kbytes := b\<rparr>) x" if x: "(x, s, q) \<in> set (all_blocks H)" for x s q
  proof -
    have "\<not> within (uptr x - 16) p k" if p: "(p, k) \<in> live H" for p k
    proof -
      obtain y t where y: "(y, t, k) \<in> set (all_blocks H)" "p = uptr y" using p by (auto simp: live_def)
      have "(x, s, q) = (y, t, k) \<or> unat y + 40 + t \<le> unat x \<or> unat x + 40 + s \<le> unat y" using blocks_apart [OF ok x y(1)] by blast
      then show ?thesis using block_bounds [OF ok x] block_bounds [OF ok y(1)] y(2) by (auto simp: within_def)
    qed
    then have "b (uptr x - 16) = kbytes h (uptr x - 16)" by (rule w)
    then show ?thesis using block_bounds(4) [OF ok x] by (simp add: pad_ok_def)
  qed
  then have pads: "pad_ok (h\<lparr>kbytes := b\<rparr>) x" if "x \<in> fst ` set bs" "(a, n, bs) \<in> set H" for x a n bs
    using that by (force simp: all_blocks_def)
  have "grp_ok (h\<lparr>kbytes := b\<rparr>) g" if g: "g \<in> set H" for g
  proof -
    obtain a n bs where b: "g = (a, n, bs)" by (cases g)
    then have "grp_ok h (a, n, bs)" using heap_okD(4) [OF ok g] by simp
    then show ?thesis using pads [of _ bs a n] g b by (simp add: grp_ok_def)
  qed
  then show ?thesis using ok by (simp add: heap_ok_def)
qed

section \<open>Runs\<close>

text \<open>
  The state of the allocator and what is handed out, after any number of calls, writes of the clients to their blocks, and
  pages taken from the page allocator by others.
\<close>
inductive alloc_run :: "kheap \<Rightarrow> (u64 \<times> nat) set \<Rightarrow> bool" where
  empty: "heap_ok h [] \<Longrightarrow> liballoc_spinlock h = spinlock_init \<Longrightarrow> alloc_run h {}"
| malloc: "alloc_run h L \<Longrightarrow> unat req + 4208 \<le> 2 ^ 32 \<Longrightarrow> kmalloc req h = Done (p, h') \<Longrightarrow> alloc_run h' (insert (p, unat req) L)"
| free: "alloc_run h L \<Longrightarrow> (p, k) \<in> L \<Longrightarrow> kfree p h = Done h' \<Longrightarrow> alloc_run h' (L - {(p, k)})"
| store: "alloc_run h L \<Longrightarrow> (\<And>a. (\<And>p k. (p, k) \<in> L \<Longrightarrow> \<not> within a p k) \<Longrightarrow> b a = kbytes h a) \<Longrightarrow> alloc_run (h\<lparr>kbytes := b\<rparr>) L"
| pages: "alloc_run h L \<Longrightarrow> pmm_ok pm \<Longrightarrow> same_layout (hpmm h) pm \<Longrightarrow> frees pm \<subseteq> frees (hpmm h) \<Longrightarrow> alloc_run (h\<lparr>hpmm := pm\<rparr>) L"

lemma alloc_run_ok: "alloc_run h L \<Longrightarrow> \<exists>H. heap_ok h H \<and> live H = L \<and> liballoc_spinlock h = spinlock_init"
proof (induction rule: alloc_run.induct)
  case (empty h)
  then show ?case by (intro exI [of _ "[]"]) (simp add: live_def)
next
  case (malloc h L req p h')
  then obtain H where "heap_ok h H" "live H = L" "liballoc_spinlock h = spinlock_init" by blast
  then show ?case using kmalloc_serves [of h H req] malloc.hyps by auto
next
  case (free h L p k h')
  then obtain H where H: "heap_ok h H" "live H = L" "liballoc_spinlock h = spinlock_init" by blast
  then show ?case using kfree_takes_one [OF H(1,3), of p k] free.hyps by auto
next
  case (store h L b)
  then obtain H where H: "heap_ok h H" "live H = L" "liballoc_spinlock h = spinlock_init" by blast
  then have "heap_ok (h\<lparr>kbytes := b\<rparr>) H" using store.hyps by (intro heap_ok_write) auto
  then show ?case using H by auto
next
  case (pages h L pm)
  then obtain H where H: "heap_ok h H" "live H = L" "liballoc_spinlock h = spinlock_init" by blast
  have "grp_ok (h\<lparr>hpmm := pm\<rparr>) g" if "g \<in> set H" for g
    using heap_okD(4) [OF H(1) that] in_use_later [OF _ pages.hyps(3,4)] by (auto simp: grp_ok_def pad_ok_def split: prod.splits)
  then have "heap_ok (h\<lparr>hpmm := pm\<rparr>) H" using H(1) pages.hyps unfolding heap_ok_def by auto
  then show ?case using H by auto
qed

text \<open>
  C9. Along every run of calls and writes, whatever the clients write into their blocks: the blocks that are handed out are
  aligned and apart from each other, the next \<open>kmalloc\<close> returns or waits for pages but never goes astray, and the next \<open>kfree\<close> of one of them returns.
\<close>
theorem heap_clients_safe:
  assumes run: "alloc_run h L"
  shows "(\<forall>(p, k) \<in> L. p \<noteq> 0 \<and> 16 dvd unat p \<and> unat p + k < 2 ^ 64 \<and> (\<exists>h'. kfree p h = Done h' \<and> alloc_run h' (L - {(p, k)})) \<and>
      (\<forall>(q, j) \<in> L. (q, j) = (p, k) \<or> unat p + k \<le> unat q \<or> unat q + j \<le> unat p)) \<and>
    (\<forall>req. unat req + 4208 \<le> 2 ^ 32 \<longrightarrow> kmalloc req h = Halts \<or>
      (\<exists>p h'. kmalloc req h = Done (p, h') \<and> p \<noteq> 0 \<and> p \<notin> fst ` L \<and> alloc_run h' (insert (p, unat req) L)))"
proof -
  obtain H where H: "heap_ok h H" "live H = L" "liballoc_spinlock h = spinlock_init" using alloc_run_ok [OF run] by blast
  have f: "\<exists>h'. kfree p h = Done h' \<and> alloc_run h' (L - {(p, k)})" if "(p, k) \<in> L" for p k
    using kfree_takes_one [OF H(1,3), of p k] that H(2) alloc_run.free [OF run that] by blast
  have m: "kmalloc req h = Halts \<or> (\<exists>p h'. kmalloc req h = Done (p, h') \<and> p \<noteq> 0 \<and> p \<notin> fst ` L \<and> alloc_run h' (insert (p, unat req) L))"
    if req: "unat req + 4208 \<le> 2 ^ 32" for req
    using kmalloc_serves [OF H(1,3) req]
  proof (elim disjE exE conjE)
    fix p h' assume r: "kmalloc req h = Done (p, h')" "p \<noteq> 0" and l: "\<forall>(q, k) \<in> live H. q \<noteq> p \<and> (unat q + k \<le> unat p \<or> unat p + unat req \<le> unat q) \<and>
          (\<forall>i < k. kbytes h' (q + of_nat i) = kbytes h (q + of_nat i))"
    then have "p \<notin> fst ` L" using H(2) by auto
    then show ?thesis using r alloc_run.malloc [OF run req r(1)] by blast
  qed simp
  show ?thesis
  proof (intro conjI allI impI)
    show "\<forall>(p, k) \<in> L. p \<noteq> 0 \<and> 16 dvd unat p \<and> unat p + k < 2 ^ 64 \<and> (\<exists>h'. kfree p h = Done h' \<and> alloc_run h' (L - {(p, k)})) \<and>
      (\<forall>(q, j) \<in> L. (q, j) = (p, k) \<or> unat p + k \<le> unat q \<or> unat q + j \<le> unat p)"
    proof clarify
      fix p k assume p: "(p, k) \<in> L"
      have "\<forall>(q, j) \<in> L. (q, j) = (p, k) \<or> unat p + k \<le> unat q \<or> unat q + j \<le> unat p"
        using live_disjoint [OF H(1), of p k] p H(2) by blast
      then show "p \<noteq> 0 \<and> 16 dvd unat p \<and> unat p + k < 2 ^ 64 \<and> (\<exists>h'. kfree p h = Done h' \<and> alloc_run h' (L - {(p, k)})) \<and>
          (\<forall>(q, j) \<in> L. (q, j) = (p, k) \<or> unat p + k \<le> unat q \<or> unat q + j \<le> unat p)"
        using live_bounds [OF H(1), of p k] f [OF p] p H(2) by blast
    qed
  qed (rule m)
qed

theorem heap_clients_safe_witness:
  "\<exists>p h h'. alloc_run h {(p, 100)} \<and> 16 dvd unat p \<and> kfree p h = Done h'"
proof -
  have l: "liballoc_spinlock demo_heap = spinlock_init" by (simp add: demo_heap_def)
  obtain p h where a: "kmalloc 100 demo_heap = Done (p, h)" using kmalloc_serves [OF demo_heap_ok l, of 100] demo_heap_pages by auto
  have "alloc_run h (insert (p, unat (100 :: u64)) {})" by (rule alloc_run.malloc [OF alloc_run.empty [OF demo_heap_ok l] _ a]) simp
  then have "alloc_run h {(p, 100)}" by simp
  then show ?thesis using heap_clients_safe [of h "{(p, 100)}"] by auto
qed

section \<open>Clearing and copying\<close>

lemma memset_bytes:
  "kbytes (liballoc_memset p c n h) a = (if \<exists>i < n. a = p + of_nat i then c else kbytes h a)"
  "\<exists>b. liballoc_memset p c n h = h\<lparr>kbytes := b\<rparr>"
proof (induction n)
  case 0
  { case 1 show ?case by (simp add: liballoc_memset_def) }
  { case 2 show ?case by (auto simp: liballoc_memset_def intro: exI [of _ "kbytes h"]) }
next
  case (Suc n)
  { case 1 show ?case using Suc by (auto simp: liballoc_memset_def less_Suc_eq) }
  { case 2 show ?case using Suc by (auto simp: liballoc_memset_def) }
qed

lemma within_nth: "unat p + n \<le> 2 ^ 64 \<Longrightarrow> within a p n \<longleftrightarrow> (\<exists>i < n. a = p + of_nat i)"
proof
  assume n: "unat p + n \<le> 2 ^ 64" and "within a p n"
  then have w: "unat p \<le> unat a" "unat a < unat p + n" by (simp_all add: within_def)
  have "p + of_nat (unat a - unat p) = a" using w(1) by (simp add: of_nat_diff)
  then show "\<exists>i < n. a = p + of_nat i" using w by (intro exI [of _ "unat a - unat p"]) auto
next
  assume n: "unat p + n \<le> 2 ^ 64" and "\<exists>i < n. a = p + of_nat i"
  then obtain i where i: "i < n" "a = p + of_nat i" by blast
  then have "unat (of_nat i :: u64) = i" "unat p + i < 2 ^ 64" using n by (simp_all add: unat_of_nat)
  then have "unat a = unat p + i" using i(2) by (subst i(2), subst unat_add_nowrap) simp_all
  then show "within a p n" using i(1) by (simp add: within_def)
qed

lemma within_shift:
  assumes "within a d n" and "unat s + n \<le> 2 ^ 64"
  shows "within (s + (a - d)) s n"
proof -
  have "unat (a - d) = unat a - unat d" using assms(1) by (simp add: within_def unat_diff_nowrap word_le_nat_alt)
  then have "unat (s + (a - d)) = unat s + (unat a - unat d)" using assms by (subst unat_add_nowrap) (auto simp: within_def)
  then show ?thesis using assms(1) by (auto simp: within_def)
qed

text \<open>A chunk of \<open>c\<close> bytes is copied, then the rest.\<close>
lemma copy_chunk:
  assumes u: "unat d + (unat c + n) < 2 ^ 64" "unat s + (unat c + n) < 2 ^ 64" "unat d + (unat c + n) \<le> unat s \<or> unat s + (unat c + n) \<le> unat d"
    and chunk: "\<And>y. b' y = (if within y d (unat c) then b (s + (y - d)) else b y)"
    and IH: "unat (d + c) + n < 2 ^ 64 \<Longrightarrow> unat (s + c) + n < 2 ^ 64 \<Longrightarrow> unat (d + c) + n \<le> unat (s + c) \<or> unat (s + c) + n \<le> unat (d + c) \<Longrightarrow>
      r = (if within a (d + c) n then b' (s + c + (a - (d + c))) else b' a)"
  shows "r = (if within a d (unat c + n) then b (s + (a - d)) else b a)"
proof -
  have w: "unat (d + c) = unat d + unat c" "unat (s + c) = unat s + unat c" using u by (subst unat_add_nowrap; simp)+
  have r: "r = (if within a (d + c) n then b' (s + (a - d)) else b' a)" using IH u w by (auto simp: add.assoc)
  have "b' (s + (a - d)) = b (s + (a - d))" if "within a d (unat c + n)"
  proof -
    have "within (s + (a - d)) s (unat c + n)" by (rule within_shift [OF that]) (use u in simp)
    then have "\<not> within (s + (a - d)) d (unat c)" using u by (auto simp: within_def)
    then show ?thesis by (simp add: chunk)
  qed
  moreover have "within a d (unat c + n) \<longleftrightarrow> within a (d + c) n \<or> within a d (unat c)" unfolding within_def w by auto
  ultimately show ?thesis using r by (auto simp: chunk)
qed

lemma copy_byte_chunk: "copy_byte d s b y = (if within y d (unat (1 :: u64)) then b (s + (y - d)) else b y)"
proof -
  have "within y d (unat (1 :: u64)) \<longleftrightarrow> y = d" unfolding within_def word_unat_eq_iff by auto
  then show ?thesis by (simp add: copy_byte_def)
qed

lemma copy_uint_chunk:
  assumes "unat d + 4 < 2 ^ 64"
  shows "copy_uint d s b y = (if within y d (unat (4 :: u64)) then b (s + (y - d)) else b y)"
proof -
  have u: "unat (d + 1) = unat d + 1" "unat (d + 2) = unat d + 2" "unat (d + 3) = unat d + 3" using assms by (subst unat_add_nowrap; simp)+
  have "within y d (unat (4 :: u64)) \<longleftrightarrow> y = d \<or> y = d + 1 \<or> y = d + 2 \<or> y = d + 3" unfolding within_def word_unat_eq_iff u by auto
  then show ?thesis by (auto simp: copy_uint_def)
qed

text \<open>Regions that are apart: the copy has the bytes of the source, the rest is as before.\<close>
lemma memcpy_bytes:
  assumes "unat d + n < 2 ^ 64" "unat s + n < 2 ^ 64" "unat d + n \<le> unat s \<or> unat s + n \<le> unat d"
  shows "liballoc_memcpy d s n b a = (if within a d n then b (s + (a - d)) else b a)"
  using assms
proof (induction d s n b rule: liballoc_memcpy.induct, goal_cases)
  case (1 d s n b)
  have "liballoc_memcpy (d + 4) (s + 4) n (copy_uint d s b) a = (if within a d (unat (4 :: u64) + n) then b (s + (a - d)) else b a)"
    by (rule copy_chunk [OF _ _ _ copy_uint_chunk 1(1)]) (use 1 in auto)
  moreover have "unat (4 :: u64) + n = Suc (Suc (Suc (Suc n)))" by simp
  ultimately show ?case by (simp only: liballoc_memcpy.simps)
next
  case (2 d s b)
  have "liballoc_memcpy (d + 1) (s + 1) 0 (copy_byte d s b) a = (if within a d (unat (1 :: u64) + 0) then b (s + (a - d)) else b a)"
    by (rule copy_chunk [OF _ _ _ copy_byte_chunk 2(1)]) (use 2 in auto)
  then show ?case by simp
next
  case (3 d s b)
  have "liballoc_memcpy (d + 1) (s + 1) (Suc 0) (copy_byte d s b) a = (if within a d (unat (1 :: u64) + Suc 0) then b (s + (a - d)) else b a)"
    by (rule copy_chunk [OF _ _ _ copy_byte_chunk 3(1)]) (use 3 in auto)
  then show ?case by simp
next
  case (4 d s b)
  have "liballoc_memcpy (d + 1) (s + 1) (Suc (Suc 0)) (copy_byte d s b) a = (if within a d (unat (1 :: u64) + Suc (Suc 0)) then b (s + (a - d)) else b a)"
    by (rule copy_chunk [OF _ _ _ copy_byte_chunk 4(1)]) (use 4 in auto)
  then show ?case by simp
qed (auto simp: within_def)

section \<open>\<open>kcalloc\<close> and \<open>krealloc\<close>\<close>

text \<open>Cleared memory, for products below 2 GB.\<close>
lemma kcalloc_clears:
  assumes ok: "heap_ok h H" and free: "liballoc_spinlock h = spinlock_init" and req: "unat nobj * unat sz + 4208 \<le> 2 ^ 31"
  shows "kcalloc nobj sz h = Halts \<or>
    (\<exists>p h' H'. kcalloc nobj sz h = Done (p, h') \<and> heap_ok h' H' \<and> live H' = insert (p, unat nobj * unat sz) (live H) \<and> p \<noteq> 0 \<and>
       (\<forall>i < unat nobj * unat sz. kbytes h' (p + of_nat i) = 0))"
proof -
  let ?n = "unat nobj * unat sz" and ?r = "scast (ucast (nobj * sz) :: u32) :: u64"
  have m: "unat (nobj * sz) = ?n" using req by (subst unat_mult_nowrap) simp_all
  have "unat (ucast (nobj * sz) :: u32) = ?n" using req m by (simp add: unat_ucast_mod)
  then have u: "unat ?r = ?n" using req by (subst scast_small) simp_all
  have small: "unat ?r + 4208 \<le> 2 ^ 32" using u req by simp
  show ?thesis
    using kmalloc_serves [OF ok free small]
  proof (elim disjE exE conjE)
    fix p h1 H1
    assume k: "kmalloc ?r h = Done (p, h1)" "heap_ok h1 H1" "live H1 = insert (p, unat ?r) (live H)" "p \<noteq> 0" "unat p + unat ?r < 2 ^ 64"
    let ?h = "liballoc_memset p 0 ?n h1"
    have run: "kcalloc nobj sz h = Done (p, ?h)" using k(1,4) u req by (simp add: kcalloc_def Let_def)
    obtain b where b: "?h = h1\<lparr>kbytes := b\<rparr>" using memset_bytes(2) by blast
    have "b a = kbytes h1 a" if "\<And>q k. (q, k) \<in> live H1 \<Longrightarrow> \<not> within a q k" for a
    proof -
      have "\<not> within a p ?n" using that k(3) u by auto
      then have "\<not> (\<exists>i < ?n. a = p + of_nat i)" using within_nth [of p ?n a] k(5) u by simp
      then show ?thesis using memset_bytes(1) [of p 0 ?n h1 a] b by auto
    qed
    then have "heap_ok ?h H1" unfolding b by (intro heap_ok_write [OF k(2)]) auto
    moreover have "\<forall>i < ?n. kbytes ?h (p + of_nat i) = 0" using memset_bytes(1) by auto
    ultimately show ?thesis using run k(3,4) u by auto
  qed (use u req in \<open>auto simp: kcalloc_def Let_def\<close>)
qed

text \<open>A block that grows: the bytes that were there are at the new place, and nothing else is lost.\<close>
lemma krealloc_grows:
  assumes ok: "heap_ok h H" and free: "liballoc_spinlock h = spinlock_init" and p: "(p, k) \<in> live H"
    and sz: "k < unat sz" "unat sz + 4208 \<le> 2 ^ 32"
  shows "krealloc p sz h = Halts \<or>
    (\<exists>q h' H'. krealloc p sz h = Done (q, h') \<and> heap_ok h' H' \<and> live H' = insert (q, unat sz) (live H - {(p, k)}) \<and>
       (\<forall>i < k. kbytes h' (q + of_nat i) = kbytes h (p + of_nat i)) \<and>
       (\<forall>(r, j) \<in> live H - {(p, k)}. \<forall>i < j. kbytes h' (r + of_nat i) = kbytes h (r + of_nat i)))"
proof -
  let ?h = "h\<lparr>liballoc_spinlock := 1\<rparr>"
  obtain x s where x: "(x, s, k) \<in> set (all_blocks H)" "p = uptr x" using p by (auto simp: live_def)
  then obtain H1 a n us vs H2 where H: "H = H1 @ (a, n, us @ (x, s, k) # vs) # H2" using block_split by blast
  note B = block_bounds [OF ok x(1)]
  have "(a, n, us @ (x, s, k) # vs) \<in> set H" using H by simp
  from seg_mid [OF grp_okD(3) [OF ok this]] obtain m where m: "minors h x = Some m" "min_magic m = LIBALLOC_MAGIC" "unat (min_req_size m) = k" by blast
  have g: "get_minor x ?h = Done m" using m(1) B(8) by (simp add: get_minor_def)
  have l: "liballoc_lock h = Done ?h" "liballoc_unlock ?h = h" using free by (simp_all add: liballoc_lock_def spin_once_def liballoc_unlock_def spinlock_init_def spinlock_release_def)
  have mn: "unalign_ptr p h - sizeof_minor = x" "p \<noteq> 0" using unalign_uptr [OF B(2,4)] B x(2) by (auto simp: sizeof_minor_def)
  have big: "\<not> sz \<le> ucast (min_req_size m)" "sz \<noteq> 0" using sz(1) m(3) by (auto simp: word_le_nat_alt unat_ucast_up)
  have run: "krealloc p sz h = bind_oc (kmalloc sz h) (\<lambda>(q, h). if q = 0 \<and> min_req_size m \<noteq> 0 then Wild
      else bind_oc (kfree p (h\<lparr>kbytes := liballoc_memcpy q p k (kbytes h)\<rparr>)) (\<lambda>h. Done (q, h)))"
    unfolding m(3) [symmetric] using big mn l g m(1,2) by (simp add: krealloc_def Let_def)
  show ?thesis
    using kmalloc_serves [OF ok free sz(2)]
  proof (elim disjE exE conjE)
    fix q h1 H1
    assume k: "kmalloc sz h = Done (q, h1)" "heap_ok h1 H1" "live H1 = insert (q, unat sz) (live H)" "q \<noteq> 0" "unat q + unat sz < 2 ^ 64"
        "liballoc_spinlock h1 = spinlock_init"
      and old: "\<forall>(r, j) \<in> live H. r \<noteq> q \<and> (unat r + j \<le> unat q \<or> unat q + unat sz \<le> unat r) \<and>
          (\<forall>i < j. kbytes h1 (r + of_nat i) = kbytes h (r + of_nat i))"
    let ?b = "liballoc_memcpy q p k (kbytes h1)" and ?h1 = "h1\<lparr>kbytes := liballoc_memcpy q p k (kbytes h1)\<rparr>"
    have pq: "q \<noteq> p" "unat p + k \<le> unat q \<or> unat q + unat sz \<le> unat p" using old p by auto
    have pk: "unat p + k < 2 ^ 64" by (rule live_bounds(3) [OF ok p])
    have cpy: "?b a = (if within a q k then kbytes h1 (p + (a - q)) else kbytes h1 a)" for a
      by (rule memcpy_bytes) (use k(5) pk pq sz(1) in auto)
    have "?b a = kbytes h1 a" if "\<And>r j. (r, j) \<in> live H1 \<Longrightarrow> \<not> within a r j" for a
    proof -
      have "\<not> within a q (unat sz)" using that k(3) by auto
      then have "\<not> within a q k" using sz(1) by (auto simp: within_def)
      then show ?thesis by (simp add: cpy)
    qed
    then have ok1: "heap_ok ?h1 H1" by (intro heap_ok_write [OF k(2)]) auto
    obtain h' H' where f: "kfree p ?h1 = Done h'" "heap_ok h' H'" "live H' = live H1 - {(p, k)}" "kbytes h' = ?b"
      using kfree_takes_one [OF ok1, of p k] k(3,6) p by auto
    have "live H' = insert (q, unat sz) (live H - {(p, k)})" using f(3) k(3) pq(1) by auto
    moreover have "kbytes h' (q + of_nat i) = kbytes h (p + of_nat i)" if i: "i < k" for i
    proof -
      have "within (q + of_nat i) q k" using within_nth [of q k "q + of_nat i"] k(5) sz(1) i by auto
      then show ?thesis using old p i f(4) cpy by auto
    qed
    moreover have "kbytes h' (r + of_nat i) = kbytes h (r + of_nat i)" if r: "(r, j) \<in> live H" "i < j" for r j i
    proof -
      have "unat r + j < 2 ^ 64" by (rule live_bounds(3) [OF ok r(1)])
      then have "within (r + of_nat i) r j" using within_nth [of r j "r + of_nat i"] r(2) by auto
      moreover have "unat r + j \<le> unat q \<or> unat q + unat sz \<le> unat r" using old r(1) by auto
      ultimately have "\<not> within (r + of_nat i) q k" using sz(1) by (auto simp: within_def)
      then show ?thesis using old r f(4) cpy by auto
    qed
    moreover have "krealloc p sz h = Done (q, h')" using run k(1,4) f(1) by simp
    ultimately show ?thesis using f(2) by blast
  qed (use run in simp)
qed

end
