(* ===== verification/Spec2Isabelle.thy ===== *)
theory Spec2Isabelle
  imports Main Prelude VfsTypes FatTable FatAlloc FatNames FatDir FatFile Ata KString KStdio Pmm Vmm UserStack Terminal Font Console Hansi ConsoleOk LineDisc Keyboard Elf VfsHeap Vfs VfsOk Mounts VfsRun Tasks Sched SchedRun Process Syscalls SysMem MemOk SysFile SysProc Gdt Irq Rtc Serial KArgs Spinlock Liballoc LiballocOk LiballocRun LiballocFree LiballocUse
begin

text \<open>
  A verification development of the discitix kernel.

  \<^bold>\<open>The program.\<close>  The kernel boots from a boot loader (\<open>src/src/init\<close>), sets up its descriptor tables,
  its memory managers, the file systems and the terminals, starts \<open>/bin/sh\<close> and from then on runs in
  interrupts: the timer switches tasks, the keyboard feeds the terminals, and \<open>int 0x80\<close> brings the system
  calls of the user programs.  The parts call each other downwards only, and the theories import each other the
  same way.

  \<^bold>\<open>Memory.\<close>  \<open>Pmm\<close> is \<open>mm/pmm.c\<close>: the static variables are the record \<open>pmm\<close>, the frames a bitmap of bytes.
  \<open>Vmm\<close> is \<open>mm/vmm.c\<close>: the record \<open>vm\<close> holds \<open>pmm\<close>, the 64-bit cells of memory and the root of the
  current tables; a walk of the processor is \<open>translate\<close>, the abstract meaning of the tables.  The lemmas describe
  the operations on the set of free frames and on the translation; the interface is the locale
  \<open>page_allocator\<close>, interpreted on \<open>pmalloc\<close> and \<open>pmm_free_pages\<close>.  \<open>Liballoc\<close> is the allocator \<open>mm/liballoc.c\<close> on top of the pages:
  headers are maps from addresses, forgotten when their memory goes to a client.  \<open>LiballocOk\<close> has its abstract state, a list of blocks with lists of
  allocations, \<open>LiballocRun\<close> and \<open>LiballocFree\<close> show that \<open>kmalloc\<close> and \<open>kfree\<close> add and take one allocation, and \<open>LiballocUse\<close> follows
  runs of calls and of writes, with \<open>kcalloc\<close> and \<open>krealloc\<close>.  \<open>Spinlock\<close> is its lock, \<open>libk/spinlock.c\<close>.

  \<^bold>\<open>Files.\<close>  \<open>FatTable\<close>, \<open>FatAlloc\<close>, \<open>FatNames\<close>, \<open>FatDir\<close> and \<open>FatFile\<close> are \<open>fs/fat32.c\<close>: the table behind
  its one-sector cache, cluster chains, the two kinds of names, directories, and files with mounting.  The
  driver's static variables are the record \<open>fatfs\<close>; the abstract table is \<open>fat_of\<close>, a directory is the list of its slots.
  \<open>Ata\<close> is the disk driver \<open>drivers/ata.c\<close> over its ports.  \<open>VfsTypes\<close>, \<open>VfsHeap\<close>, \<open>Vfs\<close> and \<open>Mounts\<close> are
  \<open>kernel/vfs\<close>, \<open>fs/devfs.c\<close> and \<open>fs/stripFS.c\<close>: dentries, inodes and open files are maps from addresses, as the C code
  shares them by pointers; \<open>VfsOk\<close> has the invariant of the directory tree and \<open>VfsRun\<close> the runs of the whole.

  \<^bold>\<open>Library.\<close>  \<open>KString\<close> and \<open>KStdio\<close> are \<open>libk/string.c\<close> and \<open>libk/stdio.c\<close>, on memory as a function from
  addresses to bytes where overlap matters and on byte lists elsewhere.

  \<^bold>\<open>Terminals.\<close>  \<open>Terminal\<close>, \<open>Console\<close>, \<open>Font\<close> and \<open>Hansi\<close> are the cells, the painting and the escape sequences of
  \<open>drivers/tty\<close>; \<open>ConsoleOk\<close> shows that output stays within the framebuffer.  \<open>LineDisc\<close> is \<open>tty_input.c\<close> and
  \<open>Keyboard\<close> is \<open>drivers/keyboard.c\<close>.  The abstract screen is a list of rows, the abstract line editor a line and a queue.

  \<^bold>\<open>Processes.\<close>  \<open>Elf\<close> is the loader \<open>kernel/elf.c\<close> and \<open>UserStack\<close> is \<open>kernel/sched/build_stack.c\<close>.  \<open>Tasks\<close> has
  the records \<open>task\<close> and \<open>kernel\<close> and the circular task list; \<open>Sched\<close> is the scheduler and the timer interrupt,
  \<open>SchedRun\<close> its guarantees; \<open>Process\<close> creates and copies tasks.  The abstract task list is a list of addresses (\<open>ring\<close>).

  \<^bold>\<open>System calls.\<close>  \<open>Syscalls\<close> has what a handler gets and gives, \<open>SysMem\<close>, \<open>SysFile\<close> and \<open>SysProc\<close> are \<open>mem.c\<close>,
  \<open>fops.c\<close> and \<open>proc.c\<close> with the dispatch of \<open>syscall.c\<close>, and \<open>MemOk\<close> what a mapping does to the address space.

  \<^bold>\<open>Processor and devices.\<close>  \<open>Gdt\<close> is \<open>arch/x86_64/gdt.c\<close> and \<open>idt.c\<close> with the gates of \<open>isr.c\<close>, \<open>irq.c\<close> and \<open>syscall.c\<close>: tables of bytes,
  and how the processor reads them.  \<open>Irq\<close> is the interrupt controllers, the dispatch of \<open>irq.c\<close> and the handlers of the timer, the keyboard and the
  clock; a timer interrupt as a whole rests on \<open>SchedRun\<close>.  \<open>Rtc\<close> is \<open>drivers/rtc.c\<close>, \<open>Serial\<close> is \<open>drivers/serial.c\<close> with the log of
  \<open>libk/utils.c\<close>, \<open>KArgs\<close> the command line of the kernel.  The controllers, the clock and the serial port are also given as
  models of their data sheets, on which the lemmas show that the code sets them up and uses them rightly.

  \<^bold>\<open>How the code is written down.\<close>  A machine integer is a \<open>word\<close> of its C width, so wrap-around is the
  code's.  C's \<open>int\<close> is \<open>int\<close> where it cannot overflow.  A call that changes state takes and gives the state.  The result
  type \<open>outcome\<close> has \<open>Done\<close>, \<open>Halts\<close> (the kernel stays in an endless loop or stops) and \<open>Wild\<close> (the code reads or writes
  where no object of the right kind is, or divides by zero); an option is used for the same where only
  one of them can happen.  A loop that need not end is a \<open>partial_function (option)\<close>, \<open>None\<close> being the endless run, and the theorems
  that say it returns state \<open>Some\<close>.  In the FAT driver \<open>None\<close> is every way not to come back, also a long name written past
  \<open>long_name[256]\<close> and the division by a cluster size of zero; the virtual file system counts it as \<open>Halts\<close> and keeps \<open>Wild\<close> for
  its own pointers.  There is no fuel: loops with a counter in the code recurse on that counter, as the
  polling of the disk with its 100000 rounds.  Interrupts are off inside handlers, so a handler is one step; a handler that waits
  gives the state in which it starts to wait and the condition of its loop (\<open>wait\<close>).

  \<^bold>\<open>Parameters and assumptions.\<close>  What user addresses lead to is the parameter \<open>user\<close> of the handlers.  The devices behind the
  ports are functions of a state.  The objects of the virtual file system and the tasks do not lie in the bytes of the allocator: \<open>VfsHeap.kmalloc\<close> is a source of new addresses
  that may fail at any call (\<open>kmalloc_ok\<close>), and the memory of tasks a list of answers (\<open>task_memory\<close>); that addresses are new is what
  \<open>LiballocUse\<close> shows of \<open>Liballoc.kmalloc\<close>.  Theorems on address spaces assume that frame 0 is in use, as the boot loader's map
  guarantees.  Witnesses show for each theorem with a hypothesis a concrete state in which it holds.

  \<^bold>\<open>Not modelled.\<close>  Log output to the serial port has no effect on the kernel and is left out of the operations that write it.
  The boot loader's interface (\<open>limine.h\<close>, \<open>stivale2.h\<close>, \<open>limine_req.c\<close>) is declarations; what the kernel reads of it is an argument of the
  operations that use it.  The assembly stubs that save the registers (\<open>interrupts.asm\<close>) and the port instructions are the
  interface to the processor.  Of \<open>init/main.c\<close> the start of a program and the installation of the handlers are modelled; the rest is a
  list of calls.  Pictures and banners that are only printed (\<open>sysfetch\<close>, \<open>print_font_details\<close>, \<open>rtc_print_time\<close>) are left out.

\<close>

end
